(* ===== verification/Prelude.thy ===== *)
theory Prelude
  imports Main "HOL-Library.AList"
begin

text \<open>
  What the components share: JavaScript objects with string keys as association lists
  (insertion order, one entry per key), the string operation \<open>split\<close>, and a few facts on
  lists. A JavaScript object is read with \<^const>\<open>map_of\<close>, written with \<^const>\<open>AList.update\<close>
  (which keeps the position of an existing key and appends a new one) and
  \<open>delete obj[k]\<close> is \<^const>\<open>AList.delete\<close>.
\<close>

named_theorems obj_simps "laws of JavaScript objects kept as association lists"

type_synonym ('k, 'v) obj = "('k \<times> 'v) list"

abbreviation obj_get :: "('k, 'v) obj \<Rightarrow> 'k \<Rightarrow> 'v option" where
  "obj_get \<equiv> map_of"

abbreviation obj_set :: "'k \<Rightarrow> 'v \<Rightarrow> ('k, 'v) obj \<Rightarrow> ('k, 'v) obj" where
  "obj_set \<equiv> AList.update"

abbreviation obj_del :: "'k \<Rightarrow> ('k, 'v) obj \<Rightarrow> ('k, 'v) obj" where
  "obj_del \<equiv> AList.delete"

abbreviation keys :: "('k, 'v) obj \<Rightarrow> 'k list" where
  "keys xs \<equiv> map fst xs"

lemmas [obj_simps] = update_conv' delete_conv' distinct_update distinct_delete dom_map_of_conv_image_fst

lemma set_keys_update [obj_simps]: "fst ` set (obj_set k v xs) = insert k (fst ` set xs)"
  by (simp add: dom_update)

lemma set_keys_delete [obj_simps]: "fst ` set (obj_del k xs) = fst ` set xs - {k}"
  by (induction xs) auto

lemma in_update_D: "(k', v') \<in> set (obj_set k v xs) \<Longrightarrow> (k', v') = (k, v) \<or> (k', v') \<in> set xs"
  by (induction xs) (auto split: if_splits)

lemma in_delete_D: "x \<in> set (obj_del k xs) \<Longrightarrow> x \<in> set xs"
  by (induction xs) (auto split: if_splits)

lemma in_delete_iff: "(k', v') \<in> set (obj_del k xs) \<longleftrightarrow> k' \<noteq> k \<and> (k', v') \<in> set xs"
  by (induction xs) auto

lemma in_update_iff:
  "distinct (keys xs) \<Longrightarrow>
     (k', v') \<in> set (obj_set k v xs) \<longleftrightarrow> (if k' = k then v' = v else (k', v') \<in> set xs)"
  by (induction xs) (auto simp: image_iff)

lemma obj_get_mem: "distinct (keys xs) \<Longrightarrow> (k, v) \<in> set xs \<longleftrightarrow> obj_get xs k = Some v"
  by (simp add: map_of_eq_Some_iff)

text \<open>\<open>{...a, ...b}\<close>.\<close>

definition merge_obj :: "('k, 'v) obj \<Rightarrow> ('k, 'v) obj \<Rightarrow> ('k, 'v) obj" where
  "merge_obj a b = foldl (\<lambda>g (k, v). obj_set k v g) a b"

lemma get_merge: "obj_get (merge_obj a b) = obj_get a ++ obj_get b" if "distinct (keys b)"
proof -
  have "obj_get (foldl (\<lambda>g (k, v). obj_set k v g) g b) = obj_get g ++ obj_get b" for g
    using that
  proof (induction b arbitrary: g)
    case (Cons kv b)
    obtain k v where kv: "kv = (k, v)" by (cases kv)
    have "k \<notin> dom (obj_get b)" using Cons.prems kv by (auto simp: dom_map_of_conv_image_fst)
    then show ?case using Cons kv by (auto simp: update_conv' fun_eq_iff map_add_def split: option.splits)
  qed simp
  then show ?thesis by (simp add: merge_obj_def)
qed

section \<open>Strings\<close>

text \<open>\<open>s.split(d)\<close> for a one-character separator: never the empty list.\<close>

fun split_on :: "char \<Rightarrow> string \<Rightarrow> string list" where
  "split_on d [] = [[]]"
| "split_on d (c # cs) =
     (if c = d then [] # split_on d cs
      else (case split_on d cs of [] \<Rightarrow> [[c]] | w # ws \<Rightarrow> (c # w) # ws))"

text \<open>\<open>ws.join(d)\<close>.\<close>

fun join_with :: "char \<Rightarrow> string list \<Rightarrow> string" where
  "join_with d [] = []"
| "join_with d [w] = w"
| "join_with d (w # v # ws) = w @ d # join_with d (v # ws)"

lemma split_on_nonempty [simp]: "split_on d s \<noteq> []"
  by (induction s) (auto split: list.splits)

lemma join_with_Cons: "ws \<noteq> [] \<Longrightarrow> join_with d (w # ws) = w @ d # join_with d ws"
  by (cases ws) auto

lemma join_split [simp]: "join_with d (split_on d s) = s"
proof (induction s)
  case (Cons c cs)
  obtain w ws where "split_on d cs = w # ws"
    by (cases "split_on d cs") auto
  with Cons show ?case by (cases ws) auto
qed simp

lemma split_on_inj: "split_on d s = split_on d t \<longleftrightarrow> s = t"
  by (metis join_split)

lemma split_on_no_sep: "w \<in> set (split_on d s) \<Longrightarrow> d \<notin> set w"
proof (induction s arbitrary: w)
  case (Cons c cs)
  then show ?case by (cases "split_on d cs") (auto split: if_splits)
qed simp

lemma split_on_single: "d \<notin> set w \<Longrightarrow> split_on d w = [w]"
  by (induction w) auto

lemma split_on_append: "d \<notin> set w \<Longrightarrow> split_on d (w @ d # s) = w # split_on d s"
  by (induction w) auto

lemma split_join: "ws \<noteq> [] \<Longrightarrow> (\<forall>w \<in> set ws. d \<notin> set w) \<Longrightarrow> split_on d (join_with d ws) = ws"
  by (induction d ws rule: join_with.induct) (auto simp: split_on_single split_on_append)

end
