(* ===== verification/Subjects.thy ===== *)
theory Subjects
  imports Prelude
begin

text \<open>
  Subjects and subscription patterns: \<open>isValidSubject\<close> and
  \<open>isValidSubjectWithoutWildcards\<close> of \<^verbatim>\<open>packages/conat/util.ts\<close> and the reference matcher
  \<open>matchesPattern\<close> of \<^verbatim>\<open>packages/conat/core/patterns.ts\<close>. Characters are \<^typ>\<open>char\<close>; the
  white space that the regular expression \<^verbatim>\<open>\s\<close> matches is the ASCII part of it plus the
  byte 0xA0.
\<close>

section \<open>Valid subjects\<close>

definition is_space :: "char \<Rightarrow> bool" where
  "is_space c \<longleftrightarrow> of_char c \<in> {9, 10, 11, 12, 13, 32, 160 :: nat}"

abbreviation dot :: char where
  "dot \<equiv> CHR ''.''"

abbreviation segments :: "string \<Rightarrow> string list" where
  "segments s \<equiv> split_on dot s"

text \<open>The body of the loop over the tokens, in the source's order.\<close>

definition token_ok :: "string list \<Rightarrow> nat \<Rightarrow> bool" where
  "token_ok tokens i =
     (let tok = tokens ! i in
      if tok = ''>'' \<and> i \<noteq> length tokens - 1 then False
      else if tok \<noteq> ''*'' \<and> tok \<noteq> ''>'' \<and> (\<exists>c \<in> set tok. c = dot \<or> is_space c) then False
      else if \<exists>c \<in> set tok. is_space c then False
      else True)"

definition isValidSubject :: "string \<Rightarrow> bool" where
  "isValidSubject subject =
     (if length subject = 0 then False
      else if hd subject = dot \<or> last subject = dot then False
      else let tokens = segments subject in
        if \<exists>t \<in> set tokens. length t = 0 then False
        else list_all (token_ok tokens) [0..<length tokens])"

definition isValidSubjectWithoutWildcards :: "string \<Rightarrow> bool" where
  "isValidSubjectWithoutWildcards subject \<longleftrightarrow>
     isValidSubject subject \<and> CHR ''*'' \<notin> set subject \<and> \<not> (subject \<noteq> [] \<and> last subject = CHR ''>'')"

section \<open>Matching a pattern, the reference definition\<close>

text \<open>The loop of \<open>matchesPattern\<close>: both indexes move together.\<close>

fun matchesSegments :: "string list \<Rightarrow> string list \<Rightarrow> bool" where
  "matchesSegments (p # ps) (s # ss) =
     (if p = ''>'' then True
      else if p \<noteq> ''*'' \<and> p \<noteq> s then False
      else matchesSegments ps ss)"
| "matchesSegments ps ss \<longleftrightarrow> ss = [] \<and> ps = []"

definition matchesPattern :: "string \<Rightarrow> string \<Rightarrow> bool" where
  "matchesPattern pattern subject = matchesSegments (segments pattern) (segments subject)"

definition matchesSegment :: "string \<Rightarrow> string \<Rightarrow> bool" where
  "matchesSegment pattern subject =
     (if pattern = ''*'' \<or> pattern = ''>'' then True else pattern = subject)"

section \<open>Well-formed segment lists\<close>

text \<open>What validity of a pattern gives the index: no empty segment, \<open>>\<close> only at the end.\<close>

fun wf_segments :: "string list \<Rightarrow> bool" where
  "wf_segments [] = True"
| "wf_segments (s # ss) \<longleftrightarrow> s \<noteq> '''' \<and> (s = ''>'' \<longrightarrow> ss = []) \<and> wf_segments ss"

lemma wf_segments_nth:
  "wf_segments ss \<longleftrightarrow> (\<forall>i < length ss. ss ! i \<noteq> '''' \<and> (ss ! i = ''>'' \<longrightarrow> Suc i = length ss))"
proof (induction ss)
  case (Cons s ss)
  then show ?case by (auto simp: All_less_Suc2)
qed simp

lemma token_ok_wildcard: "token_ok ts i \<Longrightarrow> i < length ts \<Longrightarrow> ts ! i = ''>'' \<Longrightarrow> Suc i = length ts"
  by (simp add: token_ok_def Let_def split: if_splits)

lemma valid_tokens:
  assumes "isValidSubject s"
  shows "'''' \<notin> set (segments s)"
    and "i < length (segments s) \<Longrightarrow> token_ok (segments s) i"
  using assms by (auto simp: isValidSubject_def Let_def list_all_iff split: if_splits)

lemma valid_wf:
  assumes "isValidSubject s"
  shows "wf_segments (segments s)"
  unfolding wf_segments_nth
proof (intro allI impI)
  fix i assume i: "i < length (segments s)"
  have "segments s ! i \<noteq> ''''"
    using valid_tokens(1) [OF assms] nth_mem [OF i] by metis
  moreover have "segments s ! i = ''>'' \<longrightarrow> Suc i = length (segments s)"
    using token_ok_wildcard [OF valid_tokens(2) [OF assms i] i] by blast
  ultimately show "segments s ! i \<noteq> '''' \<and> (segments s ! i = ''>'' \<longrightarrow> Suc i = length (segments s))"
    by blast
qed

lemma wf_segments_append:
  "wf_segments (xs @ y # ys) \<longleftrightarrow> wf_segments xs \<and> ''>'' \<notin> set xs \<and> wf_segments (y # ys)"
  by (induction xs) auto

lemma set_split_on: "w \<in> set (split_on d s) \<Longrightarrow> set w \<subseteq> set s"
proof (induction s arbitrary: w)
  case (Cons c cs)
  then show ?case by (cases "split_on d cs") (fastforce split: if_splits)+
qed simp

lemma last_join_with: "ws \<noteq> [] \<Longrightarrow> last ws \<noteq> [] \<Longrightarrow> last (join_with d ws) = last (last ws) \<and> join_with d ws \<noteq> []"
  by (induction d ws rule: join_with.induct) auto

text \<open>A valid subject without wildcards has no wildcard segment and no empty one.\<close>

lemma valid_concrete:
  assumes "isValidSubjectWithoutWildcards s"
  shows "'''' \<notin> set (segments s)" and "''*'' \<notin> set (segments s)" and "''>'' \<notin> set (segments s)"
proof -
  have v: "isValidSubject s" and star: "CHR ''*'' \<notin> set s" and gt: "\<not> (s \<noteq> [] \<and> last s = CHR ''>'')"
    using assms by (auto simp: isValidSubjectWithoutWildcards_def)
  show "'''' \<notin> set (segments s)" using valid_tokens(1) [OF v] .
  show "''*'' \<notin> set (segments s)" using set_split_on [of "''*''" dot s] star by auto
  show "''>'' \<notin> set (segments s)"
  proof
    assume "''>'' \<in> set (segments s)"
    then obtain i where i: "i < length (segments s)" "segments s ! i = ''>''"
      by (auto simp: in_set_conv_nth)
    with token_ok_wildcard [OF valid_tokens(2) [OF v i(1)]] have "Suc i = length (segments s)" by blast
    with i have "last (segments s) = ''>''"
      by (metis diff_Suc_1 last_conv_nth split_on_nonempty)
    with last_join_with [of "segments s" dot] gt show False by simp
  qed
qed

end
