(* ===== verification/Misc.thy ===== *)
theory Misc
  imports Prelude "HOL-Library.Word"
begin

text \<open>
  From \<^verbatim>\<open>packages/util/misc.ts\<close>: the string hash. The loop keeps a 32-bit integer
  (\<open>hash << 5\<close> and \<open>hash |= 0\<close> both reduce modulo 2^32), the result is its signed value.
\<close>

fun hash_loop :: "32 word \<Rightarrow> string \<Rightarrow> 32 word" where
  "hash_loop hash [] = hash"
| "hash_loop hash (chr # rest) = hash_loop (push_bit 5 hash - hash + of_nat (of_char chr)) rest"

definition hash_string :: "string \<Rightarrow> int" where
  "hash_string s = (if length s = 0 then 0 else sint (hash_loop 0 s))"

text \<open>The polynomial the loop computes: each character weighted by a power of 31.\<close>

lemma push_bit_5_minus: "push_bit 5 (h :: 32 word) - h = 31 * h"
  by (simp add: push_bit_eq_mult)

lemma hash_loop_append: "hash_loop h (xs @ ys) = hash_loop (hash_loop h xs) ys"
  by (induction xs arbitrary: h) auto

lemma hash_loop_eq:
  "hash_loop h s = 31 ^ length s * h + hash_loop 0 s"
proof (induction s arbitrary: h)
  case (Cons c cs)
  let ?c = "of_nat (of_char c) :: 32 word"
  have "hash_loop h (c # cs) = 31 ^ length cs * (31 * h + ?c) + hash_loop 0 cs"
    using Cons [of "31 * h + ?c"] by (simp add: push_bit_5_minus)
  moreover have "hash_loop 0 (c # cs) = 31 ^ length cs * ?c + hash_loop 0 cs"
    using Cons [of ?c] by simp
  ultimately show ?case by (simp add: algebra_simps)
qed simp

lemma hash_string_range: "- (2 ^ 31) \<le> hash_string s \<and> hash_string s < 2 ^ 31"
  using sint_ge [of "hash_loop 0 s"] sint_lt [of "hash_loop 0 s"] by (simp add: hash_string_def)

end
