(* ===== verification/Patterns.thy ===== *)
theory Patterns
  imports Subjects Misc
begin

text \<open>
  The subject index of \<^verbatim>\<open>packages/conat/core/patterns.ts\<close>: class \<open>Patterns\<close> with its trie
  \<open>index\<close> and the functions \<open>setIndex\<close>, \<open>deleteIndex\<close> and \<open>matchUsingIndex\<close>. The index is
  a JavaScript object whose values are strings (a complete pattern) or further objects. The
  theory proves the index equivalent to the reference matcher \<^const>\<open>matchesPattern\<close> as long as
  no stored pattern extends another one where something is deleted, shows what goes wrong
  otherwise, and states the result as the interface \<open>subject_store\<close>.
\<close>

section \<open>The index\<close>

datatype index_val = Leaf string | Sub "(string \<times> index_val) list"

type_synonym index = "(string, index_val) obj"

datatype patterns_error = Bug

fun setIndex :: "index \<Rightarrow> string list \<Rightarrow> string \<Rightarrow> index" where
  "setIndex index [] pattern = obj_set '''' (Leaf pattern) index"
| "setIndex index (s # rest) pattern =
     (if s = ''>'' then obj_set ''>'' (Leaf pattern) index
      else (case obj_get index s of
          None \<Rightarrow> obj_set s (Sub (setIndex [] rest pattern)) index
        | Some (Leaf _) \<Rightarrow> index
        | Some (Sub v) \<Rightarrow> obj_set s (Sub (setIndex v rest pattern)) index))"

text \<open>
  \<open>segments[0]\<close> of an empty array is \<open>undefined\<close>, which as a property name is the string
  \<open>"undefined"\<close>.
\<close>

definition seg0 :: "string list \<Rightarrow> string" where
  "seg0 segs = (case segs of [] \<Rightarrow> ''undefined'' | s # _ \<Rightarrow> s)"

lemma map_of_Sub_size [termination_simp]:
  "map_of xs k = Some (Sub v) \<Longrightarrow>
     size_list (size_prod (\<lambda>_. 0) size) v < size_list (size_prod (\<lambda>_. 0) size) xs"
  by (induction xs) (auto split: if_splits)

function deleteIndex :: "index \<Rightarrow> string list \<Rightarrow> index" where
  "deleteIndex index segs =
     (let s = seg0 segs in
      case obj_get index s of
        None \<Rightarrow> index
      | Some (Leaf _) \<Rightarrow> obj_del s index
      | Some (Sub ind) \<Rightarrow>
          (let ind' = deleteIndex ind (tl segs) in
           if \<exists>k \<in> set (keys ind'). k \<noteq> '''' then obj_set s (Sub ind') index
           else obj_del s index))"
  by pat_completeness auto
termination
  by (relation "measure (\<lambda>(index, segs). size_list (size_prod (\<lambda>_. 0) size) index)")
     (auto simp: map_of_Sub_size)

declare deleteIndex.simps [simp del]

text \<open>
  The result of the loop over \<open>["*", ">", subject]\<close>, given what each pattern contributes:
  with \<open>atMostOne\<close> it returns at the first element found.
\<close>

fun collect_matches :: "bool \<Rightarrow> (patterns_error + string list) list \<Rightarrow> patterns_error + string list" where
  "collect_matches atMostOne [] = Inr []"
| "collect_matches atMostOne (r # rs) =
     (case r of
        Inl e \<Rightarrow> Inl e
      | Inr xs \<Rightarrow>
          if atMostOne \<and> xs \<noteq> [] then Inr [hd xs]
          else (case collect_matches atMostOne rs of Inl e \<Rightarrow> Inl e | Inr ys \<Rightarrow> Inr (xs @ ys)))"

fun matchUsingIndex :: "index \<Rightarrow> string list \<Rightarrow> bool \<Rightarrow> patterns_error + string list" where
  "matchUsingIndex index [] atMostOne =
     (case obj_get index '''' of
        None \<Rightarrow> Inr []
      | Some (Leaf p) \<Rightarrow> Inr [p]
      | Some (Sub _) \<Rightarrow> Inl Bug)"
| "matchUsingIndex index (subject # rest) atMostOne =
     collect_matches atMostOne
       (map (\<lambda>pattern. case obj_get index pattern of
            None \<Rightarrow> Inr []
          | Some (Leaf p) \<Rightarrow>
              Inr (if rest = [] then [p] else if pattern = ''>'' then [p] else [])
          | Some (Sub v) \<Rightarrow> matchUsingIndex v rest atMostOne)
         [''*'', ''>'', subject])"

section \<open>What an index stores\<close>

text \<open>
  The abstraction: the complete pattern found by following a list of segments. A well-formed
  index has complete patterns under the keys \<open>""\<close> and \<open>">"\<close> only, and no empty object below
  its root.
\<close>

fun stored :: "index \<Rightarrow> string list \<Rightarrow> string option" where
  "stored index [] = (case obj_get index '''' of Some (Leaf p) \<Rightarrow> Some p | _ \<Rightarrow> None)"
| "stored index (s # ss) =
     (case obj_get index s of
        Some (Leaf p) \<Rightarrow> if s = ''>'' \<and> ss = [] then Some p else None
      | Some (Sub v) \<Rightarrow> stored v ss
      | None \<Rightarrow> None)"

fun wf_val :: "index_val \<Rightarrow> bool" where
  "wf_val (Leaf p) = True"
| "wf_val (Sub index) \<longleftrightarrow> distinct (map fst index) \<and>
     (\<forall>x \<in> set index. (case snd x of Leaf _ \<Rightarrow> fst x \<in> {'''', ''>''} | Sub v \<Rightarrow> fst x \<notin> {'''', ''>''} \<and> v \<noteq> []) \<and>
        wf_val (snd x))"

abbreviation wf_index :: "index \<Rightarrow> bool" where
  "wf_index index \<equiv> wf_val (Sub index)"

lemma wf_index_Leaf: "wf_index index \<Longrightarrow> obj_get index k = Some (Leaf p) \<Longrightarrow> k = '''' \<or> k = ''>''"
  by (force dest: map_of_SomeD)

lemma wf_index_Sub:
  "wf_index index \<Longrightarrow> obj_get index k = Some (Sub v) \<Longrightarrow> k \<noteq> '''' \<and> k \<noteq> ''>'' \<and> wf_index v"
  by (force dest: map_of_SomeD)

lemma wf_index_Nil [simp]: "wf_index []"
  by simp

lemma wf_index_update:
  "wf_index index \<Longrightarrow> wf_val v \<Longrightarrow>
     (case v of Leaf _ \<Rightarrow> k \<in> {'''', ''>''} | Sub i \<Rightarrow> k \<notin> {'''', ''>''} \<and> i \<noteq> []) \<Longrightarrow>
     wf_index (obj_set k v index)"
  by (cases v) (auto simp: obj_simps dest!: in_update_D)

lemma wf_index_delete: "wf_index index \<Longrightarrow> wf_index (obj_del k index)"
  by (auto simp: obj_simps dest!: in_delete_D)

lemmas wf_index_simps = wf_index_update wf_index_delete
declare wf_val.simps [simp del]

lemma obj_set_ne [simp]: "obj_set k v xs \<noteq> []"
  by (cases xs) auto

lemma setIndex_ne [simp]: "index \<noteq> [] \<or> index = [] \<and> wf_index index \<Longrightarrow> setIndex index ss p \<noteq> []"
  by (cases ss) (auto split: option.splits index_val.splits)

lemma wf_setIndex: "wf_index index \<Longrightarrow> wf_segments ss \<Longrightarrow> wf_index (setIndex index ss p)"
proof (induction index ss p rule: setIndex.induct)
  case (1 index p)
  then show ?case by (simp add: wf_index_update wf_val.simps(1))
next
  case (2 index s rest p)
  show ?case
  proof (cases "obj_get index s")
    case None
    then show ?thesis using 2 by (auto simp: wf_index_update wf_val.simps(1))
  next
    case (Some v)
    then show ?thesis using 2 wf_index_Sub [OF "2.prems"(1)]
      by (cases v) (auto simp: wf_index_update wf_val.simps(1))
  qed
qed

lemma wf_deleteIndex: "wf_index index \<Longrightarrow> wf_index (deleteIndex index ss)"
proof (induction index ss rule: deleteIndex.induct)
  case (1 index ss)
  show ?case
  proof (cases "obj_get index (seg0 ss)")
    case None
    with 1 show ?thesis by (simp add: deleteIndex.simps [of index ss])
  next
    case (Some v)
    then show ?thesis
    proof (cases v)
      case (Leaf p)
      with Some 1 show ?thesis by (simp add: deleteIndex.simps [of index ss] wf_index_delete)
    next
      case (Sub i)
      with Some wf_index_Sub [OF "1.prems"] have i: "wf_index i" "seg0 ss \<noteq> ''''" "seg0 ss \<noteq> ''>''"
        by blast+
      have "wf_index (deleteIndex i (tl ss))"
        using "1.IH" [OF refl Some] Sub i by simp
      with i "1.prems" Some Sub show ?thesis
        by (auto simp: deleteIndex.simps [of index ss] Let_def intro!: wf_index_simps)
    qed
  qed
qed

lemma stored_Nil [simp]: "stored [] ss = None"
  by (cases ss) auto

text \<open>Adding a pattern changes what is stored under its own segments, and nothing else.\<close>

lemma stored_setIndex:
  "wf_index index \<Longrightarrow> wf_segments ss \<Longrightarrow>
     stored (setIndex index ss p) ts = (if ts = ss then Some p else stored index ts)"
proof (induction index ss p arbitrary: ts rule: setIndex.induct)
  case (1 index p)
  then show ?case
    by (cases ts) (auto simp: obj_simps dest: wf_index_Sub split: option.splits index_val.splits)
next
  case (2 index s rest p)
  show ?case
  proof (cases "s = ''>''")
    case True
    with "2.prems" show ?thesis
      by (cases ts) (auto simp: obj_simps dest: wf_index_Sub split: option.splits index_val.splits)
  next
    case False
    with "2.prems" have rest: "wf_segments rest" and s: "s \<noteq> ''''" by auto
    show ?thesis
    proof (cases "obj_get index s")
      case None
      from "2.IH"(1) [OF False None wf_index_Nil rest] None False s show ?thesis
        by (cases ts) (auto simp: obj_simps)
    next
      case (Some v)
      with False s wf_index_Leaf [OF "2.prems"(1)] obtain i where v: "v = Sub i"
        by (cases v) auto
      with Some wf_index_Sub [OF "2.prems"(1)] have "wf_index i" by blast
      from "2.IH"(2) [OF False Some v this rest] Some v False s show ?thesis
        by (cases ts) (auto simp: obj_simps)
    qed
  qed
qed

section \<open>Matching with the index is matching by the reference definition\<close>

text \<open>The contribution of one of the three keys the loop looks at.\<close>

abbreviation via :: "index \<Rightarrow> string list \<Rightarrow> bool \<Rightarrow> string \<Rightarrow> patterns_error + string list" where
  "via index rest atMostOne pattern \<equiv>
     (case obj_get index pattern of
        None \<Rightarrow> Inr []
      | Some (Leaf p) \<Rightarrow> Inr (if rest = [] then [p] else if pattern = ''>'' then [p] else [])
      | Some (Sub v) \<Rightarrow> matchUsingIndex v rest atMostOne)"

definition matching :: "index \<Rightarrow> string list \<Rightarrow> string set" where
  "matching index subj = {p. \<exists>ss. stored index ss = Some p \<and> matchesSegments ss subj}"

definition inj_stored :: "index \<Rightarrow> bool" where
  "inj_stored index \<longleftrightarrow>
     (\<forall>ss ts p. stored index ss = Some p \<longrightarrow> stored index ts = Some p \<longrightarrow> ss = ts)"

lemma inj_stored_Sub:
  assumes "inj_stored index" and "obj_get index k = Some (Sub v)"
  shows "inj_stored v"
  unfolding inj_stored_def
proof (intro allI impI)
  fix ss ts p assume "stored v ss = Some p" "stored v ts = Some p"
  with assms have "stored index (k # ss) = Some p" "stored index (k # ts) = Some p"
    by simp_all
  with assms(1) show "ss = ts" unfolding inj_stored_def by blast
qed

lemma matchesSegments_Nil [simp]: "matchesSegments ss [] \<longleftrightarrow> ss = []"
  by (cases ss) auto

lemma matching_Nil: "matching index [] = {p. obj_get index '''' = Some (Leaf p)}"
  by (auto simp: matching_def split: option.splits index_val.splits)

lemma matching_Cons:
  "matching index (s # rest) =
     (\<Union>k \<in> {''*'', ''>'', s}. {p. \<exists>ss. stored index (k # ss) = Some p \<and> matchesSegments (k # ss) (s # rest)})"
proof (intro equalityI subsetI)
  fix p assume "p \<in> matching index (s # rest)"
  then obtain ss where ss: "stored index ss = Some p" "matchesSegments ss (s # rest)"
    by (auto simp: matching_def)
  then obtain k ss' where "ss = k # ss'" by (cases ss) auto
  moreover from this ss have "k \<in> {''*'', ''>'', s}" by (auto split: if_splits)
  ultimately show "p \<in> (\<Union>k \<in> {''*'', ''>'', s}.
      {p. \<exists>ss. stored index (k # ss) = Some p \<and> matchesSegments (k # ss) (s # rest)})"
    using ss by blast
next
  fix p assume "p \<in> (\<Union>k \<in> {''*'', ''>'', s}.
      {p. \<exists>ss. stored index (k # ss) = Some p \<and> matchesSegments (k # ss) (s # rest)})"
  then show "p \<in> matching index (s # rest)" unfolding matching_def by blast
qed

lemma via_ok:
  assumes wf: "wf_index index" and s: "s \<noteq> ''''" and k: "k \<in> {''*'', ''>'', s}"
    and IH: "\<And>v. obj_get index k = Some (Sub v) \<Longrightarrow>
      \<exists>r. matchUsingIndex v rest False = Inr r \<and> set r = matching v rest \<and> (distinct r \<or> Q v)"
    and Q: "\<And>v. obj_get index k = Some (Sub v) \<Longrightarrow> Q v \<Longrightarrow> R"
  shows "\<exists>r. via index rest False k = Inr r \<and>
    set r = {p. \<exists>ss. stored index (k # ss) = Some p \<and> matchesSegments (k # ss) (s # rest)} \<and>
    (distinct r \<or> R)"
proof (cases "obj_get index k")
  case None
  then show ?thesis by simp
next
  case (Some v)
  show ?thesis
  proof (cases v)
    case (Leaf p)
    with Some wf_index_Leaf [OF wf] k s have "k = ''>''" by auto
    with Some Leaf show ?thesis by simp
  next
    case (Sub i)
    with Some wf_index_Sub [OF wf] have ne: "k \<noteq> ''>''" by blast
    from IH Some Sub obtain r where
      "matchUsingIndex i rest False = Inr r" "set r = matching i rest" "distinct r \<or> Q i" by blast
    with Some Sub ne k Q show ?thesis by (auto simp: matching_def)
  qed
qed

lemma collect_three:
  "collect_matches False [Inr a, Inr b, Inr c] = Inr (a @ b @ c)"
  by simp

text \<open>The main fact: same matches, no error, and no match twice for a concrete subject.\<close>

lemma matchUsingIndex_ok:
  assumes "wf_index index" and "'''' \<notin> set subj"
  shows "\<exists>r. matchUsingIndex index subj False = Inr r \<and> set r = matching index subj \<and>
    (distinct r \<or> \<not> (inj_stored index \<and> ''*'' \<notin> set subj \<and> ''>'' \<notin> set subj))"
  using assms
proof (induction subj arbitrary: index)
  case Nil
  show ?case
  proof (cases "obj_get index ''''")
    case (Some v)
    with wf_index_Sub [OF Nil.prems(1)] show ?thesis
      by (cases v) (auto simp: matching_Nil)
  qed (simp add: matching_Nil)
next
  case (Cons s rest)
  let ?bad = "\<lambda>index subj. \<not> (inj_stored index \<and> ''*'' \<notin> set subj \<and> ''>'' \<notin> set subj)"
  let ?S = "\<lambda>k. {p. \<exists>ss. stored index (k # ss) = Some p \<and> matchesSegments (k # ss) (s # rest)}"
  have *: "\<exists>r. via index rest False k = Inr r \<and> set r = ?S k \<and> (distinct r \<or> ?bad index (s # rest))"
    if "k \<in> {''*'', ''>'', s}" for k
  proof (rule via_ok [OF Cons.prems(1) _ that, where Q = "\<lambda>v. ?bad v rest"])
    show "s \<noteq> ''''" using Cons.prems(2) by auto
  next
    fix v assume "obj_get index k = Some (Sub v)"
    with Cons wf_index_Sub [OF Cons.prems(1)]
    show "\<exists>r. matchUsingIndex v rest False = Inr r \<and> set r = matching v rest \<and> (distinct r \<or> ?bad v rest)"
      by simp
  next
    fix v assume "obj_get index k = Some (Sub v)" "?bad v rest"
    with inj_stored_Sub show "?bad index (s # rest)" by auto
  qed
  obtain a b c where
    a: "via index rest False ''*'' = Inr a" "set a = ?S ''*''" "distinct a \<or> ?bad index (s # rest)" and
    b: "via index rest False ''>'' = Inr b" "set b = ?S ''>''" "distinct b \<or> ?bad index (s # rest)" and
    c: "via index rest False s = Inr c" "set c = ?S s" "distinct c \<or> ?bad index (s # rest)"
    using * [of "''*''"] * [of "''>''"] * [of s] by blast
  have r: "matchUsingIndex index (s # rest) False = Inr (a @ b @ c)"
    using a(1) b(1) c(1) by (simp only: matchUsingIndex.simps list.map collect_three)
  have sets: "set (a @ b @ c) = matching index (s # rest)"
    unfolding matching_Cons using a(2) b(2) c(2) by simp
  have "distinct (a @ b @ c)" if ok: "\<not> ?bad index (s # rest)"
  proof -
    from ok have disj: "?S k \<inter> ?S l = {}" if "k \<noteq> l" for k l
      using that unfolding inj_stored_def by blast
    have "''*'' \<noteq> ''>''" "''*'' \<noteq> s" "''>'' \<noteq> s" using ok by auto
    then have "set a \<inter> set b = {}" "set a \<inter> set c = {}" "set b \<inter> set c = {}"
      unfolding a(2) b(2) c(2) by (simp_all only: disj not_False_eq_True)
    moreover have "distinct a" "distinct b" "distinct c" using ok a(3) b(3) c(3) by blast+
    ultimately show ?thesis by (simp add: Int_Un_distrib)
  qed
  with r sets show ?case by blast
qed

text \<open>With \<open>atMostOne\<close> the result is the first match, if there is one.\<close>

lemma collect_matches_one:
  "\<forall>r \<in> set rs. isl r = False \<Longrightarrow> length rs = length qs \<Longrightarrow>
     (\<forall>i < length rs. qs ! i = map_sum (\<lambda>e. e) (take 1) (rs ! i)) \<Longrightarrow>
     collect_matches True qs = map_sum (\<lambda>e. e) (take 1) (collect_matches False rs)"
proof (induction rs arbitrary: qs)
  case (Cons r rs)
  then obtain q qs' where qs: "qs = q # qs'" by (cases qs) auto
  from Cons.prems(3) have q: "q = map_sum (\<lambda>e. e) (take 1) r"
    and qs': "\<forall>i < length rs. qs' ! i = map_sum (\<lambda>e. e) (take 1) (rs ! i)"
    using qs by (auto simp: All_less_Suc2)
  have IH: "collect_matches True qs' = map_sum (\<lambda>e. e) (take 1) (collect_matches False rs)"
    using Cons qs qs' by simp
  from Cons.prems(1) obtain xs where xs: "r = Inr xs" by (cases r) auto
  from Cons.prems(1) have "\<exists>ys. collect_matches False rs = Inr ys"
    by (induction rs) (auto split: sum.splits)
  with IH q qs xs show ?case by (cases xs) auto
qed simp

lemma matchUsingIndex_one:
  assumes "wf_index index" and "'''' \<notin> set subj"
  shows "matchUsingIndex index subj True = map_sum (\<lambda>e. e) (take 1) (matchUsingIndex index subj False)"
  using assms
proof (induction subj arbitrary: index)
  case Nil
  then show ?case by (auto split: option.splits index_val.splits)
next
  case (Cons s rest)
  let ?ks = "[''*'', ''>'', s]"
  have ne: "isl (via index rest False k) = False" for k
  proof -
    have "\<exists>r. matchUsingIndex v rest False = Inr r" if "obj_get index k = Some (Sub v)" for v
      using that Cons.prems matchUsingIndex_ok [of v rest] wf_index_Sub [OF Cons.prems(1)] by auto
    then show ?thesis by (auto split: option.splits index_val.splits)
  qed
  have eq: "via index rest True k = map_sum (\<lambda>e. e) (take 1) (via index rest False k)" for k
    using Cons wf_index_Sub [OF Cons.prems(1)] by (auto split: option.splits index_val.splits)
  have "collect_matches True (map (via index rest True) ?ks) =
      map_sum (\<lambda>e. e) (take 1) (collect_matches False (map (via index rest False) ?ks))"
  proof (rule collect_matches_one)
    show "\<forall>r \<in> set (map (via index rest False) ?ks). isl r = False" using ne by simp
    show "length (map (via index rest False) ?ks) = length (map (via index rest True) ?ks)" by simp
    show "\<forall>i < length (map (via index rest False) ?ks). map (via index rest True) ?ks ! i =
        map_sum (\<lambda>e. e) (take 1) (map (via index rest False) ?ks ! i)"
      by (intro allI impI) (simp only: length_map nth_map eq)
  qed
  then show ?case by (simp only: matchUsingIndex.simps)
qed

section \<open>Deleting from the index\<close>

definition strict_prefix_segs :: "string list \<Rightarrow> string list \<Rightarrow> bool" where
  "strict_prefix_segs ss ts \<longleftrightarrow> (\<exists>y ys. ts = ss @ y # ys)"

lemma strict_prefix_segs_Nil [simp]: "strict_prefix_segs [] ts \<longleftrightarrow> ts \<noteq> []"
  by (auto simp: strict_prefix_segs_def neq_Nil_conv)

lemma strict_prefix_segs_Nil2 [simp]: "\<not> strict_prefix_segs ss []"
  by (simp add: strict_prefix_segs_def)

lemma strict_prefix_segs_Cons [simp]:
  "strict_prefix_segs (s # ss) (t # ts) \<longleftrightarrow> s = t \<and> strict_prefix_segs ss ts"
  by (auto simp: strict_prefix_segs_def)

text \<open>A non-empty well-formed index stores something, below every key it has.\<close>

lemma wf_index_stores:
  "wf_val w \<Longrightarrow> w = Sub index \<Longrightarrow> k \<in> set (keys index) \<Longrightarrow>
     \<exists>us. stored index us \<noteq> None \<and> (k = '''' \<longrightarrow> us = []) \<and> (k \<noteq> '''' \<longrightarrow> (\<exists>us'. us = k # us'))"
proof (induction w arbitrary: index k rule: wf_val.induct)
  case (2 idx)
  then have idx: "idx = index" and wf: "wf_index index" by auto
  from 2 obtain v where v: "obj_get index k = Some v" "(k, v) \<in> set index"
    by (force simp: wf_val.simps)
  show ?case
  proof (cases v)
    case (Leaf p)
    with wf_index_Leaf [OF wf] v(1) consider "k = ''''" | "k = ''>''" by blast
    then show ?thesis
    proof cases
      case 1
      with Leaf v(1) show ?thesis by (auto intro: exI [of _ "[]"])
    next
      case 2
      with Leaf v(1) show ?thesis by (auto intro: exI [of _ "[''>'']"])
    qed
  next
    case (Sub i)
    from wf v(2) Sub have i: "i \<noteq> []" "k \<noteq> ''''" "wf_index i"
      by (force simp: wf_val.simps(2) [of index])+
    then obtain k' where "k' \<in> set (keys i)" by (cases i) auto
    with "2.IH" [of "(k, v)" i k'] v(2) Sub i(3) idx obtain us where "stored i us \<noteq> None"
      by auto
    with Sub v(1) i(2) show ?thesis by (auto intro: exI [of _ "k # us"])
  qed
qed simp

text \<open>An index without anything but possibly a complete pattern at its root stores only that.\<close>

lemma stored_only_root:
  "\<not> (\<exists>k \<in> set (keys index). k \<noteq> '''') \<Longrightarrow> us \<noteq> [] \<Longrightarrow> wf_index index \<Longrightarrow> stored index us = None"
  by (cases us; cases "obj_get index (hd us)")
    (auto dest!: map_of_SomeD dest: wf_index_Sub split: index_val.splits simp: wf_val.simps)

text \<open>
  Deleting removes exactly the given pattern, as long as nothing stored extends it or is
  extended by it.
\<close>

lemma stored_deleteIndex:
  assumes "wf_index index" and "wf_segments ss" and "ss \<noteq> []"
    and "\<And>us. stored index us \<noteq> None \<Longrightarrow> \<not> strict_prefix_segs us ss \<and> \<not> strict_prefix_segs ss us"
  shows "stored (deleteIndex index ss) ts = (if ts = ss then None else stored index ts)"
  using assms
proof (induction index ss arbitrary: ts rule: deleteIndex.induct)
  case (1 index ss)
  then obtain s rest where ss: "ss = s # rest" by (cases ss) auto
  then have s0: "seg0 ss = s" by (simp add: seg0_def)
  have s_ne: "s \<noteq> ''''" using "1.prems"(2) ss by simp
  show ?case
  proof (cases "obj_get index s")
    case None
    with s0 have "deleteIndex index ss = index" by (simp add: deleteIndex.simps [of index ss])
    with None ss show ?thesis by (cases ts) auto
  next
    case (Some v)
    show ?thesis
    proof (cases v)
      case (Leaf p)
      with Some s_ne wf_index_Leaf [OF "1.prems"(1)] have "s = ''>''" by auto
      moreover from Some Leaf s0 have "deleteIndex index ss = obj_del s index"
        by (simp add: deleteIndex.simps [of index ss])
      ultimately show ?thesis using Some Leaf ss s0 "1.prems"(2)
        by (cases ts) (auto simp: obj_simps)
    next
      case (Sub i)
      with Some wf_index_Sub [OF "1.prems"(1)] have i: "wf_index i" and s': "s \<noteq> ''>''" by blast+
      have up: "stored index (s # us) = stored i us" for us using Some Sub by simp
      have free: "\<not> strict_prefix_segs us rest \<and> \<not> strict_prefix_segs rest us"
        if "stored i us \<noteq> None" for us
        using "1.prems"(4) [of "s # us"] that ss up by auto
      let ?d = "deleteIndex i rest"
      have step: "deleteIndex index ss =
          (if \<exists>k \<in> set (keys ?d). k \<noteq> '''' then obj_set s (Sub ?d) index else obj_del s index)"
        unfolding deleteIndex.simps [of index ss] using Some Sub s0 ss by (simp add: Let_def)
      show ?thesis
      proof (cases "rest = []")
        case True
        \<comment> \<open>the pattern ends here, and nothing else is stored below\<close>
        then have root: "\<forall>k \<in> set (keys i). k = ''''"
          using wf_index_stores [OF i refl] free by force
        then have "obj_get i ''undefined'' = None"
          by (auto simp: map_of_eq_None_iff)
        then have "?d = i" using True by (simp add: deleteIndex.simps [of i] seg0_def)
        with step root have del: "deleteIndex index ss = obj_del s index" by auto
        have "stored i us = None" if "us \<noteq> []" for us
          using stored_only_root [OF _ that i] root by auto
        with del ss True up show ?thesis
          using s_ne by (cases ts) (auto simp: obj_simps)
      next
        case False
        have d: "stored ?d us = (if us = rest then None else stored i us)" for us
          using "1.IH" [OF s0 [symmetric], of "Sub i" i us] Some Sub s0 i ss "1.prems"(2) free False
          by auto
        show ?thesis
        proof (cases "\<exists>k \<in> set (keys ?d). k \<noteq> ''''")
          case True
          with step ss d up Some Sub show ?thesis
            by (cases ts) (auto simp: obj_simps)
        next
          case nk: False
          have "stored i [] = None" using free [of "[]"] False by (meson strict_prefix_segs_Nil)
          then have "stored i us = None" if "us \<noteq> rest" for us
            using that d [of us] stored_only_root [OF nk _ wf_deleteIndex [OF i], of us] by (cases us) auto
          with step ss nk up Some Sub False show ?thesis
            by (cases ts) (auto simp: obj_simps)
        qed
      qed
    qed
  qed
qed

section \<open>The class Patterns\<close>

record 't patterns_obj =
  patterns :: "(string, 't) obj"
  idx :: index

definition new_Patterns :: "'t patterns_obj" where
  "new_Patterns = \<lparr>patterns = [], idx = []\<rparr>"

definition patterns_close :: "'t patterns_obj \<Rightarrow> 't patterns_obj" where
  "patterns_close P = P\<lparr>patterns := [], idx := []\<rparr>"

definition patterns_hash :: "('t \<Rightarrow> int) \<Rightarrow> 't patterns_obj \<Rightarrow> int" where
  "patterns_hash hashT P = foldl (\<lambda>h (pattern, t). h + (hash_string pattern + hashT t)) 0 (patterns P)"

definition patterns_serialize ::
  "('t \<Rightarrow> 'a) \<Rightarrow> 't patterns_obj \<Rightarrow> (string, 'a) obj \<times> index" where
  "patterns_serialize fromT P = (map (\<lambda>(pattern, t). (pattern, fromT t)) (patterns P), idx P)"

definition patterns_deserialize ::
  "(string, 'a) obj \<times> index \<Rightarrow> ('a \<Rightarrow> 't) \<Rightarrow> 't patterns_obj \<Rightarrow> 't patterns_obj" where
  "patterns_deserialize data toT P =
     P\<lparr>patterns := map (\<lambda>(pattern, x). (pattern, toT x)) (fst data), idx := snd data\<rparr>"

definition patterns_matches :: "'t patterns_obj \<Rightarrow> string \<Rightarrow> patterns_error + string list" where
  "patterns_matches P subject = matchUsingIndex (idx P) (segments subject) False"

definition hasMatch :: "'t patterns_obj \<Rightarrow> string \<Rightarrow> patterns_error + bool" where
  "hasMatch P subject =
     (case matchUsingIndex (idx P) (segments subject) True of
        Inl e \<Rightarrow> Inl e
      | Inr v \<Rightarrow> Inr (length v > 0))"

definition hasPattern :: "'t patterns_obj \<Rightarrow> string \<Rightarrow> bool" where
  "hasPattern P pattern \<longleftrightarrow> obj_get (patterns P) pattern \<noteq> None"

definition matchNaive :: "'t patterns_obj \<Rightarrow> string \<Rightarrow> string list" where
  "matchNaive P subject = filter (\<lambda>pattern. matchesPattern pattern subject) (keys (patterns P))"

definition patterns_get :: "'t patterns_obj \<Rightarrow> string \<Rightarrow> 't option" where
  "patterns_get P pattern = obj_get (patterns P) pattern"

definition patterns_set :: "string \<Rightarrow> 't \<Rightarrow> 't patterns_obj \<Rightarrow> 't patterns_obj" where
  "patterns_set pattern t P =
     P\<lparr>patterns := obj_set pattern t (patterns P),
       idx := setIndex (idx P) (segments pattern) pattern\<rparr>"

definition patterns_delete :: "string \<Rightarrow> 't patterns_obj \<Rightarrow> 't patterns_obj" where
  "patterns_delete pattern P =
     P\<lparr>patterns := obj_del pattern (patterns P),
       idx := deleteIndex (idx P) (segments pattern)\<rparr>"

definition patterns_merge :: "'t patterns_obj \<Rightarrow> 't patterns_obj \<Rightarrow> 't patterns_obj" where
  "patterns_merge p P = fold (\<lambda>(pattern, t). patterns_set pattern t) (patterns p) P"

text \<open>
  The class invariant: the index stores exactly the keys of \<open>patterns\<close>, each under its own
  segments.
\<close>

definition patterns_inv :: "'t patterns_obj \<Rightarrow> bool" where
  "patterns_inv P \<longleftrightarrow>
     wf_index (idx P) \<and> distinct (keys (patterns P)) \<and>
     (\<forall>p \<in> set (keys (patterns P)). wf_segments (segments p)) \<and>
     (\<forall>ss p. stored (idx P) ss = Some p \<longleftrightarrow> p \<in> set (keys (patterns P)) \<and> ss = segments p)"

definition extends_pattern :: "string \<Rightarrow> string \<Rightarrow> bool" where
  "extends_pattern p q \<longleftrightarrow> strict_prefix_segs (segments p) (segments q)"

lemma patterns_inv_new [simp]: "patterns_inv new_Patterns"
  by (simp add: patterns_inv_def new_Patterns_def)

lemma patterns_inv_set:
  assumes "patterns_inv P" and "wf_segments (segments p)"
  shows "patterns_inv (patterns_set p t P)"
  using assms unfolding patterns_inv_def patterns_set_def
  by (auto simp: wf_setIndex stored_setIndex obj_simps split_on_inj)

lemma patterns_inv_delete:
  assumes inv: "patterns_inv P" and wf: "wf_segments (segments p)"
    and free: "\<forall>q. hasPattern P q \<longrightarrow> \<not> extends_pattern p q \<and> \<not> extends_pattern q p"
  shows "patterns_inv (patterns_delete p P)"
proof -
  have "stored (deleteIndex (idx P) (segments p)) ss =
      (if ss = segments p then None else stored (idx P) ss)" for ss
  proof (rule stored_deleteIndex)
    fix us assume "stored (idx P) us \<noteq> None"
    then obtain q where "stored (idx P) us = Some q" by auto
    with inv have "q \<in> set (keys (patterns P))" "us = segments q"
      by (auto simp: patterns_inv_def)
    with free show "\<not> strict_prefix_segs us (segments p) \<and> \<not> strict_prefix_segs (segments p) us"
      by (auto simp: hasPattern_def extends_pattern_def map_of_eq_None_iff)
  qed (use inv wf in \<open>simp_all add: patterns_inv_def\<close>)
  with inv show ?thesis
    unfolding patterns_inv_def patterns_delete_def
    by (auto simp: wf_deleteIndex obj_simps split_on_inj)
qed

lemma patterns_inv_inj: "patterns_inv P \<Longrightarrow> inj_stored (idx P)"
  by (auto simp: patterns_inv_def inj_stored_def)

lemma set_matchNaive:
  "set (matchNaive P subject) = {p. patterns_get P p \<noteq> None \<and> matchesPattern p subject}"
  by (auto simp: matchNaive_def patterns_get_def map_of_eq_None_iff)

lemma matching_patterns:
  "patterns_inv P \<Longrightarrow> matching (idx P) (segments subject) = set (matchNaive P subject)"
  by (auto simp: matching_def patterns_inv_def matchNaive_def matchesPattern_def)

lemma patterns_matches_ok:
  assumes "patterns_inv P" and "'''' \<notin> set (segments subject)"
  shows "\<exists>r. patterns_matches P subject = Inr r \<and> set r = set (matchNaive P subject) \<and>
    (''*'' \<notin> set (segments subject) \<longrightarrow> ''>'' \<notin> set (segments subject) \<longrightarrow> distinct r)"
  using matchUsingIndex_ok [of "idx P" "segments subject"] assms patterns_inv_inj [OF assms(1)]
  by (auto simp: patterns_matches_def matching_patterns patterns_inv_def)

lemma hasMatch_ok:
  assumes "patterns_inv P" and "'''' \<notin> set (segments subject)"
  shows "hasMatch P subject = Inr (matchNaive P subject \<noteq> [])"
proof -
  obtain r where r: "patterns_matches P subject = Inr r" "set r = set (matchNaive P subject)"
    using patterns_matches_ok [OF assms] by blast
  have "matchUsingIndex (idx P) (segments subject) True = Inr (take 1 r)"
    using matchUsingIndex_one [of "idx P" "segments subject"] assms r(1)
    by (simp add: patterns_inv_def patterns_matches_def)
  then show ?thesis using r(2) by (cases r) (auto simp: hasMatch_def)
qed

lemma patterns_hash_sum:
  "patterns_hash hashT P = (\<Sum>(pattern, t) \<leftarrow> patterns P. hash_string pattern + hashT t)"
proof -
  have "foldl (\<lambda>h (pattern, t). h + (hash_string pattern + hashT t)) a xs =
      a + (\<Sum>(pattern, t) \<leftarrow> xs. hash_string pattern + hashT t)" for a and xs :: "(string \<times> 'a) list"
    by (induction xs arbitrary: a) auto
  then show ?thesis by (simp add: patterns_hash_def)
qed

section \<open>Where deleting goes wrong\<close>

text \<open>
  \<open>deleteIndex\<close> keeps the object below a segment only if it has a key besides \<open>""\<close>. If a
  pattern is stored together with one extension of it, deleting the extension therefore drops
  the pattern itself from the index, and deleting the pattern leaves it in the index.
\<close>

lemma deleteIndex_extension:
  "wf_segments (ss @ [x]) \<Longrightarrow>
     deleteIndex (setIndex (setIndex [] ss p) (ss @ [x]) q) (ss @ [x]) =
       (if ss = [] then [('''', Leaf p)] else [])"
proof (induction ss)
  case Nil
  then show ?case
    by (cases "x = ''>''") (auto simp: deleteIndex.simps seg0_def Let_def)
next
  case (Cons s ss)
  then have s: "s \<noteq> ''''" "s \<noteq> ''>''" and rest: "wf_segments (ss @ [x])" by auto
  let ?i = "setIndex (setIndex [] ss p) (ss @ [x]) q"
  have "setIndex (setIndex [] (s # ss) p) ((s # ss) @ [x]) q = [(s, Sub ?i)]"
    using s by simp
  then show ?case
    using Cons.IH [OF rest] s by (simp add: deleteIndex.simps [of "[(s, Sub ?i)]"] seg0_def Let_def)
qed

lemma deleteIndex_prefix:
  "wf_segments (ss @ [x]) \<Longrightarrow> x \<noteq> ''undefined'' \<Longrightarrow>
     deleteIndex (setIndex (setIndex [] ss p) (ss @ [x]) q) ss = setIndex (setIndex [] ss p) (ss @ [x]) q \<and>
     (\<exists>k \<in> set (keys (setIndex (setIndex [] ss p) (ss @ [x]) q)). k \<noteq> '''')"
proof (induction ss)
  case Nil
  then show ?case
    by (cases "x = ''>''") (auto simp: deleteIndex.simps seg0_def Let_def)
next
  case (Cons s ss)
  then have s: "s \<noteq> ''''" "s \<noteq> ''>''" and rest: "wf_segments (ss @ [x])" by auto
  let ?i = "setIndex (setIndex [] ss p) (ss @ [x]) q"
  have "setIndex (setIndex [] (s # ss) p) ((s # ss) @ [x]) q = [(s, Sub ?i)]"
    using s by simp
  then show ?case
    using Cons.IH [OF rest Cons.prems(2)] s
    by (auto simp: deleteIndex.simps [of "[(s, Sub ?i)]"] seg0_def Let_def)
qed

text \<open>Two patterns, the second one segment longer than the first.\<close>

definition two_patterns :: "string \<Rightarrow> string \<Rightarrow> 't \<Rightarrow> 't patterns_obj" where
  "two_patterns p q t = patterns_set q t (patterns_set p t new_Patterns)"

lemma delete_extension_forgets:
  assumes "segments q = segments p @ [x]" and "wf_segments (segments q)"
  shows "idx (patterns_delete q (two_patterns p q t)) = []"
    and "hasPattern (patterns_delete q (two_patterns p q t)) p"
proof -
  have "q \<noteq> p" using assms(1) by auto
  then show "hasPattern (patterns_delete q (two_patterns p q t)) p"
    by (simp add: hasPattern_def patterns_delete_def two_patterns_def patterns_set_def
        new_Patterns_def obj_simps)
  show "idx (patterns_delete q (two_patterns p q t)) = []"
    using deleteIndex_extension [of "segments p" x p q] assms
    by (simp add: patterns_delete_def two_patterns_def patterns_set_def new_Patterns_def)
qed

lemma delete_prefix_keeps:
  assumes "segments q = segments p @ [x]" and "wf_segments (segments q)" and "x \<noteq> ''undefined''"
  shows "idx (patterns_delete p (two_patterns p q t)) = idx (two_patterns p q t)"
    and "\<not> hasPattern (patterns_delete p (two_patterns p q t)) p"
  using deleteIndex_prefix [of "segments p" x p q] assms
  by (simp_all add: patterns_delete_def two_patterns_def patterns_set_def new_Patterns_def
      hasPattern_def obj_simps)

section \<open>The interface\<close>

text \<open>
  What the server and the cluster links rely on: a store of values by pattern whose
  \<open>matches\<close> is the reference matcher. Deleting is only promised where no other pattern of
  the store extends the deleted one or is extended by it.
\<close>

locale subject_store =
  fixes invar :: "'s \<Rightarrow> bool"
    and get :: "'s \<Rightarrow> string \<Rightarrow> 't option"
    and put :: "string \<Rightarrow> 't \<Rightarrow> 's \<Rightarrow> 's"
    and remove :: "string \<Rightarrow> 's \<Rightarrow> 's"
    and matches :: "'s \<Rightarrow> string \<Rightarrow> 'e + string list"
    and has_match :: "'s \<Rightarrow> string \<Rightarrow> 'e + bool"
  assumes invar_put: "invar s \<Longrightarrow> wf_segments (segments p) \<Longrightarrow> invar (put p t s)"
    and get_put: "get (put p t s) q = (if q = p then Some t else get s q)"
    and get_remove: "get (remove p s) q = (if q = p then None else get s q)"
    and invar_remove: "invar s \<Longrightarrow> wf_segments (segments p) \<Longrightarrow>
      \<forall>q. get s q \<noteq> None \<longrightarrow> \<not> extends_pattern p q \<and> \<not> extends_pattern q p \<Longrightarrow>
      invar (remove p s)"
    and matches: "invar s \<Longrightarrow> '''' \<notin> set (segments subject) \<Longrightarrow>
      \<exists>r. matches s subject = Inr r \<and> set r = {p. get s p \<noteq> None \<and> matchesPattern p subject} \<and>
        (''*'' \<notin> set (segments subject) \<longrightarrow> ''>'' \<notin> set (segments subject) \<longrightarrow> distinct r)"
    and has_match: "invar s \<Longrightarrow> '''' \<notin> set (segments subject) \<Longrightarrow>
      has_match s subject = Inr (\<exists>p. get s p \<noteq> None \<and> matchesPattern p subject)"
begin

lemma has_match_put:
  assumes "invar s" and "wf_segments (segments p)" and "'''' \<notin> set (segments subject)"
  shows "has_match (put p t s) subject =
    Inr (matchesPattern p subject \<or> (\<exists>q. get s q \<noteq> None \<and> matchesPattern q subject))"
proof -
  have "(\<exists>q. get (put p t s) q \<noteq> None \<and> matchesPattern q subject) \<longleftrightarrow>
      matchesPattern p subject \<or> (\<exists>q. get s q \<noteq> None \<and> matchesPattern q subject)"
    by (metis get_put option.distinct(1))
  then show ?thesis unfolding has_match [OF invar_put [OF assms(1,2)] assms(3)] by (rule arg_cong)
qed

lemma get_fold_put:
  "distinct (map fst xs) \<Longrightarrow>
     get (fold (\<lambda>(p, t). put p t) xs s) q = (case map_of xs q of Some t \<Rightarrow> Some t | None \<Rightarrow> get s q)"
proof (induction xs arbitrary: s)
  case (Cons x xs)
  then have "map_of xs (fst x) = None" by (simp add: map_of_eq_None_iff)
  with Cons show ?case by (cases x) (auto simp: get_put split: option.splits)
qed simp

lemma invar_fold_put:
  "invar s \<Longrightarrow> \<forall>p \<in> fst ` set xs. wf_segments (segments p) \<Longrightarrow>
     invar (fold (\<lambda>(p, t). put p t) xs s)"
  by (induction xs arbitrary: s) (auto simp: invar_put)

text \<open>Merging one store's entries into another: the union of the patterns is matched.\<close>

lemma matches_fold_put:
  assumes "invar s" and "distinct (map fst xs)" and "\<forall>p \<in> fst ` set xs. wf_segments (segments p)"
    and "'''' \<notin> set (segments subject)"
  shows "\<exists>r. matches (fold (\<lambda>(p, t). put p t) xs s) subject = Inr r \<and>
    set r = {p. (p \<in> fst ` set xs \<or> get s p \<noteq> None) \<and> matchesPattern p subject}"
proof -
  have "get (fold (\<lambda>(p, t). put p t) xs s) p \<noteq> None \<longleftrightarrow> p \<in> fst ` set xs \<or> get s p \<noteq> None" for p
  proof -
    have "p \<in> fst ` set xs \<longleftrightarrow> map_of xs p \<noteq> None" by (simp add: map_of_eq_None_iff)
    then show ?thesis unfolding get_fold_put [OF assms(2)] by (cases "map_of xs p") auto
  qed
  with matches [OF invar_fold_put [OF assms(1,3)] assms(4)] show ?thesis by auto
qed

end

interpretation ps: subject_store patterns_inv patterns_get patterns_set patterns_delete
  patterns_matches hasMatch
proof
  fix P :: "'t patterns_obj" and p q t subject
  show "patterns_inv P \<Longrightarrow> wf_segments (segments p) \<Longrightarrow> patterns_inv (patterns_set p t P)"
    by (rule patterns_inv_set)
  show "patterns_get (patterns_set p t P) q = (if q = p then Some t else patterns_get P q)"
    by (simp add: patterns_get_def patterns_set_def obj_simps)
  show "patterns_get (patterns_delete p P) q = (if q = p then None else patterns_get P q)"
    by (simp add: patterns_get_def patterns_delete_def obj_simps)
  show "patterns_inv (patterns_delete p P)" if "patterns_inv P" "wf_segments (segments p)"
    "\<forall>q. patterns_get P q \<noteq> None \<longrightarrow> \<not> extends_pattern p q \<and> \<not> extends_pattern q p"
    using that by (intro patterns_inv_delete) (auto simp: hasPattern_def patterns_get_def)
  assume inv: "patterns_inv P" and ne: "'''' \<notin> set (segments subject)"
  show "\<exists>r. patterns_matches P subject = Inr r \<and>
      set r = {p. patterns_get P p \<noteq> None \<and> matchesPattern p subject} \<and>
      (''*'' \<notin> set (segments subject) \<longrightarrow> ''>'' \<notin> set (segments subject) \<longrightarrow> distinct r)"
    using patterns_matches_ok [OF inv ne] by (simp add: set_matchNaive)
  show "hasMatch P subject = Inr (\<exists>p. patterns_get P p \<noteq> None \<and> matchesPattern p subject)"
  proof -
    have "matchNaive P subject \<noteq> [] \<longleftrightarrow> (\<exists>p. p \<in> set (matchNaive P subject))"
      by (cases "matchNaive P subject") auto
    with hasMatch_ok [OF inv ne] show ?thesis by (simp add: set_matchNaive)
  qed
qed

section \<open>Properties\<close>

lemma patterns_inv_fold:
  "\<forall>p \<in> fst ` set ops. isValidSubject p \<Longrightarrow> patterns_inv P \<Longrightarrow>
     patterns_inv (fold (\<lambda>(p, t). patterns_set p t) ops P)"
  by (rule ps.invar_fold_put) (auto intro: valid_wf)

text \<open>
  C16: after any sequence of \<open>set\<close> calls with valid patterns on an empty store, \<open>matches\<close> on a
  valid concrete subject raises no error and returns exactly the patterns that the reference
  matcher \<open>matchesPattern\<close> accepts, each once; \<open>hasMatch\<close> says whether there is one.
\<close>

theorem matches_is_reference:
  fixes ops :: "(string \<times> 't) list"
  assumes "\<forall>p \<in> fst ` set ops. isValidSubject p"
    and "isValidSubjectWithoutWildcards subject"
  defines "P \<equiv> fold (\<lambda>(p, t). patterns_set p t) ops new_Patterns"
  shows "\<exists>r. patterns_matches P subject = Inr r \<and> distinct r \<and>
    set r = {p \<in> fst ` set ops. matchesPattern p subject} \<and>
    hasMatch P subject = Inr (\<exists>p \<in> fst ` set ops. matchesPattern p subject)"
proof -
  have inv: "patterns_inv P" unfolding P_def by (rule patterns_inv_fold [OF assms(1)]) simp
  have dom: "patterns_get P p \<noteq> None \<longleftrightarrow> p \<in> fst ` set ops" for p
  proof -
    have "patterns_get (fold (\<lambda>(p, t). patterns_set p t) ops Q) p \<noteq> None \<longleftrightarrow>
        p \<in> fst ` set ops \<or> patterns_get Q p \<noteq> None" for Q :: "'t patterns_obj"
      by (induction ops arbitrary: Q) (auto simp: ps.get_put split: if_splits)
    then show ?thesis by (simp add: P_def patterns_get_def new_Patterns_def)
  qed
  note ne = valid_concrete [OF assms(2)]
  show ?thesis
    using ps.matches [OF inv ne(1)] ps.has_match [OF inv ne(1)] ne(2,3) unfolding dom by (auto simp: Bex_def)
qed

theorem matches_is_reference_witness:
  "\<exists>r. patterns_matches (fold (\<lambda>(p, t). patterns_set p t)
        [(''a.*'', 1 :: nat), (''a.>'', 2), (''b'', 3)] new_Patterns) ''a.b'' = Inr r \<and> distinct r \<and>
    set r = {p \<in> fst ` set [(''a.*'', 1 :: nat), (''a.>'', 2), (''b'', 3)]. matchesPattern p ''a.b''} \<and>
    hasMatch (fold (\<lambda>(p, t). patterns_set p t)
        [(''a.*'', 1 :: nat), (''a.>'', 2), (''b'', 3)] new_Patterns) ''a.b'' =
      Inr (\<exists>p \<in> fst ` set [(''a.*'', 1 :: nat), (''a.>'', 2), (''b'', 3)]. matchesPattern p ''a.b'')"
  by (rule matches_is_reference) (simp, code_simp, code_simp)

text \<open>
  a pattern that is stored together with an extension of it by one segment is still
  found by \<open>matches\<close> and \<open>hasMatch\<close> after it has been deleted (\<open>deleteIndex\<close> does not remove
  the entry \<open>""\<close> of an object that has other keys), although \<open>hasPattern\<close> no longer holds.
\<close>

theorem deleted_prefix_still_matches:
  fixes t :: 't
  assumes "isValidSubjectWithoutWildcards p" and "isValidSubject q"
    and "segments q = segments p @ [x]" and "x \<noteq> ''undefined''"
  defines "P \<equiv> patterns_delete p (patterns_set q t (patterns_set p t new_Patterns))"
  shows "\<not> hasPattern P p \<and> hasMatch P p = Inr True"
proof -
  let ?P2 = "two_patterns p q t"
  have wf: "wf_segments (segments p)" "wf_segments (segments q)"
    using valid_wf assms(1,2) by (auto simp: isValidSubjectWithoutWildcards_def)
  have P: "P = patterns_delete p ?P2" by (simp add: P_def two_patterns_def)
  have inv: "patterns_inv ?P2"
    unfolding two_patterns_def by (intro patterns_inv_set patterns_inv_new wf)
  have "patterns_get ?P2 p \<noteq> None"
    by (simp add: two_patterns_def ps.get_put)
  moreover have "matchesPattern p p"
  proof -
    have "''>'' \<notin> set ss \<Longrightarrow> matchesSegments ss ss" for ss by (induction ss) auto
    with valid_concrete(3) [OF assms(1)] show ?thesis by (simp add: matchesPattern_def)
  qed
  ultimately have "hasMatch ?P2 p = Inr True"
    using ps.has_match [OF inv valid_concrete(1) [OF assms(1)]] by auto
  moreover have "hasMatch P p = hasMatch ?P2 p"
    unfolding hasMatch_def P delete_prefix_keeps(1) [OF assms(3) wf(2) assms(4)] ..
  ultimately show ?thesis
    unfolding P using delete_prefix_keeps(2) [OF assms(3) wf(2) assms(4), of t] by simp
qed

theorem deleted_prefix_still_matches_witness:
  "\<not> hasPattern (patterns_delete ''a'' (patterns_set ''a.b'' () (patterns_set ''a'' () new_Patterns))) ''a'' \<and>
   hasMatch (patterns_delete ''a'' (patterns_set ''a.b'' () (patterns_set ''a'' () new_Patterns))) ''a'' = Inr True"
  by (rule deleted_prefix_still_matches [where x = "''b''"]) (code_simp, code_simp, simp_all)

end
