(* ===== verification/Interest.thy ===== *)
theory Interest
  imports Complex_Main "HOL-Library.Multiset" Patterns
begin

text \<open>
  Who receives a published message: the interest of a server of
  \<^verbatim>\<open>packages/conat/core/server.ts\<close> (\<open>updateInterest\<close>, \<open>subscribe\<close>, \<open>unsubscribe\<close>,
  \<open>publish\<close> without a cluster, \<open>loadBalance\<close>, \<open>randomChoice\<close>, \<open>isSilentPattern\<close>) and its hash
  from \<^verbatim>\<open>packages/conat/core/cluster.ts\<close>. The interest maps a pattern to its queue groups,
  each a set of rooms (one room per socket and subject). A subscribe handler is split where it waits. A JavaScript \<open>Set\<close> is a list
  without repetitions in insertion order. Parameters of the model: \<open>isAllowed\<close> (an option
  of the server), the numbers drawn by \<open>Math.random\<close>, and the name of a room.
\<close>

section \<open>Updating the interest\<close>

type_synonym 'r groups = "(string, 'r list) obj"
type_synonym 'r interest = "'r groups patterns_obj"

datatype interest_op = Op_add | Op_delete | Op_other string

record 'r interest_update =
  op :: interest_op
  subject :: string
  queue :: "string option"
  room :: 'r

datatype server_error =
    QueueNull | InvalidOp string | QueueUndefined | InvalidSubject | PermissionDenied
  | TooManySubscriptions | EmptyChoice | IndexBug

definition set_add :: "'a \<Rightarrow> 'a list \<Rightarrow> 'a list" where
  "set_add x xs = (if x \<in> set xs then xs else xs @ [x])"

definition delete_room :: "'r \<Rightarrow> 'r groups \<Rightarrow> 'r groups" where
  "delete_room r groups =
     filter (\<lambda>(q, rooms). rooms \<noteq> []) (map (\<lambda>(q, rooms). (q, removeAll r rooms)) groups)"

definition updateInterest :: "'r interest_update \<Rightarrow> 'r interest \<Rightarrow> server_error + 'r interest" where
  "updateInterest update interest =
     (let groups = patterns_get interest (subject update) in
      case op update of
        Op_add \<Rightarrow>
          (case queue update of
             None \<Rightarrow> Inl QueueNull
           | Some q \<Rightarrow>
               (case groups of
                  None \<Rightarrow> Inr (patterns_set (subject update) [(q, [room update])] interest)
                | Some g \<Rightarrow>
                    Inr (interest\<lparr>patterns := obj_set (subject update)
                      (case obj_get g q of
                         None \<Rightarrow> obj_set q [room update] g
                       | Some rooms \<Rightarrow> obj_set q (set_add (room update) rooms) g)
                      (patterns interest)\<rparr>)))
      | Op_delete \<Rightarrow>
          (case groups of
             None \<Rightarrow> Inr interest
           | Some g \<Rightarrow>
               (let g' = delete_room (room update) g;
                    interest' = interest\<lparr>patterns := obj_set (subject update) g' (patterns interest)\<rparr> in
                if g' = [] then Inr (patterns_delete (subject update) interest') else Inr interest'))
      | Op_other x \<Rightarrow> Inl (InvalidOp x))"

text \<open>The contract: a set of triples (pattern, queue group, room).\<close>

definition subscribers :: "'r interest \<Rightarrow> (string \<times> string \<times> 'r) set" where
  "subscribers I = {(s, q, r). \<exists>g rooms. obj_get (patterns I) s = Some g \<and>
     obj_get g q = Some rooms \<and> r \<in> set rooms}"

definition groups_ok :: "'r groups \<Rightarrow> bool" where
  "groups_ok g \<longleftrightarrow> g \<noteq> [] \<and> distinct (keys g) \<and>
     (\<forall>rooms \<in> snd ` set g. rooms \<noteq> [] \<and> distinct rooms)"

definition interest_ok :: "'r interest \<Rightarrow> bool" where
  "interest_ok I \<longleftrightarrow> patterns_inv I \<and> (\<forall>g \<in> snd ` set (patterns I). groups_ok g)"

lemma obj_get_delete_room:
  "distinct (keys g) \<Longrightarrow> obj_get (delete_room r g) q =
     (case obj_get g q of None \<Rightarrow> None
      | Some rooms \<Rightarrow> if removeAll r rooms = [] then None else Some (removeAll r rooms))"
proof (induction g)
  case (Cons x g)
  obtain q' rooms where x: "x = (q', rooms)" by (cases x)
  with Cons have "obj_get g q' = None" by (simp add: map_of_eq_None_iff)
  with Cons x show ?case by (auto simp: delete_room_def split: option.splits)
qed (simp add: delete_room_def)

lemma removeAll_Nil_iff: "removeAll r rooms = [] \<longleftrightarrow> set rooms \<subseteq> {r}"
  by (metis Diff_eq_empty_iff set_empty set_removeAll)

lemma mem_delete_room:
  "distinct (keys g) \<Longrightarrow>
     (\<exists>rooms. obj_get (delete_room r g) q = Some rooms \<and> x \<in> set rooms) \<longleftrightarrow>
       (\<exists>rooms. obj_get g q = Some rooms \<and> x \<in> set rooms \<and> x \<noteq> r)"
  by (cases "obj_get g q")
    (auto simp: obj_get_delete_room removeAll_Nil_iff simp del: Some_eq_map_of_iff)

lemma keys_delete_room: "q \<in> set (keys (delete_room r g)) \<Longrightarrow> q \<in> set (keys g)"
  by (force simp: delete_room_def)

lemma delete_room_Cons:
  "delete_room r ((q, rooms) # g) =
     (if removeAll r rooms = [] then delete_room r g else (q, removeAll r rooms) # delete_room r g)"
  by (simp add: delete_room_def)

lemma distinct_delete_room: "distinct (keys g) \<Longrightarrow> distinct (keys (delete_room r g))"
proof (induction g)
  case (Cons x g)
  then show ?case using keys_delete_room [of "fst x" r g] by (cases x) (auto simp: delete_room_Cons)
qed (simp add: delete_room_def)

lemma groups_ok_delete_room: "groups_ok g \<Longrightarrow> delete_room r g \<noteq> [] \<Longrightarrow> groups_ok (delete_room r g)"
  by (auto simp: groups_ok_def distinct_delete_room) (auto simp: delete_room_def distinct_removeAll)

lemma distinct_set_add [simp]: "distinct (set_add x xs) \<longleftrightarrow> distinct xs"
  by (simp add: set_add_def)

lemma set_set_add [simp]: "set (set_add x xs) = insert x (set xs)"
  by (auto simp: set_add_def)

lemma set_add_ne [simp]: "set_add x xs \<noteq> []"
  by (auto simp: set_add_def)

lemma groups_ok_update:
  "groups_ok g \<Longrightarrow> rooms \<noteq> [] \<Longrightarrow> distinct rooms \<Longrightarrow> groups_ok (obj_set q rooms g)"
  by (auto simp: groups_ok_def obj_simps dest!: in_update_D)

lemma groups_ok_rooms: "groups_ok g \<Longrightarrow> obj_get g q = Some rooms \<Longrightarrow> rooms \<noteq> [] \<and> distinct rooms"
  by (force simp: groups_ok_def dest: map_of_SomeD)

text \<open>A store whose entry of an existing pattern is replaced keeps its invariant.\<close>

lemma patterns_inv_replace:
  assumes "patterns_inv P" and "obj_get (patterns P) p \<noteq> None"
  shows "patterns_inv (P\<lparr>patterns := obj_set p t (patterns P)\<rparr>)"
proof -
  have "insert p (fst ` set (patterns P)) = fst ` set (patterns P)"
    using assms(2) by (auto simp: map_of_eq_None_iff)
  with assms(1) show ?thesis by (simp add: patterns_inv_def obj_simps)
qed

lemma interest_ok_put:
  assumes "interest_ok I" and "groups_ok g"
  shows "wf_segments (segments p) \<Longrightarrow> interest_ok (patterns_set p g I)"
    and "obj_get (patterns I) p \<noteq> None \<Longrightarrow> interest_ok (I\<lparr>patterns := obj_set p g (patterns I)\<rparr>)"
  using assms by (auto simp: interest_ok_def ps.invar_put patterns_inv_replace)
    (auto simp: patterns_set_def dest!: in_update_D)

lemma interest_ok_groups: "interest_ok I \<Longrightarrow> obj_get (patterns I) p = Some g \<Longrightarrow> groups_ok g"
  by (force simp: interest_ok_def dest: map_of_SomeD)

text \<open>
  \<open>updateInterest\<close> implements the contract: adding inserts one triple, deleting a room
  removes it from every queue group of the pattern.
\<close>

lemma updateInterest_add:
  assumes "interest_ok I" and "wf_segments (segments (subject u))"
    and "op u = Op_add" and "queue u = Some q"
  shows "\<exists>I'. updateInterest u I = Inr I' \<and> interest_ok I' \<and>
    subscribers I' = insert (subject u, q, room u) (subscribers I)"
proof (cases "obj_get (patterns I) (subject u)")
  case None
  have "groups_ok [(q, [room u])]" by (simp add: groups_ok_def)
  then have "interest_ok (patterns_set (subject u) [(q, [room u])] I)"
    using assms by (intro interest_ok_put(1))
  moreover have "subscribers (patterns_set (subject u) [(q, [room u])] I) =
      insert (subject u, q, room u) (subscribers I)"
    using None by (auto simp: subscribers_def patterns_set_def obj_simps split: if_splits)
  ultimately show ?thesis using None assms(3,4)
    by (simp add: updateInterest_def patterns_get_def)
next
  case (Some g)
  let ?g = "case obj_get g q of None \<Rightarrow> obj_set q [room u] g
    | Some rooms \<Rightarrow> obj_set q (set_add (room u) rooms) g"
  have g: "groups_ok g" using interest_ok_groups [OF assms(1) Some] .
  then have "groups_ok ?g"
    using groups_ok_rooms [OF g, of q] by (simp add: groups_ok_update split: option.split)
  with Some assms show ?thesis
    by (auto simp: updateInterest_def patterns_get_def interest_ok_put subscribers_def obj_simps
        split: if_splits option.splits)
qed

lemma subscribers_replace:
  "obj_get (patterns I) s = Some g \<Longrightarrow>
     subscribers (I\<lparr>patterns := obj_set s g' (patterns I)\<rparr>) =
       {(s', q, r) \<in> subscribers I. s' \<noteq> s} \<union>
       {(s', q, r). s' = s \<and> (\<exists>rooms. obj_get g' q = Some rooms \<and> r \<in> set rooms)}"
  by (auto simp: subscribers_def obj_simps split: if_splits)

lemma subscribers_patterns_delete:
  "subscribers (patterns_delete s I) = {(s', q, r) \<in> subscribers I. s' \<noteq> s}"
  by (auto simp: subscribers_def patterns_delete_def obj_simps split: if_splits)

lemma updateInterest_delete:
  assumes ok: "interest_ok I" and wf: "wf_segments (segments (subject u))"
    and op: "op u = Op_delete"
    and free: "\<forall>q. hasPattern I q \<longrightarrow> \<not> extends_pattern (subject u) q \<and> \<not> extends_pattern q (subject u)"
  shows "\<exists>I'. updateInterest u I = Inr I' \<and> interest_ok I' \<and>
    subscribers I' = {(s, q, r) \<in> subscribers I. \<not> (s = subject u \<and> r = room u)}"
proof (cases "obj_get (patterns I) (subject u)")
  case None
  then show ?thesis using ok op
    by (auto simp: updateInterest_def patterns_get_def subscribers_def)
next
  case (Some g)
  let ?g = "delete_room (room u) g"
  let ?I = "I\<lparr>patterns := obj_set (subject u) ?g (patterns I)\<rparr>"
  have g: "groups_ok g" using interest_ok_groups [OF ok Some] .
  then have dk: "distinct (keys g)" by (simp add: groups_ok_def)
  have subs: "subscribers ?I = {(s, q, r) \<in> subscribers I. \<not> (s = subject u \<and> r = room u)}"
    unfolding subscribers_replace [OF Some] using Some
    by (auto simp: mem_delete_room [OF dk] subscribers_def)
  show ?thesis
  proof (cases "?g = []")
    case False
    then have "interest_ok ?I"
      using interest_ok_put(2) [OF ok groups_ok_delete_room [OF g False]] Some by simp
    with False subs Some op show ?thesis
      by (auto simp: updateInterest_def patterns_get_def Let_def)
  next
    case True
    have inv: "patterns_inv ?I" using ok Some by (simp add: interest_ok_def patterns_inv_replace)
    have "\<forall>q. patterns_get ?I q \<noteq> None \<longrightarrow>
        \<not> extends_pattern (subject u) q \<and> \<not> extends_pattern q (subject u)"
      using free Some by (auto simp: patterns_get_def hasPattern_def obj_simps split: if_splits)
    then have "patterns_inv (patterns_delete (subject u) ?I)"
      by (rule ps.invar_remove [OF inv wf])
    moreover have "\<forall>h \<in> snd ` set (patterns (patterns_delete (subject u) ?I)). groups_ok h"
    proof
      fix h assume "h \<in> snd ` set (patterns (patterns_delete (subject u) ?I))"
      then obtain s where "(s, h) \<in> set (obj_del (subject u) (obj_set (subject u) ?g (patterns I)))"
        by (auto simp: patterns_delete_def)
      then have "(s, h) \<in> set (patterns I)"
        by (auto simp: in_delete_iff dest!: in_update_D)
      then show "groups_ok h" using ok by (force simp: interest_ok_def)
    qed
    moreover have "subscribers (patterns_delete (subject u) ?I) = subscribers ?I"
      unfolding subscribers_patterns_delete subscribers_replace [OF Some] by (auto simp: True)
    ultimately show ?thesis using True subs Some op
      by (auto simp: updateInterest_def patterns_get_def interest_ok_def Let_def)
  qed
qed

section \<open>Publishing\<close>

text \<open>\<open>Math.floor(Math.random() * w.length)\<close>; a random number is a rational in [0, 1).\<close>

definition randomChoice :: "rat \<Rightarrow> 'a list \<Rightarrow> server_error + 'a" where
  "randomChoice random v =
     (if length v = 0 then Inl EmptyChoice
      else if length v = 1 then Inr (hd v)
      else Inr (v ! nat \<lfloor>random * of_nat (length v)\<rfloor>))"

definition loadBalance :: "rat \<Rightarrow> 'a list \<Rightarrow> server_error + 'a option" where
  "loadBalance random targets =
     (if length targets = 0 then Inr None
      else (case randomChoice random targets of Inl e \<Rightarrow> Inl e | Inr x \<Rightarrow> Inr (Some x)))"

definition isSilentPattern :: "string \<Rightarrow> bool" where
  "isSilentPattern pattern \<longleftrightarrow> pattern = ''>''"

text \<open>
  The inner loop over the queue groups of a pattern: what is emitted, as pairs of the pattern
  and the room, and the running count.
\<close>

fun publish_queues ::
  "(string \<Rightarrow> string \<Rightarrow> rat) \<Rightarrow> string \<Rightarrow> 'r groups \<Rightarrow> nat \<times> (string \<times> 'r) list \<Rightarrow>
     server_error + nat \<times> (string \<times> 'r) list" where
  "publish_queues rnd pattern [] acc = Inr acc"
| "publish_queues rnd pattern ((q, rooms) # g) (n, out) =
     (case loadBalance (rnd pattern q) rooms of
        Inl e \<Rightarrow> Inl e
      | Inr None \<Rightarrow> publish_queues rnd pattern g (n, out)
      | Inr (Some target) \<Rightarrow>
          publish_queues rnd pattern g
            (if isSilentPattern pattern then n else n + 1, out @ [(pattern, target)]))"

text \<open>
  The outer loop over the matching patterns. \<open>interest.get(pattern)!\<close> may be undefined, and a
  \<open>for (... in undefined)\<close> does nothing.
\<close>

fun publish_patterns ::
  "(string \<Rightarrow> string \<Rightarrow> rat) \<Rightarrow> 'r interest \<Rightarrow> string list \<Rightarrow> nat \<times> (string \<times> 'r) list \<Rightarrow>
     server_error + nat \<times> (string \<times> 'r) list" where
  "publish_patterns rnd I [] acc = Inr acc"
| "publish_patterns rnd I (pattern # ps) acc =
     (case (case patterns_get I pattern of None \<Rightarrow> Inr acc | Some g \<Rightarrow> publish_queues rnd pattern g acc) of
        Inl e \<Rightarrow> Inl e
      | Inr acc' \<Rightarrow> publish_patterns rnd I ps acc')"

text \<open>
  \<open>publish\<close> on a server without a cluster. \<open>targets\<close> is position 6 of the message: explicit
  targets of a message that another node forwards, delivered as they are.
\<close>

definition publish ::
  "bool \<Rightarrow> (string \<Rightarrow> string \<Rightarrow> rat) \<Rightarrow> (string \<times> 'r) list option \<Rightarrow> 'r interest \<Rightarrow> string \<Rightarrow>
     server_error + nat \<times> (string \<times> 'r) list" where
  "publish isAllowed rnd targets I subj =
     (if \<not> isValidSubjectWithoutWildcards subj then Inl InvalidSubject
      else if \<not> isAllowed then Inl PermissionDenied
      else case targets of
        Some ts \<Rightarrow> Inr (length ts, ts)
      | None \<Rightarrow>
          (case patterns_matches I subj of
             Inl e \<Rightarrow> Inl IndexBug
           | Inr ps \<Rightarrow> publish_patterns rnd I ps (0, [])))"

text \<open>The room \<open>randomChoice\<close> draws.\<close>

definition chosen :: "rat \<Rightarrow> 'a list \<Rightarrow> 'a" where
  "chosen random v = (if length v = 1 then hd v else v ! nat \<lfloor>random * of_nat (length v)\<rfloor>)"

lemma loadBalance_ok: "v \<noteq> [] \<Longrightarrow> loadBalance random v = Inr (Some (chosen random v))"
  by (simp add: loadBalance_def randomChoice_def chosen_def)

lemma chosen_in:
  assumes "v \<noteq> []" and "0 \<le> random" and "random < 1"
  shows "chosen random v \<in> set v"
proof -
  have n: "(of_nat (length v) :: rat) > 0" using assms(1) by simp
  have "random * of_nat (length v) < of_nat (length v)"
    using mult_strict_right_mono [OF assms(3) n] by simp
  then have "\<lfloor>random * of_nat (length v)\<rfloor> < int (length v)"
    by (simp add: floor_less_iff)
  then have "nat \<lfloor>random * of_nat (length v)\<rfloor> < length v"
    using assms by (simp add: nat_less_iff)
  with assms(1) show ?thesis by (simp add: chosen_def)
qed

lemma publish_queues_ok:
  "\<forall>rooms \<in> snd ` set g. rooms \<noteq> [] \<Longrightarrow>
     publish_queues rnd p g (c, out) =
       Inr (if isSilentPattern p then c else c + length g,
            out @ map (\<lambda>(q, rooms). (p, chosen (rnd p q) rooms)) g)"
  by (induction g arbitrary: c out) (auto simp: loadBalance_ok)

definition count_loud :: "(string \<times> 'r) list \<Rightarrow> nat" where
  "count_loud out = length (filter (\<lambda>x. \<not> isSilentPattern (fst x)) out)"

lemma count_loud_simps [simp]:
  "count_loud [] = 0" "count_loud (xs @ ys) = count_loud xs + count_loud ys"
  by (simp_all add: count_loud_def)

lemma count_loud_Cons [simp]:
  "count_loud (x # xs) = (if isSilentPattern (fst x) then 0 else 1) + count_loud xs"
  by (simp add: count_loud_def)

definition emitted :: "(string \<Rightarrow> string \<Rightarrow> rat) \<Rightarrow> 'r interest \<Rightarrow> string \<Rightarrow> (string \<times> 'r) list" where
  "emitted rnd I p =
     (case patterns_get I p of None \<Rightarrow> []
      | Some g \<Rightarrow> map (\<lambda>(q, rooms). (p, chosen (rnd p q) rooms)) g)"

lemma count_loud_emitted:
  "count_loud (map (\<lambda>(q, rooms). (p, chosen (rnd p q) rooms)) g) = (if isSilentPattern p then 0 else length g)"
  by (induction g) auto

lemma publish_patterns_ok:
  assumes "interest_ok I"
  shows "publish_patterns rnd I ps (count_loud out, out) =
    Inr (count_loud (out @ concat (map (emitted rnd I) ps)), out @ concat (map (emitted rnd I) ps))"
proof (induction ps arbitrary: out)
  case (Cons p ps)
  show ?case
  proof (cases "patterns_get I p")
    case None
    with Cons [of out] show ?thesis by (simp add: emitted_def)
  next
    case (Some g)
    then have "groups_ok g" using interest_ok_groups [OF assms] by (simp add: patterns_get_def)
    then have "\<forall>rooms \<in> snd ` set g. rooms \<noteq> []" by (auto simp: groups_ok_def)
    moreover have "emitted rnd I p = map (\<lambda>(q, rooms). (p, chosen (rnd p q) rooms)) g"
      using Some by (simp add: emitted_def)
    ultimately have "publish_queues rnd p g (count_loud out, out) =
        Inr (count_loud (out @ emitted rnd I p), out @ emitted rnd I p)"
      by (simp add: publish_queues_ok count_loud_emitted)
    with Some Cons [of "out @ emitted rnd I p"] show ?thesis by simp
  qed
qed simp

text \<open>The (pattern, queue group) pairs served, and that each occurs once.\<close>

definition pairs_of :: "'r interest \<Rightarrow> string list \<Rightarrow> (string \<times> string) list" where
  "pairs_of I ps = concat (map (\<lambda>p. map (Pair p) (keys (case patterns_get I p of None \<Rightarrow> [] | Some g \<Rightarrow> g))) ps)"

lemma distinct_pairs_of:
  assumes "interest_ok I" and "distinct ps"
  shows "distinct (pairs_of I ps)"
  using assms(2)
proof (induction ps)
  case (Cons p ps)
  have "distinct (keys (case patterns_get I p of None \<Rightarrow> [] | Some g \<Rightarrow> g))"
    using interest_ok_groups [OF assms(1)] by (auto simp: patterns_get_def groups_ok_def split: option.split)
  with Cons show ?case by (auto simp: pairs_of_def distinct_map inj_on_def)
qed (simp add: pairs_of_def)

lemma groups_ok_keys:
  assumes "groups_ok g"
  shows "q \<in> set (keys g) \<longleftrightarrow> (\<exists>r rooms. obj_get g q = Some rooms \<and> r \<in> set rooms)"
proof (cases "obj_get g q")
  case None
  then have "q \<notin> set (keys g)" by (simp add: map_of_eq_None_iff)
  with None show ?thesis by simp
next
  case (Some rooms)
  then have "q \<in> set (keys g)" by (force dest: map_of_SomeD)
  moreover have "\<exists>r. r \<in> set rooms" using groups_ok_rooms [OF assms Some] by (cases rooms) auto
  ultimately show ?thesis using Some by simp
qed

lemma set_pairs_of:
  assumes "interest_ok I"
  shows "set (pairs_of I ps) = {(s, q). s \<in> set ps \<and> (\<exists>r. (s, q, r) \<in> subscribers I)}"
proof -
  have "q \<in> set (keys (case patterns_get I s of None \<Rightarrow> [] | Some g \<Rightarrow> g)) \<longleftrightarrow>
      (\<exists>r. (s, q, r) \<in> subscribers I)" for s q
  proof (cases "patterns_get I s")
    case (Some g)
    with interest_ok_groups [OF assms] groups_ok_keys [of g q] show ?thesis
      by (simp add: patterns_get_def subscribers_def)
  qed (simp add: patterns_get_def subscribers_def)
  then show ?thesis unfolding pairs_of_def by (simp add: set_eq_iff image_iff)
qed

lemma emitted_pairs:
  assumes "interest_ok I"
  shows "concat (map (emitted rnd I) ps) =
    map (\<lambda>(s, q). (s, chosen (rnd s q) (the (obj_get (the (patterns_get I s)) q)))) (pairs_of I ps)"
proof (induction ps)
  case (Cons p ps)
  have "emitted rnd I p = map ((\<lambda>(s, q). (s, chosen (rnd s q) (the (obj_get (the (patterns_get I s)) q)))) \<circ> Pair p)
      (keys (case patterns_get I p of None \<Rightarrow> [] | Some g \<Rightarrow> g))"
  proof (cases "patterns_get I p")
    case (Some g)
    then have "distinct (keys g)"
      using interest_ok_groups [OF assms] by (simp add: patterns_get_def groups_ok_def)
    with Some show ?thesis by (auto simp: emitted_def)
  qed (simp add: emitted_def)
  with Cons show ?case by (simp add: pairs_of_def)
qed (simp add: pairs_of_def)

section \<open>Subscribing and unsubscribing\<close>

text \<open>
  The part of a server's state that a socket's \<open>subscribe\<close> and \<open>unsubscribe\<close> handlers
  change: the interest, and per socket id the set of its subjects. The subscribe handler waits three
  times: for \<open>isAllowed\<close>, for \<open>socket.join\<close>, and for the promise of \<open>updateInterest\<close>. A
  subscription that waits is a \<open>request\<close> with the place where it goes on.
\<close>

datatype request_stage = Asking | Joining | Updated

record request =
  socket_id :: string
  req_subject :: string
  req_queue :: string
  stage :: request_stage

record 'r server =
  interest :: "'r interest"
  subscriptions :: "(string, string list) obj"
  requests :: "request list"

definition new_server :: "'r server" where
  "new_server = \<lparr>interest = new_Patterns, subscriptions = [], requests = []\<rparr>"

text \<open>A socket's subjects; the set is created when the socket connects.\<close>

definition subs_list :: "'r server \<Rightarrow> string \<Rightarrow> string list" where
  "subs_list s sid = (case obj_get (subscriptions s) sid of None \<Rightarrow> [] | Some v \<Rightarrow> v)"

abbreviation subs_of :: "'r server \<Rightarrow> string \<Rightarrow> string set" where
  "subs_of s sid \<equiv> set (subs_list s sid)"

datatype subscribe_status = AlreadyAdded | Added

text \<open>What the handler does before it waits for \<open>isAllowed\<close>: an answer, or a request that waits.\<close>

definition subscribe_begin ::
  "string \<Rightarrow> string \<Rightarrow> string option \<Rightarrow> 'r server \<Rightarrow> (server_error + subscribe_status) option \<times> 'r server" where
  "subscribe_begin sid subj q s =
     (if subj \<in> set (subs_list s sid) then (Some (Inr AlreadyAdded), s)
      else case q of
        None \<Rightarrow> (Some (Inl QueueUndefined), s)
      | Some qg \<Rightarrow>
          if \<not> isValidSubject subj then (Some (Inl InvalidSubject), s)
          else (None, s\<lparr>requests := requests s @
            [\<lparr>socket_id = sid, req_subject = subj, req_queue = qg, stage = Asking\<rparr>]\<rparr>))"

definition drop_request :: "nat \<Rightarrow> 'r server \<Rightarrow> 'r server" where
  "drop_request k s = s\<lparr>requests := take k (requests s) @ drop (Suc k) (requests s)\<rparr>"

text \<open>After \<open>isAllowed\<close>; \<open>maxSubs = 0\<close> is no limit. An error is answered to the client.\<close>

definition subscribe_allowed ::
  "bool \<Rightarrow> nat \<Rightarrow> nat \<Rightarrow> 'r server \<Rightarrow> server_error option \<times> 'r server" where
  "subscribe_allowed isAllowed maxSubs k s =
     (let r = requests s ! k in
      if \<not> isAllowed then (Some PermissionDenied, drop_request k s)
      else if maxSubs \<noteq> 0 \<and> length (subs_list s (socket_id r)) \<ge> maxSubs then
        (Some TooManySubscriptions, drop_request k s)
      else (None, s\<lparr>requests := (requests s)[k := r\<lparr>stage := Joining\<rparr>]\<rparr>))"

text \<open>After \<open>socket.join\<close>: the interest is advertised; \<open>socketSubjectRoom\<close> gives the room.\<close>

definition subscribe_joined ::
  "(string \<Rightarrow> string \<Rightarrow> 'r) \<Rightarrow> nat \<Rightarrow> 'r server \<Rightarrow> server_error option \<times> 'r server" where
  "subscribe_joined socketSubjectRoom k s =
     (let r = requests s ! k in
      case updateInterest \<lparr>op = Op_add, subject = req_subject r, queue = Some (req_queue r),
          room = socketSubjectRoom (socket_id r) (req_subject r)\<rparr> (interest s) of
        Inl e \<Rightarrow> (Some e, drop_request k s)
      | Inr I \<Rightarrow> (None, s\<lparr>interest := I, requests := (requests s)[k := r\<lparr>stage := Updated\<rparr>]\<rparr>))"

text \<open>After \<open>updateInterest\<close>: the subscription is recorded.\<close>

definition subscribe_added :: "nat \<Rightarrow> 'r server \<Rightarrow> subscribe_status \<times> 'r server" where
  "subscribe_added k s =
     (let r = requests s ! k in
      (Added, (drop_request k s)\<lparr>subscriptions :=
         obj_set (socket_id r) (set_add (req_subject r) (subs_list s (socket_id r))) (subscriptions s)\<rparr>))"

definition server_unsubscribe ::
  "(string \<Rightarrow> string \<Rightarrow> 'r) \<Rightarrow> string \<Rightarrow> string \<Rightarrow> 'r server \<Rightarrow> 'r server" where
  "server_unsubscribe socketSubjectRoom sid subj s =
     (let subs = subs_list s sid in
      if subj \<notin> set subs then s
      else case updateInterest \<lparr>op = Op_delete, subject = subj, queue = None, room = socketSubjectRoom sid subj\<rparr>
                  (interest s) of
             Inl e \<Rightarrow> s
           | Inr I \<Rightarrow> s\<lparr>interest := I,
               subscriptions := obj_set sid (removeAll subj subs) (subscriptions s)\<rparr>)"

section \<open>A server and its sockets\<close>

text \<open>
  Handlers of any sockets interleave where they wait. A promise that is already settled goes on
  before the next event of a socket is handled, so no event comes between \<open>updateInterest\<close>
  and the recording of the subscription (\<open>settled_requests\<close>), only other handlers that go on. Sockets unsubscribe
  from a subject only while no pattern of the interest extends it or is extended by it
  (\<open>apart\<close>; \<open>unsubscribe_extension_loses_messages\<close> shows what happens otherwise).
  Publishing does not change the server. Sockets do not disconnect here.
\<close>

definition waits :: "'r server \<Rightarrow> nat \<Rightarrow> request_stage \<Rightarrow> bool" where
  "waits s k st \<longleftrightarrow> k < length (requests s) \<and> stage (requests s ! k) = st"

definition settled_requests :: "'r server \<Rightarrow> bool" where
  "settled_requests s \<longleftrightarrow> (\<forall>r \<in> set (requests s). stage r \<noteq> Updated)"

definition apart :: "'r interest \<Rightarrow> string \<Rightarrow> bool" where
  "apart I subj \<longleftrightarrow> (\<forall>p \<in> set (keys (patterns I)). \<not> extends_pattern subj p \<and> \<not> extends_pattern p subj)"

lemma apart_iff: "apart I subj \<longleftrightarrow> (\<forall>p. hasPattern I p \<longrightarrow> \<not> extends_pattern subj p \<and> \<not> extends_pattern p subj)"
proof -
  have "p \<in> set (keys (patterns I)) \<longleftrightarrow> hasPattern I p" for p
    by (cases "obj_get (patterns I) p") (auto simp: hasPattern_def map_of_eq_None_iff dest: map_of_SomeD intro: rev_image_eqI)
  then show ?thesis unfolding apart_def by blast
qed

inductive served :: "(string \<Rightarrow> string \<Rightarrow> 'r) \<Rightarrow> 'r server \<Rightarrow> bool" for room_name where
  served_new: "served room_name new_server"
| served_begin: "served room_name s \<Longrightarrow> settled_requests s \<Longrightarrow> served room_name (snd (subscribe_begin sid subj q s))"
| served_allowed: "served room_name s \<Longrightarrow> waits s k Asking \<Longrightarrow> served room_name (snd (subscribe_allowed allowed maxSubs k s))"
| served_joined: "served room_name s \<Longrightarrow> waits s k Joining \<Longrightarrow> served room_name (snd (subscribe_joined room_name k s))"
| served_added: "served room_name s \<Longrightarrow> waits s k Updated \<Longrightarrow> served room_name (snd (subscribe_added k s))"
| served_unsubscribe: "served room_name s \<Longrightarrow> settled_requests s \<Longrightarrow> apart (interest s) subj \<Longrightarrow>
    served room_name (server_unsubscribe room_name sid subj s)"

text \<open>The sockets that have a room in the interest: those subscribed, or about to be recorded.\<close>

definition advertised :: "'r server \<Rightarrow> string \<Rightarrow> string set" where
  "advertised s subj = {sid. subj \<in> subs_of s sid \<or>
     (\<exists>r \<in> set (requests s). stage r = Updated \<and> socket_id r = sid \<and> req_subject r = subj)}"

definition rooms_of :: "'r interest \<Rightarrow> string \<Rightarrow> 'r set" where
  "rooms_of I subj = {r. \<exists>q. (subj, q, r) \<in> subscribers I}"

definition server_ok :: "(string \<Rightarrow> string \<Rightarrow> 'r) \<Rightarrow> 'r server \<Rightarrow> bool" where
  "server_ok room_name s \<longleftrightarrow> interest_ok (interest s) \<and>
     (\<forall>subj. rooms_of (interest s) subj = (\<lambda>sid. room_name sid subj) ` advertised s subj) \<and>
     (\<forall>r \<in> set (requests s). isValidSubject (req_subject r))  \<and>
     (\<forall>sid. \<forall>subj \<in> subs_of s sid. isValidSubject subj)"

lemma subs_list_set [simp]:
  "obj_get (subscriptions s') sid = obj_get (obj_set i v (subscriptions s)) sid \<Longrightarrow>
     subs_list s' sid = (if sid = i then v else subs_list s sid)"
  by (simp add: subs_list_def obj_simps)

lemma split_at: "k < length xs \<Longrightarrow> xs = take k xs @ xs ! k # drop (Suc k) xs"
  by (rule id_take_nth_drop)

lemma server_ok_same:
  assumes "server_ok room_name s" "interest s' = interest s" "subscriptions s' = subscriptions s"
    "{r \<in> set (requests s'). stage r = Updated} = {r \<in> set (requests s). stage r = Updated}"
    "\<forall>r \<in> set (requests s'). isValidSubject (req_subject r)"
  shows "server_ok room_name s'"
proof -
  have subs: "subs_list s' = subs_list s" using assms(3) by (auto simp: subs_list_def)
  have "advertised s' subj = advertised s subj" for subj
    using assms(4) unfolding advertised_def subs by blast
  then show ?thesis using assms unfolding server_ok_def subs by simp
qed

lemma server_ok_valid: "server_ok room_name s \<Longrightarrow> r \<in> set (requests s) \<Longrightarrow> isValidSubject (req_subject r)"
  by (simp add: server_ok_def)

lemma server_ok_begin:
  assumes ok: "server_ok room_name s"
  shows "server_ok room_name (snd (subscribe_begin sid subj q s))"
  by (rule server_ok_same[OF ok])
    (use server_ok_valid[OF ok] in \<open>auto simp: subscribe_begin_def Let_def split: option.splits\<close>)

lemma requests_at:
  assumes "waits s k st"
  obtains as bs r where "requests s = as @ r # bs" "k = length as" "requests s ! k = r" "stage r = st"
  using assms split_at[of k "requests s"] by (auto simp: waits_def min_def)

lemma server_ok_allowed:
  assumes ok: "server_ok room_name s" and "waits s k Asking"
  shows "server_ok room_name (snd (subscribe_allowed allowed maxSubs k s))"
proof -
  obtain as bs r where r: "requests s = as @ r # bs" "k = length as" "requests s ! k = r" "stage r = Asking"
    using assms(2) by (rule requests_at)
  show ?thesis
    by (rule server_ok_same[OF ok])
      (use r server_ok_valid[OF ok] in \<open>auto simp: subscribe_allowed_def Let_def drop_request_def\<close>)
qed

lemma server_ok_joined:
  assumes ok: "server_ok room_name s" and "waits s k Joining"
  shows "server_ok room_name (snd (subscribe_joined room_name k s))"
proof -
  obtain as bs r where r: "requests s = as @ r # bs" "k = length as" "requests s ! k = r" "stage r = Joining"
    using assms(2) by (rule requests_at)
  let ?u = "\<lparr>op = Op_add, subject = req_subject r, queue = Some (req_queue r), room = room_name (socket_id r) (req_subject r)\<rparr>"
  have valid: "isValidSubject (req_subject r)" using ok r(1) by (simp add: server_ok_def)
  obtain I where I: "updateInterest ?u (interest s) = Inr I" "interest_ok I"
    "subscribers I = insert (req_subject r, req_queue r, room_name (socket_id r) (req_subject r)) (subscribers (interest s))"
    using updateInterest_add [of "interest s" ?u "req_queue r"] ok valid_wf [OF valid]
    by (auto simp: server_ok_def)
  let ?s = "snd (subscribe_joined room_name k s)"
  have step: "interest ?s = I" "requests ?s = as @ r\<lparr>stage := Updated\<rparr> # bs" "subs_list ?s = subs_list s"
    using r I(1) by (auto simp: subscribe_joined_def Let_def subs_list_def)
  have rooms: "rooms_of I subj = (if subj = req_subject r then insert (room_name (socket_id r) subj) else (\<lambda>x. x))
      (rooms_of (interest s) subj)" for subj
    using I(3) by (auto simp: rooms_of_def)
  have "advertised ?s subj = (if subj = req_subject r then insert (socket_id r) else (\<lambda>x. x)) (advertised s subj)" for subj
    using r(1,4) unfolding advertised_def step by auto
  then show ?thesis using ok I(2) r(1) unfolding server_ok_def step by (simp add: rooms)
qed

lemma server_ok_added:
  assumes ok: "server_ok room_name s" and "waits s k Updated"
  shows "server_ok room_name (snd (subscribe_added k s))"
proof -
  obtain as bs r where r: "requests s = as @ r # bs" "k = length as" "requests s ! k = r" "stage r = Updated"
    using assms(2) by (rule requests_at)
  let ?s = "snd (subscribe_added k s)"
  have step: "interest ?s = interest s" "requests ?s = as @ bs"
      "\<And>i. subs_list ?s i = (if i = socket_id r then set_add (req_subject r) (subs_list s i) else subs_list s i)"
    using r by (simp_all add: subscribe_added_def Let_def drop_request_def subs_list_def obj_simps)
  have "advertised ?s subj = advertised s subj" for subj
    using r(1,4) unfolding advertised_def step by auto
  then show ?thesis using ok r(1) unfolding server_ok_def step by (auto split: if_splits)
qed

lemma server_ok_unsubscribe:
  assumes ok: "server_ok room_name s" and inj: "\<And>i j. room_name i subj = room_name j subj \<Longrightarrow> i = j"
    and free: "apart (interest s) subj" and quiet: "settled_requests s"
  shows "server_ok room_name (server_unsubscribe room_name sid subj s)"
proof (cases "subj \<in> subs_of s sid")
  case False
  with ok show ?thesis by (simp add: server_unsubscribe_def Let_def)
next
  case True
  let ?u = "\<lparr>op = Op_delete, subject = subj, queue = None, room = room_name sid subj\<rparr>"
  have wf: "wf_segments (segments subj)" using ok True valid_wf by (auto simp: server_ok_def)
  obtain I where I: "updateInterest ?u (interest s) = Inr I" "interest_ok I"
    "subscribers I = {(s', q, r) \<in> subscribers (interest s). \<not> (s' = subj \<and> r = room_name sid subj)}"
    using updateInterest_delete [of "interest s" ?u] ok wf free[unfolded apart_iff] by (auto simp: server_ok_def)
  let ?s = "server_unsubscribe room_name sid subj s"
  have step: "interest ?s = I" "requests ?s = requests s"
      "\<And>i. subs_list ?s i = (if i = sid then removeAll subj (subs_list s i) else subs_list s i)"
    using True I(1) by (simp_all add: server_unsubscribe_def Let_def subs_list_def obj_simps)
  have rooms: "rooms_of I subj' = rooms_of (interest s) subj' - (if subj' = subj then {room_name sid subj} else {})" for subj'
    using I(3) by (auto simp: rooms_of_def)
  have adv: "advertised ?s subj' = advertised s subj' - (if subj' = subj then {sid} else {})" for subj'
    using quiet unfolding advertised_def step settled_requests_def by auto
  have diff: "(\<lambda>i. room_name i subj) ` (A - {sid}) = (\<lambda>i. room_name i subj) ` A - {room_name sid subj}" for A
    using inj by auto
  show ?thesis using ok I(2) unfolding server_ok_def step by (auto simp: rooms adv diff split: if_splits)
qed

lemma interest_ok_new: "interest_ok new_Patterns"
  by (simp add: interest_ok_def) (simp add: new_Patterns_def)

lemma patterns_new: "patterns new_Patterns = []"
  by (simp add: new_Patterns_def)

lemma server_ok_new: "server_ok room_name new_server"
  by (simp add: server_ok_def new_server_def interest_ok_new rooms_of_def subscribers_def subs_list_def patterns_new
      advertised_def)

lemma served_ok:
  assumes "served room_name s" "\<And>i j subj. room_name i subj = room_name j subj \<Longrightarrow> i = j"
  shows "server_ok room_name s"
  using assms(1)
  by induction (use assms(2) in \<open>blast intro: server_ok_new server_ok_begin server_ok_allowed server_ok_joined
    server_ok_added server_ok_unsubscribe\<close>)+

text \<open>The whole handler when nothing comes in between.\<close>

definition server_subscribe ::
  "bool \<Rightarrow> nat \<Rightarrow> (string \<Rightarrow> string \<Rightarrow> 'r) \<Rightarrow> string \<Rightarrow> string \<Rightarrow> string option \<Rightarrow> 'r server \<Rightarrow>
     (server_error + subscribe_status) \<times> 'r server" where
  "server_subscribe isAllowed maxSubs room_name sid subj q s =
     (let k = length (requests s) in
      case subscribe_begin sid subj q s of
        (Some answer, s) \<Rightarrow> (answer, s)
      | (None, s) \<Rightarrow>
          (case subscribe_allowed isAllowed maxSubs k s of
             (Some e, s) \<Rightarrow> (Inl e, s)
           | (None, s) \<Rightarrow>
               (case subscribe_joined room_name k s of
                  (Some e, s) \<Rightarrow> (Inl e, s)
                | (None, s) \<Rightarrow> (let (a, s) = subscribe_added k s in (Inr a, s)))))"

lemma server_subscribe_added:
  assumes "subj \<notin> subs_of s sid" "isValidSubject subj" "requests s = []"
    "updateInterest \<lparr>op = Op_add, subject = subj, queue = Some g, room = room_name sid subj\<rparr> (interest s) = Inr I"
  shows "server_subscribe True 0 room_name sid subj (Some g) s =
    (Inr Added, s\<lparr>interest := I, subscriptions := obj_set sid (set_add subj (subs_list s sid)) (subscriptions s)\<rparr>)"
  using assms by (simp add: server_subscribe_def subscribe_begin_def subscribe_allowed_def subscribe_joined_def
      subscribe_added_def drop_request_def Let_def subs_list_def)

lemma served_subscribe:
  assumes "served room_name s" "settled_requests s"
  shows "served room_name (snd (server_subscribe isAllowed maxSubs room_name sid subj q s))"
proof -
  let ?k = "length (requests s)"
  obtain b s1 where b: "subscribe_begin sid subj q s = (b, s1)" by (cases "subscribe_begin sid subj q s")
  then have s1: "served room_name s1" using served_begin[OF assms, of sid subj q] by simp
  show ?thesis
  proof (cases b)
    case None
    then have k: "waits s1 ?k Asking" using b
      by (auto simp: subscribe_begin_def Let_def waits_def nth_append split: if_splits option.splits)
    obtain a s2 where a: "subscribe_allowed isAllowed maxSubs ?k s1 = (a, s2)" by (cases "subscribe_allowed isAllowed maxSubs ?k s1")
    then have s2: "served room_name s2" using served_allowed[OF s1 k, of isAllowed maxSubs] by simp
    show ?thesis
    proof (cases a)
      case none: None
      then have k2: "waits s2 ?k Joining" using a k
        by (auto simp: subscribe_allowed_def Let_def waits_def split: if_splits)
      obtain j s3 where j: "subscribe_joined room_name ?k s2 = (j, s3)" by (cases "subscribe_joined room_name ?k s2")
      then have s3: "served room_name s3" using served_joined[OF s2 k2] by simp
      show ?thesis
      proof (cases j)
        case no: None
        then have "waits s3 ?k Updated" using j k2
          by (auto simp: subscribe_joined_def Let_def waits_def split: if_splits sum.splits)
        from served_added[OF s3 this] show ?thesis using b None a none j no
          by (cases "subscribe_added ?k s3") (simp add: server_subscribe_def Let_def)
      qed (use b None a none j s3 in \<open>simp add: server_subscribe_def Let_def\<close>)
    qed (use b None a s2 in \<open>simp add: server_subscribe_def Let_def\<close>)
  qed (use b s1 in \<open>simp add: server_subscribe_def Let_def\<close>)
qed

section \<open>Properties\<close>

lemma publish_emits:
  assumes ok: "interest_ok I" and subj: "isValidSubjectWithoutWildcards subj"
    and rnd: "\<forall>s q. 0 \<le> rnd s q \<and> rnd s q < 1"
  shows "\<exists>f out. publish True rnd None I subj = Inr (count_loud out, out) \<and>
    (\<forall>s q. (\<exists>r. (s, q, r) \<in> subscribers I) \<longrightarrow> (s, q, f s q) \<in> subscribers I) \<and>
    mset out = image_mset (\<lambda>(s, q). (s, f s q))
      (mset_set {(s, q). matchesPattern s subj \<and> (\<exists>r. (s, q, r) \<in> subscribers I)})"
proof -
  let ?f = "\<lambda>s q. chosen (rnd s q) (the (obj_get (the (patterns_get I s)) q))"
  have inv: "patterns_inv I" using ok by (simp add: interest_ok_def)
  obtain ps where ps: "patterns_matches I subj = Inr ps" "distinct ps"
    "set ps = {p. patterns_get I p \<noteq> None \<and> matchesPattern p subj}"
    using ps.matches [OF inv valid_concrete(1) [OF subj]] valid_concrete(2,3) [OF subj] by auto
  let ?out = "concat (map (emitted rnd I) ps)"
  have "publish True rnd None I subj = Inr (count_loud ?out, ?out)"
    using ps(1) subj publish_patterns_ok [OF ok, of rnd ps "[]"] by (simp add: publish_def)
  moreover have "(s, q, ?f s q) \<in> subscribers I" if "(s, q, r) \<in> subscribers I" for s q r
  proof -
    from that obtain g rooms where g: "patterns_get I s = Some g" "obj_get g q = Some rooms"
      by (auto simp: subscribers_def patterns_get_def)
    then have "groups_ok g" using interest_ok_groups [OF ok] by (simp add: patterns_get_def)
    then have "rooms \<noteq> []" using groups_ok_rooms g(2) by blast
    with g chosen_in rnd show ?thesis by (auto simp: subscribers_def patterns_get_def)
  qed
  moreover have "mset ?out = image_mset (\<lambda>(s, q). (s, ?f s q))
      (mset_set {(s, q). matchesPattern s subj \<and> (\<exists>r. (s, q, r) \<in> subscribers I)})"
  proof -
    have "set (pairs_of I ps) = {(s, q). matchesPattern s subj \<and> (\<exists>r. (s, q, r) \<in> subscribers I)}"
      unfolding set_pairs_of [OF ok] ps(3) by (auto simp: subscribers_def patterns_get_def)
    with mset_set_set [OF distinct_pairs_of [OF ok ps(2)]] show ?thesis
      unfolding emitted_pairs [OF ok] by simp
  qed
  ultimately show ?thesis by (intro exI conjI) auto
qed

text \<open>
  C26: publishing a valid concrete subject emits the message to exactly one room of
  every queue group of every matching pattern (and to nothing else), whatever random numbers
  are drawn, and reports the number of emissions that are not for the silent pattern. This holds in
  every state of a server that interleaved subscribe and unsubscribe handlers of any sockets reach
  (\<open>served\<close>: no socket unsubscribes from a subject that a stored pattern extends or that
  extends a stored pattern, and no socket disconnects), with a different room for each socket, outside a cluster, for a
  publisher that is allowed to.
\<close>

theorem publish_once_per_group:
  assumes "served room_name s" and "\<And>i j subj. room_name i subj = room_name j subj \<Longrightarrow> i = j"
    and "isValidSubjectWithoutWildcards subj" and "\<forall>s q. 0 \<le> rnd s q \<and> rnd s q < 1"
  shows "\<exists>f out. publish True rnd None (interest s) subj = Inr (count_loud out, out) \<and>
    (\<forall>p q. (\<exists>r. (p, q, r) \<in> subscribers (interest s)) \<longrightarrow> (p, q, f p q) \<in> subscribers (interest s)) \<and>
    mset out = image_mset (\<lambda>(p, q). (p, f p q))
      (mset_set {(p, q). matchesPattern p subj \<and> (\<exists>r. (p, q, r) \<in> subscribers (interest s))})"
proof -
  have "interest_ok (interest s)" using served_ok[of room_name s] assms(1,2) by (simp add: server_ok_def)
  from publish_emits[OF this assms(3,4)] show ?thesis .
qed

text \<open>Two sockets in one queue group.\<close>

definition two_sockets :: "(string \<times> string) server" where
  "two_sockets = snd (server_subscribe True 5 Pair ''y'' ''a.*'' (Some ''q'')
     (snd (server_subscribe True 5 Pair ''x'' ''a.*'' (Some ''q'') new_server)))"

lemma served_two: "served Pair two_sockets"
proof -
  have "settled_requests (new_server :: (string \<times> string) server)" by (simp add: settled_requests_def new_server_def)
  then have x: "served Pair (snd (server_subscribe True 5 Pair ''x'' ''a.*'' (Some ''q'') new_server))"
    by (rule served_subscribe[OF served_new])
  have "settled_requests (snd (server_subscribe True 5 Pair ''x'' ''a.*'' (Some ''q'') new_server))" by code_simp
  from served_subscribe[OF x this] show ?thesis unfolding two_sockets_def .
qed

theorem publish_once_per_group_witness:
  "\<exists>f out. publish True (\<lambda>_ _. 0) None (interest two_sockets) ''a.b'' = Inr (count_loud out, out) \<and>
    (\<forall>p q. (\<exists>r. (p, q, r) \<in> subscribers (interest two_sockets)) \<longrightarrow> (p, q, f p q) \<in> subscribers (interest two_sockets)) \<and>
    mset out = image_mset (\<lambda>(p, q). (p, f p q))
      (mset_set {(p, q). matchesPattern p ''a.b'' \<and> (\<exists>r. (p, q, r) \<in> subscribers (interest two_sockets))})"
proof -
  have "isValidSubjectWithoutWildcards ''a.b''" by code_simp
  then show ?thesis by (intro publish_once_per_group[OF served_two]) simp_all
qed

text \<open>
  C27: the rooms in the interest of a server are exactly the rooms of the sockets that are subscribed or
  whose subscription is about to be recorded, one room for each socket and subject, in every
  state that interleaved subscribe and unsubscribe handlers reach, refused subscriptions and repeated ones included.
  Conditions: sockets have different rooms, none disconnects, and
  none unsubscribes from a subject that a stored pattern extends or that extends a stored pattern.
\<close>

theorem server_interest_tracks_subscriptions:
  assumes "served room_name s" and "\<And>i j subj. room_name i subj = room_name j subj \<Longrightarrow> i = j"
  shows "rooms_of (interest s) subj = (\<lambda>sid. room_name sid subj) ` advertised s subj \<and>
    (settled_requests s \<longrightarrow> advertised s subj = {sid. subj \<in> subs_of s sid})"
  using served_ok[OF assms] by (auto simp: server_ok_def advertised_def settled_requests_def)

theorem server_interest_tracks_subscriptions_witness:
  "rooms_of (interest two_sockets) ''a.*'' = {(''x'', ''a.*''), (''y'', ''a.*'')}"
proof -
  have "settled_requests two_sockets" by code_simp
  moreover have "subscriptions two_sockets = [(''x'', [''a.*'']), (''y'', [''a.*''])]" by code_simp
  then have "{sid. ''a.*'' \<in> subs_of two_sockets sid} = {''x'', ''y''}" by (auto simp: subs_list_def)
  ultimately show ?thesis
    using server_interest_tracks_subscriptions[OF served_two, of "''a.*''"] by simp
qed

text \<open>
  C38: A message is lost. One socket subscribes to \<open>p\<close>, another to an extension \<open>q\<close> of \<open>p\<close> by
  one segment and then unsubscribes from it; the first one is still subscribed and in the
  interest, but a message published to \<open>p\<close> is emitted to nobody, because removing \<open>q\<close> from
  the index removed \<open>p\<close> as well.
\<close>

theorem unsubscribe_extension_loses_messages:
  fixes room_name :: "string \<Rightarrow> string \<Rightarrow> 'r" and i j g :: string
  assumes p: "isValidSubjectWithoutWildcards p" and q: "isValidSubject q"
    and ext: "segments q = segments p @ [x]"
  defines "s1 \<equiv> snd (server_subscribe True 0 room_name i p (Some g) new_server)"
  defines "s2 \<equiv> snd (server_subscribe True 0 room_name j q (Some g) s1)"
  defines "s3 \<equiv> server_unsubscribe room_name j q s2"
  shows "p \<in> subs_of s3 i \<and> (p, g, room_name i p) \<in> subscribers (interest s3) \<and>
    publish True rnd None (interest s3) p = Inr (0, [])"
proof -
  have vp: "isValidSubject p" using p by (simp add: isValidSubjectWithoutWildcards_def)
  have ne: "p \<noteq> q" using ext by auto
  have s1: "s1 = \<lparr>interest = patterns_set p [(g, [room_name i p])] new_Patterns, subscriptions = [(i, [p])], requests = []\<rparr>"
    unfolding s1_def using vp by (subst server_subscribe_added)
      (simp_all add: new_server_def subs_list_def updateInterest_def patterns_get_def new_Patterns_def set_add_def)
  let ?I2 = "patterns_set q [(g, [room_name j q])] (patterns_set p [(g, [room_name i p])] new_Patterns)"
  have s2: "interest s2 = ?I2 \<and> subs_list s2 j = set_add q (subs_list s1 j) \<and> (i \<noteq> j \<longrightarrow> subs_list s2 i = [p])"
  proof -
    have "server_subscribe True 0 room_name j q (Some g) s1 = (Inr Added, s1\<lparr>interest := ?I2,
        subscriptions := obj_set j (set_add q (subs_list s1 j)) (subscriptions s1)\<rparr>)"
      by (rule server_subscribe_added)
        (use q ne in \<open>auto simp: s1 subs_list_def updateInterest_def patterns_get_def patterns_set_def new_Patterns_def obj_simps\<close>)
    then show ?thesis by (simp add: s2_def s1 subs_list_def obj_simps)
  qed
  let ?I3 = "patterns_delete q (?I2\<lparr>patterns := obj_set q [] (patterns ?I2)\<rparr>)"
  have s3: "interest s3 = ?I3 \<and> subs_list s3 i = (if i = j then removeAll q (subs_list s2 j) else [p])"
    using s2 by (simp add: s3_def server_unsubscribe_def updateInterest_def delete_room_def Let_def
        ps.get_put)
  have "i = j \<Longrightarrow> subs_list s1 j = [p]" by (simp add: s1 subs_list_def)
  with s2 s3 ne have "p \<in> subs_of s3 i" by auto
  moreover have "(p, g, room_name i p) \<in> subscribers (interest s3)"
    using s3 ne by (simp add: subscribers_def patterns_delete_def patterns_set_def new_Patterns_def obj_simps)
  moreover have "publish True rnd None (interest s3) p = Inr (0, [])"
  proof -
    have "idx ?I3 = deleteIndex (setIndex (setIndex [] (segments p) p) (segments q) q) (segments q)"
      by (simp add: patterns_delete_def patterns_set_def new_Patterns_def)
    then have "idx (interest s3) = []"
      using s3 deleteIndex_extension [of "segments p" x p q] ext valid_wf [OF q] by simp
    then have "patterns_matches (interest s3) p = Inr []"
      by (cases "segments p") (auto simp: patterns_matches_def)
    with p show ?thesis by (simp add: publish_def)
  qed
  ultimately show ?thesis by blast
qed

theorem unsubscribe_extension_loses_messages_witness:
  "let s1 = snd (server_subscribe True 0 Pair ''x'' ''a'' (Some ''0'') new_server);
       s2 = snd (server_subscribe True 0 Pair ''y'' ''a.b'' (Some ''0'') s1);
       s3 = server_unsubscribe Pair ''y'' ''a.b'' s2 in
   ''a'' \<in> subs_of s3 ''x'' \<and> (''a'', ''0'', (''x'', ''a'')) \<in> subscribers (interest s3) \<and>
   publish True (\<lambda>_ _. 0) None (interest s3) ''a'' = Inr (0, [])"
  unfolding Let_def
  by (rule unsubscribe_extension_loses_messages [where x = "''b''"]) (code_simp, code_simp, simp)

end
