(* ===== verification/Storage.thy ===== *)
theory Storage
  imports Complex_Main "HOL-Library.Word" Prelude
begin

text \<open>
  The server side of a persistent stream, the class \<open>PersistentStream\<close> of
  \<^verbatim>\<open>packages/conat/persist/storage.ts\<close>. The SQLite table \<open>messages\<close> is the list of its
  rows in the order of the primary key \<open>seq\<close>, with the counter of AUTOINCREMENT; every
  statement of the source is the list operation it stands for. Times are rationals (the table
  keeps seconds, the interface milliseconds), a call happens at one instant \<open>now\<close>, and sizes
  are integers. An operation that throws keeps what it has already deleted, so a result is
  a pair of an error or a value and the new state. Events are the list of what \<open>emit\<close> was
  called with. Parameters (the record \<open>codec\<close>): zstd and JSON. Archives and backups are not
  modelled.
\<close>

section \<open>Data\<close>

type_synonym bytes = "8 word list"

datatype CompressionAlgorithm = NoCompression | Zstd | Unknown nat

record row =
  r_seq :: nat
  r_key :: "string option"
  r_time :: rat
  r_headers :: "string option"
  r_compress :: CompressionAlgorithm
  r_encoding :: nat
  r_raw :: bytes
  r_size :: int
  r_ttl :: "int option"

record 'h stored_message =
  m_seq :: nat
  m_time :: rat
  m_key :: "string option"
  m_encoding :: nat
  m_raw :: bytes
  m_headers :: "'h option"

datatype 'h change = SetOperation "'h stored_message" "string option" | DeleteOperation "nat list"

datatype discard_policy = Discard_old | Discard_new

record configuration =
  max_msgs :: int
  max_age :: int
  max_bytes :: int
  max_msg_size :: int
  max_bytes_per_second :: int
  max_msgs_per_second :: int
  discard_policy :: discard_policy
  allow_msg_ttl :: bool
  desc :: "string option"

record partial_configuration =
  p_max_msgs :: "int option"
  p_max_age :: "int option"
  p_max_bytes :: "int option"
  p_max_msg_size :: "int option"
  p_max_bytes_per_second :: "int option"
  p_max_msgs_per_second :: "int option"
  p_discard_policy :: "discard_policy option"
  p_allow_msg_ttl :: "bool option"
  p_desc :: "string option"

datatype storage_error =
    WrongLastSequence | TypeErr | UnknownCompression
  | MsgsPerSecond | BytesPerSecond | MaxMsgs | MaxBytes | MaxMsgSize

record 'h codec =
  zstd_compress :: "bytes \<Rightarrow> bytes"
  zstd_decompress :: "bytes \<Rightarrow> bytes"
  json_stringify :: "'h \<Rightarrow> string"
  json_parse :: "string \<Rightarrow> 'h"

record 'h storage =
  rows :: "row list"
  autoincrement :: nat
  config_table :: partial_configuration
  conf :: configuration
  msgIDs :: "(string, nat \<times> rat) obj"
  ephemeral :: bool
  algorithm :: CompressionAlgorithm
  threshold :: nat
  emitted :: "'h change list"

type_synonym ('a, 'h) outcome = "(storage_error + 'a) \<times> 'h storage"

section \<open>Reading\<close>

definition handleDecompress :: "'h codec \<Rightarrow> CompressionAlgorithm \<Rightarrow> bytes \<Rightarrow> storage_error + bytes" where
  "handleDecompress c alg raw =
     (case alg of
        NoCompression \<Rightarrow> Inr raw
      | Zstd \<Rightarrow> Inr (zstd_decompress c raw)
      | Unknown _ \<Rightarrow> Inl UnknownCompression)"

definition dbToMessage :: "'h codec \<Rightarrow> row option \<Rightarrow> storage_error + 'h stored_message option" where
  "dbToMessage c x =
     (case x of
        None \<Rightarrow> Inr None
      | Some r \<Rightarrow>
          (case handleDecompress c (r_compress r) (r_raw r) of
             Inl e \<Rightarrow> Inl e
           | Inr raw \<Rightarrow>
               Inr (Some \<lparr>m_seq = r_seq r, m_time = r_time r * 1000, m_key = r_key r,
                 m_encoding = r_encoding r, m_raw = raw,
                 m_headers = (case r_headers r of
                    None \<Rightarrow> None
                  | Some h \<Rightarrow> if h = '''' then None else Some (json_parse c h))\<rparr>)))"

definition storage_get :: "'h codec \<Rightarrow> nat option \<Rightarrow> string option \<Rightarrow> 'h storage \<Rightarrow>
    storage_error + 'h stored_message option" where
  "storage_get c seq key s =
     dbToMessage c
       (if seq \<noteq> None \<and> seq \<noteq> Some 0 then find (\<lambda>r. Some (r_seq r) = seq) (rows s)
        else if key \<noteq> None then find (\<lambda>r. r_key r = key) (rows s)
        else None)"

fun yield_messages :: "'h codec \<Rightarrow> row list \<Rightarrow> storage_error + 'h stored_message list" where
  "yield_messages c [] = Inr []"
| "yield_messages c (r # rs) =
     (case dbToMessage c (Some r) of
        Inl e \<Rightarrow> Inl e
      | Inr m \<Rightarrow> (case yield_messages c rs of Inl e \<Rightarrow> Inl e | Inr ms \<Rightarrow> Inr (the m # ms)))"

definition getAll :: "'h codec \<Rightarrow> nat option \<Rightarrow> nat option \<Rightarrow> 'h storage \<Rightarrow>
    storage_error + 'h stored_message list" where
  "getAll c start_seq end_seq s =
     yield_messages c (filter (\<lambda>r.
       (case start_seq of None \<Rightarrow> True | Some a \<Rightarrow> a \<le> r_seq r) \<and>
       (case end_seq of None \<Rightarrow> True | Some b \<Rightarrow> r_seq r \<le> b)) (rows s))"

definition storage_length :: "'h storage \<Rightarrow> int" where
  "storage_length s = int (length (rows s))"

definition totalSize :: "'h storage \<Rightarrow> int" where
  "totalSize s = sum_list (map r_size (rows s))"

definition storage_seq :: "'h storage \<Rightarrow> nat" where
  "storage_seq s = (if rows s = [] then 0 else Max (set (map r_seq (rows s))))"

definition storage_keys :: "'h storage \<Rightarrow> string list" where
  "storage_keys s = List.map_filter r_key (rows s)"

section \<open>Deleting\<close>

definition emit :: "'h change \<Rightarrow> 'h storage \<Rightarrow> 'h storage" where
  "emit ch s = s\<lparr>emitted := emitted s @ [ch]\<rparr>"

definition emitDelete :: "nat list \<Rightarrow> 'h storage \<Rightarrow> 'h storage" where
  "emitDelete seqs s = (if length seqs > 0 then emit (DeleteOperation seqs) s else s)"

text \<open>\<open>DELETE FROM messages WHERE P\<close> and the same with \<open>RETURNING seq\<close> followed by \<open>emitDelete\<close>.\<close>

definition sql_delete :: "(row \<Rightarrow> bool) \<Rightarrow> 'h storage \<Rightarrow> 'h storage" where
  "sql_delete P s = s\<lparr>rows := filter (\<lambda>r. \<not> P r) (rows s)\<rparr>"

definition evict :: "(row \<Rightarrow> bool) \<Rightarrow> 'h storage \<Rightarrow> 'h storage" where
  "evict P s = emitDelete (map r_seq (filter P (rows s))) (sql_delete P s)"

definition storage_delete :: "nat option \<Rightarrow> nat list option \<Rightarrow> nat option \<Rightarrow> bool \<Rightarrow> 'h storage \<Rightarrow>
    nat list \<times> 'h storage" where
  "storage_delete seq seqs0 last_seq all s =
     (let (seqs, s') =
        (if all then (map r_seq (rows s), sql_delete (\<lambda>_. True) s)
         else (case last_seq of
           Some (Suc n) \<Rightarrow>
             (map r_seq (filter (\<lambda>r. r_seq r \<le> Suc n) (rows s)), sql_delete (\<lambda>r. r_seq r \<le> Suc n) s)
         | _ \<Rightarrow> (case seq of
             Some (Suc n) \<Rightarrow>
               (map r_seq (filter (\<lambda>r. r_seq r = Suc n) (rows s)), sql_delete (\<lambda>r. r_seq r = Suc n) s)
           | _ \<Rightarrow> (case seqs0 of
               Some qs \<Rightarrow> (qs, fold (\<lambda>q. sql_delete (\<lambda>r. r_seq r = q)) qs s)
             | None \<Rightarrow> ([], s)))))
      in (seqs, emit (DeleteOperation seqs) s'))"

section \<open>Limits\<close>

text \<open>The statements of \<open>enforceLimits\<close>, one definition per limit, composed in its order.\<close>

definition check_rates :: "rat \<Rightarrow> int \<Rightarrow> 'h storage \<Rightarrow> storage_error option" where
  "check_rates now sz s =
     (let recent = filter (\<lambda>r. r_time r \<ge> now / 1000 - 1) (rows s) in
      if \<not> (sz > 0 \<and> (max_msgs_per_second (conf s) > 0 \<or> max_bytes_per_second (conf s) > 0)) then None
      else if max_msgs_per_second (conf s) > 0 \<and> int (length recent) > max_msgs_per_second (conf s)
        then Some MsgsPerSecond
      else if max_bytes_per_second (conf s) > 0 \<and>
        sum_list (map r_size recent) > max_bytes_per_second (conf s)
        then Some BytesPerSecond
      else None)"

definition limit_msgs :: "int \<Rightarrow> 'h storage \<Rightarrow> (unit, 'h) outcome" where
  "limit_msgs sz s =
     (let len = storage_length s + (if sz > 0 then 1 else 0) in
      if max_msgs (conf s) > -1 \<and> len > max_msgs (conf s) then
        (case discard_policy (conf s) of
           Discard_new \<Rightarrow> (if sz > 0 then (Inl MaxMsgs, s) else (Inr (), s))
         | Discard_old \<Rightarrow>
             (let old = map r_seq (take (nat (len - max_msgs (conf s))) (rows s)) in
              (Inr (), evict (\<lambda>r. r_seq r \<in> set old) s)))
      else (Inr (), s))"

definition limit_age :: "rat \<Rightarrow> 'h storage \<Rightarrow> 'h storage" where
  "limit_age now s =
     (if max_age (conf s) > 0
      then evict (\<lambda>r. r_time r \<le> (now - of_int (max_age (conf s))) / 1000) s
      else s)"

fun lastSeqToDelete :: "int \<Rightarrow> int \<Rightarrow> nat option \<Rightarrow> row list \<Rightarrow> nat option" where
  "lastSeqToDelete bytesToFree freed last_seq [] = last_seq"
| "lastSeqToDelete bytesToFree freed last_seq (r # rs) =
     (if freed \<ge> bytesToFree then last_seq
      else lastSeqToDelete bytesToFree (freed + r_size r) (Some (r_seq r)) rs)"

definition limit_bytes :: "int \<Rightarrow> 'h storage \<Rightarrow> (unit, 'h) outcome" where
  "limit_bytes sz s =
     (if max_bytes (conf s) > -1 then
        if sz > max_bytes (conf s) then
          (case discard_policy (conf s) of
             Discard_new \<Rightarrow> (if sz > 0 then (Inl MaxBytes, s) else (Inr (), s))
           | Discard_old \<Rightarrow> (Inr (), snd (storage_delete None None None True s)))
        else
          (let newTotal = totalSize s + sz in
           if newTotal > max_bytes (conf s) then
             (case lastSeqToDelete (newTotal - max_bytes (conf s)) 0 None (rows s) of
                None \<Rightarrow> (Inr (), s)
              | Some l \<Rightarrow>
                  (case discard_policy (conf s) of
                     Discard_new \<Rightarrow> (if sz > 0 then (Inl MaxBytes, s) else (Inr (), s))
                   | Discard_old \<Rightarrow> (Inr (), evict (\<lambda>r. r_seq r \<le> l) s)))
           else (Inr (), s))
      else (Inr (), s))"

text \<open>In SQL the quotient of two integers is an integer, truncated towards 0.\<close>

definition sql_div :: "int \<Rightarrow> int \<Rightarrow> int" where
  "sql_div a b = sgn a * sgn b * (\<bar>a\<bar> div \<bar>b\<bar>)"

definition limit_ttl :: "rat \<Rightarrow> 'h storage \<Rightarrow> 'h storage" where
  "limit_ttl now s =
     (if allow_msg_ttl (conf s)
      then evict (\<lambda>r. case r_ttl r of None \<Rightarrow> False
        | Some ttl \<Rightarrow> r_time r + of_int (sql_div ttl 1000) < now / 1000) s
      else s)"

definition enforceLimits :: "rat \<Rightarrow> int \<Rightarrow> 'h storage \<Rightarrow> (unit, 'h) outcome" where
  "enforceLimits now sz s =
     (case check_rates now sz s of
        Some e \<Rightarrow> (Inl e, s)
      | None \<Rightarrow>
          (case limit_msgs sz s of
             (Inl e, s1) \<Rightarrow> (Inl e, s1)
           | (Inr _, s1) \<Rightarrow>
               (case limit_bytes sz (limit_age now s1) of
                  (Inl e, s2) \<Rightarrow> (Inl e, s2)
                | (Inr _, s2) \<Rightarrow>
                    (let s3 = limit_ttl now s2 in
                     if max_msg_size (conf s3) > -1 \<and> sz > max_msg_size (conf s3)
                     then (Inl MaxMsgSize, s3) else (Inr (), s3)))))"

section \<open>Writing\<close>

definition compress :: "'h codec \<Rightarrow> 'h storage \<Rightarrow> bytes \<Rightarrow> storage_error + bytes \<times> CompressionAlgorithm" where
  "compress c s raw =
     (if algorithm s = NoCompression \<or> length raw \<le> threshold s then Inr (raw, NoCompression)
      else if algorithm s = Zstd then Inr (zstd_compress c raw, Zstd)
      else Inl UnknownCompression)"

record 'h set_args =
  a_encoding :: nat
  a_raw :: bytes
  a_headers :: "'h option"
  a_key :: "string option"
  a_ttl :: "int option"
  a_previousSeq :: "nat option"
  a_msgID :: "string option"

text \<open>The transaction: delete the row of the key, insert a row with the next \<open>seq\<close>.\<close>

definition insert_row :: "(nat \<Rightarrow> row) \<Rightarrow> string option \<Rightarrow> 'h storage \<Rightarrow> nat \<times> 'h storage" where
  "insert_row new_row key s =
     (let s' = (if key \<noteq> None then sql_delete (\<lambda>r. r_key r = key) s else s);
          seq = Suc (autoincrement s') in
      (seq, s'\<lparr>rows := rows s' @ [new_row seq], autoincrement := seq\<rparr>))"

definition message_size :: "string option \<Rightarrow> bytes \<Rightarrow> string option \<Rightarrow> int" where
  "message_size headers raw key =
     int ((case headers of None \<Rightarrow> 0 | Some h \<Rightarrow> length h) + length raw +
       (case key of None \<Rightarrow> 0 | Some k \<Rightarrow> length k))"

definition storage_set :: "'h codec \<Rightarrow> rat \<Rightarrow> 'h set_args \<Rightarrow> 'h storage \<Rightarrow> (nat \<times> rat, 'h) outcome" where
  "storage_set c now a s =
     (case Option.bind (a_msgID a) (obj_get (msgIDs s)) of
        Some r \<Rightarrow> (Inr r, s)
      | None \<Rightarrow>
      (case (case (a_key a, a_previousSeq a) of
               (Some k, Some previousSeq) \<Rightarrow>
                 (case find (\<lambda>r. r_key r = Some k) (rows s) of
                    None \<Rightarrow> Some TypeErr
                  | Some r \<Rightarrow> if r_seq r \<noteq> previousSeq then Some WrongLastSequence else None)
             | _ \<Rightarrow> None) of
        Some e \<Rightarrow> (Inl e, s)
      | None \<Rightarrow>
      (case compress c s (a_raw a) of
        Inl e \<Rightarrow> (Inl e, s)
      | Inr (raw', alg) \<Rightarrow>
          (let serializedHeaders = map_option (json_stringify c) (a_headers a);
               sz = message_size serializedHeaders (a_raw a) (a_key a) in
           (case enforceLimits now sz s of
              (Inl e, s1) \<Rightarrow> (Inl e, s1)
            | (Inr _, s1) \<Rightarrow>
                (let (seq, s2) = insert_row (\<lambda>seq. \<lparr>r_seq = seq, r_key = a_key a, r_time = now / 1000,
                       r_headers = serializedHeaders, r_compress = alg, r_encoding = a_encoding a,
                       r_raw = raw', r_size = sz, r_ttl = a_ttl a\<rparr>) (a_key a) s1;
                     s3 = emit (SetOperation \<lparr>m_seq = seq, m_time = now, m_key = a_key a,
                       m_encoding = a_encoding a, m_raw = a_raw a, m_headers = a_headers a\<rparr>
                       (a_msgID a)) s2 in
                 (Inr (seq, now),
                  (case a_msgID a of
                     None \<Rightarrow> s3
                   | Some i \<Rightarrow> s3\<lparr>msgIDs := obj_set i (seq, now) (msgIDs s3)\<rparr>))))))))"

text \<open>The cache of message ids forgets entries after two minutes.\<close>

definition expire_msgIDs :: "string list \<Rightarrow> 'h storage \<Rightarrow> 'h storage" where
  "expire_msgIDs ids s = s\<lparr>msgIDs := filter (\<lambda>(i, _). i \<notin> set ids) (msgIDs s)\<rparr>"

section \<open>Configuration\<close>

definition EPHEMERAL_MAX_BYTES :: int where
  "EPHEMERAL_MAX_BYTES = 64 * 1000000"

definition default_configuration :: configuration where
  "default_configuration = \<lparr>max_msgs = -1, max_age = 0, max_bytes = -1, max_msg_size = -1,
     max_bytes_per_second = -1, max_msgs_per_second = -1, discard_policy = Discard_old,
     allow_msg_ttl = False, desc = None\<rparr>"

text \<open>One field: the value in force, and the value that is kept in the table \<open>config\<close>.\<close>

definition config_field :: "'a \<Rightarrow> 'a option \<Rightarrow> 'a option \<Rightarrow> 'a" where
  "config_field def given cur = (case given of Some x \<Rightarrow> x | None \<Rightarrow> (case cur of Some y \<Rightarrow> y | None \<Rightarrow> def))"

definition config_store :: "'a \<Rightarrow> 'a option \<Rightarrow> 'a option \<Rightarrow> 'a option" where
  "config_store def given cur =
     (case given of
        Some x \<Rightarrow> if x \<noteq> (case cur of Some y \<Rightarrow> y | None \<Rightarrow> def) then Some x else cur
      | None \<Rightarrow> cur)"

definition cap_ephemeral :: "bool \<Rightarrow> int \<Rightarrow> int" where
  "cap_ephemeral eph b = (if eph \<and> (b \<le> 0 \<or> b > EPHEMERAL_MAX_BYTES) then EPHEMERAL_MAX_BYTES else b)"

definition merge_config :: "(configuration \<Rightarrow> 'a) \<Rightarrow> (partial_configuration \<Rightarrow> 'a option) \<Rightarrow>
    partial_configuration \<Rightarrow> partial_configuration \<Rightarrow> 'a" where
  "merge_config def_of field given cur = config_field (def_of default_configuration) (field given) (field cur)"

definition store_config :: "(configuration \<Rightarrow> 'a) \<Rightarrow> (partial_configuration \<Rightarrow> 'a option) \<Rightarrow>
    partial_configuration \<Rightarrow> partial_configuration \<Rightarrow> 'a option" where
  "store_config def_of field given cur = config_store (def_of default_configuration) (field given) (field cur)"

definition full_config :: "bool \<Rightarrow> partial_configuration \<Rightarrow> partial_configuration \<Rightarrow> configuration" where
  "full_config eph g cur = \<lparr>max_msgs = merge_config max_msgs p_max_msgs g cur,
            max_age = merge_config max_age p_max_age g cur,
            max_bytes = cap_ephemeral eph (merge_config max_bytes p_max_bytes g cur),
            max_msg_size = merge_config max_msg_size p_max_msg_size g cur,
            max_bytes_per_second = merge_config max_bytes_per_second p_max_bytes_per_second g cur,
            max_msgs_per_second = merge_config max_msgs_per_second p_max_msgs_per_second g cur,
            discard_policy = merge_config discard_policy p_discard_policy g cur,
            allow_msg_ttl = merge_config allow_msg_ttl p_allow_msg_ttl g cur,
            desc = (case p_desc g of Some x \<Rightarrow> Some x | None \<Rightarrow> p_desc cur)\<rparr>"

definition changed_config :: "partial_configuration \<Rightarrow> partial_configuration \<Rightarrow> partial_configuration" where
  "changed_config g cur = \<lparr>p_max_msgs = store_config max_msgs p_max_msgs g cur,
            p_max_age = store_config max_age p_max_age g cur,
            p_max_bytes = store_config max_bytes p_max_bytes g cur,
            p_max_msg_size = store_config max_msg_size p_max_msg_size g cur,
            p_max_bytes_per_second = store_config max_bytes_per_second p_max_bytes_per_second g cur,
            p_max_msgs_per_second = store_config max_msgs_per_second p_max_msgs_per_second g cur,
            p_discard_policy = store_config discard_policy p_discard_policy g cur,
            p_allow_msg_ttl = store_config allow_msg_ttl p_allow_msg_ttl g cur,
            p_desc = (case p_desc g of Some x \<Rightarrow> Some x | None \<Rightarrow> p_desc cur)\<rparr>"

definition config :: "rat \<Rightarrow> partial_configuration \<Rightarrow> 'h storage \<Rightarrow> (configuration, 'h) outcome" where
  "config now g s =
     (let full = full_config (ephemeral s) g (config_table s) in
      (case enforceLimits now 0 (s\<lparr>conf := full, config_table := changed_config g (config_table s)\<rparr>) of
         (Inl e, s') \<Rightarrow> (Inl e, s')
       | (Inr _, s') \<Rightarrow> (Inr full, s')))"

text \<open>\<open>getConfig\<close>: the fields of the table that differ from their default.\<close>

definition non_default :: "'a \<Rightarrow> 'a option \<Rightarrow> 'a option" where
  "non_default def v = (if v = Some def then None else v)"

definition getConfig :: "'h storage \<Rightarrow> partial_configuration" where
  "getConfig s = (let t = config_table s; d = default_configuration in
     \<lparr>p_max_msgs = non_default (max_msgs d) (p_max_msgs t),
      p_max_age = non_default (max_age d) (p_max_age t),
      p_max_bytes = non_default (max_bytes d) (p_max_bytes t),
      p_max_msg_size = non_default (max_msg_size d) (p_max_msg_size t),
      p_max_bytes_per_second = non_default (max_bytes_per_second d) (p_max_bytes_per_second t),
      p_max_msgs_per_second = non_default (max_msgs_per_second d) (p_max_msgs_per_second t),
      p_discard_policy = non_default (discard_policy d) (p_discard_policy t),
      p_allow_msg_ttl = non_default (allow_msg_ttl d) (p_allow_msg_ttl t),
      p_desc = p_desc t\<rparr>)"

record inventory_info =
  i_bytes :: int
  i_limits :: partial_configuration
  i_count :: int
  i_seq :: nat

definition inventory :: "'h storage \<Rightarrow> inventory_info" where
  "inventory s = \<lparr>i_bytes = totalSize s, i_limits = getConfig s, i_count = storage_length s,
     i_seq = storage_seq s\<rparr>"

section \<open>Followers\<close>

text \<open>
  The contract of the change events: a copy of the messages that applies them stays equal to
  the table. \<open>SetOperation\<close> replaces the message of the same key.
\<close>

fun apply_change :: "'h change \<Rightarrow> 'h stored_message list \<Rightarrow> 'h stored_message list" where
  "apply_change (SetOperation m _) ms = filter (\<lambda>x. m_key m = None \<or> m_key x \<noteq> m_key m) ms @ [m]"
| "apply_change (DeleteOperation seqs) ms = filter (\<lambda>x. m_seq x \<notin> set seqs) ms"

definition follow :: "'h stored_message list \<Rightarrow> 'h change list \<Rightarrow> 'h stored_message list" where
  "follow ms events = foldl (\<lambda>ms e. apply_change e ms) ms events"

lemma follow_snoc [simp]: "follow ms (es @ [e]) = apply_change e (follow ms es)"
  by (simp add: follow_def)

definition shows_row :: "'h codec \<Rightarrow> row \<Rightarrow> 'h stored_message \<Rightarrow> bool" where
  "shows_row c r m \<longleftrightarrow> dbToMessage c (Some r) = Inr (Some m)"

definition codec_ok :: "'h codec \<Rightarrow> bool" where
  "codec_ok c \<longleftrightarrow> (\<forall>x. zstd_decompress c (zstd_compress c x) = x) \<and>
     (\<forall>h. json_stringify c h \<noteq> '''' \<and> json_parse c (json_stringify c h) = h)"

definition table_ok :: "'h storage \<Rightarrow> bool" where
  "table_ok s \<longleftrightarrow> sorted_wrt (<) (map r_seq (rows s)) \<and>
     (\<forall>r \<in> set (rows s). 0 < r_seq r \<and> r_seq r \<le> autoincrement s \<and> 0 \<le> r_size r) \<and>
     distinct (storage_keys s)"

definition storage_ok :: "'h codec \<Rightarrow> 'h stored_message list \<Rightarrow> 'h storage \<Rightarrow> bool" where
  "storage_ok c base s \<longleftrightarrow> table_ok s \<and>
     list_all2 (shows_row c) (rows s) (follow base (emitted s))"

lemma shows_row_keys: "shows_row c r m \<Longrightarrow> m_seq m = r_seq r \<and> m_key m = r_key r"
  by (auto simp: shows_row_def dbToMessage_def split: sum.splits)

lemma yield_messages_iff: "yield_messages c rs = Inr ms \<longleftrightarrow> list_all2 (shows_row c) rs ms"
proof (induction rs arbitrary: ms)
  case (Cons r rs)
  have "(\<exists>e. dbToMessage c (Some r) = Inl e) \<or> (\<exists>m. dbToMessage c (Some r) = Inr (Some m))"
    by (auto simp: dbToMessage_def split: sum.splits)
  then show ?case
    by (auto simp: shows_row_def [of c r] list_all2_Cons1 Cons.IH [symmetric] split: sum.splits)
qed auto

lemma getAll_iff: "getAll c None None s = Inr ms \<longleftrightarrow> list_all2 (shows_row c) (rows s) ms"
  by (simp add: getAll_def yield_messages_iff)

lemma list_all2_filter:
  assumes "list_all2 R xs ys" and "\<And>x y. x \<in> set xs \<Longrightarrow> R x y \<Longrightarrow> P x = Q y"
  shows "list_all2 R (filter P xs) (filter Q ys)"
  using assms by (induction rule: list_all2_induct) (auto simp: list.rel_intros)

lemma storage_keys_filter: "distinct (storage_keys s) \<Longrightarrow> rows s' = filter P (rows s) \<Longrightarrow> distinct (storage_keys s')"
proof -
  have "distinct (List.map_filter r_key xs) \<Longrightarrow> distinct (List.map_filter r_key (filter P xs)) \<and>
      set (List.map_filter r_key (filter P xs)) \<subseteq> set (List.map_filter r_key xs)" for xs
    by (induction xs) (auto simp: List.map_filter_simps split: option.splits)
  then show "distinct (storage_keys s) \<Longrightarrow> rows s' = filter P (rows s) \<Longrightarrow> distinct (storage_keys s')"
    by (simp add: storage_keys_def)
qed

lemma set_map_filter: "y \<in> set (List.map_filter f xs) \<longleftrightarrow> (\<exists>x \<in> set xs. f x = Some y)"
  by (force simp: List.map_filter_def)

lemma set_storage_keys: "k \<in> set (storage_keys s) \<longleftrightarrow> (\<exists>r \<in> set (rows s). r_key r = Some k)"
  by (simp add: storage_keys_def set_map_filter)

text \<open>
  What every operation but \<open>set\<close> does to the table: it removes rows. \<open>shrinks\<close> also says that
  nothing else changes but the events.
\<close>

definition same_settings :: "'h storage \<Rightarrow> 'h storage \<Rightarrow> bool" where
  "same_settings s s' \<longleftrightarrow> autoincrement s' = autoincrement s \<and> config_table s' = config_table s \<and>
     conf s' = conf s \<and> msgIDs s' = msgIDs s \<and> ephemeral s' = ephemeral s \<and>
     algorithm s' = algorithm s \<and> threshold s' = threshold s"

definition shrinks :: "'h storage \<Rightarrow> 'h storage \<Rightarrow> bool" where
  "shrinks s s' \<longleftrightarrow> same_settings s s' \<and> (\<exists>P. rows s' = filter P (rows s))"

lemma shrinks_refl [simp]: "shrinks s s"
  by (auto simp: shrinks_def same_settings_def intro!: exI [of _ "\<lambda>_. True"])

lemma shrinks_trans [trans]: "shrinks s s' \<Longrightarrow> shrinks s' s'' \<Longrightarrow> shrinks s s''"
  by (force simp: shrinks_def same_settings_def)

lemma shrinks_evict [simp]: "shrinks s (evict P s)"
  by (auto simp: shrinks_def same_settings_def evict_def emitDelete_def emit_def sql_delete_def)

lemma rows_evict [simp]: "rows (evict P s) = filter (\<lambda>r. \<not> P r) (rows s)"
  by (simp add: evict_def emitDelete_def emit_def sql_delete_def)

lemma shrinks_sql_delete [simp]: "shrinks s (sql_delete P s)"
  by (auto simp: shrinks_def same_settings_def sql_delete_def)

lemma shrinks_emit [simp]: "shrinks s (emit e s') \<longleftrightarrow> shrinks s s'"
  by (simp add: shrinks_def same_settings_def emit_def)

lemma shrinks_fold_delete: "shrinks s (fold (\<lambda>q. sql_delete (Q q)) qs s)"
proof (induction qs arbitrary: s)
  case (Cons q qs)
  have "shrinks s (sql_delete (Q q) s)" by simp
  also have "shrinks (sql_delete (Q q) s) (fold (\<lambda>q. sql_delete (Q q)) qs (sql_delete (Q q) s))"
    by (rule Cons)
  finally show ?case by simp
qed simp

lemma shrinks_delete: "shrinks s (snd (storage_delete q qs l a s))"
  by (auto simp: storage_delete_def shrinks_fold_delete split: option.splits nat.splits prod.splits)

lemma table_ok_shrinks: "shrinks s s' \<Longrightarrow> table_ok s \<Longrightarrow> table_ok s'"
  by (auto simp: table_ok_def shrinks_def same_settings_def sorted_wrt_map intro: sorted_wrt_filter
      storage_keys_filter)

lemma shrinks_limits:
  "shrinks s (snd (limit_msgs sz s))" "shrinks s (limit_age now s)"
  "shrinks s (snd (limit_bytes sz s))" "shrinks s (limit_ttl now s)"
  by (auto simp: limit_msgs_def limit_age_def limit_bytes_def limit_ttl_def Let_def shrinks_delete
      split: discard_policy.splits option.splits)

lemma shrinks_enforceLimits: "shrinks s (snd (enforceLimits now sz s))"
proof -
  obtain x1 s1 where 1: "limit_msgs sz s = (x1, s1)" by force
  obtain x2 s2 where 2: "limit_bytes sz (limit_age now s1) = (x2, s2)" by force
  have "shrinks s s1" "shrinks s1 (limit_age now s1)" "shrinks (limit_age now s1) s2"
    "shrinks s2 (limit_ttl now s2)"
    using shrinks_limits(1) [of s sz] shrinks_limits(3) [of "limit_age now s1" sz] 1 2
    by (simp_all add: shrinks_limits)
  then show ?thesis using 1 2
    by (auto simp: enforceLimits_def Let_def split: option.splits sum.splits intro: shrinks_trans)
qed

text \<open>The events keep up with every removal.\<close>

lemma seq_of_filter:
  "table_ok s \<Longrightarrow> r \<in> set (rows s) \<Longrightarrow> r_seq r \<in> r_seq ` {r \<in> set (rows s). P r} \<longleftrightarrow> P r"
  by (auto simp: table_ok_def strict_sorted_iff distinct_map dest: inj_onD)

lemma follow_evict:
  assumes "storage_ok c base s"
  shows "storage_ok c base (evict P s)"
proof -
  have ok: "table_ok s" and f: "list_all2 (shows_row c) (rows s) (follow base (emitted s))"
    using assms by (auto simp: storage_ok_def)
  show ?thesis
  proof (cases "filter P (rows s) = []")
    case True
    then have "filter (\<lambda>r. \<not> P r) (rows s) = rows s" by (simp add: filter_empty_conv filter_id_conv)
    with True assms show ?thesis by (simp add: evict_def emitDelete_def sql_delete_def)
  next
    case False
    have "list_all2 (shows_row c) (filter (\<lambda>r. \<not> P r) (rows s))
        (filter (\<lambda>m. m_seq m \<notin> r_seq ` {r \<in> set (rows s). P r}) (follow base (emitted s)))"
      using f
    proof (rule list_all2_filter)
      fix r m assume "r \<in> set (rows s)" and "shows_row c r m"
      then show "(\<not> P r) = (m_seq m \<notin> r_seq ` {r \<in> set (rows s). P r})"
        using seq_of_filter [OF ok, of r P] shows_row_keys [of c r m] by simp
    qed
    with False table_ok_shrinks [OF shrinks_evict ok, of P] show ?thesis
      by (simp add: storage_ok_def evict_def emitDelete_def emit_def sql_delete_def)
  qed
qed

lemma rows_fold_delete:
  "rows (fold (\<lambda>q. sql_delete (\<lambda>r. r_seq r = q)) qs s) = filter (\<lambda>r. r_seq r \<notin> set qs) (rows s) \<and>
   emitted (fold (\<lambda>q. sql_delete (\<lambda>r. r_seq r = q)) qs s) = emitted s"
  by (induction qs arbitrary: s) (auto simp: sql_delete_def intro: filter_cong)

lemma rows_delete:
  "fst (storage_delete q qs l a s) = seqs \<Longrightarrow> s' = snd (storage_delete q qs l a s) \<Longrightarrow> table_ok s \<Longrightarrow>
     rows s' = filter (\<lambda>r. r_seq r \<notin> set seqs) (rows s) \<and> emitted s' = emitted s @ [DeleteOperation seqs]"
  by (auto simp: storage_delete_def emit_def sql_delete_def rows_fold_delete filter_empty_conv
      intro!: filter_cong split: option.splits nat.splits)

lemma follow_delete:
  assumes "storage_ok c base s"
  shows "storage_ok c base (snd (storage_delete q qs l a s))"
proof -
  have ok: "table_ok s" and f: "list_all2 (shows_row c) (rows s) (follow base (emitted s))"
    using assms by (auto simp: storage_ok_def)
  have "list_all2 (shows_row c) (filter (\<lambda>r. r_seq r \<notin> set seqs) (rows s))
      (filter (\<lambda>m. m_seq m \<notin> set seqs) (follow base (emitted s)))" for seqs
    using f by (rule list_all2_filter) (simp add: shows_row_keys)
  with rows_delete [OF refl refl ok, of q qs l a] table_ok_shrinks [OF shrinks_delete ok, of q qs l a]
  show ?thesis by (simp add: storage_ok_def)
qed

lemma follow_limits:
  assumes "storage_ok c base s"
  shows "storage_ok c base (snd (limit_msgs sz s))" "storage_ok c base (limit_age now s)"
    "storage_ok c base (snd (limit_bytes sz s))" "storage_ok c base (limit_ttl now s)"
  using assms
  by (auto simp: limit_msgs_def limit_age_def limit_bytes_def limit_ttl_def Let_def follow_delete
      follow_evict split: discard_policy.splits option.splits)

text \<open>\<open>enforceLimits\<close> once its first test has passed, as one composition.\<close>

lemma enforceLimits_steps:
  obtains (rates) e where "enforceLimits now sz s = (Inl e, s)" "check_rates now sz s = Some e"
  | (msgs) e s1 where "limit_msgs sz s = (Inl e, s1)" "enforceLimits now sz s = (Inl e, s1)"
  | (bytes) e s1 s2 where "limit_msgs sz s = (Inr (), s1)"
      "limit_bytes sz (limit_age now s1) = (Inl e, s2)" "enforceLimits now sz s = (Inl e, s2)"
  | (passed) x s1 s2 where "limit_msgs sz s = (Inr (), s1)" "limit_bytes sz (limit_age now s1) = (Inr (), s2)"
      "enforceLimits now sz s = (x, limit_ttl now s2)"
      "x = (if max_msg_size (conf (limit_ttl now s2)) > -1 \<and> sz > max_msg_size (conf (limit_ttl now s2))
        then Inl MaxMsgSize else Inr ())"
  by (cases "check_rates now sz s"; cases "limit_msgs sz s"; cases "fst (limit_msgs sz s)";
      cases "limit_bytes sz (limit_age now (snd (limit_msgs sz s)))";
      cases "fst (limit_bytes sz (limit_age now (snd (limit_msgs sz s))))")
    (auto simp: enforceLimits_def Let_def split: if_splits)

lemma follow_enforceLimits:
  assumes "storage_ok c base s"
  shows "storage_ok c base (snd (enforceLimits now sz s))"
  using enforceLimits_steps [of now sz s]
proof cases
  case (msgs e s1)
  with follow_limits(1) [OF assms, of sz] show ?thesis by simp
next
  case (bytes e s1 s2)
  have "storage_ok c base s1" using follow_limits(1) [OF assms, of sz] bytes by simp
  from follow_limits(3) [OF follow_limits(2) [OF this], of sz now] bytes show ?thesis by simp
next
  case (passed x s1 s2)
  have "storage_ok c base s1" using follow_limits(1) [OF assms, of sz] passed by simp
  from follow_limits(3) [OF follow_limits(2) [OF this], of sz now] passed show ?thesis
    by (simp add: follow_limits(4))
qed (simp add: assms)

section \<open>The operation set\<close>

definition new_row :: "nat \<Rightarrow> CompressionAlgorithm \<Rightarrow> bytes \<Rightarrow> string option \<Rightarrow> int \<Rightarrow> rat \<Rightarrow> 'h set_args \<Rightarrow> row" where
  "new_row seq alg raw' headers sz now a = \<lparr>r_seq = seq, r_key = a_key a, r_time = now / 1000,
     r_headers = headers, r_compress = alg, r_encoding = a_encoding a, r_raw = raw',
     r_size = sz, r_ttl = a_ttl a\<rparr>"

definition published :: "'h set_args \<Rightarrow> nat \<Rightarrow> rat \<Rightarrow> 'h stored_message" where
  "published a seq now = \<lparr>m_seq = seq, m_time = now, m_key = a_key a,
     m_encoding = a_encoding a, m_raw = a_raw a, m_headers = a_headers a\<rparr>"

definition args_size :: "'h codec \<Rightarrow> 'h set_args \<Rightarrow> int" where
  "args_size c a = message_size (map_option (json_stringify c) (a_headers a)) (a_raw a) (a_key a)"

text \<open>A \<open>set\<close> that is not answered from the cache of message ids and succeeds.\<close>

lemma storage_set_cases:
  obtains (cached) r where "storage_set c now a s = (Inr r, s)"
      "Option.bind (a_msgID a) (obj_get (msgIDs s)) = Some r"
  | (refused) e where "storage_set c now a s = (Inl e, s)"
  | (limits) e s1 where "storage_set c now a s = (Inl e, s1)" "enforceLimits now (args_size c a) s = (Inl e, s1)"
  | (stored) raw' alg s1 s' where "compress c s (a_raw a) = Inr (raw', alg)"
      "enforceLimits now (args_size c a) s = (Inr (), s1)"
      "storage_set c now a s = (Inr (Suc (autoincrement s1), now), s')"
      "rows s' = filter (\<lambda>r. a_key a = None \<or> r_key r \<noteq> a_key a) (rows s1) @
         [new_row (Suc (autoincrement s1)) alg raw' (map_option (json_stringify c) (a_headers a))
            (args_size c a) now a]"
      "autoincrement s' = Suc (autoincrement s1)" "conf s' = conf s1"
      "emitted s' = emitted s1 @ [SetOperation (published a (Suc (autoincrement s1)) now) (a_msgID a)]"
proof -
  let ?r = "Option.bind (a_msgID a) (obj_get (msgIDs s))"
  let ?chk = "case (a_key a, a_previousSeq a) of
               (Some k, Some previousSeq) \<Rightarrow>
                 (case find (\<lambda>r. r_key r = Some k) (rows s) of
                    None \<Rightarrow> Some TypeErr
                  | Some r \<Rightarrow> if r_seq r \<noteq> previousSeq then Some WrongLastSequence else None)
             | _ \<Rightarrow> None"
  show thesis
  proof (cases "?r = None \<and> ?chk = None")
    case False
    then show ?thesis
      using cached refused by (cases ?r; cases ?chk) (auto simp: storage_set_def)
  next
    case True
    show ?thesis
    proof (cases "compress c s (a_raw a)")
      case (Inl e)
      with True show ?thesis by (intro refused [of e]) (simp add: storage_set_def)
    next
      case (Inr x)
      obtain raw' alg where x: "x = (raw', alg)" by force
      obtain res s1 where l: "enforceLimits now (args_size c a) s = (res, s1)" by force
      show ?thesis
      proof (cases res)
        case (Inl e)
        with True Inr x l show ?thesis
          by (intro limits [of e s1]) (simp_all add: storage_set_def args_size_def Let_def)
      next
        case (Inr u)
        then have *: "storage_set c now a s = (Inr (Suc (autoincrement s1), now), snd (storage_set c now a s))"
          and **: "rows (snd (storage_set c now a s)) = filter (\<lambda>r. a_key a = None \<or> r_key r \<noteq> a_key a) (rows s1) @
             [new_row (Suc (autoincrement s1)) alg raw' (map_option (json_stringify c) (a_headers a))
                (args_size c a) now a]"
          "autoincrement (snd (storage_set c now a s)) = Suc (autoincrement s1)"
          "conf (snd (storage_set c now a s)) = conf s1"
          "emitted (snd (storage_set c now a s)) =
             emitted s1 @ [SetOperation (published a (Suc (autoincrement s1)) now) (a_msgID a)]"
          using True l x \<open>compress c s (a_raw a) = Inr x\<close>
          by (auto simp: storage_set_def args_size_def Let_def insert_row_def sql_delete_def emit_def
              new_row_def published_def split: option.splits)
        show ?thesis
          using stored [OF _ _ * **] \<open>compress c s (a_raw a) = Inr x\<close> x l Inr by simp
      qed
    qed
  qed
qed

lemma shows_new_row:
  assumes "codec_ok c" and "compress c s (a_raw a) = Inr (raw', alg)"
  shows "shows_row c (new_row q alg raw' (map_option (json_stringify c) (a_headers a)) sz now a)
     (published a q now)"
  using assms
  by (auto simp: shows_row_def new_row_def published_def dbToMessage_def handleDecompress_def
      compress_def codec_ok_def split: if_splits option.splits)

lemma message_size_nonneg [simp]: "0 \<le> args_size c a"
  by (simp add: args_size_def message_size_def)

lemma follow_set:
  assumes "storage_ok c base s" and "codec_ok c"
  shows "storage_ok c base (snd (storage_set c now a s))"
proof (cases rule: storage_set_cases [of c now a s])
  case (limits e s1)
  with follow_enforceLimits [OF assms(1), of now "args_size c a"] show ?thesis by simp
next
  case (stored raw' alg s1 s')
  let ?new = "new_row (Suc (autoincrement s1)) alg raw' (map_option (json_stringify c) (a_headers a))
      (args_size c a) now a"
  let ?P = "\<lambda>r. a_key a = None \<or> r_key r \<noteq> a_key a"
  have s1: "storage_ok c base s1"
    using follow_enforceLimits [OF assms(1), of now "args_size c a"] stored(2) by simp
  then have ok: "table_ok s1" and f: "list_all2 (shows_row c) (rows s1) (follow base (emitted s1))"
    by (auto simp: storage_ok_def)
  have "list_all2 (shows_row c) (filter ?P (rows s1))
      (filter (\<lambda>x. a_key a = None \<or> m_key x \<noteq> a_key a) (follow base (emitted s1)))"
    using f by (rule list_all2_filter) (simp add: shows_row_keys)
  then have "list_all2 (shows_row c) (rows s') (follow base (emitted s'))"
    using shows_new_row [OF assms(2) stored(1)]
    by (simp add: stored(4,7)) (simp add: published_def list_all2_appendI)
  moreover have "table_ok s'"
  proof -
    have "table_ok (s1\<lparr>rows := filter ?P (rows s1)\<rparr>)"
      by (rule table_ok_shrinks [OF _ ok]) (auto simp: shrinks_def same_settings_def)
    moreover have "storage_keys s' = storage_keys (s1\<lparr>rows := filter ?P (rows s1)\<rparr>) @
        (case a_key a of None \<Rightarrow> [] | Some k \<Rightarrow> [k])"
      by (auto simp: storage_keys_def stored(4) map_filter_def new_row_def split: option.splits)
    moreover have "\<forall>k. a_key a = Some k \<longrightarrow> k \<notin> set (storage_keys (s1\<lparr>rows := filter ?P (rows s1)\<rparr>))"
      by (simp add: set_storage_keys)
    ultimately show ?thesis
      by (auto simp: table_ok_def stored(4,5) sorted_wrt_append new_row_def split: option.splits)
  qed
  ultimately show ?thesis by (simp add: storage_ok_def stored(3))
qed (use assms in simp_all)

lemma follow_settings:
  "storage_ok c base s \<Longrightarrow> storage_ok c base (s\<lparr>conf := x, config_table := y\<rparr>)"
  "storage_ok c base s \<Longrightarrow> storage_ok c base (s\<lparr>msgIDs := z\<rparr>)"
  by (simp_all add: storage_ok_def table_ok_def storage_keys_def)

lemma config_state:
  "snd (config now g s) = snd (enforceLimits now 0 (s\<lparr>conf := full_config (ephemeral s) g (config_table s),
     config_table := changed_config g (config_table s)\<rparr>))"
  by (auto simp: config_def Let_def split: prod.split sum.split)

lemma follow_config: "storage_ok c base s \<Longrightarrow> storage_ok c base (snd (config now g s))"
  by (simp add: config_state follow_enforceLimits follow_settings(1))

section \<open>What the limits guarantee\<close>

lemma filter_not_take:
  "distinct (map f xs) \<Longrightarrow> filter (\<lambda>x. f x \<notin> f ` set (take n xs)) xs = drop n xs"
proof -
  assume "distinct (map f xs)"
  then have d: "distinct (map f (take n xs @ drop n xs))" by simp
  have "filter (\<lambda>x. f x \<notin> f ` set (take n xs)) (take n xs @ drop n xs) = drop n xs"
    using d unfolding map_append distinct_append filter_append
    by (auto simp: filter_empty_conv filter_id_conv)
  then show ?thesis by simp
qed

lemma filter_above_take:
  fixes f :: "'a \<Rightarrow> nat"
  assumes "sorted_wrt (<) (map f xs)" and "n < length xs"
  shows "filter (\<lambda>x. \<not> f x \<le> f (xs ! n)) xs = drop (Suc n) xs"
proof -
  have eq: "xs = take n xs @ xs ! n # drop (Suc n) xs" using assms(2) by (simp add: id_take_nth_drop)
  have "sorted_wrt (<) (map f (take n xs @ xs ! n # drop (Suc n) xs))" using assms(1) eq by simp
  then have "filter (\<lambda>x. \<not> f x \<le> f (xs ! n)) (take n xs @ xs ! n # drop (Suc n) xs) = drop (Suc n) xs"
    unfolding map_append sorted_wrt_append filter_append
    by (auto simp: filter_empty_conv filter_id_conv not_le)
  with eq show ?thesis by simp
qed

text \<open>The loop over the rows stops at the shortest prefix that frees enough.\<close>

lemma lastSeqToDelete_spec:
  "\<exists>n \<le> length rs. lastSeqToDelete b fr l rs = (if n = 0 then l else Some (r_seq (rs ! (n - 1)))) \<and>
     (n = length rs \<or> b \<le> fr + sum_list (map r_size (take n rs))) \<and>
     (\<forall>k < n. fr + sum_list (map r_size (take k rs)) < b)"
proof (induction b fr l rs rule: lastSeqToDelete.induct)
  case (2 b fr l r rs)
  show ?case
  proof (cases "b \<le> fr")
    case True
    then show ?thesis by (intro exI [of _ 0]) auto
  next
    case False
    then obtain n where n: "n \<le> length rs"
      "lastSeqToDelete b (fr + r_size r) (Some (r_seq r)) rs =
        (if n = 0 then Some (r_seq r) else Some (r_seq (rs ! (n - 1))))"
      "n = length rs \<or> b \<le> fr + r_size r + sum_list (map r_size (take n rs))"
      "\<forall>k < n. fr + r_size r + sum_list (map r_size (take k rs)) < b"
      using 2 by auto
    have "fr + sum_list (map r_size (take k (r # rs))) < b" if "k < Suc n" for k
      using that False n(4) by (cases k) (auto simp: add.assoc)
    with n False show ?thesis by (intro exI [of _ "Suc n"]) (auto simp: add.assoc nth_Cons')
  qed
qed auto

lemma size_sum_filter:
  "\<forall>r \<in> set rs. 0 \<le> r_size r \<Longrightarrow> sum_list (map r_size (filter P rs)) \<le> sum_list (map r_size rs)"
  by (induction rs) auto

lemma shrinks_bounds:
  assumes "shrinks s s'" and "table_ok s"
  shows "totalSize s' \<le> totalSize s" and "storage_length s' \<le> storage_length s"
    and "set (rows s') \<subseteq> set (rows s)" and "conf s' = conf s"
proof -
  obtain P where P: "rows s' = filter P (rows s)" "conf s' = conf s"
    using assms(1) by (auto simp: shrinks_def same_settings_def)
  show "totalSize s' \<le> totalSize s"
    using size_sum_filter [of "rows s" P] assms(2) by (simp add: P(1) totalSize_def table_ok_def)
  show "storage_length s' \<le> storage_length s" "set (rows s') \<subseteq> set (rows s)" "conf s' = conf s"
    by (simp_all add: P storage_length_def)
qed

lemma limit_msgs_bound:
  assumes "limit_msgs sz s = (Inr (), s1)" and "table_ok s" and "0 < sz" and "0 \<le> max_msgs (conf s)"
  shows "storage_length s1 + 1 \<le> max 1 (max_msgs (conf s))"
proof -
  have d: "distinct (map r_seq (rows s))" using assms(2) by (simp add: table_ok_def strict_sorted_iff)
  show ?thesis
    using assms filter_not_take [OF d, of "nat (storage_length s + 1 - max_msgs (conf s))"]
    by (auto simp: limit_msgs_def Let_def storage_length_def split: if_splits discard_policy.splits)
qed

lemma limit_bytes_bound:
  assumes "limit_bytes sz s = (Inr (), s1)" and "table_ok s" and "0 < sz" and "0 \<le> max_bytes (conf s)"
  shows "totalSize s1 + sz \<le> max sz (max_bytes (conf s))"
proof (cases "sz > max_bytes (conf s)")
  case True
  with assms show ?thesis
    by (auto simp: limit_bytes_def storage_delete_def sql_delete_def emit_def totalSize_def
        split: discard_policy.splits)
next
  case False
  define b where "b = totalSize s + sz - max_bytes (conf s)"
  show ?thesis
  proof (cases "0 < b")
    case False
    with assms \<open>\<not> sz > max_bytes (conf s)\<close> show ?thesis
      by (auto simp: limit_bytes_def Let_def b_def split: if_splits option.splits)
  next
    case True
    obtain n where n: "n \<le> length (rows s)"
      "lastSeqToDelete b 0 None (rows s) = (if n = 0 then None else Some (r_seq (rows s ! (n - 1))))"
      "n = length (rows s) \<or> b \<le> sum_list (map r_size (take n (rows s)))"
      using lastSeqToDelete_spec [of "rows s" b 0 None] by auto
    have t: "totalSize s = sum_list (map r_size (take n (rows s))) + sum_list (map r_size (drop n (rows s)))"
      by (simp add: totalSize_def flip: sum_list_append map_append)
    have le: "sum_list (map r_size (drop n (rows s))) + sz \<le> max_bytes (conf s)"
      using n(3) t False by (auto simp: b_def)
    have sorted: "sorted_wrt (<) (map r_seq (rows s))" using assms(2) by (simp add: table_ok_def)
    have drop: "filter (\<lambda>r. \<not> r_seq r \<le> r_seq (rows s ! (n - 1))) (rows s) = drop n (rows s)" if "n \<noteq> 0"
      using filter_above_take [OF sorted, of "n - 1"] that n(1) by auto
    have "limit_bytes sz s = (case lastSeqToDelete b 0 None (rows s) of None \<Rightarrow> (Inr (), s)
        | Some l \<Rightarrow> (case discard_policy (conf s) of Discard_new \<Rightarrow> (Inl MaxBytes, s)
            | Discard_old \<Rightarrow> (Inr (), evict (\<lambda>r. r_seq r \<le> l) s)))"
      using False True assms(3,4)
      by (simp add: limit_bytes_def Let_def b_def split: option.split discard_policy.split)
    with n(2) have "limit_bytes sz s = (if n = 0 then (Inr (), s) else
        (case discard_policy (conf s) of Discard_new \<Rightarrow> (Inl MaxBytes, s)
            | Discard_old \<Rightarrow> (Inr (), evict (\<lambda>r. r_seq r \<le> r_seq (rows s ! (n - 1))) s)))"
      by (cases "n = 0"; cases "discard_policy (conf s)") simp_all
    with assms(1) drop have "rows s1 = drop n (rows s)"
      by (auto split: if_splits discard_policy.splits)
    with le show ?thesis by (simp add: totalSize_def)
  qed
qed

definition expired :: "rat \<Rightarrow> configuration \<Rightarrow> row \<Rightarrow> bool" where
  "expired now cf r \<longleftrightarrow> (max_age cf > 0 \<and> r_time r \<le> (now - of_int (max_age cf)) / 1000) \<or>
     (allow_msg_ttl cf \<and> (case r_ttl r of None \<Rightarrow> False
        | Some ttl \<Rightarrow> r_time r + of_int (sql_div ttl 1000) < now / 1000))"

text \<open>What holds after \<open>enforceLimits\<close> has accepted a message of a positive size.\<close>

definition within_limits :: "rat \<Rightarrow> int \<Rightarrow> configuration \<Rightarrow> row list \<Rightarrow> bool" where
  "within_limits now sz cf rs \<longleftrightarrow>
     (0 \<le> max_msgs cf \<longrightarrow> int (length rs) + 1 \<le> max 1 (max_msgs cf)) \<and>
     (0 \<le> max_bytes cf \<longrightarrow> sum_list (map r_size rs) + sz \<le> max sz (max_bytes cf)) \<and>
     (0 \<le> max_msg_size cf \<longrightarrow> sz \<le> max_msg_size cf) \<and>
     (\<forall>r \<in> set rs. \<not> expired now cf r)"

lemma enforceLimits_bound:
  assumes e: "enforceLimits now sz s = (Inr (), s')" and ok: "table_ok s" and sz: "0 < sz"
  shows "within_limits now sz (conf s) (rows s')" and "conf s' = conf s"
proof -
  from enforceLimits_steps [of now sz s] obtain s1 s2 where
    1: "limit_msgs sz s = (Inr (), s1)" and 2: "limit_bytes sz (limit_age now s1) = (Inr (), s2)"
    and s': "s' = limit_ttl now s2" and m: "max_msg_size (conf s') > -1 \<longrightarrow> sz \<le> max_msg_size (conf s')"
    by cases (use e in \<open>auto split: if_splits\<close>)
  let ?a = "limit_age now s1"
  have sh: "shrinks s s1" "shrinks s1 ?a" "shrinks ?a s2" "shrinks s2 s'"
    using shrinks_limits(1) [of s sz] shrinks_limits(3) [of ?a sz] 1 2 s' by (simp_all add: shrinks_limits)
  have oks: "table_ok s1" "table_ok ?a" "table_ok s2"
    using sh ok table_ok_shrinks by blast+
  have cf: "conf s1 = conf s" "conf ?a = conf s" "conf s2 = conf s" "conf s' = conf s"
    using sh by (simp_all add: shrinks_def same_settings_def)
  have age: "\<not> (max_age (conf s) > 0 \<and> r_time r \<le> (now - of_int (max_age (conf s))) / 1000)"
    if "r \<in> set (rows ?a)" for r
    using that cf by (auto simp: limit_age_def split: if_splits)
  have ttl: "\<not> (allow_msg_ttl (conf s) \<and> (case r_ttl r of None \<Rightarrow> False
        | Some ttl \<Rightarrow> r_time r + of_int (sql_div ttl 1000) < now / 1000))" if "r \<in> set (rows s')" for r
    using that cf by (auto simp: s' limit_ttl_def split: if_splits)
  have sub: "set (rows s') \<subseteq> set (rows ?a)"
    using shrinks_bounds(3) [OF sh(3) oks(2)] shrinks_bounds(3) [OF sh(4) oks(3)] by simp
  have len: "storage_length s' \<le> storage_length s1"
    using shrinks_bounds(2) [OF sh(2) oks(1)] shrinks_bounds(2) [OF sh(3) oks(2)]
      shrinks_bounds(2) [OF sh(4) oks(3)] by simp
  have "\<forall>r \<in> set (rows s'). \<not> expired now (conf s) r"
    using age ttl sub by (auto simp: expired_def)
  moreover have "0 \<le> max_msgs (conf s) \<longrightarrow> int (length (rows s')) + 1 \<le> max 1 (max_msgs (conf s))"
    using limit_msgs_bound [OF 1 ok sz] len unfolding storage_length_def by linarith
  moreover have "0 \<le> max_bytes (conf s) \<longrightarrow> totalSize s' + sz \<le> max sz (max_bytes (conf s))"
    using limit_bytes_bound [OF 2 oks(2) sz] shrinks_bounds(1) [OF sh(4) oks(3)]
    unfolding cf by linarith
  ultimately show "within_limits now sz (conf s) (rows s')"
    using m cf by (simp add: within_limits_def totalSize_def)
  show "conf s' = conf s" by (rule cf(4))
qed

section \<open>Sequences of operations\<close>

datatype 'h cmd =
    Cmd_set rat "'h set_args"
  | Cmd_delete "nat option" "nat list option" "nat option" bool
  | Cmd_config rat partial_configuration
  | Cmd_expire "string list"

fun exec_cmd :: "'h codec \<Rightarrow> 'h storage \<Rightarrow> 'h cmd \<Rightarrow> 'h storage" where
  "exec_cmd c s (Cmd_set now a) = snd (storage_set c now a s)"
| "exec_cmd c s (Cmd_delete q qs l a) = snd (storage_delete q qs l a s)"
| "exec_cmd c s (Cmd_config now g) = snd (config now g s)"
| "exec_cmd c s (Cmd_expire ids) = expire_msgIDs ids s"

lemma storage_ok_exec: "codec_ok c \<Longrightarrow> storage_ok c base s \<Longrightarrow> storage_ok c base (exec_cmd c s x)"
  by (cases x) (simp_all add: follow_set follow_delete follow_config expire_msgIDs_def follow_settings(2))

lemma storage_ok_run: "codec_ok c \<Longrightarrow> storage_ok c base s \<Longrightarrow> storage_ok c base (foldl (exec_cmd c) s xs)"
  by (induction xs arbitrary: s) (simp_all add: storage_ok_exec)

lemma autoincrement_exec: "autoincrement s \<le> autoincrement (exec_cmd c s x)"
proof (cases x)
  case (Cmd_set now a)
  have e: "autoincrement (snd (enforceLimits now (args_size c a) s)) = autoincrement s"
    using shrinks_enforceLimits [of s now "args_size c a"] by (simp add: shrinks_def same_settings_def)
  show ?thesis
    using e unfolding Cmd_set exec_cmd.simps by (cases rule: storage_set_cases [of c now a s]) simp_all
next
  case (Cmd_delete q qs l a)
  then show ?thesis using shrinks_delete [of s q qs l a] by (simp add: shrinks_def same_settings_def)
next
  case (Cmd_config now g)
  show ?thesis
    using shrinks_enforceLimits [of "s\<lparr>conf := full_config (ephemeral s) g (config_table s),
        config_table := changed_config g (config_table s)\<rparr>" now 0]
    by (simp add: Cmd_config config_state shrinks_def same_settings_def)
qed (simp add: expire_msgIDs_def)

lemma autoincrement_run: "autoincrement s \<le> autoincrement (foldl (exec_cmd c) s xs)"
proof (induction xs arbitrary: s)
  case (Cons x xs)
  show ?case using autoincrement_exec [of s c x] Cons [of "exec_cmd c s x"] by simp
qed simp

lemma table_ok_getAll:
  "table_ok s \<Longrightarrow> emitted s = [] \<Longrightarrow> getAll c None None s = Inr ms \<Longrightarrow> storage_ok c ms s"
  by (simp add: storage_ok_def getAll_iff follow_def)

text \<open>The sequence numbers of the emitted sets increase.\<close>

definition set_seqs :: "'h change list \<Rightarrow> nat list" where
  "set_seqs es = concat (map (\<lambda>e. case e of SetOperation m _ \<Rightarrow> [m_seq m] | DeleteOperation _ \<Rightarrow> []) es)"

definition fresh_events :: "nat \<Rightarrow> 'h change list \<Rightarrow> bool" where
  "fresh_events q es \<longleftrightarrow> sorted_wrt (<) (q # set_seqs es)"

lemma set_seqs_simps [simp]:
  "set_seqs [] = []" "set_seqs (es @ es') = set_seqs es @ set_seqs es'"
  "set_seqs (SetOperation m i # es) = m_seq m # set_seqs es" "set_seqs (DeleteOperation qs # es) = set_seqs es"
  by (simp_all add: set_seqs_def)

lemma set_seqs_limits [simp]:
  "set_seqs (emitted (evict P s)) = set_seqs (emitted s)"
  "set_seqs (emitted (snd (storage_delete q qs l a s))) = set_seqs (emitted s)"
  "set_seqs (emitted (snd (limit_msgs sz s))) = set_seqs (emitted s)"
  "set_seqs (emitted (limit_age now s)) = set_seqs (emitted s)"
  "set_seqs (emitted (snd (limit_bytes sz s))) = set_seqs (emitted s)"
  "set_seqs (emitted (limit_ttl now s)) = set_seqs (emitted s)"
proof -
  show e: "set_seqs (emitted (evict P s)) = set_seqs (emitted s)" for P and s :: "'b storage"
    by (simp add: evict_def emitDelete_def emit_def sql_delete_def)
  have f: "emitted (fold (\<lambda>q. sql_delete (\<lambda>r. r_seq r = q)) qs s) = emitted s" for qs and s :: "'b storage"
    by (simp add: rows_fold_delete)
  show d: "set_seqs (emitted (snd (storage_delete q qs l a s))) = set_seqs (emitted s)" for q qs l a and s :: "'b storage"
    by (auto simp: storage_delete_def emit_def sql_delete_def f split: option.splits nat.splits prod.splits)
  show "set_seqs (emitted (snd (limit_msgs sz s))) = set_seqs (emitted s)"
    "set_seqs (emitted (limit_age now s)) = set_seqs (emitted s)"
    "set_seqs (emitted (snd (limit_bytes sz s))) = set_seqs (emitted s)"
    "set_seqs (emitted (limit_ttl now s)) = set_seqs (emitted s)" for s :: "'b storage"
    by (auto simp: limit_msgs_def limit_age_def limit_bytes_def limit_ttl_def Let_def e d
        split: discard_policy.splits option.splits)
qed

lemma set_seqs_enforceLimits [simp]: "set_seqs (emitted (snd (enforceLimits now sz s))) = set_seqs (emitted s)"
proof (cases rule: enforceLimits_steps [of now sz s])
  case (msgs e s1)
  then show ?thesis using set_seqs_limits(3) [of sz s] by simp
next
  case (bytes e s1 s2)
  then show ?thesis using set_seqs_limits(3) [of sz s] set_seqs_limits(5) [of sz "limit_age now s1"] by simp
next
  case (passed x s1 s2)
  then show ?thesis using set_seqs_limits(3) [of sz s] set_seqs_limits(5) [of sz "limit_age now s1"] by simp
qed simp

lemma fresh_exec:
  assumes "fresh_events q (emitted s)" and "\<forall>n \<in> set (set_seqs (emitted s)). n \<le> autoincrement s" and "q \<le> autoincrement s"
  shows "fresh_events q (emitted (exec_cmd c s x)) \<and>
    (\<forall>n \<in> set (set_seqs (emitted (exec_cmd c s x))). n \<le> autoincrement (exec_cmd c s x))"
proof (cases x)
  case (Cmd_set now a)
  have e: "set_seqs (emitted s1) = set_seqs (emitted s) \<and> autoincrement s1 = autoincrement s"
    if "enforceLimits now (args_size c a) s = (y, s1)" for y s1
    using that set_seqs_enforceLimits [of now "args_size c a" s] shrinks_enforceLimits [of s now "args_size c a"]
    by (simp add: shrinks_def same_settings_def)
  show ?thesis
  proof (cases rule: storage_set_cases [of c now a s])
    case (stored raw' alg s1 s')
    then show ?thesis using assms e [OF stored(2)] unfolding Cmd_set exec_cmd.simps
      by (auto simp: fresh_events_def sorted_wrt_append published_def less_Suc_eq_le)
  next
    case (limits er s1)
    then show ?thesis using assms e [OF limits(2)] by (simp add: Cmd_set fresh_events_def)
  qed (use assms in \<open>simp_all add: Cmd_set\<close>)
next
  case (Cmd_delete q' qs l a)
  have "autoincrement (snd (storage_delete q' qs l a s)) = autoincrement s"
    using shrinks_delete [of s q' qs l a] by (simp add: shrinks_def same_settings_def)
  then show ?thesis using assms by (simp add: Cmd_delete fresh_events_def)
next
  case (Cmd_config now g)
  let ?s = "s\<lparr>conf := full_config (ephemeral s) g (config_table s), config_table := changed_config g (config_table s)\<rparr>"
  have "autoincrement (snd (enforceLimits now 0 ?s)) = autoincrement s"
    using shrinks_enforceLimits [of ?s now 0] by (simp add: shrinks_def same_settings_def)
  then show ?thesis using assms by (simp add: Cmd_config config_state fresh_events_def)
qed (use assms in \<open>simp add: expire_msgIDs_def\<close>)

lemma fresh_run:
  assumes "fresh_events q (emitted s)" and "\<forall>n \<in> set (set_seqs (emitted s)). n \<le> autoincrement s" and "q \<le> autoincrement s"
  shows "fresh_events q (emitted (foldl (exec_cmd c) s xs))"
  using assms
proof (induction xs arbitrary: s)
  case (Cons x xs)
  from fresh_exec [OF Cons.prems, of c x] have "fresh_events q (emitted (exec_cmd c s x))"
    "\<forall>n \<in> set (set_seqs (emitted (exec_cmd c s x))). n \<le> autoincrement (exec_cmd c s x)" by blast+
  moreover have "q \<le> autoincrement (exec_cmd c s x)" using Cons.prems(3) autoincrement_exec le_trans by blast
  ultimately show ?case using Cons.IH [of "exec_cmd c s x"] by simp
qed simp

definition empty_storage :: "'h storage" where
  "empty_storage = \<lparr>rows = [], autoincrement = 0, config_table = \<lparr>p_max_msgs = None, p_max_age = None,
     p_max_bytes = None, p_max_msg_size = None, p_max_bytes_per_second = None,
     p_max_msgs_per_second = None, p_discard_policy = None, p_allow_msg_ttl = None, p_desc = None\<rparr>,
     conf = default_configuration, msgIDs = [], ephemeral = False, algorithm = Zstd, threshold = 1024,
     emitted = []\<rparr>"

lemma empty_ok: "table_ok empty_storage" "emitted empty_storage = []" "getAll c None None empty_storage = Inr []"
  by (simp_all add: table_ok_def empty_storage_def getAll_def storage_keys_def map_filter_def)

definition plain_codec :: "nat codec" where
  "plain_codec = \<lparr>zstd_compress = rev, zstd_decompress = rev, json_stringify = (\<lambda>n. replicate (n + 1) CHR ''1''),
     json_parse = (\<lambda>s. length s - 1)\<rparr>"

lemma plain_codec_ok: "codec_ok plain_codec"
  by (simp add: codec_ok_def plain_codec_def)

section \<open>A successful set\<close>

lemma within_limits_filter:
  "within_limits now sz cf rs \<Longrightarrow> \<forall>r \<in> set rs. 0 \<le> r_size r \<Longrightarrow> within_limits now sz cf (filter P rs)"
proof -
  assume w: "within_limits now sz cf rs" and n: "\<forall>r \<in> set rs. 0 \<le> r_size r"
  have "length (filter P rs) \<le> length rs" by simp
  with w size_sum_filter [OF n, of P] show ?thesis
    unfolding within_limits_def set_filter by (auto simp del: length_filter_le)
qed

lemma find_snoc: "find P (xs @ [x]) = (case find P xs of Some y \<Rightarrow> Some y | None \<Rightarrow> if P x then Some x else None)"
  by (induction xs) auto

lemma find_filter_not: "(\<And>x. P x \<Longrightarrow> \<not> Q x) \<Longrightarrow> find P (filter Q xs) = None"
  by (induction xs) auto

lemma storage_set_stored:
  assumes ok: "table_ok s" and new: "Option.bind (a_msgID a) (obj_get (msgIDs s)) = None"
    and set: "storage_set c now a s = (Inr (q, t), s')"
  obtains raw' alg rest where "compress c s (a_raw a) = Inr (raw', alg)"
    "rows s' = rest @ [new_row q alg raw' (map_option (json_stringify c) (a_headers a)) (args_size c a) now a]"
    "q = Suc (autoincrement s)" "t = now" "autoincrement s' = q"
    "\<And>r. r \<in> set rest \<Longrightarrow> r \<in> set (rows s) \<and> r_seq r < q \<and> (a_key a = None \<or> r_key r \<noteq> a_key a)"
    "0 < args_size c a \<Longrightarrow> within_limits now (args_size c a) (conf s) rest"
proof -
  from storage_set_cases [of c now a s] obtain raw' alg s1 where
    c: "compress c s (a_raw a) = Inr (raw', alg)"
    and e: "enforceLimits now (args_size c a) s = (Inr (), s1)"
    and q: "q = Suc (autoincrement s1)" "t = now" "autoincrement s' = q"
    and r: "rows s' = filter (\<lambda>r. a_key a = None \<or> r_key r \<noteq> a_key a) (rows s1) @
         [new_row q alg raw' (map_option (json_stringify c) (a_headers a)) (args_size c a) now a]"
    by cases (use set new in auto)
  have sh: "shrinks s s1" using shrinks_enforceLimits [of s now "args_size c a"] e by simp
  then have ok1: "table_ok s1" and sub: "set (rows s1) \<subseteq> set (rows s)" and ai: "autoincrement s1 = autoincrement s"
    using ok table_ok_shrinks shrinks_bounds(3) by (blast, blast, simp add: shrinks_def same_settings_def)
  have w: "within_limits now (args_size c a) (conf s) (rows s1)" if "0 < args_size c a"
    using enforceLimits_bound(1) [OF e ok that] .
  have nn: "\<forall>r \<in> set (rows s1). 0 \<le> r_size r \<and> r_seq r \<le> autoincrement s1" using ok1 by (simp add: table_ok_def)
  show thesis
    using that [OF c r _ q(2,3)] sub q(1) ai nn w within_limits_filter [of now "args_size c a" "conf s" "rows s1"]
    by (auto simp: less_Suc_eq_le)
qed

section \<open>Properties\<close>

text \<open>C17: whoever has read all messages of a stream and then applies its change events in order has
  exactly what the server has, after any sequence of sets, deletes, changes of the configuration
  and expiry of the message ids, refused operations included. The codec reads back what it wrote.\<close>

theorem followers_have_the_stream:
  assumes "codec_ok c" and "table_ok s" and "emitted s = []" and "getAll c None None s = Inr ms"
  shows "getAll c None None (foldl (exec_cmd c) s cmds) =
    Inr (follow ms (emitted (foldl (exec_cmd c) s cmds)))"
  using storage_ok_run [OF assms(1) table_ok_getAll [OF assms(2-4)], of cmds]
  by (simp add: storage_ok_def getAll_iff)

theorem followers_have_the_stream_witness:
  "\<forall>cmds. getAll plain_codec None None (foldl (exec_cmd plain_codec) empty_storage cmds) =
    Inr (follow [] (emitted (foldl (exec_cmd plain_codec) empty_storage cmds)))"
  by (intro allI, rule followers_have_the_stream [OF plain_codec_ok empty_ok])

text \<open>
  C23: a message that is accepted gets the next sequence number, becomes the
  last row, replaces the row of its key, and what else is kept are old rows, such that the stream
  is within the limits of the configuration: at most \<open>max_msgs\<close> messages (when that is 0, the new
  message alone), at most \<open>max_bytes\<close> bytes in total (a new message that is larger than
  that itself is kept, and then the total is its size), no old row expired, and the new message not larger than
  \<open>max_msg_size\<close>. Conditions: the table is as its operations keep it, the message has a positive size (raw bytes, headers and key together),
  and it has no id that the server still remembers (then nothing is stored).
\<close>

theorem set_keeps_limits:
  assumes "table_ok s" and "Option.bind (a_msgID a) (obj_get (msgIDs s)) = None"
    and "storage_set c now a s = (Inr (q, t), s')" and "0 < args_size c a"
  shows "q = Suc (autoincrement s) \<and> (\<forall>r \<in> set (rows s). r_seq r < q) \<and>
    (\<exists>rest new. rows s' = rest @ [new] \<and> r_seq new = q \<and> r_key new = a_key a \<and> r_size new = args_size c a \<and>
       set rest \<subseteq> set (rows s) \<and> (\<forall>r \<in> set rest. a_key a = None \<or> r_key r \<noteq> a_key a) \<and>
       (0 < max_msgs (conf s) \<longrightarrow> int (length (rows s')) \<le> max_msgs (conf s)) \<and>
       (max_msgs (conf s) = 0 \<longrightarrow> rows s' = [new]) \<and>
       (0 \<le> max_bytes (conf s) \<longrightarrow> totalSize s' \<le> max (r_size new) (max_bytes (conf s))) \<and>
       (0 \<le> max_msg_size (conf s) \<longrightarrow> r_size new \<le> max_msg_size (conf s)) \<and>
       (\<forall>r \<in> set rest. \<not> expired now (conf s) r))"
proof -
  obtain raw' alg rest where r: "rows s' = rest @ [new_row q alg raw' (map_option (json_stringify c) (a_headers a)) (args_size c a) now a]"
    "q = Suc (autoincrement s)" "\<And>r. r \<in> set rest \<Longrightarrow> r \<in> set (rows s) \<and> r_seq r < q \<and> (a_key a = None \<or> r_key r \<noteq> a_key a)"
    "0 < args_size c a \<Longrightarrow> within_limits now (args_size c a) (conf s) rest"
    by (rule storage_set_stored [OF assms(1-3)]) auto
  let ?new = "new_row q alg raw' (map_option (json_stringify c) (a_headers a)) (args_size c a) now a"
  have new: "r_seq ?new = q" "r_key ?new = a_key a" "r_size ?new = args_size c a" by (simp_all add: new_row_def)
  have old: "\<forall>r \<in> set (rows s). r_seq r < q" using assms(1) r(2) by (auto simp: table_ok_def less_Suc_eq_le)
  have lim: "within_limits now (args_size c a) (conf s) rest" by (rule r(4)[OF assms(4)])
  have "totalSize s' = sum_list (map r_size rest) + args_size c a" by (simp add: totalSize_def r(1) new)
  then have "(0 < max_msgs (conf s) \<longrightarrow> int (length (rows s')) \<le> max_msgs (conf s)) \<and> (max_msgs (conf s) = 0 \<longrightarrow> rows s' = [?new]) \<and>
      (0 \<le> max_bytes (conf s) \<longrightarrow> totalSize s' \<le> max (r_size ?new) (max_bytes (conf s))) \<and>
      (0 \<le> max_msg_size (conf s) \<longrightarrow> r_size ?new \<le> max_msg_size (conf s)) \<and> (\<forall>r \<in> set rest. \<not> expired now (conf s) r)"
    using lim r(1) by (auto simp: within_limits_def new)
  then show ?thesis using r(1-3) old new by blast
qed

definition sample_args :: "nat set_args" where
  "sample_args = \<lparr>a_encoding = 0, a_raw = [1, 2], a_headers = None, a_key = Some ''k'', a_ttl = None,
     a_previousSeq = None, a_msgID = Some ''m''\<rparr>"

lemma set_sample:
  "storage_set plain_codec 5000 sample_args empty_storage =
     (Inr (1, 5000), snd (storage_set plain_codec 5000 sample_args empty_storage))"
  by (simp add: storage_set_def sample_args_def empty_storage_def default_configuration_def Let_def
      compress_def enforceLimits_def check_rates_def limit_msgs_def limit_age_def limit_bytes_def limit_ttl_def
      insert_row_def sql_delete_def split: prod.split)

theorem set_keeps_limits_witness:
  "\<exists>rest new. rows (snd (storage_set plain_codec 5000 sample_args empty_storage)) = rest @ [new] \<and> r_seq new = 1 \<and>
     r_key new = a_key sample_args \<and> r_size new = args_size plain_codec sample_args"
proof -
  have "Option.bind (a_msgID sample_args) (obj_get (msgIDs empty_storage)) = None" "0 < args_size plain_codec sample_args"
    by (simp_all add: sample_args_def empty_storage_def args_size_def message_size_def)
  from set_keeps_limits [OF empty_ok(1) this(1) set_sample this(2)] show ?thesis by blast
qed

text \<open>
  What was set can be read: by its sequence number and by its key, \<open>get\<close> returns the
  message that was passed to \<open>set\<close>, decompressed and with its headers parsed, and \<open>getAll\<close>
  ends with it. A second \<open>set\<close> with the same message id returns the first answer and changes nothing.
\<close>

theorem set_then_get:
  assumes "codec_ok c" and "table_ok s" and "Option.bind (a_msgID a) (obj_get (msgIDs s)) = None"
    and "storage_set c now a s = (Inr (q, t), s')"
  shows "storage_get c (Some q) None s' = Inr (Some (published a q t)) \<and>
    (a_key a \<noteq> None \<longrightarrow> storage_get c None (a_key a) s' = Inr (Some (published a q t))) \<and>
    (a_msgID a \<noteq> None \<longrightarrow> storage_set c later a s' = (Inr (q, t), s'))"
proof -
  obtain raw' alg rest where r: "rows s' = rest @ [new_row q alg raw' (map_option (json_stringify c) (a_headers a)) (args_size c a) now a]"
    and q: "q = Suc (autoincrement s)" "t = now"
    and c: "compress c s (a_raw a) = Inr (raw', alg)"
    and rest: "\<And>r. r \<in> set rest \<Longrightarrow> r_seq r < q \<and> (a_key a = None \<or> r_key r \<noteq> a_key a)"
    by (rule storage_set_stored [OF assms(2-4)]) auto
  let ?new = "new_row q alg raw' (map_option (json_stringify c) (a_headers a)) (args_size c a) now a"
  have new: "dbToMessage c (Some ?new) = Inr (Some (published a q t))"
    using shows_new_row [OF assms(1) c] q(2) by (simp add: shows_row_def)
  have "find (\<lambda>r. Some (r_seq r) = Some q) rest = None"
    using rest by (fastforce simp: find_None_iff)
  then have "find (\<lambda>r. Some (r_seq r) = Some q) (rows s') = Some ?new"
    by (simp add: r find_snoc new_row_def)
  moreover have "find (\<lambda>r. r_key r = a_key a) (rows s') = Some ?new" if "a_key a \<noteq> None"
  proof -
    have "find (\<lambda>r. r_key r = a_key a) rest = None" using rest that by (fastforce simp: find_None_iff)
    then show ?thesis by (simp add: r find_snoc new_row_def)
  qed
  moreover have "Option.bind (a_msgID a) (obj_get (msgIDs s')) = Some (q, t)" if "a_msgID a \<noteq> None"
    using assms(4) that assms(3)
    by (auto simp: storage_set_def Let_def insert_row_def emit_def obj_simps
        split: option.splits sum.splits prod.splits if_splits)
  ultimately show ?thesis using new q(1) by (auto simp: storage_get_def storage_set_def)
qed

theorem set_then_get_witness:
  "let s' = snd (storage_set plain_codec 5000 sample_args empty_storage) in
   storage_get plain_codec (Some 1) None s' = Inr (Some (published sample_args 1 5000)) \<and>
   storage_get plain_codec None (Some ''k'') s' = Inr (Some (published sample_args 1 5000)) \<and>
   storage_set plain_codec 9000 sample_args s' = (Inr (1, 5000), s')"
proof -
  have "Option.bind (a_msgID sample_args) (obj_get (msgIDs (empty_storage :: nat storage))) = None"
    by (simp add: sample_args_def empty_storage_def)
  from set_then_get [OF plain_codec_ok empty_ok(1) this set_sample, of 9000] show ?thesis
    by (simp add: sample_args_def Let_def)
qed

text \<open>
  A write with \<open>previousSeq\<close> is a compare and swap on its key: it goes through only if the
  row of the key has exactly that sequence number, a stale number is refused with
  \<open>wrong-last-sequence\<close> and nothing changes; for a key without a row the code does not report
  that error but fails with a TypeError (it destructures undefined).
\<close>

theorem set_compare_and_swap:
  assumes "table_ok s" and "Option.bind (a_msgID a) (obj_get (msgIDs s)) = None"
    and "a_key a = Some k" and "a_previousSeq a = Some p"
  shows "(\<forall>q t s'. storage_set c now a s = (Inr (q, t), s') \<longrightarrow>
      (\<exists>r \<in> set (rows s). r_key r = Some k \<and> r_seq r = p)) \<and>
    (\<forall>r \<in> set (rows s). r_key r = Some k \<and> r_seq r \<noteq> p \<longrightarrow>
      storage_set c now a s = (Inl WrongLastSequence, s)) \<and>
    (k \<notin> set (storage_keys s) \<longrightarrow> storage_set c now a s = (Inl TypeErr, s))"
proof -
  have uniq: "find (\<lambda>r. r_key r = Some k) (rows s) = Some r" if "r \<in> set (rows s)" "r_key r = Some k" for r
  proof -
    have "distinct (List.map_filter r_key xs) \<Longrightarrow> r \<in> set xs \<Longrightarrow> find (\<lambda>r. r_key r = Some k) xs = Some r" for xs
      using that(2) by (induction xs) (auto simp: List.map_filter_simps set_map_filter split: option.splits)
    with that assms(1) show ?thesis by (simp add: table_ok_def storage_keys_def)
  qed
  show ?thesis
  proof (cases "find (\<lambda>r. r_key r = Some k) (rows s)")
    case None
    then have "k \<notin> set (storage_keys s)" by (auto simp: find_None_iff set_storage_keys)
    then show ?thesis
      using None assms by (auto simp: storage_set_def set_storage_keys)
  next
    case (Some r)
    then have r: "r \<in> set (rows s)" "r_key r = Some k" by (auto simp: find_Some_iff)
    have one: "\<forall>r' \<in> set (rows s). r_key r' = Some k \<longrightarrow> r' = r" using uniq Some by fastforce
    moreover have "k \<in> set (storage_keys s)" using r by (auto simp: set_storage_keys)
    moreover have "storage_set c now a s = (Inl WrongLastSequence, s)" if "r_seq r \<noteq> p"
      using that Some assms(2-4) by (simp add: storage_set_def)
    ultimately show ?thesis
    proof (cases "r_seq r = p")
      case True
      with one r \<open>k \<in> set (storage_keys s)\<close> show ?thesis by blast
    next
      case False
      then have "storage_set c now a s = (Inl WrongLastSequence, s)"
        using \<open>r_seq r \<noteq> p \<Longrightarrow> storage_set c now a s = (Inl WrongLastSequence, s)\<close> by blast
      moreover have "\<forall>r' \<in> set (rows s). \<not> (r_key r' = Some k \<and> r_seq r' = p)" using False one by blast
      ultimately show ?thesis using \<open>k \<in> set (storage_keys s)\<close> by (metis Inl_Inr_False Pair_inject)
    qed
  qed
qed

definition sample_row :: "nat \<Rightarrow> string \<Rightarrow> row" where
  "sample_row q k = \<lparr>r_seq = q, r_key = Some k, r_time = 1, r_headers = None, r_compress = NoCompression,
     r_encoding = 0, r_raw = [7], r_size = 2, r_ttl = None\<rparr>"

definition sample_storage :: "configuration \<Rightarrow> nat storage" where
  "sample_storage cf = empty_storage\<lparr>rows := [sample_row 1 ''j'', sample_row 2 ''k''], autoincrement := 2, conf := cf\<rparr>"

lemma sample_ok: "table_ok (sample_storage cf)"
  by (simp add: table_ok_def sample_storage_def sample_row_def storage_keys_def map_filter_def)

theorem set_compare_and_swap_witness:
  "storage_set plain_codec 5000 (sample_args\<lparr>a_previousSeq := Some 1\<rparr>) (sample_storage default_configuration) =
     (Inl WrongLastSequence, sample_storage default_configuration)"
proof -
  let ?cf = default_configuration
  let ?a = "sample_args\<lparr>a_previousSeq := Some 1\<rparr>"
  have "Option.bind (a_msgID ?a) (obj_get (msgIDs (sample_storage ?cf))) = None"
    "a_key ?a = Some ''k''" "a_previousSeq ?a = Some 1"
    by (simp_all add: sample_args_def sample_storage_def empty_storage_def)
  from set_compare_and_swap [OF sample_ok [of ?cf] this, of plain_codec 5000] show ?thesis
    by (simp add: sample_storage_def sample_row_def)
qed

text \<open>
  A refused write can still lose data. On a stream at its limit of messages, with the policy
  to discard old ones, a message that is larger than \<open>max_msg_size\<close> is rejected, but
  \<open>enforceLimits\<close> tests this limit last, so the oldest message has been deleted already.
\<close>

theorem rejected_set_deletes_oldest:
  assumes "table_ok s" and "rows s \<noteq> []" and "Option.bind (a_msgID a) (obj_get (msgIDs s)) = None"
    and "a_previousSeq a = None" and "compress c s (a_raw a) = Inr x"
    and "conf s = default_configuration\<lparr>max_msgs := storage_length s, max_msg_size := m\<rparr>"
    and "0 \<le> m" and "m < args_size c a"
  shows "\<exists>s'. storage_set c now a s = (Inl MaxMsgSize, s') \<and> rows s' = tl (rows s) \<and>
    emitted s' = emitted s @ [DeleteOperation [r_seq (hd (rows s))]]"
proof -
  obtain r rs where r: "rows s = r # rs" using assms(2) by (cases "rows s") auto
  have "\<forall>x \<in> set rs. r_seq x \<noteq> r_seq r" using assms(1) r by (auto simp: table_ok_def)
  then have rs: "filter (\<lambda>x. r_seq x \<noteq> r_seq r) rs = rs" "filter (\<lambda>x. r_seq x = r_seq r) rs = []"
    by (auto simp: filter_id_conv filter_empty_conv)
  let ?s1 = "evict (\<lambda>x. r_seq x = r_seq r) s"
  have s1: "rows ?s1 = rs" "conf ?s1 = conf s" "emitted ?s1 = emitted s @ [DeleteOperation [r_seq r]]"
    using rs r by (simp_all add: evict_def emitDelete_def sql_delete_def emit_def)
  have e: "enforceLimits now (args_size c a) s = (Inl MaxMsgSize, ?s1)"
    using assms(6-8) r s1(2)
    by (simp add: enforceLimits_def check_rates_def limit_msgs_def storage_length_def Let_def
        limit_age_def limit_bytes_def limit_ttl_def default_configuration_def)
  have "storage_set c now a s = (Inl MaxMsgSize, ?s1)"
    using assms(3-5) e by (cases x; cases "a_key a") (simp_all add: storage_set_def args_size_def Let_def)
  with s1 r show ?thesis by simp
qed

theorem rejected_set_deletes_oldest_witness:
  "\<exists>s'. storage_set plain_codec 5000 sample_args
      (sample_storage (default_configuration\<lparr>max_msgs := 2, max_msg_size := 1\<rparr>)) = (Inl MaxMsgSize, s') \<and>
    rows s' = [sample_row 2 ''k'']"
proof -
  let ?s = "sample_storage (default_configuration\<lparr>max_msgs := 2, max_msg_size := 1\<rparr>)"
  have "Option.bind (a_msgID sample_args) (obj_get (msgIDs ?s)) = None" "rows ?s \<noteq> []"
    "compress plain_codec ?s (a_raw sample_args) = Inr ([1, 2], NoCompression)"
    "a_previousSeq sample_args = None"
    "conf ?s = default_configuration\<lparr>max_msgs := storage_length ?s, max_msg_size := 1\<rparr>"
    "1 < args_size plain_codec sample_args" "rows ?s = [sample_row 1 ''j'', sample_row 2 ''k'']"
    by (simp_all add: sample_args_def sample_storage_def empty_storage_def compress_def storage_length_def
        args_size_def message_size_def)
  with rejected_set_deletes_oldest [OF sample_ok, of _ sample_args plain_codec "([1, 2], NoCompression)" 1 5000]
  show ?thesis by fastforce
qed

text \<open>
  updating a key can delete another one. On a stream at its limit of messages the row that
  the update replaces is counted too, so setting an existing key (not the oldest) removes the
  oldest message, although the number of messages would not have grown; the stream ends with
  one message fewer than before.
\<close>

theorem update_evicts_another_key:
  assumes "table_ok s" and "rows s = old # rest" and "Option.bind (a_msgID a) (obj_get (msgIDs s)) = None"
    and "a_previousSeq a = None" and "compress c s (a_raw a) = Inr x" and "0 < args_size c a"
    and "conf s = default_configuration\<lparr>max_msgs := storage_length s\<rparr>"
    and "a_key a = Some k" and "r \<in> set rest" and "r_key r = Some k"
  shows "\<exists>q t s'. storage_set c now a s = (Inr (q, t), s') \<and>
    r_seq old \<notin> r_seq ` set (rows s') \<and> storage_length s' + 1 = storage_length s"
proof -
  have d: "r_seq old \<notin> r_seq ` set rest" "distinct (List.map_filter r_key rest)"
    and u: "\<forall>r \<in> set rest. r_seq r \<noteq> Suc (autoincrement s)" "r_seq old < Suc (autoincrement s)"
    using assms(1,2) by (auto simp: table_ok_def storage_keys_def List.map_filter_simps split: option.splits)
  from d(1) have rs: "filter (\<lambda>x. r_seq x \<noteq> r_seq old) rest = rest"
    by (intro filter_True) (auto simp: image_iff)
  let ?s1 = "evict (\<lambda>x. r_seq x = r_seq old) s"
  have s1: "rows ?s1 = rest" "conf ?s1 = conf s" "autoincrement ?s1 = autoincrement s"
    using rs assms(2) by (simp_all add: evict_def emitDelete_def sql_delete_def emit_def)
  have e: "enforceLimits now (args_size c a) s = (Inr (), ?s1)"
    using assms(2,6,7) s1(2)
    by (simp add: enforceLimits_def check_rates_def limit_msgs_def storage_length_def Let_def
        limit_age_def limit_bytes_def limit_ttl_def default_configuration_def)
  obtain q t s' where set: "storage_set c now a s = (Inr (q, t), s')"
    and rows': "rows s' = filter (\<lambda>r. r_key r \<noteq> Some k) rest @ [new_row (Suc (autoincrement s)) (snd x) (fst x)
      (map_option (json_stringify c) (a_headers a)) (args_size c a) now a]"
  proof (cases rule: storage_set_cases [of c now a s])
    case (stored raw' alg s1' s')
    with that [of "Suc (autoincrement s1')" now s'] e s1 assms(5,8) show ?thesis by (cases x) simp
  qed (use assms(3-5,8) e in \<open>auto simp: storage_set_def args_size_def Let_def split: prod.splits\<close>)
  have "length (filter (\<lambda>r. r_key r \<noteq> Some k) xs) + 1 = length xs"
    if "distinct (List.map_filter r_key xs)" "r \<in> set xs" for xs
    using that assms(10)
  proof (induction xs)
    case (Cons y ys)
    show ?case
    proof (cases "r_key y = Some k")
      case True
      then have "\<forall>z \<in> set ys. r_key z \<noteq> Some k"
        using Cons.prems(1) by (auto simp: List.map_filter_simps set_map_filter)
      with True show ?thesis by (simp add: filter_id_conv)
    next
      case False
      with Cons show ?thesis by (auto simp: List.map_filter_simps split: option.splits)
    qed
  qed simp
  from this [OF d(2) assms(9)] have "storage_length s' + 1 = storage_length s"
    by (simp add: storage_length_def rows' assms(2))
  with set rows' d(1) u(2) show ?thesis by (auto simp: new_row_def)
qed

theorem update_evicts_another_key_witness:
  "\<exists>q t s'. storage_set plain_codec 5000 sample_args
      (sample_storage (default_configuration\<lparr>max_msgs := 2\<rparr>)) = (Inr (q, t), s') \<and>
    1 \<notin> r_seq ` set (rows s') \<and> storage_length s' = 1"
proof -
  let ?s = "sample_storage (default_configuration\<lparr>max_msgs := 2\<rparr>)"
  have f: "Option.bind (a_msgID sample_args) (obj_get (msgIDs ?s)) = None"
    "rows ?s = sample_row 1 ''j'' # [sample_row 2 ''k'']"
    "compress plain_codec ?s (a_raw sample_args) = Inr ([1, 2], NoCompression)"
    "a_previousSeq sample_args = None" "a_key sample_args = Some ''k''"
    "conf ?s = default_configuration\<lparr>max_msgs := storage_length ?s\<rparr>" "storage_length ?s = 2"
    "0 < args_size plain_codec sample_args"
    by (simp_all add: sample_args_def sample_storage_def empty_storage_def compress_def storage_length_def
        args_size_def message_size_def)
  from update_evicts_another_key [OF sample_ok f(2,1,4,3,8,6,5), of "sample_row 2 ''k''" 5000]
  show ?thesis by (simp add: f(7)) (simp add: sample_row_def)
qed

end
