(* ===== verification/JsSort.thy ===== *)
theory JsSort
  imports Main "HOL-Library.List_Lexorder" "HOL-Library.Char_ord" Prelude
begin

text \<open>
  \<open>Array.prototype.sort\<close> without a comparison function: the elements are compared as strings,
  so numbers are ordered by their decimal notation (10 before 9). And the order of the keys of an object.
\<close>

fun decimal :: "nat \<Rightarrow> string" where
  "decimal n = (if n < 10 then [char_of (48 + n)] else decimal (n div 10) @ [char_of (48 + n mod 10)])"

declare decimal.simps [simp del]

definition js_sort :: "nat list \<Rightarrow> nat list" where
  "js_sort xs = sort_key decimal xs"

lemma set_js_sort [simp]: "set (js_sort xs) = set xs"
  by (simp add: js_sort_def)

lemma distinct_js_sort [simp]: "distinct (js_sort xs) = distinct xs"
  by (simp add: js_sort_def)

lemma length_js_sort [simp]: "length (js_sort xs) = length xs"
  by (simp add: js_sort_def)

lemma js_sort_ten: "js_sort [9, 10] = [10, 9]"
  by (simp add: js_sort_def decimal.simps less_char_def)

text \<open>Numbers with equally many digits are sorted as numbers.\<close>

lemma append_less:
  fixes xs ys :: "'a :: linorder list"
  shows "length xs = length ys \<Longrightarrow> xs @ [x] < ys @ [y] \<longleftrightarrow> xs < ys \<or> xs = ys \<and> x < y"
  by (induction xs ys rule: list_induct2) auto

lemma digit_less: "i < 10 \<Longrightarrow> j < 10 \<Longrightarrow> (char_of (48 + i :: nat) :: char) < char_of (48 + j) \<longleftrightarrow> i < j"
  by (simp add: less_char_def)

lemma digit_eq: "i < 10 \<Longrightarrow> j < 10 \<Longrightarrow> (char_of (48 + i :: nat) :: char) = char_of (48 + j) \<longleftrightarrow> i = j"
  by (metis digit_less less_irrefl linorder_neqE_nat)

lemma decimal_not_Nil [simp]: "decimal n \<noteq> []"
  by (subst decimal.simps) simp

lemma decimal_order:
  "length (decimal a) = length (decimal b) \<Longrightarrow>
     (decimal a < decimal b \<longleftrightarrow> a < b) \<and> (decimal a = decimal b \<longleftrightarrow> a = b)"
proof (induction a arbitrary: b rule: decimal.induct)
  case (1 a)
  show ?case
  proof (cases "a < 10 \<or> b < 10")
    case True
    then have "a < 10" "b < 10"
      using 1(2) by (auto simp: decimal.simps[of a] decimal.simps[of b] split: if_splits)
    then show ?thesis by (simp add: decimal.simps digit_less digit_eq)
  next
    case False
    then have dec: "decimal a = decimal (a div 10) @ [char_of (48 + a mod 10)]"
        "decimal b = decimal (b div 10) @ [char_of (48 + b mod 10)]"
      by (simp_all add: decimal.simps[of a] decimal.simps[of b])
    then have len: "length (decimal (a div 10)) = length (decimal (b div 10))" using 1(2) by simp
    have IH: "decimal (a div 10) < decimal (b div 10) \<longleftrightarrow> a div 10 < b div 10"
        "decimal (a div 10) = decimal (b div 10) \<longleftrightarrow> a div 10 = b div 10"
      using 1(1)[OF _ len] False by auto
    have "decimal a < decimal b \<longleftrightarrow> a div 10 < b div 10 \<or> a div 10 = b div 10 \<and> a mod 10 < b mod 10"
      unfolding dec append_less[OF len] IH by (simp add: digit_less)
    moreover have "decimal a = decimal b \<longleftrightarrow> a div 10 = b div 10 \<and> a mod 10 = b mod 10"
      unfolding dec by (simp add: IH digit_eq)
    moreover have "(10 * q + r < 10 * q' + r' \<longleftrightarrow> q < q' \<or> q = q' \<and> r < r') \<and>
        (10 * q + r = 10 * q' + r' \<longleftrightarrow> q = q' \<and> r = r')" if "r < 10" "r' < 10" for q r q' r' :: nat
    proof -
      have "(10 * q + r) mod 10 = r" "(10 * q' + r') mod 10 = r'" using that by simp_all
      then have "10 * q + r = 10 * q' + r' \<Longrightarrow> r = r'" by simp
      then show ?thesis using that by auto
    qed
    from this[of "a mod 10" "b mod 10" "a div 10" "b div 10"]
    have "(a < b \<longleftrightarrow> a div 10 < b div 10 \<or> a div 10 = b div 10 \<and> a mod 10 < b mod 10) \<and>
        (a = b \<longleftrightarrow> a div 10 = b div 10 \<and> a mod 10 = b mod 10)" by simp
    ultimately show ?thesis by blast
  qed
qed

lemma js_sort_same_digits:
  assumes "\<forall>x \<in> set xs. length (decimal x) = n" "distinct xs"
  shows "js_sort xs = sort xs"
proof (rule sorted_distinct_set_unique)
  have "sorted (map decimal (js_sort xs))" by (simp add: js_sort_def)
  then have by_string: "sorted_wrt (\<lambda>x y. decimal x \<le> decimal y) (js_sort xs)" by (simp add: sorted_map)
  have "x \<le> y" if "x \<in> set (js_sort xs)" "y \<in> set (js_sort xs)" "decimal x \<le> decimal y" for x y
    using decimal_order[of x y] assms(1) that by (auto simp: le_less)
  from sorted_wrt_mono_rel[OF this by_string] show "sorted (js_sort xs)" .
qed (use assms(2) in \<open>simp_all add: js_sort_def\<close>)

text \<open>
  The keys of an object in the order of JavaScript: array indices (below 2^32 - 1) in
  ascending order, then the others in order of insertion.
\<close>

definition js_keys :: "(nat, 'v) obj \<Rightarrow> nat list" where
  "js_keys t = (let index = (\<lambda>k. k < 4294967295) in
     sort (filter index (keys t)) @ filter (\<lambda>k. \<not> index k) (keys t))"

definition js_values :: "(nat, 'v) obj \<Rightarrow> 'v list" where
  "js_values t = map (\<lambda>k. the (obj_get t k)) (js_keys t)"

lemma set_js_keys: "set (js_keys t) = dom (obj_get t)"
  by (auto simp: js_keys_def Let_def dom_map_of_conv_image_fst)

lemma distinct_js_keys: "distinct (keys t) \<Longrightarrow> distinct (js_keys t)"
  by (auto simp: js_keys_def Let_def)

lemma set_js_values: "set (js_values t) = ran (obj_get t)"
  by (force simp: js_values_def set_js_keys ran_def)

end
