(* ===== verification/Tcp.thy ===== *)
theory Tcp
  imports Main Prelude JsSort
begin

text \<open>
  The protocol of \<^verbatim>\<open>packages/conat/socket/tcp.ts\<close> that makes a socket deliver every message
  exactly once and in order: the classes \<open>Receiver\<close> and \<open>Sender\<close>, and a network between them
  that loses, repeats and reorders messages and may fail any request. An asynchronous method
  is split at its \<open>await\<close>: the state keeps what is in flight. A message is the sequence number
  in its header, if any, with its data.
\<close>

section \<open>Receiver\<close>

type_synonym 'm message = "nat option \<times> 'm"

datatype request = Req_emitted nat | Req_missing "nat list"
datatype 'm response = Resp_emitted nat | Resp_nodata | Resp_data "'m message list"

text \<open>
  \<open>fetching\<close> is the list of the call of \<open>fetchMissing\<close> that is in flight (\<open>reuseInFlight\<close>
  allows one), \<open>reports\<close> the requests of \<open>reportReceived\<close> in flight, \<open>out_log\<close> what has been
  emitted to the user of the socket, \<open>resets\<close> how often \<open>reset\<close> was called.
\<close>

record 'm receiver =
  incoming :: "(nat, 'm) obj"
  next_seq :: nat
  emitted_seq :: nat
  reported :: nat
  largest :: nat
  closed :: bool
  fetching :: "nat list option"
  reports :: "nat list"
  out_log :: "'m list"
  resets :: nat

definition new_receiver :: "'m receiver" where
  "new_receiver = \<lparr>incoming = [], next_seq = 1, emitted_seq = 0, reported = 0, largest = 0,
     closed = False, fetching = None, reports = [], out_log = [], resets = 0\<rparr>"

definition receiver_close :: "'m receiver \<Rightarrow> 'm receiver" where
  "receiver_close r = r\<lparr>closed := True, incoming := []\<rparr>"

definition reportReceived :: "'m receiver \<Rightarrow> 'm receiver" where
  "reportReceived r =
     (if closed r then r
      else if reported r \<ge> emitted_seq r then r
      else r\<lparr>reports := reports r @ [emitted_seq r]\<rparr>)"

text \<open>The outcome of one request of \<open>reportReceived\<close>: it was answered, or it failed.\<close>

definition report_done :: "nat \<Rightarrow> bool \<Rightarrow> 'm receiver \<Rightarrow> 'm receiver" where
  "report_done e ok r =
     (let r' = r\<lparr>reports := remove1 e (reports r)\<rparr> in
      if ok \<and> \<not> closed r then r'\<lparr>reported := e\<rparr> else r')"

text \<open>\<open>None\<close>: the error "message sequence is wrong" is thrown.\<close>

definition emitMessage :: "'m \<Rightarrow> nat \<Rightarrow> 'm receiver \<Rightarrow> 'm receiver option" where
  "emitMessage mesg seq r =
     (if closed r then Some r
      else if seq \<noteq> next_seq r then None
      else Some (reportReceived (r\<lparr>next_seq := seq + 1, emitted_seq := seq, out_log := out_log r @ [mesg]\<rparr>)))"

text \<open>\<open>fetchMissing\<close> up to its \<open>await\<close>.\<close>

definition missing_seqs :: "'m receiver \<Rightarrow> nat list" where
  "missing_seqs r = filter (\<lambda>seq. obj_get (incoming r) seq = None) [next_seq r ..< Suc (largest r)]"

definition fetchMissing :: "'m receiver \<Rightarrow> 'm receiver" where
  "fetchMissing r =
     (if fetching r \<noteq> None then r
      else if closed r then r
      else if length (missing_seqs r) = 0 then r
      else r\<lparr>fetching := Some (js_sort (missing_seqs r))\<rparr>)"

definition receiver_process :: "'m message \<Rightarrow> 'm receiver \<Rightarrow> 'm receiver option" where
  "receiver_process mesg r =
     (if closed r then Some r
      else (case fst mesg of
         None \<Rightarrow> Some r
       | Some seq \<Rightarrow>
           if seq < 1 then Some r
           else
             (let r' = r\<lparr>largest := max seq (largest r)\<rparr> in
              if seq = next_seq r' then emitMessage (snd mesg) seq r'
              else if seq > next_seq r' then
                Some (fetchMissing (r'\<lparr>incoming := obj_set seq (snd mesg) (incoming r')\<rparr>))
              else Some r')))"

lemma length_delete_less: "obj_get xs k \<noteq> None \<Longrightarrow> length (obj_del k xs) < length xs"
  by (induction xs) (auto simp: length_delete_le less_Suc_eq_le split: if_splits)

function emit_loop :: "nat \<Rightarrow> 'm receiver \<Rightarrow> 'm receiver option" where
  "emit_loop seq r =
     (case obj_get (incoming r) seq of
        None \<Rightarrow> Some r
      | Some mesg \<Rightarrow>
          (case emitMessage mesg seq (r\<lparr>incoming := obj_del seq (incoming r)\<rparr>) of
             None \<Rightarrow> None
           | Some r' \<Rightarrow> emit_loop (seq + 1) r'))"
  by pat_completeness auto

lemma incoming_reportReceived [simp]: "incoming (reportReceived r) = incoming r"
  by (simp add: reportReceived_def)

lemma incoming_emitMessage: "emitMessage m seq r = Some r' \<Longrightarrow> incoming r' = incoming r"
  by (auto simp: emitMessage_def split: if_splits)

termination emit_loop
  by (relation "measure (\<lambda>(seq, r). length (incoming r))")
    (auto dest!: incoming_emitMessage intro!: length_delete_less)

declare emit_loop.simps [simp del]

definition emitIncoming :: "'m receiver \<Rightarrow> 'm receiver option" where
  "emitIncoming r =
     (if closed r then Some r
      else (case emit_loop (next_seq r) r of
         None \<Rightarrow> None
       | Some r' \<Rightarrow> Some (reportReceived r')))"

text \<open>\<open>fetchMissing\<close> after its \<open>await\<close>; \<open>None\<close> is a failed request.\<close>

fun process_all :: "'m message list \<Rightarrow> 'm receiver \<Rightarrow> 'm receiver option" where
  "process_all [] r = Some r"
| "process_all (x # xs) r =
     (case receiver_process x r of None \<Rightarrow> None | Some r' \<Rightarrow> process_all xs r')"

definition fetch_done :: "'m response option \<Rightarrow> 'm receiver \<Rightarrow> 'm receiver option" where
  "fetch_done resp r =
     map_option (\<lambda>r'. r'\<lparr>fetching := None\<rparr>)
      (if closed r then Some r
       else (case resp of
          None \<Rightarrow> Some r
        | Some Resp_nodata \<Rightarrow> Some (r\<lparr>resets := resets r + 1\<rparr>)
        | Some (Resp_emitted _) \<Rightarrow> Some r
        | Some (Resp_data xs) \<Rightarrow>
            (case process_all xs r of None \<Rightarrow> None | Some r' \<Rightarrow> emitIncoming r')))"

section \<open>Sender\<close>

record 'm sender =
  outgoing :: "(nat, 'm message) obj"
  sent_seq :: nat
  unsent :: nat
  buffer_size :: nat
  drains :: nat

definition new_sender :: "nat \<Rightarrow> 'm sender" where
  "new_sender n = \<lparr>outgoing = [], sent_seq = 0, unsent = 0, buffer_size = n, drains = 0\<rparr>"

text \<open>The message that is sent, or \<open>None\<close> when the error ENOBUFS is thrown.\<close>

definition sender_process :: "'m \<Rightarrow> 'm sender \<Rightarrow> 'm message option \<times> 'm sender" where
  "sender_process mesg s =
     (if unsent s \<ge> buffer_size s then (None, s)
      else
        (let seq = sent_seq s + 1; x = (Some seq, mesg) in
         (Some x, s\<lparr>sent_seq := seq, outgoing := obj_set seq x (outgoing s), unsent := unsent s + 1\<rparr>)))"

definition lastAcked :: "'m sender \<Rightarrow> bool" where
  "lastAcked s \<longleftrightarrow> sent_seq s = 0 \<or> obj_get (outgoing s) (sent_seq s) = None"

text \<open>What \<open>resendLast\<close> sends; \<open>None\<close> is undefined.\<close>

definition resendLast :: "'m sender \<Rightarrow> 'm message option" where
  "resendLast s = obj_get (outgoing s) (sent_seq s)"

text \<open>One round of \<open>resendLastUntilAcked\<close>: what is sent, if it is not done.\<close>

definition resend_round :: "'m sender \<Rightarrow> 'm message option" where
  "resend_round s = (if lastAcked s then None else resendLast s)"

fun ack_loop :: "nat list \<Rightarrow> nat \<Rightarrow> 'm sender \<Rightarrow> 'm sender" where
  "ack_loop [] emitted s = s"
| "ack_loop (i # ids) emitted s =
     ack_loop ids emitted
       (if i \<le> emitted then
          (let s' = s\<lparr>outgoing := obj_del i (outgoing s), unsent := unsent s - 1\<rparr> in
           if unsent s' = 0 then s'\<lparr>drains := drains s' + 1\<rparr> else s')
        else s)"

fun collect_missing :: "nat list \<Rightarrow> 'm sender \<Rightarrow> 'm message list option" where
  "collect_missing [] s = Some []"
| "collect_missing (i # ids) s =
     (case obj_get (outgoing s) i of
        None \<Rightarrow> None
      | Some x \<Rightarrow> (case collect_missing ids s of None \<Rightarrow> None | Some xs \<Rightarrow> Some (x # xs)))"

definition handleRequest :: "request \<Rightarrow> 'm sender \<Rightarrow> 'm response \<times> 'm sender" where
  "handleRequest req s =
     (case req of
        Req_emitted e \<Rightarrow> (Resp_emitted e, ack_loop (keys (outgoing s)) e s)
      | Req_missing missing \<Rightarrow>
          (case collect_missing missing s of
             None \<Rightarrow> (Resp_nodata, s)
           | Some v \<Rightarrow> (Resp_data v, s)))"

section \<open>The receiver keeps the order\<close>

definition genuine :: "'m list \<Rightarrow> 'm message \<Rightarrow> bool" where
  "genuine sent x \<longleftrightarrow> (\<exists>k. 1 \<le> k \<and> k \<le> length sent \<and> x = (Some k, sent ! (k - 1)))"

definition receiver_inv :: "'m list \<Rightarrow> 'm receiver \<Rightarrow> bool" where
  "receiver_inv sent r \<longleftrightarrow>
     emitted_seq r = length (out_log r) \<and> next_seq r = Suc (emitted_seq r) \<and>
     out_log r = take (length (out_log r)) sent \<and>
     largest r \<le> length sent \<and>
     (\<forall>k m. obj_get (incoming r) k = Some m \<longrightarrow> genuine sent (Some k, m)) \<and>
     (\<forall>e \<in> set (reports r). e \<le> emitted_seq r)"

lemma receiver_inv_new: "receiver_inv [] new_receiver"
  by (simp add: receiver_inv_def new_receiver_def)

lemma genuine_append: "genuine sent x \<Longrightarrow> genuine (sent @ [m]) x"
  by (fastforce simp: genuine_def nth_append)

lemma genuine_iff: "genuine sent (Some k, m) \<longleftrightarrow> 1 \<le> k \<and> k \<le> length sent \<and> m = sent ! (k - 1)"
  by (auto simp: genuine_def)

lemma receiver_inv_append: "receiver_inv sent r \<Longrightarrow> receiver_inv (sent @ [m]) r"
proof -
  assume i: "receiver_inv sent r"
  then have "length (out_log r) \<le> length sent" unfolding receiver_inv_def by (metis nat_le_linear take_all)
  moreover have "genuine (sent @ [m]) (Some k, m')" if "genuine sent (Some k, m')" for k m'
    using that by (rule genuine_append)
  ultimately show ?thesis using i by (auto simp: receiver_inv_def)
qed

lemma receiver_inv_report: "receiver_inv sent r \<Longrightarrow> receiver_inv sent (reportReceived r)"
  by (auto simp: receiver_inv_def reportReceived_def)

lemma reportReceived_fields [simp]:
  "next_seq (reportReceived r) = next_seq r" "emitted_seq (reportReceived r) = emitted_seq r"
  "out_log (reportReceived r) = out_log r" "largest (reportReceived r) = largest r"
  "closed (reportReceived r) = closed r" "fetching (reportReceived r) = fetching r"
  by (simp_all add: reportReceived_def)

text \<open>Emitting the next message, if it is the right one.\<close>

definition emit_next :: "'m \<Rightarrow> 'm receiver \<Rightarrow> 'm receiver" where
  "emit_next m r = reportReceived (r\<lparr>next_seq := Suc (next_seq r), emitted_seq := next_seq r,
     out_log := out_log r @ [m]\<rparr>)"

lemma emitMessage_next: "\<not> closed r \<Longrightarrow> emitMessage m (next_seq r) r = Some (emit_next m r)"
  by (simp add: emitMessage_def emit_next_def)

lemma emit_next_fields [simp]:
  "next_seq (emit_next m r) = Suc (next_seq r)" "emitted_seq (emit_next m r) = next_seq r"
  "out_log (emit_next m r) = out_log r @ [m]" "incoming (emit_next m r) = incoming r"
  "largest (emit_next m r) = largest r" "closed (emit_next m r) = closed r"
  "fetching (emit_next m r) = fetching r"
  by (simp_all add: emit_next_def)

lemma receiver_inv_emit_next:
  "receiver_inv sent r \<Longrightarrow> genuine sent (Some (next_seq r), m) \<Longrightarrow> receiver_inv sent (emit_next m r)"
  unfolding emit_next_def
  by (rule receiver_inv_report) (auto simp: genuine_iff receiver_inv_def take_Suc_conv_app_nth intro: le_SucI)

lemma receiver_inv_fields:
  "receiver_inv sent r \<Longrightarrow> receiver_inv sent (r\<lparr>fetching := x\<rparr>)"
  "receiver_inv sent r \<Longrightarrow> receiver_inv sent (r\<lparr>resets := y\<rparr>)"
  "receiver_inv sent r \<Longrightarrow> receiver_inv sent (r\<lparr>incoming := obj_del k (incoming r)\<rparr>)"
  "receiver_inv sent r \<Longrightarrow> n \<le> length sent \<Longrightarrow> receiver_inv sent (r\<lparr>largest := n\<rparr>)"
  "receiver_inv sent r \<Longrightarrow> genuine sent (Some k, m) \<Longrightarrow>
     receiver_inv sent (r\<lparr>incoming := obj_set k m (incoming r)\<rparr>)"
  by (auto simp: receiver_inv_def obj_simps split: if_splits)

lemma fetchMissing_inv: "receiver_inv sent r \<Longrightarrow> receiver_inv sent (fetchMissing r)"
  by (simp add: fetchMissing_def receiver_inv_fields)

lemma receiver_process_ok:
  assumes "receiver_inv sent r" and "genuine sent x"
  obtains r' where "receiver_process x r = Some r'" "receiver_inv sent r'" "next_seq r \<le> next_seq r'"
proof -
  obtain k where k: "1 \<le> k" "k \<le> length sent" "x = (Some k, sent ! (k - 1))"
    using assms(2) by (auto simp: genuine_def)
  let ?r = "r\<lparr>largest := max k (largest r)\<rparr>"
  have i: "receiver_inv sent ?r" using assms(1) k(2) by (intro receiver_inv_fields) (auto simp: receiver_inv_def)
  have e: "receiver_process x r = (if closed r then Some r
      else if k = next_seq r then Some (emit_next (sent ! (k - 1)) ?r)
      else if k > next_seq r then Some (fetchMissing (?r\<lparr>incoming := obj_set k (sent ! (k - 1)) (incoming ?r)\<rparr>))
      else Some ?r)"
    using k by (simp add: receiver_process_def emitMessage_def emit_next_def Let_def)
  have "receiver_inv sent (emit_next (sent ! (k - 1)) ?r)" if "k = next_seq r"
    using i k that by (intro receiver_inv_emit_next) (auto simp: genuine_iff)
  moreover have "receiver_inv sent (fetchMissing (?r\<lparr>incoming := obj_set k (sent ! (k - 1)) (incoming ?r)\<rparr>))"
    using i k by (intro fetchMissing_inv receiver_inv_fields(5)) (auto simp: genuine_iff)
  ultimately show ?thesis
    using that e i assms(1) by (auto simp: fetchMissing_def split: if_splits)
qed

lemma emit_loop_ok:
  assumes "receiver_inv sent r" and "\<not> closed r" and "seq = next_seq r"
  obtains r' where "emit_loop seq r = Some r'" "receiver_inv sent r'" "\<not> closed r'" "fetching r' = fetching r"
    "next_seq r \<le> next_seq r'" "obj_get (incoming r') (next_seq r') = None"
    "\<And>k. next_seq r' \<le> k \<Longrightarrow> obj_get (incoming r') k = obj_get (incoming r) k"
proof -
  have "\<exists>r'. emit_loop seq r = Some r' \<and> receiver_inv sent r' \<and> \<not> closed r' \<and> fetching r' = fetching r \<and>
    next_seq r \<le> next_seq r' \<and> obj_get (incoming r') (next_seq r') = None \<and>
    (\<forall>k. next_seq r' \<le> k \<longrightarrow> obj_get (incoming r') k = obj_get (incoming r) k)"
    using assms
  proof (induction seq r rule: emit_loop.induct)
    case (1 seq r)
    show ?case
    proof (cases "obj_get (incoming r) seq")
      case None
      with 1 show ?thesis by (intro exI [of _ r]) (simp add: emit_loop.simps)
    next
      case (Some m)
      let ?d = "r\<lparr>incoming := obj_del seq (incoming r)\<rparr>"
      let ?r = "emit_next m ?d"
      have e: "emitMessage m seq ?d = Some ?r"
        using 1(3,4) emitMessage_next [of ?d m] by simp
      have "receiver_inv sent ?r"
        using 1(2,4) Some by (intro receiver_inv_emit_next receiver_inv_fields(3)) (auto simp: receiver_inv_def)
      then obtain r' where "emit_loop (seq + 1) ?r = Some r'" "receiver_inv sent r'" "\<not> closed r'"
        "fetching r' = fetching ?r" "next_seq ?r \<le> next_seq r'" "obj_get (incoming r') (next_seq r') = None"
        "\<forall>k. next_seq r' \<le> k \<longrightarrow> obj_get (incoming r') k = obj_get (incoming ?r) k"
        using 1(1) [OF Some e] 1(3,4) by auto
      then show ?thesis using Some e 1(4)
        by (intro exI [of _ r']) (auto simp: emit_loop.simps [of "next_seq r" r] obj_simps)
    qed
  qed
  with that show ?thesis by blast
qed

lemma emitIncoming_ok:
  assumes "receiver_inv sent r"
  obtains r' where "emitIncoming r = Some r'" "receiver_inv sent r'" "next_seq r \<le> next_seq r'"
proof (cases "closed r")
  case True
  with that [of r] assms show ?thesis by (simp add: emitIncoming_def)
next
  case False
  obtain r1 where "emit_loop (next_seq r) r = Some r1" "receiver_inv sent r1" "next_seq r \<le> next_seq r1"
    using emit_loop_ok [OF assms False refl] by blast
  with that [of "reportReceived r1"] False show ?thesis
    by (simp add: emitIncoming_def receiver_inv_report)
qed

lemma process_all_ok:
  assumes "receiver_inv sent r" and "\<forall>x \<in> set xs. genuine sent x"
  obtains r' where "process_all xs r = Some r'" "receiver_inv sent r'" "next_seq r \<le> next_seq r'"
proof -
  have "\<exists>r'. process_all xs r = Some r' \<and> receiver_inv sent r' \<and> next_seq r \<le> next_seq r'"
    using assms
  proof (induction xs arbitrary: r)
    case (Cons x xs)
    obtain r1 where r1: "receiver_process x r = Some r1" "receiver_inv sent r1" "next_seq r \<le> next_seq r1"
      using receiver_process_ok [OF Cons.prems(1), of x] Cons.prems(2) by auto
    with Cons.IH [OF r1(2)] Cons.prems(2) show ?case by fastforce
  qed simp
  with that show ?thesis by blast
qed

lemma fetch_done_ok:
  assumes "receiver_inv sent r" and "\<And>xs. resp = Some (Resp_data xs) \<Longrightarrow> \<forall>x \<in> set xs. genuine sent x"
  obtains r' where "fetch_done resp r = Some r'" "receiver_inv sent r'" "next_seq r \<le> next_seq r'"
proof (cases "\<exists>xs. resp = Some (Resp_data xs) \<and> \<not> closed r")
  case False
  have "\<exists>r'. fetch_done resp r = Some r' \<and> receiver_inv sent r' \<and> next_seq r \<le> next_seq r'"
    using False assms(1)
    by (cases resp; cases "the resp") (simp_all add: fetch_done_def receiver_inv_fields)
  with that show ?thesis by blast
next
  case True
  then obtain xs where xs: "resp = Some (Resp_data xs)" "\<not> closed r" by blast
  obtain r1 where r1: "process_all xs r = Some r1" "receiver_inv sent r1" "next_seq r \<le> next_seq r1"
    using process_all_ok [OF assms(1) assms(2) [OF xs(1)]] by blast
  obtain r2 where "emitIncoming r1 = Some r2" "receiver_inv sent r2" "next_seq r1 \<le> next_seq r2"
    using emitIncoming_ok [OF r1(2)] by blast
  with that [of "r2\<lparr>fetching := None\<rparr>"] xs r1 show ?thesis
    by (simp add: fetch_done_def receiver_inv_fields)
qed

lemma fetch_done_inv:
  assumes "fetch_done resp r = Some r'" and "receiver_inv sent r"
    and "\<And>xs. resp = Some (Resp_data xs) \<Longrightarrow> \<forall>x \<in> set xs. genuine sent x"
  shows "receiver_inv sent r' \<and> next_seq r \<le> next_seq r'"
  by (rule fetch_done_ok [OF assms(2,3)]) (use assms(1) in auto)

section \<open>The sender keeps what is not acknowledged\<close>

definition sender_inv :: "'m list \<Rightarrow> nat \<Rightarrow> 'm sender \<Rightarrow> bool" where
  "sender_inv sent acked s \<longleftrightarrow> sent_seq s = length sent \<and> distinct (keys (outgoing s)) \<and>
     unsent s = length (outgoing s) \<and> unsent s \<le> buffer_size s \<and>
     (\<forall>k x. obj_get (outgoing s) k = Some x \<longrightarrow> 1 \<le> k \<and> k \<le> length sent \<and> x = (Some k, sent ! (k - 1))) \<and>
     (\<forall>k. acked < k \<and> k \<le> length sent \<longrightarrow> obj_get (outgoing s) k \<noteq> None)"

lemma sender_inv_new: "sender_inv [] 0 (new_sender n)"
  by (auto simp: sender_inv_def new_sender_def)

lemma sender_inv_drains: "sender_inv sent a s \<Longrightarrow> sender_inv sent a (s\<lparr>drains := n\<rparr>)"
  by (auto simp: sender_inv_def simp del: map_of_eq_Some_iff Some_eq_map_of_iff)

lemma sender_inv_mono: "sender_inv sent a s \<Longrightarrow> a \<le> b \<Longrightarrow> sender_inv sent b s"
  by (auto simp: sender_inv_def)

lemma length_set_new: "obj_get xs k = None \<Longrightarrow> length (obj_set k v xs) = Suc (length xs)"
  by (induction xs) (auto split: if_splits)

lemma sender_process_ok:
  assumes "sender_inv sent a s" and "sender_process m s = (Some x, s')"
  shows "sender_inv (sent @ [m]) a s'" and "x = (Some (Suc (length sent)), m)"
proof -
  have "obj_get (outgoing s) (Suc (length sent)) = None"
    using assms(1) by (cases "obj_get (outgoing s) (Suc (length sent))") (force simp: sender_inv_def)+
  then have "length (obj_set (Suc (length sent)) (Some (Suc (length sent)), m) (outgoing s)) = Suc (length (outgoing s))"
    by (rule length_set_new)
  with assms have len: "length (outgoing s') = Suc (length (outgoing s))" "unsent s' = Suc (unsent s)"
      "sent_seq s' = Suc (length sent)" "unsent s' \<le> buffer_size s'" "distinct (keys (outgoing s'))"
      "obj_get (outgoing s') k = (if k = Suc (length sent) then Some (Some k, m) else obj_get (outgoing s) k)"
      "x = (Some (Suc (length sent)), m)" for k
    by (auto simp: sender_process_def sender_inv_def Let_def obj_simps split: if_splits
        simp del: map_of_eq_Some_iff Some_eq_map_of_iff)
  have old: "1 \<le> k \<and> k \<le> length sent \<and> y = (Some k, sent ! (k - 1))" if "obj_get (outgoing s) k = Some y" for k y
    using assms(1) that unfolding sender_inv_def by blast
  have "1 \<le> k \<and> k \<le> length (sent @ [m]) \<and> y = (Some k, (sent @ [m]) ! (k - 1))"
    if "obj_get (outgoing s') k = Some y" for k y
    using that old [of k y] unfolding len(6) by (auto simp: nth_append split: if_splits)
  moreover have "obj_get (outgoing s') k \<noteq> None" if "a < k" "k \<le> length (sent @ [m])" for k
    using that assms(1) unfolding len(6)
    by (auto simp: sender_inv_def simp del: map_of_eq_Some_iff Some_eq_map_of_iff)
  ultimately show "sender_inv (sent @ [m]) a s'"
    using len assms(1) unfolding sender_inv_def by simp
  show "x = (Some (Suc (length sent)), m)" by (rule len(7))
qed

lemma length_delete_mem: "k \<in> set (keys xs) \<Longrightarrow> distinct (keys xs) \<Longrightarrow> Suc (length (obj_del k xs)) = length xs"
proof (induction xs)
  case (Cons y ys)
  show ?case
  proof (cases "fst y = k")
    case True
    then have "obj_del k ys = ys" using Cons.prems(2) by (auto simp: delete_idem)
    with True show ?thesis by (cases y) simp
  next
    case False
    with Cons show ?thesis by (cases y) auto
  qed
qed simp

lemma ack_loop_ok:
  assumes "sender_inv sent a s" and "distinct ids" and "set ids \<subseteq> set (keys (outgoing s))" and "e \<le> a"
  shows "sender_inv sent a (ack_loop ids e s)"
  using assms
proof (induction ids arbitrary: s)
  case (Cons i ids)
  let ?s' = "s\<lparr>outgoing := obj_del i (outgoing s), unsent := unsent s - 1\<rparr>"
  have i: "i \<in> set (keys (outgoing s))" "i \<notin> set ids" "distinct ids" using Cons.prems by auto
  have "Suc (length (obj_del i (outgoing s))) = length (outgoing s)"
    using Cons.prems(1) i(1) by (intro length_delete_mem) (simp_all add: sender_inv_def)
  then have inv: "sender_inv sent a ?s'" if "i \<le> e"
    using Cons.prems(1,4) that by (auto simp: sender_inv_def obj_simps split: if_splits)
  then have "sender_inv sent a (?s'\<lparr>drains := n\<rparr>)" if "i \<le> e" for n using that by (simp add: sender_inv_drains)
  moreover have "set ids \<subseteq> set (keys (obj_del i (outgoing s)))"
    using Cons.prems(3) i(2) by (auto simp: obj_simps)
  ultimately show ?case
    using Cons.IH [OF _ i(3)] Cons.prems inv by (auto simp: Let_def)
qed simp

lemma collect_missing_ok:
  "sender_inv sent a s \<Longrightarrow> collect_missing ids s = Some v \<Longrightarrow> \<forall>x \<in> set v. genuine sent x"
  by (induction ids arbitrary: v) (fastforce simp: sender_inv_def genuine_def split: option.splits)+

lemma collect_missing_all:
  "sender_inv sent a s \<Longrightarrow> \<forall>k \<in> set ids. a < k \<and> k \<le> length sent \<Longrightarrow>
     collect_missing ids s = Some (map (\<lambda>k. (Some k, sent ! (k - 1))) ids)"
  by (induction ids) (fastforce simp: sender_inv_def split: option.splits)+

section \<open>The network\<close>

text \<open>
  \<open>wire\<close> is every message ever sent: any of them may arrive at any time, any number of times,
  or never. \<open>answer\<close> is the response to the \<open>fetchMissing\<close> in flight, once the sender has
  computed it; \<open>sent\<close> records what the user of the sender has sent.
\<close>

record 'm net =
  rcv :: "'m receiver"
  snd_side :: "'m sender"
  wire :: "'m message list"
  answer :: "'m response option"
  sent :: "'m list"

definition new_net :: "nat \<Rightarrow> 'm net" where
  "new_net n = \<lparr>rcv = new_receiver, snd_side = new_sender n, wire = [], answer = None, sent = []\<rparr>"

inductive net_step :: "'m net \<Rightarrow> 'm net \<Rightarrow> bool" where
  send: "sender_process m (snd_side N) = (Some x, s') \<Longrightarrow>
    net_step N (N\<lparr>snd_side := s', wire := x # wire N, sent := sent N @ [m]\<rparr>)"
| resend: "resend_round (snd_side N) = Some x \<Longrightarrow> net_step N (N\<lparr>wire := x # wire N\<rparr>)"
| deliver: "x \<in> set (wire N) \<Longrightarrow> receiver_process x (rcv N) = Some r' \<Longrightarrow> net_step N (N\<lparr>rcv := r'\<rparr>)"
| request: "fetching (rcv N) = Some missing \<Longrightarrow> handleRequest (Req_missing missing) (snd_side N) = (resp, s') \<Longrightarrow>
    net_step N (N\<lparr>snd_side := s', answer := Some resp\<rparr>)"
| respond: "answer N = Some resp \<Longrightarrow> fetch_done (Some resp) (rcv N) = Some r' \<Longrightarrow>
    net_step N (N\<lparr>rcv := r', answer := None\<rparr>)"
| fail: "fetching (rcv N) = Some missing \<Longrightarrow> fetch_done None (rcv N) = Some r' \<Longrightarrow>
    net_step N (N\<lparr>rcv := r', answer := None\<rparr>)"
| report: "e \<in> set (reports (rcv N)) \<Longrightarrow> handleRequest (Req_emitted e) (snd_side N) = (resp, s') \<Longrightarrow>
    net_step N (N\<lparr>snd_side := s'\<rparr>)"
| reported: "e \<in> set (reports (rcv N)) \<Longrightarrow> net_step N (N\<lparr>rcv := report_done e ok (rcv N)\<rparr>)"
| close: "net_step N (N\<lparr>rcv := receiver_close (rcv N)\<rparr>)"

definition net_reachable :: "nat \<Rightarrow> 'm net \<Rightarrow> bool" where
  "net_reachable n N \<longleftrightarrow> net_step\<^sup>*\<^sup>* (new_net n) N"

definition net_inv :: "'m net \<Rightarrow> bool" where
  "net_inv N \<longleftrightarrow> receiver_inv (sent N) (rcv N) \<and>
     sender_inv (sent N) (emitted_seq (rcv N)) (snd_side N) \<and>
     (\<forall>x \<in> set (wire N). genuine (sent N) x) \<and>
     (\<forall>xs. answer N = Some (Resp_data xs) \<longrightarrow> (\<forall>x \<in> set xs. genuine (sent N) x))"

lemma receiver_inv_emitted: "receiver_inv xs r \<Longrightarrow> next_seq r = Suc (emitted_seq r)"
  by (simp add: receiver_inv_def)

lemma net_inv_rcv:
  assumes "net_inv N" and "receiver_inv (sent N) r'" and "next_seq (rcv N) \<le> next_seq r'"
    and "a = answer N \<or> a = None"
  shows "net_inv (N\<lparr>rcv := r', answer := a\<rparr>)"
proof -
  have "receiver_inv (sent N) (rcv N)" using assms(1) by (simp add: net_inv_def)
  with assms(2,3) have "emitted_seq (rcv N) \<le> emitted_seq r'" by (auto simp: receiver_inv_def)
  with assms show ?thesis by (auto simp: net_inv_def intro: sender_inv_mono)
qed

lemma net_inv_rcv_same:
  assumes "net_inv N" and "receiver_inv (sent N) r'" and "next_seq (rcv N) \<le> next_seq r'"
  shows "net_inv (N\<lparr>rcv := r'\<rparr>)"
  using net_inv_rcv [OF assms, of "answer N"] by simp

lemma net_inv_step: "net_step N N' \<Longrightarrow> net_inv N \<Longrightarrow> net_inv N'"
proof (induction rule: net_step.induct)
  case (send m N x s')
  have x: "x = (Some (Suc (length (sent N))), m)" and s': "sender_inv (sent N @ [m]) (emitted_seq (rcv N)) s'"
    using sender_process_ok [OF _ send(1)] send(2) by (auto simp: net_inv_def)
  moreover have "genuine (sent N @ [m]) x" by (auto simp: x genuine_def nth_append)
  moreover have "genuine (sent N @ [m]) y" if "y \<in> set (wire N)" for y
    using send(2) that by (auto simp: net_inv_def intro: genuine_append)
  moreover have "genuine (sent N @ [m]) y" if "answer N = Some (Resp_data xs)" "y \<in> set xs" for xs y
    using send(2) that by (auto simp: net_inv_def intro: genuine_append)
  ultimately show ?case using send(2) by (simp add: net_inv_def receiver_inv_append)
next
  case (resend N x)
  have "sender_inv (sent N) (emitted_seq (rcv N)) (snd_side N)" using resend(2) by (simp add: net_inv_def)
  then have "genuine (sent N) x"
    using resend(1) unfolding sender_inv_def genuine_def resend_round_def resendLast_def
    by (metis option.distinct(1))
  with resend(2) show ?case by (simp add: net_inv_def)
next
  case (deliver x N r')
  then have "receiver_inv (sent N) (rcv N)" "genuine (sent N) x" by (auto simp: net_inv_def)
  from receiver_process_ok [OF this] deliver(2) have "receiver_inv (sent N) r'" "next_seq (rcv N) \<le> next_seq r'"
    by auto
  with deliver(3) show ?case by (rule net_inv_rcv_same)
next
  case (request N missing resp s')
  have s: "sender_inv (sent N) (emitted_seq (rcv N)) (snd_side N)" using request(3) by (simp add: net_inv_def)
  have "\<forall>x \<in> set xs. genuine (sent N) x" if "resp = Resp_data xs" for xs
    using request(2) that collect_missing_ok [OF s] by (auto simp: handleRequest_def split: option.splits)
  with request show ?case by (auto simp: net_inv_def handleRequest_def split: option.splits)
next
  case (respond N resp r')
  have "receiver_inv (sent N) (rcv N)" "\<And>xs. Some resp = Some (Resp_data xs) \<Longrightarrow> \<forall>x \<in> set xs. genuine (sent N) x"
    using respond(1,3) by (auto simp: net_inv_def)
  from fetch_done_inv [OF respond(2) this] respond(3) show ?case by (intro net_inv_rcv) simp_all
next
  case (fail N missing r')
  have "receiver_inv (sent N) (rcv N)" using fail(3) by (simp add: net_inv_def)
  from fetch_done_inv [OF fail(2) this] fail(3) show ?case by (intro net_inv_rcv) simp_all
next
  case (report e N resp s')
  have "sender_inv (sent N) (emitted_seq (rcv N)) (snd_side N)" "e \<le> emitted_seq (rcv N)"
    using report(1,3) by (auto simp: net_inv_def receiver_inv_def)
  then have "sender_inv (sent N) (emitted_seq (rcv N)) (ack_loop (keys (outgoing (snd_side N))) e (snd_side N))"
    by (intro ack_loop_ok) (auto simp: sender_inv_def)
  with report show ?case by (auto simp: net_inv_def handleRequest_def)
next
  case (reported e N ok)
  have "receiver_inv (sent N) (report_done e ok (rcv N))"
    using reported(2) by (auto simp: net_inv_def receiver_inv_def report_done_def Let_def dest: in_set_remove1 [THEN iffD1, rotated] notin_set_remove1)
  then show ?case using reported(2) by (intro net_inv_rcv_same) (simp_all add: report_done_def Let_def)
next
  case (close N)
  have "receiver_inv (sent N) (receiver_close (rcv N))"
    using close by (auto simp: net_inv_def receiver_inv_def receiver_close_def)
  then show ?case using close by (intro net_inv_rcv_same) (simp_all add: receiver_close_def)
qed

lemma net_inv_new: "net_inv (new_net n)"
  by (simp add: net_inv_def new_net_def receiver_inv_new) (simp add: new_receiver_def sender_inv_new)

lemma net_reachable_inv: "net_reachable n N \<Longrightarrow> net_inv N"
  unfolding net_reachable_def
proof (induction rule: rtranclp_induct)
  case (step N1 N2)
  then show ?case using net_inv_step by blast
qed (rule net_inv_new)

section \<open>Recovery\<close>

text \<open>The receiver has message \<open>k\<close>, emitted or stored.\<close>

definition holds :: "'m receiver \<Rightarrow> nat \<Rightarrow> bool" where
  "holds r k \<longleftrightarrow> k < next_seq r \<or> obj_get (incoming r) k \<noteq> None"

lemma receiver_process_next:
  "\<not> closed r \<Longrightarrow> 1 \<le> k \<Longrightarrow> k = next_seq r \<Longrightarrow>
     receiver_process (Some k, m) r = Some (emit_next m (r\<lparr>largest := max k (largest r)\<rparr>))"
  by (simp add: receiver_process_def emitMessage_def emit_next_def)

lemma process_holds:
  assumes "receiver_process (Some k, m) r = Some r'" and "\<not> closed r" and "1 \<le> k" and "fetching r \<noteq> None"
  shows "holds r' k" "holds r j \<Longrightarrow> holds r' j" "\<not> closed r'" "fetching r' = fetching r"
  using assms
  by (auto simp: receiver_process_def holds_def emitMessage_def fetchMissing_def obj_simps Let_def
      reportReceived_def split: if_splits)

lemma process_all_holds:
  assumes "process_all (map (\<lambda>k. (Some k, f k)) ks) r = Some r'" and "\<not> closed r" and "\<forall>k \<in> set ks. 1 \<le> k"
    and "fetching r \<noteq> None"
  shows "(\<forall>k \<in> set ks. holds r' k) \<and> (\<forall>j. holds r j \<longrightarrow> holds r' j) \<and> \<not> closed r'"
  using assms
proof (induction ks arbitrary: r)
  case (Cons k ks)
  then obtain r1 where r1: "receiver_process (Some k, f k) r = Some r1"
    "process_all (map (\<lambda>k. (Some k, f k)) ks) r1 = Some r'"
    by (auto split: option.splits)
  from process_holds [OF r1(1)] Cons.prems have h: "holds r1 k" "\<And>j. holds r j \<Longrightarrow> holds r1 j"
    "\<not> closed r1" "fetching r1 \<noteq> None" by auto
  from Cons.IH [OF r1(2) h(3)] h Cons.prems(3) show ?case by auto
qed simp

lemma fetch_recovers:
  assumes inv: "receiver_inv ms r" and open_: "\<not> closed r" and f: "fetching r = Some missing"
    and miss: "\<forall>k \<in> set missing. next_seq r \<le> k \<and> k \<le> length ms"
    and held: "\<forall>k. next_seq r \<le> k \<and> k \<le> length ms \<and> k \<notin> set missing \<longrightarrow> holds r k"
  obtains r' where "fetch_done (Some (Resp_data (map (\<lambda>k. (Some k, ms ! (k - 1))) missing))) r = Some r'"
    "out_log r' = ms"
proof -
  let ?xs = "map (\<lambda>k. (Some k, ms ! (k - 1))) missing"
  have ge: "\<forall>k \<in> set missing. 1 \<le> k" using miss inv by (auto simp: receiver_inv_def)
  then have g: "\<forall>x \<in> set ?xs. genuine ms x" using miss by (auto simp: genuine_def)
  obtain r1 where r1: "process_all ?xs r = Some r1" "receiver_inv ms r1"
    using process_all_ok [OF inv g] by blast
  with process_all_holds [OF r1(1) open_ ge] f have h: "\<forall>k \<in> set missing. holds r1 k"
    "\<forall>j. holds r j \<longrightarrow> holds r1 j" "\<not> closed r1" by auto
  have all: "holds r1 k" if "k \<le> length ms" for k
    using h(1,2) held that by (cases "k < next_seq r") (auto simp: holds_def [of r])
  obtain r2 where r2: "emit_loop (next_seq r1) r1 = Some r2" "receiver_inv ms r2" "next_seq r1 \<le> next_seq r2"
    "obj_get (incoming r2) (next_seq r2) = None"
    "obj_get (incoming r2) (next_seq r2) = obj_get (incoming r1) (next_seq r2)"
    using emit_loop_ok [OF r1(2) h(3) refl] by (metis order_refl)
  have "\<not> next_seq r2 \<le> length ms"
    using all [of "next_seq r2"] r2(3-5) by (auto simp: holds_def)
  with r2(2) have "out_log r2 = ms" by (auto simp: receiver_inv_def)
  with that [of "(reportReceived r2)\<lparr>fetching := None\<rparr>"] r1(1) r2(1) open_ h(3) show ?thesis
    by (simp add: fetch_done_def emitIncoming_def)
qed

section \<open>Stalling\<close>

text \<open>
  The next message is stored but not emitted, nothing up to the largest message is missing, and
  no request is in flight.
\<close>

definition stalled :: "'m receiver \<Rightarrow> bool" where
  "stalled r \<longleftrightarrow> \<not> closed r \<and> fetching r = None \<and> next_seq r < largest r \<and>
     (\<forall>k. next_seq r \<le> k \<and> k \<le> largest r \<longrightarrow> obj_get (incoming r) k \<noteq> None)"

text \<open>New messages arriving in order, and repetitions of messages after the next one.\<close>

fun arrives :: "nat \<Rightarrow> nat \<Rightarrow> 'm message list \<Rightarrow> bool" where
  "arrives nxt l [] = True"
| "arrives nxt l ((Some k, m) # xs) = (nxt < k \<and> k \<le> l + 1 \<and> arrives nxt (max l k) xs)"
| "arrives nxt l ((None, m) # xs) = False"

lemma stalled_process:
  assumes "stalled r" and "next_seq r < k" and "k \<le> largest r + 1"
  shows "\<exists>r'. receiver_process (Some k, m) r = Some r' \<and> stalled r' \<and> out_log r' = out_log r \<and>
    next_seq r' = next_seq r \<and> largest r' = max (largest r) k"
proof -
  let ?r = "r\<lparr>largest := max k (largest r), incoming := obj_set k m (incoming r)\<rparr>"
  have "stalled ?r" using assms by (auto simp: stalled_def obj_simps le_Suc_eq simp del: Some_eq_map_of_iff)
  then have "missing_seqs ?r = []"
    by (auto simp: stalled_def missing_seqs_def filter_empty_conv less_Suc_eq_le simp del: Some_eq_map_of_iff)
  with \<open>stalled ?r\<close> have "fetchMissing ?r = ?r" by (simp add: fetchMissing_def)
  with \<open>stalled ?r\<close> assms show ?thesis
    by (intro exI [of _ ?r]) (auto simp: receiver_process_def stalled_def Let_def)
qed

section \<open>Properties\<close>

text \<open>
  C13: exactly once and in order. However the network loses, repeats and reorders messages and
  fails requests, what the receiver has emitted is a prefix of what was sent; everything not yet
  emitted is kept by the sender, whose count of unsent messages is right and within its buffer;
  and no message that can arrive makes the receiver throw.
\<close>

theorem delivered_is_prefix:
  assumes "net_reachable n N"
  shows "out_log (rcv N) = take (length (out_log (rcv N))) (sent N) \<and>
    (\<forall>k. length (out_log (rcv N)) < k \<and> k \<le> length (sent N) \<longrightarrow>
       obj_get (outgoing (snd_side N)) k = Some (Some k, sent N ! (k - 1))) \<and>
    unsent (snd_side N) = length (outgoing (snd_side N)) \<and> unsent (snd_side N) \<le> buffer_size (snd_side N) \<and>
    (\<forall>x \<in> set (wire N). receiver_process x (rcv N) \<noteq> None)"
proof -
  have inv: "net_inv N" using net_reachable_inv [OF assms] .
  have s: "sender_inv (sent N) (emitted_seq (rcv N)) (snd_side N)" and r: "receiver_inv (sent N) (rcv N)"
    using inv by (simp_all add: net_inv_def)
  have "obj_get (outgoing (snd_side N)) k = Some (Some k, sent N ! (k - 1))"
    if "length (out_log (rcv N)) < k" "k \<le> length (sent N)" for k
    using s r that unfolding sender_inv_def receiver_inv_def by (metis not_None_eq)
  moreover have "receiver_process x (rcv N) \<noteq> None" if "x \<in> set (wire N)" for x
  proof -
    have "genuine (sent N) x" using inv that by (simp add: net_inv_def)
    from receiver_process_ok [OF r this] show ?thesis by (metis option.distinct(1))
  qed
  ultimately show ?thesis using s r by (simp add: sender_inv_def receiver_inv_def)
qed

lemma net_reachable_new: "net_reachable n (new_net n)"
  by (simp add: net_reachable_def)

lemma net_reachable_step: "net_reachable n N \<Longrightarrow> net_step N N' \<Longrightarrow> net_reachable n N'"
  by (simp add: net_reachable_def)

lemma net_send2:
  "\<exists>N. net_reachable 5 N \<and> sent N = [a, b] \<and> wire N = [(Some 2, b), (Some 1, a)] \<and> rcv N = new_receiver \<and>
     answer N = None \<and> snd_side N = \<lparr>outgoing = [(1, (Some 1, a)), (2, (Some 2, b))], sent_seq = 2, unsent = 2,
       buffer_size = 5, drains = 0\<rparr>"
proof -
  let ?s1 = "snd (sender_process a (new_sender 5))"
  let ?N1 = "(new_net 5)\<lparr>snd_side := ?s1, wire := [(Some 1, a)], sent := [a]\<rparr>"
  let ?s2 = "snd (sender_process b ?s1)"
  let ?N2 = "?N1\<lparr>snd_side := ?s2, wire := [(Some 2, b), (Some 1, a)], sent := [a, b]\<rparr>"
  have "net_step (new_net 5) ?N1"
    using net_step.send [of a "new_net 5" "(Some 1, a)" ?s1]
    by (simp add: new_net_def new_sender_def sender_process_def Let_def)
  moreover have "net_step ?N1 ?N2"
    using net_step.send [of b ?N1 "(Some 2, b)" ?s2]
    by (simp add: new_net_def new_sender_def sender_process_def Let_def)
  ultimately have "net_reachable 5 ?N2" using net_reachable_new net_reachable_step by blast
  then show ?thesis
    by (intro exI [of _ ?N2]) (simp add: new_net_def new_sender_def sender_process_def Let_def)
qed

theorem delivered_is_prefix_witness:
  "\<exists>N :: string net. net_reachable 5 N \<and> sent N = [''a'', ''b''] \<and>
     out_log (rcv N) = take (length (out_log (rcv N))) (sent N) \<and> receiver_process (Some 2, ''b'') (rcv N) \<noteq> None"
proof -
  obtain N :: "string net" where N: "net_reachable 5 N" "sent N = [''a'', ''b'']" "wire N = [(Some 2, ''b''), (Some 1, ''a'')]"
    using net_send2 [of "''a''" "''b''"] by (elim exE conjE) (rule that)
  with delivered_is_prefix [OF N(1)] show ?thesis by (intro exI [of _ N]) simp
qed

text \<open>C28: one repetition is enough to recover. In every reachable state in which the receiver is open,
  no request is in flight, some message is outstanding and the next one is not stored, one round of
  \<open>resendLastUntilAcked\<close> sends a message on whose arrival the receiver has either everything or
  asks for what is missing; the sender has all of it, and the answer completes the stream. (When the next message is stored and
  no request is in flight the receiver can be stalled: \<open>stalled_receiver_never_emits\<close>.)\<close>

theorem resend_recovers:
  assumes "net_reachable n N" and "\<not> closed (rcv N)" and "fetching (rcv N) = None"
    and "length (out_log (rcv N)) < length (sent N)"
    and "obj_get (incoming (rcv N)) (next_seq (rcv N)) = None"
  shows "\<exists>x r1. resend_round (snd_side N) = Some x \<and> receiver_process x (rcv N) = Some r1 \<and>
    (out_log r1 = sent N \<or>
     (\<exists>missing v r2. fetching r1 = Some missing \<and>
        handleRequest (Req_missing missing) (snd_side N) = (Resp_data v, snd_side N) \<and>
        fetch_done (Some (Resp_data v)) r1 = Some r2 \<and> out_log r2 = sent N))"
proof -
  let ?L = "length (sent N)" and ?r = "rcv N"
  have inv: "net_inv N" using net_reachable_inv [OF assms(1)] .
  have s: "sender_inv (sent N) (emitted_seq ?r) (snd_side N)" and r: "receiver_inv (sent N) ?r"
    using inv by (simp_all add: net_inv_def)
  let ?x = "(Some ?L, sent N ! (?L - 1))"
  have x: "obj_get (outgoing (snd_side N)) ?L = Some ?x" "sent_seq (snd_side N) = ?L"
    using delivered_is_prefix [OF assms(1)] assms(4) s by (auto simp: sender_inv_def)
  have resend: "resend_round (snd_side N) = Some ?x"
    using x assms(4) by (auto simp: resend_round_def lastAcked_def resendLast_def)
  have "genuine (sent N) ?x" using assms(4) by (auto simp: genuine_def intro!: exI [of _ ?L])
  then obtain r1 where r1: "receiver_process ?x ?r = Some r1" "receiver_inv (sent N) r1"
    using receiver_process_ok [OF r] by blast
  have nxt: "next_seq ?r \<le> ?L" "next_seq ?r \<ge> 1" "largest ?r \<le> ?L"
    using r assms(4) by (auto simp: receiver_inv_def)
  show ?thesis
  proof (cases "next_seq ?r = ?L")
    case True
    have "receiver_process ?x ?r = Some (emit_next (sent N ! (?L - 1)) (?r\<lparr>largest := max ?L (largest ?r)\<rparr>))"
      by (rule receiver_process_next [OF assms(2) _ True [symmetric]]) (use nxt in linarith)
    then have r1': "r1 = emit_next (sent N ! (?L - 1)) (?r\<lparr>largest := max ?L (largest ?r)\<rparr>)"
      using r1(1) by (metis option.inject)
    have "next_seq r1 = Suc ?L" unfolding r1' emit_next_fields(1) by (simp add: True)
    then have "out_log r1 = sent N"
      using r1(2) unfolding receiver_inv_def by (metis Suc_inject order_refl take_all)
    with resend r1(1) show ?thesis by blast
  next
    case False
    let ?d = "?r\<lparr>largest := ?L, incoming := obj_set ?L (sent N ! (?L - 1)) (incoming ?r)\<rparr>"
    have p: "receiver_process ?x ?r = Some (fetchMissing ?d)"
      using False nxt assms(2) by (auto simp: receiver_process_def Let_def max_def)
    have "next_seq ?r \<in> set (missing_seqs ?d)"
      using False nxt assms(5) by (auto simp: missing_seqs_def obj_simps)
    then have "missing_seqs ?d \<noteq> []" by force
    then have d: "fetchMissing ?d = ?d\<lparr>fetching := Some (js_sort (missing_seqs ?d))\<rparr>"
      using assms(2,3) by (simp add: fetchMissing_def)
    let ?ms = "js_sort (missing_seqs ?d)"
    have ms: "set ?ms = {k. next_seq ?r \<le> k \<and> k \<le> ?L \<and> obj_get (incoming ?d) k = None}"
      by (auto simp: missing_seqs_def less_Suc_eq_le)
    have "collect_missing ?ms (snd_side N) = Some (map (\<lambda>k. (Some k, sent N ! (k - 1))) ?ms)"
      using r ms by (intro collect_missing_all [OF s]) (auto simp: receiver_inv_def)
    then have h: "handleRequest (Req_missing ?ms) (snd_side N) =
        (Resp_data (map (\<lambda>k. (Some k, sent N ! (k - 1))) ?ms), snd_side N)"
      by (simp add: handleRequest_def)
    have "receiver_inv (sent N) (fetchMissing ?d)" using r1 p by simp
    then obtain r2 where "fetch_done (Some (Resp_data (map (\<lambda>k. (Some k, sent N ! (k - 1))) ?ms))) (fetchMissing ?d) = Some r2"
      "out_log r2 = sent N"
      by (rule fetch_recovers [where missing = ?ms]) (use d ms assms(2) in \<open>auto simp: holds_def\<close>)
    with resend p h d show ?thesis by fastforce
  qed
qed

theorem resend_recovers_witness:
  "\<exists>N :: string net. net_reachable 5 N \<and> sent N = [''a'', ''b''] \<and> out_log (rcv N) = [] \<and>
     (\<exists>x r1. resend_round (snd_side N) = Some x \<and> receiver_process x (rcv N) = Some r1 \<and>
    (out_log r1 = sent N \<or>
     (\<exists>missing v r2. fetching r1 = Some missing \<and>
        handleRequest (Req_missing missing) (snd_side N) = (Resp_data v, snd_side N) \<and>
        fetch_done (Some (Resp_data v)) r1 = Some r2 \<and> out_log r2 = sent N)))"
proof -
  obtain N :: "string net" where N: "net_reachable 5 N" "sent N = [''a'', ''b'']" "rcv N = new_receiver"
    using net_send2 [of "''a''" "''b''"] by (elim exE conjE) (rule that)
  with resend_recovers [OF N(1)] show ?thesis by (intro exI [of _ N]) (simp add: new_receiver_def)
qed

text \<open>
  A receiver can stall for good. If the next message is stored and nothing is missing (the
  state after a failed \<open>fetchMissing\<close> followed by the late arrival of the message it waited
  for), then no later message, new or repeated, makes it emit anything: \<open>fetchMissing\<close> returns
  early because nothing is missing and does not call \<open>emitIncoming\<close>.
\<close>

theorem stalled_receiver_never_emits:
  assumes "stalled r" and "arrives (next_seq r) (largest r) xs"
  shows "\<exists>r'. process_all xs r = Some r' \<and> out_log r' = out_log r \<and> stalled r'"
  using assms
proof (induction xs arbitrary: r)
  case (Cons x xs)
  obtain k m where x: "x = (Some k, m)" using Cons.prems(2) by (cases x; cases "fst x") auto
  obtain r1 where "receiver_process x r = Some r1" "stalled r1" "out_log r1 = out_log r"
    "next_seq r1 = next_seq r" "largest r1 = max (largest r) k"
    using stalled_process [OF Cons.prems(1), of k m] Cons.prems(2) x by auto
  with Cons.IH [of r1] Cons.prems(2) x show ?case by simp
qed simp

theorem stalled_receiver_never_emits_witness:
  "\<exists>r1 r2 r3 :: string receiver. receiver_process (Some 2, ''b'') new_receiver = Some r1 \<and>
     fetch_done None r1 = Some r2 \<and> process_all [(Some 1, ''a''), (Some 3, ''c'')] r2 = Some r3 \<and>
     (\<exists>r4. process_all [(Some 4, ''d''), (Some 5, ''e''), (Some 5, ''e'')] r3 = Some r4 \<and> out_log r4 = [''a''])"
proof -
  define r1 :: "string receiver" where "r1 = new_receiver\<lparr>largest := 2, incoming := [(2, ''b'')], fetching := Some [1]\<rparr>"
  define r2 where "r2 = r1\<lparr>fetching := None\<rparr>"
  define r3 where "r3 = r2\<lparr>next_seq := 2, emitted_seq := 1, out_log := [''a''], reports := [1], largest := 3,
    incoming := [(2, ''b''), (3, ''c'')]\<rparr>"
  have "receiver_process (Some 2, ''b'') new_receiver = Some r1"
    by (simp add: r1_def receiver_process_def new_receiver_def fetchMissing_def missing_seqs_def upt_rec js_sort_def)
  moreover have "fetch_done None r1 = Some r2"
    by (simp add: r2_def r1_def fetch_done_def new_receiver_def)
  moreover have "process_all [(Some 1, ''a''), (Some 3, ''c'')] r2 = Some r3"
    by (simp add: r3_def r2_def r1_def new_receiver_def receiver_process_def emitMessage_def reportReceived_def
        fetchMissing_def missing_seqs_def upt_rec)
  moreover have r3: "out_log r3 = [''a'']" by (simp add: r3_def)
  moreover have "stalled r3" "arrives (next_seq r3) (largest r3) [(Some 4, ''d''), (Some 5, ''e''), (Some 5, ''e'')]"
    by (auto simp: stalled_def r3_def r2_def r1_def new_receiver_def)
  then have "\<exists>r4. process_all [(Some 4, ''d''), (Some 5, ''e''), (Some 5, ''e'')] r3 = Some r4 \<and> out_log r4 = out_log r3 \<and> stalled r4"
    by (intro stalled_receiver_never_emits)
  ultimately show ?thesis by auto
qed

end
