(* ===== verification/CoreStream.thy ===== *)
theory CoreStream
  imports Storage JsSort
begin

text \<open>
  The client side of a persistent stream, the class \<open>CoreStream\<close> of
  \<^verbatim>\<open>packages/conat/sync/core-stream.ts\<close>: how it processes the messages and change
  events of the server (Storage), its key:value view, garbage collection, recovery of missed
  messages, and what it asks of the server. An asynchronous method is modelled by what it
  requests and by what it does with the response. Objects that the code compares by identity
  carry an identity, \<open>oid\<close>. Parameters: \<open>decode\<close> and \<open>encode\<close> of the wire format, and
  \<open>tombstone\<close>, which headers contain the tombstone header. A number that is used as a key of an
  object is its decimal notation.
\<close>

section \<open>State\<close>

record 'h raw_msg =
  oid :: nat
  timestamp :: rat
  headers :: "'h option"
  seq :: nat
  data :: bytes
  key :: "string option"

text \<open>
  What \<open>emitChange\<close> is called with. The \<open>key\<close> of a deletion is what the code reads from its
  object \<open>keys\<close>, whose values are numbers.
\<close>

datatype ('h, 't) change_event =
    Change_set 't "'h raw_msg" "string option" "'t option" "string option"
  | Change_delete nat "nat option" "'t option"

record ('h, 't) cstream =
  raw :: "'h raw_msg list"
  messages :: "'t option list"
  kv :: "(string, 't \<times> 'h raw_msg) obj"
  kvChangeBytes :: nat
  lastSeq :: nat
  lastValueByKey :: "(string, 't) obj"
  largestSeq :: nat
  missingMessages :: "nat list"
  changes :: "('h, 't) change_event list"
  next_oid :: nat
  is_closed :: bool

datatype stream_error = DecodeErr | GcTypeErr | StreamErr

definition new_cstream :: "('h, 't) cstream" where
  "new_cstream = \<lparr>raw = [], messages = [], kv = [], kvChangeBytes = 0, lastSeq = 0, lastValueByKey = [],
     largestSeq = 0, missingMessages = [], changes = [], next_oid = 0, is_closed = False\<rparr>"

definition KEY_GC_THRESH :: nat where
  "KEY_GC_THRESH = 10 * 1000000"

definition emitChange :: "('h, 't) change_event \<Rightarrow> ('h, 't) cstream \<Rightarrow> ('h, 't) cstream" where
  "emitChange e s = (if is_closed s then s else s\<lparr>changes := changes s @ [e]\<rparr>)"

section \<open>Deletions\<close>

definition splice_out :: "nat \<Rightarrow> nat \<Rightarrow> 'a list \<Rightarrow> 'a list" where
  "splice_out i n xs = take i xs @ drop (i + n) xs"

text \<open>Contiguous indexes are removed at once, others one by one from the end.\<close>

definition remove_indexes :: "nat list \<Rightarrow> 'a list \<Rightarrow> 'a list" where
  "remove_indexes indexes xs =
     (if length indexes > 1 \<and> (\<forall>i < length indexes. indexes ! i = hd indexes + i)
      then splice_out (hd indexes) (length indexes) xs
      else foldr (\<lambda>i ys. splice_out i 1 ys) indexes xs)"

definition deleted_keys :: "nat list \<Rightarrow> (string, 't \<times> 'h raw_msg) obj \<Rightarrow> (string, nat) obj" where
  "deleted_keys seqs kvs = map (\<lambda>(k, (_, r)). (k, seq r)) (filter (\<lambda>(k, (_, r)). seq r \<in> set seqs) kvs)"

definition delete_events :: "nat list \<Rightarrow> (string, nat) obj \<Rightarrow> 'h raw_msg list \<Rightarrow> 't option list \<Rightarrow>
    ('h, 't) change_event list" where
  "delete_events seqs ks raws msgs =
     map (\<lambda>(r, m). Change_delete (seq r) (obj_get ks (decimal (seq r))) m)
       (filter (\<lambda>(r, m). seq r \<in> set seqs) (zip raws msgs))"

definition processPersistentDelete :: "nat list \<Rightarrow> bool \<Rightarrow> ('h, 't) cstream \<Rightarrow> ('h, 't) cstream" where
  "processPersistentDelete seqs noEmit s =
     (if is_closed s then s
      else
        (let ks = deleted_keys seqs (kv s);
             indexes = filter (\<lambda>i. seq (raw s ! i) \<in> set seqs) [0 ..< length (raw s)] in
         s\<lparr>kv := filter (\<lambda>(k, _). k \<notin> set (keys ks)) (kv s),
           lastValueByKey := filter (\<lambda>(k, _). k \<notin> set (keys ks)) (lastValueByKey s),
           changes := changes s @ (if noEmit then [] else delete_events seqs ks (raw s) (messages s)),
           raw := remove_indexes indexes (raw s),
           messages := remove_indexes indexes (messages s)\<rparr>))"

section \<open>Garbage collection\<close>

text \<open>The loop of \<open>gcKv\<close>; it throws when a key has no entry. The last component is the next identity.\<close>

fun gc_loop :: "(string, 't \<times> 'h raw_msg) obj \<Rightarrow> 'h raw_msg list \<Rightarrow> 't option list \<Rightarrow> nat \<Rightarrow>
    bool \<times> 'h raw_msg list \<times> 't option list \<times> nat" where
  "gc_loop kvs (r # rs) (m # ms) n =
     (case key r of
        Some k \<Rightarrow>
          if length (data r) > 0 then
            (case obj_get kvs k of
               None \<Rightarrow> (False, r # rs, m # ms, n)
             | Some (_, r') \<Rightarrow>
                 if oid r \<noteq> oid r' then
                   (let (ok, rs', ms', n') = gc_loop kvs rs ms (n + 1) in
                    (ok, r\<lparr>oid := n, headers := None, data := []\<rparr> # rs', None # ms', n'))
                 else (let (ok, rs', ms', n') = gc_loop kvs rs ms n in (ok, r # rs', m # ms', n')))
          else (let (ok, rs', ms', n') = gc_loop kvs rs ms n in (ok, r # rs', m # ms', n'))
      | None \<Rightarrow> (let (ok, rs', ms', n') = gc_loop kvs rs ms n in (ok, r # rs', m # ms', n')))"
| "gc_loop kvs rs ms n = (True, rs, ms, n)"

definition gcKv :: "('h, 't) cstream \<Rightarrow> bool \<times> ('h, 't) cstream" where
  "gcKv s =
     (let (ok, rs, ms, n) = gc_loop (kv s) (raw s) (messages s) (next_oid s) in
      (ok, s\<lparr>kvChangeBytes := 0, raw := rs, messages := ms, next_oid := n\<rparr>))"

section \<open>Messages\<close>

text \<open>Sequence numbers that were skipped are recorded, in a set in insertion order.\<close>

definition note_missing :: "nat \<Rightarrow> ('h, 't) cstream \<Rightarrow> ('h, 't) cstream" where
  "note_missing q s =
     (let expected = largestSeq s + 1 in
      if q > expected
      then s\<lparr>missingMessages := missingMessages s @
        filter (\<lambda>x. x \<notin> set (missingMessages s)) [expected ..< q]\<rparr>
      else s)"

definition insert_raw :: "'h raw_msg \<Rightarrow> 't \<Rightarrow> ('h, 't) cstream \<Rightarrow> ('h, 't) cstream" where
  "insert_raw r mesg s =
     (if seq r > (if raw s = [] then 0 else seq (last (raw s)))
      then s\<lparr>messages := messages s @ [Some mesg], raw := raw s @ [r]\<rparr>
      else
        (let i = length (takeWhile (\<lambda>x. seq x < seq r) (raw s)) in
         if i \<ge> length (raw s) then s\<lparr>raw := raw s @ [r], messages := messages s @ [Some mesg]\<rparr>
         else if seq (raw s ! i) > seq r then
           s\<lparr>raw := take i (raw s) @ r # drop i (raw s),
             messages := take i (messages s) @ Some mesg # drop i (messages s)\<rparr>
         else s))"

text \<open>The update of the key:value view; \<open>False\<close> is the exception of \<open>gcKv\<close>.\<close>

definition set_kv :: "nat \<Rightarrow> bool \<Rightarrow> string \<Rightarrow> 'h raw_msg \<Rightarrow> 't \<Rightarrow> ('h, 't) cstream \<Rightarrow> bool \<times> ('h, 't) cstream" where
  "set_kv thresh is_tombstone k r mesg s =
     (if is_tombstone
      then (True, s\<lparr>kv := obj_del k (kv s), lastValueByKey := obj_del k (lastValueByKey s)\<rparr>)
      else
        (let bytes = (case obj_get (kv s) k of
               None \<Rightarrow> kvChangeBytes s
             | Some (_, r') \<Rightarrow> kvChangeBytes s + length (data r'));
             s' = s\<lparr>kvChangeBytes := bytes, kv := obj_set k (mesg, r) (kv s),
               lastValueByKey := obj_set k mesg (lastValueByKey s)\<rparr> in
         if bytes \<ge> thresh then gcKv s' else (True, s')))"

definition the_raw :: "nat \<Rightarrow> 'h stored_message \<Rightarrow> 'h raw_msg" where
  "the_raw n m = \<lparr>oid = n, timestamp = m_time m, headers = m_headers m, seq = m_seq m,
     data = m_raw m, key = m_key m\<rparr>"

text \<open>The first part of \<open>processPersistentSet\<close>: the check of the sequence number.\<close>

definition note_seq :: "bool \<Rightarrow> nat \<Rightarrow> ('h, 't) cstream \<Rightarrow> ('h, 't) cstream" where
  "note_seq noSeqCheck q s =
     (let s1 = (if noSeqCheck then s else note_missing q s) in
      s1\<lparr>largestSeq := max (largestSeq s1) q\<rparr>)"

text \<open>Its last part, after the message was inserted.\<close>

definition finish_set ::
  "nat \<Rightarrow> ('h \<Rightarrow> bool) \<Rightarrow> 'h stored_message \<Rightarrow> 't \<Rightarrow> 'h raw_msg \<Rightarrow> string option \<Rightarrow> bool \<Rightarrow>
     ('h, 't) cstream \<Rightarrow> stream_error option \<times> ('h, 't) cstream" where
  "finish_set thresh tombstone m mesg r msgID noEmit s =
     (let old = Option.bind (m_key m) (obj_get (kv s));
          prev = (case old of Some (v, _) \<Rightarrow> Some v
            | None \<Rightarrow> Option.bind (m_key m) (obj_get (lastValueByKey s)));
          (ok, s4) = (case m_key m of
             None \<Rightarrow> (True, s)
           | Some k \<Rightarrow> set_kv thresh (case m_headers m of None \<Rightarrow> False | Some h \<Rightarrow> tombstone h) k r mesg s) in
      if \<not> ok then (Some GcTypeErr, s4)
      else
        (let s5 = (case old of
               None \<Rightarrow> s4
             | Some (_, r') \<Rightarrow> if seq r' \<noteq> m_seq m then processPersistentDelete [seq r'] True s4 else s4);
             s6 = s5\<lparr>lastSeq := max (lastSeq s5) (m_seq m)\<rparr> in
         (None, if noEmit then s6 else emitChange (Change_set mesg r (m_key m) prev msgID) s6)))"

definition processPersistentSet ::
  "nat \<Rightarrow> (nat \<Rightarrow> bytes \<Rightarrow> 't option) \<Rightarrow> ('h \<Rightarrow> bool) \<Rightarrow> 'h stored_message \<Rightarrow> string option \<Rightarrow> bool \<Rightarrow> bool \<Rightarrow>
     ('h, 't) cstream \<Rightarrow> stream_error option \<times> ('h, 't) cstream" where
  "processPersistentSet thresh decode tombstone m msgID noEmit noSeqCheck s =
     (if is_closed s then (None, s)
      else
        (let s2 = note_seq noSeqCheck (m_seq m) s in
         case decode (m_encoding m) (m_raw m) of
           None \<Rightarrow> (Some DecodeErr, s2)
         | Some mesg \<Rightarrow>
             (let r = the_raw (next_oid s2) m in
              finish_set thresh tombstone m mesg r msgID noEmit
                (insert_raw r mesg (s2\<lparr>next_oid := next_oid s2 + 1\<rparr>)))))"

fun processPersistentMessage ::
  "nat \<Rightarrow> (nat \<Rightarrow> bytes \<Rightarrow> 't option) \<Rightarrow> ('h \<Rightarrow> bool) \<Rightarrow> bool \<Rightarrow> bool \<Rightarrow> 'h change \<Rightarrow>
     ('h, 't) cstream \<Rightarrow> stream_error option \<times> ('h, 't) cstream" where
  "processPersistentMessage thresh decode tombstone noEmit noSeqCheck (DeleteOperation seqs) s =
     (None, processPersistentDelete seqs noEmit s)"
| "processPersistentMessage thresh decode tombstone noEmit noSeqCheck (SetOperation m msgID) s =
     processPersistentSet thresh decode tombstone m msgID noEmit noSeqCheck s"

text \<open>An exception is caught and the loop goes on; the result records the exceptions.\<close>

fun processPersistentMessages ::
  "nat \<Rightarrow> (nat \<Rightarrow> bytes \<Rightarrow> 't option) \<Rightarrow> ('h \<Rightarrow> bool) \<Rightarrow> bool \<Rightarrow> bool \<Rightarrow> 'h change list \<Rightarrow>
     ('h, 't) cstream \<Rightarrow> stream_error list \<times> ('h, 't) cstream" where
  "processPersistentMessages thresh decode tombstone noEmit noSeqCheck [] s = ([], s)"
| "processPersistentMessages thresh decode tombstone noEmit noSeqCheck (x # xs) s =
     (let (e, s1) = processPersistentMessage thresh decode tombstone noEmit noSeqCheck x s;
          (es, s2) = processPersistentMessages thresh decode tombstone noEmit noSeqCheck xs s1 in
      ((case e of None \<Rightarrow> es | Some e' \<Rightarrow> e' # es), s2))"

section \<open>Requests to the server\<close>

text \<open>
  The range that \<open>getAllMissingMessages\<close> asks for, from the missing numbers sorted as strings,
  and what it does with the response.
\<close>

definition missing_range :: "('h, 't) cstream \<Rightarrow> (nat \<times> nat) option" where
  "missing_range s =
     (if is_closed s \<or> missingMessages s = [] then None
      else (let missing = js_sort (missingMessages s) in Some (hd missing, last missing)))"

definition missing_response ::
  "nat \<Rightarrow> (nat \<Rightarrow> bytes \<Rightarrow> 't option) \<Rightarrow> ('h \<Rightarrow> bool) \<Rightarrow> nat list \<Rightarrow> 'h stored_message list \<Rightarrow>
     ('h, 't) cstream \<Rightarrow> ('h, 't) cstream" where
  "missing_response thresh decode tombstone missing ms s =
     (let s' = snd (processPersistentMessages thresh decode tombstone False True
            (map (\<lambda>m. SetOperation m None) ms) s) in
      s'\<lparr>missingMessages := filter (\<lambda>q. q \<notin> set missing) (missingMessages s')\<rparr>)"

text \<open>The range that \<open>load\<close> asks for, if any.\<close>

definition load_range :: "nat option \<Rightarrow> nat \<Rightarrow> ('h, 't) cstream \<Rightarrow> (nat \<times> nat) option" where
  "load_range start0 start_seq s =
     (let oldest = (case raw s of r # _ \<Rightarrow> seq r
           | [] \<Rightarrow> (case start0 of Some q \<Rightarrow> q | None \<Rightarrow> 1)) in
      if int start_seq > int oldest - 1 then None else Some (start_seq, oldest - 1))"

record 'h publish_options =
  o_headers :: "'h option"
  o_msgID :: "string option"
  o_key :: "string option"
  o_previousSeq :: "nat option"
  o_ttl :: "int option"

definition DEFAULT_TOMBSTONE_TTL :: int where
  "DEFAULT_TOMBSTONE_TTL = 24 * 60 * 60 * 1000"

definition set_request :: "('t \<Rightarrow> nat \<times> bytes) \<Rightarrow> 't \<Rightarrow> 'h publish_options \<Rightarrow> 'h set_args" where
  "set_request encode mesg opt = \<lparr>a_encoding = fst (encode mesg), a_raw = snd (encode mesg),
     a_headers = o_headers opt, a_key = o_key opt, a_ttl = o_ttl opt, a_previousSeq = o_previousSeq opt,
     a_msgID = o_msgID opt\<rparr>"

text \<open>The request that deletes a key: a tombstone, if the key is known.\<close>

definition deleteKv :: "('t \<Rightarrow> nat \<times> bytes) \<Rightarrow> 't \<Rightarrow> 'h \<Rightarrow> string \<Rightarrow> string option \<Rightarrow> nat option \<Rightarrow>
    ('h, 't) cstream \<Rightarrow> 'h set_args option" where
  "deleteKv encode null tombstone_header k msgID previousSeq s =
     (if obj_get (kv s) k = None then None
      else Some (set_request encode null \<lparr>o_headers = Some tombstone_header, o_msgID = msgID, o_key = Some k,
        o_previousSeq = previousSeq, o_ttl = Some DEFAULT_TOMBSTONE_TTL\<rparr>))"

text \<open>\<open>publish\<close>: \<open>None\<close> as message is undefined; \<open>sent_ids\<close> are the ids this client has used.\<close>

definition publish_msg :: "('t \<Rightarrow> nat \<times> bytes) \<Rightarrow> 't \<Rightarrow> 'h \<Rightarrow> string list \<Rightarrow> 't option \<Rightarrow> 'h publish_options \<Rightarrow>
    ('h, 't) cstream \<Rightarrow> stream_error + 'h set_args option" where
  "publish_msg encode null tombstone_header sent_ids mesg opt s =
     (case mesg of
        None \<Rightarrow>
          (case o_key opt of
             Some k \<Rightarrow> Inr (deleteKv encode null tombstone_header k None (o_previousSeq opt) s)
           | None \<Rightarrow> Inl StreamErr)
      | Some x \<Rightarrow>
          (case o_msgID opt of
             Some i \<Rightarrow> if i \<noteq> '''' \<and> i \<in> set sent_ids then Inr None else Inr (Some (set_request encode x opt))
           | None \<Rightarrow> Inr (Some (set_request encode x opt))))"

definition setKv :: "('t \<Rightarrow> nat \<times> bytes) \<Rightarrow> 't \<Rightarrow> 'h \<Rightarrow> string list \<Rightarrow> string \<Rightarrow> 't option \<Rightarrow> 'h publish_options \<Rightarrow>
    ('h, 't) cstream \<Rightarrow> stream_error + 'h set_args option" where
  "setKv encode null tombstone_header sent_ids k mesg opt s =
     publish_msg encode null tombstone_header sent_ids mesg (opt\<lparr>o_key := Some k\<rparr>) s"

text \<open>\<open>publishMany\<close> sends its messages in batches.\<close>

function batches :: "nat \<Rightarrow> 'a list \<Rightarrow> 'a list list" where
  "batches n xs = (if n = 0 \<or> xs = [] then [] else take n xs # batches n (drop n xs))"
  by pat_completeness auto
termination by (relation "measure (\<lambda>(n, xs). length xs)") auto

declare batches.simps [simp del]

datatype delete_request = Del_all | Del_last_seq nat | Del_seq nat | Del_seqs "nat list" | Del_undefined

text \<open>The arguments of \<open>delete\<close> as the request it makes; \<open>None\<close> when it returns without one.\<close>

definition delete_request :: "bool \<Rightarrow> int option \<Rightarrow> nat option \<Rightarrow> nat list option \<Rightarrow> nat option \<Rightarrow> string option \<Rightarrow>
    ('h, 't) cstream \<Rightarrow> delete_request option" where
  "delete_request all last_index sq seqs last_seq k s =
     (if all then Some Del_all
      else (case last_index of
        Some i \<Rightarrow>
          if i \<ge> int (length (raw s)) then Some Del_all
          else if i < 0 then None
          else Some (Del_last_seq (seq (raw s ! nat i)))
      | None \<Rightarrow> (case sq of
        Some q \<Rightarrow> Some (Del_seq q)
      | None \<Rightarrow> (case seqs of
        Some qs \<Rightarrow> Some (Del_seqs qs)
      | None \<Rightarrow> (case last_seq of
        Some q \<Rightarrow> Some (Del_last_seq q)
      | None \<Rightarrow> (case k of
        Some k' \<Rightarrow> map_option (\<lambda>(_, r). Del_seq (seq r)) (obj_get (kv s) k')
      | None \<Rightarrow> Some Del_undefined))))))"

section \<open>Reading\<close>

definition get_message :: "nat \<Rightarrow> ('h, 't) cstream \<Rightarrow> 't option" where
  "get_message n s = (if n < length (messages s) then messages s ! n else None)"

definition message_seq :: "nat \<Rightarrow> ('h, 't) cstream \<Rightarrow> nat option" where
  "message_seq n s = (if n < length (raw s) then Some (seq (raw s ! n)) else None)"

definition message_headers :: "nat \<Rightarrow> ('h, 't) cstream \<Rightarrow> 'h option" where
  "message_headers n s = (if n < length (raw s) then headers (raw s ! n) else None)"

definition message_time :: "nat \<Rightarrow> ('h, 't) cstream \<Rightarrow> rat option" where
  "message_time n s = (if n < length (raw s) then Some (timestamp (raw s ! n)) else None)"

definition message_times :: "('h, 't) cstream \<Rightarrow> rat option list" where
  "message_times s = map (\<lambda>i. message_time i s) [0 ..< length (messages s)]"

definition getKv :: "string \<Rightarrow> ('h, 't) cstream \<Rightarrow> 't option" where
  "getKv k s = map_option fst (obj_get (kv s) k)"

definition hasKv :: "string \<Rightarrow> ('h, 't) cstream \<Rightarrow> bool" where
  "hasKv k s \<longleftrightarrow> obj_get (kv s) k \<noteq> None"

definition getAllKv :: "('h, 't) cstream \<Rightarrow> (string, 't) obj" where
  "getAllKv s = map (\<lambda>(k, (m, _)). (k, m)) (kv s)"

definition keysKv :: "('h, 't) cstream \<Rightarrow> string list" where
  "keysKv s = keys (kv s)"

definition seqKv :: "string \<Rightarrow> ('h, 't) cstream \<Rightarrow> nat option" where
  "seqKv k s = map_option (\<lambda>(_, r). seq r) (obj_get (kv s) k)"

definition timeKv :: "string \<Rightarrow> ('h, 't) cstream \<Rightarrow> rat option" where
  "timeKv k s = map_option (\<lambda>(_, r). timestamp r) (obj_get (kv s) k)"

definition headersKv :: "string \<Rightarrow> ('h, 't) cstream \<Rightarrow> 'h option" where
  "headersKv k s = Option.bind (obj_get (kv s) k) (\<lambda>(_, r). headers r)"

definition stream_stats :: "nat \<Rightarrow> ('h, 't) cstream \<Rightarrow> (nat \<times> nat) option" where
  "stream_stats start_seq s =
     (if is_closed s then None
      else (let rs = filter (\<lambda>r. \<not> seq r < start_seq) (raw s) in
        Some (length rs, sum_list (map (\<lambda>r. length (data r)) rs))))"

section \<open>Removing by index is filtering\<close>

lemma foldr_splice_Suc: "foldr (\<lambda>i ys. splice_out i 1 ys) (map Suc A) (x # xs) = x # foldr (\<lambda>i ys. splice_out i 1 ys) A xs"
  by (induction A) (simp_all add: splice_out_def)

lemma foldr_splice:
  "length ys = length xs \<Longrightarrow> foldr (\<lambda>i zs. splice_out i 1 zs) (filter (\<lambda>i. Q (ys ! i)) [0 ..< length ys]) xs =
     map snd (filter (\<lambda>(y, x). \<not> Q y) (zip ys xs))"
proof (induction ys xs rule: list_induct2)
  case (Cons y ys x xs)
  have "[0 ..< length (y # ys)] = 0 # map Suc [0 ..< length ys]" by (simp add: upt_conv_Cons map_Suc_upt del: upt_Suc)
  then have "filter (\<lambda>i. Q ((y # ys) ! i)) [0 ..< length (y # ys)] =
      (if Q y then [0] else []) @ map Suc (filter (\<lambda>i. Q (ys ! i)) [0 ..< length ys])"
    by (simp add: filter_map comp_def)
  moreover have "splice_out 0 1 (x # zs) = zs" for zs by (simp add: splice_out_def)
  ultimately show ?case using Cons.IH by (simp add: foldr_splice_Suc [unfolded One_nat_def] del: upt_Suc)
qed simp

lemma splice_contiguous: "splice_out h n xs = foldr (\<lambda>i zs. splice_out i 1 zs) [h ..< h + n] xs"
proof (induction n arbitrary: h)
  case (Suc n)
  have "[h ..< h + Suc n] = h # [Suc h ..< Suc h + n]" by (simp add: upt_conv_Cons)
  moreover have "splice_out h 1 (splice_out (Suc h) n xs) = splice_out h (Suc n) xs"
    by (auto simp: splice_out_def min_def)
  ultimately show ?case using Suc [of "Suc h"] by simp
qed (simp add: splice_out_def)

lemma remove_indexes_foldr: "remove_indexes idx xs = foldr (\<lambda>i ys. splice_out i 1 ys) idx xs"
proof (cases "length idx > 1 \<and> (\<forall>i < length idx. idx ! i = hd idx + i)")
  case True
  then have "idx = [hd idx ..< hd idx + length idx]" by (intro nth_equalityI) auto
  with True splice_contiguous [of "hd idx" "length idx" xs] show ?thesis by (simp add: remove_indexes_def)
qed (auto simp: remove_indexes_def)

lemma remove_indexes_filter:
  "length ys = length xs \<Longrightarrow> remove_indexes (filter (\<lambda>i. Q (ys ! i)) [0 ..< length ys]) xs =
     map snd (filter (\<lambda>(y, x). \<not> Q y) (zip ys xs))"
  unfolding remove_indexes_foldr by (rule foldr_splice)

lemma remove_indexes_self:
  "remove_indexes (filter (\<lambda>i. Q (ys ! i)) [0 ..< length ys]) ys = filter (\<lambda>y. \<not> Q y) ys"
proof -
  have "map snd (filter (\<lambda>(y, x). \<not> Q y) (zip ys ys)) = filter (\<lambda>y. \<not> Q y) ys" by (induction ys) auto
  then show ?thesis by (simp add: remove_indexes_filter)
qed

lemma set_deleted_keys:
  "distinct (keys kvs) \<Longrightarrow> k \<in> set (keys (deleted_keys seqs kvs)) \<longleftrightarrow>
     (\<exists>v r. obj_get kvs k = Some (v, r) \<and> seq r \<in> set seqs)"
  by (force simp: deleted_keys_def)

lemma obj_get_filter_keys: "obj_get (filter (\<lambda>(k, _). P k) kvs) k = (if P k then obj_get kvs k else None)"
  by (induction kvs) auto

definition pairs :: "('h, 't) cstream \<Rightarrow> ('h raw_msg \<times> 't option) list" where
  "pairs s = zip (raw s) (messages s)"

lemma delete_spec:
  fixes s :: "('h, 't) cstream" and seqs :: "nat list" and noEmit :: bool
  assumes "\<not> is_closed s" and "length (messages s) = length (raw s)" and "distinct (keys (kv s))"
  defines "s' \<equiv> processPersistentDelete seqs noEmit s"
  shows "raw s' = filter (\<lambda>r. seq r \<notin> set seqs) (raw s)" and "length (messages s') = length (raw s')"
    and "pairs s' = filter (\<lambda>(r, _). seq r \<notin> set seqs) (pairs s)"
    and "obj_get (kv s') k = (case obj_get (kv s) k of None \<Rightarrow> None
      | Some (v, r) \<Rightarrow> if seq r \<in> set seqs then None else Some (v, r))"
    and "distinct (keys (kv s'))" and "\<not> is_closed s'"
proof -
  have l: "length (raw s) = length (messages s)" using assms(2) by simp
  have r: "raw s' = filter (\<lambda>r. seq r \<notin> set seqs) (raw s)"
    using assms(1) remove_indexes_self [of "\<lambda>r. seq r \<in> set seqs" "raw s"]
    by (simp add: s'_def processPersistentDelete_def Let_def)
  have m: "messages s' = map snd (filter (\<lambda>(y, x). \<not> seq y \<in> set seqs) (zip (raw s) (messages s)))"
    using assms(1) remove_indexes_filter [OF l, of "\<lambda>r. seq r \<in> set seqs"]
    by (simp add: s'_def processPersistentDelete_def Let_def)
  have e: "map fst (filter (\<lambda>(y, x). \<not> seq y \<in> set seqs) (zip xs ys)) = filter (\<lambda>r. seq r \<notin> set seqs) xs"
    if "length xs = length ys" for xs :: "'h raw_msg list" and ys :: "'t option list"
    using that by (induction xs ys rule: list_induct2) auto
  show "raw s' = filter (\<lambda>r. seq r \<notin> set seqs) (raw s)" by (rule r)
  show "length (messages s') = length (raw s')" unfolding r m using e [OF l] by (metis length_map)
  show "pairs s' = filter (\<lambda>(r, _). seq r \<notin> set seqs) (pairs s)"
    unfolding pairs_def r m e [OF l, symmetric] by (simp add: zip_map_fst_snd)
  have kv: "kv s' = filter (\<lambda>(k, _). k \<notin> set (keys (deleted_keys seqs (kv s)))) (kv s)"
    using assms(1) by (simp add: s'_def processPersistentDelete_def Let_def)
  show "obj_get (kv s') k = (case obj_get (kv s) k of None \<Rightarrow> None
      | Some (v, r) \<Rightarrow> if seq r \<in> set seqs then None else Some (v, r))"
    unfolding kv obj_get_filter_keys set_deleted_keys [OF assms(3)] by (auto split: option.split)
  show "distinct (keys (kv s'))" unfolding kv using assms(3) by (rule distinct_map_filter)
  show "\<not> is_closed s'" using assms(1) by (simp add: s'_def processPersistentDelete_def Let_def)
qed

section \<open>Garbage collection keeps what is current\<close>

definition gc_rel :: "(string \<Rightarrow> ('t \<times> 'h raw_msg) option) \<Rightarrow> 'h raw_msg \<times> 't option \<Rightarrow> 'h raw_msg \<times> 't option \<Rightarrow> bool" where
  "gc_rel kvs p p' \<longleftrightarrow> p' = p \<or>
     (\<exists>k v w. key (fst p) = Some k \<and> kvs k = Some (v, w) \<and> w \<noteq> fst p \<and>
        seq (fst p') = seq (fst p) \<and> key (fst p') = key (fst p))"

lemma gc_rel_refl [simp]: "gc_rel kvs p p"
  by (simp add: gc_rel_def)

lemma gc_rel_refls [simp]: "list_all2 (gc_rel kvs) xs xs"
  by (intro list.rel_refl) simp

lemma gc_loop_spec:
  "gc_loop kvs rs ms n = (ok, rs', ms', n') \<Longrightarrow> length rs = length ms \<Longrightarrow>
     length rs' = length ms' \<and> list_all2 (gc_rel (obj_get kvs)) (zip rs ms) (zip rs' ms')"
proof (induction kvs rs ms n arbitrary: ok rs' ms' n' rule: gc_loop.induct)
  case (1 kvs r rs m ms n)
  show ?case
  proof (cases "key r = None \<or> data r = []")
    case True
    with 1 show ?thesis by (auto split: prod.splits option.splits)
  next
    case False
    then obtain k where k: "key r = Some k" "data r \<noteq> []" by auto
    show ?thesis
    proof (cases "obj_get kvs k")
      case None
      with 1(5,6) k show ?thesis by auto
    next
      case (Some vw)
      with 1 k show ?thesis
        by (cases vw; cases "oid r = oid (snd vw)") (auto simp: gc_rel_def split: prod.splits)
    qed
  qed
qed auto

lemma gc_loop_throws:
  "length rs = length ms \<Longrightarrow> r \<in> set rs \<Longrightarrow> key r = Some k \<Longrightarrow> data r \<noteq> [] \<Longrightarrow> obj_get kvs k = None \<Longrightarrow>
     \<not> fst (gc_loop kvs rs ms n)"
proof (induction rs ms arbitrary: n rule: list_induct2)
  case (Cons r' rs m ms)
  have step: "fst (gc_loop kvs (r' # rs) (m # ms) n) \<Longrightarrow>
      \<not> (key r' = Some k \<and> data r' \<noteq> []) \<and> (fst (gc_loop kvs rs ms n) \<or> fst (gc_loop kvs rs ms (n + 1)))"
    using Cons.prems(4) by (auto split: option.splits if_splits prod.splits)
  show ?case
  proof
    assume "fst (gc_loop kvs (r' # rs) (m # ms) n)"
    from step [OF this] Cons.prems show False
      using Cons.IH [of n] Cons.IH [of "n + 1"] by auto
  qed
qed simp

section \<open>Tracking the server\<close>

text \<open>
  \<open>tracked\<close> relates the pairs of raw and decoded messages and the key:value map of a client to
  the messages \<open>ms\<close> that the server has. What the client keeps beyond them has a key (it is
  an old tombstone); what is current is there, decoded; the map is exactly the live messages
  with a key.
\<close>

definition live :: "('h \<Rightarrow> bool) \<Rightarrow> 'h stored_message \<Rightarrow> bool" where
  "live tombstone m \<longleftrightarrow> (case m_headers m of None \<Rightarrow> True | Some h \<Rightarrow> \<not> tombstone h)"

definition entry_of :: "(nat \<Rightarrow> bytes \<Rightarrow> 't option) \<Rightarrow> 'h raw_msg \<times> 't option \<Rightarrow> 'h stored_message \<Rightarrow> bool" where
  "entry_of decode p m \<longleftrightarrow> (\<exists>n. fst p = the_raw n m) \<and> snd p \<noteq> None \<and> snd p = decode (m_encoding m) (m_raw m)"

definition current :: "'h stored_message list \<Rightarrow> 'h raw_msg \<times> 't option \<Rightarrow> bool" where
  "current ms p \<longleftrightarrow> seq (fst p) \<in> m_seq ` set ms"

definition tracked :: "(nat \<Rightarrow> bytes \<Rightarrow> 't option) \<Rightarrow> ('h \<Rightarrow> bool) \<Rightarrow> nat \<Rightarrow> ('h raw_msg \<times> 't option) list \<Rightarrow>
    (string \<Rightarrow> ('t \<times> 'h raw_msg) option) \<Rightarrow> 'h stored_message list \<Rightarrow> bool" where
  "tracked decode tombstone q P kvs ms \<longleftrightarrow>
     sorted_wrt (<) (map (\<lambda>p. seq (fst p)) P) \<and> (\<forall>p \<in> set P. seq (fst p) \<le> q) \<and>
     list_all2 (entry_of decode) (filter (current ms) P) ms \<and>
     (\<forall>p \<in> set P. \<not> current ms p \<longrightarrow> key (fst p) \<noteq> None) \<and>
     (\<forall>m \<in> set ms. \<forall>m' \<in> set ms. m_key m \<noteq> None \<and> m_key m = m_key m' \<longrightarrow> m = m') \<and>
     (\<forall>k v r. kvs k = Some (v, r) \<longleftrightarrow> (r, Some v) \<in> set P \<and>
        (\<exists>m \<in> set ms. m_seq m = seq r \<and> m_key m = Some k \<and> live tombstone m))"

lemma entry_of_fields: "entry_of decode p m \<Longrightarrow> seq (fst p) = m_seq m \<and> key (fst p) = m_key m"
  by (auto simp: entry_of_def the_raw_def)

lemma list_all2_filter2:
  assumes "list_all2 R xs ys" and "\<And>x y. x \<in> set xs \<Longrightarrow> y \<in> set ys \<Longrightarrow> R x y \<Longrightarrow> P x = Q y"
  shows "list_all2 R (filter P xs) (filter Q ys)"
  using assms by (induction rule: list_all2_induct) (auto simp: list.rel_intros)

lemma list_all2_map_eq: "list_all2 R xs ys \<Longrightarrow> (\<And>x y. R x y \<Longrightarrow> f y = f x) \<Longrightarrow> map f ys = map f xs"
  by (induction rule: list_all2_induct) auto

lemma list_all2_memE: "list_all2 R xs ys \<Longrightarrow> x \<in> set xs \<Longrightarrow> (\<And>y. y \<in> set ys \<Longrightarrow> R x y \<Longrightarrow> thesis) \<Longrightarrow> thesis"
  by (induction rule: list_all2_induct) auto

lemma tracked_entry:
  assumes "tracked decode tombstone q P kvs ms" and "p \<in> set P" and "current ms p"
  obtains m where "m \<in> set ms" "entry_of decode p m"
  using assms by (auto simp: tracked_def elim!: list_all2_memE [of _ _ _ p])

lemma sorted_seq_inj:
  assumes "sorted_wrt (<) (map (f :: 'a \<Rightarrow> nat) xs)" and "x \<in> set xs" and "y \<in> set xs" and "f x = f y"
  shows "x = y"
  using assms by (metis distinct_map inj_onD strict_sorted_iff)

lemma tracked_seq_inj:
  assumes "tracked decode tombstone q P kvs ms" and "m \<in> set ms" and "m' \<in> set ms" and "m_seq m = m_seq m'"
  shows "m = m'"
proof -
  have "map (\<lambda>p. seq (fst p)) (filter (current ms) P) = map m_seq ms"
    using assms(1) by (auto simp: tracked_def list_all2_conv_all_nth entry_of_fields intro!: nth_equalityI)
  moreover have "sorted_wrt (<) (map (\<lambda>p. seq (fst p)) (filter (current ms) P))"
    using assms(1) by (simp add: tracked_def sorted_wrt_map sorted_wrt_filter)
  ultimately show ?thesis using sorted_seq_inj assms(2-4) by metis
qed

lemma tracked_delete:
  fixes P :: "('h raw_msg \<times> 't option) list"
  assumes t: "tracked decode tombstone q P kvs ms"
    and kvs': "\<And>k. kvs' k = (case kvs k of None \<Rightarrow> None
      | Some (v, r) \<Rightarrow> if seq r \<in> X then None else Some (v, r))"
  shows "tracked decode tombstone q (filter (\<lambda>(r, _). seq r \<notin> X) P) kvs' (filter (\<lambda>m. m_seq m \<notin> X) ms)"
proof -
  let ?P = "filter (\<lambda>(r, _). seq r \<notin> X) P" and ?ms = "filter (\<lambda>m. m_seq m \<notin> X) ms"
  have cur: "current ?ms p \<longleftrightarrow> current ms p \<and> seq (fst p) \<notin> X" for p :: "'h raw_msg \<times> 't option"
    by (auto simp: current_def)
  have "filter (current ?ms) ?P = filter (\<lambda>p. seq (fst p) \<notin> X) (filter (current ms) P)"
    by (auto simp: cur intro!: filter_cong)
  moreover have "list_all2 (entry_of decode) (filter (current ms) P) ms" using t by (simp add: tracked_def)
  then have "list_all2 (entry_of decode) (filter (\<lambda>p. seq (fst p) \<notin> X) (filter (current ms) P)) ?ms"
    by (rule list_all2_filter2) (metis entry_of_fields)
  ultimately have "list_all2 (entry_of decode) (filter (current ?ms) ?P) ?ms" by simp
  moreover have "sorted_wrt (<) (map (\<lambda>p. seq (fst p)) ?P)"
    using t by (simp add: tracked_def sorted_wrt_map sorted_wrt_filter)
  moreover have "kvs' k = Some (v, r) \<longleftrightarrow> (r, Some v) \<in> set ?P \<and>
        (\<exists>m \<in> set ?ms. m_seq m = seq r \<and> m_key m = Some k \<and> live tombstone m)" for k v r
  proof -
    have "kvs k = Some (v, r) \<longleftrightarrow> (r, Some v) \<in> set P \<and>
        (\<exists>m \<in> set ms. m_seq m = seq r \<and> m_key m = Some k \<and> live tombstone m)"
      using t by (simp add: tracked_def)
    then show ?thesis unfolding kvs' by (auto split: option.splits if_splits)
  qed
  moreover have "\<forall>p \<in> set ?P. seq (fst p) \<le> q \<and> (\<not> current ?ms p \<longrightarrow> key (fst p) \<noteq> None)"
    using t by (auto simp: tracked_def cur)
  moreover have "\<forall>m \<in> set ?ms. \<forall>m' \<in> set ?ms. m_key m \<noteq> None \<and> m_key m = m_key m' \<longrightarrow> m = m'"
    using t unfolding tracked_def by (metis filter_is_subset subsetD)
  ultimately show ?thesis unfolding tracked_def by blast
qed

text \<open>
  A new message: it is appended, the map is updated, garbage collection may blank what is not
  current (\<open>P2\<close>), and the entry of the previous value of its key is removed.
\<close>

lemma tracked_set:
  fixes P :: "('h raw_msg \<times> 't option) list"
  assumes t: "tracked decode tombstone q P kvs ms" and q: "q < m_seq m"
    and d: "decode (m_encoding m) (m_raw m) = Some mesg" and r: "r = the_raw n m"
    and kv1: "kv1 = (case m_key m of None \<Rightarrow> kvs
      | Some k \<Rightarrow> kvs(k := if live tombstone m then Some (mesg, r) else None))"
    and gc: "list_all2 (gc_rel kv1) (P @ [(r, Some mesg)]) P2"
    and old: "old = Option.bind (m_key m) kvs"
    and P3: "P3 = (case old of None \<Rightarrow> P2 | Some (_, r') \<Rightarrow> filter (\<lambda>(x, _). seq x \<notin> {seq r'}) P2)"
    and kv3: "\<And>k. kv3 k = (case old of None \<Rightarrow> kv1 k | Some (_, r') \<Rightarrow>
      (case kv1 k of None \<Rightarrow> None | Some (v, x) \<Rightarrow> if seq x \<in> {seq r'} then None else Some (v, x)))"
  shows "tracked decode tombstone (m_seq m) P3 kv3
    (filter (\<lambda>x. m_key m = None \<or> m_key x \<noteq> m_key m) ms @ [m])"
proof -
  let ?keep = "\<lambda>x. m_key m = None \<or> m_key x \<noteq> m_key m"
  let ?ms = "filter ?keep ms @ [m]"
  let ?P1 = "P @ [(r, Some mesg)]"
  have inj: "x = y" if "x \<in> set ms" "y \<in> set ms" "m_seq x = m_seq y" for x y
    using tracked_seq_inj [OF t that] .
  have kvs: "kvs k = Some (v, w) \<longleftrightarrow> (w, Some v) \<in> set P \<and>
      (\<exists>x \<in> set ms. m_seq x = seq w \<and> m_key x = Some k \<and> live tombstone x)" for k v w
    using t by (simp add: tracked_def)
  have sP: "sorted_wrt (<) (map (\<lambda>p. seq (fst p)) P)" and le: "\<And>p. p \<in> set P \<Longrightarrow> seq (fst p) \<le> q"
    and uk: "\<And>x y k. x \<in> set ms \<Longrightarrow> y \<in> set ms \<Longrightarrow> m_key x = Some k \<Longrightarrow> m_key y = Some k \<Longrightarrow> x = y"
    and stale: "\<And>p. p \<in> set P \<Longrightarrow> \<not> current ms p \<Longrightarrow> key (fst p) \<noteq> None"
    using t by (auto simp: tracked_def)
  have rq: "seq r = m_seq m" "key r = m_key m" by (simp_all add: r the_raw_def)
  have msq: "m_seq x \<le> q" if "x \<in> set ms" for x
  proof -
    from t have "list_all2 (entry_of decode) (filter (current ms) P) ms" by (simp add: tracked_def)
    then have "list_all2 (\<lambda>x p. entry_of decode p x) ms (filter (current ms) P)"
      by (simp add: list_all2_conv_all_nth)
    from this that obtain p where "p \<in> set P" "entry_of decode p x" by (auto elim!: list_all2_memE)
    with le entry_of_fields show ?thesis by metis
  qed
  have cur1: "current ?ms p \<longleftrightarrow> p = (r, Some mesg) \<or> (current ms p \<and> (\<exists>x \<in> set ms. ?keep x \<and> m_seq x = seq (fst p)))"
    if "p \<in> set ?P1" for p
  proof (cases "p = (r, Some mesg)")
    case True
    then show ?thesis by (simp add: current_def rq)
  next
    case False
    with that le q have "seq (fst p) \<noteq> m_seq m" by fastforce
    with False show ?thesis unfolding current_def by (auto simp: image_iff)
  qed
  have kv1_live: "kv1 k = Some (v, w) \<longleftrightarrow>
      (if m_key m = Some k then live tombstone m \<and> v = mesg \<and> w = r else kvs k = Some (v, w))" for k v w
    by (auto simp: kv1 split: option.splits)
  have same: "p' = p" if a: "p \<in> set ?P1" and b: "gc_rel kv1 p p'" and c: "current ?ms p" for p p'
  proof (rule ccontr)
    assume "p' \<noteq> p"
    then obtain k v w where k: "key (fst p) = Some k" "kv1 k = Some (v, w)" "w \<noteq> fst p"
      using b by (auto simp: gc_rel_def)
    show False
    proof (cases "p = (r, Some mesg)")
      case True
      with k rq kv1_live show False by auto
    next
      case False
      then obtain x where x: "x \<in> set ms" "?keep x" "m_seq x = seq (fst p)" and "p \<in> set P" "current ms p"
        using a c cur1 [OF a] by auto
      then obtain y where "y \<in> set ms" "entry_of decode p y" using tracked_entry [OF t] by blast
      with x inj entry_of_fields have "entry_of decode p x" by metis
      then have "m_key x = Some k" using k(1) entry_of_fields by metis
      with k(2) x(2) have "kvs k = Some (v, w)" by (auto simp: kv1_live split: if_splits)
      with kvs obtain z where "(w, Some v) \<in> set P" "z \<in> set ms" "m_seq z = seq w" "m_key z = Some k" by auto
      with uk [OF x(1) _ \<open>m_key x = Some k\<close>] x(3) have "(w, Some v) \<in> set P" "seq w = seq (fst p)" by auto
      with sorted_seq_inj [OF sP _ \<open>p \<in> set P\<close>, of "(w, Some v)"] k(3) show False by auto
    qed
  qed
  have gcf: "seq (fst p') = seq (fst p) \<and> key (fst p') = key (fst p)" if "gc_rel kv1 p p'" for p p'
    using that by (auto simp: gc_rel_def)
  have F: "filter (current ?ms) P2 = filter (current ?ms) ?P1"
  proof -
    have "list_all2 (gc_rel kv1) (filter (current ?ms) ?P1) (filter (current ?ms) P2)"
      using gc by (rule list_all2_filter2) (simp add: current_def gcf)
    then have "list_all2 (=) (filter (current ?ms) ?P1) (filter (current ?ms) P2)"
    proof (rule list.rel_mono_strong)
      fix p p' assume "p \<in> set (filter (current ?ms) ?P1)" and g: "gc_rel kv1 p p'"
      then have "p \<in> set ?P1" "current ?ms p" unfolding set_filter by blast+
      from same [OF this(1) g this(2)] show "p = p'" by (rule sym)
    qed
    then show ?thesis by (simp add: list.rel_eq)
  qed
  have oldseq: "seq r' \<notin> m_seq ` set ?ms \<and> seq r' \<noteq> seq r" if "old = Some (v, r')" for v r'
  proof -
    from that old obtain k where k: "m_key m = Some k" "kvs k = Some (v, r')" by (auto split: bind_splits)
    with kvs obtain x where x: "(r', Some v) \<in> set P" "x \<in> set ms" "m_seq x = seq r'" "m_key x = Some k" by auto
    then have "seq r' < m_seq m" using le q by fastforce
    moreover have "y = x" if "y \<in> set ms" "m_seq y = seq r'" for y using inj [OF that(1) x(2)] that(2) x(3) by simp
    then have "seq r' \<notin> m_seq ` set (filter ?keep ms)" using x(4) k(1) by auto
    ultimately show ?thesis using rq by auto
  qed
  have G: "filter (current ?ms) P3 = filter (current ?ms) ?P1"
  proof (cases old)
    case (Some vr)
    then obtain v r' where o: "old = Some (v, r')" by (cases vr) auto
    then have "filter (current ?ms) P3 = filter (current ?ms) P2"
      using oldseq [OF o] by (auto simp: P3 current_def intro!: filter_cong)
    with F show ?thesis by simp
  qed (use F P3 in simp)
  have cset: "p \<in> set P3 \<longleftrightarrow> p \<in> set ?P1" if "current ?ms p" for p
  proof -
    have "p \<in> set (filter (current ?ms) P3) \<longleftrightarrow> p \<in> set (filter (current ?ms) ?P1)" by (simp only: G)
    with that show ?thesis unfolding set_filter by blast
  qed
  have "seq (fst p) \<le> m_seq m \<and> (\<not> current ?ms p \<longrightarrow> key (fst p) \<noteq> None)" if "p \<in> set P3" for p
  proof -
    from that have "p \<in> set P2" by (auto simp: P3 split: option.splits)
    have "list_all2 (\<lambda>b a. gc_rel kv1 a b) P2 ?P1" using gc unfolding list_all2_conv_all_nth by simp
    then obtain p1 where p1: "p1 \<in> set ?P1" "gc_rel kv1 p1 p"
      using \<open>p \<in> set P2\<close> by (rule list_all2_memE)
    have c: "current ?ms p \<longleftrightarrow> current ?ms p1" using gcf [OF p1(2)] by (simp add: current_def)
    have "key (fst p1) \<noteq> None" if nc: "\<not> current ?ms p1"
    proof (cases "current ms p1")
      case False
      moreover have "p1 \<in> set P" using p1(1) nc cur1 by auto
      ultimately show ?thesis using stale by blast
    next
      case True
      have "p1 \<in> set P" using p1(1) nc cur1 by auto
      with True obtain x where "x \<in> set ms" "entry_of decode p1 x" using tracked_entry [OF t] by blast
      have "m_seq x = seq (fst p1)" using entry_of_fields [OF \<open>entry_of decode p1 x\<close>] by simp
      with nc cur1 [OF p1(1)] True \<open>x \<in> set ms\<close> have "m_key m \<noteq> None \<and> m_key x = m_key m" by metis
      with entry_of_fields [OF \<open>entry_of decode p1 x\<close>] show ?thesis by simp
    qed
    moreover have "seq (fst p1) \<le> m_seq m" using p1(1) le q rq by fastforce
    ultimately show ?thesis using c gcf [OF p1(2)] by auto
  qed
  moreover have "sorted_wrt (<) (map (\<lambda>p. seq (fst p)) P3)"
  proof -
    have "map (\<lambda>p. seq (fst p)) P2 = map (\<lambda>p. seq (fst p)) ?P1"
      using gc by (rule list_all2_map_eq) (simp add: gcf)
    moreover have "sorted_wrt (<) (map (\<lambda>p. seq (fst p)) ?P1)"
      using sP le q rq by (auto simp: sorted_wrt_append less_le_trans) (metis le_less_trans fst_conv)
    ultimately have "sorted_wrt (<) (map (\<lambda>p. seq (fst p)) P2)" by simp
    then show ?thesis by (auto simp: P3 sorted_wrt_map sorted_wrt_filter split: option.split)
  qed
  moreover have "list_all2 (entry_of decode) (filter (current ?ms) P3) ?ms"
  proof -
    have "filter (current ?ms) P = filter (\<lambda>p. \<exists>x \<in> set ms. ?keep x \<and> m_seq x = seq (fst p)) (filter (current ms) P)"
    proof -
      have "(r, Some mesg) \<notin> set P" using le q rq by fastforce
      then show ?thesis using cur1 by (auto intro!: filter_cong)
    qed
    moreover have "list_all2 (entry_of decode) (filter (current ms) P) ms" using t by (simp add: tracked_def)
    then have "list_all2 (entry_of decode)
        (filter (\<lambda>p. \<exists>x \<in> set ms. ?keep x \<and> m_seq x = seq (fst p)) (filter (current ms) P)) (filter ?keep ms)"
      by (rule list_all2_filter2) (metis entry_of_fields inj)
    moreover have "entry_of decode (r, Some mesg) m" using d r by (auto simp: entry_of_def)
    moreover have "current ?ms (r, Some mesg)" by (simp add: current_def rq)
    ultimately show ?thesis unfolding G by (simp add: list_all2_appendI)
  qed
  moreover have "\<forall>x \<in> set ?ms. \<forall>y \<in> set ?ms. m_key x \<noteq> None \<and> m_key x = m_key y \<longrightarrow> x = y"
  proof (intro ballI impI)
    fix x y assume a: "x \<in> set ?ms" "y \<in> set ?ms" "m_key x \<noteq> None \<and> m_key x = m_key y"
    then obtain k where "m_key x = Some k" "m_key y = Some k" by (metis not_None_eq)
    with a(1,2) uk [of x y k] show "x = y" by auto
  qed
  moreover have "kv3 k = Some (v, w) \<longleftrightarrow> (w, Some v) \<in> set P3 \<and>
      (\<exists>x \<in> set ?ms. m_seq x = seq w \<and> m_key x = Some k \<and> live tombstone x)" for k v w
  proof -
    have "current ?ms (w, Some v)" if "x \<in> set ?ms" "m_seq x = seq w" for x
      using that unfolding current_def by (metis fst_conv image_eqI)
    then have "(w, Some v) \<in> set P3 \<and> (\<exists>x \<in> set ?ms. m_seq x = seq w \<and> m_key x = Some k \<and> live tombstone x) \<longleftrightarrow>
        (w, Some v) \<in> set ?P1 \<and> (\<exists>x \<in> set ?ms. m_seq x = seq w \<and> m_key x = Some k \<and> live tombstone x)"
      using cset [of "(w, Some v)"] by blast
    also have "\<dots> \<longleftrightarrow> kv1 k = Some (v, w)"
    proof (cases "m_key m = Some k")
      case True
      have "seq w \<noteq> m_seq m" if "(w, Some v) \<in> set P" using le [OF that] q by auto
      with True show ?thesis by (auto simp: kv1_live rq)
    next
      case False
      have "m_seq x \<noteq> m_seq m" if "x \<in> set ms" for x using msq [OF that] q by simp
      with False show ?thesis by (auto simp: kv1_live kvs rq)
    qed
    also have "\<dots> \<longleftrightarrow> kv3 k = Some (v, w)"
    proof (cases old)
      case (Some vr)
      then obtain v0 r0 where o: "old = Some (v0, r0)" by (cases vr) auto
      have "seq w \<noteq> seq r0" if "kv1 k = Some (v, w)"
      proof (cases "m_key m = Some k")
        case True
        then show ?thesis using that oldseq [OF o] by (auto simp: kv1_live)
      next
        case False
        with that obtain x where "x \<in> set ms" "m_seq x = seq w" "m_key x = Some k"
          by (auto simp: kv1_live kvs)
        with False oldseq [OF o] show ?thesis by force
      qed
      then show ?thesis unfolding kv3 o by (auto split: option.splits)
    qed (simp add: kv3)
    finally show ?thesis by blast
  qed
  ultimately show ?thesis unfolding tracked_def by blast
qed

definition tracks :: "(nat \<Rightarrow> bytes \<Rightarrow> 't option) \<Rightarrow> ('h \<Rightarrow> bool) \<Rightarrow> nat \<Rightarrow> ('h, 't) cstream \<Rightarrow>
    'h stored_message list \<Rightarrow> bool" where
  "tracks decode tombstone q s ms \<longleftrightarrow> \<not> is_closed s \<and> length (messages s) = length (raw s) \<and>
     distinct (keys (kv s)) \<and> tracked decode tombstone q (pairs s) (obj_get (kv s)) ms"

lemma tracks_new: "tracks decode tombstone 0 new_cstream []"
  by (simp add: tracks_def tracked_def new_cstream_def pairs_def)

lemma tracks_delete:
  assumes "tracks decode tombstone q s ms"
  shows "tracks decode tombstone q (processPersistentDelete seqs noEmit s) (filter (\<lambda>m. m_seq m \<notin> set seqs) ms)"
proof -
  have a: "\<not> is_closed s" "length (messages s) = length (raw s)" "distinct (keys (kv s))"
    and t: "tracked decode tombstone q (pairs s) (obj_get (kv s)) ms"
    using assms by (auto simp: tracks_def)
  note d = delete_spec [OF a, of seqs noEmit]
  show ?thesis unfolding tracks_def d(3) using d(2,5,6) tracked_delete [OF t d(4)] by blast
qed

lemma insert_raw_last:
  assumes "\<forall>r' \<in> set (raw s). seq r' < seq r" and "0 < seq r"
  shows "insert_raw r mesg s = s\<lparr>messages := messages s @ [Some mesg], raw := raw s @ [r]\<rparr>"
  using assms by (simp add: insert_raw_def)

text \<open>The update of the map and the garbage collection of one message.\<close>

lemma set_kv_spec:
  assumes "set_kv thresh (\<not> lv) k r mesg s = (True, s4)" and "length (messages s) = length (raw s)"
    and "distinct (keys (kv s))"
  shows "obj_get (kv s4) = (obj_get (kv s))(k := if lv then Some (mesg, r) else None)"
    and "distinct (keys (kv s4))" and "length (messages s4) = length (raw s4)" and "is_closed s4 = is_closed s"
    and "list_all2 (gc_rel (obj_get (kv s4))) (pairs s) (pairs s4)"
proof -
  let ?b = "case obj_get (kv s) k of None \<Rightarrow> kvChangeBytes s | Some (_, r') \<Rightarrow> kvChangeBytes s + length (data r')"
  let ?s' = "s\<lparr>kvChangeBytes := ?b, kv := obj_set k (mesg, r) (kv s), lastValueByKey := obj_set k mesg (lastValueByKey s)\<rparr>"
  have "obj_get (kv s4) = (obj_get (kv s))(k := if lv then Some (mesg, r) else None) \<and>
    distinct (keys (kv s4)) \<and> length (messages s4) = length (raw s4) \<and> is_closed s4 = is_closed s \<and>
    list_all2 (gc_rel (obj_get (kv s4))) (pairs s) (pairs s4)"
  proof (cases "lv \<and> ?b \<ge> thresh")
    case True
    then have g: "gcKv ?s' = (True, s4)" using assms(1) by (simp add: set_kv_def Let_def)
    obtain rs' ms' n' where l: "gc_loop (kv ?s') (raw ?s') (messages ?s') (next_oid ?s') = (True, rs', ms', n')"
      using g by (auto simp: gcKv_def split: prod.splits)
    from gc_loop_spec [OF l] assms(2)
    have "length rs' = length ms'" "list_all2 (gc_rel (obj_get (kv ?s'))) (zip (raw s) (messages s)) (zip rs' ms')"
      by simp_all
    moreover have "s4 = ?s'\<lparr>kvChangeBytes := 0, raw := rs', messages := ms', next_oid := n'\<rparr>"
      using g l by (simp add: gcKv_def)
    ultimately show ?thesis using True assms(3) by (auto simp: pairs_def obj_simps fun_upd_def)
  next
    case False
    then have "s4 = (if lv then ?s' else s\<lparr>kv := obj_del k (kv s), lastValueByKey := obj_del k (lastValueByKey s)\<rparr>)"
      using assms(1) by (auto simp: set_kv_def Let_def split: if_splits)
    then show ?thesis using assms(2,3) by (auto simp: pairs_def obj_simps fun_upd_def)
  qed
  then show "obj_get (kv s4) = (obj_get (kv s))(k := if lv then Some (mesg, r) else None)"
    "distinct (keys (kv s4))" "length (messages s4) = length (raw s4)" "is_closed s4 = is_closed s"
    "list_all2 (gc_rel (obj_get (kv s4))) (pairs s) (pairs s4)" by blast+
qed

lemma tracks_set:
  assumes tr: "tracks decode tombstone q s ms" and q: "q < m_seq m"
    and p: "processPersistentSet thresh decode tombstone m msgID noEmit noSeqCheck s = (None, s')"
  shows "tracks decode tombstone (m_seq m) s' (filter (\<lambda>x. m_key m = None \<or> m_key x \<noteq> m_key m) ms @ [m])"
proof -
  have a: "\<not> is_closed s" "length (messages s) = length (raw s)" "distinct (keys (kv s))"
    and t: "tracked decode tombstone q (pairs s) (obj_get (kv s)) ms"
    using tr by (auto simp: tracks_def)
  have raws: "\<forall>r \<in> set (raw s). seq r \<le> q"
  proof
    fix r assume "r \<in> set (raw s)"
    then have "r \<in> fst ` set (pairs s)" unfolding pairs_def by (metis a(2) map_fst_zip set_map)
    with t show "seq r \<le> q" by (auto simp: tracked_def)
  qed
  define s2 where "s2 = note_seq noSeqCheck (m_seq m) s"
  have s2: "raw s2 = raw s" "messages s2 = messages s" "kv s2 = kv s" "is_closed s2 = is_closed s"
    by (simp_all add: s2_def note_seq_def note_missing_def Let_def)
  obtain mesg where d: "decode (m_encoding m) (m_raw m) = Some mesg"
    using p a(1) by (cases "decode (m_encoding m) (m_raw m)") (auto simp: processPersistentSet_def Let_def)
  define r where "r = the_raw (next_oid s2) m"
  define s3 where "s3 = s2\<lparr>next_oid := next_oid s2 + 1, messages := messages s @ [Some mesg], raw := raw s @ [r]\<rparr>"
  have s3: "insert_raw r mesg (s2\<lparr>next_oid := next_oid s2 + 1\<rparr>) = s3"
    using raws q s2 by (subst insert_raw_last) (auto simp: r_def the_raw_def s3_def)
  have p3: "pairs s3 = pairs s @ [(r, Some mesg)]" "length (messages s3) = length (raw s3)"
    "kv s3 = kv s" "is_closed s3 = is_closed s"
    using a(2) s2 by (simp_all add: s3_def pairs_def)
  define old where "old = Option.bind (m_key m) (obj_get (kv s))"
  obtain s4 where set4: "(case m_key m of None \<Rightarrow> (True, s3)
      | Some k \<Rightarrow> set_kv thresh (\<not> live tombstone m) k r mesg s3) = (True, s4)"
    and s': "s' = (let s5 = (case old of None \<Rightarrow> s4 | Some (_, r') \<Rightarrow>
          if seq r' \<noteq> m_seq m then processPersistentDelete [seq r'] True s4 else s4) in
        if noEmit then s5\<lparr>lastSeq := max (lastSeq s5) (m_seq m)\<rparr>
        else emitChange (Change_set mesg r (m_key m) (case old of Some (v, _) \<Rightarrow> Some v
          | None \<Rightarrow> Option.bind (m_key m) (obj_get (lastValueByKey s3))) msgID)
            (s5\<lparr>lastSeq := max (lastSeq s5) (m_seq m)\<rparr>))"
  proof -
    have lv: "(\<not> live tombstone m) = (case m_headers m of None \<Rightarrow> False | Some h \<Rightarrow> tombstone h)"
      by (simp add: live_def split: option.split)
    have "finish_set thresh tombstone m mesg r msgID noEmit s3 = (None, s')"
      using p a(1) d s3 by (simp add: processPersistentSet_def Let_def r_def s2_def)
    moreover obtain ok x4 where e: "(case m_key m of None \<Rightarrow> (True, s3)
        | Some k \<Rightarrow> set_kv thresh (\<not> live tombstone m) k r mesg s3) = (ok, x4)" by fastforce
    ultimately show ?thesis
      unfolding finish_set_def p3(3) old_def [symmetric] lv [symmetric] e
      by (intro that [of x4, OF e [THEN trans]]) (simp_all add: Let_def split: if_splits)
  qed
  let ?kv1 = "case m_key m of None \<Rightarrow> obj_get (kv s)
      | Some k \<Rightarrow> (obj_get (kv s))(k := if live tombstone m then Some (mesg, r) else None)"
  have 4: "obj_get (kv s4) = ?kv1" "distinct (keys (kv s4))" "length (messages s4) = length (raw s4)"
    "\<not> is_closed s4" "list_all2 (gc_rel ?kv1) (pairs s @ [(r, Some mesg)]) (pairs s4)"
  proof -
    show "obj_get (kv s4) = ?kv1" "distinct (keys (kv s4))" "length (messages s4) = length (raw s4)"
      "\<not> is_closed s4" "list_all2 (gc_rel ?kv1) (pairs s @ [(r, Some mesg)]) (pairs s4)"
      using set4 set_kv_spec [of thresh "live tombstone m" _ r mesg s3 s4] a p3
      by (auto split: option.splits)
  qed
  define s5 where "s5 = (case old of None \<Rightarrow> s4 | Some (_, r') \<Rightarrow> processPersistentDelete [seq r'] True s4)"
  have neq: "seq r' \<noteq> m_seq m" if "old = Some (v, r')" for v r'
  proof -
    have "(r', Some v) \<in> set (pairs s)" using that t by (auto simp: old_def tracked_def split: bind_splits)
    then show ?thesis using t q by (auto simp: tracked_def)
  qed
  have 5: "length (messages s5) = length (raw s5)" "distinct (keys (kv s5))" "\<not> is_closed s5"
    "pairs s5 = (case old of None \<Rightarrow> pairs s4 | Some (_, r') \<Rightarrow> filter (\<lambda>(x, _). seq x \<notin> {seq r'}) (pairs s4))"
    "\<And>k. obj_get (kv s5) k = (case old of None \<Rightarrow> ?kv1 k | Some (_, r') \<Rightarrow>
      (case ?kv1 k of None \<Rightarrow> None | Some (v, x) \<Rightarrow> if seq x \<in> {seq r'} then None else Some (v, x)))"
    using 4 delete_spec [OF 4(4,3,2)] by (auto simp: s5_def split: option.split)
  have eq: "raw s' = raw s5" "messages s' = messages s5" "kv s' = kv s5" "is_closed s' = is_closed s5"
    using neq 5(3) by (auto simp: s' s5_def Let_def emitChange_def split: option.splits)
  have "tracked decode tombstone (m_seq m) (pairs s5) (obj_get (kv s5))
      (filter (\<lambda>x. m_key m = None \<or> m_key x \<noteq> m_key m) ms @ [m])"
    by (rule tracked_set [OF t q d r_def refl 4(5) old_def 5(4,5)])
  then show ?thesis using 5(1-3) by (simp add: tracks_def eq pairs_def)
qed

lemma fresh_Cons:
  "fresh_events q (SetOperation m i # es) \<longleftrightarrow> q < m_seq m \<and> fresh_events (m_seq m) es"
  "fresh_events q (DeleteOperation X # es) \<longleftrightarrow> fresh_events q es"
  by (auto simp: fresh_events_def)

lemma follow_Cons [simp]: "follow ms (e # es) = follow (apply_change e ms) es"
  by (simp add: follow_def)

lemma tracks_messages:
  assumes "tracks decode tombstone q s ms" and "fresh_events q es"
    and "processPersistentMessages thresh decode tombstone noEmit noSeqCheck es s = ([], s')"
  shows "\<exists>q'. tracks decode tombstone q' s' (follow ms es) \<and> (\<forall>es'. fresh_events q (es @ es') \<longrightarrow> fresh_events q' es')"
  using assms
proof (induction es arbitrary: s ms q)
  case Nil
  then show ?case by (auto simp: follow_def)
next
  case (Cons e es)
  obtain x s1 where 1: "processPersistentMessage thresh decode tombstone noEmit noSeqCheck e s = (x, s1)" by force
  obtain y s2 where 2: "processPersistentMessages thresh decode tombstone noEmit noSeqCheck es s1 = (y, s2)" by force
  have x: "x = None" "y = []" "s2 = s'" using Cons.prems(3) 1 2 by (auto split: option.splits)
  show ?case
  proof (cases e)
    case (SetOperation m i)
    have "tracks decode tombstone (m_seq m) s1 (apply_change e ms)"
      using tracks_set [OF Cons.prems(1), of m] 1 x(1) Cons.prems(2) by (simp add: SetOperation fresh_Cons)
    from Cons.IH [OF this] 2 x Cons.prems(2) SetOperation show ?thesis by (simp add: fresh_Cons)
  next
    case (DeleteOperation X)
    have "tracks decode tombstone q s1 (apply_change e ms)"
      using tracks_delete [OF Cons.prems(1), of X noEmit] 1 x(1) by (simp add: DeleteOperation)
    from Cons.IH [OF this] 2 x Cons.prems(2) DeleteOperation show ?thesis by (simp add: fresh_Cons)
  qed
qed

lemma tracks_getKv:
  assumes "tracks decode tombstone q s ms"
  shows "getKv k s = Some v \<longleftrightarrow>
    (\<exists>m \<in> set ms. m_key m = Some k \<and> live tombstone m \<and> decode (m_encoding m) (m_raw m) = Some v)"
proof -
  have t: "tracked decode tombstone q (pairs s) (obj_get (kv s)) ms" using assms by (simp add: tracks_def)
  have kv: "obj_get (kv s) k = Some (v, r) \<longleftrightarrow> (r, Some v) \<in> set (pairs s) \<and>
        (\<exists>m \<in> set ms. m_seq m = seq r \<and> m_key m = Some k \<and> live tombstone m)" for r v
    using t by (simp add: tracked_def)
  show ?thesis
  proof
    assume "getKv k s = Some v"
    then obtain r where "obj_get (kv s) k = Some (v, r)" by (auto simp: getKv_def)
    with kv obtain m where m: "(r, Some v) \<in> set (pairs s)" "m \<in> set ms" "m_seq m = seq r" "m_key m = Some k"
      "live tombstone m" by blast
    then have "current ms (r, Some v)" unfolding current_def by (metis fst_conv image_eqI)
    then obtain m' where "m' \<in> set ms" "entry_of decode (r, Some v) m'" using tracked_entry [OF t m(1)] by blast
    with m tracked_seq_inj [OF t] entry_of_fields
    have "entry_of decode (r, Some v) m" by (metis fst_conv)
    then show "\<exists>m \<in> set ms. m_key m = Some k \<and> live tombstone m \<and> decode (m_encoding m) (m_raw m) = Some v"
      using m by (auto simp: entry_of_def)
  next
    assume "\<exists>m \<in> set ms. m_key m = Some k \<and> live tombstone m \<and> decode (m_encoding m) (m_raw m) = Some v"
    then obtain m where m: "m \<in> set ms" "m_key m = Some k" "live tombstone m" "decode (m_encoding m) (m_raw m) = Some v"
      by blast
    have "list_all2 (\<lambda>x p. entry_of decode p x) ms (filter (current ms) (pairs s))"
      using t by (simp add: tracked_def list_all2_conv_all_nth)
    from this m(1) obtain p where "p \<in> set (pairs s)" "entry_of decode p m" by (auto elim!: list_all2_memE)
    moreover have "snd p = Some v" using m(4) \<open>entry_of decode p m\<close> by (simp add: entry_of_def)
    ultimately have "(fst p, Some v) \<in> set (pairs s)" "seq (fst p) = m_seq m"
      using entry_of_fields [of decode p m] by (metis prod.collapse, simp)
    with kv m have "obj_get (kv s) k = Some (v, fst p)" by metis
    then show "getKv k s = Some v" by (simp add: getKv_def)
  qed
qed

section \<open>Joining a stream\<close>

lemma map_filter_append: "List.map_filter f (xs @ ys) = List.map_filter f xs @ List.map_filter f ys"
  by (simp add: List.map_filter_def)

lemma option_extI: "(\<And>v. a = Some v \<longleftrightarrow> b = Some v) \<Longrightarrow> a = b"
  by (cases a; cases b) auto

lemma follow_load:
  "distinct (List.map_filter m_key (ms @ xs)) \<Longrightarrow> follow ms (map (\<lambda>m. SetOperation m None) xs) = ms @ xs"
proof (induction xs arbitrary: ms)
  case (Cons x xs)
  have "filter (\<lambda>y. m_key x = None \<or> m_key y \<noteq> m_key x) ms = ms"
    using Cons.prems by (auto simp: filter_id_conv map_filter_append List.map_filter_simps set_map_filter split: option.splits)
  with Cons.IH [of "ms @ [x]"] Cons.prems show ?case by simp
qed (simp add: follow_def)

lemma getAll_keys:
  assumes "list_all2 (shows_row c) rs ms"
  shows "map m_seq ms = map r_seq rs" and "List.map_filter m_key ms = List.map_filter r_key rs"
  using assms
proof (induction rule: list_all2_induct)
  case (Cons r rs m ms)
  note k = shows_row_keys [OF Cons.hyps(1)]
  { case 1 show ?case using k Cons.IH(1) by simp }
  { case 2 show ?case using k Cons.IH(2) by (cases "r_key r") (simp_all add: List.map_filter_simps) }
qed simp_all

lemma client_joins:
  assumes c: "codec_ok c" and ok: "table_ok s" "emitted s = []" and all: "getAll c None None s = Inr ms0"
    and init: "processPersistentMessages thresh decode tombstone True True (map (\<lambda>m. SetOperation m None) ms0) new_cstream = ([], cl0)"
    and feed: "processPersistentMessages thresh decode tombstone False False
      (emitted (foldl (exec_cmd c) s cmds)) cl0 = ([], cl)"
  shows "\<exists>q ms. tracks decode tombstone q cl ms \<and> list_all2 (shows_row c) (rows (foldl (exec_cmd c) s cmds)) ms"
proof -
  let ?s' = "foldl (exec_cmd c) s cmds"
  let ?es0 = "map (\<lambda>m. SetOperation m None) ms0"
  have rows: "list_all2 (shows_row c) (rows s) ms0" using all by (simp add: getAll_iff)
  have k: "map m_seq ms0 = map r_seq (rows s)" "List.map_filter m_key ms0 = storage_keys s"
    using getAll_keys [OF rows] by (simp_all add: storage_keys_def)
  have load: "follow [] ?es0 = ms0" using follow_load [of "[]" ms0] ok(1) k(2) by (simp add: table_ok_def)
  have "set_seqs ?es0 = map m_seq ms0" by (induction ms0) auto
  moreover have "fresh_events (autoincrement s) (emitted ?s')"
    by (rule fresh_run) (simp_all add: ok(2) fresh_events_def)
  ultimately have fresh: "fresh_events 0 (?es0 @ emitted ?s')"
    using ok(1) k(1) by (auto simp: fresh_events_def table_ok_def sorted_wrt_append) fastforce+
  then have "fresh_events 0 ?es0" by (auto simp: fresh_events_def sorted_wrt_append)
  from tracks_messages [OF tracks_new this init] fresh obtain q where
    "tracks decode tombstone q cl0 ms0" "fresh_events q (emitted ?s')" by (auto simp: load)
  from tracks_messages [OF this feed] obtain q' where "tracks decode tombstone q' cl (follow ms0 (emitted ?s'))"
    by blast
  moreover have "list_all2 (shows_row c) (rows ?s') (follow ms0 (emitted ?s'))"
    using storage_ok_run [OF c table_ok_getAll [OF ok all], of cmds] by (simp add: storage_ok_def)
  ultimately show ?thesis by blast
qed

text \<open>The value of a key on the server, as the client sees it.\<close>

definition server_value :: "'h codec \<Rightarrow> (nat \<Rightarrow> bytes \<Rightarrow> 't option) \<Rightarrow> ('h \<Rightarrow> bool) \<Rightarrow> 'h storage \<Rightarrow> string \<Rightarrow> 't option" where
  "server_value c decode tombstone s k =
     (case storage_get c None (Some k) s of
        Inr (Some m) \<Rightarrow> if live tombstone m then decode (m_encoding m) (m_raw m) else None
      | _ \<Rightarrow> None)"

lemma server_value_eq:
  assumes tr: "tracks decode tombstone q cl ms" and r: "list_all2 (shows_row c) (rows s) ms"
  shows "getKv k cl = server_value c decode tombstone s k"
proof (cases "find (\<lambda>r. r_key r = Some k) (rows s)")
  case None
  have "m_key m \<noteq> Some k" if "m \<in> set ms" for m
  proof -
    have "list_all2 (\<lambda>m r. shows_row c r m) ms (rows s)" using r by (simp add: list_all2_conv_all_nth)
    from this that obtain row where "row \<in> set (rows s)" "shows_row c row m" by (rule list_all2_memE)
    with None shows_row_keys show ?thesis by (metis (mono_tags) find_None_iff)
  qed
  then have "getKv k cl = None" using tracks_getKv [OF tr, of k] by (cases "getKv k cl") auto
  with None show ?thesis by (simp add: server_value_def storage_get_def dbToMessage_def)
next
  case (Some row)
  then have row: "row \<in> set (rows s)" "r_key row = Some k" by (auto simp: find_Some_iff)
  from r row(1) obtain m where m: "m \<in> set ms" "shows_row c row m" by (rule list_all2_memE)
  have mk: "m_key m = Some k" using shows_row_keys [OF m(2)] row(2) by simp
  have "storage_get c None (Some k) s = Inr (Some m)"
    using Some m(2) by (simp add: storage_get_def shows_row_def)
  moreover have "\<forall>m' \<in> set ms. m_key m' = Some k \<longrightarrow> m' = m"
    using tr m(1) mk by (simp add: tracks_def tracked_def)
  then have "getKv k cl = Some v \<longleftrightarrow> live tombstone m \<and> decode (m_encoding m) (m_raw m) = Some v" for v
    unfolding tracks_getKv [OF tr] using m(1) mk by blast
  then have "getKv k cl = (if live tombstone m then decode (m_encoding m) (m_raw m) else None)"
    by (intro option_extI) auto
  ultimately show ?thesis by (simp add: server_value_def)
qed

section \<open>Properties\<close>

text \<open>C10: a client that loads a stream and then processes the change events of the server, whatever
  sets, deletes, evictions and changes of the configuration the server executes in between, has
  for every key exactly the value that the server has (none if the server has no message or a
  tombstone), provided no message failed to decode and garbage collection did not throw, and the codec of the
  storage reads back what it wrote.\<close>

theorem client_kv_is_server_kv:
  assumes "codec_ok c" and "table_ok s" and "emitted s = []" and "getAll c None None s = Inr ms0"
    and "processPersistentMessages thresh decode tombstone True True (map (\<lambda>m. SetOperation m None) ms0) new_cstream = ([], cl0)"
    and "processPersistentMessages thresh decode tombstone False False
      (emitted (foldl (exec_cmd c) s cmds)) cl0 = ([], cl)"
  shows "getKv k cl = server_value c decode tombstone (foldl (exec_cmd c) s cmds) k"
proof -
  obtain q ms where "tracks decode tombstone q cl ms" "list_all2 (shows_row c) (rows (foldl (exec_cmd c) s cmds)) ms"
    using client_joins [OF assms] by blast
  then show ?thesis by (rule server_value_eq)
qed

definition sample_stream :: "(nat, nat) cstream" where
  "sample_stream = new_cstream\<lparr>largestSeq := 1, next_oid := 1, lastSeq := 1, kvChangeBytes := 0,
     messages := [Some 2], raw := [the_raw 0 (published sample_args 1 5000)],
     kv := [(''k'', (2, the_raw 0 (published sample_args 1 5000)))], lastValueByKey := [(''k'', 2)],
     changes := [Change_set 2 (the_raw 0 (published sample_args 1 5000)) (Some ''k'') None (Some ''m'')]\<rparr>"

theorem client_kv_is_server_kv_witness:
  "getKv ''k'' sample_stream =
     server_value plain_codec (\<lambda>_ b. Some (length b)) (\<lambda>h. h = 0)
       (foldl (exec_cmd plain_codec) empty_storage [Cmd_set 5000 sample_args]) ''k''"
proof (rule client_kv_is_server_kv [OF plain_codec_ok empty_ok])
  show "processPersistentMessages KEY_GC_THRESH (\<lambda>_ b. Some (length b)) (\<lambda>h. h = 0) True True
      (map (\<lambda>m. SetOperation m None) []) new_cstream = ([], new_cstream :: (nat, nat) cstream)" by simp
  have "emitted (foldl (exec_cmd plain_codec) empty_storage [Cmd_set 5000 sample_args]) =
      [SetOperation (published sample_args 1 5000) (Some ''m'')]"
    by (simp add: storage_set_def sample_args_def empty_storage_def default_configuration_def Let_def
      compress_def enforceLimits_def check_rates_def limit_msgs_def limit_age_def limit_bytes_def limit_ttl_def
      insert_row_def sql_delete_def emit_def published_def)
  moreover have "processPersistentMessages KEY_GC_THRESH (\<lambda>_ b. Some (length b)) (\<lambda>h. h = 0) False False
      [SetOperation (published sample_args 1 5000) (Some ''m'')] new_cstream = ([], sample_stream)"
    by (simp add: processPersistentSet_def published_def sample_args_def new_cstream_def sample_stream_def
        note_seq_def note_missing_def insert_raw_def finish_set_def set_kv_def the_raw_def emitChange_def Let_def
        KEY_GC_THRESH_def)
  ultimately show "processPersistentMessages KEY_GC_THRESH (\<lambda>_ b. Some (length b)) (\<lambda>h. h = 0) False False
      (emitted (foldl (exec_cmd plain_codec) empty_storage [Cmd_set 5000 sample_args])) new_cstream = ([], sample_stream)"
    by simp
qed

text \<open>
  Processing a deletion removes, by the bulk splice for contiguous indexes as well as one
  by one, exactly the messages with the given sequence numbers, keeps raw and decoded messages in
  step, drops the keys whose entry is among them and leaves the others.
\<close>

theorem delete_is_filter:
  assumes "\<not> is_closed s" and "length (messages s) = length (raw s)" and "distinct (keys (kv s))"
  shows "raw (processPersistentDelete seqs noEmit s) = filter (\<lambda>r. seq r \<notin> set seqs) (raw s) \<and>
    zip (raw (processPersistentDelete seqs noEmit s)) (messages (processPersistentDelete seqs noEmit s)) =
      filter (\<lambda>(r, _). seq r \<notin> set seqs) (zip (raw s) (messages s)) \<and>
    getKv k (processPersistentDelete seqs noEmit s) =
      (if \<exists>q. seqKv k s = Some q \<and> q \<in> set seqs then None else getKv k s)"
  using delete_spec [OF assms, of seqs noEmit]
  by (auto simp: pairs_def getKv_def seqKv_def split: option.splits)

lemma sample_stream_ok: "\<not> is_closed sample_stream" "length (messages sample_stream) = length (raw sample_stream)"
  "distinct (keys (kv sample_stream))"
  by (simp_all add: sample_stream_def new_cstream_def)

theorem delete_is_filter_witness:
  "raw (processPersistentDelete [1, 5] True sample_stream) = []"
  using delete_is_filter [OF sample_stream_ok, of "[1, 5]" True "''k''"]
  by (simp add: sample_stream_def the_raw_def published_def)

text \<open>
  the change event of a deleted message does not name its key. The code fills the object
  \<open>keys\<close> the wrong way round (key to number) and reads it with the number, so as long as no key is
  the decimal notation of a number, every deletion is announced without a key.
\<close>

theorem delete_events_without_key:
  assumes "\<not> is_closed s" and "\<forall>k \<in> set (keysKv s). \<forall>n. k \<noteq> decimal n"
  shows "changes (processPersistentDelete seqs False s) = changes s @
    map (\<lambda>(r, m). Change_delete (seq r) None m) (filter (\<lambda>(r, m). seq r \<in> set seqs) (zip (raw s) (messages s)))"
proof -
  have "obj_get (deleted_keys seqs (kv s)) (decimal q) = None" for q
    using assms(2) by (fastforce simp: map_of_eq_None_iff deleted_keys_def keysKv_def)
  then have "delete_events seqs (deleted_keys seqs (kv s)) (raw s) (messages s) =
      map (\<lambda>(r, m). Change_delete (seq r) None m) (filter (\<lambda>(r, m). seq r \<in> set seqs) (zip (raw s) (messages s)))"
    by (simp add: delete_events_def)
  with assms(1) show ?thesis by (simp add: processPersistentDelete_def Let_def)
qed

lemma decimal_digits: "c \<in> set (decimal n) \<Longrightarrow> of_char c < (58 :: nat)"
proof (induction n rule: decimal.induct)
  case (1 n)
  have "of_char (char_of (48 + d) :: char) < (58 :: nat)" if "d < 10" for d :: nat
    using that by simp
  with 1 show ?case by (auto simp: decimal.simps [of n] split: if_splits)
qed

theorem delete_events_without_key_witness:
  "changes (processPersistentDelete [1] False sample_stream) =
     changes sample_stream @ [Change_delete 1 None (Some 2)]"
proof -
  have "''k'' \<noteq> decimal n" for n
  proof
    assume "''k'' = decimal n"
    then have "CHR ''k'' \<in> set (decimal n)" by (metis list.set_intros(1))
    from decimal_digits [OF this] show False by simp
  qed
  then have "\<forall>k \<in> set (keysKv sample_stream). \<forall>n. k \<noteq> decimal n"
    by (simp add: keysKv_def sample_stream_def)
  from delete_events_without_key [OF sample_stream_ok(1) this, of "[1]"] show ?thesis
    by (simp add: sample_stream_def the_raw_def published_def)
qed

text \<open>
  messages can be lost for good. If a client has noticed that it missed the messages 9 and 10,
  it sorts these numbers as strings and asks for the messages from 10 up to 9; the server answers
  with none, whatever it has, and the client forgets that anything is missing.
\<close>

theorem missed_messages_are_lost:
  assumes "\<not> is_closed s" and "missingMessages s = [9, 10]"
  shows "missing_range s = Some (10, 9) \<and> getAll c (Some 10) (Some 9) st = Inr [] \<and>
    missing_response thresh decode tombstone [10, 9] [] s = s\<lparr>missingMessages := []\<rparr>"
proof -
  have "filter (\<lambda>r. 10 \<le> r_seq r \<and> r_seq r \<le> 9) (rows st) = []" by (simp add: filter_empty_conv)
  then show ?thesis using assms
    by (simp add: missing_range_def js_sort_ten getAll_def missing_response_def)
qed

theorem missed_messages_are_lost_witness:
  "missing_range (sample_stream\<lparr>missingMessages := [9, 10]\<rparr>) = Some (10, 9) \<and>
   getAll plain_codec (Some 10) (Some 9) (sample_storage default_configuration) = Inr []"
  using missed_messages_are_lost [of "sample_stream\<lparr>missingMessages := [9, 10]\<rparr>" plain_codec
      "sample_storage default_configuration"]
  by (simp add: sample_stream_ok)

text \<open>
  garbage collection fails when the stream contains a tombstone: \<open>gcKv\<close> reads
  \<open>this.kv[key].raw\<close> of a key that was deleted. The update that triggered it is in the key:value
  view, but no change event is emitted and \<open>lastSeq\<close> is not advanced.
\<close>

theorem gc_throws_on_tombstone:
  assumes "\<not> is_closed s" and "length (messages s) = length (raw s)"
    and "r0 \<in> set (raw s)" and "key r0 = Some t" and "data r0 \<noteq> []" and "\<not> hasKv t s"
    and "m_key m = Some k" and "k \<noteq> t" and "live tombstone m" and "decode (m_encoding m) (m_raw m) = Some mesg"
    and "obj_get (kv s) k = Some (v, r')" and "thresh \<le> kvChangeBytes s + length (data r')"
    and "\<forall>r \<in> set (raw s). seq r < m_seq m"
  shows "\<exists>s'. processPersistentSet thresh decode tombstone m msgID False noSeqCheck s = (Some GcTypeErr, s') \<and>
    changes s' = changes s \<and> lastSeq s' = lastSeq s \<and> getKv k s' = Some mesg"
proof -
  define s2 where "s2 = note_seq noSeqCheck (m_seq m) s"
  have s2: "raw s2 = raw s" "messages s2 = messages s" "kv s2 = kv s" "changes s2 = changes s"
    "lastSeq s2 = lastSeq s" "kvChangeBytes s2 = kvChangeBytes s"
    by (simp_all add: s2_def note_seq_def note_missing_def Let_def)
  define r where "r = the_raw (next_oid s2) m"
  define s3 where "s3 = s2\<lparr>next_oid := next_oid s2 + 1, messages := messages s @ [Some mesg], raw := raw s @ [r]\<rparr>"
  have "0 < m_seq m" using assms(3,13) by fastforce
  then have s3: "insert_raw r mesg (s2\<lparr>next_oid := next_oid s2 + 1\<rparr>) = s3"
    using assms(13) s2 by (subst insert_raw_last) (auto simp: r_def the_raw_def s3_def)
  define s4 where "s4 = s3\<lparr>kvChangeBytes := kvChangeBytes s + length (data r'), kv := obj_set k (mesg, r) (kv s),
      lastValueByKey := obj_set k mesg (lastValueByKey s3)\<rparr>"
  have nokey: "obj_get (kv s) t = None" using assms(6) by (cases "obj_get (kv s) t") (auto simp: hasKv_def)
  have "\<not> fst (gc_loop (kv s4) (raw s4) (messages s4) (next_oid s4))"
    by (rule gc_loop_throws [of _ _ r0 t])
      (use assms(2-5,8) nokey in \<open>auto simp: s4_def s3_def obj_simps\<close>)
  then have g: "fst (gcKv s4) = False" by (auto simp: gcKv_def split: prod.splits)
  have lv: "(case m_headers m of None \<Rightarrow> False | Some h \<Rightarrow> tombstone h) = False"
    using assms(9) by (simp add: live_def split: option.splits)
  have "set_kv thresh False k r mesg s3 = gcKv s4"
    using assms(11,12) by (simp add: set_kv_def s4_def s3_def s2 Let_def)
  then have "finish_set thresh tombstone m mesg r msgID False s3 = (Some GcTypeErr, snd (gcKv s4))"
    using g by (cases "gcKv s4") (simp add: finish_set_def lv assms(7) Let_def)
  then have "processPersistentSet thresh decode tombstone m msgID False noSeqCheck s = (Some GcTypeErr, snd (gcKv s4))"
    using assms(1,10) s3 by (simp add: processPersistentSet_def Let_def s2_def r_def)
  moreover have "changes (snd (gcKv s4)) = changes s" "lastSeq (snd (gcKv s4)) = lastSeq s" "kv (snd (gcKv s4)) = kv s4"
    by (simp_all add: gcKv_def s4_def s3_def s2 split: prod.split)
  ultimately show ?thesis by (auto simp: getKv_def s4_def obj_simps)
qed

definition tombstone_stream :: "(nat, nat) cstream" where
  "tombstone_stream = sample_stream\<lparr>raw := the_raw 9 (published (sample_args\<lparr>a_key := Some ''j'', a_headers := Some 0\<rparr>) 0 1)
     # raw sample_stream, messages := None # messages sample_stream\<rparr>"

theorem gc_throws_on_tombstone_witness:
  "\<exists>s'. processPersistentSet 2 (\<lambda>_ b. Some (length b)) (\<lambda>h. h = 0) (published sample_args 2 6000) None False True
      tombstone_stream = (Some GcTypeErr, s') \<and>
    changes s' = changes tombstone_stream \<and> lastSeq s' = lastSeq tombstone_stream \<and> getKv ''k'' s' = Some 2"
  by (rule gc_throws_on_tombstone [where t = "''j''" and v = 2 and r' = "the_raw 0 (published sample_args 1 5000)"
      and ?r0.0 = "the_raw 9 (published (sample_args\<lparr>a_key := Some ''j'', a_headers := Some 0\<rparr>) 0 1)"])
    (simp_all add: tombstone_stream_def sample_stream_def new_cstream_def the_raw_def published_def sample_args_def
      hasKv_def live_def)

end
