(* ===== verification/FrameTree.thy ===== *)
theory FrameTree
  imports Complex_Main Prelude
begin

text \<open>
  The frame trees of \<^verbatim>\<open>packages/frontend/frame-editors/frame-tree/tree-ops.ts\<close>: the data and
  the operations that read a tree or change the attributes of its nodes. A node is an immutable
  map; \<open>Nary\<close> is a node with \<open>children\<close>, \<open>Node\<close> one without, whose legacy branches \<open>first\<close>
  and \<open>second\<close> are \<open>Undef\<close> where they are missing, so a leaf is \<open>Node a Undef Undef\<close>.
  \<open>Undef\<close> is null or undefined. The other keys of the map are its attributes. Numbers are
  rationals with NaN and the infinities (a division by 0 is written out; rounding is not
  modelled). The random ids are a parameter \<open>rng\<close>, the n-th id that is drawn. Unchanged
  subtrees are compared by identity in the code only to avoid copying.
\<close>

section \<open>Numbers\<close>

datatype jsnum = Fin rat | NaN | PInf | NInf

fun num_add :: "jsnum \<Rightarrow> jsnum \<Rightarrow> jsnum" where
  "num_add (Fin a) (Fin b) = Fin (a + b)"
| "num_add NaN y = NaN"
| "num_add x NaN = NaN"
| "num_add PInf NInf = NaN"
| "num_add NInf PInf = NaN"
| "num_add PInf y = PInf"
| "num_add NInf y = NInf"
| "num_add x PInf = PInf"
| "num_add x NInf = NInf"

fun num_neg :: "jsnum \<Rightarrow> jsnum" where
  "num_neg (Fin a) = Fin (- a)"
| "num_neg NaN = NaN"
| "num_neg PInf = NInf"
| "num_neg NInf = PInf"

fun num_div :: "jsnum \<Rightarrow> jsnum \<Rightarrow> jsnum" where
  "num_div (Fin a) (Fin b) =
     (if b \<noteq> 0 then Fin (a / b) else if a = 0 then NaN else if a > 0 then PInf else NInf)"
| "num_div NaN y = NaN"
| "num_div x NaN = NaN"
| "num_div (Fin a) y = Fin 0"
| "num_div PInf (Fin b) = (if b \<ge> 0 then PInf else NInf)"
| "num_div NInf (Fin b) = (if b \<ge> 0 then NInf else PInf)"
| "num_div x y = NaN"

fun num_less :: "jsnum \<Rightarrow> jsnum \<Rightarrow> bool" where
  "num_less (Fin a) (Fin b) = (a < b)"
| "num_less NInf (Fin b) = True"
| "num_less NInf PInf = True"
| "num_less (Fin a) PInf = True"
| "num_less x y = False"

definition num_min :: "jsnum \<Rightarrow> jsnum \<Rightarrow> jsnum" where
  "num_min x y = (if x = NaN \<or> y = NaN then NaN else if num_less y x then y else x)"

definition num_max :: "jsnum \<Rightarrow> jsnum \<Rightarrow> jsnum" where
  "num_max x y = (if x = NaN \<or> y = NaN then NaN else if num_less x y then y else x)"

definition num_sum :: "jsnum list \<Rightarrow> jsnum" where
  "num_sum xs = foldl num_add (Fin 0) xs"

abbreviation num_of :: "nat \<Rightarrow> jsnum" where
  "num_of n \<equiv> Fin (of_nat n)"

section \<open>Trees\<close>

datatype jsval = Str string | Num jsnum | Nums "jsnum list" | Null | Other nat

type_synonym attrs = "(string, jsval) obj"

datatype frame = Undef | Nary attrs "frame list" | Node attrs frame frame

fun attrs_of :: "frame \<Rightarrow> attrs" where
  "attrs_of Undef = []"
| "attrs_of (Nary a cs) = a"
| "attrs_of (Node a f g) = a"

fun with_attrs :: "(attrs \<Rightarrow> attrs) \<Rightarrow> frame \<Rightarrow> frame" where
  "with_attrs u Undef = Undef"
| "with_attrs u (Nary a cs) = Nary (u a) cs"
| "with_attrs u (Node a f g) = Node (u a) f g"

text \<open>\<open>node.get(k)\<close> and \<open>node.set(k, v)\<close> for an attribute.\<close>

definition attr :: "string \<Rightarrow> frame \<Rightarrow> jsval option" where
  "attr k t = obj_get (attrs_of t) k"

definition set_attr :: "string \<Rightarrow> jsval \<Rightarrow> frame \<Rightarrow> frame" where
  "set_attr k v t = with_attrs (obj_set k v) t"

definition has_type :: "string \<Rightarrow> frame \<Rightarrow> bool" where
  "has_type ty t \<longleftrightarrow> attr ''type'' t = Some (Str ty)"

definition has_the_id :: "string \<Rightarrow> frame \<Rightarrow> bool" where
  "has_the_id i t \<longleftrightarrow> attr ''id'' t = Some (Str i)"

fun sizes_in :: "attrs \<Rightarrow> jsnum list option" where
  "sizes_in a = (case obj_get a ''sizes'' of Some (Nums xs) \<Rightarrow> Some xs | _ \<Rightarrow> None)"

text \<open>\<open>node.get("activeTab") ?? 0\<close>.\<close>

fun activeTab_in :: "attrs \<Rightarrow> jsnum" where
  "activeTab_in a = (case obj_get a ''activeTab'' of Some (Num x) \<Rightarrow> x | _ \<Rightarrow> Fin 0)"

fun is_leaf :: "frame \<Rightarrow> bool" where
  "is_leaf Undef = False"
| "is_leaf (Nary a cs) = False"
| "is_leaf (Node a f g) = (f = Undef \<and> g = Undef)"

definition leaf :: "attrs \<Rightarrow> frame" where
  "leaf a = Node a Undef Undef"

text \<open>\<open>children.map\<close> of a function with a state: children are visited in order.\<close>

fun smap :: "('a \<Rightarrow> 's \<Rightarrow> 's \<times> 'b) \<Rightarrow> 'a list \<Rightarrow> 's \<Rightarrow> 's \<times> 'b list" where
  "smap f [] s = (s, [])"
| "smap f (x # xs) s = (let (s1, y) = f x s; (s2, ys) = smap f xs s1 in (s2, y # ys))"

lemma smap_cong [fundef_cong]:
  "xs = ys \<Longrightarrow> s = t \<Longrightarrow> (\<And>x s. x \<in> set ys \<Longrightarrow> f x s = g x s) \<Longrightarrow> smap f xs s = smap g ys t"
  by (induction ys arbitrary: xs s t) (auto split: prod.splits)

section \<open>Walking\<close>

text \<open>The nodes in the order of \<open>walk\<close>.\<close>

fun walk :: "frame \<Rightarrow> frame list" where
  "walk Undef = []"
| "walk (Nary a cs) = Nary a cs # concat (map walk cs)"
| "walk (Node a f g) = Node a f g # walk f @ walk g"

definition get_leaf_ids :: "frame \<Rightarrow> jsval option list" where
  "get_leaf_ids t = map (attr ''id'') (filter is_leaf (walk t))"

definition getAllIds :: "frame \<Rightarrow> string list" where
  "getAllIds t = concat (map (\<lambda>n. case attr ''id'' n of Some (Str i) \<Rightarrow> if i = '''' then [] else [i] | _ \<Rightarrow> []) (walk t))"

definition has_id :: "frame \<Rightarrow> string \<Rightarrow> bool" where
  "has_id t i \<longleftrightarrow> (\<exists>n \<in> set (walk t). has_the_id i n)"

definition get_node :: "frame \<Rightarrow> string \<Rightarrow> frame option" where
  "get_node t i = find (has_the_id i) (walk t)"

definition is_leaf_id :: "frame \<Rightarrow> string \<Rightarrow> bool" where
  "is_leaf_id t i = (case get_node t i of None \<Rightarrow> False | Some n \<Rightarrow> is_leaf n)"

text \<open>\<open>None\<close>: the error that no leaf has an id is thrown.\<close>

definition get_some_leaf_id :: "frame \<Rightarrow> jsval option" where
  "get_some_leaf_id t =
     (case find is_leaf (walk t) of
        None \<Rightarrow> None
      | Some n \<Rightarrow> (case attr ''id'' n of Some (Str i) \<Rightarrow> if i = '''' then None else Some (Str i) | x \<Rightarrow> x))"

text \<open>\<open>get_parent_id\<close>: the state is \<open>done\<close> with the result.\<close>

fun parent_proc :: "string \<Rightarrow> frame \<Rightarrow> jsval option option \<Rightarrow> jsval option option" where
  "parent_proc i Undef s = s"
| "parent_proc i (Nary a cs) s =
     fold (\<lambda>c s. if s \<noteq> None then s
                 else if has_the_id i c then Some (obj_get a ''id'')
                 else parent_proc i c s) cs s"
| "parent_proc i (Node a f g) s =
     (let s1 = (if s \<noteq> None \<or> f = Undef then s
                else if has_the_id i f then Some (obj_get a ''id'')
                else parent_proc i f s) in
      if s1 \<noteq> None \<or> g = Undef then s1
      else if has_the_id i g then Some (obj_get a ''id'')
      else parent_proc i g s1)"

definition get_parent_id :: "frame \<Rightarrow> string \<Rightarrow> jsval option" where
  "get_parent_id t i = (case parent_proc i t None of None \<Rightarrow> None | Some p \<Rightarrow> p)"

text \<open>All leaves of a tree in order.\<close>

fun collect_leaves :: "frame \<Rightarrow> frame list" where
  "collect_leaves Undef = []"
| "collect_leaves (Nary a cs) = concat (map collect_leaves cs)"
| "collect_leaves (Node a f g) =
     (if f = Undef \<and> g = Undef then [Node a f g] else collect_leaves f @ collect_leaves g)"

section \<open>Ids\<close>

text \<open>
  \<open>generate_id(ids)\<close>: draw until the id is new and add it to \<open>ids\<close>; the state is the number of
  ids drawn. The result is the id, the new \<open>ids\<close> and the new state.
\<close>

partial_function (option) generate_id ::
    "(nat \<Rightarrow> string) \<Rightarrow> string list \<Rightarrow> nat \<Rightarrow> (string \<times> string list \<times> nat) option" where
  "generate_id rng ids n =
     (if rng n \<in> set ids then generate_id rng ids (n + 1) else Some (rng n, rng n # ids, n + 1))"

text \<open>\<open>assign_ids\<close>: a node whose id is missing or not a string gets a random one.\<close>

definition with_id :: "(nat \<Rightarrow> string) \<Rightarrow> attrs \<Rightarrow> nat \<Rightarrow> nat \<times> attrs" where
  "with_id rng a n =
     (case obj_get a ''id'' of
        Some (Str _) \<Rightarrow> (n, a)
      | _ \<Rightarrow> (n + 1, obj_set ''id'' (Str (rng n)) a))"

fun assign_ids :: "(nat \<Rightarrow> string) \<Rightarrow> frame \<Rightarrow> nat \<Rightarrow> nat \<times> frame" where
  "assign_ids rng Undef n = (n, Undef)"
| "assign_ids rng (Nary a cs) n =
     (let (n1, a') = with_id rng a n; (n2, cs') = smap (assign_ids rng) cs n1 in (n2, Nary a' cs'))"
| "assign_ids rng (Node a f g) n =
     (let (n1, a') = with_id rng a n; (n2, f') = assign_ids rng f n1; (n3, g') = assign_ids rng g n2 in
      (n3, Node a' f' g'))"

text \<open>
  One pass of \<open>ensure_ids_are_unique\<close>. The object \<open>ids\<close> is a parameter of the pass; the code
  never stores anything in it. The state is \<open>dupe\<close> with the number of ids drawn.
\<close>

fun dedupe_pass :: "(nat \<Rightarrow> string) \<Rightarrow> string list \<Rightarrow> frame \<Rightarrow> bool \<times> nat \<Rightarrow> (bool \<times> nat) \<times> frame" where
  "dedupe_pass rng ids Undef s = (s, Undef)"
| "dedupe_pass rng ids (Nary a cs) s =
     (if \<exists>i \<in> set ids. obj_get a ''id'' = Some (Str i)
      then ((True, snd s + 1), Nary (obj_set ''id'' (Str (rng (snd s))) a) cs)
      else (let (s1, cs') = smap (dedupe_pass rng ids) cs s in (s1, Nary a cs')))"
| "dedupe_pass rng ids (Node a f g) s =
     (if \<exists>i \<in> set ids. obj_get a ''id'' = Some (Str i)
      then ((True, snd s + 1), Node (obj_set ''id'' (Str (rng (snd s))) a) f g)
      else (let (s1, f') = dedupe_pass rng ids f s; (s2, g') = dedupe_pass rng ids g s1 in (s2, Node a f' g')))"

partial_function (option) ensure_ids_are_unique :: "(nat \<Rightarrow> string) \<Rightarrow> frame \<Rightarrow> nat \<Rightarrow> (nat \<times> frame) option" where
  "ensure_ids_are_unique rng t n =
     (case dedupe_pass rng [] t (False, n) of
        ((dupe, n'), t') \<Rightarrow> if \<not> dupe then Some (n', t') else ensure_ids_are_unique rng t' n')"

section \<open>Setting attributes\<close>

text \<open>
  One key of the object given to \<open>set\<close>. It holds attributes only, not \<open>children\<close>, \<open>first\<close> or
  \<open>second\<close>; a value under \<open>pos\<close> is a number or null.
\<close>

fun set_key :: "frame \<Rightarrow> string \<times> jsval \<Rightarrow> frame" where
  "set_key (Nary a cs) (k, v) =
     (if k = ''id'' then Nary a cs
      else case v of
        Null \<Rightarrow> Nary (obj_del k a) cs
      | Num x \<Rightarrow>
          (if k = ''pos'' then
             (if length cs = 2 then Nary (obj_set ''sizes'' (Nums [x, num_add (Fin 1) (num_neg x)]) a) cs
              else Nary a cs)
           else Nary (obj_set k v a) cs)
      | _ \<Rightarrow> (if k = ''pos'' then Nary a cs else Nary (obj_set k v a) cs))"
| "set_key n (k, v) =
     (if k = ''id'' then n else if v = Null then with_attrs (obj_del k) n else set_attr k v n)"

fun set_proc :: "jsval \<Rightarrow> attrs \<Rightarrow> frame \<Rightarrow> bool \<Rightarrow> bool \<times> frame" where
  "set_proc i obj Undef d = (d, Undef)"
| "set_proc i obj (Nary a cs) d =
     (if d then (d, Nary a cs)
      else if obj_get a ''id'' = Some i then (True, foldl set_key (Nary a cs) obj)
      else (let (d', cs') = smap (set_proc i obj) cs d in (d', Nary a cs')))"
| "set_proc i obj (Node a f g) d =
     (if d then (d, Node a f g)
      else if obj_get a ''id'' = Some i then (True, foldl set_key (Node a f g) obj)
      else (let (d1, f') = set_proc i obj f d; (d2, g') = set_proc i obj g d1 in (d2, Node a f' g')))"

definition set_frame :: "frame \<Rightarrow> attrs \<Rightarrow> frame" where
  "set_frame t obj =
     (case obj_get obj ''id'' of
        None \<Rightarrow> t
      | Some Null \<Rightarrow> t
      | Some i \<Rightarrow> if length obj < 2 then t else snd (set_proc i obj t False))"

fun set_leafs_proc :: "attrs \<Rightarrow> frame \<Rightarrow> frame" where
  "set_leafs_proc obj Undef = Undef"
| "set_leafs_proc obj (Nary a cs) = Nary a (map (set_leafs_proc obj) cs)"
| "set_leafs_proc obj (Node a f g) =
     (if is_leaf (Node a f g) then foldl (\<lambda>n (k, v). set_attr k v n) (Node a f g) obj
      else Node a (set_leafs_proc obj f) (set_leafs_proc obj g))"

definition set_leafs :: "frame \<Rightarrow> attrs \<Rightarrow> frame" where
  "set_leafs t obj = (if length obj < 1 then t else set_leafs_proc obj t)"

section \<open>Facts on trees\<close>

named_theorems frame_simps "how walks and leaves are computed"

abbreviation id_of :: "frame \<Rightarrow> jsval option" where
  "id_of \<equiv> attr ''id''"

definition all_ids :: "frame \<Rightarrow> jsval option list" where
  "all_ids t = map id_of (walk t)"

text \<open>Every node has an id of its own, a string that is not empty.\<close>

definition good_ids :: "frame \<Rightarrow> bool" where
  "good_ids t \<longleftrightarrow> distinct (all_ids t) \<and>
     (\<forall>x \<in> set (all_ids t). case x of Some (Str i) \<Rightarrow> i \<noteq> '''' | _ \<Rightarrow> False)"

text \<open>A node without \<open>children\<close> is a leaf or has both branches, and no child is missing.\<close>

fun well_formed :: "frame \<Rightarrow> bool" where
  "well_formed Undef = False"
| "well_formed (Nary a cs) = (\<forall>c \<in> set cs. well_formed c)"
| "well_formed (Node a f g) = (f = Undef \<and> g = Undef \<or> well_formed f \<and> well_formed g)"

lemma attr_simps [simp]:
  "attr k (Nary a cs) = obj_get a k" "attr k (Node a f g) = obj_get a k" "attr k Undef = None"
  by (simp_all add: attr_def)

lemma id_of_leaf [simp]: "id_of (leaf a) = obj_get a ''id''" "is_leaf (leaf a)" "well_formed (leaf a)"
  "walk (leaf a) = [leaf a]" "leaf a \<noteq> Undef"
  by (simp_all add: leaf_def)

lemma has_the_id_iff [simp]: "has_the_id i t \<longleftrightarrow> id_of t = Some (Str i)"
  by (simp add: has_the_id_def)

lemma well_formed_not_Undef: "well_formed t \<Longrightarrow> t \<noteq> Undef"
  by auto

lemma walk_eq_Nil [simp]: "walk t = [] \<longleftrightarrow> t = Undef"
  by (cases t) auto

lemma walk_self: "t \<noteq> Undef \<Longrightarrow> t \<in> set (walk t)"
  by (cases t) auto

lemma walk_trans: "n \<in> set (walk m) \<Longrightarrow> m \<in> set (walk t) \<Longrightarrow> n \<in> set (walk t)"
  by (induction t) auto

lemma walk_not_Undef: "n \<in> set (walk t) \<Longrightarrow> n \<noteq> Undef"
  by (induction t) auto

lemma walk_well_formed: "well_formed t \<Longrightarrow> n \<in> set (walk t) \<Longrightarrow> well_formed n"
  by (induction t) auto

lemma all_ids_simps [frame_simps]:
  "all_ids Undef = []"
  "all_ids (Nary a cs) = obj_get a ''id'' # concat (map all_ids cs)"
  "all_ids (Node a f g) = obj_get a ''id'' # all_ids f @ all_ids g"
  by (simp_all add: all_ids_def[abs_def] map_concat comp_def)

lemma set_all_ids: "set (all_ids t) = id_of ` set (walk t)"
  by (simp add: all_ids_def)

lemma collect_leaves_walk: "collect_leaves t = filter is_leaf (walk t)"
proof (induction t)
  case (Nary a cs)
  then show ?case by (induction cs) auto
qed auto

lemma has_id_iff: "has_id t i \<longleftrightarrow> Some (Str i) \<in> set (all_ids t)"
  unfolding has_id_def set_all_ids image_iff has_the_id_iff by (metis (full_types))

lemma get_node_Some:
  assumes "get_node t i = Some n"
  shows "n \<in> set (walk t)" "id_of n = Some (Str i)"
  using assms by (auto simp: get_node_def find_Some_iff)

lemma get_node_None: "get_node t i = None \<longleftrightarrow> \<not> has_id t i"
  by (auto simp: get_node_def find_None_iff has_id_def)

lemma get_node_unique:
  assumes "distinct (all_ids t)" "n \<in> set (walk t)" "id_of n = Some (Str i)"
  shows "get_node t i = Some n"
proof -
  have "has_id t i" using assms by (auto simp: has_id_def)
  then obtain m where m: "get_node t i = Some m" by (metis get_node_None not_Some_eq)
  have "inj_on id_of (set (walk t))" using assms(1) by (simp add: all_ids_def distinct_map)
  then show ?thesis using m get_node_Some[OF m] assms by (metis inj_onD)
qed

lemma getAllIds_mem: "i \<in> set (getAllIds t) \<longleftrightarrow> has_id t i \<and> i \<noteq> ''''"
proof -
  have "i \<in> set (case x of Some (Str i) \<Rightarrow> if i = '''' then [] else [i] | _ \<Rightarrow> []) \<longleftrightarrow> x = Some (Str i) \<and> i \<noteq> ''''"
    for x by (auto split: option.splits jsval.splits)
  then show ?thesis by (auto simp: getAllIds_def has_id_def)
qed

lemma good_ids_id:
  assumes "good_ids t" "n \<in> set (walk t)"
  obtains i where "id_of n = Some (Str i)" "i \<noteq> ''''"
proof -
  have "case id_of n of Some (Str i) \<Rightarrow> i \<noteq> '''' | _ \<Rightarrow> False"
    using assms by (auto simp: good_ids_def set_all_ids)
  then show ?thesis using that by (cases "id_of n") (auto split: jsval.splits)
qed

text \<open>Facts on a state that is passed through the children.\<close>

lemma smap_append: "smap f (xs @ ys) s =
    (let (s1, us) = smap f xs s; (s2, vs) = smap f ys s1 in (s2, us @ vs))"
  by (induction xs arbitrary: s) (auto split: prod.splits)

lemma smap_length [simp]: "length (snd (smap f xs s)) = length xs"
  by (induction xs arbitrary: s) (auto simp: case_prod_beta Let_def)

lemma smap_id: "(\<And>x. x \<in> set xs \<Longrightarrow> f x s = (s, x)) \<Longrightarrow> smap f xs s = (s, xs)"
  by (induction xs) auto

end
