(* ===== verification/FrameEdit.thy ===== *)
theory FrameEdit
  imports FrameTree "HOL-Library.Multiset"
begin

text \<open>
  The operations of \<^verbatim>\<open>packages/frontend/frame-editors/frame-tree/tree-ops.ts\<close> that change the
  shape of a frame tree: deleting, splitting, replacing, swapping and moving frames, and the
  operations on tabs. A result is \<open>Some\<close> of the number of random ids drawn with the tree, and
  \<open>None\<close> where the code throws a TypeError or draws ids for ever. Then the facts that say which
  leaves and which ids every operation keeps, and the properties.
\<close>

section \<open>Lists\<close>

fun find_index :: "('a \<Rightarrow> bool) \<Rightarrow> 'a list \<Rightarrow> nat option" where
  "find_index p [] = None"
| "find_index p (x # xs) = (if p x then Some 0 else map_option Suc (find_index p xs))"

definition delete_at :: "nat \<Rightarrow> 'a list \<Rightarrow> 'a list" where
  "delete_at k xs = take k xs @ drop (Suc k) xs"

definition insert_at :: "nat \<Rightarrow> 'a \<Rightarrow> 'a list \<Rightarrow> 'a list" where
  "insert_at k x xs = take k xs @ x # drop k xs"

text \<open>\<open>List.set\<close> past the end extends the list; what is missing counts as NaN.\<close>

definition num_set :: "nat \<Rightarrow> jsnum \<Rightarrow> jsnum list \<Rightarrow> jsnum list" where
  "num_set k x xs = (if k < length xs then xs[k := x] else xs @ replicate (k - length xs) NaN @ [x])"

definition num_get :: "nat \<Rightarrow> jsnum list \<Rightarrow> jsnum" where
  "num_get k xs = (if k < length xs then xs ! k else NaN)"

definition even_sizes :: "nat \<Rightarrow> jsnum list" where
  "even_sizes n = replicate n (num_div (Fin 1) (num_of n))"

section \<open>Deleting\<close>

text \<open>\<open>delete_node\<close>: what remains of an n-ary node without child \<open>idx\<close>.\<close>

definition shrink_sizes :: "nat \<Rightarrow> attrs \<Rightarrow> attrs" where
  "shrink_sizes idx a =
     (case sizes_in a of
        None \<Rightarrow> a
      | Some xs \<Rightarrow>
          (let ys = delete_at idx xs; total = num_sum ys in
           obj_set ''sizes'' (Nums (map (\<lambda>s. num_div s total) ys)) a))"

definition shift_active :: "nat \<Rightarrow> nat \<Rightarrow> attrs \<Rightarrow> attrs \<Rightarrow> attrs" where
  "shift_active idx len old a =
     (let activeTab = activeTab_in old in
      if num_less (num_of idx) activeTab then obj_set ''activeTab'' (Num (num_add activeTab (Fin (- 1)))) a
      else if activeTab = num_of idx
      then obj_set ''activeTab'' (Num (num_min activeTab (Fin (of_nat len - 1)))) a
      else a)"

definition remove_child :: "attrs \<Rightarrow> frame list \<Rightarrow> nat \<Rightarrow> frame" where
  "remove_child a cs idx =
     (let newChildren = delete_at idx cs in
      if length newChildren = 1 then hd newChildren
      else
        (let a1 = shrink_sizes idx a in
         Nary (if obj_get a ''type'' = Some (Str ''tabs'')
               then shift_active idx (length newChildren) a a1 else a1) newChildren))"

fun delete_proc :: "string \<Rightarrow> frame \<Rightarrow> bool \<Rightarrow> bool \<times> frame" where
  "delete_proc i Undef d = (d, Undef)"
| "delete_proc i (Nary a cs) d =
     (if d then (d, Nary a cs)
      else case find_index (has_the_id i) cs of
        Some idx \<Rightarrow> (True, remove_child a cs idx)
      | None \<Rightarrow> (let (d', cs') = smap (delete_proc i) cs d in (d', Nary a cs')))"
| "delete_proc i (Node a f g) d =
     (if d then (d, Node a f g)
      else if f \<noteq> Undef \<and> has_the_id i f then (True, g)
      else
        (let (d1, f') = delete_proc i f d in
         if g \<noteq> Undef \<and> has_the_id i g then (True, f')
         else (let (d2, g') = delete_proc i g d1 in (d2, Node a f' g'))))"

definition delete_node :: "frame \<Rightarrow> string \<Rightarrow> frame" where
  "delete_node t i = (if has_the_id i t then t else snd (delete_proc i t False))"

section \<open>Splitting\<close>

text \<open>The node \<open>{id, type: "node", direction, children, sizes: [0.5, 0.5]}\<close> with a fresh id.\<close>

definition split_attrs :: "string \<Rightarrow> string \<Rightarrow> attrs" where
  "split_attrs i direction =
     [(''direction'', Str direction), (''id'', Str i), (''type'', Str ''node''),
      (''sizes'', Nums [Fin (1 / 2), Fin (1 / 2)])]"

definition new_split ::
    "(nat \<Rightarrow> string) \<Rightarrow> string list \<Rightarrow> string \<Rightarrow> frame list \<Rightarrow> nat \<Rightarrow> (nat \<times> frame) option" where
  "new_split rng ids direction cs n =
     (case generate_id rng ids n of
        None \<Rightarrow> None
      | Some (i, _, n') \<Rightarrow> Some (n', Nary (split_attrs i direction) cs))"

definition second_leaf :: "frame \<Rightarrow> string option \<Rightarrow> attrs \<Rightarrow> string \<Rightarrow> frame" where
  "second_leaf lf ty extra i =
     (let leaf2 =
        (case ty of
           None \<Rightarrow> set_attr ''id'' (Str i) lf
         | Some y \<Rightarrow> if attr ''type'' lf = Some (Str y) then set_attr ''id'' (Str i) lf
                     else leaf [(''id'', Str i), (''type'', Str y)])
      in foldl (\<lambda>l (k, v). set_attr k v l) leaf2 extra)"

text \<open>The object \<open>extra\<close> has no \<open>children\<close>, \<open>first\<close> or \<open>second\<close>; a missing one is \<open>[]\<close>.\<close>

definition split_the_leaf ::
    "(nat \<Rightarrow> string) \<Rightarrow> frame \<Rightarrow> string \<Rightarrow> string option \<Rightarrow> attrs \<Rightarrow> bool \<Rightarrow> string list \<Rightarrow> nat \<Rightarrow>
       (nat \<times> frame) option" where
  "split_the_leaf rng lf direction ty extra first ids n =
     (case generate_id rng ids n of
        None \<Rightarrow> None
      | Some (i, ids', n') \<Rightarrow>
          (let leaf2 = second_leaf lf ty extra i in
           new_split rng ids' direction (if first then [leaf2, lf] else [lf, leaf2]) n'))"

text \<open>
  The state is \<open>done\<close> and the ids drawn. In the legacy branch the loop breaks after a change,
  and \<open>done\<close> is set then.
\<close>

fun split_proc ::
    "(frame \<Rightarrow> nat \<Rightarrow> (nat \<times> frame) option) \<Rightarrow> string \<Rightarrow> frame \<Rightarrow> (bool \<times> nat) option \<Rightarrow>
       (bool \<times> nat) option \<times> frame" where
  "split_proc sp i Undef s = (s, Undef)"
| "split_proc sp i (Nary a cs) s =
     (case s of
        None \<Rightarrow> (None, Nary a cs)
      | Some (d, n) \<Rightarrow>
          (if d then (s, Nary a cs)
           else if has_the_id i (Nary a cs)
           then (case sp (Nary a cs) n of None \<Rightarrow> (None, Nary a cs) | Some (n', t') \<Rightarrow> (Some (True, n'), t'))
           else (let (s', cs') = smap (split_proc sp i) cs s in (s', Nary a cs'))))"
| "split_proc sp i (Node a f g) s =
     (case s of
        None \<Rightarrow> (None, Node a f g)
      | Some (d, n) \<Rightarrow>
          (if d then (s, Node a f g)
           else if has_the_id i (Node a f g)
           then (case sp (Node a f g) n of None \<Rightarrow> (None, Node a f g) | Some (n', t') \<Rightarrow> (Some (True, n'), t'))
           else
             (let (s1, f') = split_proc sp i f s; (s2, g') = split_proc sp i g s1 in (s2, Node a f' g'))))"

definition split_leaf ::
    "(nat \<Rightarrow> string) \<Rightarrow> frame \<Rightarrow> string \<Rightarrow> string \<Rightarrow> string option \<Rightarrow> attrs \<Rightarrow> bool \<Rightarrow> nat \<Rightarrow>
       (nat \<times> frame) option" where
  "split_leaf rng t i direction ty extra first n =
     (case split_proc (\<lambda>lf. split_the_leaf rng lf direction ty extra first (getAllIds t)) i t (Some (False, n)) of
        (Some (_, n'), t') \<Rightarrow> Some (n', t')
      | _ \<Rightarrow> None)"

definition new_frame ::
    "(nat \<Rightarrow> string) \<Rightarrow> frame \<Rightarrow> string \<Rightarrow> string \<Rightarrow> bool \<Rightarrow> nat \<Rightarrow> (nat \<times> frame) option" where
  "new_frame rng t ty direction first n =
     (case generate_id rng (getAllIds t) n of
        None \<Rightarrow> None
      | Some (i, ids, n') \<Rightarrow>
          (let newLeaf = leaf [(''type'', Str ty), (''id'', Str i)] in
           new_split rng ids direction (if first then [newLeaf, t] else [t, newLeaf]) n'))"

section \<open>Replacing, swapping and moving\<close>

definition replacement_of :: "(string, frame) obj \<Rightarrow> frame \<Rightarrow> frame option" where
  "replacement_of R t = (case attr ''id'' t of Some (Str i) \<Rightarrow> obj_get R i | _ \<Rightarrow> None)"

text \<open>The state is \<open>remaining\<close>.\<close>

fun replace_proc :: "(string, frame) obj \<Rightarrow> frame \<Rightarrow> nat \<Rightarrow> nat \<times> frame" where
  "replace_proc R Undef r = (r, Undef)"
| "replace_proc R (Nary a cs) r =
     (if r = 0 then (r, Nary a cs)
      else case replacement_of R (Nary a cs) of
        Some u \<Rightarrow> (r - 1, u)
      | None \<Rightarrow> (let (r', cs') = smap (replace_proc R) cs r in (r', Nary a cs')))"
| "replace_proc R (Node a f g) r =
     (if r = 0 then (r, Node a f g)
      else case replacement_of R (Node a f g) of
        Some u \<Rightarrow> (r - 1, u)
      | None \<Rightarrow>
          (let (r1, f') = replace_proc R f r; (r2, g') = replace_proc R g r1 in (r2, Node a f' g')))"

definition replaceNodes :: "frame \<Rightarrow> (string, frame) obj \<Rightarrow> frame" where
  "replaceNodes t R = snd (replace_proc R t (length R))"

definition replaceNode :: "frame \<Rightarrow> string \<Rightarrow> frame \<Rightarrow> frame" where
  "replaceNode t i u = replaceNodes t [(i, u)]"

datatype drop_position = PLeft | PRight | PTop | PBottom | PCenter | PTab

definition swap_nodes :: "frame \<Rightarrow> string \<Rightarrow> string \<Rightarrow> frame" where
  "swap_nodes t idA idB =
     (if idA = idB then t
      else case (get_node t idA, get_node t idB) of
        (Some nodeA, Some nodeB) \<Rightarrow> replaceNodes t [(idA, nodeB), (idB, nodeA)]
      | _ \<Rightarrow> t)"

definition direction_of :: "drop_position \<Rightarrow> string" where
  "direction_of p = (if p = PLeft \<or> p = PRight then ''col'' else ''row'')"

definition insert_first :: "drop_position \<Rightarrow> bool" where
  "insert_first p \<longleftrightarrow> p = PLeft \<or> p = PTop"

definition placed :: "drop_position \<Rightarrow> frame \<Rightarrow> frame \<Rightarrow> frame list" where
  "placed p src tgt = (if insert_first p then [src, tgt] else [tgt, src])"

text \<open>
  \<open>move_node\<close> first tries to insert into the parent of the target; \<open>strict\<close> is the test, made only
  the first time it tries, that the sizes have the length of the children.
\<close>

definition borrowed_sizes :: "bool \<Rightarrow> jsnum list option \<Rightarrow> nat \<Rightarrow> nat \<Rightarrow> nat \<Rightarrow> jsnum list" where
  "borrowed_sizes strict old len targetIdx insertIdx =
     (case old of
        Some xs \<Rightarrow>
          (if strict \<and> length xs \<noteq> len then even_sizes (len + 1)
           else (let targetSize = num_div (num_get targetIdx xs) (Fin 2) in
                 insert_at insertIdx targetSize (num_set targetIdx targetSize xs)))
      | None \<Rightarrow> even_sizes (len + 1))"

definition insert_sibling :: "bool \<Rightarrow> drop_position \<Rightarrow> string \<Rightarrow> frame \<Rightarrow> frame \<Rightarrow> frame option" where
  "insert_sibling strict p targetId src parent =
     (case parent of
        Nary a cs \<Rightarrow>
          (if obj_get a ''direction'' = Some (Str (direction_of p)) \<and> obj_get a ''type'' = Some (Str ''node'')
           then map_option (\<lambda>k.
                  let insertIdx = (if insert_first p then k else k + 1) in
                  Nary (obj_set ''sizes'' (Nums (borrowed_sizes strict (sizes_in a) (length cs) k insertIdx)) a)
                    (insert_at insertIdx src cs)) (find_index (has_the_id targetId) cs)
           else None)
      | _ \<Rightarrow> None)"

definition insert_beside :: "bool \<Rightarrow> drop_position \<Rightarrow> string \<Rightarrow> frame \<Rightarrow> frame \<Rightarrow> frame option" where
  "insert_beside strict p targetId src result =
     (case get_parent_id result targetId of
        Some (Str parentId) \<Rightarrow>
          (if parentId = '''' then None
           else case get_node result parentId of
             None \<Rightarrow> None
           | Some parent \<Rightarrow> map_option (replaceNode result parentId) (insert_sibling strict p targetId src parent))
      | _ \<Rightarrow> None)"

definition wrap_target ::
    "(nat \<Rightarrow> string) \<Rightarrow> frame \<Rightarrow> drop_position \<Rightarrow> frame \<Rightarrow> string \<Rightarrow> frame \<Rightarrow> nat \<Rightarrow> (nat \<times> frame) option" where
  "wrap_target rng result p src targetId tgt n =
     map_option (map_prod id (replaceNode result targetId))
       (new_split rng (getAllIds result) (direction_of p) (placed p src tgt) n)"

text \<open>The child that survives when the deletion of the source has collapsed the target.\<close>

definition surviving_child :: "frame \<Rightarrow> string \<Rightarrow> string \<Rightarrow> frame \<Rightarrow> (string \<times> frame) option" where
  "surviving_child t sourceId targetId result =
     (case get_node t targetId of
        Some (Nary a cs) \<Rightarrow>
          (case find (\<lambda>c. \<not> has_the_id sourceId c) cs of
             Some c \<Rightarrow>
               (case attr ''id'' c of
                  Some (Str i) \<Rightarrow> map_option (Pair i) (get_node result i)
                | _ \<Rightarrow> None)
           | None \<Rightarrow> None)
      | _ \<Rightarrow> None)"

definition move_beside ::
    "(nat \<Rightarrow> string) \<Rightarrow> frame \<Rightarrow> string \<Rightarrow> string \<Rightarrow> drop_position \<Rightarrow> frame \<Rightarrow> nat \<Rightarrow> (nat \<times> frame) option" where
  "move_beside rng t sourceId targetId p src n =
     (let result = delete_node t sourceId in
      case insert_beside True p targetId src result of
        Some t' \<Rightarrow> Some (n, t')
      | None \<Rightarrow>
          (case get_node result targetId of
             Some tgt \<Rightarrow> wrap_target rng result p src targetId tgt n
           | None \<Rightarrow>
               (case surviving_child t sourceId targetId result of
                  None \<Rightarrow> Some (n, result)
                | Some (i, tgt) \<Rightarrow>
                    (case insert_beside False p i src result of
                       Some t' \<Rightarrow> Some (n, t')
                     | None \<Rightarrow> wrap_target rng result p src i tgt n))))"

text \<open>A parent of type \<open>tabs\<close> without \<open>children\<close> is a TypeError.\<close>

definition tab_attrs :: "string \<Rightarrow> attrs" where
  "tab_attrs i = [(''id'', Str i), (''type'', Str ''tabs''), (''activeTab'', Num (Fin 1))]"

definition new_tabs ::
    "(nat \<Rightarrow> string) \<Rightarrow> frame \<Rightarrow> frame \<Rightarrow> string \<Rightarrow> nat \<Rightarrow> (nat \<times> frame) option" where
  "new_tabs rng result src targetId n =
     (case get_node result targetId of
        None \<Rightarrow> Some (n, result)
      | Some tgt \<Rightarrow>
          (case generate_id rng (getAllIds result) n of
             None \<Rightarrow> None
           | Some (i, _, n') \<Rightarrow> Some (n', replaceNode result targetId (Nary (tab_attrs i) [tgt, src]))))"

definition push_tab :: "attrs \<Rightarrow> frame list \<Rightarrow> frame \<Rightarrow> frame" where
  "push_tab a cs c = Nary (obj_set ''activeTab'' (Num (num_of (length cs))) a) (cs @ [c])"

definition merge_as_tabs ::
    "(nat \<Rightarrow> string) \<Rightarrow> frame \<Rightarrow> string \<Rightarrow> string \<Rightarrow> nat \<Rightarrow> (nat \<times> frame) option" where
  "merge_as_tabs rng t sourceId targetId n =
     (case get_node t sourceId of
        None \<Rightarrow> Some (n, t)
      | Some src \<Rightarrow>
          (let result = delete_node t sourceId in
           case get_parent_id result targetId of
             Some (Str parentId) \<Rightarrow>
               (if parentId = '''' then new_tabs rng result src targetId n
                else case get_node result parentId of
                  None \<Rightarrow> new_tabs rng result src targetId n
                | Some parent \<Rightarrow>
                    (if \<not> has_type ''tabs'' parent then new_tabs rng result src targetId n
                     else case parent of
                       Nary a cs \<Rightarrow> Some (n, replaceNode result parentId (push_tab a cs src))
                     | _ \<Rightarrow> None))
           | _ \<Rightarrow> new_tabs rng result src targetId n))"

definition move_node ::
    "(nat \<Rightarrow> string) \<Rightarrow> frame \<Rightarrow> string \<Rightarrow> string \<Rightarrow> drop_position \<Rightarrow> nat \<Rightarrow> (nat \<times> frame) option" where
  "move_node rng t sourceId targetId p n =
     (if sourceId = targetId then Some (n, t)
      else case get_node t sourceId of
        None \<Rightarrow> Some (n, t)
      | Some src \<Rightarrow>
          (if has_id src targetId then Some (n, t)
           else if p = PCenter then Some (n, swap_nodes t sourceId targetId)
           else if p = PTab then merge_as_tabs rng t sourceId targetId n
           else move_beside rng t sourceId targetId p src n))"

section \<open>Tabs\<close>

text \<open>The container without its child \<open>idx\<close>.\<close>

definition untab :: "attrs \<Rightarrow> frame list \<Rightarrow> nat \<Rightarrow> frame" where
  "untab a cs idx =
     (let newChildren = delete_at idx cs in
      if length newChildren = 1 then hd newChildren
      else Nary (shift_active idx (length newChildren) a a) newChildren)"

definition extract_from_tabs ::
    "(nat \<Rightarrow> string) \<Rightarrow> frame \<Rightarrow> string \<Rightarrow> drop_position \<Rightarrow> nat \<Rightarrow> (nat \<times> frame) option" where
  "extract_from_tabs rng t sourceId p n =
     (case get_parent_id t sourceId of
        Some (Str parentId) \<Rightarrow>
          (if parentId = '''' then Some (n, t)
           else case get_node t parentId of
             None \<Rightarrow> Some (n, t)
           | Some parent \<Rightarrow>
               (if \<not> has_type ''tabs'' parent then Some (n, t)
                else case get_node t sourceId of
                  None \<Rightarrow> Some (n, t)
                | Some src \<Rightarrow>
                    (case parent of
                       Nary a cs \<Rightarrow>
                         (case find_index (has_the_id sourceId) cs of
                            None \<Rightarrow> Some (n, t)
                          | Some idx \<Rightarrow>
                              map_option (map_prod id (replaceNode t parentId))
                                (new_split rng (getAllIds t) (direction_of p) (placed p src (untab a cs idx)) n))
                     | _ \<Rightarrow> None)))
      | _ \<Rightarrow> Some (n, t))"

text \<open>\<open>None\<close>: a node of type \<open>tabs\<close> with the id has no \<open>children\<close>.\<close>

fun add_tab_proc :: "string \<Rightarrow> frame \<Rightarrow> frame \<Rightarrow> frame option" where
  "add_tab_proc i newLeaf Undef = Some Undef"
| "add_tab_proc i newLeaf (Nary a cs) =
     (if has_the_id i (Nary a cs) \<and> has_type ''tabs'' (Nary a cs) then Some (push_tab a cs newLeaf)
      else map_option (Nary a) (those (map (add_tab_proc i newLeaf) cs)))"
| "add_tab_proc i newLeaf (Node a f g) =
     (if has_the_id i (Node a f g) \<and> has_type ''tabs'' (Node a f g) then None else Some (Node a f g))"

definition add_tab ::
    "(nat \<Rightarrow> string) \<Rightarrow> frame \<Rightarrow> string \<Rightarrow> string \<Rightarrow> string option \<Rightarrow> nat \<Rightarrow> (nat \<times> frame) option" where
  "add_tab rng t tabsId ty path n =
     (case generate_id rng (getAllIds t) n of
        None \<Rightarrow> None
      | Some (i, _, n') \<Rightarrow>
          (let newLeaf = leaf ([(''id'', Str i), (''type'', Str ty)] @
                 (case path of None \<Rightarrow> [] | Some p \<Rightarrow> if p = '''' then [] else [(''path'', Str p)])) in
           map_option (Pair n') (add_tab_proc tabsId newLeaf t)))"

definition reordered :: "string \<Rightarrow> string option \<Rightarrow> frame list \<Rightarrow> nat \<Rightarrow> frame list" where
  "reordered sourceId before cs srcIdx =
     (let src = cs ! srcIdx; rest = delete_at srcIdx cs in
      case before of
        None \<Rightarrow> rest @ [src]
      | Some b \<Rightarrow>
          (case find_index (has_the_id b) rest of
             None \<Rightarrow> rest @ [src]
           | Some k \<Rightarrow> insert_at k src rest))"

definition reorder_children :: "string \<Rightarrow> string option \<Rightarrow> attrs \<Rightarrow> frame list \<Rightarrow> frame" where
  "reorder_children sourceId before a cs =
     (case find_index (has_the_id sourceId) cs of
        None \<Rightarrow> Nary a cs
      | Some srcIdx \<Rightarrow>
          (let cs' = reordered sourceId before cs srcIdx;
               newIdx = (case find_index (has_the_id sourceId) cs' of None \<Rightarrow> Fin (- 1) | Some k \<Rightarrow> num_of k) in
           Nary (obj_set ''activeTab'' (Num newIdx) a) cs'))"

fun reorder_tab :: "frame \<Rightarrow> string \<Rightarrow> string \<Rightarrow> string option \<Rightarrow> frame" where
  "reorder_tab Undef i sourceId before = Undef"
| "reorder_tab (Nary a cs) i sourceId before =
     (if has_the_id i (Nary a cs) \<and> has_type ''tabs'' (Nary a cs)
      then reorder_children sourceId before a cs
      else Nary a (map (\<lambda>c. reorder_tab c i sourceId before) cs))"
| "reorder_tab (Node a f g) i sourceId before = Node a f g"

section \<open>What operations keep\<close>

text \<open>
  A quantity of a tree that is summed over its nodes. The own share of an inner node depends on
  its id only. The leaves of a tree and its ids are such quantities; what the operations do to
  them is proved once, for both.
\<close>

definition total :: "(frame \<Rightarrow> 'a multiset) \<Rightarrow> frame \<Rightarrow> 'a multiset" where
  "total own t = (\<Sum>n\<leftarrow>walk t. own n)"

definition totals :: "(frame \<Rightarrow> 'a multiset) \<Rightarrow> frame list \<Rightarrow> 'a multiset" where
  "totals own cs = (\<Sum>c\<leftarrow>cs. total own c)"

named_theorems total_simps "how quantities of trees are summed"

lemma totals_simps [total_simps]:
  "totals own [] = {#}" "totals own (c # cs) = total own c + totals own cs"
  "totals own (xs @ ys) = totals own xs + totals own ys"
  by (simp_all add: totals_def)

lemma total_Nary_aux: "(\<Sum>n\<leftarrow>concat (map walk cs). own n) = totals own cs"
  by (induction cs) (simp_all add: totals_def total_def)

lemma total_tree_simps [total_simps]:
  "total own Undef = {#}"
  "total own (Nary a cs) = own (Nary a cs) + totals own cs"
  "total own (Node a f g) = own (Node a f g) + (total own f + total own g)"
  unfolding total_def walk.simps list.map sum_list.Cons total_Nary_aux by simp_all

lemma totals_insert_at [total_simps]: "totals own (insert_at k c cs) = total own c + totals own cs"
proof -
  have "totals own cs = totals own (take k cs) + totals own (drop k cs)"
    unfolding totals_simps(3)[symmetric] by simp
  then show ?thesis by (simp add: insert_at_def total_simps add_ac)
qed

lemma totals_delete_at:
  assumes "k < length cs"
  shows "totals own cs = total own (cs ! k) + totals own (delete_at k cs)"
proof -
  have "totals own cs = totals own (take k cs @ cs ! k # drop (Suc k) cs)"
    using assms by (simp add: id_take_nth_drop[symmetric])
  then show ?thesis by (simp add: delete_at_def total_simps add_ac)
qed

definition leaf_own :: "frame \<Rightarrow> frame multiset" where
  "leaf_own n = (if is_leaf n then {#n#} else {#})"

definition id_own :: "frame \<Rightarrow> jsval option multiset" where
  "id_own n = {#id_of n#}"

lemma total_leaf_own: "total leaf_own t = mset (collect_leaves t)"
proof -
  have "(\<Sum>n\<leftarrow>xs. leaf_own n) = mset (filter is_leaf xs)" for xs
    by (induction xs) (auto simp: leaf_own_def)
  then show ?thesis by (simp add: total_def collect_leaves_walk)
qed

lemma total_id_own: "total id_own t = mset (all_ids t)"
proof -
  have "(\<Sum>n\<leftarrow>xs. id_own n) = mset (map id_of xs)" for xs
    by (induction xs) (auto simp: id_own_def)
  then show ?thesis by (simp add: total_def all_ids_def)
qed

text \<open>The topmost nodes that a replacement is given for, in the order of the walk.\<close>

fun hits :: "(string, frame) obj \<Rightarrow> frame \<Rightarrow> frame list" where
  "hits R Undef = []"
| "hits R (Nary a cs) =
     (if replacement_of R (Nary a cs) \<noteq> None then [Nary a cs] else concat (map (hits R) cs))"
| "hits R (Node a f g) =
     (if replacement_of R (Node a f g) \<noteq> None then [Node a f g] else hits R f @ hits R g)"

definition replaced :: "(string, frame) obj \<Rightarrow> frame \<Rightarrow> frame" where
  "replaced R h = the (replacement_of R h)"

text \<open>\<open>m\<close> has the two children \<open>n\<close> and \<open>c\<close>.\<close>

definition pair_of :: "frame \<Rightarrow> frame \<Rightarrow> frame \<Rightarrow> bool" where
  "pair_of m n c \<longleftrightarrow> (\<exists>a. m = Nary a [n, c] \<or> m = Nary a [c, n] \<or> m = Node a n c \<or> m = Node a c n)"

text \<open>
  \<open>t'\<close> is \<open>t\<close> without the subtree \<open>n\<close>, and without the node above \<open>n\<close> if it had one more child
  only, which then is a node of \<open>t'\<close>.
\<close>

definition removed :: "(frame \<Rightarrow> 'a multiset) \<Rightarrow> frame \<Rightarrow> frame \<Rightarrow> frame \<Rightarrow> bool" where
  "removed own t n t' \<longleftrightarrow>
     well_formed t' \<and>
     (\<exists>K. total own t = total own t' + total own n + K \<and>
       (K = {#} \<or> (\<exists>m \<in> set (walk t). \<exists>c \<in> set (walk t'). pair_of m n c \<and> K = own m)))"

lemma find_index_Some:
  "find_index p xs = Some k \<Longrightarrow> k < length xs \<and> p (xs ! k)"
  by (induction xs arbitrary: k) (auto split: if_splits)

lemma find_index_None: "find_index p xs = None \<longleftrightarrow> (\<forall>x \<in> set xs. \<not> p x)"
  by (induction xs) auto

lemma replace_proc_0 [simp]: "replace_proc R t 0 = (0, t)"
  by (cases t) auto

lemma delete_proc_done [simp]: "delete_proc i t True = (True, t)"
  by (cases t) auto

lemma replace_proc_not_Undef:
  assumes "\<forall>u \<in> snd ` set R. u \<noteq> Undef" "t \<noteq> Undef"
  shows "snd (replace_proc R t r) \<noteq> Undef"
proof -
  have "u \<noteq> Undef" if "replacement_of R t = Some u" for u
    using that assms(1) by (force simp: replacement_of_def dest!: map_of_SomeD split: option.splits jsval.splits)
  then show ?thesis
    using assms(2) by (cases t) (auto split: prod.splits option.splits)
qed

lemma shrink_sizes_id [simp]: "obj_get (shrink_sizes idx a) ''id'' = obj_get a ''id''"
  by (auto simp: shrink_sizes_def Let_def update_conv' split: option.splits)

lemma shift_active_id [simp]: "obj_get (shift_active idx len old a) ''id'' = obj_get a ''id''"
  by (auto simp: shift_active_def Let_def update_conv')

locale tree_measure =
  fixes own :: "frame \<Rightarrow> 'a multiset"
  assumes own_Nary: "obj_get a ''id'' = obj_get a' ''id'' \<Longrightarrow> own (Nary a cs) = own (Nary a' cs')"
    and own_Node: "\<not> is_leaf (Node a f g) \<Longrightarrow> \<not> is_leaf (Node a f' g') \<Longrightarrow> own (Node a f g) = own (Node a f' g')"
begin

lemma replace_proc_list:
  assumes "\<And>c r. c \<in> set cs \<Longrightarrow>
      total own (snd (replace_proc R c r)) + totals own (take r (hits R c)) =
        total own c + totals own (map (replaced R) (take r (hits R c))) \<and>
      fst (replace_proc R c r) = r - length (hits R c)"
  shows "totals own (snd (smap (replace_proc R) cs r)) + totals own (take r (concat (map (hits R) cs))) =
      totals own cs + totals own (map (replaced R) (take r (concat (map (hits R) cs)))) \<and>
      fst (smap (replace_proc R) cs r) = r - length (concat (map (hits R) cs))"
  using assms
proof (induction cs arbitrary: r)
  case (Cons c cs)
  let ?h = "hits R c" and ?hs = "concat (map (hits R) cs)"
  have c: "total own (snd (replace_proc R c r)) + totals own (take r ?h) =
        total own c + totals own (map (replaced R) (take r ?h))"
      "fst (replace_proc R c r) = r - length ?h"
    using Cons.prems by auto
  have cs: "totals own (snd (smap (replace_proc R) cs (r - length ?h))) + totals own (take (r - length ?h) ?hs) =
      totals own cs + totals own (map (replaced R) (take (r - length ?h) ?hs))"
      "fst (smap (replace_proc R) cs (r - length ?h)) = r - length ?h - length ?hs"
    using Cons.IH[of "r - length ?h"] Cons.prems by auto
  have "(total own (snd (replace_proc R c r)) + totals own (take r ?h)) +
      (totals own (snd (smap (replace_proc R) cs (r - length ?h))) + totals own (take (r - length ?h) ?hs)) =
      (total own c + totals own (map (replaced R) (take r ?h))) +
      (totals own cs + totals own (map (replaced R) (take (r - length ?h) ?hs)))"
    by (simp only: c(1) cs(1))
  then show ?case using c(2) cs(2) by (simp add: case_prod_beta Let_def total_simps add_ac)
qed (simp add: total_simps)

lemma replace_proc_total:
  assumes "\<forall>u \<in> snd ` set R. u \<noteq> Undef"
  shows "total own (snd (replace_proc R t r)) + totals own (take r (hits R t)) =
        total own t + totals own (map (replaced R) (take r (hits R t))) \<and>
      fst (replace_proc R t r) = r - length (hits R t)"
proof (induction t arbitrary: r)
  case (Nary a cs)
  show ?case
  proof (cases "r = 0 \<or> replacement_of R (Nary a cs) \<noteq> None")
    case True
    then show ?thesis by (cases r) (auto simp: total_simps replaced_def)
  next
    case False
    have "own (Nary a (snd (smap (replace_proc R) cs r))) = own (Nary a cs)" by (rule own_Nary) simp
    then show ?thesis using False replace_proc_list[where R = R and cs = cs and r = r, OF Nary.IH]
      by (simp add: case_prod_beta Let_def total_simps add_ac)
  qed
next
  case (Node a f g)
  show ?case
  proof (cases "r = 0 \<or> replacement_of R (Node a f g) \<noteq> None")
    case True
    then show ?thesis by (cases r) (auto simp: total_simps replaced_def)
  next
    case False
    let ?f = "snd (replace_proc R f r)" and ?g = "snd (replace_proc R g (fst (replace_proc R f r)))"
    have "own (Node a ?f ?g) = own (Node a f g)"
    proof (cases "is_leaf (Node a f g)")
      case True
      then show ?thesis by auto
    next
      case inner: False
      then have "\<not> is_leaf (Node a ?f ?g)" using replace_proc_not_Undef[OF assms] by auto
      then show ?thesis using inner by (intro own_Node) auto
    qed
    moreover have "(total own ?f + totals own (take r (hits R f))) +
        (total own ?g + totals own (take (r - length (hits R f)) (hits R g))) =
        (total own f + totals own (map (replaced R) (take r (hits R f)))) +
        (total own g + totals own (map (replaced R) (take (r - length (hits R f)) (hits R g))))"
      using Node.IH by simp
    ultimately show ?thesis using False Node.IH
      by (simp add: case_prod_beta Let_def total_simps add_ac)
  qed
qed (simp add: total_simps)

end

lemma distinct_concat_mem: "distinct (concat (map f cs)) \<Longrightarrow> c \<in> set cs \<Longrightarrow> distinct (f c)"
  by (induction cs) auto

lemma all_ids_distinct_sub: "distinct (all_ids t) \<Longrightarrow> n \<in> set (walk t) \<Longrightarrow> distinct (all_ids n)"
  by (induction t) (auto simp: frame_simps dest: distinct_concat_mem)

lemma same_node:
  assumes "distinct (all_ids t)" "n \<in> set (walk t)" "m \<in> set (walk t)" "id_of n = id_of m"
  shows "n = m"
  using assms by (auto simp: all_ids_def distinct_map inj_on_def)

lemma child_in_walk: "c \<in> set cs \<Longrightarrow> c \<noteq> Undef \<Longrightarrow> c \<in> set (walk (Nary a cs))"
  using walk_self by auto

lemma remove_child_well_formed:
  assumes "well_formed (Nary a cs)" "idx < length cs"
  shows "well_formed (remove_child a cs idx)"
proof -
  have sub: "set (delete_at idx cs) \<subseteq> set cs"
    by (auto simp: delete_at_def dest: in_set_takeD in_set_dropD)
  show ?thesis
  proof (cases "length (delete_at idx cs) = 1")
    case True
    then have "hd (delete_at idx cs) \<in> set cs" using sub by (cases "delete_at idx cs") auto
    then show ?thesis using True assms(1) by (simp add: remove_child_def)
  next
    case False
    then show ?thesis using sub assms(1) by (auto simp: remove_child_def Let_def)
  qed
qed

lemma delete_proc_none: "\<not> has_id t i \<Longrightarrow> delete_proc i t False = (False, t)"
proof (induction t)
  case (Nary a cs)
  have no: "\<not> has_id c i" if "c \<in> set cs" for c using Nary.prems that by (auto simp: has_id_def)
  then have "\<not> has_the_id i c" if "c \<in> set cs" for c
    using that walk_self by (cases "c = Undef") (auto simp: has_id_def)
  then have "find_index (has_the_id i) cs = None" by (auto simp: find_index_None)
  moreover have "smap (delete_proc i) cs False = (False, cs)" using Nary.IH no by (intro smap_id) auto
  ultimately show ?case by simp
next
  case (Node a f g)
  have "\<not> has_id f i" "\<not> has_id g i" using Node.prems by (auto simp: has_id_def)
  moreover have "f \<noteq> Undef \<Longrightarrow> \<not> has_the_id i f" "g \<noteq> Undef \<Longrightarrow> \<not> has_the_id i g"
    using Node.prems walk_self by (auto simp: has_id_def)
  ultimately show ?case using Node.IH by auto
qed simp

lemma smap_split:
  assumes "\<And>c. c \<in> set xs \<Longrightarrow> h c False = (False, c)" "h c False = (True, c')"
    and "\<And>c. c \<in> set ys \<Longrightarrow> h c True = (True, c)"
  shows "smap h (xs @ c # ys) False = (True, xs @ c' # ys)"
  using assms smap_id[of xs h False] smap_id[of ys h True] by (simp add: smap_append)

lemma distinct_walk_split:
  assumes "distinct (concat (map all_ids cs))" "c \<in> set cs" "n \<in> set (walk c)"
  obtains xs ys where "cs = xs @ c # ys" "\<forall>d \<in> set xs \<union> set ys. id_of n \<notin> set (all_ids d)"
proof -
  obtain xs ys where cs: "cs = xs @ c # ys" using assms(2) by (meson split_list)
  have "id_of n \<in> set (all_ids c)" using assms(3) by (simp add: set_all_ids)
  then have "\<forall>d \<in> set xs \<union> set ys. id_of n \<notin> set (all_ids d)" using assms(1) unfolding cs by auto
  then show ?thesis using cs that by blast
qed

lemma delete_at_single:
  assumes "k < length cs" "delete_at k cs = [c]"
  shows "cs = [cs ! k, c] \<or> cs = [c, cs ! k]"
proof -
  have "length (delete_at k cs) = length cs - 1" using assms(1) by (simp add: delete_at_def)
  then have "length cs = 2" using assms by simp
  then obtain x y where "cs = [x, y]" by (auto simp: numeral_2_eq_2 length_Suc_conv)
  then show ?thesis using assms by (cases k) (auto simp: delete_at_def)
qed

context tree_measure
begin

lemma remove_child_removes:
  assumes "well_formed (Nary a cs)" "idx < length cs"
  shows "removed own (Nary a cs) (cs ! idx) (remove_child a cs idx)"
proof (cases "length (delete_at idx cs) = 1")
  case True
  then obtain c where c: "delete_at idx cs = [c]" by (cases "delete_at idx cs") auto
  then have eq: "total own (Nary a cs) = total own (remove_child a cs idx) + total own (cs ! idx) + own (Nary a cs)"
    using totals_delete_at[OF assms(2), of own] by (simp add: remove_child_def total_simps add_ac)
  have rc: "remove_child a cs idx = c" using c by (simp add: remove_child_def)
  then have "c \<in> set (walk (remove_child a cs idx))"
    using remove_child_well_formed[OF assms] walk_self well_formed_not_Undef by metis
  moreover have "Nary a cs \<in> set (walk (Nary a cs))" by simp
  ultimately show ?thesis using remove_child_well_formed[OF assms] eq delete_at_single[OF assms(2) c]
    unfolding removed_def pair_of_def by blast
next
  case False
  obtain a' where a': "remove_child a cs idx = Nary a' (delete_at idx cs)" "obj_get a' ''id'' = obj_get a ''id''"
    using False by (auto simp: remove_child_def Let_def)
  then have "own (Nary a' (delete_at idx cs)) = own (Nary a cs)" by (intro own_Nary)
  then have "total own (Nary a cs) = total own (remove_child a cs idx) + total own (cs ! idx)"
    using totals_delete_at[OF assms(2), of own] a'(1) by (simp add: total_simps add_ac)
  then show ?thesis using remove_child_well_formed[OF assms] unfolding removed_def by auto
qed

lemma removed_in_child:
  assumes "removed own c n c'" "well_formed (Nary a (xs @ c # ys))"
  shows "removed own (Nary a (xs @ c # ys)) n (Nary a (xs @ c' # ys))"
proof -
  obtain K where K: "total own c = total own c' + total own n + K"
      "K = {#} \<or> (\<exists>m \<in> set (walk c). \<exists>d \<in> set (walk c'). pair_of m n d \<and> K = own m)"
    using assms(1) by (auto simp: removed_def)
  have "own (Nary a (xs @ c # ys)) = own (Nary a (xs @ c' # ys))" by (rule own_Nary) simp
  then have "total own (Nary a (xs @ c # ys)) = total own (Nary a (xs @ c' # ys)) + total own n + K"
    by (simp add: total_simps K(1) add_ac)
  moreover have "well_formed (Nary a (xs @ c' # ys))" using assms by (auto simp: removed_def)
  ultimately show ?thesis using K(2) unfolding removed_def by fastforce
qed

lemma removed_in_branch:
  assumes "well_formed (Node a f g)" "\<not> is_leaf (Node a f g)"
  shows "removed own f n f' \<Longrightarrow> removed own (Node a f g) n (Node a f' g)"
    and "removed own g n g' \<Longrightarrow> removed own (Node a f g) n (Node a f g')"
proof -
  have fg: "f \<noteq> Undef" "g \<noteq> Undef" "well_formed f" "well_formed g" using assms by auto
  show "removed own (Node a f g) n (Node a f' g)" if r: "removed own f n f'"
  proof -
    obtain K where K: "total own f = total own f' + total own n + K"
        "K = {#} \<or> (\<exists>m \<in> set (walk f). \<exists>d \<in> set (walk f'). pair_of m n d \<and> K = own m)"
      using r by (auto simp: removed_def)
    have "own (Node a f g) = own (Node a f' g)" using fg by (intro own_Node) auto
    then have "total own (Node a f g) = total own (Node a f' g) + total own n + K"
      by (simp add: total_simps K(1) add_ac)
    then show ?thesis using K(2) r fg unfolding removed_def by fastforce
  qed
  show "removed own (Node a f g) n (Node a f g')" if r: "removed own g n g'"
  proof -
    obtain K where K: "total own g = total own g' + total own n + K"
        "K = {#} \<or> (\<exists>m \<in> set (walk g). \<exists>d \<in> set (walk g'). pair_of m n d \<and> K = own m)"
      using r by (auto simp: removed_def)
    have "own (Node a f g) = own (Node a f g')" using fg by (intro own_Node) auto
    then have "total own (Node a f g) = total own (Node a f g') + total own n + K"
      by (simp add: total_simps K(1) add_ac)
    then show ?thesis using K(2) r fg unfolding removed_def by fastforce
  qed
qed

lemma removed_other_branch:
  assumes "well_formed f" "well_formed g"
  shows "removed own (Node a f g) f g" "removed own (Node a f g) g f"
proof -
  have "g \<in> set (walk g)" "f \<in> set (walk f)" using assms walk_self well_formed_not_Undef by blast+
  moreover have "total own (Node a f g) = total own g + total own f + own (Node a f g)"
      "total own (Node a f g) = total own f + total own g + own (Node a f g)"
    by (simp_all add: total_simps add_ac)
  moreover have "Node a f g \<in> set (walk (Node a f g))" by simp
  ultimately show "removed own (Node a f g) f g" "removed own (Node a f g) g f"
    using assms unfolding removed_def pair_of_def by blast+
qed

lemma delete_in_children:
  assumes "well_formed (Nary a cs)" "distinct (all_ids (Nary a cs))" "id_of (Nary a cs) \<noteq> Some (Str i)"
    "n \<in> set (walk (Nary a cs))" "id_of n = Some (Str i)"
    and "\<And>c. c \<in> set cs \<Longrightarrow> well_formed c \<Longrightarrow> distinct (all_ids c) \<Longrightarrow> id_of c \<noteq> Some (Str i) \<Longrightarrow> n \<in> set (walk c) \<Longrightarrow> id_of n = Some (Str i) \<Longrightarrow>
      fst (delete_proc i c False) \<and> removed own c n (snd (delete_proc i c False))"
  shows "fst (delete_proc i (Nary a cs) False) \<and> removed own (Nary a cs) n (snd (delete_proc i (Nary a cs) False))"
proof -
  have dist: "distinct (concat (map all_ids cs))" using assms(2) by (simp add: frame_simps)
  show ?thesis
  proof (cases "find_index (has_the_id i) cs")
    case (Some idx)
    then have idx: "idx < length cs" "has_the_id i (cs ! idx)" by (auto dest: find_index_Some)
    then have mem: "cs ! idx \<in> set (walk (Nary a cs))"
      using assms(1) by (intro child_in_walk well_formed_not_Undef) auto
    have "id_of n = id_of (cs ! idx)" using idx(2) assms(5) by simp
    from same_node[OF assms(2,4) mem this] have n: "n = cs ! idx" .
    show ?thesis unfolding n using Some remove_child_removes[OF assms(1) idx(1)] by simp
  next
    case None
    obtain c where c: "c \<in> set cs" "n \<in> set (walk c)" using assms(3-5) by auto
    obtain xs ys where cs: "cs = xs @ c # ys" and no: "\<forall>d \<in> set xs \<union> set ys. id_of n \<notin> set (all_ids d)"
      using distinct_walk_split[OF dist c] by blast
    have c': "id_of c \<noteq> Some (Str i)" using None c(1) by (auto simp: find_index_None)
    have "distinct (all_ids c)" using distinct_concat_mem[OF dist c(1)] .
    then have IH: "fst (delete_proc i c False)" "removed own c n (snd (delete_proc i c False))"
      using assms(6)[OF c(1) _ _ c' c(2) assms(5)] assms(1) c(1) by auto
    have "smap (delete_proc i) (xs @ c # ys) False = (True, xs @ snd (delete_proc i c False) # ys)"
    proof (rule smap_split)
      show "delete_proc i d False = (False, d)" if "d \<in> set xs" for d
        using no that assms(5) by (intro delete_proc_none) (auto simp: has_id_iff)
      show "delete_proc i c False = (True, snd (delete_proc i c False))" using IH(1) by (simp add: prod_eq_iff)
    qed simp
    then show ?thesis using None removed_in_child[OF IH(2)] assms(1) unfolding cs by simp
  qed
qed

lemma delete_in_branches:
  assumes "well_formed (Node a f g)" "distinct (all_ids (Node a f g))" "id_of (Node a f g) \<noteq> Some (Str i)"
    "n \<in> set (walk (Node a f g))" "id_of n = Some (Str i)"
    and "well_formed f \<Longrightarrow> distinct (all_ids f) \<Longrightarrow> id_of f \<noteq> Some (Str i) \<Longrightarrow> n \<in> set (walk f) \<Longrightarrow> id_of n = Some (Str i) \<Longrightarrow>
      fst (delete_proc i f False) \<and> removed own f n (snd (delete_proc i f False))"
    and "well_formed g \<Longrightarrow> distinct (all_ids g) \<Longrightarrow> id_of g \<noteq> Some (Str i) \<Longrightarrow> n \<in> set (walk g) \<Longrightarrow> id_of n = Some (Str i) \<Longrightarrow>
      fst (delete_proc i g False) \<and> removed own g n (snd (delete_proc i g False))"
  shows "fst (delete_proc i (Node a f g) False) \<and> removed own (Node a f g) n (snd (delete_proc i (Node a f g) False))"
proof -
  have leaf: "\<not> is_leaf (Node a f g)" using assms(3-5) by auto
  then have wf: "well_formed f" "well_formed g" "f \<noteq> Undef" "g \<noteq> Undef" using assms(1) by auto
  have dist: "distinct (all_ids f)" "distinct (all_ids g)" "set (all_ids f) \<inter> set (all_ids g) = {}"
    using assms(2) by (auto simp: frame_simps)
  have mem: "f \<in> set (walk (Node a f g))" "g \<in> set (walk (Node a f g))" using wf walk_self by auto
  show ?thesis
  proof (cases "n \<in> set (walk f)")
    case True
    then have "Some (Str i) \<in> set (all_ids f)" using assms(5) by (metis image_eqI set_all_ids)
    then have g: "id_of g \<noteq> Some (Str i)" using dist(3) walk_self[OF wf(4)] by (metis disjoint_iff image_eqI set_all_ids)
    show ?thesis
    proof (cases "id_of f = Some (Str i)")
      case hit: True
      have "n = f" using same_node[OF assms(2,4) mem(1)] hit assms(5) by simp
      then show ?thesis using removed_other_branch[OF wf(1,2)] wf hit by simp
    next
      case False
      have IH: "fst (delete_proc i f False)" "removed own f n (snd (delete_proc i f False))"
        using assms(6)[OF wf(1) dist(1) False True assms(5)] by auto
      then show ?thesis using removed_in_branch(1)[OF assms(1) leaf IH(2)] False g wf
        by (simp add: case_prod_beta Let_def)
    qed
  next
    case False
    then have ng: "n \<in> set (walk g)" using assms(3-5) by auto
    then have "Some (Str i) \<in> set (all_ids g)" using assms(5) by (metis image_eqI set_all_ids)
    then have "\<not> has_id f i" using dist(3) by (auto simp: has_id_iff)
    then have f: "delete_proc i f False = (False, f)" "id_of f \<noteq> Some (Str i)"
      using walk_self[OF wf(3)] by (auto simp: has_id_def intro: delete_proc_none)
    show ?thesis
    proof (cases "id_of g = Some (Str i)")
      case hit: True
      have "n = g" using same_node[OF assms(2,4) mem(2)] hit assms(5) by simp
      then show ?thesis using removed_other_branch[OF wf(1,2)] wf hit f by simp
    next
      case no: False
      have IH: "fst (delete_proc i g False)" "removed own g n (snd (delete_proc i g False))"
        using assms(7)[OF wf(2) dist(2) no ng assms(5)] by auto
      then show ?thesis using removed_in_branch(2)[OF assms(1) leaf IH(2)] f no wf
        by (simp add: case_prod_beta Let_def)
    qed
  qed
qed

lemma delete_proc_removes:
  assumes "well_formed t" "distinct (all_ids t)" "id_of t \<noteq> Some (Str i)" "n \<in> set (walk t)" "id_of n = Some (Str i)"
  shows "fst (delete_proc i t False) \<and> removed own t n (snd (delete_proc i t False))"
  using assms
proof (induction t)
  case (Nary a cs)
  then show ?case by (intro delete_in_children)
next
  case (Node a f g)
  then show ?case by (intro delete_in_branches)
qed simp

lemma delete_node_removes:
  assumes "well_formed t" "distinct (all_ids t)" "id_of t \<noteq> Some (Str i)" "get_node t i = Some n"
  shows "removed own t n (delete_node t i)"
  using delete_proc_removes[OF assms(1-3) get_node_Some[OF assms(4)]] assms(3) by (simp add: delete_node_def)

end

interpretation leaves: tree_measure leaf_own
  by unfold_locales (auto simp: leaf_own_def)

interpretation ids: tree_measure id_own
  by unfold_locales (auto simp: id_own_def)

section \<open>Replacing one node\<close>

lemma replacement_of_single: "replacement_of [(i, u)] t = (if id_of t = Some (Str i) then Some u else None)"
  by (auto simp: replacement_of_def split: option.splits jsval.splits)

lemma find_append: "find p (xs @ ys) = (case find p xs of None \<Rightarrow> find p ys | x \<Rightarrow> x)"
  by (induction xs) auto

definition first_of :: "'a list \<Rightarrow> 'a option" where
  "first_of xs = (case xs of [] \<Rightarrow> None | h # _ \<Rightarrow> Some h)"

lemma first_of_simps [simp]: "first_of [] = None" "first_of (x # xs) = Some x"
  "first_of (xs @ ys) = (case first_of xs of None \<Rightarrow> first_of ys | x \<Rightarrow> x)"
  by (simp_all add: first_of_def split: list.split)

lemma find_concat:
  "(\<And>c. c \<in> set cs \<Longrightarrow> find p (f c) = first_of (g c)) \<Longrightarrow>
     find p (concat (map f cs)) = first_of (concat (map g cs))"
  by (induction cs) (simp_all add: find_append split: option.split)

lemma get_node_hits: "get_node t i = first_of (hits [(i, u)] t)"
  unfolding get_node_def
proof (induction t)
  case (Nary a cs)
  have "find (has_the_id i) (concat (map walk cs)) = first_of (concat (map (hits [(i, u)]) cs))"
    by (rule find_concat) (rule Nary)
  moreover have "has_the_id i (Nary a cs) \<longleftrightarrow> obj_get a ''id'' = Some (Str i)" by simp
  ultimately show ?case by (simp add: replacement_of_single del: has_the_id_iff)
qed (simp_all add: replacement_of_single find_append split: option.split)

context tree_measure
begin

lemma replaceNode_total:
  assumes "get_node t i = Some n" "u \<noteq> Undef"
  shows "total own (replaceNode t i u) + total own n = total own t + total own u"
proof -
  obtain hs where hs: "hits [(i, u)] t = n # hs"
    using assms(1) get_node_hits[of t i u] by (cases "hits [(i, u)] t") auto
  have "replaced [(i, u)] n = u"
    using get_node_Some(2)[OF assms(1)] by (simp add: replaced_def replacement_of_single)
  then show ?thesis
    using replace_proc_total[of "[(i, u)]" t 1] hs assms(2)
    by (simp add: replaceNode_def replaceNodes_def total_simps)
qed

end

lemma replace_proc_shape:
  assumes "\<And>a a' cs cs'. length cs = length cs' \<Longrightarrow> (\<forall>c \<in> set cs'. P c) \<Longrightarrow> P (Nary a cs) \<Longrightarrow> P (Nary a cs')"
    and "\<And>a cs c. P (Nary a cs) \<Longrightarrow> c \<in> set cs \<Longrightarrow> P c"
    and "\<And>a f g. P (Node a f g) \<Longrightarrow> f = Undef \<and> g = Undef \<or> P f \<and> P g"
    and "\<And>a f g f' g'. P (Node a f g) \<Longrightarrow> P f' \<Longrightarrow> P g' \<Longrightarrow> \<not> is_leaf (Node a f g) \<Longrightarrow> P (Node a f' g')"
    and "\<forall>u \<in> snd ` set R. P u" "P t"
  shows "P (snd (replace_proc R t r))"
proof -
  have R: "P u" if "replacement_of R n = Some u" for u n
    using that assms(5) by (force simp: replacement_of_def dest!: map_of_SomeD split: option.splits jsval.splits)
  show ?thesis using assms(6)
  proof (induction t arbitrary: r)
    case (Nary a cs)
    have "\<forall>c \<in> set ds. P c \<Longrightarrow> set ds \<subseteq> set cs \<Longrightarrow> \<forall>c \<in> set (snd (smap (replace_proc R) ds r)). P c" for ds
      using Nary.IH by (induction ds arbitrary: r) (auto simp: case_prod_beta Let_def)
    moreover have "\<forall>c \<in> set cs. P c" using assms(2) Nary.prems by blast
    ultimately have "\<forall>c \<in> set (snd (smap (replace_proc R) cs r)). P c" by blast
    then show ?case using R Nary.prems assms(1)[of cs "snd (smap (replace_proc R) cs r)" a]
      by (auto simp: case_prod_beta Let_def split: option.splits)
  next
    case (Node a f g)
    show ?case
    proof (cases "r = 0 \<or> is_leaf (Node a f g) \<or> replacement_of R (Node a f g) \<noteq> None")
      case True
      then show ?thesis using R Node.prems by (auto split: option.splits)
    next
      case False
      then have "P f" "P g" using assms(3)[OF Node.prems] by auto
      then have "P (Node a (snd (replace_proc R f r)) (snd (replace_proc R g (fst (replace_proc R f r)))))"
        using False Node.IH assms(4)[OF Node.prems] by blast
      then show ?thesis using False by (simp add: case_prod_beta Let_def)
    qed
  qed simp
qed

text \<open>No legacy branches anywhere.\<close>

fun nary :: "frame \<Rightarrow> bool" where
  "nary Undef = False"
| "nary (Nary a cs) = (\<forall>c \<in> set cs. nary c)"
| "nary (Node a f g) = (f = Undef \<and> g = Undef)"

lemma nary_well_formed: "nary t \<Longrightarrow> well_formed t"
  by (induction t) auto

lemma nary_walk: "nary t \<Longrightarrow> n \<in> set (walk t) \<Longrightarrow> nary n"
  by (induction t) auto

lemma replaceNode_nary: "nary t \<Longrightarrow> nary u \<Longrightarrow> nary (replaceNode t i u)"
  unfolding replaceNode_def replaceNodes_def by (rule replace_proc_shape[where P = nary]) auto

lemma replaceNodes_nary: "nary t \<Longrightarrow> \<forall>u \<in> snd ` set R. nary u \<Longrightarrow> nary (replaceNodes t R)"
  unfolding replaceNodes_def by (rule replace_proc_shape[where P = nary]) auto

lemma delete_at_subset: "set (delete_at k xs) \<subseteq> set xs"
  by (auto simp: delete_at_def dest: in_set_takeD in_set_dropD)

lemma remove_child_nary:
  assumes "nary (Nary a cs)"
  shows "nary (remove_child a cs idx)"
proof (cases "length (delete_at idx cs) = 1")
  case True
  then have "hd (delete_at idx cs) \<in> set cs"
    using delete_at_subset[of idx cs] by (cases "delete_at idx cs") auto
  then show ?thesis using True assms by (simp add: remove_child_def)
next
  case False
  then show ?thesis using delete_at_subset assms by (fastforce simp: remove_child_def Let_def)
qed

lemma delete_proc_nary: "nary t \<Longrightarrow> nary (snd (delete_proc i t d))"
proof (induction t arbitrary: d)
  case (Nary a cs)
  have "set ds \<subseteq> set cs \<Longrightarrow> \<forall>c \<in> set (snd (smap (delete_proc i) ds d)). nary c" for ds
    using Nary by (induction ds arbitrary: d) (auto simp: case_prod_beta Let_def)
  then have "\<forall>c \<in> set (snd (smap (delete_proc i) cs d)). nary c" by blast
  then show ?case using Nary.prems remove_child_nary[of a cs]
    by (auto simp: case_prod_beta Let_def simp del: remove_child_def split: option.splits)
qed auto

lemma delete_node_nary: "nary t \<Longrightarrow> nary (delete_node t i)"
  by (simp add: delete_node_def delete_proc_nary)

section \<open>Fresh ids\<close>

text \<open>The random source never gives the empty string, and outside any finite set again and again.\<close>

definition fresh_source :: "(nat \<Rightarrow> string) \<Rightarrow> bool" where
  "fresh_source rng \<longleftrightarrow> (\<forall>m. rng m \<noteq> '''') \<and> (\<forall>ids n. \<exists>m \<ge> n. rng m \<notin> set (ids :: string list))"

lemma generate_id_stops:
  assumes "rng m \<notin> set ids" "n \<le> m"
  shows "\<exists>k. n \<le> k \<and> k \<le> m \<and> generate_id rng ids n = Some (rng k, rng k # ids, k + 1) \<and> rng k \<notin> set ids"
  using assms(2)
proof (induction rule: inc_induct)
  case base
  then show ?case using assms(1) by (subst generate_id.simps) auto
next
  case (step n)
  then show ?case by (subst generate_id.simps) force
qed

lemma generate_id_fresh:
  assumes "fresh_source rng"
  obtains k where "generate_id rng ids n = Some (rng k, rng k # ids, k + 1)" "rng k \<notin> set ids" "rng k \<noteq> ''''"
proof -
  obtain m where "m \<ge> n" "rng m \<notin> set ids" using assms unfolding fresh_source_def by blast
  then obtain k where "generate_id rng ids n = Some (rng k, rng k # ids, k + 1)" "rng k \<notin> set ids"
    using generate_id_stops[of rng m ids n] by blast
  then show ?thesis using that assms unfolding fresh_source_def by blast
qed

section \<open>Moving\<close>

lemma distinct_sub_mset:
  assumes "mset xs \<subseteq># mset ys" "distinct ys"
  shows "distinct xs"
proof -
  obtain zs where "mset ys = mset xs + mset zs" using assms(1) by (metis ex_mset mset_subset_eq_exists_conv)
  then have "mset ys = mset (xs @ zs)" by simp
  then show ?thesis using assms(2) by (metis distinct_append mset_eq_imp_distinct_iff)
qed

lemma fold_same: "(\<And>x. x \<in> set xs \<Longrightarrow> f x s = s) \<Longrightarrow> fold f xs s = s"
  by (induction xs) auto

lemma get_parent_id_None: "\<not> has_id t i \<Longrightarrow> get_parent_id t i = None"
proof -
  assume no: "\<not> has_id t i"
  have "parent_proc i t None = None"
    using no
  proof (induction t)
    case (Nary a cs)
    have "\<not> has_the_id i c" "\<not> has_id c i" if "c \<in> set cs" for c
      using Nary.prems that walk_self by (cases "c = Undef"; auto simp: has_id_def)+
    then show ?case using Nary.IH by (auto intro: fold_same)
  next
    case (Node a f g)
    have "\<not> has_id f i" "\<not> has_id g i" "f \<noteq> Undef \<Longrightarrow> \<not> has_the_id i f" "g \<noteq> Undef \<Longrightarrow> \<not> has_the_id i g"
      using Node.prems walk_self by (auto simp: has_id_def)
    then show ?case using Node.IH by auto
  qed simp
  then show ?thesis by (simp add: get_parent_id_def)
qed

lemma insert_sibling_cases:
  assumes "insert_sibling strict p i src parent = Some u"
  obtains a cs a' k where "parent = Nary a cs" "u = Nary a' (insert_at k src cs)"
    "obj_get a' ''id'' = obj_get a ''id''"
  using assms by (auto simp: insert_sibling_def Let_def update_conv' split: frame.splits if_splits)

lemma insert_at_set: "set (insert_at k x xs) = insert x (set xs)"
  using append_take_drop_id[of k xs] by (metis Un_insert_right insert_at_def list.simps(15) set_append)

lemma insert_sibling_nary:
  "insert_sibling strict p i src parent = Some u \<Longrightarrow> nary src \<Longrightarrow> nary parent \<Longrightarrow> nary u"
  by (erule insert_sibling_cases) (auto simp: insert_at_set)

lemma insert_beside_cases:
  assumes "insert_beside strict p i src t = Some t'"
  obtains q parent u where "get_node t q = Some parent" "insert_sibling strict p i src parent = Some u"
    "t' = replaceNode t q u"
  using assms by (auto simp: insert_beside_def split: option.splits jsval.splits if_splits)

lemma insert_beside_nary:
  "insert_beside strict p i src t = Some t' \<Longrightarrow> nary src \<Longrightarrow> nary t \<Longrightarrow> nary t'"
  by (erule insert_beside_cases)
    (metis get_node_Some(1) insert_sibling_nary nary_walk replaceNode_nary)

lemma insert_beside_unknown: "\<not> has_id t i \<Longrightarrow> insert_beside strict p i src t = None"
  by (simp add: insert_beside_def get_parent_id_None)

lemma new_split_fresh:
  assumes "fresh_source rng"
  obtains k where "new_split rng ids direction cs n = Some (k + 1, Nary (split_attrs (rng k) direction) cs)"
    "rng k \<notin> set ids" "rng k \<noteq> ''''"
  by (rule generate_id_fresh[OF assms, of ids n]) (simp add: new_split_def that)

lemma wrap_target_fresh:
  assumes "fresh_source rng"
  obtains k where "wrap_target rng t p src i tgt n =
      Some (k + 1, replaceNode t i (Nary (split_attrs (rng k) (direction_of p)) (placed p src tgt)))"
    "rng k \<notin> set (getAllIds t)" "rng k \<noteq> ''''"
  by (rule new_split_fresh[OF assms, of "getAllIds t" "direction_of p" "placed p src tgt" n])
    (simp add: wrap_target_def that)

lemma split_attrs_id [simp]: "obj_get (split_attrs i d) ''id'' = Some (Str i)"
  by (simp add: split_attrs_def)

lemma set_placed [simp]: "set (placed p src tgt) = {src, tgt}"
  by (auto simp: placed_def)

text \<open>The node that \<open>delete_node\<close> collapses keeps a child that \<open>surviving_child\<close> finds.\<close>

lemma removed_id:
  assumes "nary t" "good_ids t" "id_of t \<noteq> Some (Str s)" "get_node t s = Some src"
  shows "removed id_own t src (delete_node t s)"
  using assms by (intro ids.delete_node_removes) (auto simp: nary_well_formed good_ids_def)

lemma collapsed_target:
  assumes "nary t" "good_ids t" "id_of t \<noteq> Some (Str s)" "get_node t s = Some src"
    and "has_id t i" "\<not> has_id src i" "\<not> has_id (delete_node t s) i"
  obtains a c where "get_node t i = Some (Nary a [src, c]) \<or> get_node t i = Some (Nary a [c, src])"
    "c \<in> set (walk (delete_node t s))" "id_of c \<noteq> id_of src"
proof -
  obtain K where K: "mset (all_ids t) = mset (all_ids (delete_node t s)) + mset (all_ids src) + K"
      "K = {#} \<or> (\<exists>m \<in> set (walk t). \<exists>c \<in> set (walk (delete_node t s)). pair_of m src c \<and> K = id_own m)"
    using removed_id[OF assms(1-4)] by (auto simp: removed_def total_id_own)
  have "Some (Str i) \<in># K" using assms(5-7) arg_cong[OF K(1), of set_mset] by (auto simp: has_id_iff)
  then obtain m c where m: "m \<in> set (walk t)" "c \<in> set (walk (delete_node t s))" "pair_of m src c" "id_of m = Some (Str i)"
    using K(2) by (auto simp: id_own_def)
  have dist: "distinct (all_ids t)" using assms(2) by (simp add: good_ids_def)
  have "nary m" using nary_walk[OF assms(1) m(1)] .
  have "src \<noteq> Undef" "c \<noteq> Undef"
    using walk_not_Undef[OF get_node_Some(1)[OF assms(4)]] walk_not_Undef[OF m(2)] by auto
  with m(3) \<open>nary m\<close> obtain a where a: "m = Nary a [src, c] \<or> m = Nary a [c, src]"
    by (auto simp: pair_of_def)
  have "get_node t i = Some m" using get_node_unique[OF dist m(1,4)] .
  moreover have "id_of c \<noteq> id_of src"
  proof -
    have "distinct (all_ids m)" using all_ids_distinct_sub[OF dist m(1)] .
    moreover have "id_of src \<in> set (all_ids src)" "id_of c \<in> set (all_ids c)"
      using walk_self \<open>src \<noteq> Undef\<close> \<open>c \<noteq> Undef\<close> by (auto simp: set_all_ids)
    ultimately show ?thesis using a by (auto simp: frame_simps)
  qed
  ultimately show ?thesis using that a m(2) by blast
qed

lemma surviving_child_found:
  assumes "nary t" "good_ids t" "id_of t \<noteq> Some (Str s)" "get_node t s = Some src"
    and "has_id t i" "\<not> has_id src i" "\<not> has_id (delete_node t s) i"
  obtains j tgt where "surviving_child t s i (delete_node t s) = Some (j, tgt)" "get_node (delete_node t s) j = Some tgt"
proof -
  obtain a c where ac: "get_node t i = Some (Nary a [src, c]) \<or> get_node t i = Some (Nary a [c, src])"
    and c: "c \<in> set (walk (delete_node t s))" "id_of c \<noteq> id_of src"
    using collapsed_target[OF assms] by blast
  have src: "id_of src = Some (Str s)" using get_node_Some(2)[OF assms(4)] .
  have "c \<in> set (walk (Nary a [src, c]))" "c \<in> set (walk (Nary a [c, src]))"
    using walk_self[OF walk_not_Undef[OF c(1)]] by auto
  then have "c \<in> set (walk t)" using ac get_node_Some(1) walk_trans by blast
  then obtain j where j: "id_of c = Some (Str j)" using good_ids_id[OF assms(2)] by blast
  then have "has_id (delete_node t s) j" using c(1) by (auto simp: has_id_def)
  then obtain tgt where tgt: "get_node (delete_node t s) j = Some tgt" by (metis get_node_None not_Some_eq)
  then show ?thesis using that ac c(2) src j by (auto simp: surviving_child_def)
qed

lemma delete_proc_root:
  assumes "nary t" "id_of t = Some (Str s)" "get_node t s = Some src"
  shows "src = t"
  using assms by (cases t) (auto simp: get_node_def)

context tree_measure
begin

lemma own_id: "obj_get a ''id'' = Some (Str i) \<Longrightarrow> own (Nary a cs) = own (Nary [(''id'', Str i)] [])"
  by (rule own_Nary) simp

lemma insert_sibling_total:
  assumes "insert_sibling strict p i src parent = Some u"
  shows "total own u = total own parent + total own src"
  using assms
proof (rule insert_sibling_cases)
  fix a cs a' k
  assume u: "parent = Nary a cs" "u = Nary a' (insert_at k src cs)" "obj_get a' ''id'' = obj_get a ''id''"
  have "own (Nary a' (insert_at k src cs)) = own (Nary a cs)" using u(3) by (rule own_Nary)
  then show ?thesis by (simp add: u(1,2) total_simps add_ac)
qed

lemma insert_beside_total:
  assumes "insert_beside strict p i src t = Some t'"
  shows "total own t' = total own t + total own src"
proof -
  obtain q parent u where q: "get_node t q = Some parent" "insert_sibling strict p i src parent = Some u"
      "t' = replaceNode t q u"
    using insert_beside_cases[OF assms] by blast
  have "u \<noteq> Undef" using q(2) by (auto elim: insert_sibling_cases)
  from replaceNode_total[OF q(1) this] show ?thesis
    using insert_sibling_total[OF q(2)] by (simp add: q(3) add_ac)
qed

lemma wrap_total:
  assumes "get_node t i = Some tgt" "obj_get a ''id'' = Some (Str j)"
    and "mset cs = {#src, tgt#}"
  shows "total own (replaceNode t i (Nary a cs)) = total own t + total own src + own (Nary [(''id'', Str j)] [])"
proof -
  have "totals own cs = (\<Sum>c \<in># mset cs. total own c)" by (simp add: totals_def sum_mset_sum_list[symmetric])
  then have "totals own cs = total own src + total own tgt" by (simp add: assms(3))
  then show ?thesis
    using replaceNode_total[OF assms(1), of "Nary a cs"] own_id[OF assms(2), of cs] by (simp add: total_simps add_ac)
qed

end

text \<open>\<open>t'\<close> has what \<open>t\<close> and \<open>src\<close> have, and at most one more node, with a fresh id.\<close>

definition gains :: "(frame \<Rightarrow> 'a multiset) \<Rightarrow> (nat \<Rightarrow> string) \<Rightarrow> frame \<Rightarrow> frame \<Rightarrow> frame \<Rightarrow> bool" where
  "gains own rng t src t' \<longleftrightarrow>
     total own t' = total own t + total own src \<or>
     (\<exists>k. total own t' = total own t + total own src + own (Nary [(''id'', Str (rng k))] []) \<and>
          rng k \<notin> set (getAllIds t) \<and> rng k \<noteq> '''')"

lemma fold_first:
  "fold (\<lambda>c s. if s \<noteq> None then s else h c) cs None = Some p \<Longrightarrow> \<exists>c \<in> set cs. h c = Some p"
proof (induction cs)
  case (Cons c cs)
  have stay: "fold (\<lambda>c s. if s \<noteq> None then s else h c) cs (Some q) = Some q" for q by (rule fold_same) simp
  show ?case
  proof (cases "h c")
    case (Some q)
    then show ?thesis using Cons.prems stay by auto
  qed (use Cons in auto)
qed simp

lemma parent_proc_nary:
  "nary t \<Longrightarrow> parent_proc i t None = Some q \<Longrightarrow>
     \<exists>a cs. Nary a cs \<in> set (walk t) \<and> obj_get a ''id'' = q \<and> (\<exists>c \<in> set cs. has_the_id i c)"
proof (induction t)
  case (Nary a cs)
  have fold_eq: "parent_proc i (Nary a cs) None = fold (\<lambda>c s. if s \<noteq> None then s
      else (if has_the_id i c then Some (obj_get a ''id'') else parent_proc i c None)) cs None"
    by (simp del: has_the_id_iff, rule fold_cong) auto
  obtain c where c: "c \<in> set cs" "(if has_the_id i c then Some (obj_get a ''id'') else parent_proc i c None) = Some q"
    using fold_first[OF Nary.prems(2)[unfolded fold_eq]] by blast
  show ?case
  proof (cases "has_the_id i c")
    case True
    then show ?thesis using c by auto
  next
    case False
    then have "nary c" "parent_proc i c None = Some q" using c Nary.prems(1) by auto
    from Nary.IH[OF c(1) this] obtain b ds
      where b: "Nary b ds \<in> set (walk c)" "obj_get b ''id'' = q" "\<exists>c \<in> set ds. has_the_id i c" by blast
    then have "Nary b ds \<in> set (walk (Nary a cs))" using c(1) by auto
    then show ?thesis using b(2,3) by blast
  qed
qed auto

lemma get_parent_id_nary:
  assumes "nary t" "distinct (all_ids t)" "get_parent_id t i = Some (Str q)" "get_node t q = Some u"
  obtains a cs where "u = Nary a cs" "\<exists>c \<in> set cs. has_the_id i c"
proof -
  have "parent_proc i t None = Some (Some (Str q))"
    using assms(3) by (auto simp: get_parent_id_def split: option.splits)
  from parent_proc_nary[OF assms(1) this] obtain a cs
    where a: "Nary a cs \<in> set (walk t)" "obj_get a ''id'' = Some (Str q)" "\<exists>c \<in> set cs. has_the_id i c"
    by blast
  then show ?thesis using get_node_unique[OF assms(2) a(1)] assms(4) that by simp
qed

lemma mset_placed: "mset (placed p src tgt) = {#src, tgt#}"
  by (simp add: placed_def)

lemma get_node_nary: "nary t \<Longrightarrow> get_node t i = Some n \<Longrightarrow> nary n"
  using get_node_Some(1) nary_walk by blast

context tree_measure
begin

lemma wrap_target_gains:
  assumes "fresh_source rng" "get_node t i = Some tgt" "nary t" "nary src"
  shows "\<exists>n' t'. wrap_target rng t p src i tgt n = Some (n', t') \<and> nary t' \<and> gains own rng t src t'"
proof -
  obtain k where k: "wrap_target rng t p src i tgt n =
      Some (k + 1, replaceNode t i (Nary (split_attrs (rng k) (direction_of p)) (placed p src tgt)))"
      "rng k \<notin> set (getAllIds t)" "rng k \<noteq> ''''"
    by (rule wrap_target_fresh[OF assms(1)])
  have "nary tgt" using get_node_nary assms(2,3) by blast
  then have "nary (replaceNode t i (Nary (split_attrs (rng k) (direction_of p)) (placed p src tgt)))"
    using assms by (intro replaceNode_nary) auto
  moreover have "gains own rng t src (replaceNode t i (Nary (split_attrs (rng k) (direction_of p)) (placed p src tgt)))"
    unfolding gains_def using wrap_total[OF assms(2) split_attrs_id mset_placed] k(2,3) by blast
  ultimately show ?thesis using k(1) by blast
qed

lemma move_beside_gains:
  assumes "nary t" "good_ids t" "id_of t \<noteq> Some (Str s)" "get_node t s = Some src"
    and "has_id t i" "\<not> has_id src i" "fresh_source rng"
  shows "\<exists>n' t'. move_beside rng t s i p src n = Some (n', t') \<and> nary t' \<and> gains own rng (delete_node t s) src t'"
proof -
  let ?r = "delete_node t s"
  have r: "nary ?r" "nary src" using delete_node_nary get_node_nary assms(1,4) by blast+
  have beside: "nary t' \<and> gains own rng ?r src t'" if "insert_beside st p j src ?r = Some t'" for st j t'
    using insert_beside_total[OF that] insert_beside_nary[OF that r(2,1)] by (simp add: gains_def)
  show ?thesis
  proof (cases "insert_beside True p i src ?r")
    case (Some t')
    then show ?thesis using beside by (simp add: move_beside_def)
  next
    case none: None
    show ?thesis
    proof (cases "get_node ?r i")
      case (Some tgt)
      then show ?thesis using none wrap_target_gains[OF assms(7) Some r] by (simp add: move_beside_def)
    next
      case None
      then have "\<not> has_id ?r i" by (simp add: get_node_None)
      from surviving_child_found[OF assms(1-6) this] obtain j tgt
        where j: "surviving_child t s i ?r = Some (j, tgt)" "get_node ?r j = Some tgt" .
      show ?thesis
      proof (cases "insert_beside False p j src ?r")
        case (Some t')
        then show ?thesis using none None j beside by (simp add: move_beside_def)
      next
        case no: None
        then show ?thesis using none None j wrap_target_gains[OF assms(7) j(2) r] by (simp add: move_beside_def)
      qed
    qed
  qed
qed

lemma push_tab_total: "total own (push_tab a cs c) = total own (Nary a cs) + total own c"
proof -
  have "own (Nary (obj_set ''activeTab'' (Num (num_of (length cs))) a) (cs @ [c])) = own (Nary a cs)"
    by (rule own_Nary) (simp add: update_conv')
  then show ?thesis by (simp add: push_tab_def total_simps add_ac)
qed

lemma new_tabs_gains:
  assumes "fresh_source rng" "get_node t i = Some tgt" "nary t" "nary src"
  shows "\<exists>n' t'. new_tabs rng t src i n = Some (n', t') \<and> nary t' \<and> gains own rng t src t'"
proof -
  obtain k where k: "generate_id rng (getAllIds t) n = Some (rng k, rng k # getAllIds t, k + 1)"
      "rng k \<notin> set (getAllIds t)" "rng k \<noteq> ''''"
    by (rule generate_id_fresh[OF assms(1)])
  let ?t = "replaceNode t i (Nary (tab_attrs (rng k)) [tgt, src])"
  have "nary ?t" using assms get_node_nary by (intro replaceNode_nary) auto
  moreover have "obj_get (tab_attrs (rng k)) ''id'' = Some (Str (rng k))" by (simp add: tab_attrs_def)
  from wrap_total[OF assms(2) this, of "[tgt, src]" src]
  have "total own ?t = total own t + total own src + own (Nary [(''id'', Str (rng k))] [])" by simp
  then have "gains own rng t src ?t" unfolding gains_def using k(2,3) by blast
  ultimately show ?thesis using k(1) assms(2) by (simp add: new_tabs_def)
qed

lemma merge_as_tabs_gains:
  assumes "nary t" "get_node t s = Some src" "has_id (delete_node t s) i" "fresh_source rng"
    and "distinct (all_ids (delete_node t s))"
  shows "\<exists>n' t'. merge_as_tabs rng t s i n = Some (n', t') \<and> nary t' \<and> gains own rng (delete_node t s) src t'"
proof -
  let ?r = "delete_node t s"
  have r: "nary ?r" "nary src" using delete_node_nary get_node_nary assms(1,2) by blast+
  obtain tgt where "get_node ?r i = Some tgt" using assms(3) by (metis get_node_None not_Some_eq)
  from new_tabs_gains[OF assms(4) this r]
  have new: "\<exists>n' t'. new_tabs rng ?r src i n = Some (n', t') \<and> nary t' \<and> gains own rng ?r src t'" .
  have push: "nary (replaceNode ?r q (push_tab a cs src)) \<and> gains own rng ?r src (replaceNode ?r q (push_tab a cs src))"
    if q: "get_node ?r q = Some (Nary a cs)" for q a cs
  proof -
    have "nary (push_tab a cs src)" using get_node_nary[OF r(1) q] r(2) by (simp add: push_tab_def)
    moreover have "total own (replaceNode ?r q (push_tab a cs src)) = total own ?r + total own src"
      using replaceNode_total[OF q, of "push_tab a cs src"] push_tab_total[of a cs src]
      by (simp add: push_tab_def add_ac)
    ultimately show ?thesis using replaceNode_nary[OF r(1)] by (simp add: gains_def)
  qed
  have parent: "\<exists>a cs. u = Nary a cs" if "get_parent_id ?r i = Some (Str q)" "get_node ?r q = Some u" for q u
    using get_parent_id_nary[OF r(1) assms(5) that] by blast
  have "get_node ?r q \<noteq> Some Undef" "get_node ?r q \<noteq> Some (Node b f g)"
    if "get_parent_id ?r i = Some (Str q)" for q b f g
    using parent[OF that] by auto
  then show ?thesis
    using new push assms(2)
    by (auto simp: merge_as_tabs_def Let_def split: option.splits jsval.splits frame.splits)
qed

end

end
