(* ===== verification/FrameMove.thy ===== *)
theory FrameMove
  imports FrameEdit
begin

text \<open>
  What moving, swapping and deleting frames keeps: the leaves of the tree, the uniqueness of the
  ids and the layout (at least two children per node, positive sizes with sum 1, an active tab
  that exists); and the calls where
  \<^verbatim>\<open>packages/frontend/frame-editors/frame-tree/tree-ops.ts\<close> loses frames.
\<close>

section \<open>Swapping\<close>

lemma hits_in_walk: "h \<in> set (hits R t) \<Longrightarrow> h \<in> set (walk t) \<and> replacement_of R h \<noteq> None"
  by (induction t) (auto split: if_splits)

lemma hit_above: "n \<in> set (walk t) \<Longrightarrow> replacement_of R n \<noteq> None \<Longrightarrow> \<exists>h \<in> set (hits R t). n \<in> set (walk h)"
  by (induction t) (fastforce split: if_splits)+

lemma mset_concat_mono:
  "(\<And>c. c \<in> set cs \<Longrightarrow> mset (f c) \<subseteq># mset (g c)) \<Longrightarrow> mset (concat (map f cs)) \<subseteq># mset (concat (map g cs))"
  by (induction cs) (auto intro: subset_mset.add_mono)

lemma hits_sub_walk: "mset (concat (map walk (hits R t))) \<subseteq># mset (walk t)"
proof (induction t)
  case (Nary a cs)
  have "concat (map walk (concat (map (hits R) cs))) = concat (map (\<lambda>c. concat (map walk (hits R c))) cs)"
    by (induction cs) auto
  then show ?case using mset_concat_mono[of cs "\<lambda>c. concat (map walk (hits R c))" walk, OF Nary]
    by (auto intro: subset_mset.order_trans)
next
  case (Node a f g)
  from subset_mset.add_mono[OF this] show ?case by (auto intro: subset_mset.order_trans)
qed simp

lemma distinct_hits_walks:
  assumes "distinct (all_ids t)"
  shows "distinct (concat (map walk (hits R t)))"
  using distinct_sub_mset[OF hits_sub_walk] assms unfolding all_ids_def distinct_map by blast

lemma distinct_hits:
  assumes "distinct (all_ids t)"
  shows "distinct (hits R t)"
proof -
  have "h \<noteq> Undef" if "h \<in> set (hits R t)" for h using hits_in_walk[OF that] walk_not_Undef by blast
  then have "[] \<notin> set (map walk (hits R t))" by (auto, metis walk_eq_Nil)
  then have "distinct (map walk (hits R t))"
    using distinct_hits_walks[OF assms, of R] unfolding distinct_concat_iff by (metis removeAll_id)
  then show ?thesis unfolding distinct_map by blast
qed

lemma hits_apart:
  assumes "distinct (all_ids t)" "h \<in> set (hits R t)" "k \<in> set (hits R t)" "h \<in> set (walk k)"
  shows "h = k"
proof -
  have "h \<noteq> Undef" "k \<noteq> Undef" using assms(2,3) hits_in_walk walk_not_Undef by blast+
  then have "h \<in> set (walk h)" "k \<in> set (walk k)" by (simp_all add: walk_self)
  then have "walk h = walk k"
    using distinct_hits_walks[OF assms(1), of R] assms(2-4) unfolding distinct_concat_iff by fastforce
  then show ?thesis using \<open>h \<noteq> Undef\<close> \<open>k \<noteq> Undef\<close> by (cases h; cases k) auto
qed

lemma walk_size: "n \<in> set (walk t) \<Longrightarrow> n = t \<or> size n < size t"
proof (induction t)
  case (Nary a cs)
  have "size c < size (Nary a cs)" if "c \<in> set cs" for c
    using that size_list_estimation'[OF that, of "size c" size] by simp
  then show ?case using Nary by fastforce
qed auto

lemma walk_antisym: "n \<in> set (walk t) \<Longrightarrow> t \<in> set (walk n) \<Longrightarrow> n = t"
  using walk_size[of n t] walk_size[of t n] by auto

lemma replacement_of_swap:
  "replacement_of [(i, u), (j, v)] t =
     (if id_of t = Some (Str i) then Some u else if id_of t = Some (Str j) then Some v else None)"
  by (auto simp: replacement_of_def split: option.splits jsval.splits)

lemma hits_swap:
  assumes "distinct (all_ids t)" "get_node t i = Some A" "get_node t j = Some B"
    and "\<not> has_id A j" "\<not> has_id B i" "i \<noteq> j"
  shows "mset (hits [(i, u), (j, v)] t) = {#A, B#}"
proof -
  let ?R = "[(i, u), (j, v)]"
  note A = get_node_Some[OF assms(2)] and B = get_node_Some[OF assms(3)]
  have AB: "h = A \<or> h = B" if "h \<in> set (hits ?R t)" for h
    using hits_in_walk[OF that] same_node[OF assms(1) _ A(1), of h] same_node[OF assms(1) _ B(1), of h] A(2) B(2)
    by (auto simp: replacement_of_swap split: if_splits)
  have out: "A \<notin> set (walk B)" "B \<notin> set (walk A)" using assms(4,5) A(2) B(2) by (auto simp: has_id_def)
  have "replacement_of ?R A \<noteq> None" "replacement_of ?R B \<noteq> None"
    using A(2) B(2) by (simp_all add: replacement_of_swap)
  then obtain h k where "h \<in> set (hits ?R t)" "A \<in> set (walk h)" "k \<in> set (hits ?R t)" "B \<in> set (walk k)"
    using hit_above[OF A(1)] hit_above[OF B(1)] by blast
  then have "A \<in> set (hits ?R t)" "B \<in> set (hits ?R t)" using AB out by blast+
  then have "set (hits ?R t) = set [A, B]" using AB by auto
  moreover have "distinct [A, B]" using A(2) B(2) assms(6) by auto
  ultimately show ?thesis
    using set_eq_iff_mset_eq_distinct[OF distinct_hits[OF assms(1), of ?R]] by fastforce
qed

lemma hits_swap_inside:
  assumes "distinct (all_ids t)" "get_node t i = Some A" "get_node t j = Some B" "has_id B i" "i \<noteq> j"
  shows "hits [(i, u), (j, v)] t = [B]"
proof -
  let ?R = "[(i, u), (j, v)]"
  note A = get_node_Some[OF assms(2)] and B = get_node_Some[OF assms(3)]
  have ne: "A \<noteq> B" using A(2) B(2) assms(5) by auto
  have inside: "A \<in> set (walk B)"
  proof -
    obtain n where n: "n \<in> set (walk B)" "id_of n = Some (Str i)" using assms(4) by (auto simp: has_id_def)
    then have "A = n" using same_node[OF assms(1) A(1) walk_trans[OF n(1) B(1)]] A(2) by simp
    then show ?thesis using n(1) by simp
  qed
  have AB: "h = A \<or> h = B" if "h \<in> set (hits ?R t)" for h
    using hits_in_walk[OF that] same_node[OF assms(1) _ A(1), of h] same_node[OF assms(1) _ B(1), of h] A(2) B(2)
    by (auto simp: replacement_of_swap split: if_splits)
  have "replacement_of ?R B \<noteq> None" using B(2) by (simp add: replacement_of_swap)
  then obtain h where h: "h \<in> set (hits ?R t)" "B \<in> set (walk h)" using hit_above[OF B(1)] by blast
  have B_hit: "B \<in> set (hits ?R t)" using h AB[OF h(1)] walk_antisym[OF _ inside] by auto
  then have "A \<notin> set (hits ?R t)" using hits_apart[OF assms(1) _ B_hit inside] ne by blast
  then have "set (hits ?R t) = set [B]" using AB B_hit by auto
  moreover have "distinct (hits ?R t)" "distinct [B]" using distinct_hits[OF assms(1), of ?R] by simp_all
  ultimately have "mset (hits ?R t) = mset [B]" using set_eq_iff_mset_eq_distinct by blast
  then show ?thesis by simp
qed

context tree_measure
begin

lemma totals_mset: "mset cs = mset ds \<Longrightarrow> totals own cs = totals own ds"
  by (simp add: totals_def sum_mset_sum_list[symmetric])

lemma swap_total:
  assumes "distinct (all_ids t)" "get_node t i = Some A" "get_node t j = Some B"
    and "\<not> has_id A j" "\<not> has_id B i" "i \<noteq> j"
  shows "total own (swap_nodes t i j) = total own t"
proof -
  let ?R = "[(i, B), (j, A)]"
  note ids = get_node_Some[OF assms(2)] get_node_Some[OF assms(3)]
  have hits: "mset (hits ?R t) = {#A, B#}" using hits_swap[OF assms] .
  then have len: "length (hits ?R t) = Suc (Suc 0)" by (metis size_mset size_add_mset size_empty)
  have "mset (map (replaced ?R) (hits ?R t)) = {#B, A#}"
    using ids(2,4) assms(6) by (simp add: hits replaced_def replacement_of_swap)
  then have "totals own (map (replaced ?R) (hits ?R t)) = totals own [B, A]" by (intro totals_mset) simp
  moreover have "totals own (hits ?R t) = totals own [A, B]" using hits by (intro totals_mset) simp
  moreover have "A \<noteq> Undef" "B \<noteq> Undef" using ids(1,3) walk_not_Undef by blast+
  ultimately show ?thesis
    using replace_proc_total[of ?R t "Suc (Suc 0)"] len assms(2,3,6)
    by (simp add: swap_nodes_def replaceNodes_def total_simps add_ac)
qed

lemma swap_inside_total:
  assumes "distinct (all_ids t)" "get_node t i = Some A" "get_node t j = Some B" "has_id B i" "i \<noteq> j"
  shows "total own (swap_nodes t i j) + total own B = total own t + total own A"
proof -
  let ?R = "[(i, B), (j, A)]"
  note ids = get_node_Some[OF assms(2)] get_node_Some[OF assms(3)]
  have "A \<noteq> Undef" "B \<noteq> Undef" using ids(1,3) walk_not_Undef by blast+
  then show ?thesis
    using replace_proc_total[of ?R t "Suc (Suc 0)"] hits_swap_inside[OF assms, of B A] ids(2,4) assms(2,3,5)
    by (simp add: swap_nodes_def replaceNodes_def total_simps replaced_def replacement_of_swap)
qed

end

lemma swap_nodes_nary:
  assumes "nary t"
  shows "nary (swap_nodes t i j)"
  using assms get_node_nary[OF assms] by (auto simp: swap_nodes_def split: option.splits intro!: replaceNodes_nary)

section \<open>Moving keeps the frames\<close>

text \<open>
  A move of a frame to a target that is in the tree. When the frame is dropped in the centre of
  the target or on its tabs, it must not be inside the target.
\<close>

definition sane_move :: "frame \<Rightarrow> string \<Rightarrow> string \<Rightarrow> drop_position \<Rightarrow> bool" where
  "sane_move t sourceId targetId p \<longleftrightarrow>
     has_id t sourceId \<and> has_id t targetId \<and>
     (p = PCenter \<or> p = PTab \<longrightarrow> (\<forall>tgt. get_node t targetId = Some tgt \<longrightarrow> \<not> has_id tgt sourceId))"

lemma good_ids_sub:
  assumes "mset (all_ids u) \<subseteq># mset (all_ids t)" "good_ids t"
  shows "good_ids u"
proof -
  have "set (all_ids u) \<subseteq> set (all_ids t)" using set_mset_mono[OF assms(1)] by simp
  then show ?thesis using distinct_sub_mset[OF assms(1)] assms(2) unfolding good_ids_def by blast
qed

lemma delete_ids_sub:
  assumes "nary t" "good_ids t" "id_of t \<noteq> Some (Str s)" "get_node t s = Some src"
  shows "mset (all_ids (delete_node t s)) + mset (all_ids src) \<subseteq># mset (all_ids t)"
  using removed_id[OF assms] by (auto simp: removed_def total_id_own)

lemma delete_keeps_good_ids:
  assumes "nary t" "good_ids t" "id_of t \<noteq> Some (Str s)" "get_node t s = Some src"
  shows "good_ids (delete_node t s)"
  using delete_ids_sub[OF assms] assms(2) by (metis good_ids_sub mset_subset_eq_add_left subset_mset.order_trans)

lemma delete_leaves:
  assumes "well_formed t" "distinct (all_ids t)" "id_of t \<noteq> Some (Str s)" "get_node t s = Some src"
  shows "mset (collect_leaves t) = mset (collect_leaves (delete_node t s)) + mset (collect_leaves src)"
proof -
  have "src \<noteq> Undef" using walk_not_Undef[OF get_node_Some(1)[OF assms(4)]] .
  then have "leaf_own m = {#}" if "pair_of m src c" for m c
    using that by (auto simp: pair_of_def leaf_own_def)
  then show ?thesis
    using leaves.delete_node_removes[OF assms] by (auto simp: removed_def total_leaf_own)
qed

lemma gains_leaves: "gains leaf_own rng t src t' \<Longrightarrow> mset (collect_leaves t') = mset (collect_leaves t) + mset (collect_leaves src)"
  by (auto simp: gains_def total_leaf_own leaf_own_def)

lemma root_contains:
  assumes "nary t" "id_of t = Some (Str s)" "get_node t s = Some src" "has_id t i"
  shows "has_id src i"
  using delete_proc_root[OF assms(1-3)] assms(4) by simp

text \<open>Every branch of \<open>move_node\<close> that changes the tree.\<close>

lemma target_survives:
  assumes "nary t" "good_ids t" "id_of t \<noteq> Some (Str s)" "get_node t s = Some src"
    and "sane_move t s i p" "p = PTab" "\<not> has_id src i"
  shows "has_id (delete_node t s) i"
proof (rule ccontr)
  assume "\<not> has_id (delete_node t s) i"
  then obtain a c where "get_node t i = Some (Nary a [src, c]) \<or> get_node t i = Some (Nary a [c, src])"
    using collapsed_target[OF assms(1-4) _ assms(7)] assms(5) by (metis sane_move_def)
  moreover have "has_id (Nary a [src, c]) s" "has_id (Nary a [c, src]) s"
    using get_node_Some(2)[OF assms(4)] walk_self[OF walk_not_Undef[OF get_node_Some(1)[OF assms(4)]]]
    by (auto simp: has_id_def)
  ultimately show False using assms(5,6) by (auto simp: sane_move_def)
qed

lemma move_cases:
  assumes "nary t" "good_ids t" "fresh_source rng" "sane_move t s i p"
  shows "move_node rng t s i p n = Some (n, t) \<or>
    (\<exists>src. get_node t s = Some src \<and> id_of t \<noteq> Some (Str s) \<and> \<not> has_id src i \<and>
      (move_node rng t s i p n = Some (n, swap_nodes t s i) \<and> p = PCenter \<and> s \<noteq> i \<or>
       (\<exists>n' t'. move_node rng t s i p n = Some (n', t') \<and> nary t' \<and>
          gains leaf_own rng (delete_node t s) src t' \<and> gains id_own rng (delete_node t s) src t')))"
proof -
  obtain src where src: "get_node t s = Some src" using assms(4) by (metis get_node_None not_Some_eq sane_move_def)
  show ?thesis
  proof (cases "s = i \<or> has_id src i")
    case True
    then show ?thesis using src by (auto simp: move_node_def)
  next
    case False
    have root: "id_of t \<noteq> Some (Str s)"
      using root_contains[OF assms(1) _ src] False assms(4) by (auto simp: sane_move_def)
    consider "p = PCenter" | "p = PTab" | "p \<noteq> PCenter" "p \<noteq> PTab" by blast
    then show ?thesis
    proof cases
      case 1
      then show ?thesis using src False root by (auto simp: move_node_def)
    next
      case 2
      have del: "has_id (delete_node t s) i" "distinct (all_ids (delete_node t s))"
        using target_survives[OF assms(1,2) root src assms(4) 2] delete_keeps_good_ids[OF assms(1,2) root src] False
        by (auto simp: good_ids_def)
      have "move_node rng t s i p n = merge_as_tabs rng t s i n" using 2 src False by (simp add: move_node_def)
      moreover obtain n1 t1 where "merge_as_tabs rng t s i n = Some (n1, t1)" "nary t1"
          "gains leaf_own rng (delete_node t s) src t1"
        using leaves.merge_as_tabs_gains[OF assms(1) src del(1) assms(3) del(2), of n] by blast
      moreover obtain n2 t2 where "merge_as_tabs rng t s i n = Some (n2, t2)"
          "gains id_own rng (delete_node t s) src t2"
        using ids.merge_as_tabs_gains[OF assms(1) src del(1) assms(3) del(2), of n] by blast
      ultimately show ?thesis using src False root by auto
    next
      case 3
      have has: "has_id t i" "\<not> has_id src i" using False assms(4) by (auto simp: sane_move_def)
      have "move_node rng t s i p n = move_beside rng t s i p src n" using 3 src False by (simp add: move_node_def)
      moreover obtain n1 t1 where "move_beside rng t s i p src n = Some (n1, t1)" "nary t1"
          "gains leaf_own rng (delete_node t s) src t1"
        using leaves.move_beside_gains[OF assms(1,2) root src has assms(3), of p n] by blast
      moreover obtain n2 t2 where "move_beside rng t s i p src n = Some (n2, t2)"
          "gains id_own rng (delete_node t s) src t2"
        using ids.move_beside_gains[OF assms(1,2) root src has assms(3), of p n] by blast
      ultimately show ?thesis using src False root by auto
    qed
  qed
qed

lemma gains_nothing_new_ids:
  assumes "gains id_own rng r src t'" "mset (all_ids r) + mset (all_ids src) \<subseteq># mset (all_ids t)"
    and "good_ids t" "\<And>k. \<not> has_id t (rng k)"
  shows "good_ids t'"
proof (cases "mset (all_ids t') = mset (all_ids r) + mset (all_ids src)")
  case True
  then show ?thesis using good_ids_sub[OF _ assms(3), of t'] assms(2) by simp
next
  case False
  then obtain k where k: "mset (all_ids t') = mset (all_ids r) + mset (all_ids src) + {#Some (Str (rng k))#}" "rng k \<noteq> ''''"
    using assms(1) by (auto simp: gains_def total_id_own id_own_def)
  then have sub: "mset (all_ids t') \<subseteq># mset (all_ids t @ [Some (Str (rng k))])"
    using assms(2) by simp
  have "distinct (all_ids t @ [Some (Str (rng k))])"
    using assms(3,4) by (auto simp: good_ids_def has_id_iff)
  then have "distinct (all_ids t')" using distinct_sub_mset[OF sub] by blast
  moreover have "set (all_ids t') \<subseteq> insert (Some (Str (rng k))) (set (all_ids t))"
    using set_mset_mono[OF sub] by simp
  ultimately show ?thesis using assms(3) k(2) unfolding good_ids_def by fastforce
qed

lemma swap_good_ids:
  assumes "good_ids t" "get_node t i = Some A" "get_node t j = Some B"
    and "\<not> has_id A j" "\<not> has_id B i" "i \<noteq> j"
  shows "good_ids (swap_nodes t i j)"
proof -
  have "distinct (all_ids t)" using assms(1) by (simp add: good_ids_def)
  from ids.swap_total[OF this assms(2-6)] have "mset (all_ids (swap_nodes t i j)) = mset (all_ids t)"
    by (simp add: total_id_own)
  then show ?thesis using good_ids_sub[OF _ assms(1), of "swap_nodes t i j"] by simp
qed

section \<open>A tree for the witnesses\<close>

definition letters :: "nat \<Rightarrow> string" where
  "letters k = replicate (Suc k) CHR ''x''"

lemma fresh_letters: "fresh_source letters"
proof -
  have "\<exists>m \<ge> n. letters m \<notin> set ids" for ids n
  proof -
    define m where "m = n + sum_list (map length ids)"
    have "length w \<le> sum_list (map length ids)" if "w \<in> set ids" for w
      using that by (induction ids) auto
    moreover have "\<not> length (letters m) \<le> sum_list (map length ids)" by (simp add: letters_def m_def)
    ultimately have "letters m \<notin> set ids" by blast
    then show ?thesis unfolding m_def by (metis le_add1)
  qed
  then show ?thesis by (simp add: fresh_source_def letters_def)
qed

definition sample_tree :: frame where
  "sample_tree = Nary [(''id'', Str ''r''), (''type'', Str ''node''), (''direction'', Str ''col''),
       (''sizes'', Nums [Fin (1 / 4), Fin (3 / 4)])]
     [leaf [(''id'', Str ''a''), (''type'', Str ''cm'')],
      Nary [(''id'', Str ''t''), (''type'', Str ''tabs''), (''activeTab'', Num (Fin 1))]
        [leaf [(''id'', Str ''b''), (''type'', Str ''cm'')], leaf [(''id'', Str ''c''), (''type'', Str ''terminal'')]]]"

lemma sample_good: "nary sample_tree" "good_ids sample_tree"
  by (simp_all add: sample_tree_def good_ids_def all_ids_def leaf_def)

lemma sample_nodes:
  "get_node sample_tree ''a'' = Some (leaf [(''id'', Str ''a''), (''type'', Str ''cm'')])"
  "get_node sample_tree ''b'' = Some (leaf [(''id'', Str ''b''), (''type'', Str ''cm'')])"
  "has_id sample_tree ''b''" "has_id sample_tree ''a''" "has_id sample_tree ''t''"
  by (simp_all add: sample_tree_def get_node_def has_id_def leaf_def)

lemma sample_sane: "sane_move sample_tree ''b'' ''a'' PTab"
  by (simp add: sane_move_def sample_nodes) (simp add: has_id_def)

section \<open>Properties\<close>

text \<open>C14: \<open>move_node\<close> neither loses nor repeats a frame. In an n-ary tree with distinct ids, moving a
  frame of the tree to a frame of the tree always returns an n-ary tree with the same leaves, each as it
  was, also when \<open>delete_node\<close> has collapsed the target on the way. Conditions: source and target are in the tree, a frame that
  is dropped in the centre or on the tabs of the target is not inside the target, and the source of random ids
  does not run out of unused ones. (\<open>move_to_unknown_target_deletes\<close>, \<open>merge_into_own_pair_deletes\<close> and
  \<open>swap_with_ancestor_loses\<close> show what happens otherwise.)\<close>

theorem move_keeps_frames:
  assumes "nary t" "good_ids t" "fresh_source rng" "sane_move t s i p"
  shows "\<exists>n' t'. move_node rng t s i p n = Some (n', t') \<and> nary t' \<and>
    mset (collect_leaves t') = mset (collect_leaves t)"
  using move_cases[OF assms, of n]
proof (elim disjE exE conjE)
  fix src
  assume src: "get_node t s = Some src" "\<not> has_id src i" "p = PCenter" "s \<noteq> i"
    and m: "move_node rng t s i p n = Some (n, swap_nodes t s i)"
  obtain tgt where tgt: "get_node t i = Some tgt" "\<not> has_id tgt s"
    using assms(4) src(3) by (metis get_node_None not_Some_eq sane_move_def)
  have "distinct (all_ids t)" using assms(2) by (simp add: good_ids_def)
  from leaves.swap_total[OF this src(1) tgt(1) src(2) tgt(2) src(4)] show ?thesis
    using m swap_nodes_nary[OF assms(1)] by (simp add: total_leaf_own)
next
  fix src n' t'
  assume src: "get_node t s = Some src" "id_of t \<noteq> Some (Str s)"
    and m: "move_node rng t s i p n = Some (n', t')" "nary t'" "gains leaf_own rng (delete_node t s) src t'"
  have "distinct (all_ids t)" using assms(2) by (simp add: good_ids_def)
  from delete_leaves[OF nary_well_formed[OF assms(1)] this src(2,1)] show ?thesis
    using m gains_leaves[OF m(3)] by simp
qed (use assms(1) in auto)

lemma move_keeps_frames_witness:
  "\<exists>n' t'. move_node letters sample_tree ''b'' ''t'' PLeft 0 = Some (n', t') \<and> nary t' \<and>
    mset (collect_leaves t') = mset (collect_leaves sample_tree)"
  by (rule move_keeps_frames[OF sample_good fresh_letters]) (simp add: sane_move_def sample_nodes)

text \<open>C30: Moving keeps the ids distinct and set, as long as no random id is one of the tree. The tree is n-ary with distinct
  ids, source and target are in it, a frame that is dropped in the centre or on the tabs of the target is not inside the target,
  and the source of ids does not run out of unused ones.\<close>

theorem move_keeps_ids:
  assumes "nary t" "good_ids t" "fresh_source rng" "sane_move t s i p" "\<And>k. \<not> has_id t (rng k)"
    and "move_node rng t s i p n = Some (n', t')"
  shows "good_ids t'"
  using move_cases[OF assms(1-4), of n]
proof (elim disjE exE conjE)
  fix src
  assume src: "get_node t s = Some src" "\<not> has_id src i" "p = PCenter" "s \<noteq> i"
    and m: "move_node rng t s i p n = Some (n, swap_nodes t s i)"
  obtain tgt where tgt: "get_node t i = Some tgt" "\<not> has_id tgt s"
    using assms(4) src(3) by (metis get_node_None not_Some_eq sane_move_def)
  then show ?thesis using swap_good_ids[OF assms(2) src(1) tgt(1) src(2) tgt(2) src(4)] m assms(6) by simp
next
  fix src n'' t''
  assume src: "get_node t s = Some src" "id_of t \<noteq> Some (Str s)"
    and m: "move_node rng t s i p n = Some (n'', t'')" "gains id_own rng (delete_node t s) src t''"
  show ?thesis
    using gains_nothing_new_ids[OF m(2) delete_ids_sub[OF assms(1,2) src(2,1)] assms(2,5)] m(1) assms(6) by simp
qed (use assms(2,6) in auto)

lemma letters_not_in_sample: "\<not> has_id sample_tree (letters k)"
  by (cases k) (auto simp: sample_tree_def has_id_def leaf_def letters_def)

lemma move_keeps_ids_witness:
  "\<exists>n' t'. move_node letters sample_tree ''b'' ''a'' PTab 0 = Some (n', t') \<and> good_ids t'"
proof -
  obtain n' t' where r: "move_node letters sample_tree ''b'' ''a'' PTab 0 = Some (n', t')"
    using move_cases[OF sample_good fresh_letters sample_sane, of 0] by blast
  then show ?thesis using move_keeps_ids[OF sample_good fresh_letters sample_sane letters_not_in_sample r] by blast
qed

text \<open>\<open>delete_node\<close> removes the node with the id and all below it, and nothing else: the leaves of
  the tree are those that remain and those of the node, the ids stay distinct and the tree n-ary.\<close>

theorem delete_removes_subtree:
  assumes "nary t" "good_ids t" "id_of t \<noteq> Some (Str i)" "get_node t i = Some n"
  shows "mset (collect_leaves t) = mset (collect_leaves (delete_node t i)) + mset (collect_leaves n) \<and>
    good_ids (delete_node t i) \<and> \<not> has_id (delete_node t i) i \<and> nary (delete_node t i)"
proof -
  have dist: "distinct (all_ids t)" using assms(2) by (simp add: good_ids_def)
  obtain zs where "mset (all_ids t) = mset (all_ids (delete_node t i)) + mset (all_ids n) + mset zs"
    using delete_ids_sub[OF assms] by (metis ex_mset mset_subset_eq_exists_conv)
  then have "mset (all_ids t) = mset (all_ids (delete_node t i) @ all_ids n @ zs)" by simp
  then have "distinct (all_ids (delete_node t i) @ all_ids n @ zs)" using dist mset_eq_imp_distinct_iff by blast
  moreover have "Some (Str i) \<in> set (all_ids n)"
    using get_node_Some[OF assms(4)] walk_self[OF walk_not_Undef[OF get_node_Some(1)[OF assms(4)]]]
    by (metis image_eqI set_all_ids)
  ultimately have "\<not> has_id (delete_node t i) i" by (auto simp: has_id_iff)
  then show ?thesis
    using delete_leaves[OF nary_well_formed[OF assms(1)] dist assms(3,4)] delete_keeps_good_ids[OF assms]
      delete_node_nary[OF assms(1)] by blast
qed

lemma delete_removes_subtree_witness:
  "mset (collect_leaves sample_tree) = mset (collect_leaves (delete_node sample_tree ''a'')) +
      mset (collect_leaves (leaf [(''id'', Str ''a''), (''type'', Str ''cm'')])) \<and>
    good_ids (delete_node sample_tree ''a'') \<and> \<not> has_id (delete_node sample_tree ''a'') ''a'' \<and>
    nary (delete_node sample_tree ''a'')"
  by (rule delete_removes_subtree[OF sample_good _ sample_nodes(1)]) (simp add: sample_tree_def)

lemma generate_id_result:
  assumes "generate_id rng ids n = Some r"
  shows "\<exists>m \<ge> n. r = (rng m, rng m # ids, m + 1) \<and> rng m \<notin> set ids \<and> (\<forall>k. n \<le> k \<and> k < m \<longrightarrow> rng k \<in> set ids)"
proof (rule generate_id.raw_induct[OF _ assms])
  fix f rng ids n and r :: "string \<times> string list \<times> nat"
  assume IH: "\<And>rng ids n r. f rng ids n = Some r \<Longrightarrow>
      \<exists>m \<ge> n. r = (rng m, rng m # ids, m + 1) \<and> rng m \<notin> set ids \<and> (\<forall>k. n \<le> k \<and> k < m \<longrightarrow> rng k \<in> set ids)"
    and body: "(if rng n \<in> set ids then f rng ids (n + 1) else Some (rng n, rng n # ids, n + 1)) = Some r"
  show "\<exists>m \<ge> n. r = (rng m, rng m # ids, m + 1) \<and> rng m \<notin> set ids \<and> (\<forall>k. n \<le> k \<and> k < m \<longrightarrow> rng k \<in> set ids)"
  proof (cases "rng n \<in> set ids")
    case True
    then have "f rng ids (n + 1) = Some r" using body True by simp
    from IH[OF this] obtain m where m: "m \<ge> n + 1" "r = (rng m, rng m # ids, m + 1)" "rng m \<notin> set ids"
        "\<forall>k. n + 1 \<le> k \<and> k < m \<longrightarrow> rng k \<in> set ids"
      by blast
    have "\<forall>k. n \<le> k \<and> k < m \<longrightarrow> rng k \<in> set ids"
      using m(4) True by (metis Suc_eq_plus1 Suc_leI le_neq_implies_less)
    then show ?thesis using m(1-3) by (intro exI[of _ m]) auto
  next
    case False
    then show ?thesis using body by auto
  qed
qed

text \<open>C31: \<open>generate_id\<close> returns as soon as the source gives an id that is not in use, with that id, and
  it has drawn every id before it; while all ids are in use it does not return.\<close>

theorem generate_id_returns:
  "(case generate_id rng ids n of
      None \<Rightarrow> \<forall>m \<ge> n. rng m \<in> set ids
    | Some (i, ids', n') \<Rightarrow>
        i \<notin> set ids \<and> ids' = i # ids \<and> n < n' \<and> rng (n' - 1) = i \<and> (\<forall>k. n \<le> k \<and> k < n' - 1 \<longrightarrow> rng k \<in> set ids))"
proof (cases "generate_id rng ids n")
  case None
  then show ?thesis using generate_id_stops[of rng _ ids n] by force
next
  case (Some r)
  then show ?thesis using generate_id_result[OF Some] by (cases r) auto
qed

lemma generate_id_returns_witness:
  "\<exists>i ids' n'. generate_id letters [''x''] 0 = Some (i, ids', n') \<and> i \<noteq> ''x''"
proof -
  have "letters 1 \<notin> set [''x'']" by (simp add: letters_def)
  then show ?thesis using generate_id_returns[where rng = letters and ids = "[''x'']" and n = 0]
    by (cases "generate_id letters [''x''] 0") auto
qed

lemma delete_ids_subset:
  assumes "nary t" "good_ids t" "get_node t s = Some src"
  shows "set (all_ids (delete_node t s)) \<subseteq> set (all_ids t)"
proof (cases "id_of t = Some (Str s)")
  case True
  then show ?thesis by (simp add: delete_node_def)
next
  case False
  from delete_ids_sub[OF assms(1,2) False assms(3)]
  have "mset (all_ids (delete_node t s)) \<subseteq># mset (all_ids t)"
    by (metis mset_subset_eq_add_left subset_mset.order_trans)
  from set_mset_mono[OF this] show ?thesis by simp
qed

lemma sub_ids: "get_node t s = Some src \<Longrightarrow> has_id src i \<Longrightarrow> has_id t i"
  using get_node_Some(1) walk_trans unfolding has_id_def by blast

lemma delete_leaves_diff:
  assumes "nary t" "good_ids t" "id_of t \<noteq> Some (Str s)" "get_node t s = Some src"
  shows "mset (collect_leaves (delete_node t s)) = mset (collect_leaves t) - mset (collect_leaves src)"
  using delete_leaves[OF nary_well_formed[OF assms(1)] _ assms(3,4)] assms(2) by (simp add: good_ids_def)

text \<open>A frame that is moved beside, or into the tabs of, a target that is not in the tree is deleted
  with all frames in it; only the check that the target exists is missing.\<close>

theorem move_to_unknown_target_deletes:
  assumes "nary t" "good_ids t" "id_of t \<noteq> Some (Str s)" "get_node t s = Some src"
    and "\<not> has_id t i" "p \<noteq> PCenter"
  shows "move_node rng t s i p n = Some (n, delete_node t s) \<and>
    mset (collect_leaves (delete_node t s)) = mset (collect_leaves t) - mset (collect_leaves src)"
proof -
  have "\<not> has_id (delete_node t s) i"
    using delete_ids_subset[OF assms(1,2,4)] assms(5) by (auto simp: has_id_iff)
  then have gone: "get_node (delete_node t s) i = None" "get_parent_id (delete_node t s) i = None"
      "insert_beside True p i src (delete_node t s) = None"
    by (simp_all add: get_node_None get_parent_id_None insert_beside_unknown)
  have "s \<noteq> i" using get_node_Some[OF assms(4)] assms(5) by (auto simp: has_id_def)
  moreover have "\<not> has_id src i" using sub_ids[OF assms(4)] assms(5) by blast
  moreover have "surviving_child t s i (delete_node t s) = None"
    using assms(5) get_node_None[of t i] by (simp add: surviving_child_def)
  ultimately have "move_node rng t s i p n = Some (n, delete_node t s)"
    using assms(4,6) gone by (simp add: move_node_def merge_as_tabs_def new_tabs_def move_beside_def Let_def)
  then show ?thesis using delete_leaves_diff[OF assms(1-4)] by simp
qed

lemma move_to_unknown_target_deletes_witness:
  "move_node letters sample_tree ''a'' ''gone'' PLeft 0 = Some (0, delete_node sample_tree ''a'') \<and>
    mset (collect_leaves (delete_node sample_tree ''a'')) =
      mset (collect_leaves sample_tree) - mset (collect_leaves (leaf [(''id'', Str ''a''), (''type'', Str ''cm'')]))"
  by (rule move_to_unknown_target_deletes[OF sample_good _ sample_nodes(1)])
    (simp_all add: sample_tree_def has_id_def leaf_def)

text \<open>Dropping a tab on the tabs of its own container of two loses it: the deletion collapses the
  container, the target is gone, and \<open>merge_as_tabs\<close> returns the tree without the frame.\<close>

theorem merge_into_own_pair_deletes:
  assumes "good_ids (Nary a [src, c])" "obj_get a ''id'' = Some (Str i)" "id_of src = Some (Str s)"
    and "well_formed (Nary a [src, c])"
  shows "move_node rng (Nary a [src, c]) s i PTab n = Some (n, c)"
proof -
  let ?t = "Nary a [src, c]"
  have "distinct (all_ids ?t)" using assms(1) by (simp add: good_ids_def)
  then have dist: "Some (Str i) \<notin> set (all_ids src)" "Some (Str i) \<notin> set (all_ids c)"
    using assms(2) by (auto simp: frame_simps)
  have src: "src \<in> set (walk src)" using assms(4) by (intro walk_self) auto
  have "s \<noteq> i" using dist(1) src assms(3) by (metis image_eqI set_all_ids)
  then have "delete_node ?t s = c"
    using assms(2,3) by (simp add: delete_node_def remove_child_def delete_at_def)
  moreover have "get_node ?t s = Some src"
    using get_node_unique[OF \<open>distinct (all_ids ?t)\<close>, of src s] src assms(3) by simp
  moreover have "get_node c i = None" "get_parent_id c i = None" "\<not> has_id src i"
    using dist by (simp_all add: get_node_None get_parent_id_None has_id_iff)
  ultimately show ?thesis
    using \<open>s \<noteq> i\<close> by (simp add: move_node_def merge_as_tabs_def new_tabs_def Let_def)
qed

lemma merge_into_own_pair_deletes_witness:
  "move_node letters (Nary [(''id'', Str ''t''), (''type'', Str ''tabs'')]
      [leaf [(''id'', Str ''b'')], leaf [(''id'', Str ''c'')]]) ''b'' ''t'' PTab 0 = Some (0, leaf [(''id'', Str ''c'')])"
  by (rule merge_into_own_pair_deletes) (simp_all add: good_ids_def frame_simps all_ids_def)

text \<open>Dropping a frame in the centre of a node that contains it replaces the node by the frame: all
  other frames of the node are lost.\<close>

theorem swap_with_ancestor_loses:
  assumes "good_ids t" "get_node t s = Some src" "get_node t i = Some tgt" "has_id tgt s" "s \<noteq> i"
  shows "\<exists>t'. move_node rng t s i PCenter n = Some (n, t') \<and>
    mset (collect_leaves t') + mset (collect_leaves tgt) = mset (collect_leaves t) + mset (collect_leaves src)"
proof -
  have dist: "distinct (all_ids t)" using assms(1) by (simp add: good_ids_def)
  note src = get_node_Some[OF assms(2)] and tgt = get_node_Some[OF assms(3)]
  obtain m where m: "m \<in> set (walk tgt)" "id_of m = Some (Str s)" using assms(4) by (auto simp: has_id_def)
  have in_tgt: "src \<in> set (walk tgt)"
    using same_node[OF dist src(1) walk_trans[OF m(1) tgt(1)]] m src(2) by simp
  have "\<not> has_id src i"
  proof
    assume "has_id src i"
    then obtain k where k: "k \<in> set (walk src)" "id_of k = Some (Str i)" by (auto simp: has_id_def)
    then have "tgt = k" using same_node[OF dist tgt(1) walk_trans[OF k(1) src(1)]] tgt(2) by simp
    then have "src = tgt" using k(1) in_tgt walk_antisym by blast
    then show False using src(2) tgt(2) assms(5) by simp
  qed
  then have "move_node rng t s i PCenter n = Some (n, swap_nodes t s i)"
    using assms(2,5) by (simp add: move_node_def)
  then show ?thesis using leaves.swap_inside_total[OF dist assms(2-5)] by (simp add: total_leaf_own)
qed

lemma swap_with_ancestor_loses_witness:
  "\<exists>tgt. get_node sample_tree ''t'' = Some tgt \<and>
    (\<exists>t'. move_node letters sample_tree ''b'' ''t'' PCenter 0 = Some (0, t') \<and>
      mset (collect_leaves t') + mset (collect_leaves tgt) =
        mset (collect_leaves sample_tree) + mset (collect_leaves (leaf [(''id'', Str ''b''), (''type'', Str ''cm'')])))"
proof -
  obtain tgt where tgt: "get_node sample_tree ''t'' = Some tgt" "has_id tgt ''b''"
    by (simp add: sample_tree_def get_node_def leaf_def has_id_def)
  show ?thesis using swap_with_ancestor_loses[OF sample_good(2) sample_nodes(2) tgt] tgt(1) by simp
qed

text \<open>The id of a new split is checked against the tree without the moved frame. If the first id drawn
  is one of the moved subtree, it is taken, and the new tree has an id twice.\<close>

theorem moved_subtree_ids_unchecked:
  assumes "nary t" "good_ids t" "id_of t \<noteq> Some (Str s)" "get_node t s = Some src"
    and "\<not> has_id src i" "get_node (delete_node t s) i = Some tgt" "p \<noteq> PCenter" "p \<noteq> PTab"
    and "insert_beside True p i src (delete_node t s) = None" "has_id src (rng n)"
  shows "\<exists>t'. move_node rng t s i p n = Some (n + 1, t') \<and> \<not> distinct (all_ids t')"
proof -
  let ?r = "delete_node t s" and ?split = "Nary (split_attrs (rng n) (direction_of p)) (placed p src tgt)"
  have "s \<noteq> i"
    using assms(5) get_node_Some(2)[OF assms(4)] walk_self[OF walk_not_Undef[OF get_node_Some(1)[OF assms(4)]]]
    by (auto simp: has_id_def)
  obtain zs where "mset (all_ids t) = mset (all_ids ?r) + mset (all_ids src) + mset zs"
    using delete_ids_sub[OF assms(1-4)] by (metis ex_mset mset_subset_eq_exists_conv)
  then have "mset (all_ids t) = mset (all_ids ?r @ all_ids src @ zs)" by simp
  then have "distinct (all_ids ?r @ all_ids src @ zs)"
    using assms(2) mset_eq_imp_distinct_iff unfolding good_ids_def by blast
  then have "\<not> has_id ?r (rng n)" using assms(10) by (auto simp: has_id_iff)
  then have "rng n \<notin> set (getAllIds ?r)" by (simp add: getAllIds_mem)
  then have "generate_id rng (getAllIds ?r) n = Some (rng n, rng n # getAllIds ?r, n + 1)"
    by (subst generate_id.simps) simp
  then have "move_node rng t s i p n = Some (n + 1, replaceNode ?r i ?split)"
    using assms(4-9) \<open>s \<noteq> i\<close>
    by (simp add: move_node_def move_beside_def Let_def wrap_target_def new_split_def)
  moreover have "mset (all_ids (replaceNode ?r i ?split)) =
      mset (all_ids ?r) + mset (all_ids src) + {#Some (Str (rng n))#}"
    using ids.wrap_total[OF assms(6) split_attrs_id mset_placed, of "rng n" "direction_of p" p src]
    by (simp add: total_id_own id_own_def)
  then have "mset (all_ids (replaceNode ?r i ?split)) = mset (Some (Str (rng n)) # all_ids src @ all_ids ?r)" by simp
  then have "\<not> distinct (all_ids (replaceNode ?r i ?split))"
    using mset_eq_imp_distinct_iff assms(10) unfolding has_id_iff by (metis UnI1 distinct.simps(2) set_append)
  ultimately show ?thesis by blast
qed

lemma moved_subtree_ids_unchecked_witness:
  "\<exists>t'. move_node (\<lambda>_. ''a'') sample_tree ''a'' ''c'' PTop 0 = Some (0 + 1, t') \<and> \<not> distinct (all_ids t')"
proof (rule moved_subtree_ids_unchecked[OF sample_good _ sample_nodes(1)])
  show "get_node (delete_node sample_tree ''a'') ''c'' = Some (leaf [(''id'', Str ''c''), (''type'', Str ''terminal'')])"
    by (simp add: sample_tree_def get_node_def leaf_def delete_node_def remove_child_def delete_at_def)
qed (simp_all add: sample_tree_def leaf_def has_id_def delete_node_def remove_child_def delete_at_def
      insert_beside_def get_parent_id_def get_node_def insert_sibling_def)

end
