(* ===== verification/FrameLayout.thy ===== *)
theory FrameLayout
  imports FrameMove
begin

text \<open>
  The layout of a frame tree: every node has at least two children, the sizes of a split are
  positive with sum 1, the active tab of a container is one of its children. Every operation of
  \<^verbatim>\<open>packages/frontend/frame-editors/frame-tree/tree-ops.ts\<close> that changes the shape of a tree keeps
  it. Sizes are rationals here; the code has floating point numbers.
\<close>

section \<open>The invariant\<close>

definition sizes_ok :: "attrs \<Rightarrow> nat \<Rightarrow> bool" where
  "sizes_ok a n \<longleftrightarrow>
     (\<exists>xs. sizes_in a = Some (map Fin xs) \<and> length xs = n \<and> (\<forall>x \<in> set xs. 0 < x) \<and> sum_list xs = 1)"

definition active_ok :: "attrs \<Rightarrow> nat \<Rightarrow> bool" where
  "active_ok a n \<longleftrightarrow> (\<exists>k < n. activeTab_in a = num_of k)"

definition layout_ok :: "attrs \<Rightarrow> nat \<Rightarrow> bool" where
  "layout_ok a n \<longleftrightarrow> 2 \<le> n \<and>
     (obj_get a ''type'' = Some (Str ''node'') \<longrightarrow> sizes_ok a n) \<and>
     (obj_get a ''type'' = Some (Str ''tabs'') \<longrightarrow> active_ok a n)"

fun tidy :: "frame \<Rightarrow> bool" where
  "tidy Undef = False"
| "tidy (Nary a cs) = (layout_ok a (length cs) \<and> (\<forall>c \<in> set cs. tidy c))"
| "tidy (Node a f g) = (f = Undef \<and> g = Undef)"

lemma tidy_walk: "tidy t \<Longrightarrow> n \<in> set (walk t) \<Longrightarrow> tidy n"
  by (induction t) auto

lemma tidy_get_node: "tidy t \<Longrightarrow> get_node t i = Some n \<Longrightarrow> tidy n"
  using get_node_Some(1) tidy_walk by blast

lemma tidy_nary: "tidy t \<Longrightarrow> nary t"
  by (induction t) auto

lemma replaceNodes_tidy: "tidy t \<Longrightarrow> \<forall>u \<in> snd ` set R. tidy u \<Longrightarrow> tidy (replaceNodes t R)"
  unfolding replaceNodes_def by (rule replace_proc_shape[where P = tidy]) auto

lemma replaceNode_tidy: "tidy t \<Longrightarrow> tidy u \<Longrightarrow> tidy (replaceNode t i u)"
  unfolding replaceNode_def by (rule replaceNodes_tidy) auto

lemma swap_nodes_tidy: "tidy t \<Longrightarrow> tidy (swap_nodes t i j)"
  using tidy_get_node by (auto simp: swap_nodes_def split: option.splits intro!: replaceNodes_tidy)

section \<open>Attributes\<close>

named_theorems attrs_simps "how the attributes of a node are read after they are set"

lemma sizes_in_set [attrs_simps]: "sizes_in (obj_set ''sizes'' (Nums xs) a) = Some xs"
  by (simp add: update_conv')

lemma sizes_in_other [attrs_simps]: "k \<noteq> ''sizes'' \<Longrightarrow> sizes_in (obj_set k v a) = sizes_in a"
  by (simp add: update_conv')

lemma activeTab_set [attrs_simps]: "activeTab_in (obj_set ''activeTab'' (Num x) a) = x"
  by (simp add: update_conv')

lemma activeTab_other [attrs_simps]: "k \<noteq> ''activeTab'' \<Longrightarrow> activeTab_in (obj_set k v a) = activeTab_in a"
  by (simp add: update_conv')

declare sizes_in.simps [simp del] activeTab_in.simps [simp del]

lemma shrink_sizes_other [attrs_simps]:
  "k \<noteq> ''sizes'' \<Longrightarrow> obj_get (shrink_sizes idx a) k = obj_get a k"
  "activeTab_in (shrink_sizes idx a) = activeTab_in a"
  by (auto simp: shrink_sizes_def Let_def update_conv' attrs_simps split: option.splits)

lemma shift_active_other [attrs_simps]:
  "k \<noteq> ''activeTab'' \<Longrightarrow> obj_get (shift_active idx len old a) k = obj_get a k"
  "sizes_in (shift_active idx len old a) = sizes_in a"
  by (auto simp: shift_active_def Let_def update_conv' attrs_simps)

lemma num_sum_Fin: "num_sum (map Fin xs) = Fin (sum_list xs)"
proof -
  have "foldl num_add (Fin a) (map Fin xs) = Fin (a + sum_list xs)" for a
    by (induction xs arbitrary: a) (auto simp: add.assoc)
  then show ?thesis by (simp add: num_sum_def)
qed

lemma sum_list_pos_rat:
  fixes xs :: "rat list"
  shows "xs \<noteq> [] \<Longrightarrow> \<forall>x \<in> set xs. 0 < x \<Longrightarrow> 0 < sum_list xs"
proof (induction xs)
  case (Cons x xs)
  then show ?case by (cases "xs = []") (auto intro: add_pos_pos)
qed simp

lemma sum_list_divide_rat: "sum_list (map (\<lambda>y. y / c) ys) = sum_list ys / (c :: rat)"
  by (induction ys) (simp, simp only: list.map sum_list.Cons add_divide_distrib)

lemma shrink_sizes_ok:
  assumes "sizes_ok a n" "idx < n" "2 \<le> n"
  shows "sizes_ok (shrink_sizes idx a) (n - 1)"
proof -
  obtain xs where xs: "sizes_in a = Some (map Fin xs)" "length xs = n" "\<forall>x \<in> set xs. 0 < x"
    using assms(1) by (auto simp: sizes_ok_def)
  let ?ys = "delete_at idx xs"
  have del: "delete_at idx (map Fin xs) = map Fin ?ys" by (simp add: delete_at_def take_map drop_map)
  have len: "length ?ys = n - 1" using xs(2) assms(2) by (simp add: delete_at_def)
  have pos: "\<forall>y \<in> set ?ys. 0 < y" using xs(3) delete_at_subset[of idx xs] by auto
  have "?ys \<noteq> []" using len assms(3) by (cases ?ys) auto
  then have total: "0 < sum_list ?ys" using sum_list_pos_rat pos by blast
  have "map (\<lambda>s. num_div s (Fin (sum_list ?ys))) (map Fin ?ys) = map Fin (map (\<lambda>y. y / sum_list ?ys) ?ys)"
    using total by simp
  then have "sizes_in (shrink_sizes idx a) = Some (map Fin (map (\<lambda>y. y / sum_list ?ys) ?ys))"
    using xs(1) by (simp add: shrink_sizes_def Let_def del num_sum_Fin attrs_simps)
  moreover have "sum_list (map (\<lambda>y. y / sum_list ?ys) ?ys) = 1"
    using total by (simp add: sum_list_divide_rat)
  ultimately show ?thesis using len pos total unfolding sizes_ok_def
    by (intro exI[of _ "map (\<lambda>y. y / sum_list ?ys) ?ys"]) auto
qed

lemma shift_active_ok:
  assumes "active_ok a n" "idx < n" "2 \<le> n" "activeTab_in b = activeTab_in a"
  shows "active_ok (shift_active idx (n - 1) a b) (n - 1)"
proof -
  obtain k where k: "k < n" "activeTab_in a = num_of k" using assms(1) by (auto simp: active_ok_def)
  consider "idx < k" | "idx = k" | "k < idx" by linarith
  then show ?thesis
  proof cases
    case 1
    then have "activeTab_in (shift_active idx (n - 1) a b) = num_of (k - 1)"
      using k by (simp add: shift_active_def attrs_simps of_nat_diff)
    then show ?thesis using 1 k(1) unfolding active_ok_def by (intro exI[of _ "k - 1"]) auto
  next
    case 2
    have "num_min (num_of k) (Fin (of_nat (n - 1) - 1)) = num_of (min k (n - 2))"
      using assms(3) k(1) by (auto simp: num_min_def of_nat_diff min_def)
    then have "activeTab_in (shift_active idx (n - 1) a b) = num_of (min k (n - 2))"
      using k 2 by (simp add: shift_active_def attrs_simps)
    then show ?thesis using assms(3) unfolding active_ok_def by (intro exI[of _ "min k (n - 2)"]) auto
  next
    case 3
    then have "activeTab_in (shift_active idx (n - 1) a b) = num_of k"
      using k assms(4) by (simp add: shift_active_def)
    then show ?thesis using 3 assms(2) unfolding active_ok_def by (intro exI[of _ k]) auto
  qed
qed

section \<open>Operations keep the layout\<close>

lemma remove_child_tidy:
  assumes "tidy (Nary a cs)" "idx < length cs"
  shows "tidy (remove_child a cs idx)"
proof (cases "length (delete_at idx cs) = 1")
  case True
  then have "hd (delete_at idx cs) \<in> set cs"
    using delete_at_subset[of idx cs] by (cases "delete_at idx cs") auto
  then show ?thesis using True assms(1) by (simp add: remove_child_def)
next
  case False
  have len: "length (delete_at idx cs) = length cs - 1" using assms(2) by (simp add: delete_at_def)
  then have two: "2 \<le> length cs - 1" "2 \<le> length cs" using False assms by (auto simp: layout_ok_def)
  have kids: "\<forall>c \<in> set (delete_at idx cs). tidy c" using assms(1) delete_at_subset[of idx cs] by auto
  have "layout_ok (shrink_sizes idx a) (length cs - 1)" if "obj_get a ''type'' \<noteq> Some (Str ''tabs'')"
    using assms two that shrink_sizes_ok[of a "length cs" idx] by (simp add: layout_ok_def attrs_simps)
  moreover have "layout_ok (shift_active idx (length cs - 1) a (shrink_sizes idx a)) (length cs - 1)"
    if "obj_get a ''type'' = Some (Str ''tabs'')"
    using assms two that shift_active_ok[of a "length cs" idx] by (simp add: layout_ok_def attrs_simps)
  ultimately show ?thesis using False kids len by (auto simp: remove_child_def Let_def)
qed

lemma delete_proc_tidy: "tidy t \<Longrightarrow> tidy (snd (delete_proc i t d))"
proof (induction t arbitrary: d)
  case (Nary a cs)
  have "set ds \<subseteq> set cs \<Longrightarrow> \<forall>c \<in> set (snd (smap (delete_proc i) ds d)). tidy c" for ds
    using Nary by (induction ds arbitrary: d) (auto simp: case_prod_beta Let_def)
  then have "\<forall>c \<in> set (snd (smap (delete_proc i) cs d)). tidy c" by blast
  moreover have "tidy (remove_child a cs idx)" if "find_index (has_the_id i) cs = Some idx" for idx
    using remove_child_tidy[OF Nary.prems] find_index_Some[OF that] by blast
  ultimately show ?case using Nary.prems
    by (auto simp: case_prod_beta Let_def simp del: remove_child_def split: option.splits)
qed auto

lemma delete_node_tidy: "tidy t \<Longrightarrow> tidy (delete_node t i)"
  by (simp add: delete_node_def delete_proc_tidy)

lemma sum_list_update_rat:
  fixes xs :: "rat list"
  shows "k < length xs \<Longrightarrow> sum_list (xs[k := y]) = sum_list xs + y - xs ! k"
  by (induction xs arbitrary: k) (auto split: nat.split)

lemma length_insert_at: "length (insert_at k x xs) = Suc (length xs)"
  by (simp add: insert_at_def)

lemma borrowed_sizes_ok:
  assumes "sizes_ok a n" "k < n"
  shows "sizes_ok (obj_set ''sizes'' (Nums (borrowed_sizes strict (sizes_in a) n k j)) b) (n + 1)"
proof -
  obtain xs where xs: "sizes_in a = Some (map Fin xs)" "length xs = n" "\<forall>x \<in> set xs. 0 < x" "sum_list xs = 1"
    using assms(1) by (auto simp: sizes_ok_def)
  let ?y = "xs ! k / 2"
  let ?zs = "insert_at j ?y (xs[k := ?y])"
  have k: "k < length xs" using xs(2) assms(2) by simp
  have y: "0 < ?y" using xs(3) k by (simp add: nth_mem)
  have upd: "(map Fin xs)[k := Fin ?y] = map Fin (xs[k := ?y])" by (simp add: map_update)
  have "borrowed_sizes strict (sizes_in a) n k j = insert_at j (Fin ?y) ((map Fin xs)[k := Fin ?y])"
    using xs(1,2) k by (simp add: borrowed_sizes_def num_get_def num_set_def Let_def)
  also have "\<dots> = map Fin ?zs" unfolding upd by (simp add: insert_at_def take_map drop_map)
  finally have "borrowed_sizes strict (sizes_in a) n k j = map Fin ?zs" .
  moreover have "length ?zs = n + 1" using xs(2) by (simp add: insert_at_def)
  moreover have "\<forall>z \<in> set ?zs. 0 < z"
    using xs(3) y set_update_subset_insert[of xs k ?y] by (auto simp: insert_at_set)
  moreover have "sum_list ?zs = 1"
  proof -
    have "sum_list ?zs = ?y + sum_list (xs[k := ?y])"
      using append_take_drop_id[of j "xs[k := ?y]"]
      by (metis (no_types, lifting) add.left_commute insert_at_def sum_list.Cons sum_list_append)
    also have "sum_list (xs[k := ?y]) = sum_list xs + ?y - xs ! k" using k by (rule sum_list_update_rat)
    finally show ?thesis using xs(4) by simp
  qed
  ultimately show ?thesis unfolding sizes_ok_def by (intro exI[of _ ?zs]) (simp add: attrs_simps)
qed

lemma insert_sibling_tidy:
  assumes "insert_sibling strict p i src parent = Some u" "tidy src" "tidy parent"
  shows "tidy u"
proof -
  obtain a cs k where a: "parent = Nary a cs" "obj_get a ''type'' = Some (Str ''node'')"
      "find_index (has_the_id i) cs = Some k"
      "u = (let j = (if insert_first p then k else k + 1) in
         Nary (obj_set ''sizes'' (Nums (borrowed_sizes strict (sizes_in a) (length cs) k j)) a) (insert_at j src cs))"
    using assms(1) by (auto simp: insert_sibling_def split: frame.splits if_splits)
  have "sizes_ok a (length cs)" "k < length cs" "2 \<le> length cs"
    using assms(3) a(1,2) find_index_Some[OF a(3)] by (auto simp: layout_ok_def)
  then show ?thesis using a assms(2,3) borrowed_sizes_ok[of a "length cs" k]
    by (auto simp: Let_def insert_at_set layout_ok_def update_conv' length_insert_at)
qed

lemma insert_beside_tidy:
  "insert_beside strict p i src t = Some t' \<Longrightarrow> tidy src \<Longrightarrow> tidy t \<Longrightarrow> tidy t'"
  by (erule insert_beside_cases) (metis insert_sibling_tidy replaceNode_tidy tidy_get_node)

lemma split_attrs_layout: "layout_ok (split_attrs i d) 2"
proof -
  have "sizes_ok (split_attrs i d) 2"
    unfolding sizes_ok_def by (intro exI[of _ "[1 / 2, 1 / 2]"]) (simp add: split_attrs_def sizes_in.simps)
  then show ?thesis by (simp add: layout_ok_def split_attrs_def)
qed

lemma split_tidy: "tidy x \<Longrightarrow> tidy y \<Longrightarrow> tidy (Nary (split_attrs i d) [x, y])"
  using split_attrs_layout by (simp add: numeral_2_eq_2)

lemma new_split_tidy:
  "new_split rng ids d [x, y] n = Some (n', t') \<Longrightarrow> tidy x \<Longrightarrow> tidy y \<Longrightarrow> tidy t'"
  using split_tidy by (auto simp: new_split_def split: option.splits)

lemma placed_tidy:
  "new_split rng ids d (placed p x y) n = Some (n', t') \<Longrightarrow> tidy x \<Longrightarrow> tidy y \<Longrightarrow> tidy t'"
  using new_split_tidy by (auto simp: placed_def split: if_splits)

lemma wrap_target_tidy:
  assumes "wrap_target rng t p src i tgt n = Some (n', t')" "tidy t" "tidy src" "tidy tgt"
  shows "tidy t'"
proof -
  obtain u where "new_split rng (getAllIds t) (direction_of p) (placed p src tgt) n = Some (n', u)" "t' = replaceNode t i u"
    using assms(1) by (auto simp: wrap_target_def)
  then show ?thesis using placed_tidy replaceNode_tidy assms(2-4) by blast
qed

lemma surviving_child_node: "surviving_child t s i r = Some (j, tgt) \<Longrightarrow> get_node r j = Some tgt"
  by (auto simp: surviving_child_def split: option.splits frame.splits jsval.splits)

lemma move_beside_tidy:
  assumes "move_beside rng t s i p src n = Some (n', t')" "tidy t" "tidy src"
  shows "tidy t'"
proof -
  let ?r = "delete_node t s"
  have r: "tidy ?r" using assms(2) by (rule delete_node_tidy)
  show ?thesis
    using assms(1) insert_beside_tidy[OF _ assms(3) r] wrap_target_tidy[OF _ r assms(3)] tidy_get_node[OF r] r
      surviving_child_node
    by (fastforce simp: move_beside_def Let_def split: option.splits)
qed

lemma push_tab_tidy:
  assumes "tidy (Nary a cs)" "tidy c" "obj_get a ''type'' = Some (Str ''tabs'')"
  shows "tidy (push_tab a cs c)"
  using assms by (auto simp: push_tab_def layout_ok_def update_conv' active_ok_def attrs_simps)

lemma new_tabs_tidy:
  assumes "new_tabs rng t src i n = Some (n', t')" "tidy t" "tidy src"
  shows "tidy t'"
proof -
  have "tidy (Nary (tab_attrs j) [x, src])" if "tidy x" for j x
    using that assms(3)
    by (auto simp: tab_attrs_def layout_ok_def active_ok_def activeTab_in.simps intro: exI[of _ "Suc 0"])
  then show ?thesis using assms tidy_get_node[OF assms(2)] replaceNode_tidy[OF assms(2)]
    by (auto simp: new_tabs_def split: option.splits)
qed

lemma merge_as_tabs_tidy:
  assumes "merge_as_tabs rng t s i n = Some (n', t')" "tidy t"
  shows "tidy t'"
proof -
  let ?r = "delete_node t s"
  have r: "tidy ?r" using assms(2) by (rule delete_node_tidy)
  have new: "tidy t'" if "new_tabs rng ?r src i n = Some (n', t')" "get_node t s = Some src" for src
    using new_tabs_tidy[OF that(1) r] tidy_get_node[OF assms(2) that(2)] by blast
  have push: "tidy (replaceNode ?r q (push_tab a cs src))"
    if "get_node ?r q = Some (Nary a cs)" "has_type ''tabs'' (Nary a cs)" "get_node t s = Some src" for q a cs src
    using that tidy_get_node[OF r that(1)] tidy_get_node[OF assms(2) that(3)]
    by (intro replaceNode_tidy[OF r] push_tab_tidy) (auto simp: has_type_def)
  show ?thesis using assms new push
    by (auto simp: merge_as_tabs_def Let_def split: option.splits jsval.splits frame.splits if_splits)
qed

lemma move_node_tidy:
  assumes "move_node rng t s i p n = Some (n', t')" "tidy t"
  shows "tidy t'"
proof -
  have "tidy t'" if "move_beside rng t s i p src n = Some (n', t')" "get_node t s = Some src" for src
    using move_beside_tidy[OF that(1) assms(2)] tidy_get_node[OF assms(2) that(2)] by blast
  then show ?thesis
    using assms merge_as_tabs_tidy swap_nodes_tidy
    by (auto simp: move_node_def split: option.splits if_splits)
qed

lemma untab_tidy:
  assumes "tidy (Nary a cs)" "obj_get a ''type'' = Some (Str ''tabs'')" "idx < length cs"
  shows "tidy (untab a cs idx)"
proof -
  have len: "length (delete_at idx cs) = length cs - 1" using assms(3) by (simp add: delete_at_def)
  have kids: "\<forall>c \<in> set (delete_at idx cs). tidy c" using assms(1) delete_at_subset[of idx cs] by auto
  show ?thesis
  proof (cases "length (delete_at idx cs) = 1")
    case True
    then have "hd (delete_at idx cs) \<in> set (delete_at idx cs)" by (cases "delete_at idx cs") auto
    then show ?thesis using True kids by (simp add: untab_def)
  next
    case False
    then have "2 \<le> length cs - 1" "2 \<le> length cs" using assms(1) len by (auto simp: layout_ok_def)
    then have "layout_ok (shift_active idx (length cs - 1) a a) (length cs - 1)"
      using assms shift_active_ok[of a "length cs" idx a] by (simp add: layout_ok_def attrs_simps)
    then show ?thesis using False kids len by (simp add: untab_def Let_def)
  qed
qed

lemma extract_from_tabs_tidy:
  assumes "extract_from_tabs rng t s p n = Some (n', t')" "tidy t"
  shows "tidy t'"
proof -
  have "tidy (replaceNode t q u)"
    if "get_node t q = Some (Nary a cs)" "has_type ''tabs'' (Nary a cs)" "get_node t s = Some src"
      "find_index (has_the_id s) cs = Some idx"
      "new_split rng ids d (placed p src (untab a cs idx)) n = Some (n', u)" for q a cs src idx ids d u
  proof -
    have "tidy (Nary a cs)" "tidy src" using tidy_get_node[OF assms(2)] that(1,3) by blast+
    moreover have "idx < length cs" using find_index_Some[OF that(4)] by simp
    ultimately have "tidy u" using placed_tidy[OF that(5)] untab_tidy that(2) by (simp add: has_type_def)
    then show ?thesis using replaceNode_tidy[OF assms(2)] by blast
  qed
  then show ?thesis using assms
    by (auto simp: extract_from_tabs_def split: option.splits jsval.splits frame.splits if_splits)
qed

lemma add_tab_proc_tidy: "add_tab_proc i lf t = Some t' \<Longrightarrow> tidy t \<Longrightarrow> tidy lf \<Longrightarrow> tidy t'"
proof (induction t arbitrary: t')
  case (Nary a cs)
  show ?case
  proof (cases "has_the_id i (Nary a cs) \<and> has_type ''tabs'' (Nary a cs)")
    case True
    then have "t' = push_tab a cs lf" "obj_get a ''type'' = Some (Str ''tabs'')"
      using Nary.prems(1) by (auto simp: has_type_def)
    then show ?thesis using push_tab_tidy Nary.prems by blast
  next
    case False
    then obtain cs' where cs': "those (map (add_tab_proc i lf) cs) = Some cs'" "t' = Nary a cs'"
      using Nary.prems(1) by auto
    have "those (map (add_tab_proc i lf) ds) = Some ds' \<Longrightarrow> set ds \<subseteq> set cs \<Longrightarrow>
        length ds' = length ds \<and> (\<forall>c \<in> set ds'. tidy c)" for ds ds'
      using Nary.IH Nary.prems(2,3) by (induction ds arbitrary: ds') (auto split: option.splits)
    from this[OF cs'(1)] show ?thesis using cs'(2) Nary.prems(2) by simp
  qed
qed (auto split: if_splits)

lemma add_tab_tidy:
  assumes "add_tab rng t i ty path n = Some (n', t')" "tidy t"
  shows "tidy t'"
proof -
  have "tidy (leaf a)" for a by (simp add: leaf_def)
  then show ?thesis using assms add_tab_proc_tidy by (auto simp: add_tab_def Let_def split: option.splits)
qed

lemma reordered_set:
  assumes "k < length cs"
  shows "mset (reordered s b cs k) = mset cs"
proof -
  have "cs = take k cs @ cs ! k # drop (Suc k) cs" using assms by (simp add: id_take_nth_drop)
  then have cs: "mset cs = add_mset (cs ! k) (mset (delete_at k cs))"
    by (metis delete_at_def mset.simps(2) mset_append union_mset_add_mset_right)
  have "mset (insert_at j x xs) = add_mset x (mset xs)" for j x and xs :: "frame list"
    using append_take_drop_id[of j xs]
    by (metis insert_at_def mset.simps(2) mset_append union_mset_add_mset_right)
  then show ?thesis by (auto simp: reordered_def Let_def cs split: option.splits)
qed

lemma reorder_children_cases:
  obtains "reorder_children s b a cs = Nary a cs"
  | k cs' where "reorder_children s b a cs = Nary (obj_set ''activeTab'' (Num (num_of k)) a) cs'"
      "mset cs' = mset cs" "k < length cs" "has_the_id s (cs' ! k)"
proof (cases "find_index (has_the_id s) cs")
  case None
  then show ?thesis using that(1) by (simp add: reorder_children_def)
next
  case (Some idx)
  let ?cs = "reordered s b cs idx"
  have idx: "idx < length cs" "has_the_id s (cs ! idx)" using find_index_Some[OF Some] by auto
  have ms: "mset ?cs = mset cs" using reordered_set[OF idx(1)] .
  have "\<exists>c \<in> set ?cs. has_the_id s c" using idx mset_eq_setD[OF ms] by (metis nth_mem)
  then obtain k where k: "find_index (has_the_id s) ?cs = Some k" by (metis find_index_None not_Some_eq)
  have "k < length cs" "has_the_id s (?cs ! k)" using find_index_Some[OF k] mset_eq_length[OF ms] by auto
  then show ?thesis using that(2)[OF _ ms] Some k by (simp add: reorder_children_def Let_def)
qed

lemma reorder_tab_tidy: "tidy t \<Longrightarrow> tidy (reorder_tab t i s b)"
proof (induction t)
  case (Nary a cs)
  show ?case
  proof (cases "has_the_id i (Nary a cs) \<and> has_type ''tabs'' (Nary a cs)")
    case True
    then have ty: "obj_get a ''type'' = Some (Str ''tabs'')" by (simp add: has_type_def)
    have "tidy (reorder_children s b a cs)"
    proof (rule reorder_children_cases[of s b a cs])
      fix k cs'
      assume r: "reorder_children s b a cs = Nary (obj_set ''activeTab'' (Num (num_of k)) a) cs'"
        "mset cs' = mset cs" "k < length cs"
      then show ?thesis using Nary.prems ty mset_eq_length[OF r(2)] mset_eq_setD[OF r(2)]
        by (auto simp: layout_ok_def active_ok_def update_conv' attrs_simps)
    qed (use Nary.prems in simp)
    then show ?thesis using True by simp
  next
    case False
    then show ?thesis using Nary by auto
  qed
qed auto

text \<open>Splitting a leaf: where the two leaves are.\<close>

lemma leaf_Node: "is_leaf lf \<Longrightarrow> \<exists>a. lf = Node a Undef Undef"
  by (cases lf) auto

lemma set_attr_leaf: "is_leaf lf \<Longrightarrow> is_leaf (set_attr k v lf)"
  by (cases lf) (auto simp: set_attr_def)

lemma second_leaf_leaf:
  assumes "is_leaf lf"
  shows "is_leaf (second_leaf lf ty extra i)"
proof -
  have "is_leaf (foldl (\<lambda>l (k, v). set_attr k v l) l xs)" if "is_leaf l" for l xs
    using that by (induction xs arbitrary: l) (auto simp: set_attr_leaf)
  then show ?thesis using assms by (auto simp: second_leaf_def Let_def set_attr_leaf split: option.splits)
qed

lemma second_leaf_id:
  assumes "is_leaf lf" "obj_get extra ''id'' = None"
  shows "id_of (second_leaf lf ty extra i) = Some (Str i)"
proof -
  have set: "id_of (foldl (\<lambda>l (k, v). set_attr k v l) l xs) = Some (Str i)"
    if "is_leaf l" "id_of l = Some (Str i)" "obj_get xs ''id'' = None" for l xs
    using that
  proof (induction xs arbitrary: l)
    case (Cons x xs)
    have "id_of (set_attr (fst x) (snd x) l) = Some (Str i)"
      using Cons.prems leaf_Node[OF Cons.prems(1)] by (auto simp: set_attr_def update_conv' split: if_splits)
    then show ?case using Cons.IH[OF set_attr_leaf[OF Cons.prems(1)]] Cons.prems(3)
      by (cases x) (auto split: if_splits)
  qed simp
  have "id_of (set_attr ''id'' (Str i) lf) = Some (Str i)"
    using leaf_Node[OF assms(1)] by (auto simp: set_attr_def update_conv')
  then show ?thesis using set assms set_attr_leaf
    by (auto simp: second_leaf_def Let_def leaf_def split: option.splits)
qed

lemma split_proc_done: "split_proc sp i t (Some (True, n)) = (Some (True, n), t)" "split_proc sp i t None = (None, t)"
  by (cases t; simp)+

lemma split_proc_none: "get_node t i = None \<Longrightarrow> split_proc sp i t (Some (False, n)) = (Some (False, n), t)"
  unfolding get_node_def
proof (induction t)
  case (Nary a cs)
  have "smap (split_proc sp i) cs (Some (False, n)) = (Some (False, n), cs)"
    using Nary by (intro smap_id) (auto simp: find_None_iff split: if_splits)
  then show ?case using Nary.prems by (auto split: if_splits)
next
  case (Node a f g)
  then show ?case by (auto simp: find_append find_None_iff split: if_splits option.splits)
qed simp

lemma find_concat_split:
  assumes "find p (concat (map walk cs)) = Some lf"
  obtains xs c ys where "cs = xs @ c # ys" "\<forall>d \<in> set xs. find p (walk d) = None" "find p (walk c) = Some lf"
  using assms
proof (induction cs arbitrary: thesis)
  case (Cons c cs)
  show ?case
  proof (cases "find p (walk c)")
    case None
    then have "find p (concat (map walk cs)) = Some lf" using Cons.prems(2) by (simp add: find_append)
    then obtain xs d ys where "cs = xs @ d # ys" "\<forall>d \<in> set xs. find p (walk d) = None" "find p (walk d) = Some lf"
      using Cons.IH by blast
    then show ?thesis using None by (intro Cons.prems(1)[of "c # xs" d ys]) auto
  next
    case (Some l)
    then show ?thesis using Cons.prems(2) by (intro Cons.prems(1)[of "[]" c cs]) (simp_all add: find_append)
  qed
qed simp

lemma child_split:
  assumes "get_node (Nary a cs) i = Some lf" "obj_get a ''id'' \<noteq> Some (Str i)"
  obtains xs c ys where "cs = xs @ c # ys" "\<forall>d \<in> set xs. get_node d i = None" "get_node c i = Some lf"
proof -
  have no: "\<not> has_the_id i (Nary a cs)" using assms(2) by simp
  have "find (has_the_id i) (concat (map walk cs)) = Some lf"
    using assms(1) no by (simp add: get_node_def del: has_the_id_iff)
  then show ?thesis by (rule find_concat_split) (use that in \<open>auto simp: get_node_def simp del: has_the_id_iff\<close>)
qed

lemma smap_split_state:
  assumes "\<And>d. d \<in> set xs \<Longrightarrow> h d s = (s, d)" "h c s = (r, c')" "\<And>d. d \<in> set ys \<Longrightarrow> h d r = (r, d)"
  shows "smap h (xs @ c # ys) s = (r, xs @ c' # ys)"
  using assms smap_id[of xs h s] smap_id[of ys h r] by (simp add: smap_append)

lemma replace_proc_none: "get_node t i = None \<Longrightarrow> replace_proc [(i, u)] t r = (r, t)"
proof (induction t arbitrary: r)
  case (Nary a cs)
  have "smap (replace_proc [(i, u)]) cs r = (r, cs)"
    using Nary by (intro smap_id) (auto simp: get_node_None has_id_def)
  then show ?case using Nary.prems by (auto simp: replacement_of_single get_node_def split: if_splits)
next
  case (Node a f g)
  then have "get_node f i = None" "get_node g i = None" "obj_get a ''id'' \<noteq> Some (Str i)"
    by (auto simp: get_node_None has_id_def)
  then show ?case using Node.IH by (simp add: replacement_of_single)
qed simp

lemma replace_proc_found: "get_node t i = Some lf \<Longrightarrow> fst (replace_proc [(i, u)] t (Suc 0)) = 0"
proof (induction t)
  case (Nary a cs)
  show ?case
  proof (cases "obj_get a ''id'' = Some (Str i)")
    case False
    obtain xs c ys where cs: "cs = xs @ c # ys" "\<forall>d \<in> set xs. get_node d i = None" "get_node c i = Some lf"
      using child_split[OF Nary.prems False] by blast
    have "smap (replace_proc [(i, u)]) cs (Suc 0) = (0, xs @ snd (replace_proc [(i, u)] c (Suc 0)) # ys)"
      unfolding cs(1) using cs(2,3) Nary.IH[of c] cs(1)
      by (intro smap_split_state) (auto simp: replace_proc_none prod_eq_iff)
    then show ?thesis using False by (simp add: replacement_of_single)
  qed (simp add: replacement_of_single)
next
  case (Node a f g)
  show ?case
  proof (cases "get_node f i")
    case None
    then show ?thesis using Node replace_proc_none[OF None]
      by (auto simp: replacement_of_single case_prod_beta get_node_def find_append split: if_splits)
  next
    case (Some l)
    then have "get_node f i = Some lf \<or> obj_get a ''id'' = Some (Str i)"
      using Node.prems by (auto simp: get_node_def find_append split: if_splits)
    then show ?thesis using Node.IH(1) by (auto simp: replacement_of_single case_prod_beta)
  qed
qed (simp add: get_node_def)

lemma replaceNode_child:
  assumes "obj_get a ''id'' \<noteq> Some (Str i)"
    and "cs = xs @ c # ys" "\<forall>d \<in> set xs. get_node d i = None" "get_node c i = Some lf"
  shows "replaceNode (Nary a cs) i u = Nary a (xs @ replaceNode c i u # ys)"
proof -
  have "smap (replace_proc [(i, u)]) cs (Suc 0) = (0, xs @ replaceNode c i u # ys)"
    unfolding assms(2) using assms(3) replace_proc_found[OF assms(4), of u]
    by (intro smap_split_state) (auto simp: replace_proc_none prod_eq_iff replaceNode_def replaceNodes_def)
  then show ?thesis using assms(1)
    by (simp add: replaceNode_def replaceNodes_def replacement_of_single)
qed

text \<open>After the search the state is unchanged, or the node was found.\<close>

abbreviation settled :: "(bool \<times> nat) option \<Rightarrow> bool" where
  "settled s \<equiv> s = None \<or> (\<exists>m. s = Some (True, m))"

text \<open>Splitting the node that was found is replacing it.\<close>

lemma split_proc_replace:
  assumes "nary t" "get_node t i = Some lf"
  shows "split_proc sp i t (Some (False, n)) =
    (case sp lf n of None \<Rightarrow> (None, t) | Some (n', u) \<Rightarrow> (Some (True, n'), replaceNode t i u))"
  using assms
proof (induction t)
  case (Nary a cs)
  show ?case
  proof (cases "obj_get a ''id'' = Some (Str i)")
    case True
    then have "lf = Nary a cs" using Nary.prems(2) by (simp add: get_node_def)
    then show ?thesis using True
      by (simp add: replaceNode_def replaceNodes_def replacement_of_single split: option.split)
  next
    case False
    obtain xs c ys where cs: "cs = xs @ c # ys" "\<forall>d \<in> set xs. get_node d i = None" "get_node c i = Some lf"
      using child_split[OF Nary.prems(2) False] by blast
    have IH: "split_proc sp i c (Some (False, n)) =
        (case sp lf n of None \<Rightarrow> (None, c) | Some (n', u) \<Rightarrow> (Some (True, n'), replaceNode c i u))"
      using Nary.IH[of c] Nary.prems(1) cs(1,3) by auto
    have rest: "split_proc sp i d r = (r, d)" if "settled r" for d r using that by (auto simp: split_proc_done)
    have "smap (split_proc sp i) cs (Some (False, n)) =
        (case sp lf n of None \<Rightarrow> (None, cs) | Some (n', u) \<Rightarrow> (Some (True, n'), xs @ replaceNode c i u # ys))"
    proof (cases "sp lf n")
      case None
      then have "smap (split_proc sp i) (xs @ c # ys) (Some (False, n)) = (None, xs @ c # ys)"
        using IH cs(2) rest by (intro smap_split_state) (auto simp: split_proc_none)
      then show ?thesis using None cs(1) by simp
    next
      case (Some r)
      then have "smap (split_proc sp i) (xs @ c # ys) (Some (False, n)) =
          (Some (True, fst r), xs @ replaceNode c i (snd r) # ys)"
        using IH cs(2) rest by (intro smap_split_state) (auto simp: split_proc_none case_prod_beta)
      then show ?thesis using Some cs(1) by (simp add: case_prod_beta)
    qed
    then show ?thesis using False replaceNode_child[OF False cs] by (auto split: option.splits)
  qed
next
  case (Node a f g)
  then show ?case
    by (auto simp: get_node_def replaceNode_def replaceNodes_def replacement_of_single split: if_splits option.splits)
qed simp

lemma replaceNode_leaves:
  assumes "nary t" "get_node t i = Some lf"
  shows "\<exists>xs ys. collect_leaves t = xs @ collect_leaves lf @ ys \<and>
    collect_leaves (replaceNode t i u) = xs @ collect_leaves u @ ys"
  using assms
proof (induction t)
  case (Nary a cs)
  show ?case
  proof (cases "obj_get a ''id'' = Some (Str i)")
    case True
    then have "lf = Nary a cs" using Nary.prems(2) by (simp add: get_node_def)
    then show ?thesis using True
      by (intro exI[of _ "[]"]) (simp add: replaceNode_def replaceNodes_def replacement_of_single)
  next
    case False
    obtain xs c ys where cs: "cs = xs @ c # ys" "\<forall>d \<in> set xs. get_node d i = None" "get_node c i = Some lf"
      using child_split[OF Nary.prems(2) False] by blast
    obtain us vs where IH: "collect_leaves c = us @ collect_leaves lf @ vs"
        "collect_leaves (replaceNode c i u) = us @ collect_leaves u @ vs"
      using Nary.IH[of c] Nary.prems(1) cs(1,3) by auto
    show ?thesis
      using IH replaceNode_child[OF False cs, of u] cs(1)
      by (intro exI[of _ "vs @ concat (map collect_leaves ys)"] exI[of _ "concat (map collect_leaves xs) @ us"]) simp
  qed
next
  case (Node a f g)
  then have "lf = Node a f g" "obj_get a ''id'' = Some (Str i)" by (auto simp: get_node_def split: if_splits)
  then show ?case by (intro exI[of _ "[]"]) (simp add: replaceNode_def replaceNodes_def replacement_of_single)
qed simp

section \<open>Sequences of edits\<close>

text \<open>
  The operations of a user on the tree of a window: the state is the number of random ids drawn
  and the tree.
\<close>

inductive edit :: "(nat \<Rightarrow> string) \<Rightarrow> nat \<times> frame \<Rightarrow> nat \<times> frame \<Rightarrow> bool" for rng where
  edit_delete: "edit rng (n, t) (n, delete_node t i)"
| edit_move: "move_node rng t s i p n = Some s' \<Longrightarrow> edit rng (n, t) s'"
| edit_swap: "edit rng (n, t) (n, swap_nodes t i j)"
| edit_split: "is_leaf_id t i \<Longrightarrow> split_leaf rng t i d ty extra first n = Some s' \<Longrightarrow> edit rng (n, t) s'"
| edit_new: "new_frame rng t ty d first n = Some s' \<Longrightarrow> edit rng (n, t) s'"
| edit_extract: "extract_from_tabs rng t i p n = Some s' \<Longrightarrow> edit rng (n, t) s'"
| edit_add_tab: "add_tab rng t i ty path n = Some s' \<Longrightarrow> edit rng (n, t) s'"
| edit_reorder: "edit rng (n, t) (n, reorder_tab t i s b)"

inductive_cases editE: "edit rng s s'"

lemma leaf_tidy: "is_leaf lf \<Longrightarrow> tidy lf"
  by (cases lf) auto

lemma split_leaf_result:
  assumes "nary t" "get_node t i = Some lf" "split_leaf rng t i d ty extra first n = Some (n', t')"
  obtains u where "split_the_leaf rng lf d ty extra first (getAllIds t) n = Some (n', u)" "t' = replaceNode t i u"
  using assms(3) split_proc_replace[OF assms(1,2), of "\<lambda>lf. split_the_leaf rng lf d ty extra first (getAllIds t)" n]
  by (auto simp: split_leaf_def split: option.splits)

lemma split_leaf_tidy:
  assumes "split_leaf rng t i d ty extra first n = Some (n', t')" "tidy t" "is_leaf_id t i"
  shows "tidy t'"
proof -
  obtain lf where lf: "get_node t i = Some lf" "is_leaf lf"
    using assms(3) by (auto simp: is_leaf_id_def split: option.splits)
  obtain u where u: "split_the_leaf rng lf d ty extra first (getAllIds t) n = Some (n', u)" "t' = replaceNode t i u"
    using split_leaf_result[OF tidy_nary[OF assms(2)] lf(1) assms(1)] .
  obtain j ids m where "new_split rng ids d
      (if first then [second_leaf lf ty extra j, lf] else [lf, second_leaf lf ty extra j]) m = Some (n', u)"
    using u(1) by (auto simp: split_the_leaf_def Let_def split: option.splits)
  then have "tidy u"
    using new_split_tidy leaf_tidy[OF lf(2)] leaf_tidy[OF second_leaf_leaf[OF lf(2)]] by (cases first) auto
  then show ?thesis using replaceNode_tidy[OF assms(2)] u(2) by simp
qed

lemma new_frame_tidy:
  assumes "new_frame rng t ty d first n = Some (n', t')" "tidy t"
  shows "tidy t'"
proof -
  have "tidy (leaf a)" for a by (simp add: leaf_def)
  then show ?thesis using assms new_split_tidy
    by (auto simp: new_frame_def Let_def split: option.splits if_splits)
qed

lemma edit_tidy: "edit rng s s' \<Longrightarrow> tidy (snd s) \<Longrightarrow> tidy (snd s')"
  by (erule editE)
    (auto dest: delete_node_tidy move_node_tidy swap_nodes_tidy split_leaf_tidy new_frame_tidy extract_from_tabs_tidy
      add_tab_tidy reorder_tab_tidy simp: prod_eq_iff split: prod.splits,
     (metis delete_node_tidy move_node_tidy swap_nodes_tidy split_leaf_tidy new_frame_tidy extract_from_tabs_tidy
      add_tab_tidy reorder_tab_tidy prod.collapse)+)

lemma edits_tidy: "(edit rng)\<^sup>*\<^sup>* s s' \<Longrightarrow> tidy (snd s) \<Longrightarrow> tidy (snd s')"
  by (induction rule: rtranclp_induct) (auto dest: edit_tidy)

lemma sum_list_one_le:
  fixes xs :: "rat list"
  assumes "\<forall>x \<in> set xs. 0 < x" "x \<in> set xs" "2 \<le> length xs"
  shows "x < sum_list xs"
proof -
  obtain ys zs where xs: "xs = ys @ x # zs" using assms(2) by (meson split_list)
  then have "ys @ zs \<noteq> []" "\<forall>z \<in> set (ys @ zs). 0 < z" using assms(1,3) by auto
  from sum_list_pos_rat[OF this] show ?thesis by (simp add: xs)
qed

context tree_measure
begin

lemma reorder_total: "total own (reorder_tab t i s b) = total own t"
proof (induction t)
  case (Nary a cs)
  show ?case
  proof (cases "has_the_id i (Nary a cs) \<and> has_type ''tabs'' (Nary a cs)")
    case True
    have "total own (reorder_children s b a cs) = total own (Nary a cs)"
    proof (rule reorder_children_cases[of s b a cs])
      fix k cs'
      assume r: "reorder_children s b a cs = Nary (obj_set ''activeTab'' (Num (num_of k)) a) cs'" "mset cs' = mset cs"
      have "own (Nary (obj_set ''activeTab'' (Num (num_of k)) a) cs') = own (Nary a cs)"
        by (rule own_Nary) (simp add: update_conv')
      then show ?thesis using r totals_mset[OF r(2)] by (simp add: total_simps)
    qed simp
    then show ?thesis using True by simp
  next
    case False
    have "own (Nary a (map (\<lambda>c. reorder_tab c i s b) cs)) = own (Nary a cs)" by (rule own_Nary) simp
    moreover have "totals own (map (\<lambda>c. reorder_tab c i s b) ds) = totals own ds" if "set ds \<subseteq> set cs" for ds
      using that Nary.IH by (induction ds) (auto simp: total_simps)
    ultimately show ?thesis using False by (auto simp: total_simps)
  qed
qed simp_all

end

lemma reorder_nary: "nary t \<Longrightarrow> nary (reorder_tab t i s b)"
proof (induction t)
  case (Nary a cs)
  have "nary (reorder_children s b a cs)"
  proof (rule reorder_children_cases[of s b a cs])
    fix k cs'
    assume r: "reorder_children s b a cs = Nary (obj_set ''activeTab'' (Num (num_of k)) a) cs'" "mset cs' = mset cs"
    then show ?thesis using Nary.prems mset_eq_setD[OF r(2)] by simp
  qed (use Nary.prems in simp)
  then show ?case using Nary by auto
qed simp_all

section \<open>Properties\<close>

text \<open>C15: However a user deletes, moves, swaps, splits, opens, extracts and reorders frames, with any targets and positions: in every node
  of the tree at least two children remain, the sizes of a split are as many as its children,
  each strictly between 0 and 1, with sum 1, and the active tab of a container is one of its
  children. The tree is such a tree at the start, only leaves are split, and sizes are rational numbers, not
  floating point numbers.\<close>

theorem edits_keep_layout:
  assumes "tidy t" "(edit rng)\<^sup>*\<^sup>* (n, t) (n', t')" "Nary a cs \<in> set (walk t')"
  shows "2 \<le> length cs \<and>
    (obj_get a ''type'' = Some (Str ''node'') \<longrightarrow>
      (\<exists>xs. sizes_in a = Some (map Fin xs) \<and> length xs = length cs \<and> (\<forall>x \<in> set xs. 0 < x \<and> x < 1) \<and> sum_list xs = 1)) \<and>
    (obj_get a ''type'' = Some (Str ''tabs'') \<longrightarrow> (\<exists>k < length cs. activeTab_in a = num_of k))"
proof -
  have "tidy t'" using edits_tidy[OF assms(2)] assms(1) by simp
  then have ok: "layout_ok a (length cs)" using tidy_walk[OF _ assms(3)] by simp
  have "\<exists>xs. sizes_in a = Some (map Fin xs) \<and> length xs = length cs \<and> (\<forall>x \<in> set xs. 0 < x \<and> x < 1) \<and> sum_list xs = 1"
    if "sizes_ok a (length cs)" "2 \<le> length cs"
  proof -
    obtain xs where xs: "sizes_in a = Some (map Fin xs)" "length xs = length cs" "\<forall>x \<in> set xs. 0 < x" "sum_list xs = 1"
      using \<open>sizes_ok a (length cs)\<close> by (auto simp: sizes_ok_def)
    then have "\<forall>x \<in> set xs. x < 1" using sum_list_one_le[OF xs(3)] that(2) by auto
    then show ?thesis using xs by blast
  qed
  then show ?thesis using ok by (auto simp: layout_ok_def active_ok_def)
qed

lemma sample_tidy: "tidy sample_tree"
proof -
  have "sizes_ok [(''id'', Str ''r''), (''type'', Str ''node''), (''direction'', Str ''col''),
       (''sizes'', Nums [Fin (1 / 4), Fin (3 / 4)])] 2"
    unfolding sizes_ok_def by (intro exI[of _ "[1 / 4, 3 / 4]"]) (simp add: sizes_in.simps)
  moreover have "active_ok [(''id'', Str ''t''), (''type'', Str ''tabs''), (''activeTab'', Num (Fin 1))] 2"
    unfolding active_ok_def by (intro exI[of _ 1]) (simp add: activeTab_in.simps)
  ultimately show ?thesis by (simp add: sample_tree_def layout_ok_def leaf_def numeral_2_eq_2)
qed

definition sample_tabs :: attrs where
  "sample_tabs = [(''id'', Str ''t''), (''type'', Str ''tabs''), (''activeTab'', Num (Fin 1))]"

lemma edits_keep_layout_witness:
  "2 \<le> length [leaf [(''id'', Str ''b''), (''type'', Str ''cm'')], leaf [(''id'', Str ''c''), (''type'', Str ''terminal'')]] \<and>
    (\<exists>k < 2. activeTab_in sample_tabs = num_of k)"
proof -
  have del: "delete_node sample_tree ''a'' = Nary sample_tabs
      [leaf [(''id'', Str ''b''), (''type'', Str ''cm'')], leaf [(''id'', Str ''c''), (''type'', Str ''terminal'')]]"
    by (simp add: delete_node_def sample_tree_def leaf_def remove_child_def delete_at_def sample_tabs_def)
  have "(edit letters)\<^sup>*\<^sup>* (0, sample_tree) (0, delete_node sample_tree ''a'')"
    by (blast intro: edit_delete)
  from edits_keep_layout[OF sample_tidy this, of sample_tabs
      "[leaf [(''id'', Str ''b''), (''type'', Str ''cm'')], leaf [(''id'', Str ''c''), (''type'', Str ''terminal'')]]"]
  show ?thesis unfolding del by (simp add: sample_tabs_def numeral_2_eq_2)
qed

text \<open>Splitting a leaf always returns, puts exactly one new leaf directly after it (before it with
  \<open>first\<close>), leaves all other leaves where they were, and gives the new leaf an id that no node
  of the tree has.\<close>

theorem split_adds_one_leaf:
  assumes "nary t" "get_node t i = Some lf" "is_leaf lf" "fresh_source rng" "obj_get extra ''id'' = None"
  shows "\<exists>n' t' xs ys l2 j. split_leaf rng t i d ty extra first n = Some (n', t') \<and>
    collect_leaves t = xs @ [lf] @ ys \<and>
    collect_leaves t' = xs @ (if first then [l2, lf] else [lf, l2]) @ ys \<and>
    id_of l2 = Some (Str j) \<and> \<not> has_id t j"
proof -
  obtain k where k: "generate_id rng (getAllIds t) n = Some (rng k, rng k # getAllIds t, k + 1)"
      "rng k \<notin> set (getAllIds t)" "rng k \<noteq> ''''"
    by (rule generate_id_fresh[OF assms(4)])
  let ?l2 = "second_leaf lf ty extra (rng k)"
  obtain m where m: "new_split rng (rng k # getAllIds t) d (if first then [?l2, lf] else [lf, ?l2]) (k + 1) =
      Some (m + 1, Nary (split_attrs (rng m) d) (if first then [?l2, lf] else [lf, ?l2]))"
    by (rule new_split_fresh[OF assms(4)])
  let ?u = "Nary (split_attrs (rng m) d) (if first then [?l2, lf] else [lf, ?l2])"
  have "split_the_leaf rng lf d ty extra first (getAllIds t) n = Some (m + 1, ?u)"
    using k m by (simp add: split_the_leaf_def Let_def)
  then have split: "split_leaf rng t i d ty extra first n = Some (m + 1, replaceNode t i ?u)"
    using split_proc_replace[OF assms(1,2), of "\<lambda>lf. split_the_leaf rng lf d ty extra first (getAllIds t)" n]
    by (simp add: split_leaf_def)
  have leaf1: "collect_leaves l = [l]" if "is_leaf l" for l using leaf_Node[OF that] by auto
  have "collect_leaves ?u = (if first then [?l2, lf] else [lf, ?l2])"
    using leaf1[OF assms(3)] leaf1[OF second_leaf_leaf[OF assms(3)]] by simp
  then obtain xs ys where "collect_leaves t = xs @ [lf] @ ys"
      "collect_leaves (replaceNode t i ?u) = xs @ (if first then [?l2, lf] else [lf, ?l2]) @ ys"
    using replaceNode_leaves[OF assms(1,2), of ?u] unfolding leaf1[OF assms(3)] by auto
  moreover have "id_of ?l2 = Some (Str (rng k))" using second_leaf_id[OF assms(3,5)] .
  moreover have "\<not> has_id t (rng k)" using k(2,3) by (simp add: getAllIds_mem)
  ultimately show ?thesis using split by blast
qed

lemma split_adds_one_leaf_witness:
  "\<exists>n' t' xs ys l2 j. split_leaf letters sample_tree ''b'' ''row'' None [] False 0 = Some (n', t') \<and>
    collect_leaves sample_tree = xs @ [leaf [(''id'', Str ''b''), (''type'', Str ''cm'')]] @ ys \<and>
    collect_leaves t' = xs @ (if False then [l2, leaf [(''id'', Str ''b''), (''type'', Str ''cm'')]]
      else [leaf [(''id'', Str ''b''), (''type'', Str ''cm'')], l2]) @ ys \<and>
    id_of l2 = Some (Str j) \<and> \<not> has_id sample_tree j"
  by (rule split_adds_one_leaf[OF sample_good(1) sample_nodes(2) _ fresh_letters]) simp_all

text \<open>\<open>reorder_tab\<close> permutes frames: the leaves and the ids of the tree are the same.\<close>

theorem reorder_permutes:
  "mset (collect_leaves (reorder_tab t i s b)) = mset (collect_leaves t) \<and>
   mset (all_ids (reorder_tab t i s b)) = mset (all_ids t)"
  using leaves.reorder_total[of t i s b] ids.reorder_total[of t i s b] by (simp add: total_leaf_own total_id_own)

end
