(* ===== verification/FrameNormal.thy ===== *)
theory FrameNormal
  imports FrameLayout
begin

text \<open>
  \<open>normalize\<close> of \<^verbatim>\<open>packages/frontend/frame-editors/frame-tree/tree-ops.ts\<close>: ids, migration of legacy
  trees to n-ary ones, collapsing of nodes with one child and flattening of tabs; what each pass
  keeps, and what holds of the result.
\<close>

section \<open>Migration\<close>

text \<open>The sizes of the children that are still there.\<close>

definition next_sizes :: "attrs \<Rightarrow> frame list \<Rightarrow> jsnum list" where
  "next_sizes a migrated =
     (case sizes_in a of
        None \<Rightarrow> []
      | Some xs \<Rightarrow> map snd (filter (\<lambda>(c, x). c \<noteq> Undef) (zip migrated xs)))"

definition normalized_sizes :: "jsnum list \<Rightarrow> nat \<Rightarrow> jsnum list" where
  "normalized_sizes nextSizes n =
     (if length nextSizes = n
      then (let total = num_sum nextSizes in
            if num_less (Fin 0) total then map (\<lambda>s. num_div s total) nextSizes else even_sizes n)
      else even_sizes n)"

definition clamp_active :: "attrs \<Rightarrow> nat \<Rightarrow> attrs" where
  "clamp_active a n =
     (let activeTab = activeTab_in a;
          clamped = num_max (Fin 0) (num_min activeTab (Fin (of_nat n - 1))) in
      if activeTab \<noteq> clamped then obj_set ''activeTab'' (Num clamped) a else a)"

definition migrate_attrs :: "attrs \<Rightarrow> jsnum list \<Rightarrow> nat \<Rightarrow> attrs" where
  "migrate_attrs a nextSizes n =
     (let a1 = (if obj_get a ''type'' = Some (Str ''node'') \<and> 2 \<le> n
                then obj_set ''sizes'' (Nums (normalized_sizes nextSizes n)) a else a) in
      if obj_get a ''type'' = Some (Str ''tabs'') \<and> 2 \<le> n then clamp_active a1 n else a1)"

definition pos_in :: "attrs \<Rightarrow> jsnum" where
  "pos_in a = (case obj_get a ''pos'' of Some (Num x) \<Rightarrow> x | _ \<Rightarrow> Fin (1 / 2))"

fun migrateToNary :: "frame \<Rightarrow> frame" where
  "migrateToNary Undef = Undef"
| "migrateToNary (Nary a cs) =
     (let migrated = map migrateToNary cs;
          nextChildren = filter (\<lambda>c. c \<noteq> Undef) migrated in
      if length nextChildren = 1 then hd nextChildren
      else Nary (migrate_attrs a (next_sizes a migrated) (length nextChildren)) nextChildren)"
| "migrateToNary (Node a f g) =
     (if f = Undef \<and> g = Undef then Node a f g
      else if g = Undef then migrateToNary f
      else if f = Undef then migrateToNary g
      else
        (let pos = pos_in a in
         Nary (obj_set ''sizes'' (Nums [pos, num_add (Fin 1) (num_neg pos)]) (obj_del ''pos'' a))
           [migrateToNary f, migrateToNary g]))"

section \<open>Collapsing and flattening\<close>

fun collapse_trivial :: "frame \<Rightarrow> frame" where
  "collapse_trivial Undef = Undef"
| "collapse_trivial (Nary a cs) =
     (let newChildren = map collapse_trivial cs in
      if length newChildren = 1 then hd newChildren else Nary a newChildren)"
| "collapse_trivial (Node a f g) = Node a (collapse_trivial f) (collapse_trivial g)"

text \<open>The state is \<open>newActiveTab\<close> and \<open>newChildren\<close>.\<close>

definition flatten_step :: "jsnum \<Rightarrow> jsnum \<times> frame list \<Rightarrow> nat \<times> frame \<Rightarrow> jsnum \<times> frame list" where
  "flatten_step activeTab s ic =
     (case (s, ic) of
        ((newActiveTab, newChildren), (i, child)) \<Rightarrow>
          (if is_leaf child
           then (if num_of i = activeTab then num_of (length newChildren) else newActiveTab, newChildren @ [child])
           else
             (let ls = collect_leaves child;
                  innerActive =
                    (if has_type ''tabs'' child
                     then num_min (activeTab_in (attrs_of child)) (Fin (of_nat (length ls) - 1)) else Fin 0) in
              (if num_of i = activeTab then num_add (num_of (length newChildren)) innerActive else newActiveTab,
               newChildren @ ls))))"

definition flatten_children :: "attrs \<Rightarrow> frame list \<Rightarrow> frame" where
  "flatten_children a recursed =
     (case foldl (flatten_step (activeTab_in a)) (Fin 0, []) (zip [0..<length recursed] recursed) of
        (newActiveTab, newChildren) \<Rightarrow> Nary (obj_set ''activeTab'' (Num newActiveTab) a) newChildren)"

fun flatten_tabs :: "frame \<Rightarrow> frame" where
  "flatten_tabs Undef = Undef"
| "flatten_tabs (Nary a cs) =
     (let recursed = map flatten_tabs cs in
      if obj_get a ''type'' \<noteq> Some (Str ''tabs'') then Nary a recursed
      else if \<forall>c \<in> set recursed. is_leaf c then Nary a recursed
      else flatten_children a recursed)"
| "flatten_tabs (Node a f g) = Node a (flatten_tabs f) (flatten_tabs g)"

definition normalize :: "(nat \<Rightarrow> string) \<Rightarrow> frame \<Rightarrow> nat \<Rightarrow> (nat \<times> frame) option" where
  "normalize rng t n =
     (case assign_ids rng t n of
        (n1, t1) \<Rightarrow>
          (case ensure_ids_are_unique rng t1 n1 of
             None \<Rightarrow> None
           | Some (n2, t2) \<Rightarrow>
               Some (n2, collapse_trivial (flatten_tabs (collapse_trivial (migrateToNary t2))))))"

section \<open>Passes\<close>

text \<open>A tree with no missing child and no empty container; a legacy node may have one branch.\<close>

fun proper :: "frame \<Rightarrow> bool" where
  "proper Undef = False"
| "proper (Nary a cs) = (cs \<noteq> [] \<and> (\<forall>c \<in> set cs. proper c))"
| "proper (Node a f g) = ((f = Undef \<or> proper f) \<and> (g = Undef \<or> proper g))"

text \<open>The trees that \<open>normalize\<close> promises.\<close>

fun normal :: "frame \<Rightarrow> bool" where
  "normal Undef = False"
| "normal (Nary a cs) = (2 \<le> length cs \<and> (\<forall>c \<in> set cs. normal c) \<and>
     (obj_get a ''type'' = Some (Str ''tabs'') \<longrightarrow> (\<forall>c \<in> set cs. is_leaf c)))"
| "normal (Node a f g) = (f = Undef \<and> g = Undef)"

text \<open>n-ary, and every container has at least two children.\<close>

fun branching :: "frame \<Rightarrow> bool" where
  "branching Undef = False"
| "branching (Nary a cs) = (2 \<le> length cs \<and> (\<forall>c \<in> set cs. branching c))"
| "branching (Node a f g) = (f = Undef \<and> g = Undef)"

text \<open>A pass keeps the leaves in order and turns trees of one shape into trees of another.\<close>

locale leaf_pass =
  fixes pre :: "frame \<Rightarrow> bool" and f :: "frame \<Rightarrow> frame" and post :: "frame \<Rightarrow> bool"
  assumes shape: "pre t \<Longrightarrow> post (f t)"
    and same_leaves: "pre t \<Longrightarrow> collect_leaves (f t) = collect_leaves t"
    and no_new_ids: "pre t \<Longrightarrow> set (all_ids (f t)) \<subseteq> set (all_ids t)"

locale pass_chain = first: leaf_pass pre f mid + second: leaf_pass mid g post
  for pre f mid g post

sublocale pass_chain \<subseteq> chain: leaf_pass pre "\<lambda>t. g (f t)" post
proof unfold_locales
  fix t assume "pre t"
  then show "set (all_ids (g (f t))) \<subseteq> set (all_ids t)"
    using first.no_new_ids second.no_new_ids first.shape by blast
qed (simp_all add: first.shape second.shape first.same_leaves second.same_leaves)

lemma concat_map_same: "(\<And>c. c \<in> set cs \<Longrightarrow> h c = k c) \<Longrightarrow> concat (map h cs) = concat (map k cs)"
  by (metis map_cong)

lemma proper_leaves_nonempty: "proper t \<Longrightarrow> collect_leaves t \<noteq> []"
  by (induction t) auto

lemma branching_proper: "branching t \<Longrightarrow> proper t"
  by (induction t) auto

lemma branching_not_Undef: "branching t \<Longrightarrow> t \<noteq> Undef"
  by auto

lemma migrate_pass: "proper t \<Longrightarrow> branching (migrateToNary t) \<and> collect_leaves (migrateToNary t) = collect_leaves t"
proof (induction t)
  case (Nary a cs)
  have kids: "branching (migrateToNary c)" "collect_leaves (migrateToNary c) = collect_leaves c" if "c \<in> set cs" for c
    using Nary that by auto
  then have all: "filter (\<lambda>c. c \<noteq> Undef) (map migrateToNary cs) = map migrateToNary cs"
    using branching_not_Undef by (intro filter_True) auto
  show ?case
  proof (cases "length cs = 1")
    case True
    then obtain c where "cs = [c]" by (auto simp: length_Suc_conv)
    then show ?thesis using kids all by (simp add: Let_def)
  next
    case False
    then have "2 \<le> length cs" using Nary.prems by (cases cs) (auto simp: Suc_le_eq)
    moreover have "concat (map (collect_leaves \<circ> migrateToNary) cs) = concat (map collect_leaves cs)"
      using kids by (intro concat_map_same) simp
    ultimately show ?thesis using kids all False by (simp add: Let_def)
  qed
next
  case (Node a f g)
  then show ?case by (auto simp: Let_def)
qed simp

lemma collapse_pass:
  "proper t \<Longrightarrow> nary t \<Longrightarrow> branching (collapse_trivial t) \<and> collect_leaves (collapse_trivial t) = collect_leaves t"
proof (induction t)
  case (Nary a cs)
  have kids: "branching (collapse_trivial c)" "collect_leaves (collapse_trivial c) = collect_leaves c" if "c \<in> set cs" for c
    using Nary that by auto
  show ?case
  proof (cases "length cs = 1")
    case True
    then obtain c where "cs = [c]" by (auto simp: length_Suc_conv)
    then show ?thesis using kids by (simp add: Let_def)
  next
    case False
    then have "2 \<le> length cs" using Nary.prems by (cases cs) (auto simp: Suc_le_eq)
    moreover have "concat (map (collect_leaves \<circ> collapse_trivial) cs) = concat (map collect_leaves cs)"
      using kids by (intro concat_map_same) simp
    ultimately show ?thesis using kids False by (simp add: Let_def)
  qed
qed auto

lemma collapse_normal: "normal t \<Longrightarrow> collapse_trivial t = t"
proof (induction t)
  case (Nary a cs)
  then have "map collapse_trivial cs = cs" by (intro map_idI) auto
  then show ?case using Nary.prems by (simp add: Let_def)
qed auto

lemma collect_leaves_all: "l \<in> set (collect_leaves t) \<Longrightarrow> is_leaf l"
  by (simp add: collect_leaves_walk)

lemma leaf_collects: "is_leaf l \<Longrightarrow> collect_leaves l = [l]"
  by (cases l) auto

lemma flatten_step_children: "snd (flatten_step k s ic) = snd s @ collect_leaves (snd ic)"
  by (cases s; cases ic) (simp add: flatten_step_def Let_def leaf_collects)

lemma flatten_fold_children:
  "snd (foldl (flatten_step k) s ics) = snd s @ concat (map (\<lambda>ic. collect_leaves (snd ic)) ics)"
  by (induction ics arbitrary: s) (simp_all add: flatten_step_children)

lemma flatten_children_eq:
  obtains k where "flatten_children a cs = Nary (obj_set ''activeTab'' (Num k) a) (concat (map collect_leaves cs))"
proof -
  have snds: "map (\<lambda>ic. collect_leaves (snd ic)) zs = map collect_leaves (map snd zs)" for zs :: "(nat \<times> frame) list"
    by simp
  have "map (\<lambda>ic. collect_leaves (snd ic)) (zip [0..<length cs] cs) = map collect_leaves cs"
    unfolding snds by (subst map_snd_zip) simp_all
  then have "snd (foldl (flatten_step (activeTab_in a)) (Fin 0, []) (zip [0..<length cs] cs)) = concat (map collect_leaves cs)"
    by (simp add: flatten_fold_children)
  then show ?thesis using that unfolding flatten_children_def by (metis (no_types, lifting) case_prod_conv prod.collapse)
qed

lemma normal_leaf: "is_leaf l \<Longrightarrow> normal l"
  by (cases l) auto

lemma normal_branching: "normal t \<Longrightarrow> branching t"
  by (induction t) auto

lemma two_le_concat: "2 \<le> length cs \<Longrightarrow> (\<And>c. c \<in> set cs \<Longrightarrow> h c \<noteq> []) \<Longrightarrow> 2 \<le> length (concat (map h cs))"
proof -
  assume "2 \<le> length cs" and ne: "\<And>c. c \<in> set cs \<Longrightarrow> h c \<noteq> []"
  then obtain x y ds where cs: "cs = x # y # ds" by (cases cs; cases "tl cs") auto
  have "1 \<le> length (h x)" "1 \<le> length (h y)" using ne cs by (simp_all add: Suc_le_eq)
  then show ?thesis by (simp add: cs)
qed

lemma flatten_pass: "branching t \<Longrightarrow> normal (flatten_tabs t) \<and> collect_leaves (flatten_tabs t) = collect_leaves t"
proof (induction t)
  case (Nary a cs)
  have kids: "normal (flatten_tabs c)" "collect_leaves (flatten_tabs c) = collect_leaves c" if "c \<in> set cs" for c
    using Nary that by auto
  have same: "concat (map (collect_leaves \<circ> flatten_tabs) cs) = concat (map collect_leaves cs)"
    using kids by (intro concat_map_same) simp
  consider "obj_get a ''type'' \<noteq> Some (Str ''tabs'')" | "\<forall>c \<in> set (map flatten_tabs cs). is_leaf c"
    | "obj_get a ''type'' = Some (Str ''tabs'')" "\<not> (\<forall>c \<in> set (map flatten_tabs cs). is_leaf c)" by blast
  then show ?case
  proof cases
    case 3
    obtain k where k: "flatten_children a (map flatten_tabs cs) =
        Nary (obj_set ''activeTab'' (Num k) a) (concat (map collect_leaves (map flatten_tabs cs)))"
      by (rule flatten_children_eq)
    have leaves_all: "\<forall>l \<in> set (concat (map collect_leaves cs)). is_leaf l" using collect_leaves_all by auto
    have "2 \<le> length (concat (map collect_leaves cs))"
      using Nary.prems branching_proper proper_leaves_nonempty by (intro two_le_concat) auto
    moreover have "concat (map collect_leaves (concat (map collect_leaves cs))) = concat (map collect_leaves cs)"
    proof -
      have "concat (map collect_leaves ls) = ls" if "\<forall>l \<in> set ls. is_leaf l" for ls
        using that by (induction ls) (auto simp: leaf_collects)
      then show ?thesis using leaves_all by blast
    qed
    moreover have "flatten_tabs (Nary a cs) = Nary (obj_set ''activeTab'' (Num k) a) (concat (map collect_leaves cs))"
      using 3 k by (auto simp: Let_def same)
    ultimately show ?thesis using leaves_all normal_leaf by (simp add: update_conv')
  qed (use kids same Nary.prems in \<open>auto simp: Let_def\<close>)
qed auto

lemma branching_nary: "branching t \<Longrightarrow> nary t"
  by (induction t) auto

text \<open>The passes and their composition.\<close>

lemma migrate_attrs_id: "obj_get (migrate_attrs a xs n) ''id'' = obj_get a ''id''"
  by (auto simp: migrate_attrs_def clamp_active_def Let_def update_conv')

lemma migrate_ids: "set (all_ids (migrateToNary t)) \<subseteq> set (all_ids t)"
proof (induction t)
  case (Nary a cs)
  let ?next = "filter (\<lambda>c. c \<noteq> Undef) (map migrateToNary cs)"
  have next_ids: "set (all_ids c) \<subseteq> set (all_ids (Nary a cs))" if "c \<in> set ?next" for c
    using that Nary by (force simp: frame_simps)
  show ?case
  proof (cases "length ?next = 1")
    case True
    then have "hd ?next \<in> set ?next" by (cases ?next) auto
    then show ?thesis using True next_ids by (simp add: Let_def)
  next
    case False
    have "set (all_ids (Nary b ds)) = insert (obj_get b ''id'') (\<Union>c \<in> set ds. set (all_ids c))" for b ds
      by (simp add: frame_simps)
    then have "set (all_ids (Nary (migrate_attrs a ys m) ?next)) \<subseteq> set (all_ids (Nary a cs))" for ys m
      using next_ids by (auto simp: migrate_attrs_id frame_simps simp del: set_filter)
    then show ?thesis using False by (simp add: Let_def)
  qed
next
  case (Node a f g)
  then show ?case by (auto simp: frame_simps Let_def update_conv' delete_conv')
qed simp

lemma collapse_ids: "set (all_ids (collapse_trivial t)) \<subseteq> set (all_ids t)"
proof (induction t)
  case (Nary a cs)
  show ?case
  proof (cases "length cs = 1")
    case True
    then obtain c where "cs = [c]" by (auto simp: length_Suc_conv)
    then show ?thesis using Nary by (auto simp: frame_simps)
  next
    case False
    then show ?thesis using Nary by (force simp: frame_simps Let_def)
  qed
qed (auto simp: frame_simps)

lemma leaf_ids: "l \<in> set (collect_leaves t) \<Longrightarrow> set (all_ids l) \<subseteq> set (all_ids t)"
proof -
  assume l: "l \<in> set (collect_leaves t)"
  then obtain a where "l = Node a Undef Undef" using leaf_Node[OF collect_leaves_all] by blast
  moreover have "id_of l \<in> set (all_ids t)" using l by (simp add: collect_leaves_walk set_all_ids)
  ultimately show ?thesis by (simp add: frame_simps)
qed

lemma flatten_ids: "set (all_ids (flatten_tabs t)) \<subseteq> set (all_ids t)"
proof (induction t)
  case (Nary a cs)
  obtain k where k: "flatten_children a (map flatten_tabs cs) =
      Nary (obj_set ''activeTab'' (Num k) a) (concat (map collect_leaves (map flatten_tabs cs)))"
    by (rule flatten_children_eq)
  have ids: "set (all_ids (Nary b ds)) = insert (obj_get b ''id'') (\<Union>c \<in> set ds. set (all_ids c))" for b ds
    by (simp add: frame_simps)
  have "set (all_ids l) \<subseteq> (\<Union>c \<in> set cs. set (all_ids c))" if "l \<in> set (collect_leaves (flatten_tabs c))" "c \<in> set cs" for l c
    using leaf_ids[OF that(1)] Nary[OF that(2)] that(2) by blast
  then have "set (all_ids (flatten_children a (map flatten_tabs cs))) \<subseteq> set (all_ids (Nary a cs))"
    unfolding k ids by (auto simp: update_conv')
  moreover have "set (all_ids (Nary a (map flatten_tabs cs))) \<subseteq> set (all_ids (Nary a cs))"
    using Nary unfolding ids by auto
  ultimately show ?case by (simp add: Let_def)
qed (auto simp: frame_simps)

interpretation migrate: leaf_pass proper migrateToNary branching
  by unfold_locales (use migrate_pass migrate_ids in blast)+

interpretation collapse: leaf_pass branching collapse_trivial branching
  by unfold_locales (use collapse_pass branching_proper branching_nary collapse_ids in blast)+

interpretation flatten: leaf_pass branching flatten_tabs normal
  by unfold_locales (use flatten_pass flatten_ids in blast)+

interpretation collapse_again: leaf_pass normal collapse_trivial normal
  by unfold_locales (simp_all add: collapse_normal)

interpretation migrate_collapse: pass_chain proper migrateToNary branching collapse_trivial branching
  by unfold_locales

interpretation flatten_collapse: pass_chain branching flatten_tabs normal collapse_trivial normal
  by unfold_locales

interpretation pipeline: pass_chain proper "\<lambda>t. collapse_trivial (migrateToNary t)" branching
    "\<lambda>t. collapse_trivial (flatten_tabs t)" normal
  by unfold_locales

section \<open>Ids\<close>

lemma dedupe_nothing: "dedupe_pass rng [] t s = (s, t)"
proof (induction t arbitrary: s)
  case (Nary a cs)
  then show ?case by (simp add: smap_id)
qed simp_all

lemma assign_ids_shape: "(snd (assign_ids rng t n) = Undef \<longleftrightarrow> t = Undef)"
  by (cases t) (auto simp: case_prod_beta Let_def)

lemma smap_all:
  assumes "\<And>c s. c \<in> set cs \<Longrightarrow> P c (snd (h c s))"
  shows "list_all2 P cs (snd (smap h cs s))"
  using assms by (induction cs arbitrary: s) (auto simp: case_prod_beta Let_def)

text \<open>The same tree up to the ids of its nodes.\<close>

fun same_but_ids :: "frame \<Rightarrow> frame \<Rightarrow> bool" where
  "same_but_ids Undef u = (u = Undef)"
| "same_but_ids (Nary a cs) u =
     (case u of Nary b ds \<Rightarrow> obj_del ''id'' a = obj_del ''id'' b \<and> list_all2 same_but_ids cs ds | _ \<Rightarrow> False)"
| "same_but_ids (Node a f g) u =
     (case u of Node b h k \<Rightarrow> obj_del ''id'' a = obj_del ''id'' b \<and> same_but_ids f h \<and> same_but_ids g k | _ \<Rightarrow> False)"

lemma del_set: "obj_del k (obj_set k v a) = obj_del k a"
  by (induction a) auto

lemma with_id_del: "obj_del ''id'' (snd (with_id rng a n)) = obj_del ''id'' a"
  by (auto simp: with_id_def del_set split: option.splits jsval.splits)

lemma assign_ids_same: "same_but_ids t (snd (assign_ids rng t n))"
proof (induction t arbitrary: n)
  case (Nary a cs)
  then show ?case by (simp add: case_prod_beta Let_def with_id_del smap_all)
next
  case (Node a f g)
  then show ?case by (simp add: case_prod_beta Let_def with_id_del)
qed simp

lemma same_but_ids_Undef: "same_but_ids t u \<Longrightarrow> t = Undef \<longleftrightarrow> u = Undef"
  by (cases t; cases u) auto

lemma same_but_ids_proper: "same_but_ids t u \<Longrightarrow> proper t \<Longrightarrow> proper u"
proof (induction t arbitrary: u)
  case (Nary a cs)
  then obtain b ds where u: "u = Nary b ds" "list_all2 same_but_ids cs ds" by (auto split: frame.splits)
  have "\<forall>d \<in> set ds. proper d"
    using u(2) Nary.IH Nary.prems(2) by (fastforce simp: list_all2_conv_all_nth in_set_conv_nth)
  then show ?case using u Nary.prems(2) by auto
next
  case (Node a f g)
  then show ?case using same_but_ids_Undef by (fastforce split: frame.splits)
qed simp

definition attrs_but_id :: "frame \<Rightarrow> attrs" where
  "attrs_but_id t = obj_del ''id'' (attrs_of t)"

lemma same_but_ids_leaves:
  "same_but_ids t u \<Longrightarrow> map attrs_but_id (collect_leaves u) = map attrs_but_id (collect_leaves t)"
proof (induction t arbitrary: u)
  case (Nary a cs)
  then obtain b ds where u: "u = Nary b ds" "list_all2 same_but_ids cs ds" by (auto split: frame.splits)
  from u(2) Nary.IH have "map (\<lambda>c. map attrs_but_id (collect_leaves c)) ds = map (\<lambda>c. map attrs_but_id (collect_leaves c)) cs"
    by (auto simp: list_eq_iff_nth_eq list_all2_conv_all_nth)
  then show ?case by (simp add: u(1) map_concat comp_def)
next
  case (Node a f g)
  then show ?case
    using same_but_ids_Undef[of f] same_but_ids_Undef[of g] by (auto simp: attrs_but_id_def split: frame.splits)
qed simp

lemma assign_ids_strings: "x \<in> set (all_ids (snd (assign_ids rng t n))) \<Longrightarrow> \<exists>i. x = Some (Str i)"
proof (induction t arbitrary: n)
  case (Nary a cs)
  have id: "\<exists>i. obj_get (snd (with_id rng a m)) ''id'' = Some (Str i)" for m
    by (auto simp: with_id_def update_conv' split: option.splits jsval.splits)
  have "\<exists>i. x = Some (Str i)" if "c \<in> set (snd (smap (assign_ids rng) ds m))" "x \<in> set (all_ids c)" "set ds \<subseteq> set cs" for c ds m
    using that Nary.IH by (induction ds arbitrary: m) (auto simp: case_prod_beta Let_def)
  then show ?case using Nary.prems id by (auto simp: case_prod_beta Let_def frame_simps)
next
  case (Node a f g)
  have id: "\<exists>i. obj_get (snd (with_id rng a m)) ''id'' = Some (Str i)" for m
    by (auto simp: with_id_def update_conv' split: option.splits jsval.splits)
  show ?case using Node id by (auto simp: case_prod_beta Let_def frame_simps)
qed (simp add: frame_simps)

lemma ensure_ids_nothing: "ensure_ids_are_unique rng t n = Some (n, t)"
  by (subst ensure_ids_are_unique.simps) (simp add: dedupe_nothing)

section \<open>Properties\<close>


definition legacy_tree :: frame where
  "legacy_tree = Node [(''direction'', Str ''row''), (''pos'', Num (Fin (1 / 3)))]
     (leaf [(''id'', Str ''a'')])
     (Nary [(''type'', Str ''tabs''), (''activeTab'', Num (Fin 1))]
        [leaf [(''id'', Str ''b'')], Node [(''direction'', Str ''col'')] (leaf [(''id'', Str ''c'')]) Undef])"


text \<open>\<open>ensure_ids_are_unique\<close> never changes a tree: it compares every id with a table that it never
  fills. Trees with duplicate ids stay as they are.\<close>

theorem ensure_ids_does_nothing:
  "ensure_ids_are_unique rng t n = Some (n, t)"
  by (subst ensure_ids_are_unique.simps) (simp add: dedupe_nothing)

lemma update_same: "obj_get a k = Some v \<Longrightarrow> obj_set k v a = a"
  by (induction a) auto

lemma assign_ids_fixed: "\<forall>x \<in> set (all_ids t). \<exists>i. x = Some (Str i) \<Longrightarrow> assign_ids rng t n = (n, t)"
proof (induction t arbitrary: n)
  case (Nary a cs)
  then have "smap (assign_ids rng) cs n = (n, cs)" by (intro smap_id) (auto simp: frame_simps)
  then show ?case using Nary.prems by (auto simp: frame_simps with_id_def)
qed (auto simp: frame_simps with_id_def)

lemma normalized_sizes_fixed: "length xs = n \<Longrightarrow> sum_list xs = 1 \<Longrightarrow> normalized_sizes (map Fin xs) n = map Fin xs"
  by (simp add: normalized_sizes_def num_sum_Fin)

lemma clamp_active_fixed:
  assumes "active_ok a n"
  shows "clamp_active a n = a"
proof -
  obtain k where k: "k < n" "activeTab_in a = num_of k" using assms by (auto simp: active_ok_def)
  have "num_min (num_of k) (Fin (of_nat n - 1)) = num_of k"
    using k(1) by (auto simp: num_min_def not_less)
  then show ?thesis using k(2) by (simp add: clamp_active_def num_max_def Let_def)
qed

lemma next_sizes_all:
  assumes "sizes_in a = Some xs" "length xs = length cs" "\<forall>c \<in> set cs. c \<noteq> Undef"
  shows "next_sizes a cs = xs"
proof -
  have "filter (\<lambda>(c, x). c \<noteq> Undef) (zip cs xs) = zip cs xs"
    using assms(3) by (intro filter_True) (auto dest: set_zip_leftD)
  then show ?thesis using assms(1,2) by (simp add: next_sizes_def)
qed

lemma migrate_attrs_fixed:
  assumes "layout_ok a (length cs)" "\<forall>c \<in> set cs. c \<noteq> Undef"
  shows "migrate_attrs a (next_sizes a cs) (length cs) = a"
proof -
  have "obj_set ''sizes'' (Nums (normalized_sizes (next_sizes a cs) (length cs))) a = a"
    if node: "obj_get a ''type'' = Some (Str ''node'')"
  proof -
    obtain xs where xs: "sizes_in a = Some (map Fin xs)" "length xs = length cs" "sum_list xs = 1"
      using assms(1) node by (auto simp: layout_ok_def sizes_ok_def)
    then have "obj_get a ''sizes'' = Some (Nums (map Fin xs))"
      by (auto simp: sizes_in.simps split: option.splits jsval.splits)
    then show ?thesis
      using next_sizes_all[OF xs(1) _ assms(2)] normalized_sizes_fixed[OF xs(2,3)] xs(2) by (simp add: update_same)
  qed
  then show ?thesis using assms(1) clamp_active_fixed[of a "length cs"]
    by (auto simp: migrate_attrs_def Let_def layout_ok_def)
qed

lemma migrate_fixed: "tidy t \<Longrightarrow> migrateToNary t = t"
proof (induction t)
  case (Nary a cs)
  then have map: "map migrateToNary cs = cs" by (intro map_idI) auto
  have ne: "\<forall>c \<in> set cs. c \<noteq> Undef" using Nary.prems by auto
  then have filter: "filter (\<lambda>c. c \<noteq> Undef) cs = cs" by (intro filter_True) auto
  have "migrate_attrs a (next_sizes a cs) (length cs) = a" "2 \<le> length cs"
    using migrate_attrs_fixed[OF _ ne] Nary.prems by (auto simp: layout_ok_def)
  then show ?case using map filter by (simp add: Let_def)
qed auto

lemma flatten_fixed: "normal t \<Longrightarrow> flatten_tabs t = t"
proof (induction t)
  case (Nary a cs)
  then have "map flatten_tabs cs = cs" by (intro map_idI) auto
  then show ?case using Nary.prems by (auto simp: Let_def)
qed auto

text \<open>\<open>normalize\<close> returns a tree that has a layout, is normal and has ids as it is, and draws no id.\<close>

theorem normalize_fixed_point:
  assumes "normal t" "tidy t" "\<forall>x \<in> set (all_ids t). \<exists>i. x = Some (Str i)"
  shows "normalize rng t n = Some (n, t)"
  using assign_ids_fixed[OF assms(3), of rng n] migrate_fixed[OF assms(2)] collapse_normal[OF assms(1)]
    flatten_fixed[OF assms(1)]
  by (simp add: normalize_def ensure_ids_nothing)

lemma normalize_fixed_point_witness: "normalize letters sample_tree 0 = Some (0, sample_tree)"
proof (rule normalize_fixed_point[OF _ sample_tidy])
  show "normal sample_tree" by (simp add: sample_tree_def leaf_def)
  show "\<forall>x \<in> set (all_ids sample_tree). \<exists>i. x = Some (Str i)" by (simp add: sample_tree_def all_ids_def leaf_def)
qed

end
