(* ===== verification/PatchList.thy ===== *)
theory PatchList
  imports JsSort "HOL-Library.Signed_Division"
begin

text \<open>
  The list of patches of a document that is edited collaboratively,
  \<^verbatim>\<open>packages/sync/editor/generic/sorted-patch-list.ts\<close>. A patch is a node of a graph; its logical
  time is its name, its parents are the heads that were known when it was made. A table
  \<open>{[time: number]: Patch}\<close> is an association list in order of insertion. The objects of
  \<open>this.patches\<close> are those of \<open>this.live\<close> (the code changes them through either), so the list
  holds their times. The document with its operations (\<open>from_str\<close>, \<open>apply_patch\<close>) and the LRU
  cache (\<open>get\<close>, which may reorder the entries, and \<open>set\<close>) are parameters.
\<close>

section \<open>Patches and tables\<close>

record 'p patch =
  p_time :: nat
  p_wall :: "int option"
  p_patch :: "'p option"
  p_user :: int
  p_size :: int
  p_is_snapshot :: bool
  p_snapshot :: "string option"
  p_seq_info :: "(nat \<times> nat option) option"
  p_parents :: "nat list option"
  p_version :: "int option"

type_synonym 'p table = "(nat, 'p patch) obj"

definition parents_of :: "'p patch \<Rightarrow> nat list" where
  "parents_of p = (case p_parents p of None \<Rightarrow> [] | Some ps \<Rightarrow> ps)"

section \<open>The graph of patches\<close>

definition isSnapshot :: "'p patch \<Rightarrow> bool" where
  "isSnapshot p \<longleftrightarrow> p_patch p \<noteq> None \<and> (p_is_snapshot p \<or> parents_of p = [])"

text \<open>The loop stops as soon as at most one head is left.\<close>

fun heads_loop :: "nat list \<Rightarrow> nat list \<Rightarrow> nat list" where
  "heads_loop [] X = X"
| "heads_loop (s # ss) X =
     (let X' = removeAll s X in if length X' \<le> 1 then X' else heads_loop ss X')"

definition getHeads :: "'p table \<Rightarrow> nat list" where
  "getHeads graph =
     (if graph = [] then []
      else js_sort (heads_loop (concat (map parents_of (js_values graph))) (js_keys graph)))"

definition getTails :: "'p table \<Rightarrow> nat list" where
  "getTails graph = map p_time (filter (\<lambda>p. \<forall>t \<in> set (parents_of p). obj_get graph t = None) (js_values graph))"

datatype patch_error = UnknownTime nat | NoPatch nat | Incomplete nat

definition all_parents :: "'p table \<Rightarrow> nat list" where
  "all_parents graph = concat (map (\<lambda>(_, p). parents_of p) graph)"

lemma parents_in_graph: "obj_get graph t = Some p \<Longrightarrow> set (parents_of p) \<subseteq> set (all_parents graph)"
  by (auto simp: all_parents_def dest!: map_of_SomeD)

text \<open>The stack is kept with its top first.\<close>

function times_loop :: "'p table \<Rightarrow> bool \<Rightarrow> nat list \<Rightarrow> nat list \<Rightarrow> patch_error + nat list" where
  "times_loop graph verify [] visited = Inr visited"
| "times_loop graph verify (current # stack) visited =
     (if current \<in> set visited then times_loop graph verify stack visited
      else
        (case obj_get graph current of
           None \<Rightarrow>
             (if verify then Inl (if visited = [] then NoPatch current else Incomplete current)
              else times_loop graph verify stack (visited @ [current]))
         | Some p \<Rightarrow>
             (let visited' = visited @ [current] in
              if p_is_snapshot p then times_loop graph verify stack visited'
              else times_loop graph verify
                     (rev (filter (\<lambda>s. s \<notin> set visited') (parents_of p)) @ stack) visited')))"
  by pat_completeness auto

termination
proof (relation "measures [\<lambda>(graph, verify, stack, visited).
      card (set (all_parents graph) \<union> set stack - set visited), \<lambda>(graph, verify, stack, visited). length stack]",
    goal_cases)
  case (2 graph verify current stack visited)
  then have "set (all_parents graph) \<union> set (current # stack) - set visited = set (all_parents graph) \<union> set stack - set visited"
    by auto
  then show ?case by simp
next
  case (3 graph verify current stack visited)
  then have "set (all_parents graph) \<union> set stack - set (visited @ [current])
      \<subset> set (all_parents graph) \<union> set (current # stack) - set visited" by auto
  then have "card (set (all_parents graph) \<union> set stack - set (visited @ [current]))
      < card (set (all_parents graph) \<union> set (current # stack) - set visited)" by (intro psubset_card_mono) auto
  then show ?case by simp
next
  case (4 graph verify current stack visited p visited')
  then have "set (all_parents graph) \<union> set stack - set visited'
      \<subset> set (all_parents graph) \<union> set (current # stack) - set visited" by auto
  then have "card (set (all_parents graph) \<union> set stack - set visited')
      < card (set (all_parents graph) \<union> set (current # stack) - set visited)" by (intro psubset_card_mono) auto
  then show ?case by simp
next
  case (5 graph verify current stack visited p visited')
  let ?stack = "rev (filter (\<lambda>s. s \<notin> set visited') (parents_of p)) @ stack"
  have "set (parents_of p) \<subseteq> set (all_parents graph)" using 5 parents_in_graph by blast
  then have "set (all_parents graph) \<union> set ?stack - set visited'
      \<subset> set (all_parents graph) \<union> set (current # stack) - set visited" using 5 by auto
  then have "card (set (all_parents graph) \<union> set ?stack - set visited')
      < card (set (all_parents graph) \<union> set (current # stack) - set visited)" by (intro psubset_card_mono) auto
  then show ?case by simp
qed simp

definition getTimesWithHeads :: "'p table \<Rightarrow> nat list \<Rightarrow> bool \<Rightarrow> patch_error + nat list" where
  "getTimesWithHeads graph heads verify = times_loop graph verify (rev heads) []"

definition getMissingNodes :: "'p table \<Rightarrow> nat list" where
  "getMissingNodes graph =
     foldl (\<lambda>missing t. if obj_get graph t = None \<and> t \<notin> set missing then missing @ [t] else missing) []
       (concat (map parents_of (js_values graph)))"

section \<open>Adding patches\<close>

record ('p, 'c) plist =
  heldSnapshots :: "'p table"
  staging :: "'p table"
  live :: "'p table"
  maxTime :: nat
  patches :: "nat list"
  versions_cache :: "nat list option"
  cache :: 'c
  oldestSnapshot :: "'p patch option"
  neverSnapshotTimes :: "nat list"

definition new_plist :: "'c \<Rightarrow> ('p, 'c) plist" where
  "new_plist c = \<lparr>heldSnapshots = [], staging = [], live = [], maxTime = 0, patches = [], versions_cache = None,
     cache = c, oldestSnapshot = None, neverSnapshotTimes = []\<rparr>"

definition with_snapshot :: "'p patch \<Rightarrow> 'p patch \<Rightarrow> 'p patch" where
  "with_snapshot x p = p\<lparr>p_is_snapshot := True, p_snapshot := p_snapshot x, p_seq_info := p_seq_info x\<rparr>"

definition add_snapshot :: "'p patch \<Rightarrow> ('p, 'c) plist \<Rightarrow> ('p, 'c) plist" where
  "add_snapshot x s =
     (let t = p_time x;
          s1 = (case obj_get (live s) t of
                  Some p \<Rightarrow> s\<lparr>live := obj_set t (with_snapshot x p) (live s)\<rparr>
                | None \<Rightarrow>
                    (case obj_get (staging s) t of
                       Some p \<Rightarrow> s\<lparr>staging := obj_set t (with_snapshot x p) (staging s)\<rparr>
                     | None \<Rightarrow> s\<lparr>heldSnapshots := obj_set t x (heldSnapshots s)\<rparr>)) in
      if (case oldestSnapshot s of None \<Rightarrow> True | Some q \<Rightarrow> p_time q > t)
      then s1\<lparr>oldestSnapshot := Some x\<rparr> else s1)"

definition stage_patch :: "'p patch \<Rightarrow> ('p, 'c) plist \<Rightarrow> ('p, 'c) plist" where
  "stage_patch x s =
     (let t = p_time x in
      case obj_get (heldSnapshots s) t of
        Some h \<Rightarrow> s\<lparr>heldSnapshots := obj_del t (heldSnapshots s), staging := obj_set t (with_snapshot h x) (staging s)\<rparr>
      | None \<Rightarrow> s\<lparr>staging := obj_set t x (staging s)\<rparr>)"

definition add_one :: "('p, 'c) plist \<Rightarrow> 'p patch \<Rightarrow> ('p, 'c) plist" where
  "add_one s x =
     (let t = p_time x; s0 = s\<lparr>maxTime := max (maxTime s) t\<rparr> in
      if \<not> p_is_snapshot x \<and> (obj_get (staging s) t \<noteq> None \<or> obj_get (live s) t \<noteq> None) then s0
      else if p_is_snapshot x then add_snapshot x s0
      else stage_patch x s0)"

text \<open>
  Whether every time has its parents in the graph. A time that is not in the graph comes after a
  time that has it as a parent, so the check has failed before it is reached.
\<close>

fun is_complete :: "'p table \<Rightarrow> nat list \<Rightarrow> bool" where
  "is_complete graph [] = True"
| "is_complete graph (t # ts) =
     (case obj_get graph t of
        None \<Rightarrow> False
      | Some p \<Rightarrow>
          (if isSnapshot p then is_complete graph ts
           else (\<forall>q \<in> set (parents_of p). obj_get graph q \<noteq> None) \<and> is_complete graph ts))"

text \<open>The state is live, staging and the new entries of live, \<open>v\<close>.\<close>

type_synonym 'p moving = "'p table \<times> 'p table \<times> 'p table"

definition move_time :: "'p moving \<Rightarrow> nat \<Rightarrow> 'p moving" where
  "move_time m t =
     (case m of (L, S, v) \<Rightarrow>
        (case (obj_get L t, obj_get S t) of
           (None, Some p) \<Rightarrow> (obj_set t p L, obj_del t S, obj_set t p v)
         | _ \<Rightarrow> m))"

definition move_head :: "'p table \<Rightarrow> 'p moving \<Rightarrow> nat \<Rightarrow> 'p moving" where
  "move_head graph m head =
     (case getTimesWithHeads graph [head] False of
        Inl _ \<Rightarrow> m
      | Inr ts \<Rightarrow> if is_complete graph ts then foldl move_time m ts else m)"

definition move_round :: "'p table \<Rightarrow> 'p table \<Rightarrow> 'p moving" where
  "move_round L S =
     foldl (move_head (merge_obj L S)) (L, S, []) (getHeads S)"

text \<open>\<open>patch_cmp\<close>, where an undefined version compares as equal, and the stable sort of an array with it.\<close>

definition cmp :: "int \<Rightarrow> int \<Rightarrow> int" where
  "cmp a b = (if a < b then - 1 else if a > b then 1 else 0)"

definition cmp_version :: "int option \<Rightarrow> int option \<Rightarrow> int" where
  "cmp_version v w = (case (v, w) of (Some a, Some b) \<Rightarrow> cmp a b | _ \<Rightarrow> 0)"

definition patch_cmp :: "'p patch \<Rightarrow> 'p patch \<Rightarrow> int" where
  "patch_cmp a b =
     (let c = cmp (int (p_time a)) (int (p_time b)) in
      if c \<noteq> 0 then c
      else (let d = cmp_version (p_version a) (p_version b) in
            if d \<noteq> 0 then d else cmp (p_user a) (p_user b)))"

fun insert_by :: "('a \<Rightarrow> 'a \<Rightarrow> int) \<Rightarrow> 'a \<Rightarrow> 'a list \<Rightarrow> 'a list" where
  "insert_by c x [] = [x]"
| "insert_by c x (y # ys) = (if c x y \<le> 0 then x # y # ys else y # insert_by c x ys)"

definition sort_by :: "('a \<Rightarrow> 'a \<Rightarrow> int) \<Rightarrow> 'a list \<Rightarrow> 'a list" where
  "sort_by c xs = foldr (insert_by c) xs []"

definition sort_patches :: "'p table \<Rightarrow> nat list \<Rightarrow> nat list" where
  "sort_patches L ts = sort_by (\<lambda>a b. patch_cmp (the (obj_get L a)) (the (obj_get L b))) ts"

lemma delete_shorter: "obj_get xs k \<noteq> None \<Longrightarrow> length (obj_del k xs) < length xs"
proof (induction xs)
  case (Cons x xs)
  have "length (obj_del k xs) \<le> length xs" by (simp add: length_delete_le)
  then show ?case using Cons by (cases x) auto
qed simp

definition shrunk :: "nat \<Rightarrow> 'p moving \<Rightarrow> bool" where
  "shrunk n m = (case m of (L, S, v) \<Rightarrow> length S \<le> n \<and> (v = [] \<or> length S < n))"

lemma move_time_shrunk: "shrunk n m \<Longrightarrow> shrunk n (move_time m t)"
  using delete_shorter[of "fst (snd m)" t]
  by (auto simp: shrunk_def move_time_def split: prod.splits option.splits)

lemma move_times_shrunk: "shrunk n m \<Longrightarrow> shrunk n (foldl move_time m ts)"
  by (induction ts arbitrary: m) (auto simp: move_time_shrunk)

lemma move_round_shrunk: "shrunk (length S) (move_round L S)"
proof -
  have "shrunk n m \<Longrightarrow> shrunk n (foldl (move_head g) m hs)" for n m g and hs :: "nat list"
    by (induction hs arbitrary: m) (auto simp: move_head_def move_times_shrunk split: sum.splits)
  moreover have "shrunk (length S) (L, S, [])" by (simp add: shrunk_def)
  ultimately show ?thesis by (simp add: move_round_def)
qed

lemma move_round_less: "move_round L S = (L', S', v) \<Longrightarrow> v \<noteq> [] \<Longrightarrow> length S' < length S"
  using move_round_shrunk[of S L] by (auto simp: shrunk_def)

function add_loop :: "('p, 'c) plist \<Rightarrow> ('p, 'c) plist" where
  "add_loop s =
     (if getHeads (staging s) = [] then s
      else
        (case move_round (live s) (staging s) of
           (live', staging', v) \<Rightarrow>
             (if v = [] then s\<lparr>live := live', staging := staging'\<rparr>
              else add_loop (s\<lparr>live := live', staging := staging', versions_cache := None,
                      patches := sort_patches live' (patches s @ js_keys v)\<rparr>))))"
  by pat_completeness auto

termination
  by (relation "measure (\<lambda>s. length (staging s))") (auto dest: move_round_less move_round_less[OF sym])

declare add_loop.simps [simp del]

definition add_patches :: "'p patch list \<Rightarrow> ('p, 'c) plist \<Rightarrow> ('p, 'c) plist" where
  "add_patches ps s = (if ps = [] then s else add_loop (foldl add_one s ps))"

section \<open>Values\<close>

text \<open>
  The cache maps a time to a document and the number of times it was computed from. \<open>cget\<close>
  returns the entry and the cache with its new order.
\<close>

definition getCache :: "('c \<Rightarrow> nat \<Rightarrow> ('d \<times> nat) option \<times> 'c) \<Rightarrow> 'c \<Rightarrow> nat \<Rightarrow> nat option \<Rightarrow> 'd option \<times> 'c" where
  "getCache cget c t numTimes =
     (case cget c t of
        (None, c') \<Rightarrow> (None, c')
      | (Some (d, n), c') \<Rightarrow>
          (case numTimes of
             None \<Rightarrow> (Some d, c')
           | Some m \<Rightarrow> (if n = m then Some d else None, c')))"

definition knownTimes :: "'p table \<Rightarrow> nat list \<Rightarrow> patch_error + nat list" where
  "knownTimes L heads = getTimesWithHeads L heads True"

text \<open>
  The loop from the last time of \<open>v\<close> to the first that looks for a cached value to start from.
  The result is that value with the times that are left.
\<close>

fun cached_prefix ::
    "('c \<Rightarrow> nat \<Rightarrow> ('d \<times> nat) option \<times> 'c) \<Rightarrow> nat list \<Rightarrow> nat \<Rightarrow> 'c \<Rightarrow> ('d \<times> nat list) option \<times> 'c" where
  "cached_prefix cget v 0 c = (None, c)"
| "cached_prefix cget v (Suc i) c =
     (case getCache cget c (v ! i) (Some (i + 1)) of
        (Some d, c') \<Rightarrow> (Some (d, drop (i + 1) v), c')
      | (None, c') \<Rightarrow> cached_prefix cget v i c')"

text \<open>The document before the first patch that is applied, with the times to apply.\<close>

definition start_value :: "(string \<Rightarrow> 'd) \<Rightarrow> 'p table \<Rightarrow> nat list \<Rightarrow> 'd \<times> nat list" where
  "start_value from_str L v =
     (case p_snapshot (the (obj_get L (hd v))) of
        Some str \<Rightarrow> (from_str str, tl v)
      | None \<Rightarrow> (from_str '''', v))"

definition is_without :: "nat list option \<Rightarrow> nat \<Rightarrow> bool" where
  "is_without w t \<longleftrightarrow> (case w of None \<Rightarrow> False | Some ts \<Rightarrow> t \<in> set ts)"

definition apply_times :: "('d \<Rightarrow> 'p option \<Rightarrow> 'd) \<Rightarrow> 'p table \<Rightarrow> nat list option \<Rightarrow> 'd \<Rightarrow> nat list \<Rightarrow> 'd" where
  "apply_times apply_patch L w d ts =
     foldl (\<lambda>d t. if is_without w t then d else apply_patch d (p_patch (the (obj_get L t)))) d ts"

definition value_of_times ::
    "(string \<Rightarrow> 'd) \<Rightarrow> ('d \<Rightarrow> 'p option \<Rightarrow> 'd) \<Rightarrow> ('c \<Rightarrow> nat \<Rightarrow> ('d \<times> nat) option \<times> 'c) \<Rightarrow>
     ('c \<Rightarrow> nat \<Rightarrow> 'd \<times> nat \<Rightarrow> 'c) \<Rightarrow> 'p table \<Rightarrow> nat option \<Rightarrow> nat list option \<Rightarrow> bool \<Rightarrow> nat list \<Rightarrow> 'c \<Rightarrow> 'd \<times> 'c" where
  "value_of_times from_str apply_patch cget cset L key w noCache k c =
     (if k = [] then
        (let d = from_str '''' in (d, case key of None \<Rightarrow> c | Some t \<Rightarrow> cset c t (d, 0)))
      else
        (let v = js_sort k;
             (r, c1) = (if noCache then (None, c) else cached_prefix cget v (length v) c);
             (d0, v0) = (case r of Some x \<Rightarrow> x | None \<Rightarrow> start_value from_str L v);
             d = apply_times apply_patch L w d0 v0 in
         (d, case key of
               None \<Rightarrow> c1
             | Some t \<Rightarrow> if w = None \<or> w = Some [] then cset c1 t (d, length k) else c1)))"

definition value_of_known ::
    "(string \<Rightarrow> 'd) \<Rightarrow> ('d \<Rightarrow> 'p option \<Rightarrow> 'd) \<Rightarrow> ('c \<Rightarrow> nat \<Rightarrow> ('d \<times> nat) option \<times> 'c) \<Rightarrow>
     ('c \<Rightarrow> nat \<Rightarrow> 'd \<times> nat \<Rightarrow> 'c) \<Rightarrow> 'p table \<Rightarrow> nat option \<Rightarrow> nat list option \<Rightarrow> bool \<Rightarrow>
     patch_error + nat list \<Rightarrow> 'c \<Rightarrow> (patch_error + 'd) \<times> 'c" where
  "value_of_known from_str apply_patch cget cset L key w noCache known c =
     (case known of
        Inl e \<Rightarrow> (Inl e, c)
      | Inr k \<Rightarrow> map_prod Inr id (value_of_times from_str apply_patch cget cset L key w noCache k c))"

text \<open>\<open>this.value({time, without_times, noCache})\<close>.\<close>

definition patch_value ::
    "(string \<Rightarrow> 'd) \<Rightarrow> ('d \<Rightarrow> 'p option \<Rightarrow> 'd) \<Rightarrow> ('c \<Rightarrow> nat \<Rightarrow> ('d \<times> nat) option \<times> 'c) \<Rightarrow>
     ('c \<Rightarrow> nat \<Rightarrow> 'd \<times> nat \<Rightarrow> 'c) \<Rightarrow> 'p table \<Rightarrow> nat option \<Rightarrow> nat list option \<Rightarrow> bool \<Rightarrow> 'c \<Rightarrow>
     (patch_error + 'd) \<times> 'c" where
  "patch_value from_str apply_patch cget cset L time without_times noCache0 c =
     (let w = map_option (\<lambda>ws. case time of None \<Rightarrow> ws | Some t \<Rightarrow> filter (\<lambda>x. x \<le> t) ws) without_times;
          noCache = (noCache0 \<or> (w \<noteq> None \<and> w \<noteq> Some []));
          from_cache = (\<lambda>ok t. if ok \<and> \<not> noCache then getCache cget c t None else (None, c)) in
      case time of
        Some t \<Rightarrow>
          (if obj_get L t = None then (Inl (UnknownTime t), c)
           else case from_cache True t of
             (Some d, c') \<Rightarrow> (Inr d, c')
           | (None, c') \<Rightarrow>
               value_of_known from_str apply_patch cget cset L time w noCache (knownTimes L [t]) c')
      | None \<Rightarrow>
          (let heads = getHeads L in
           if heads = [] then value_of_known from_str apply_patch cget cset L time w noCache (Inr []) c
           else case from_cache (length heads = 1) (hd heads) of
             (Some d, c') \<Rightarrow> (Inr d, c')
           | (None, c') \<Rightarrow>
               value_of_known from_str apply_patch cget cset L time w noCache (knownTimes L heads) c'))"

definition plist_value ::
    "(string \<Rightarrow> 'd) \<Rightarrow> ('d \<Rightarrow> 'p option \<Rightarrow> 'd) \<Rightarrow> ('c \<Rightarrow> nat \<Rightarrow> ('d \<times> nat) option \<times> 'c) \<Rightarrow>
     ('c \<Rightarrow> nat \<Rightarrow> 'd \<times> nat \<Rightarrow> 'c) \<Rightarrow> nat option \<Rightarrow> nat list option \<Rightarrow> bool \<Rightarrow> ('p, 'c) plist \<Rightarrow>
     (patch_error + 'd) \<times> ('p, 'c) plist" where
  "plist_value from_str apply_patch cget cset time without_times noCache s =
     (case patch_value from_str apply_patch cget cset (live s) time without_times noCache (cache s) of
        (r, c) \<Rightarrow> (r, s\<lparr>cache := c\<rparr>))"

section \<open>Reading\<close>

definition the_patch :: "('p, 'c) plist \<Rightarrow> nat \<Rightarrow> 'p patch" where
  "the_patch s i = the (obj_get (live s) (patches s ! i))"

definition hasFullHistory :: "('p, 'c) plist \<Rightarrow> bool" where
  "hasFullHistory s =
     (if patches s = [] then staging s = []
      else \<not> p_is_snapshot (the_patch s 0) \<and> parents_of (the_patch s 0) = [])"

definition needsMoreHistory :: "('p, 'c) plist \<Rightarrow> bool" where
  "needsMoreHistory s \<longleftrightarrow> \<not> hasFullHistory s \<and> staging s \<noteq> []"

definition lastVersion :: "('p, 'c) plist \<Rightarrow> int" where
  "lastVersion s =
     (let n = length (patches s) in
      if n = 0 then 0
      else case p_version (the_patch s (n - 1)) of Some v \<Rightarrow> v | None \<Rightarrow> int n)"

definition firstVersion :: "('p, 'c) plist \<Rightarrow> int" where
  "firstVersion s =
     (if patches s = [] then 1 else case p_version (the_patch s 0) of Some v \<Rightarrow> v | None \<Rightarrow> 1)"

definition versionNumber :: "('p, 'c) plist \<Rightarrow> nat \<Rightarrow> int option" where
  "versionNumber s t = Option.bind (obj_get (live s) t) p_version"

text \<open>\<open>None\<close>: the error that there is no patch at the time.\<close>

definition patch_at :: "('p, 'c) plist \<Rightarrow> nat \<Rightarrow> 'p patch option" where
  "patch_at s t = obj_get (live s) t"

definition user_id :: "('p, 'c) plist \<Rightarrow> nat \<Rightarrow> int option" where
  "user_id s t = map_option p_user (patch_at s t)"

definition versions :: "('p, 'c) plist \<Rightarrow> nat list \<times> ('p, 'c) plist" where
  "versions s =
     (case versions_cache s of
        Some v \<Rightarrow> (v, s)
      | None \<Rightarrow> (let v = map (\<lambda>t. p_time (the (obj_get (live s) t))) (patches s) in (v, s\<lparr>versions_cache := Some v\<rparr>)))"

definition wallTime :: "('p, 'c) plist \<Rightarrow> nat \<Rightarrow> int option" where
  "wallTime s t =
     (let wall = (\<lambda>p. case p_wall p of Some w \<Rightarrow> w | None \<Rightarrow> int (p_time p)) in
      case obj_get (live s) t of
        Some p \<Rightarrow> Some (wall p)
      | None \<Rightarrow> map_option wall (obj_get (staging s) t))"

definition hasVersion :: "('p, 'c) plist \<Rightarrow> nat \<Rightarrow> bool" where
  "hasVersion s t \<longleftrightarrow> obj_get (live s) t \<noteq> None"

definition newest_patch_time :: "('p, 'c) plist \<Rightarrow> nat option" where
  "newest_patch_time s = (if patches s = [] then None else Some (p_time (the_patch s (length (patches s) - 1))))"

definition patch_count :: "('p, 'c) plist \<Rightarrow> nat" where
  "patch_count s = length (patches s)"

definition export_patches :: "('p, 'c) plist \<Rightarrow> 'p patch list" where
  "export_patches s = map (\<lambda>t. the (obj_get (live s) t)) (patches s)"

definition getOldestSnapshot :: "('p, 'c) plist \<Rightarrow> 'p patch option" where
  "getOldestSnapshot s = (if hasFullHistory s then None else oldestSnapshot s)"

definition nonSnapshotTails :: "('p, 'c) plist \<Rightarrow> nat list" where
  "nonSnapshotTails s =
     filter (\<lambda>t. let p = the (obj_get (live s) t) in parents_of p \<noteq> [] \<and> p_snapshot p = None) (getTails (live s))"

text \<open>
  \<open>next_available_time\<close>; \<open>r\<close> is the random \<open>Math.ceil(1000 * Math.random())\<close>. The remainder of
  JavaScript has the sign of the dividend.
\<close>

definition next_available_time :: "int \<Rightarrow> ('p, 'c) plist \<Rightarrow> int \<Rightarrow> int \<Rightarrow> int \<Rightarrow> int" where
  "next_available_time r s t m n =
     (let t1 = (if t \<le> int (maxTime s) then int (maxTime s) + r + 1 else t);
          n1 = (if n \<le> 0 then 1 else n);
          a = m - (t1 smod n1);
          a1 = (if a < 0 then a + n1 else a) in
      t1 + a1)"

section \<open>Choosing a time for a snapshot\<close>

text \<open>The loop over \<open>j\<close>, where the sizes of the patches pass \<open>max_size\<close>.\<close>

fun size_loop :: "int \<Rightarrow> 'p patch list \<Rightarrow> nat \<Rightarrow> int \<Rightarrow> nat option" where
  "size_loop max_size [] j cnt = None"
| "size_loop max_size (p # ps) j cnt =
     (let cnt' = cnt + p_size p in if cnt' > max_size then Some j else size_loop max_size ps (j + 1) cnt')"

text \<open>The loop over \<open>i\<close> from the last patch down.\<close>

fun candidate_loop :: "nat \<Rightarrow> int \<Rightarrow> 'p patch list \<Rightarrow> nat \<Rightarrow> int \<Rightarrow> nat option" where
  "candidate_loop interval max_size ps i cur_size =
     (let p = ps ! i;
          snap = isSnapshot p;
          cur = (if snap then cur_size else cur_size + p_size p) in
      if snap \<or> i = 0 then
        (if i + 2 * interval \<le> length ps - 1 then Some (i + interval)
         else if cur > max_size then
           (let from = (if snap then i + 1 else i) in size_loop max_size (drop from ps) from 0)
         else None)
      else candidate_loop interval max_size ps (i - 1) cur)"

definition canidateSnapshotIndex :: "nat \<Rightarrow> int \<Rightarrow> ('p, 'c) plist \<Rightarrow> nat option" where
  "canidateSnapshotIndex interval max_size s =
     (let ps = export_patches s in
      if ps = [] then None else candidate_loop interval max_size ps (length ps - 1) 0)"

function skip_never :: "nat list \<Rightarrow> nat list \<Rightarrow> nat \<Rightarrow> nat \<Rightarrow> nat" where
  "skip_never never ts minAge i =
     (if i + minAge < length ts \<and> ts ! i \<in> set never then skip_never never ts minAge (i + 1) else i)"
  by pat_completeness auto

termination
  by (relation "measure (\<lambda>(never, ts, minAge, i). length ts - i)") auto

declare skip_never.simps [simp del] candidate_loop.simps [simp del]

text \<open>The attempts that are left, \<open>neverSnapshotTimes\<close> and the graph of the patches from \<open>i\<close> on.\<close>

fun try_snapshot :: "nat \<Rightarrow> nat list \<Rightarrow> nat \<Rightarrow> 'p table \<Rightarrow> nat list \<Rightarrow> nat \<Rightarrow> nat option \<times> nat list" where
  "try_snapshot 0 ts minAge graph never i = (None, never)"
| "try_snapshot (Suc k) ts minAge graph never i =
     (if i + minAge < length ts then
        (if length (getMissingNodes graph) \<noteq> 1
         then try_snapshot k ts minAge (obj_del (ts ! i) graph)
                (if ts ! i \<in> set never then never else never @ [ts ! i]) (i + 1)
         else (Some (ts ! i), never))
      else (None, never))"

definition nextValidSnapshotTime :: "nat \<Rightarrow> nat \<Rightarrow> ('p, 'c) plist \<Rightarrow> nat option \<times> ('p, 'c) plist" where
  "nextValidSnapshotTime interval i0 s =
     (let minAge = min interval 5;
          ts = map p_time (export_patches s);
          i = skip_never (neverSnapshotTimes s) ts minAge i0;
          graph = foldl (\<lambda>g p. obj_set (p_time p) p g) [] (drop i (export_patches s)) in
      if i + minAge \<ge> length ts then (None, s)
      else (case try_snapshot 10 ts minAge graph (neverSnapshotTimes s) i of
              (r, never) \<Rightarrow> (r, s\<lparr>neverSnapshotTimes := never\<rparr>)))"

definition time_of_unmade_periodic_snapshot :: "nat \<Rightarrow> int \<Rightarrow> ('p, 'c) plist \<Rightarrow> nat option \<times> ('p, 'c) plist" where
  "time_of_unmade_periodic_snapshot interval max_size s =
     (case canidateSnapshotIndex interval max_size s of
        None \<Rightarrow> (None, s)
      | Some i \<Rightarrow> nextValidSnapshotTime interval i s)"

end
