(* ===== verification/PatchValue.thy ===== *)
theory PatchValue
  imports PatchList "HOL-Library.Multiset"
begin

text \<open>
  What \<open>value\<close> of \<^verbatim>\<open>packages/sync/editor/generic/sorted-patch-list.ts\<close> computes: the traversal of
  the graph finds the ancestors up to snapshots, the cache holds only values of the
  specification, and adding patches neither changes a value nor opens the graph. Then the cases
  in which this fails: the arrival of a snapshot, and times with different numbers of digits.
\<close>

section \<open>The ancestors of a time\<close>

definition edges :: "'p table \<Rightarrow> (nat \<times> nat) set" where
  "edges L = {(t, s). \<exists>p. obj_get L t = Some p \<and> \<not> p_is_snapshot p \<and> s \<in> set (parents_of p)}"

definition known :: "'p table \<Rightarrow> nat set \<Rightarrow> nat set" where
  "known L hs = (edges L)\<^sup>* `` hs"

lemma edges_image:
  "edges L `` {t} = (case obj_get L t of None \<Rightarrow> {} | Some p \<Rightarrow> if p_is_snapshot p then {} else set (parents_of p))"
  by (auto simp: edges_def split: option.splits)

lemma known_closed: "edges L `` known L hs \<subseteq> known L hs"
  by (auto simp: known_def intro: rtrancl_into_rtrancl)

lemma known_self: "hs \<subseteq> known L hs"
  by (auto simp: known_def)

lemma known_least: "hs \<subseteq> X \<Longrightarrow> edges L `` X \<subseteq> X \<Longrightarrow> known L hs \<subseteq> X"
  unfolding known_def by (metis Image_closed_trancl Image_mono order_refl)

lemma known_mono: "t \<in> known L hs \<Longrightarrow> known L {t} \<subseteq> known L hs"
  using known_least known_closed by (metis empty_subsetI insert_subset)

lemma known_subset: "A \<subseteq> B \<Longrightarrow> known L A \<subseteq> known L B"
  by (auto simp: known_def)

lemma times_loop_sound:
  assumes "times_loop L verify stack visited = Inr v" "distinct visited"
    and "edges L `` set visited \<subseteq> set visited \<union> set stack"
  shows "distinct v \<and> set visited \<union> set stack \<subseteq> set v \<and> edges L `` set v \<subseteq> set v \<and>
    set v \<subseteq> set visited \<union> known L (set stack)"
  using assms
proof (induction L verify stack visited rule: times_loop.induct)
  case (2 L verify current stack visited)
  have known_stack: "known L (set stack) \<subseteq> known L (set (current # stack))"
    by (rule known_subset) auto
  show ?case
  proof (cases "current \<in> set visited")
    case True
    have "edges L `` set visited \<subseteq> set visited \<union> set stack" using 2(7) True by auto
    moreover have "times_loop L verify stack visited = Inr v" using 2(5) True by simp
    ultimately show ?thesis using 2(1)[OF True] 2(6) True known_stack by auto
  next
    case new: False
    have cur: "current \<in> known L (set (current # stack))" using known_self[of "set (current # stack)" L] by simp
    have split: "edges L `` set (visited @ [current]) = edges L `` set visited \<union> edges L `` {current}" by auto
    show ?thesis
    proof (cases "obj_get L current")
      case None
      then have nv: "\<not> verify" and rec: "times_loop L verify stack (visited @ [current]) = Inr v"
        using 2(5) new by (auto split: if_splits)
      have "edges L `` set (visited @ [current]) \<subseteq> set (visited @ [current]) \<union> set stack"
        using 2(7) None unfolding split edges_image by auto
      with 2(2)[OF new None nv rec] show ?thesis using 2(6) new cur known_stack by auto
    next
      case (Some p)
      let ?vis = "visited @ [current]"
      show ?thesis
      proof (cases "p_is_snapshot p")
        case True
        then have rec: "times_loop L verify stack ?vis = Inr v" using 2(5) new Some by simp
        have "edges L `` set ?vis \<subseteq> set ?vis \<union> set stack"
          using 2(7) Some True unfolding split edges_image by auto
        with 2(3)[OF new Some refl True rec] show ?thesis using 2(6) new cur known_stack by auto
      next
        case False
        let ?st = "rev (filter (\<lambda>s. s \<notin> set ?vis) (parents_of p)) @ stack"
        have rec: "times_loop L verify ?st ?vis = Inr v" using 2(5) new Some False by simp
        have pars: "edges L `` {current} = set (parents_of p)" using Some False by (simp add: edges_image)
        have "edges L `` set ?vis \<subseteq> set ?vis \<union> set ?st"
          using 2(7) unfolding split pars by auto
        with 2(4)[OF new Some refl False rec] have res: "distinct v" "set ?vis \<union> set ?st \<subseteq> set v"
            "edges L `` set v \<subseteq> set v" "set v \<subseteq> set ?vis \<union> known L (set ?st)"
          using 2(6) new by auto
        have "set (parents_of p) \<subseteq> known L (set (current # stack))"
          using known_closed[of L "set (current # stack)"] cur pars by blast
        then have "set ?st \<subseteq> known L (set (current # stack))" using known_self[of "set (current # stack)" L] by auto
        then have "known L (set ?st) \<subseteq> known L (set (current # stack))" by (rule known_least[OF _ known_closed])
        then show ?thesis using res cur by auto
      qed
    qed
  qed
qed simp

lemma times_loop_total:
  assumes "\<not> verify \<or> known L (set stack) \<subseteq> dom (obj_get L)"
  shows "\<exists>v. times_loop L verify stack visited = Inr v"
  using assms
proof (induction L verify stack visited rule: times_loop.induct)
  case (2 L verify current stack visited)
  have known_stack: "known L (set stack) \<subseteq> known L (set (current # stack))"
    by (rule known_subset) auto
  have cur: "current \<in> known L (set (current # stack))" using known_self[of "set (current # stack)" L] by simp
  have kids: "known L (set (rev (filter q (parents_of p)) @ stack)) \<subseteq> known L (set (current # stack))"
    if "obj_get L current = Some p" "\<not> p_is_snapshot p" for p q
  proof (rule known_least[OF _ known_closed])
    have "set (parents_of p) \<subseteq> known L (set (current # stack))"
      using known_closed[of L "set (current # stack)"] cur that by (auto simp: edges_image edges_def)
    then show "set (rev (filter q (parents_of p)) @ stack) \<subseteq> known L (set (current # stack))"
      using known_self[of "set (current # stack)" L] by auto
  qed
  show ?case
  proof (cases "current \<in> set visited")
    case True
    then show ?thesis using 2 known_stack by auto
  next
    case new: False
    show ?thesis
    proof (cases "obj_get L current")
      case None
      then have "\<not> verify" using 2(5) cur by auto
      then show ?thesis using 2(2)[OF new None] new None by auto
    next
      case (Some p)
      show ?thesis
      proof (cases "p_is_snapshot p")
        case True
        then show ?thesis using 2(3)[OF new Some refl True] 2(5) Some new known_stack by auto
      next
        case False
        let ?st = "rev (filter (\<lambda>s. s \<notin> set (visited @ [current])) (parents_of p)) @ stack"
        have "\<not> verify \<or> known L (set ?st) \<subseteq> dom (obj_get L)"
          using 2(5) kids[OF Some False, of "\<lambda>s. s \<notin> set (visited @ [current])"] by blast
        from 2(4)[OF new Some refl False this] show ?thesis using Some new False by (simp add: Let_def)
      qed
    qed
  qed
qed simp

lemma getTimesWithHeads_eq:
  assumes "getTimesWithHeads L hs verify = Inr v"
  shows "distinct v" "set v = known L (set hs)"
proof -
  have "times_loop L verify (rev hs) [] = Inr v" using assms by (simp add: getTimesWithHeads_def)
  from times_loop_sound[OF this] have res: "distinct v" "set hs \<subseteq> set v" "edges L `` set v \<subseteq> set v"
      "set v \<subseteq> known L (set hs)" by auto
  then show "distinct v" "set v = known L (set hs)" using known_least[OF res(2,3)] by auto
qed

section \<open>Tables in which the value is defined\<close>

text \<open>A patch that is not a snapshot has all its parents in the table.\<close>

definition live_closed :: "'p table \<Rightarrow> bool" where
  "live_closed L \<longleftrightarrow> edges L `` dom (obj_get L) \<subseteq> dom (obj_get L)"

text \<open>The parents of a patch are earlier, and all times have \<open>n\<close> digits.\<close>

definition timely :: "nat \<Rightarrow> 'p patch \<Rightarrow> bool" where
  "timely n p \<longleftrightarrow> length (decimal (p_time p)) = n \<and> (\<forall>q \<in> set (parents_of p). q < p_time p)"

definition timely_table :: "nat \<Rightarrow> 'p table \<Rightarrow> bool" where
  "timely_table n L \<longleftrightarrow> (\<forall>t p. obj_get L t = Some p \<longrightarrow> p_time p = t \<and> timely n p)"

lemma known_in_closed: "live_closed L \<Longrightarrow> hs \<subseteq> dom (obj_get L) \<Longrightarrow> known L hs \<subseteq> dom (obj_get L)"
  unfolding live_closed_def by (rule known_least)

lemma knownTimes_ok:
  assumes "live_closed L" "set hs \<subseteq> dom (obj_get L)"
  obtains k where "knownTimes L hs = Inr k" "distinct k" "set k = known L (set hs)"
proof -
  have "\<exists>v. times_loop L True (rev hs) [] = Inr v"
    using known_in_closed[OF assms] by (intro times_loop_total) simp
  then obtain k where "knownTimes L hs = Inr k" by (auto simp: knownTimes_def getTimesWithHeads_def)
  then show ?thesis using that getTimesWithHeads_eq unfolding knownTimes_def by blast
qed

lemma known_earlier:
  assumes "timely_table n L" "s \<in> known L {t}"
  shows "s \<le> t"
proof -
  have "(t, s) \<in> (edges L)\<^sup>*" using assms(2) by (simp add: known_def)
  then show ?thesis
  proof (induction rule: rtrancl_induct)
    case (step y z)
    then obtain p where p: "obj_get L y = Some p" "z \<in> set (parents_of p)" by (auto simp: edges_def)
    then have "z < y" using assms(1) unfolding timely_table_def timely_def by metis
    then show ?case using step by simp
  qed simp
qed

section \<open>The specification of the value\<close>

text \<open>All known patches in the order of their times, applied to the snapshot of the first one.\<close>

definition apply_from ::
    "(string \<Rightarrow> 'd) \<Rightarrow> ('d \<Rightarrow> 'p option \<Rightarrow> 'd) \<Rightarrow> 'p table \<Rightarrow> nat list option \<Rightarrow> nat list \<Rightarrow> 'd" where
  "apply_from from_str apply_patch L w v =
     (if v = [] then from_str ''''
      else (case start_value from_str L v of (d, ts) \<Rightarrow> apply_times apply_patch L w d ts))"

definition spec_value ::
    "(string \<Rightarrow> 'd) \<Rightarrow> ('d \<Rightarrow> 'p option \<Rightarrow> 'd) \<Rightarrow> 'p table \<Rightarrow> nat list option \<Rightarrow> nat set \<Rightarrow> 'd" where
  "spec_value from_str apply_patch L w hs =
     apply_from from_str apply_patch L w (sorted_list_of_set (known L hs))"

text \<open>What the code relies on from the cache: it returns only what was stored.\<close>

definition lru_laws ::
    "('c \<Rightarrow> nat \<Rightarrow> ('d \<times> nat) option \<times> 'c) \<Rightarrow> ('c \<Rightarrow> nat \<Rightarrow> 'd \<times> nat \<Rightarrow> 'c) \<Rightarrow> bool" where
  "lru_laws cget cset \<longleftrightarrow>
     (\<forall>c t u x. fst (cget (snd (cget c t)) u) = Some x \<longrightarrow> fst (cget c u) = Some x) \<and>
     (\<forall>c t x u y. fst (cget (cset c t x) u) = Some y \<longrightarrow> u = t \<and> y = x \<or> fst (cget c u) = Some y)"

definition cache_ok ::
    "(string \<Rightarrow> 'd) \<Rightarrow> ('d \<Rightarrow> 'p option \<Rightarrow> 'd) \<Rightarrow> ('c \<Rightarrow> nat \<Rightarrow> ('d \<times> nat) option \<times> 'c) \<Rightarrow> 'p table \<Rightarrow> 'c \<Rightarrow> bool" where
  "cache_ok from_str apply_patch cget L c \<longleftrightarrow>
     (\<forall>t d n. fst (cget c t) = Some (d, n) \<longrightarrow>
        obj_get L t \<noteq> None \<and> d = spec_value from_str apply_patch L None {t} \<and> n = card (known L {t}))"

lemma cache_ok_get: "lru_laws cget cset \<Longrightarrow> cache_ok from_str apply_patch cget L c \<Longrightarrow> cache_ok from_str apply_patch cget L (snd (cget c t))"
  unfolding cache_ok_def lru_laws_def by blast

lemma cache_ok_set:
  assumes "lru_laws cget cset" "cache_ok from_str apply_patch cget L c" "obj_get L t \<noteq> None"
    and "d = spec_value from_str apply_patch L None {t}" "n = card (known L {t})"
  shows "cache_ok from_str apply_patch cget L (cset c t (d, n))"
  unfolding cache_ok_def
proof (intro allI impI)
  fix u e m
  assume "fst (cget (cset c t (d, n)) u) = Some (e, m)"
  then have "u = t \<and> (e, m) = (d, n) \<or> fst (cget c u) = Some (e, m)"
    using assms(1) unfolding lru_laws_def by blast
  then show "obj_get L u \<noteq> None \<and> e = spec_value from_str apply_patch L None {u} \<and> m = card (known L {u})"
    using assms(2-5) unfolding cache_ok_def by blast
qed

lemma getCache_ok:
  assumes "lru_laws cget cset" "cache_ok from_str apply_patch cget L c" "getCache cget c t num = (r, c')"
  shows "cache_ok from_str apply_patch cget L c'"
    and "r = Some d \<Longrightarrow> obj_get L t \<noteq> None \<and> d = spec_value from_str apply_patch L None {t} \<and>
      (\<forall>m. num = Some m \<longrightarrow> m = card (known L {t}))"
proof -
  obtain x where x: "cget c t = (x, c')"
    using assms(3) by (auto simp: getCache_def split: prod.splits option.splits if_splits)
  then show "cache_ok from_str apply_patch cget L c'" using cache_ok_get[OF assms(1,2), of t] by simp
  assume r: "r = Some d"
  then obtain n where n: "x = Some (d, n)" "\<forall>m. num = Some m \<longrightarrow> m = n"
    using assms(3) x by (auto simp: getCache_def split: prod.splits option.splits if_splits)
  have "fst (cget c t) = Some (d, n)" using x n(1) by simp
  then show "obj_get L t \<noteq> None \<and> d = spec_value from_str apply_patch L None {t} \<and>
      (\<forall>m. num = Some m \<longrightarrow> m = card (known L {t}))"
    using assms(2) n(2) unfolding cache_ok_def by blast
qed

text \<open>A cached value whose number of times fits is the value of a prefix of the sorted times.\<close>

lemma prefix_is_known:
  assumes "timely_table n L" "edges L `` set v \<subseteq> set v" "sorted v" "distinct v" "i < length v"
    and "card (known L {v ! i}) = i + 1"
  shows "take (i + 1) v = sorted_list_of_set (known L {v ! i})"
proof -
  have sub: "known L {v ! i} \<subseteq> set v" by (rule known_least) (use assms(2,5) in auto)
  have "known L {v ! i} \<subseteq> set (take (i + 1) v)"
  proof
    fix s assume s: "s \<in> known L {v ! i}"
    then obtain j where j: "j < length v" "s = v ! j" using sub by (metis in_set_conv_nth subsetD)
    have "v ! j \<le> v ! i" using known_earlier[OF assms(1) s] j(2) by simp
    then have "j \<le> i"
      using assms(3-5) j(1) by (metis le_antisym linorder_le_cases nth_eq_iff_index_eq sorted_iff_nth_mono)
    then have "s = take (i + 1) v ! j" "j < length (take (i + 1) v)" using j by auto
    then show "s \<in> set (take (i + 1) v)" by (metis nth_mem)
  qed
  moreover have "card (set (take (i + 1) v)) = i + 1"
    using assms(4,5) distinct_card[of "take (i + 1) v"] by simp
  ultimately have "known L {v ! i} = set (take (i + 1) v)"
    using assms(6) by (metis List.finite_set card_subset_eq)
  moreover have "sorted (take (i + 1) v)" "distinct (take (i + 1) v)"
    using assms(3,4) sorted_wrt_take by auto
  ultimately show ?thesis by (simp add: sorted_list_of_set_sort_remdups distinct_remdups_id sorted_sort_id)
qed

lemma apply_from_append:
  assumes "us \<noteq> []"
  shows "apply_times apply_patch L w (apply_from from_str apply_patch L w us) vs =
    apply_from from_str apply_patch L w (us @ vs)"
  using assms by (auto simp: apply_from_def start_value_def apply_times_def split: option.splits)

lemma cached_prefix_ok:
  assumes "lru_laws cget cset" "timely_table n L" "edges L `` set v \<subseteq> set v" "sorted v" "distinct v"
    and "cache_ok from_str apply_patch cget L c" "cached_prefix cget v m c = (r, c')" "m \<le> length v"
  shows "cache_ok from_str apply_patch cget L c' \<and>
    (\<forall>d rest. r = Some (d, rest) \<longrightarrow> apply_times apply_patch L None d rest = apply_from from_str apply_patch L None v)"
  using assms(6-8)
proof (induction m arbitrary: c)
  case (Suc i)
  obtain r1 c1 where g: "getCache cget c (v ! i) (Some (i + 1)) = (r1, c1)" by fastforce
  note ok = getCache_ok[OF assms(1) Suc.prems(1) g]
  show ?case
  proof (cases r1)
    case None
    then show ?thesis using Suc g ok(1) by simp
  next
    case (Some d)
    then have r: "r = Some (d, drop (i + 1) v)" "c' = c1" using Suc.prems(2) g by auto
    have hit: "d = spec_value from_str apply_patch L None {v ! i}" "i + 1 = card (known L {v ! i})"
      using ok(2)[OF Some] by auto
    have "take (i + 1) v = sorted_list_of_set (known L {v ! i})"
      using prefix_is_known[OF assms(2-5) _ hit(2)[symmetric]] Suc.prems(3) by simp
    then have "d = apply_from from_str apply_patch L None (take (i + 1) v)" using hit(1) by (simp add: spec_value_def)
    moreover have ne: "take (i + 1) v \<noteq> []" using Suc.prems(3) by auto
    ultimately have "apply_times apply_patch L None d (drop (i + 1) v) = apply_from from_str apply_patch L None v"
      using apply_from_append[OF ne, of apply_patch L None from_str "drop (i + 1) v"]
      by (simp only: append_take_drop_id)
    then show ?thesis using r ok(1) by simp
  qed
qed simp

lemma known_finite: "live_closed L \<Longrightarrow> hs \<subseteq> dom (obj_get L) \<Longrightarrow> finite (known L hs)"
  using known_in_closed finite_dom_map_of finite_subset by metis

lemma known_digits:
  assumes "timely_table n L" "live_closed L" "hs \<subseteq> dom (obj_get L)" "t \<in> known L hs"
  shows "length (decimal t) = n"
proof -
  obtain p where "obj_get L t = Some p" using known_in_closed[OF assms(2,3)] assms(4) by auto
  then show ?thesis using assms(1) unfolding timely_table_def timely_def by metis
qed

lemma apply_times_no_without: "w = None \<or> w = Some [] \<Longrightarrow> apply_times apply_patch L w = apply_times apply_patch L None"
proof -
  assume "w = None \<or> w = Some []"
  then have "is_without w = is_without None" by (auto simp: is_without_def)
  then show ?thesis by (auto simp: apply_times_def fun_eq_iff)
qed

lemma apply_from_no_without:
  assumes "w = None \<or> w = Some []"
  shows "apply_from from_str apply_patch L w v = apply_from from_str apply_patch L None v"
  unfolding apply_from_def apply_times_no_without[OF assms] by (rule refl)

lemma value_of_times_eq:
  assumes "k \<noteq> []" "(if noCache then (None, c) else cached_prefix cget (js_sort k) (length (js_sort k)) c) = (r, c1)"
    and "(case r of Some x \<Rightarrow> x | None \<Rightarrow> start_value from_str L (js_sort k)) = (d0, v0)"
  shows "value_of_times from_str apply_patch cget cset L key w noCache k c =
    (apply_times apply_patch L w d0 v0,
     case key of
       None \<Rightarrow> c1
     | Some t \<Rightarrow> if w = None \<or> w = Some [] then cset c1 t (apply_times apply_patch L w d0 v0, length k) else c1)"
  unfolding value_of_times_def Let_def by (simp only: assms if_False prod.case)

lemma value_of_times_ok:
  assumes laws: "lru_laws cget cset" and L: "timely_table n L" "live_closed L" "hs \<subseteq> dom (obj_get L)"
    and c: "cache_ok from_str apply_patch cget L c" and k: "distinct k" "set k = known L hs"
    and key: "\<And>t. key = Some t \<Longrightarrow> hs = {t}" and no: "noCache \<or> w = None \<or> w = Some []"
    and res: "value_of_times from_str apply_patch cget cset L key w noCache k c = (d, c')"
  shows "d = spec_value from_str apply_patch L w hs \<and> cache_ok from_str apply_patch cget L c'"
proof (cases "k = []")
  case True
  then have "known L hs = {}" using k(2) by simp
  then have "hs = {}" using known_self by blast
  then have "key = None" using key by (cases key) auto
  then show ?thesis using res c True \<open>known L hs = {}\<close>
    by (auto simp: value_of_times_def spec_value_def apply_from_def Let_def)
next
  case False
  let ?v = "js_sort k"
  have "\<forall>t \<in> set k. length (decimal t) = n" using known_digits[OF L] k(2) by blast
  then have v: "?v = sorted_list_of_set (known L hs)"
    using js_sort_same_digits k by (metis sorted_list_of_set_sort_remdups distinct_remdups_id)
  have props: "sorted ?v" "distinct ?v" "edges L `` set ?v \<subseteq> set ?v" "?v \<noteq> []"
  proof -
    show "sorted ?v" unfolding v by simp
    show "distinct ?v" "edges L `` set ?v \<subseteq> set ?v" using k known_closed[of L hs] by simp_all
    show "?v \<noteq> []" using False by (metis length_0_conv length_js_sort)
  qed
  obtain r c1 where rc1: "(if noCache then (None, c) else cached_prefix cget ?v (length ?v) c) = (r, c1)" by fastforce
  obtain d0 v0 where d0: "(case r of Some x \<Rightarrow> x | None \<Rightarrow> start_value from_str L ?v) = (d0, v0)" by fastforce
  have start: "d = apply_times apply_patch L w d0 v0"
    and c': "c' = (case key of None \<Rightarrow> c1
        | Some t \<Rightarrow> if w = None \<or> w = Some [] then cset c1 t (d, length k) else c1)"
    using res value_of_times_eq[OF False rc1 d0, of apply_patch cset key w] by auto
  have "cache_ok from_str apply_patch cget L c1 \<and> d = apply_from from_str apply_patch L w ?v"
  proof (cases noCache)
    case True
    then show ?thesis using c start props(4) rc1 d0 by (auto simp: apply_from_def)
  next
    case cached: False
    then have w: "apply_times apply_patch L w = apply_times apply_patch L None"
      using no by (intro apply_times_no_without) blast
    then have same: "apply_from from_str apply_patch L w ?v = apply_from from_str apply_patch L None ?v"
      using cached no by (intro apply_from_no_without) blast
    have rc: "cached_prefix cget ?v (length ?v) c = (r, c1)" using cached rc1 by simp
    note pre = cached_prefix_ok[OF laws L(1) props(3,1,2) c rc order_refl]
    have "d = apply_from from_str apply_patch L None ?v"
    proof (cases r)
      case None
      then show ?thesis using start props(4) d0 by (simp add: apply_from_def w)
    next
      case (Some x)
      then show ?thesis using start pre d0 by (simp add: w)
    qed
    then show ?thesis using pre same by simp
  qed
  then have both: "cache_ok from_str apply_patch cget L c1" "d = spec_value from_str apply_patch L w hs"
    by (simp_all add: spec_value_def v)
  have "cache_ok from_str apply_patch cget L (cset c1 t (d, length k))" if "key = Some t" "w = None \<or> w = Some []" for t
  proof (rule cache_ok_set[OF laws both(1)])
    show "obj_get L t \<noteq> None" using key[OF that(1)] L(3) by auto
    show "d = spec_value from_str apply_patch L None {t}"
      using both(2) key[OF that(1)] apply_from_no_without[OF that(2), of from_str apply_patch L]
      by (simp add: spec_value_def)
    show "length k = card (known L {t})" using k key[OF that(1)] by (metis distinct_card)
  qed
  then show ?thesis using both c' by (auto split: option.splits)
qed

lemma heads_loop_subset: "set (heads_loop ss X) \<subseteq> set X"
proof (induction ss X rule: heads_loop.induct)
  case (2 s ss X)
  show ?case
  proof (cases "length (removeAll s X) \<le> 1")
    case False
    then show ?thesis using 2[OF refl False] by (auto simp: Let_def)
  qed (auto simp: Let_def)
qed simp

lemma heads_in_table: "set (getHeads L) \<subseteq> dom (obj_get L)"
  using heads_loop_subset[of "concat (map parents_of (js_values L))" "js_keys L"]
  by (auto simp: getHeads_def set_js_keys)

text \<open>The times that are left out, when the value at a time is asked for.\<close>

definition left_out :: "nat option \<Rightarrow> nat list option \<Rightarrow> nat list option" where
  "left_out time ws = map_option (\<lambda>ws. case time of None \<Rightarrow> ws | Some t \<Rightarrow> filter (\<lambda>x. x \<le> t) ws) ws"

definition asked :: "'p table \<Rightarrow> nat option \<Rightarrow> nat set" where
  "asked L time = (case time of Some t \<Rightarrow> {t} | None \<Rightarrow> set (getHeads L))"

lemma value_of_known_ok:
  assumes "lru_laws cget cset" "timely_table n L" "live_closed L" "set hs \<subseteq> dom (obj_get L)"
    and "cache_ok from_str apply_patch cget L c" "\<And>t. key = Some t \<Longrightarrow> set hs = {t}"
    and "noCache \<or> w = None \<or> w = Some []"
  shows "\<exists>c'. value_of_known from_str apply_patch cget cset L key w noCache (knownTimes L hs) c =
      (Inr (spec_value from_str apply_patch L w (set hs)), c') \<and> cache_ok from_str apply_patch cget L c'"
proof -
  obtain k where k: "knownTimes L hs = Inr k" "distinct k" "set k = known L (set hs)"
    by (rule knownTimes_ok[OF assms(3,4)])
  obtain d c' where v: "value_of_times from_str apply_patch cget cset L key w noCache k c = (d, c')" by fastforce
  show ?thesis
    using value_of_times_ok[OF assms(1-5) k(2,3) assms(6,7) v] k(1) v by (simp add: value_of_known_def)
qed

lemma cache_hit_ok:
  assumes "lru_laws cget cset" "cache_ok from_str apply_patch cget L c" "noCache \<or> w = None \<or> w = Some []"
    and "(if ok \<and> \<not> noCache then getCache cget c t None else (None, c)) = (r, c1)"
  shows "cache_ok from_str apply_patch cget L c1" "r = Some d \<Longrightarrow> ok \<and> d = spec_value from_str apply_patch L w {t}"
proof -
  show "cache_ok from_str apply_patch cget L c1"
    using assms getCache_ok(1)[OF assms(1,2)] by (auto split: if_splits)
  assume r: "r = Some d"
  then have ok: "ok" "\<not> noCache" and g: "getCache cget c t None = (r, c1)" using assms(4) by (auto split: if_splits)
  then have w: "w = None \<or> w = Some []" using assms(3) by blast
  show "ok \<and> d = spec_value from_str apply_patch L w {t}"
    using getCache_ok(2)[OF assms(1,2) g r] ok(1) apply_from_no_without[OF w, of from_str apply_patch L]
    by (simp add: spec_value_def)
qed

lemma patch_value_ok:
  assumes "lru_laws cget cset" "timely_table n L" "live_closed L" "cache_ok from_str apply_patch cget L c"
    and "\<And>t. time = Some t \<Longrightarrow> obj_get L t \<noteq> None"
  shows "\<exists>c'. patch_value from_str apply_patch cget cset L time ws noCache c =
      (Inr (spec_value from_str apply_patch L (left_out time ws) (asked L time)), c') \<and>
    cache_ok from_str apply_patch cget L c'"
proof -
  let ?w = "left_out time ws"
  let ?no = "noCache \<or> (?w \<noteq> None \<and> ?w \<noteq> Some [])"
  have no: "?no \<or> ?w = None \<or> ?w = Some []" by auto
  note known = value_of_known_ok[OF assms(1-3)]
  show ?thesis
  proof (cases time)
    case (Some t)
    have t: "obj_get L t \<noteq> None" "set [t] \<subseteq> dom (obj_get L)" using assms(5)[OF Some] by auto
    obtain r c1 where g: "(if True \<and> \<not> ?no then getCache cget c t None else (None, c)) = (r, c1)" by fastforce
    note hit = cache_hit_ok[OF assms(1,4) no g]
    have unfold: "patch_value from_str apply_patch cget cset L time ws noCache c =
        (case r of Some d \<Rightarrow> (Inr d, c1)
         | None \<Rightarrow> value_of_known from_str apply_patch cget cset L time ?w ?no (knownTimes L [t]) c1)"
      using Some t(1) g unfolding patch_value_def Let_def left_out_def[symmetric] by (auto split: option.split)
    show ?thesis
    proof (cases r)
      case None
      then show ?thesis using known[OF t(2) hit(1) _ no, of time] unfold Some by (simp add: asked_def)
    next
      case (Some d)
      then show ?thesis using hit unfold \<open>time = Some t\<close> by (simp add: asked_def)
    qed
  next
    case None
    show ?thesis
    proof (cases "getHeads L = []")
      case True
      have "patch_value from_str apply_patch cget cset L time ws noCache c = (Inr (from_str ''''), c)"
        using None True by (simp add: patch_value_def value_of_known_def value_of_times_def)
      moreover have "known L {} = {}" by (simp add: known_def)
      ultimately show ?thesis using None True assms(4) by (simp add: asked_def spec_value_def apply_from_def)
    next
      case False
      obtain r c1 where g: "(if length (getHeads L) = 1 \<and> \<not> ?no then getCache cget c (hd (getHeads L)) None else (None, c)) = (r, c1)"
        by fastforce
      note hit = cache_hit_ok[OF assms(1,4) no g]
      have unfold: "patch_value from_str apply_patch cget cset L time ws noCache c =
          (case r of Some d \<Rightarrow> (Inr d, c1)
           | None \<Rightarrow> value_of_known from_str apply_patch cget cset L time ?w ?no (knownTimes L (getHeads L)) c1)"
        using None False g unfolding patch_value_def Let_def left_out_def[symmetric] by (simp split: option.split)
      show ?thesis
      proof (cases r)
        case no_hit: None
        then show ?thesis using known[OF heads_in_table hit(1) _ no, of time] unfold None by (simp add: asked_def)
      next
        case (Some d)
        then have "length (getHeads L) = 1" using hit(2) by blast
        then have "set (getHeads L) = {hd (getHeads L)}" by (cases "getHeads L") auto
        then show ?thesis using hit Some unfold None by (simp add: asked_def)
      qed
    qed
  qed
qed

end
