(* ===== verification/PatchAdd.thy ===== *)
theory PatchAdd
  imports PatchValue
begin

text \<open>
  What \<open>add\<close> of \<^verbatim>\<open>packages/sync/editor/generic/sorted-patch-list.ts\<close> keeps: the live patches are
  closed under parents up to snapshots, \<open>this.patches\<close> is the sorted list of the live times and
  the cache of \<open>versions\<close> is that list; live patches are never lost. Then the properties of the
  patch list under sequences of \<open>add\<close> and \<open>value\<close>.
\<close>

section \<open>Tables\<close>

lemma distinct_keys_set: "distinct (keys t) \<Longrightarrow> distinct (keys (obj_set k v t))"
  by (simp add: distinct_update)

lemma distinct_keys_del: "distinct (keys t) \<Longrightarrow> distinct (keys (obj_del k t))"
  by (simp add: distinct_delete)

section \<open>Sorting\<close>

lemma insert_by_insort: "(\<And>y. y \<in> set ys \<Longrightarrow> c x y \<le> 0 \<longleftrightarrow> x \<le> y) \<Longrightarrow> insert_by c x ys = insort x ys"
  by (induction ys) auto

lemma sort_by_sort:
  "(\<And>x y. x \<in> set xs \<Longrightarrow> y \<in> set xs \<Longrightarrow> c x y \<le> 0 \<longleftrightarrow> x \<le> y) \<Longrightarrow> sort_by c xs = sort xs"
proof (induction xs)
  case (Cons x xs)
  then have "sort_by c xs = sort xs" by simp
  moreover have "insert_by c x (sort xs) = insort x (sort xs)" by (rule insert_by_insort) (use Cons.prems in auto)
  ultimately show ?case by (simp add: sort_by_def)
qed (simp add: sort_by_def)

lemma sort_patches_sort:
  assumes "timely_table n L" "set ts \<subseteq> dom (obj_get L)"
  shows "sort_patches L ts = sort ts"
  unfolding sort_patches_def
proof (rule sort_by_sort)
  fix a b assume "a \<in> set ts" "b \<in> set ts"
  then obtain p q where "obj_get L a = Some p" "obj_get L b = Some q" using assms(2) by blast
  moreover from this have "p_time p = a" "p_time q = b" using assms(1) by (auto simp: timely_table_def)
  moreover have "patch_cmp p p = 0" for p :: "'a patch"
    by (cases "p_version p") (simp_all add: patch_cmp_def cmp_def cmp_version_def)
  ultimately show "patch_cmp (the (obj_get L a)) (the (obj_get L b)) \<le> 0 \<longleftrightarrow> a \<le> b"
    by (cases a b rule: linorder_cases) (auto simp: patch_cmp_def cmp_def)
qed

section \<open>One round of moving patches from staging to live\<close>

text \<open>What holds of live, staging and the new patches while a round runs that began with \<open>L\<close> and \<open>S\<close>.\<close>

definition moving_ok :: "'p table \<Rightarrow> 'p table \<Rightarrow> 'p moving \<Rightarrow> bool" where
  "moving_ok L S m \<longleftrightarrow> (case m of (L', S', v) \<Rightarrow>
     obj_get L \<subseteq>\<^sub>m obj_get L' \<and>
     obj_get L' ++ obj_get S' = obj_get L ++ obj_get S \<and>
     dom (obj_get L') \<inter> dom (obj_get S') = {} \<and>
     dom (obj_get L') = dom (obj_get L) \<union> dom (obj_get v) \<and> dom (obj_get L) \<inter> dom (obj_get v) = {} \<and>
     distinct (keys L') \<and> distinct (keys S') \<and> distinct (keys v))"

lemma moving_ok_start:
  "dom (obj_get L) \<inter> dom (obj_get S) = {} \<Longrightarrow> distinct (keys L) \<Longrightarrow> distinct (keys S) \<Longrightarrow> moving_ok L S (L, S, [])"
  by (simp add: moving_ok_def)

lemma move_time_ok:
  assumes "moving_ok L S m"
  shows "moving_ok L S (move_time m t) \<and> dom (obj_get (fst m)) \<subseteq> dom (obj_get (fst (move_time m t))) \<and>
    (t \<in> dom (obj_get L ++ obj_get S) \<longrightarrow> t \<in> dom (obj_get (fst (move_time m t)))) \<and>
    dom (obj_get (fst (move_time m t))) \<subseteq> insert t (dom (obj_get (fst m)))"
proof -
  obtain L' S' v where m: "m = (L', S', v)" by (cases m)
  have ok: "obj_get L \<subseteq>\<^sub>m obj_get L'" "obj_get L' ++ obj_get S' = obj_get L ++ obj_get S"
      "dom (obj_get L') \<inter> dom (obj_get S') = {}" "dom (obj_get L') = dom (obj_get L) \<union> dom (obj_get v)"
      "dom (obj_get L) \<inter> dom (obj_get v) = {}" "distinct (keys L')" "distinct (keys S')" "distinct (keys v)"
    using assms unfolding moving_ok_def m prod.case by blast+
  show ?thesis
  proof (cases "obj_get L' t = None \<and> obj_get S' t \<noteq> None")
    case True
    then obtain p where p: "obj_get L' t = None" "obj_get S' t = Some p" by auto
    have mv: "move_time m t = (obj_set t p L', obj_del t S', obj_set t p v)" using p by (simp add: m move_time_def)
    have sets: "obj_get (obj_set t p L') = (obj_get L')(t \<mapsto> p)" "obj_get (obj_set t p v) = (obj_get v)(t \<mapsto> p)"
        "obj_get (obj_del t S') = (obj_get S')(t := None)"
      by (simp_all add: update_conv' delete_conv')
    have "t \<notin> dom (obj_get L)" using ok(4) p(1) by blast
    then have "obj_get L \<subseteq>\<^sub>m (obj_get L')(t \<mapsto> p)" using ok(1) unfolding map_le_def by (metis fun_upd_other)
    moreover have "(obj_get L')(t \<mapsto> p) ++ (obj_get S')(t := None) = obj_get L ++ obj_get S"
      unfolding ok(2)[symmetric] using p by (auto simp: fun_eq_iff map_add_def split: option.splits)
    moreover have "dom ((obj_get L')(t \<mapsto> p)) \<inter> dom ((obj_get S')(t := None)) = {}"
        "dom ((obj_get L')(t \<mapsto> p)) = dom (obj_get L) \<union> dom ((obj_get v)(t \<mapsto> p))"
        "dom (obj_get L) \<inter> dom ((obj_get v)(t \<mapsto> p)) = {}"
      using ok(3-5) \<open>t \<notin> dom (obj_get L)\<close> by auto
    ultimately have "moving_ok L S (obj_set t p L', obj_del t S', obj_set t p v)"
      using ok(6-8)[THEN distinct_keys_set] ok(6-8)[THEN distinct_keys_del] unfolding moving_ok_def prod.case sets by blast
    then show ?thesis using mv by (auto simp: m sets)
  next
    case False
    then have mv: "move_time m t = m" by (auto simp: m move_time_def split: option.splits)
    have "t \<in> dom (obj_get L ++ obj_get S) \<Longrightarrow> t \<in> dom (obj_get L')"
      using False ok(2) by (metis domD domIff map_add_None)
    then show ?thesis using assms mv by (auto simp: m)
  qed
qed

lemma move_times_ok:
  assumes "moving_ok L S m" "set ts \<subseteq> dom (obj_get L ++ obj_get S)"
  shows "moving_ok L S (foldl move_time m ts) \<and>
    dom (obj_get (fst (foldl move_time m ts))) = dom (obj_get (fst m)) \<union> set ts"
  using assms
proof (induction ts arbitrary: m)
  case (Cons t ts)
  have "moving_ok L S (foldl move_time (move_time m t) ts) \<and>
      dom (obj_get (fst (foldl move_time (move_time m t) ts))) = dom (obj_get (fst (move_time m t))) \<union> set ts"
    using Cons move_time_ok[OF Cons.prems(1), of t] by auto
  moreover have "dom (obj_get (fst (move_time m t))) = insert t (dom (obj_get (fst m)))"
    using move_time_ok[OF Cons.prems(1), of t] Cons.prems(2) by auto
  ultimately show ?case by auto
qed simp

lemma is_complete_iff:
  "is_complete G ts \<longleftrightarrow> (\<forall>t \<in> set ts. \<exists>p. obj_get G t = Some p \<and> (isSnapshot p \<or> set (parents_of p) \<subseteq> dom (obj_get G)))"
  by (induction ts) (auto split: option.splits)

lemma known_complete:
  assumes "is_complete G ts" "set ts = known G hs"
  shows "known G hs \<subseteq> dom (obj_get G)"
  using assms by (auto simp: is_complete_iff)

text \<open>The live table is closed between two heads.\<close>

lemma move_head_ok:
  assumes "moving_ok L S m" "live_closed (fst m)" "distinct (keys S)"
  shows "moving_ok L S (move_head (merge_obj L S) m h) \<and> live_closed (fst (move_head (merge_obj L S) m h))"
proof -
  let ?G = "merge_obj L S"
  have G: "obj_get ?G = obj_get L ++ obj_get S" using get_merge[OF assms(3)] .
  obtain ts where ts: "getTimesWithHeads ?G [h] False = Inr ts"
    using times_loop_total[of False ?G "rev [h]" "[]"] unfolding getTimesWithHeads_def by blast
  have known_ts: "set ts = known ?G {h}" using getTimesWithHeads_eq(2)[OF ts] by simp
  show ?thesis
  proof (cases "is_complete ?G ts")
    case True
    let ?m = "foldl move_time m ts"
    have "set ts \<subseteq> dom (obj_get L ++ obj_get S)" using known_complete[OF True known_ts] known_ts G by simp
    from move_times_ok[OF assms(1) this]
    have ok: "moving_ok L S ?m" "dom (obj_get (fst ?m)) = dom (obj_get (fst m)) \<union> set ts" by auto
    have same: "obj_get T t = obj_get ?G t" if "moving_ok L S (T, U, v)" "t \<in> dom (obj_get T)" for T U v t
    proof -
      have "obj_get T ++ obj_get U = obj_get ?G" "t \<notin> dom (obj_get U)"
        using that unfolding moving_ok_def G prod.case by blast+
      then show ?thesis by (metis map_add_dom_app_simps(3))
    qed
    have edges_G: "edges T `` {t} = edges ?G `` {t}" if "moving_ok L S (T, U, v)" "t \<in> dom (obj_get T)" for T U v t
      using same[OF that] by (simp add: edges_image)
    have "edges (fst ?m) `` {t} \<subseteq> dom (obj_get (fst ?m))" if t: "t \<in> dom (obj_get (fst ?m))" for t
    proof (cases "t \<in> set ts")
      case True
      have "edges ?G `` {t} \<subseteq> set ts" using known_closed[of ?G "{h}"] True known_ts by auto
      then show ?thesis using edges_G[of "fst ?m" "fst (snd ?m)" "snd (snd ?m)" t] ok t by auto
    next
      case False
      then have old: "t \<in> dom (obj_get (fst m))" using t ok(2) by auto
      have "edges (fst ?m) `` {t} = edges (fst m) `` {t}"
        using edges_G[of "fst ?m" "fst (snd ?m)" "snd (snd ?m)" t] edges_G[of "fst m" "fst (snd m)" "snd (snd m)" t]
          ok(1) assms(1) t old by simp
      then show ?thesis using assms(2) old ok(2) unfolding live_closed_def by blast
    qed
    then have "live_closed (fst ?m)" unfolding live_closed_def by blast
    then show ?thesis using ok(1) True ts by (simp add: move_head_def)
  next
    case False
    then show ?thesis using assms ts by (simp add: move_head_def)
  qed
qed

lemma move_round_ok:
  assumes "dom (obj_get L) \<inter> dom (obj_get S) = {}" "distinct (keys L)" "distinct (keys S)" "live_closed L"
  shows "moving_ok L S (move_round L S) \<and> live_closed (fst (move_round L S))"
proof -
  have "moving_ok L S m \<Longrightarrow> live_closed (fst m) \<Longrightarrow>
      moving_ok L S (foldl (move_head (merge_obj L S)) m hs) \<and> live_closed (fst (foldl (move_head (merge_obj L S)) m hs))"
    for m and hs :: "nat list"
    using move_head_ok[OF _ _ assms(3)] by (induction hs arbitrary: m) auto
  then show ?thesis using moving_ok_start[OF assms(1-3)] assms(4) by (simp add: move_round_def)
qed

section \<open>The invariant of the patch list\<close>

definition plist_ok :: "nat \<Rightarrow> ('p, 'c) plist \<Rightarrow> bool" where
  "plist_ok n s \<longleftrightarrow>
     timely_table n (live s) \<and> timely_table n (staging s) \<and> live_closed (live s) \<and>
     dom (obj_get (live s)) \<inter> dom (obj_get (staging s)) = {} \<and>
     distinct (keys (live s)) \<and> distinct (keys (staging s)) \<and>
     patches s = sorted_list_of_set (dom (obj_get (live s))) \<and>
     (\<forall>v. versions_cache s = Some v \<longrightarrow> v = patches s) \<and>
     (\<forall>t \<in> dom (obj_get (live s)) \<union> dom (obj_get (staging s)). t \<le> maxTime s)"

lemma plist_ok_new: "plist_ok n (new_plist c)"
  by (simp add: plist_ok_def new_plist_def timely_table_def live_closed_def)

text \<open>What a step of \<open>add\<close> leaves alone, and what it may extend.\<close>

definition grows :: "('p, 'c) plist \<Rightarrow> ('p, 'c) plist \<Rightarrow> bool" where
  "grows s s' \<longleftrightarrow> obj_get (live s) \<subseteq>\<^sub>m obj_get (live s') \<and> cache s' = cache s"

lemma grows_trans: "grows s s' \<Longrightarrow> grows s' s'' \<Longrightarrow> grows s s''"
  unfolding grows_def by (metis map_le_trans)

lemma timely_table_sub:
  assumes "obj_get T ++ obj_get U = obj_get L ++ obj_get S" "dom (obj_get T) \<inter> dom (obj_get U) = {}"
    and "timely_table n L" "timely_table n S"
  shows "timely_table n T" "timely_table n U"
proof -
  have all: "p_time p = t \<and> timely n p" if "(obj_get L ++ obj_get S) t = Some p" for t p
    using that assms(3,4) by (auto simp: timely_table_def map_add_Some_iff)
  have "(obj_get T ++ obj_get U) t = Some p" if "obj_get T t = Some p" for t p
    using that assms(2) by (metis disjoint_iff domI map_add_dom_app_simps(3))
  then show "timely_table n T" using all assms(1) unfolding timely_table_def by metis
  show "timely_table n U" using all assms(1) unfolding timely_table_def by (metis map_add_find_right)
qed

lemma sorted_list_union:
  assumes "distinct xs" "distinct ys" "set xs \<inter> set ys = {}"
  shows "sort (xs @ ys) = sorted_list_of_set (set xs \<union> set ys)"
proof -
  have "sorted_list_of_set (set (xs @ ys)) = sort (remdups (xs @ ys))" by (rule sorted_list_of_set_sort_remdups)
  then show ?thesis using assms by (simp add: distinct_remdups_id)
qed

lemma round_ok:
  assumes "plist_ok n s" "move_round (live s) (staging s) = (L', S', v)"
  shows "plist_ok n (s\<lparr>live := L', staging := S', versions_cache := None,
      patches := sort_patches L' (patches s @ js_keys v)\<rparr>)"
    and "obj_get (live s) \<subseteq>\<^sub>m obj_get L'"
    and "v = [] \<Longrightarrow> plist_ok n (s\<lparr>live := L', staging := S'\<rparr>)"
proof -
  have s: "timely_table n (live s)" "timely_table n (staging s)" "live_closed (live s)"
      "dom (obj_get (live s)) \<inter> dom (obj_get (staging s)) = {}" "distinct (keys (live s))" "distinct (keys (staging s))"
      "patches s = sorted_list_of_set (dom (obj_get (live s)))" "\<forall>v. versions_cache s = Some v \<longrightarrow> v = patches s"
      "\<forall>t \<in> dom (obj_get (live s)) \<union> dom (obj_get (staging s)). t \<le> maxTime s"
    using assms(1) unfolding plist_ok_def by blast+
  have "moving_ok (live s) (staging s) (L', S', v) \<and> live_closed L'"
    using move_round_ok[OF s(4-6,3)] assms(2) by simp
  then have m: "obj_get (live s) \<subseteq>\<^sub>m obj_get L'" "obj_get L' ++ obj_get S' = obj_get (live s) ++ obj_get (staging s)"
      "dom (obj_get L') \<inter> dom (obj_get S') = {}" "dom (obj_get L') = dom (obj_get (live s)) \<union> dom (obj_get v)"
      "dom (obj_get (live s)) \<inter> dom (obj_get v) = {}" "distinct (keys L')" "distinct (keys S')" "distinct (keys v)"
      "live_closed L'"
    unfolding moving_ok_def prod.case by blast+
  show "obj_get (live s) \<subseteq>\<^sub>m obj_get L'" by (rule m(1))
  note timely = timely_table_sub[OF m(2,3) s(1,2)]
  have fin: "finite (dom (obj_get (live s)))" by (rule finite_dom_map_of)
  have set_p: "set (patches s) = dom (obj_get (live s))" using s(7) fin by simp
  have "set (patches s @ js_keys v) = dom (obj_get L')" using m(4) set_p by (simp add: set_js_keys)
  then have "sort_patches L' (patches s @ js_keys v) = sort (patches s @ js_keys v)"
    by (intro sort_patches_sort[OF timely(1)]) simp
  also have "\<dots> = sorted_list_of_set (set (patches s) \<union> set (js_keys v))"
    using s(7) fin m(5,8) set_p by (intro sorted_list_union) (simp_all add: set_js_keys distinct_js_keys)
  finally have sorted: "sort_patches L' (patches s @ js_keys v) = sorted_list_of_set (dom (obj_get L'))"
    using m(4) set_p by (simp add: set_js_keys)
  have "dom (obj_get L') \<union> dom (obj_get S') = dom (obj_get (live s)) \<union> dom (obj_get (staging s))"
    using arg_cong[OF m(2), of dom] by (simp add: Un_commute)
  then have bound: "\<forall>t \<in> dom (obj_get L') \<union> dom (obj_get S'). t \<le> maxTime s" using s(9) by blast
  show "plist_ok n (s\<lparr>live := L', staging := S', versions_cache := None,
      patches := sort_patches L' (patches s @ js_keys v)\<rparr>)"
    using timely m(3,6,7,9) sorted bound unfolding plist_ok_def by simp
  assume "v = []"
  then have "dom (obj_get L') = dom (obj_get (live s))" using m(4) by simp
  then show "plist_ok n (s\<lparr>live := L', staging := S'\<rparr>)"
    using timely m(3,6,7,9) s(7,8) bound unfolding plist_ok_def by simp
qed

lemma add_loop_ok: "plist_ok n s \<Longrightarrow> plist_ok n (add_loop s) \<and> grows s (add_loop s)"
proof (induction s rule: add_loop.induct)
  case (1 s)
  obtain L' S' v where m: "move_round (live s) (staging s) = (L', S', v)" by (cases "move_round (live s) (staging s)")
  note round = round_ok[OF 1(2) m]
  let ?s = "s\<lparr>live := L', staging := S', versions_cache := None, patches := sort_patches L' (patches s @ js_keys v)\<rparr>"
  show ?case
  proof (cases "getHeads (staging s) = [] \<or> v = []")
    case True
    then show ?thesis using 1(2) round m by (subst (1 2) add_loop.simps) (auto simp: grows_def)
  next
    case False
    then have "add_loop s = add_loop ?s" using m by (subst add_loop.simps) simp
    moreover have "plist_ok n (add_loop ?s) \<and> grows ?s (add_loop ?s)" using 1(1)[OF _ m[symmetric]] False round(1) m by auto
    moreover have "grows s ?s" using round(2) by (simp add: grows_def)
    ultimately show ?thesis using grows_trans by metis
  qed
qed

lemma timely_with_snapshot [simp]: "timely n (with_snapshot x p) = timely n p" "p_time (with_snapshot x p) = p_time p"
  "parents_of (with_snapshot x p) = parents_of p" "p_is_snapshot (with_snapshot x p)"
  by (simp_all add: timely_def with_snapshot_def parents_of_def)

lemma timely_table_set:
  "timely_table n T \<Longrightarrow> timely n p \<Longrightarrow> p_time p = t \<Longrightarrow> timely_table n (obj_set t p T)"
  by (auto simp: timely_table_def update_conv')

lemma live_closed_snapshot:
  assumes "live_closed L" "obj_get L t = Some p"
  shows "live_closed (obj_set t (with_snapshot x p) L)"
proof -
  have "edges (obj_set t (with_snapshot x p) L) `` {u} \<subseteq> edges L `` {u}" for u
    by (auto simp: edges_image update_conv')
  moreover have "dom (obj_get (obj_set t (with_snapshot x p) L)) = dom (obj_get L)"
    using assms(2) by (auto simp: update_conv')
  ultimately show ?thesis using assms(1) unfolding live_closed_def by blast
qed

lemma add_snapshot_ok:
  assumes "plist_ok n s"
  shows "plist_ok n (add_snapshot x s)"
proof -
  let ?t = "p_time x"
  have dom_set: "obj_get T t \<noteq> None \<Longrightarrow> dom (obj_get (obj_set t p T)) = dom (obj_get T)" for t p and T :: "'a table"
    by (auto simp: update_conv')
  have s: "timely_table n (live s)" "timely_table n (staging s)" "live_closed (live s)"
      "dom (obj_get (live s)) \<inter> dom (obj_get (staging s)) = {}" "distinct (keys (live s))" "distinct (keys (staging s))"
      "patches s = sorted_list_of_set (dom (obj_get (live s)))" "\<forall>v. versions_cache s = Some v \<longrightarrow> v = patches s"
      "\<forall>t \<in> dom (obj_get (live s)) \<union> dom (obj_get (staging s)). t \<le> maxTime s"
    using assms unfolding plist_ok_def by blast+
  have L: "plist_ok n (s\<lparr>live := obj_set ?t (with_snapshot x p) (live s)\<rparr>)" if "obj_get (live s) ?t = Some p" for p
  proof -
    have "timely_table n (obj_set ?t (with_snapshot x p) (live s))"
      using s(1) that by (intro timely_table_set) (auto simp: timely_table_def)
    then show ?thesis
      using s live_closed_snapshot[OF s(3) that] dom_set[of "live s" ?t] that distinct_keys_set[OF s(5)]
      unfolding plist_ok_def by simp
  qed
  have S: "plist_ok n (s\<lparr>staging := obj_set ?t (with_snapshot x p) (staging s)\<rparr>)" if "obj_get (staging s) ?t = Some p" for p
  proof -
    have "timely_table n (obj_set ?t (with_snapshot x p) (staging s))"
      using s(2) that by (intro timely_table_set) (auto simp: timely_table_def)
    then show ?thesis
      using s dom_set[of "staging s" ?t] that distinct_keys_set[OF s(6)] unfolding plist_ok_def by simp
  qed
  have H: "plist_ok n (u\<lparr>heldSnapshots := h\<rparr>) = plist_ok n u" "plist_ok n (u\<lparr>oldestSnapshot := q\<rparr>) = plist_ok n u"
    for u :: "('a, 'b) plist" and h q by (simp_all add: plist_ok_def)
  show ?thesis
    unfolding add_snapshot_def Let_def by (auto simp: H assms L S split: option.split)
qed

lemma stage_patch_ok:
  assumes "plist_ok n s" "timely n x" "obj_get (live s) (p_time x) = None" "p_time x \<le> maxTime s"
  shows "plist_ok n (stage_patch x s)"
proof -
  let ?t = "p_time x"
  have S: "plist_ok n (s\<lparr>heldSnapshots := h, staging := obj_set ?t p (staging s)\<rparr>)" if "timely n p" "p_time p = ?t" for p h
  proof -
    have "dom (obj_get (obj_set ?t p (staging s))) = insert ?t (dom (obj_get (staging s)))" by (simp add: update_conv')
    then show ?thesis
      using assms timely_table_set[OF _ that] distinct_keys_set unfolding plist_ok_def by auto
  qed
  have "plist_ok n (s\<lparr>staging := u\<rparr>) = plist_ok n (s\<lparr>heldSnapshots := heldSnapshots s, staging := u\<rparr>)" for u by simp
  then have "plist_ok n (s\<lparr>staging := obj_set ?t x (staging s)\<rparr>)" using S[OF assms(2) refl] by metis
  then show ?thesis using S assms(2) by (auto simp: stage_patch_def Let_def split: option.split)
qed

lemma add_one_ok:
  assumes "plist_ok n s" "p_is_snapshot x \<or> timely n x"
  shows "plist_ok n (add_one s x)"
proof -
  have s0: "plist_ok n (s\<lparr>maxTime := max (maxTime s) (p_time x)\<rparr>)"
    using assms(1) by (auto simp: plist_ok_def le_max_iff_disj)
  show ?thesis
    using s0 add_snapshot_ok[OF s0, of x] stage_patch_ok[OF s0] assms(2)
    by (auto simp: add_one_def Let_def)
qed

lemma add_patches_ok:
  assumes "plist_ok n s" "\<forall>x \<in> set ps. p_is_snapshot x \<or> timely n x"
  shows "plist_ok n (add_patches ps s)"
proof -
  have "plist_ok n (foldl add_one s ps)"
    using assms by (induction ps arbitrary: s) (simp_all add: add_one_ok)
  then show ?thesis using assms(1) add_loop_ok by (auto simp: add_patches_def)
qed

section \<open>Growing tables do not change values\<close>

lemma edges_grow: "obj_get L \<subseteq>\<^sub>m obj_get L' \<Longrightarrow> t \<in> dom (obj_get L) \<Longrightarrow> edges L' `` {t} = edges L `` {t}"
  by (simp add: edges_image map_le_def)

lemma known_grow:
  assumes "obj_get L \<subseteq>\<^sub>m obj_get L'" "live_closed L" "hs \<subseteq> dom (obj_get L)"
  shows "known L' hs = known L hs"
proof
  have sub: "known L hs \<subseteq> dom (obj_get L)" using known_in_closed[OF assms(2,3)] .
  show "known L' hs \<subseteq> known L hs"
  proof (rule known_least[OF known_self])
    have "edges L' `` {t} \<subseteq> known L hs" if "t \<in> known L hs" for t
      using edges_grow[OF assms(1), of t] sub that known_closed[of L hs] by blast
    then show "edges L' `` known L hs \<subseteq> known L hs" by blast
  qed
  have "edges L \<subseteq> edges L'"
    using assms(1) by (force simp: edges_def map_le_def dom_def)
  then show "known L hs \<subseteq> known L' hs" unfolding known_def by (intro Image_mono rtrancl_mono) auto
qed

lemma apply_from_grow:
  assumes "obj_get L \<subseteq>\<^sub>m obj_get L'" "set v \<subseteq> dom (obj_get L)"
  shows "apply_from from_str apply_patch L' w v = apply_from from_str apply_patch L w v"
proof (cases v)
  case (Cons t ts)
  have same: "obj_get L' u = obj_get L u" if "u \<in> set v" for u
    using assms that by (metis map_le_def subsetD)
  have "foldl (\<lambda>d t. if is_without w t then d else apply_patch d (p_patch (the (obj_get L' t)))) d us =
      foldl (\<lambda>d t. if is_without w t then d else apply_patch d (p_patch (the (obj_get L t)))) d us"
    if "set us \<subseteq> set v" for d us
    using same that by (intro foldl_cong) auto
  then have "apply_times apply_patch L' w d us = apply_times apply_patch L w d us" if "set us \<subseteq> set v" for d us
    using that unfolding apply_times_def by blast
  then show ?thesis using Cons same[of t]
    by (auto simp: apply_from_def start_value_def split: option.split)
qed (simp add: apply_from_def)

lemma spec_value_grow:
  assumes "obj_get L \<subseteq>\<^sub>m obj_get L'" "live_closed L" "hs \<subseteq> dom (obj_get L)"
  shows "spec_value from_str apply_patch L' w hs = spec_value from_str apply_patch L w hs"
proof -
  have "finite (known L hs)" using known_finite[OF assms(2,3)] .
  then have "set (sorted_list_of_set (known L hs)) \<subseteq> dom (obj_get L)" using known_in_closed[OF assms(2,3)] by simp
  then show ?thesis using known_grow[OF assms] apply_from_grow[OF assms(1)] by (simp add: spec_value_def)
qed

lemma cache_ok_grow:
  assumes "cache_ok from_str apply_patch cget L c" "obj_get L \<subseteq>\<^sub>m obj_get L'" "live_closed L"
  shows "cache_ok from_str apply_patch cget L' c"
  unfolding cache_ok_def
proof (intro allI impI)
  fix t d n
  assume "fst (cget c t) = Some (d, n)"
  then have ok: "obj_get L t \<noteq> None" "d = spec_value from_str apply_patch L None {t}" "n = card (known L {t})"
    using assms(1) unfolding cache_ok_def by blast+
  then have t: "{t} \<subseteq> dom (obj_get L)" by auto
  show "obj_get L' t \<noteq> None \<and> d = spec_value from_str apply_patch L' None {t} \<and> n = card (known L' {t})"
    using ok spec_value_grow[OF assms(2,3) t] known_grow[OF assms(2,3) t] assms(2) t
    by (metis domIff insert_subset map_le_def)
qed

text \<open>
  Messages that do not turn a patch that is already live into a snapshot; snapshots of patches
  that are not yet known or not yet live are allowed.
\<close>

definition calm :: "('p, 'c) plist \<Rightarrow> 'p patch list \<Rightarrow> bool" where
  "calm s ps \<longleftrightarrow> (\<forall>x \<in> set ps. p_is_snapshot x \<longrightarrow> obj_get (live s) (p_time x) = None)"

lemma add_one_calm:
  assumes "calm s [x]"
  shows "live (add_one s x) = live s" "cache (add_one s x) = cache s"
proof -
  have x: "p_is_snapshot x \<Longrightarrow> obj_get (live s) (p_time x) = None" using assms by (simp add: calm_def)
  show "live (add_one s x) = live s" "cache (add_one s x) = cache s"
    using x by (auto simp: add_one_def add_snapshot_def stage_patch_def Let_def split: option.splits)
qed

lemma add_patches_calm:
  assumes "plist_ok n s" "\<forall>x \<in> set ps. p_is_snapshot x \<or> timely n x" "calm s ps"
  shows "grows s (add_patches ps s)"
proof -
  have "plist_ok n (foldl add_one s ps) \<and> live (foldl add_one s ps) = live s \<and> cache (foldl add_one s ps) = cache s"
    using assms
  proof (induction ps arbitrary: s)
    case (Cons x ps)
    have x: "live (add_one s x) = live s" "cache (add_one s x) = cache s"
      using add_one_calm[of s x] Cons.prems(3) by (auto simp: calm_def)
    then have "calm (add_one s x) ps" using Cons.prems(3) by (auto simp: calm_def)
    then show ?case using Cons.IH[of "add_one s x"] add_one_ok[OF Cons.prems(1), of x] Cons.prems(2) x by simp
  qed simp
  then show ?thesis using add_loop_ok[of n "foldl add_one s ps"] by (auto simp: add_patches_def grows_def)
qed

section \<open>Sessions\<close>

text \<open>The messages that a client adds and the values that it asks for, in any order.\<close>

inductive session ::
    "(string \<Rightarrow> 'd) \<Rightarrow> ('d \<Rightarrow> 'p option \<Rightarrow> 'd) \<Rightarrow> ('c \<Rightarrow> nat \<Rightarrow> ('d \<times> nat) option \<times> 'c) \<Rightarrow>
     ('c \<Rightarrow> nat \<Rightarrow> 'd \<times> nat \<Rightarrow> 'c) \<Rightarrow> nat \<Rightarrow> ('p, 'c) plist \<Rightarrow> ('p, 'c) plist \<Rightarrow> bool"
  for from_str apply_patch cget cset n where
  session_add: "\<forall>x \<in> set ps. p_is_snapshot x \<or> timely n x \<Longrightarrow> calm s ps \<Longrightarrow>
    session from_str apply_patch cget cset n s (add_patches ps s)"
| session_value: "session from_str apply_patch cget cset n s
    (snd (plist_value from_str apply_patch cget cset time ws noCache s))"

inductive_cases sessionE: "session from_str apply_patch cget cset n s s'"

definition session_ok ::
    "(string \<Rightarrow> 'd) \<Rightarrow> ('d \<Rightarrow> 'p option \<Rightarrow> 'd) \<Rightarrow> ('c \<Rightarrow> nat \<Rightarrow> ('d \<times> nat) option \<times> 'c) \<Rightarrow> nat \<Rightarrow> ('p, 'c) plist \<Rightarrow> bool" where
  "session_ok from_str apply_patch cget n s \<longleftrightarrow> plist_ok n s \<and> cache_ok from_str apply_patch cget (live s) (cache s)"

lemma plist_ok_parts: "plist_ok n s \<Longrightarrow> timely_table n (live s) \<and> live_closed (live s)"
  by (simp add: plist_ok_def)

lemma plist_value_ok:
  assumes "lru_laws cget cset" "session_ok from_str apply_patch cget n s"
    and "\<And>t. time = Some t \<Longrightarrow> obj_get (live s) t \<noteq> None"
  shows "\<exists>c. plist_value from_str apply_patch cget cset time ws noCache s =
      (Inr (spec_value from_str apply_patch (live s) (left_out time ws) (asked (live s) time)), s\<lparr>cache := c\<rparr>) \<and>
    cache_ok from_str apply_patch cget (live s) c"
proof -
  have "timely_table n (live s)" "live_closed (live s)" "cache_ok from_str apply_patch cget (live s) (cache s)"
    using assms(2) plist_ok_parts by (auto simp: session_ok_def)
  from patch_value_ok[OF assms(1) this, of time ws noCache] obtain c where
    "patch_value from_str apply_patch cget cset (live s) time ws noCache (cache s) =
      (Inr (spec_value from_str apply_patch (live s) (left_out time ws) (asked (live s) time)), c)"
    "cache_ok from_str apply_patch cget (live s) c"
    using assms(3) by blast
  then show ?thesis unfolding plist_value_def by auto
qed

lemma plist_value_unknown:
  "obj_get (live s) t = None \<Longrightarrow>
     plist_value from_str apply_patch cget cset (Some t) ws noCache s = (Inl (UnknownTime t), s)"
  by (simp add: plist_value_def patch_value_def Let_def)

lemma session_keeps:
  assumes "session from_str apply_patch cget cset n s s'" "lru_laws cget cset" "session_ok from_str apply_patch cget n s"
  shows "session_ok from_str apply_patch cget n s' \<and> obj_get (live s) \<subseteq>\<^sub>m obj_get (live s')"
  using assms(1)
proof (rule sessionE)
  fix ps
  assume ps: "s' = add_patches ps s" "\<forall>x \<in> set ps. p_is_snapshot x \<or> timely n x" "calm s ps"
  have ok: "plist_ok n s" "cache_ok from_str apply_patch cget (live s) (cache s)" using assms(3) by (auto simp: session_ok_def)
  have g: "grows s s'" unfolding ps(1) by (rule add_patches_calm[OF ok(1) ps(2,3)])
  then have "cache_ok from_str apply_patch cget (live s') (cache s')"
    using cache_ok_grow[OF ok(2)] plist_ok_parts[OF ok(1)] by (simp add: grows_def)
  then show ?thesis using g add_patches_ok[OF ok(1) ps(2)] ps(1) by (simp add: session_ok_def grows_def)
next
  fix time ws noCache
  assume s': "s' = snd (plist_value from_str apply_patch cget cset time ws noCache s)"
  show ?thesis
  proof (cases "\<exists>t. time = Some t \<and> obj_get (live s) t = None")
    case True
    then obtain t where t: "time = Some t" "obj_get (live s) t = None" by blast
    have "s' = s" using s' plist_value_unknown[OF t(2), of from_str apply_patch cget cset ws noCache] t(1) by simp
    then show ?thesis using assms(3) by simp
  next
    case False
    then obtain c where "s' = s\<lparr>cache := c\<rparr>" "cache_ok from_str apply_patch cget (live s) c"
      using plist_value_ok[OF assms(2,3), of time ws noCache] s' by auto
    moreover have "plist_ok n (s\<lparr>cache := c\<rparr>) = plist_ok n s" by (simp add: plist_ok_def)
    ultimately show ?thesis using assms(3) by (simp add: session_ok_def)
  qed
qed

lemma sessions_keep:
  assumes "(session from_str apply_patch cget cset n)\<^sup>*\<^sup>* s s'" "lru_laws cget cset" "session_ok from_str apply_patch cget n s"
  shows "session_ok from_str apply_patch cget n s' \<and> obj_get (live s) \<subseteq>\<^sub>m obj_get (live s')"
  using assms(1)
proof (induction rule: rtranclp_induct)
  case (step s' s'')
  then show ?case using session_keeps[OF step(2) assms(2)] by (meson map_le_trans)
qed (use assms(3) in simp)

lemma session_start:
  assumes "\<forall>t. fst (cget c0 t) = None"
  shows "session_ok from_str apply_patch cget n (new_plist c0)"
proof -
  have "cache_ok from_str apply_patch cget (live (new_plist c0)) (cache (new_plist c0))"
    using assms by (simp add: cache_ok_def new_plist_def)
  then show ?thesis by (simp add: session_ok_def plist_ok_new)
qed

end
