(* ===== verification/PatchConverge.thy ===== *)
theory PatchConverge
  imports PatchAdd
begin

text \<open>
  Convergence of the patch lists of several clients: what the heads are, when the staging area is
  emptied, and that the order and the grouping in which patches arrive do not matter. Then what a
  client that adds a patch on top of its heads sees.
\<close>

section \<open>Heads\<close>

lemma heads_loop_exact:
  assumes "distinct X" "{x \<in> set X. x \<notin> set ss} \<noteq> {}"
  shows "set (heads_loop ss X) = {x \<in> set X. x \<notin> set ss}"
  using assms
proof (induction ss X rule: heads_loop.induct)
  case (2 s ss X)
  let ?X = "removeAll s X"
  have heads: "{x \<in> set ?X. x \<notin> set ss} = {x \<in> set X. x \<notin> set (s # ss)}" by auto
  have dist: "distinct ?X" using "2.prems"(1) by (simp add: distinct_removeAll)
  show ?case
  proof (cases "length ?X \<le> 1")
    case True
    have "set ?X = {x \<in> set ?X. x \<notin> set ss}"
      using True "2.prems"(2) unfolding heads[symmetric] by (cases ?X) auto
    then show ?thesis using True heads by (simp add: Let_def)
  next
    case False
    then show ?thesis using "2.IH"[OF refl False dist] "2.prems"(2) heads by (simp add: Let_def)
  qed
qed auto

definition is_parent :: "'p table \<Rightarrow> nat \<Rightarrow> bool" where
  "is_parent L t \<longleftrightarrow> (\<exists>u p. obj_get L u = Some p \<and> t \<in> set (parents_of p))"

lemma parents_of_values: "t \<in> set (concat (map parents_of (js_values L))) \<longleftrightarrow> is_parent L t"
  by (auto simp: is_parent_def set_js_values ran_def)

lemma last_is_head:
  assumes "timely_table n L" "dom (obj_get L) \<noteq> {}"
  shows "Max (dom (obj_get L)) \<in> dom (obj_get L)" "\<not> is_parent L (Max (dom (obj_get L)))"
proof -
  have fin: "finite (dom (obj_get L))" by (rule finite_dom_map_of)
  show "Max (dom (obj_get L)) \<in> dom (obj_get L)" using fin assms(2) by simp
  show "\<not> is_parent L (Max (dom (obj_get L)))"
  proof
    assume "is_parent L (Max (dom (obj_get L)))"
    then obtain u p where u: "obj_get L u = Some p" "Max (dom (obj_get L)) \<in> set (parents_of p)" by (auto simp: is_parent_def)
    then have "Max (dom (obj_get L)) < u" using assms(1) unfolding timely_table_def timely_def by metis
    moreover have "u \<le> Max (dom (obj_get L))" using fin u(1) by (intro Max_ge) auto
    ultimately show False by simp
  qed
qed

lemma heads_exact:
  assumes "timely_table n L" "distinct (keys L)"
  shows "set (getHeads L) = {t \<in> dom (obj_get L). \<not> is_parent L t}"
proof (cases "L = []")
  case False
  then have ne: "dom (obj_get L) \<noteq> {}" by (simp add: dom_map_of_conv_image_fst)
  have "{t \<in> set (js_keys L). t \<notin> set (concat (map parents_of (js_values L)))} = {t \<in> dom (obj_get L). \<not> is_parent L t}"
    unfolding set_js_keys parents_of_values ..
  moreover have "\<dots> \<noteq> {}" using last_is_head[OF assms(1) ne] by blast
  ultimately show ?thesis
    using heads_loop_exact[OF distinct_js_keys[OF assms(2)], of "concat (map parents_of (js_values L))"] False
    by (simp add: getHeads_def)
qed (simp add: getHeads_def)

lemma heads_empty: "timely_table n L \<Longrightarrow> distinct (keys L) \<Longrightarrow> getHeads L = [] \<longleftrightarrow> L = []"
proof -
  assume L: "timely_table n L" "distinct (keys L)"
  have "getHeads L = [] \<Longrightarrow> L = []"
  proof (rule ccontr)
    assume a: "getHeads L = []" "L \<noteq> []"
    then have "dom (obj_get L) \<noteq> {}" by (simp add: dom_map_of_conv_image_fst)
    then have "Max (dom (obj_get L)) \<in> set (getHeads L)" using last_is_head[OF L(1)] unfolding heads_exact[OF L] by blast
    then show False using a(1) by simp
  qed
  moreover have "getHeads [] = []" by (simp add: getHeads_def)
  ultimately show ?thesis by blast
qed

text \<open>Every patch is an ancestor of a head, when no snapshot cuts the graph.\<close>

lemma all_known:
  assumes "timely_table n L" "distinct (keys L)" "live_closed L"
    and "\<And>t p. obj_get L t = Some p \<Longrightarrow> \<not> p_is_snapshot p"
  shows "known L (set (getHeads L)) = dom (obj_get L)"
proof
  have heads: "set (getHeads L) \<subseteq> dom (obj_get L)" using heads_exact[OF assms(1,2)] by blast
  show "known L (set (getHeads L)) \<subseteq> dom (obj_get L)" by (rule known_in_closed[OF assms(3) heads])
  have fin: "finite (dom (obj_get L))" by (rule finite_dom_map_of)
  show "dom (obj_get L) \<subseteq> known L (set (getHeads L))"
  proof
    fix t assume t: "t \<in> dom (obj_get L)"
    then show "t \<in> known L (set (getHeads L))"
    proof (induction "Max (dom (obj_get L)) - t" arbitrary: t rule: less_induct)
      case less
      show ?case
      proof (cases "is_parent L t")
        case False
        then show ?thesis using less.prems heads_exact[OF assms(1,2)] known_self by blast
      next
        case True
        then obtain u p where u: "obj_get L u = Some p" "t \<in> set (parents_of p)" by (auto simp: is_parent_def)
        then have "t < u" using assms(1) unfolding timely_table_def timely_def by metis
        moreover have "u \<le> Max (dom (obj_get L))" using fin u(1) by (intro Max_ge) auto
        ultimately have "Max (dom (obj_get L)) - u < Max (dom (obj_get L)) - t" "u \<in> dom (obj_get L)" using u(1) by auto
        then have "u \<in> known L (set (getHeads L))" by (rule less.hyps)
        moreover have "t \<in> edges L `` {u}" using u assms(4)[OF u(1)] by (auto simp: edges_def)
        ultimately show ?thesis using known_closed by blast
      qed
    qed
  qed
qed

section \<open>When everything is moved\<close>

text \<open>All patches, live or not.\<close>

definition total :: "('p, 'c) plist \<Rightarrow> nat \<Rightarrow> 'p patch option" where
  "total s = obj_get (live s) ++ obj_get (staging s)"

definition closed_map :: "(nat \<Rightarrow> 'p patch option) \<Rightarrow> bool" where
  "closed_map m \<longleftrightarrow> (\<forall>t p. m t = Some p \<longrightarrow> isSnapshot p \<or> set (parents_of p) \<subseteq> dom m)"

lemma closed_known:
  assumes "closed_map (obj_get G)" "h \<in> dom (obj_get G)"
  shows "known G {h} \<subseteq> dom (obj_get G)"
proof (rule known_least)
  show "edges G `` dom (obj_get G) \<subseteq> dom (obj_get G)"
  proof
    fix u assume "u \<in> edges G `` dom (obj_get G)"
    then obtain t p where p: "obj_get G t = Some p" "\<not> p_is_snapshot p" "u \<in> set (parents_of p)" by (auto simp: edges_def)
    then have "\<not> isSnapshot p" by (auto simp: isSnapshot_def)
    then show "u \<in> dom (obj_get G)" using assms(1) p(1,3) unfolding closed_map_def by blast
  qed
qed (use assms(2) in simp)

lemma move_head_moves:
  assumes "moving_ok L S m" "distinct (keys S)" "closed_map (obj_get L ++ obj_get S)"
  shows "dom (obj_get (fst m)) \<subseteq> dom (obj_get (fst (move_head (merge_obj L S) m h)))"
    and "h \<in> dom (obj_get L ++ obj_get S) \<Longrightarrow> h \<in> dom (obj_get (fst (move_head (merge_obj L S) m h)))"
proof -
  let ?G = "merge_obj L S"
  have G: "obj_get ?G = obj_get L ++ obj_get S" using get_merge[OF assms(2)] .
  obtain ts where ts: "getTimesWithHeads ?G [h] False = Inr ts"
    using times_loop_total[of False ?G "rev [h]" "[]"] unfolding getTimesWithHeads_def by blast
  have known_ts: "set ts = known ?G {h}" using getTimesWithHeads_eq(2)[OF ts] by simp
  have moved: "dom (obj_get (fst (move_head ?G m h))) = dom (obj_get (fst m)) \<union> set ts" if "is_complete ?G ts"
  proof -
    have "set ts \<subseteq> dom (obj_get L ++ obj_get S)" using known_complete[OF that known_ts] known_ts G by simp
    then show ?thesis using move_times_ok[OF assms(1)] that ts by (simp add: move_head_def)
  qed
  show "dom (obj_get (fst m)) \<subseteq> dom (obj_get (fst (move_head ?G m h)))"
    using moved ts by (cases "is_complete ?G ts") (auto simp: move_head_def)
  assume h: "h \<in> dom (obj_get L ++ obj_get S)"
  have sub: "set ts \<subseteq> dom (obj_get ?G)" using closed_known[of ?G h] assms(3) h known_ts by (simp add: G)
  have "is_complete ?G ts" unfolding is_complete_iff
  proof
    fix t assume "t \<in> set ts"
    then obtain p where p: "obj_get ?G t = Some p" using sub by blast
    then have "isSnapshot p \<or> set (parents_of p) \<subseteq> dom (obj_get ?G)" using assms(3) unfolding closed_map_def G by metis
    then show "\<exists>p. obj_get ?G t = Some p \<and> (isSnapshot p \<or> set (parents_of p) \<subseteq> dom (obj_get ?G))" using p by blast
  qed
  then show "h \<in> dom (obj_get (fst (move_head ?G m h)))" using moved known_self known_ts by blast
qed

lemma move_heads_move:
  assumes "distinct (keys S)" "closed_map (obj_get L ++ obj_get S)"
  shows "moving_ok L S m \<Longrightarrow> live_closed (fst m) \<Longrightarrow> set hs \<subseteq> dom (obj_get L ++ obj_get S) \<Longrightarrow>
    dom (obj_get (fst m)) \<union> set hs \<subseteq> dom (obj_get (fst (foldl (move_head (merge_obj L S)) m hs)))"
proof (induction hs arbitrary: m)
  case (Cons h hs)
  let ?m = "move_head (merge_obj L S) m h"
  have ok: "moving_ok L S ?m" "live_closed (fst ?m)" using move_head_ok[OF Cons.prems(1,2) assms(1)] by blast+
  have "dom (obj_get (fst ?m)) \<union> set hs \<subseteq> dom (obj_get (fst (foldl (move_head (merge_obj L S)) ?m hs)))"
    by (rule Cons.IH[OF ok]) (use Cons.prems(3) in simp)
  then show ?case using move_head_moves[OF Cons.prems(1) assms, of h] Cons.prems(3) by auto
qed simp

lemma round_total:
  assumes "plist_ok n s" "move_round (live s) (staging s) = (L', S', v)"
  shows "obj_get L' ++ obj_get S' = total s"
    and "closed_map (total s) \<Longrightarrow> staging s \<noteq> [] \<Longrightarrow> v \<noteq> []"
proof -
  have s: "timely_table n (staging s)" "live_closed (live s)"
      "dom (obj_get (live s)) \<inter> dom (obj_get (staging s)) = {}" "distinct (keys (live s))" "distinct (keys (staging s))"
    using assms(1) unfolding plist_ok_def by blast+
  have m: "moving_ok (live s) (staging s) (L', S', v)" using move_round_ok[OF s(3-5,2)] assms(2) by simp
  then show "obj_get L' ++ obj_get S' = total s" unfolding moving_ok_def total_def by simp
  assume closed: "closed_map (total s)" and ne: "staging s \<noteq> []"
  let ?hs = "getHeads (staging s)"
  have hs: "set ?hs \<subseteq> dom (obj_get (staging s))" by (rule heads_in_table)
  have "dom (obj_get (live s)) \<union> set ?hs \<subseteq> dom (obj_get L')"
    using move_heads_move[OF s(5) closed[unfolded total_def] moving_ok_start[OF s(3-5)], of ?hs] s(2) hs assms(2)
    by (auto simp: move_round_def)
  moreover have "?hs \<noteq> []" using heads_empty[OF s(1,5)] ne by simp
  moreover have "dom (obj_get L') = dom (obj_get (live s)) \<union> dom (obj_get v)" using m by (simp add: moving_ok_def)
  ultimately show "v \<noteq> []" using hs s(3) by (cases ?hs) auto
qed

text \<open>The loop of \<open>add\<close> keeps the patches, and empties the staging area when no parent is missing.\<close>

lemma add_loop_total:
  "plist_ok n s \<Longrightarrow> total (add_loop s) = total s \<and> heldSnapshots (add_loop s) = heldSnapshots s \<and> maxTime (add_loop s) = maxTime s \<and>
     (closed_map (total s) \<longrightarrow> staging (add_loop s) = [])"
proof (induction s rule: add_loop.induct)
  case (1 s)
  obtain L' S' v where m: "move_round (live s) (staging s) = (L', S', v)" by (cases "move_round (live s) (staging s)")
  note round = round_ok[OF 1(2) m] and tot = round_total[OF 1(2) m]
  have st: "timely_table n (staging s)" "distinct (keys (staging s))" using 1(2) unfolding plist_ok_def by blast+
  let ?s = "s\<lparr>live := L', staging := S', versions_cache := None, patches := sort_patches L' (patches s @ js_keys v)\<rparr>"
  consider (empty) "staging s = []" | (stop) "staging s \<noteq> []" "v = []" | (go) "staging s \<noteq> []" "v \<noteq> []" by blast
  then show ?case
  proof cases
    case empty
    then have "add_loop s = s" by (subst add_loop.simps) (simp add: getHeads_def)
    then show ?thesis using empty by simp
  next
    case stop
    have "getHeads (staging s) \<noteq> []" using heads_empty[OF st] stop(1) by simp
    then have "add_loop s = s\<lparr>live := L', staging := S'\<rparr>" using m stop(2) by (subst add_loop.simps) simp
    then show ?thesis using tot stop by (auto simp: total_def)
  next
    case go
    then have heads: "getHeads (staging s) \<noteq> []" using heads_empty[OF st] by simp
    then have "add_loop s = add_loop ?s" using m go(2) by (subst add_loop.simps) simp
    moreover have "total (add_loop ?s) = total ?s \<and> heldSnapshots (add_loop ?s) = heldSnapshots ?s \<and> maxTime (add_loop ?s) = maxTime ?s \<and>
        (closed_map (total ?s) \<longrightarrow> staging (add_loop ?s) = [])"
      using 1(1)[OF _ m[symmetric]] heads go(2) round(1) m by auto
    moreover have "total ?s = total s" using tot(1) by (simp add: total_def)
    ultimately show ?thesis by simp
  qed
qed

section \<open>Delivery in any order\<close>

text \<open>What a client has after it has received the patches \<open>M\<close>, none of them a snapshot.\<close>

definition received :: "nat \<Rightarrow> ('p, 'c) plist \<Rightarrow> 'p patch set \<Rightarrow> bool" where
  "received n s M \<longleftrightarrow> plist_ok n s \<and> heldSnapshots s = [] \<and> (\<forall>t p. total s t = Some p \<longleftrightarrow> p \<in> M \<and> p_time p = t) \<and>
     (closed_map (total s) \<longrightarrow> staging s = [])"

definition plain :: "nat \<Rightarrow> 'p patch \<Rightarrow> bool" where
  "plain n p \<longleftrightarrow> timely n p \<and> \<not> p_is_snapshot p \<and> p_snapshot p = None"

lemma add_one_plain:
  assumes "plist_ok n s" "heldSnapshots s = []" "plain n x"
  shows "total (add_one s x) = (if p_time x \<in> dom (total s) then total s else (total s)(p_time x \<mapsto> x))"
    "heldSnapshots (add_one s x) = []"
proof -
  have disj: "dom (obj_get (live s)) \<inter> dom (obj_get (staging s)) = {}" using assms(1) unfolding plist_ok_def by blast
  show "heldSnapshots (add_one s x) = []"
    using assms(2,3) by (simp add: add_one_def plain_def stage_patch_def Let_def split: option.split)
  show "total (add_one s x) = (if p_time x \<in> dom (total s) then total s else (total s)(p_time x \<mapsto> x))"
    using assms(2,3) by (auto simp: add_one_def plain_def stage_patch_def Let_def total_def update_conv' split: option.split)
qed

lemma add_ones_plain:
  assumes "plist_ok n s" "heldSnapshots s = []" "\<forall>x \<in> set ps. plain n x"
    and "\<forall>t p. total s t = Some p \<longleftrightarrow> p \<in> M \<and> p_time p = t" "inj_on p_time (M \<union> set ps)"
  shows "plist_ok n (foldl add_one s ps) \<and> heldSnapshots (foldl add_one s ps) = [] \<and>
    (\<forall>t p. total (foldl add_one s ps) t = Some p \<longleftrightarrow> p \<in> M \<union> set ps \<and> p_time p = t)"
  using assms
proof (induction ps arbitrary: s M)
  case (Cons x ps)
  let ?s = "add_one s x"
  have x: "plain n x" using Cons.prems(3) by simp
  note one = add_one_plain[OF Cons.prems(1,2) x]
  have "total ?s t = Some p \<longleftrightarrow> p \<in> insert x M \<and> p_time p = t" for t p
  proof (cases "p_time x \<in> dom (total s)")
    case True
    then obtain q where "q \<in> M" "p_time q = p_time x" using Cons.prems(4) by blast
    then have "q = x" using Cons.prems(5) by (auto simp: inj_on_def)
    then have "x \<in> M" using \<open>q \<in> M\<close> by simp
    then show ?thesis using True Cons.prems(4) one(1) by (auto simp: insert_absorb)
  next
    case False
    have "q = x" if "q \<in> insert x M" "p_time q = p_time x" for q using that Cons.prems(5) by (auto simp: inj_on_def)
    then show ?thesis using False Cons.prems(4) one(1) by auto
  qed
  moreover have "plist_ok n ?s" using add_one_ok[OF Cons.prems(1)] x by (simp add: plain_def)
  ultimately show ?case using Cons.IH[of ?s "insert x M"] Cons.prems(3,5) one(2) by simp
qed simp

lemma add_patches_received:
  assumes "received n s M" "\<forall>x \<in> set ps. plain n x" "inj_on p_time (M \<union> set ps)"
  shows "received n (add_patches ps s) (M \<union> set ps)"
proof (cases "ps = []")
  case False
  let ?s = "foldl add_one s ps"
  have "plist_ok n ?s \<and> heldSnapshots ?s = [] \<and> (\<forall>t p. total ?s t = Some p \<longleftrightarrow> p \<in> M \<union> set ps \<and> p_time p = t)"
    using assms by (intro add_ones_plain) (simp_all add: received_def)
  then show ?thesis using add_loop_ok[of n ?s] add_loop_total[of n ?s] False
    by (simp add: received_def add_patches_def)
qed (use assms in \<open>simp add: add_patches_def\<close>)

lemma batches_received:
  assumes "received n s M" "\<forall>ps \<in> set batches. \<forall>x \<in> set ps. plain n x" "inj_on p_time (M \<union> set (concat batches))"
  shows "received n (fold add_patches batches s) (M \<union> set (concat batches))"
  using assms
proof (induction batches arbitrary: s M)
  case (Cons ps batches)
  have "inj_on p_time (M \<union> set ps)" using Cons.prems(3) by (rule inj_on_subset) auto
  then have "received n (add_patches ps s) (M \<union> set ps)" using Cons.prems by (intro add_patches_received) auto
  then show ?case using Cons.IH[of "add_patches ps s" "M \<union> set ps"] Cons.prems(2,3) by (simp add: Un_assoc)
qed simp

lemma received_new: "received n (new_plist c) {}"
  using plist_ok_new[of n c] by (simp add: received_def total_def new_plist_def)

lemma plain_session:
  assumes "\<forall>ps \<in> set batches. \<forall>x \<in> set ps. plain n x"
  shows "(session from_str apply_patch cget cset n)\<^sup>*\<^sup>* s (fold add_patches batches s)"
  using assms
proof (induction batches arbitrary: s)
  case (Cons ps batches)
  have "session from_str apply_patch cget cset n s (add_patches ps s)"
    by (rule session_add) (use Cons.prems in \<open>auto simp: plain_def calm_def\<close>)
  then show ?case using Cons by (auto intro: converse_rtranclp_into_rtranclp)
qed simp

lemma sort_distinct_times:
  assumes "inj_on p_time (set xs)"
  shows "map p_time (sort_key p_time (remdups xs)) = sorted_list_of_set (p_time ` set xs)"
proof (rule sorted_distinct_set_unique)
  show "distinct (map p_time (sort_key p_time (remdups xs)))" using assms by (simp add: distinct_map)
qed simp_all

text \<open>All patches have arrived: everything is live, and the value is their replay in the order of time.\<close>

lemma value_of_received:
  assumes "lru_laws cget cset" "session_ok from_str apply_patch cget n s" "received n s (set xs)"
    and xs: "\<forall>x \<in> set xs. plain n x" "inj_on p_time (set xs)" "\<forall>x \<in> set xs. set (parents_of x) \<subseteq> p_time ` set xs"
  shows "fst (plist_value from_str apply_patch cget cset None ws noCache s) =
      Inr (foldl (\<lambda>d p. if is_without ws (p_time p) then d else apply_patch d (p_patch p)) (from_str '''')
        (sort_key p_time (remdups xs)))"
    and "fst (versions s) = map p_time (sort_key p_time (remdups xs))"
proof -
  have s: "plist_ok n s" "\<And>t p. total s t = Some p \<longleftrightarrow> p \<in> set xs \<and> p_time p = t" "closed_map (total s) \<Longrightarrow> staging s = []"
    using assms(3) by (auto simp: received_def)
  have dom: "dom (total s) = p_time ` set xs" using s(2) by (auto simp: dom_def)
  have "closed_map (total s)" unfolding closed_map_def dom using s(2) xs(3) by blast
  then have st: "staging s = []" by (rule s(3))
  then have live: "obj_get (live s) t = Some p \<longleftrightarrow> p \<in> set xs \<and> p_time p = t" for t p using s(2) by (simp add: total_def)
  have domL: "dom (obj_get (live s)) = p_time ` set xs" using live by (auto simp: dom_def)
  have L: "timely_table n (live s)" "distinct (keys (live s))" "live_closed (live s)"
      "patches s = sorted_list_of_set (dom (obj_get (live s)))" "\<forall>v. versions_cache s = Some v \<longrightarrow> v = patches s"
    using s(1) unfolding plist_ok_def by blast+
  have known: "known (live s) (set (getHeads (live s))) = p_time ` set xs"
    unfolding domL[symmetric] by (rule all_known[OF L(1-3)]) (use live xs(1) in \<open>auto simp: plain_def\<close>)
  let ?ps = "sort_key p_time (remdups xs)"
  have times: "sorted_list_of_set (p_time ` set xs) = map p_time ?ps" using sort_distinct_times[OF xs(2)] by simp
  have the: "the (obj_get (live s) (p_time p)) = p" if "p \<in> set xs" for p
  proof -
    have "obj_get (live s) (p_time p) = Some p" using live that by blast
    then show ?thesis by simp
  qed
  have replay: "apply_times apply_patch (live s) ws d (map p_time qs) =
      foldl (\<lambda>d p. if is_without ws (p_time p) then d else apply_patch d (p_patch p)) d qs"
    if "set qs \<subseteq> set xs" for d qs
    using that unfolding apply_times_def foldl_map by (intro foldl_cong) (auto simp: the)
  have "apply_from from_str apply_patch (live s) ws (map p_time ?ps) =
      foldl (\<lambda>d p. if is_without ws (p_time p) then d else apply_patch d (p_patch p)) (from_str '''') ?ps"
  proof (cases ?ps)
    case (Cons q qs)
    have q: "q \<in> set xs" "set (q # qs) \<subseteq> set xs" using arg_cong[OF Cons, of set] by auto
    then have "p_snapshot (the (obj_get (live s) (p_time q))) = None" using the[OF q(1)] xs(1) by (auto simp: plain_def)
    then have "start_value from_str (live s) (map p_time (q # qs)) = (from_str '''', map p_time (q # qs))"
      by (simp add: start_value_def)
    then show ?thesis unfolding Cons using replay[OF q(2)] by (simp add: apply_from_def)
  qed (simp add: apply_from_def)
  moreover have "left_out None ws = ws" by (cases ws) (simp_all add: left_out_def)
  moreover have "\<exists>c. plist_value from_str apply_patch cget cset None ws noCache s =
      (Inr (spec_value from_str apply_patch (live s) (left_out None ws) (asked (live s) None)), s\<lparr>cache := c\<rparr>)"
    using plist_value_ok[OF assms(1,2), of None ws noCache] by auto
  ultimately show "fst (plist_value from_str apply_patch cget cset None ws noCache s) =
      Inr (foldl (\<lambda>d p. if is_without ws (p_time p) then d else apply_patch d (p_patch p)) (from_str '''') ?ps)"
    by (auto simp: asked_def spec_value_def known times)
  have "map (\<lambda>t. p_time (the (obj_get (live s) t))) (map p_time ?ps) = map p_time ?ps"
    unfolding map_map by (rule map_cong) (auto simp: the)
  then show "fst (versions s) = map p_time ?ps"
    using L(4,5) unfolding domL times by (auto simp: versions_def Let_def split: option.split)
qed

section \<open>A patch on top of the heads\<close>

lemma apply_from_snoc:
  assumes "obj_get L t = Some p" "v = [] \<longrightarrow> p_snapshot p = None"
  shows "apply_from from_str apply_patch L w (v @ [t]) =
    (if is_without w t then apply_from from_str apply_patch L w v
     else apply_patch (apply_from from_str apply_patch L w v) (p_patch p))"
proof (cases "v = []")
  case True
  then show ?thesis using assms by (simp add: apply_from_def start_value_def apply_times_def)
next
  case False
  show ?thesis unfolding apply_from_append[OF False, symmetric] using assms(1) by (simp add: apply_times_def)
qed

lemma commit_value:
  assumes ok: "plist_ok n s" and empty: "staging s = []" "obj_get (heldSnapshots s) t = None"
    and snaps: "\<And>u q. obj_get (live s) u = Some q \<Longrightarrow> p_is_snapshot q \<Longrightarrow> p_patch q \<noteq> None"
    and p: "plain n p" "p_time p = t" "parents_of p = getHeads (live s)" and t: "maxTime s < t"
  shows "plist_ok n (add_patches [p] s)" "staging (add_patches [p] s) = []"
    "obj_get (live (add_patches [p] s)) = (obj_get (live s))(t \<mapsto> p)"
    "heldSnapshots (add_patches [p] s) = heldSnapshots s" "maxTime (add_patches [p] s) = t"
    "set (getHeads (live (add_patches [p] s))) = {t}"
    "spec_value from_str apply_patch (live (add_patches [p] s)) w {t} =
      (if is_without w t then spec_value from_str apply_patch (live s) w (set (getHeads (live s)))
       else apply_patch (spec_value from_str apply_patch (live s) w (set (getHeads (live s)))) (p_patch p))"
proof -
  let ?s = "add_patches [p] s" and ?s1 = "add_one s p" and ?L = "live s"
  have L: "timely_table n ?L" "distinct (keys ?L)" "live_closed ?L" "\<forall>u \<in> dom (obj_get ?L). u \<le> maxTime s"
    using ok unfolding plist_ok_def by blast+
  have fresh: "obj_get ?L t = None" using L(4) t by (metis domI leD option.exhaust)
  have s1: "live ?s1 = ?L" "staging ?s1 = [(t, p)]" "heldSnapshots ?s1 = heldSnapshots s" "maxTime ?s1 = t"
    using empty p fresh t by (simp_all add: add_one_def plain_def stage_patch_def Let_def)
  have ok1: "plist_ok n ?s1" by (rule add_one_ok[OF ok]) (use p(1) in \<open>simp add: plain_def\<close>)
  have tot1: "total ?s1 = (obj_get ?L)(t \<mapsto> p)" using fresh by (auto simp: total_def s1 fun_eq_iff map_add_def)
  have heads: "set (getHeads ?L) \<subseteq> dom (obj_get ?L)" by (rule heads_in_table)
  have add: "?s = add_loop ?s1" by (simp add: add_patches_def)
  show ok': "plist_ok n ?s" unfolding add using add_loop_ok[OF ok1] by blast
  have tot: "total ?s = (obj_get ?L)(t \<mapsto> p)" "heldSnapshots ?s = heldSnapshots s" "maxTime ?s = t"
    unfolding add using add_loop_total[OF ok1] tot1 s1 by simp_all
  show "heldSnapshots ?s = heldSnapshots s" "maxTime ?s = t" by (rule tot(2), rule tot(3))
  have "closed_map (total ?s1)" unfolding closed_map_def tot1
  proof (intro allI impI)
    fix u q assume u: "((obj_get ?L)(t \<mapsto> p)) u = Some q"
    show "isSnapshot q \<or> set (parents_of q) \<subseteq> dom ((obj_get ?L)(t \<mapsto> p))"
    proof (cases "u = t")
      case True
      then show ?thesis using u p(3) heads by auto
    next
      case False
      then have u: "obj_get ?L u = Some q" using u by simp
      show ?thesis
      proof (cases "p_is_snapshot q")
        case True
        then show ?thesis using snaps[OF u] by (simp add: isSnapshot_def)
      next
        case False
        then have "set (parents_of q) \<subseteq> edges ?L `` dom (obj_get ?L)" using u by (auto simp: edges_def)
        also have "\<dots> \<subseteq> dom (obj_get ?L)" using L(3) by (simp add: live_closed_def)
        finally show ?thesis by auto
      qed
    qed
  qed
  then have st: "staging ?s = []" unfolding add using add_loop_total[OF ok1] by blast
  then show "staging ?s = []" .
  show live: "obj_get (live ?s) = (obj_get ?L)(t \<mapsto> p)" using tot(1) st by (simp add: total_def)
  have L': "timely_table n (live ?s)" "distinct (keys (live ?s))" using ok' unfolding plist_ok_def by blast+
  have par: "is_parent (live ?s) u \<longleftrightarrow> is_parent ?L u \<or> u \<in> set (getHeads ?L)" for u
  proof -
    have "obj_get (live ?s) v = Some q \<longleftrightarrow> (v = t \<and> q = p) \<or> obj_get ?L v = Some q" for v q
      unfolding live using fresh by auto
    then show ?thesis unfolding is_parent_def p(3)[symmetric] by auto
  qed
  have before: "u < t" if "is_parent ?L u \<or> u \<in> set (getHeads ?L)" for u
    using that
  proof
    assume "is_parent ?L u"
    then obtain v q where q: "obj_get ?L v = Some q" "u \<in> set (parents_of q)" by (auto simp: is_parent_def)
    then have "u < v" using L(1) unfolding timely_table_def timely_def by metis
    moreover have "v \<le> maxTime s" using L(4) q(1) by blast
    ultimately show ?thesis using t by simp
  next
    assume "u \<in> set (getHeads ?L)"
    then have "u \<in> dom (obj_get ?L)" using heads by (rule subsetD[rotated])
    then have "u \<le> maxTime s" using L(4) by (rule bspec[rotated])
    then show ?thesis using t by simp
  qed
  have "{u \<in> dom (obj_get (live ?s)). \<not> is_parent (live ?s) u} = {t}"
    using before[of t] heads_exact[OF L(1,2)] unfolding par live by auto
  then show "set (getHeads (live ?s)) = {t}" using heads_exact[OF L'] by simp
  show "spec_value from_str apply_patch (live ?s) w {t} =
      (if is_without w t then spec_value from_str apply_patch ?L w (set (getHeads ?L))
       else apply_patch (spec_value from_str apply_patch ?L w (set (getHeads ?L))) (p_patch p))"
  proof -
    let ?K = "known ?L (set (getHeads ?L))"
    have le: "obj_get ?L \<subseteq>\<^sub>m obj_get (live ?s)" using fresh unfolding live by (simp add: map_le_def) (metis domIff)
    have K: "finite ?K" "?K \<subseteq> dom (obj_get ?L)" using known_finite[OF L(3) heads] known_in_closed[OF L(3) heads] by blast+
    have "known (live ?s) {t} = insert t ?K"
    proof
      have step: "edges (live ?s) `` {t} = set (getHeads ?L)"
        using p(1,3) by (simp add: edges_image live plain_def)
      have grow: "known (live ?s) (set (getHeads ?L)) = ?K" by (rule known_grow[OF le L(3) heads])
      have "edges (live ?s) `` ?K \<subseteq> ?K" using known_closed[of "live ?s" "set (getHeads ?L)"] unfolding grow .
      then have "edges (live ?s) `` insert t ?K \<subseteq> insert t ?K" using step known_self[of "set (getHeads ?L)" ?L] by blast
      then show "known (live ?s) {t} \<subseteq> insert t ?K" by (intro known_least) auto
      have "set (getHeads ?L) \<subseteq> known (live ?s) {t}"
        using step known_closed[of "live ?s" "{t}"] known_self[of "{t}" "live ?s"] by blast
      then have "?K \<subseteq> known (live ?s) {t}" unfolding grow[symmetric] by (rule known_least[OF _ known_closed])
      then show "insert t ?K \<subseteq> known (live ?s) {t}" using known_self[of "{t}" "live ?s"] by blast
    qed
    note K' = this
    have less: "u < t" if "u \<in> ?K" for u
      using bspec[OF L(4) subsetD[OF K(2) that]] t by simp
    then have "t \<notin> ?K" by blast
    then have "sorted_list_of_set (insert t ?K) = insort t (sorted_list_of_set ?K)" using K(1) by simp
    also have "\<dots> = sorted_list_of_set ?K @ [t]"
      by (rule sorted_insort_is_snoc) (use K(1) less in \<open>auto intro: less_imp_le\<close>)
    finally have v: "sorted_list_of_set (known (live ?s) {t}) = sorted_list_of_set ?K @ [t]" unfolding K' .
    have "p_snapshot p = None" using p(1) by (simp add: plain_def)
    moreover have "obj_get (live ?s) t = Some p" using live by simp
    moreover have "apply_from from_str apply_patch (live ?s) w (sorted_list_of_set ?K) =
        apply_from from_str apply_patch ?L w (sorted_list_of_set ?K)"
      by (rule apply_from_grow[OF le]) (use K in simp)
    ultimately show ?thesis unfolding spec_value_def v by (simp add: apply_from_snoc)
  qed
qed

section \<open>Logical times\<close>

lemma next_time_bounds:
  assumes "0 \<le> m" "0 < n" "0 \<le> r" "r \<le> 1000"
  shows "int (maxTime s) < next_available_time r s t m n \<and> t \<le> next_available_time r s t m n \<and>
    next_available_time r s t m n mod n = m mod n \<and>
    next_available_time r s t m n < max t (int (maxTime s)) + 1001 + m + 2 * n"
proof -
  define t1 where "t1 = (if t \<le> int (maxTime s) then int (maxTime s) + r + 1 else t)"
  define a where "a = (if m - t1 smod n < 0 then m - t1 smod n + n else m - t1 smod n)"
  have next_eq: "next_available_time r s t m n = t1 + a"
    using assms(2) by (simp add: next_available_time_def t1_def a_def Let_def)
  have "- n < t1 smod n" "t1 smod n < n"
    using assms(2) smod_int_range[of n t1] by (auto simp: abs_if split: if_splits)
  then have a: "0 \<le> a" "a < m + n + n" using assms(1,2) by (auto simp: a_def)
  have "n * (t1 sdiv n) + t1 smod n = t1" by (rule mult_sdiv_smod_eq)
  then have "t1 + a = m + n * (t1 sdiv n) \<or> t1 + a = m + n * (t1 sdiv n + 1)"
    by (auto simp: a_def algebra_simps)
  then have cong: "(t1 + a) mod n = m mod n" by (metis mod_mult_self2)
  have t1: "int (maxTime s) < t1" "t \<le> t1" "t1 < max t (int (maxTime s)) + 1002"
    using assms(3,4) by (auto simp: t1_def)
  show ?thesis unfolding next_eq using a t1 cong by linarith
qed

end
