(* ===== verification/PatchProps.thy ===== *)
theory PatchProps
  imports PatchConverge
begin

text \<open>
  The properties of the patch list of
  \<^verbatim>\<open>packages/sync/editor/generic/sorted-patch-list.ts\<close>.
\<close>

section \<open>Sample patches and a cache that never forgets\<close>

definition sample_patch :: "nat \<Rightarrow> nat list \<Rightarrow> nat patch" where
  "sample_patch t ps = \<lparr>p_time = t, p_wall = None, p_patch = Some t, p_user = 0, p_size = 1, p_is_snapshot = False,
     p_snapshot = None, p_seq_info = None, p_parents = Some ps, p_version = None\<rparr>"

definition sample_snapshot :: "nat \<Rightarrow> string \<Rightarrow> nat patch" where
  "sample_snapshot t str = (sample_patch t [])\<lparr>p_patch := None, p_is_snapshot := True, p_snapshot := Some str\<rparr>"

text \<open>A document that is the list of what was applied to it.\<close>

definition log_from_str :: "string \<Rightarrow> string list" where
  "log_from_str str = [str]"

definition log_apply :: "string list \<Rightarrow> nat option \<Rightarrow> string list" where
  "log_apply d p = d @ [case p of None \<Rightarrow> '''' | Some t \<Rightarrow> decimal t]"

definition map_cget :: "(nat, 'd \<times> nat) obj \<Rightarrow> nat \<Rightarrow> ('d \<times> nat) option \<times> (nat, 'd \<times> nat) obj" where
  "map_cget c t = (obj_get c t, c)"

definition map_cset :: "(nat, 'd \<times> nat) obj \<Rightarrow> nat \<Rightarrow> 'd \<times> nat \<Rightarrow> (nat, 'd \<times> nat) obj" where
  "map_cset c t x = obj_set t x c"

lemmas eval_add = add_patches_def add_one_def stage_patch_def add_snapshot_def Let_def new_plist_def sample_patch_def
  sample_snapshot_def with_snapshot_def
  getHeads_def js_keys_def js_values_def parents_of_def js_sort_def move_round_def move_head_def getTimesWithHeads_def
  merge_obj_def isSnapshot_def move_time_def sort_patches_def sort_by_def patch_cmp_def cmp_def cmp_version_def
  decimal.simps less_char_def

lemmas eval_value = plist_value_def patch_value_def getCache_def map_cget_def map_cset_def knownTimes_def
  value_of_known_def value_of_times_def start_value_def apply_times_def is_without_def

lemma map_lru_laws: "lru_laws map_cget map_cset"
  by (simp add: lru_laws_def map_cget_def map_cset_def update_conv')

lemma sample_timely: "t < 10 \<Longrightarrow> \<forall>q \<in> set ps. q < t \<Longrightarrow> timely 1 (sample_patch t ps)"
  by (auto simp: timely_def sample_patch_def parents_of_def decimal.simps[of t])

lemma sample_calm: "calm s [] \<and> (calm s (sample_patch t ps # xs) \<longleftrightarrow> calm s xs)"
  by (auto simp: calm_def sample_patch_def)

section \<open>Values\<close>

text \<open>What \<open>value\<close> should return: the known patches in the order of their times.\<close>

definition expected_value ::
    "(string \<Rightarrow> 'd) \<Rightarrow> ('d \<Rightarrow> 'p option \<Rightarrow> 'd) \<Rightarrow> nat option \<Rightarrow> nat list option \<Rightarrow> ('p, 'c) plist \<Rightarrow> patch_error + 'd" where
  "expected_value from_str apply_patch time ws s =
    (case time of
       Some t \<Rightarrow> if hasVersion s t then Inr (spec_value from_str apply_patch (live s) (left_out time ws) {t})
                 else Inl (UnknownTime t)
     | None \<Rightarrow> Inr (spec_value from_str apply_patch (live s) ws (set (getHeads (live s)))))"

lemma expected_value_cache: "expected_value from_str apply_patch time ws (s\<lparr>cache := c\<rparr>) = expected_value from_str apply_patch time ws s"
  by (cases time) (simp_all add: expected_value_def hasVersion_def)

lemma value_expected:
  assumes "lru_laws cget cset" "session_ok from_str apply_patch cget n s"
  shows "fst (plist_value from_str apply_patch cget cset time ws noCache s) = expected_value from_str apply_patch time ws s"
proof (cases "\<exists>t. time = Some t \<and> obj_get (live s) t = None")
  case True
  then show ?thesis by (auto simp: hasVersion_def plist_value_unknown expected_value_def)
next
  case False
  then have "obj_get (live s) t \<noteq> None" if "time = Some t" for t using that by simp
  from plist_value_ok[OF assms this, of time ws noCache] obtain c where "plist_value from_str apply_patch cget cset time ws noCache s =
      (Inr (spec_value from_str apply_patch (live s) (left_out time ws) (asked (live s) time)), s\<lparr>cache := c\<rparr>)"
    by blast
  moreover have "left_out None ws = ws" by (cases ws) (simp_all add: left_out_def)
  ultimately show ?thesis using False by (auto simp: asked_def hasVersion_def expected_value_def split: option.split)
qed

text \<open>With \<open>noCache\<close> the cache is not read.\<close>

lemma value_of_known_uncached:
  "fst (value_of_known from_str apply_patch cget cset L key w True k c) =
   fst (value_of_known from_str apply_patch cget cset L key w True k c')"
  by (cases k) (simp_all add: value_of_known_def value_of_times_def Let_def split: prod.split option.split)

lemma fst_plist_value:
  "fst (plist_value from_str apply_patch cget cset time ws noCache s) =
   fst (patch_value from_str apply_patch cget cset (live s) time ws noCache (cache s))"
  by (simp add: plist_value_def split: prod.split)

lemma patch_value_uncached:
  "fst (patch_value from_str apply_patch cget cset L time ws True c) =
   fst (patch_value from_str apply_patch cget cset L time ws True c')"
  by (cases time) (simp_all add: patch_value_def Let_def value_of_known_uncached[of _ _ _ _ _ _ _ _ c c'])

lemma plist_value_uncached:
  "fst (plist_value from_str apply_patch cget cset time ws True s) =
   fst (plist_value from_str apply_patch cget cset time ws True (s\<lparr>cache := c\<rparr>))"
  unfolding fst_plist_value by (simp add: patch_value_uncached[of _ _ _ _ _ _ _ "cache s" c])

lemma fold_add_patches_ok:
  assumes "plist_ok n s" "\<forall>ps \<in> set batches. \<forall>x \<in> set ps. p_is_snapshot x \<or> timely n x"
  shows "plist_ok n (fold add_patches batches s)"
  using assms
proof (induction batches arbitrary: s)
  case (Cons ps batches)
  then have "plist_ok n (add_patches ps s)" by (intro add_patches_ok) auto
  then show ?case using Cons by simp
qed simp

text \<open>C11: \<open>value\<close> returns the patches that are known at the time asked for (those on which it depends, without
  those left out), applied in the order of their times to the snapshot they start from, and
  throws only for a time that is not live. This holds whatever is in the cache, in every
  session of adding patches and asking for values in which the times have the same number of digits,
  parents are earlier than their children, and no snapshot message arrives for a patch that
  is already live; the cache returns only what was stored in it. When such snapshots do arrive, in any number of further
  batches, it still holds for values asked with \<open>noCache\<close> (\<open>snapshot_makes_cache_stale\<close> shows that
  a cached value may then be wrong).\<close>

theorem value_is_specified:
  assumes "lru_laws cget cset" "\<forall>t. fst (cget c0 t) = None"
    and "(session from_str apply_patch cget cset n)\<^sup>*\<^sup>* (new_plist c0) s"
    and "\<forall>ps \<in> set batches. \<forall>x \<in> set ps. p_is_snapshot x \<or> timely n x"
  shows "fst (plist_value from_str apply_patch cget cset time ws noCache s) = expected_value from_str apply_patch time ws s \<and>
    fst (plist_value from_str apply_patch cget cset time ws True (fold add_patches batches s)) =
      expected_value from_str apply_patch time ws (fold add_patches batches s)"
proof -
  let ?s' = "fold add_patches batches s"
  have ok: "session_ok from_str apply_patch cget n s"
    using sessions_keep[OF assms(3,1)] session_start assms(2) by metis
  have same: "plist_ok n (?s'\<lparr>cache := c0\<rparr>) = plist_ok n ?s'" by (simp add: plist_ok_def)
  have "plist_ok n s" using ok by (simp add: session_ok_def)
  from fold_add_patches_ok[OF this assms(4)] have "plist_ok n (?s'\<lparr>cache := c0\<rparr>)" unfolding same .
  then have "session_ok from_str apply_patch cget n (?s'\<lparr>cache := c0\<rparr>)"
    using assms(2) by (simp add: session_ok_def cache_ok_def)
  from value_expected[OF assms(1) this, of time ws True]
  have "fst (plist_value from_str apply_patch cget cset time ws True ?s') = expected_value from_str apply_patch time ws ?s'"
    unfolding plist_value_uncached[of from_str apply_patch cget cset time ws ?s' c0] expected_value_cache .
  then show ?thesis using value_expected[OF assms(1) ok] by blast
qed

definition two_patches :: "(nat, (nat, 'd \<times> nat) obj) plist" where
  "two_patches = add_patches [sample_patch 1 [], sample_patch 2 [1]] (new_plist [])"

lemma two_patches_session: "(session fs ap map_cget map_cset 1)\<^sup>*\<^sup>* (new_plist []) two_patches"
proof -
  have "session fs ap map_cget map_cset 1 (new_plist []) two_patches"
    unfolding two_patches_def by (rule session_add) (use sample_timely[of 1 "[]"] sample_timely[of 2 "[1]"] in \<open>simp_all add: sample_calm\<close>)
  then show ?thesis by blast
qed

lemma two_patches_live: "hasVersion two_patches 2" "live two_patches = [(2, sample_patch 2 [1]), (1, sample_patch 1 [])]"
  by (simp_all add: two_patches_def hasVersion_def eval_add) (simp_all add: add_loop.simps eval_add)

abbreviation two_logs :: "(nat, (nat, string list \<times> nat) obj) plist" where
  "two_logs \<equiv> two_patches"

lemma value_is_specified_witness:
  "fst (plist_value log_from_str log_apply map_cget map_cset (Some 2) None False two_logs) =
    expected_value log_from_str log_apply (Some 2) None two_logs \<and>
   fst (plist_value log_from_str log_apply map_cget map_cset (Some 2) None True (fold add_patches [[sample_snapshot 2 ''x'']] two_logs)) =
    expected_value log_from_str log_apply (Some 2) None (fold add_patches [[sample_snapshot 2 ''x'']] two_logs)"
proof -
  have e: "\<forall>t. fst (map_cget [] t) = None" by (simp add: map_cget_def)
  have "\<forall>ps \<in> set [[sample_snapshot 2 ''x'']]. \<forall>x \<in> set ps. p_is_snapshot x \<or> timely 1 x" by (simp add: sample_snapshot_def)
  from value_is_specified[OF map_lru_laws e two_patches_session[of log_from_str log_apply] this,
      where time = "Some 2" and ws = None and noCache = False]
  show ?thesis .
qed

text \<open>C24: The value at a time that is live never changes in a session: patches that arrive later, also for
  earlier times, and values that are asked for in between, cached or not, do not affect it. All
  times in the session have the same number of digits, parents are earlier than their children, and no
  snapshot message arrives for a patch that is already live (after one, the value may be the
  snapshot, and cached values may be wrong).\<close>

theorem value_never_changes:
  assumes "lru_laws cget cset" "\<forall>t. fst (cget c0 t) = None"
    and "(session from_str apply_patch cget cset n)\<^sup>*\<^sup>* (new_plist c0) s" "hasVersion s t"
    and "(session from_str apply_patch cget cset n)\<^sup>*\<^sup>* s s'"
  shows "fst (plist_value from_str apply_patch cget cset (Some t) ws noCache' s') =
    fst (plist_value from_str apply_patch cget cset (Some t) ws noCache s)"
proof -
  have ok: "session_ok from_str apply_patch cget n s"
    using sessions_keep[OF assms(3,1)] session_start assms(2) by metis
  have ok': "session_ok from_str apply_patch cget n s'" and grow: "obj_get (live s) \<subseteq>\<^sub>m obj_get (live s')"
    using sessions_keep[OF assms(5,1) ok] by blast+
  have t: "obj_get (live s) t \<noteq> None" "{t} \<subseteq> dom (obj_get (live s))" using assms(4) by (auto simp: hasVersion_def)
  then have t': "obj_get (live s') t \<noteq> None" using grow by (metis domIff map_le_def)
  have "live_closed (live s)" using ok plist_ok_parts by (auto simp: session_ok_def)
  from spec_value_grow[OF grow this t(2)] show ?thesis
    using plist_value_ok[OF assms(1) ok, of "Some t" ws noCache] plist_value_ok[OF assms(1) ok', of "Some t" ws noCache'] t(1) t'
    by (auto simp: asked_def)
qed

lemma value_never_changes_witness:
  "fst (plist_value log_from_str log_apply map_cget map_cset (Some 2) None False (add_patches [sample_patch 3 [1]] two_patches)) =
    fst (plist_value log_from_str log_apply map_cget map_cset (Some 2) None True two_patches)"
proof -
  have e: "\<forall>t. fst (map_cget [] t) = None" by (simp add: map_cget_def)
  have "session log_from_str log_apply map_cget map_cset 1 two_patches (add_patches [sample_patch 3 [1]] two_patches)"
    by (rule session_add) (use sample_timely[of 3 "[1]"] in \<open>simp_all add: sample_calm\<close>)
  then have "(session log_from_str log_apply map_cget map_cset 1)\<^sup>*\<^sup>* two_patches (add_patches [sample_patch 3 [1]] two_patches)"
    by (rule r_into_rtranclp)
  from value_never_changes[OF map_lru_laws e two_patches_session two_patches_live(1) this]
  show ?thesis .
qed

text \<open>C5: Delivery in any order, in any batches and with repetitions: once every parent of a delivered patch is delivered too, all
  patches are live, and the value is the replay of the set of patches in the order of their times.
  So clients that have received the same patches show the same document. The
  patches are no snapshots, are determined by their times, have times of the same number of digits, and
  parents earlier than themselves. (While a parent is missing, what is live depends on the
  batches: \<open>complete_patches_held_back\<close>.)\<close>

theorem delivery_order_irrelevant:
  assumes "lru_laws cget cset" "\<forall>t. fst (cget c t) = None" "s = fold add_patches batches (new_plist c)"
    and xs: "xs = concat batches" "\<forall>x \<in> set xs. plain n x" "inj_on p_time (set xs)"
      "\<forall>x \<in> set xs. set (parents_of x) \<subseteq> p_time ` set xs"
  shows "fst (versions s) = map p_time (sort_key p_time (remdups xs)) \<and>
    fst (plist_value from_str apply_patch cget cset None None noCache s) =
      Inr (foldl apply_patch (from_str '''') (map p_patch (sort_key p_time (remdups xs))))"
proof -
  have plain: "\<forall>ps \<in> set batches. \<forall>x \<in> set ps. plain n x" using xs(1,2) by auto
  have "received n s ({} \<union> set (concat batches))"
    unfolding assms(3) by (rule batches_received[OF received_new plain]) (use xs in simp)
  then have r: "received n s (set xs)" using xs(1) by simp
  have ok: "session_ok from_str apply_patch cget n s"
    unfolding assms(3) using sessions_keep[OF plain_session[OF plain] assms(1)] session_start assms(2) by metis
  show ?thesis using value_of_received(1)[OF assms(1) ok r xs(2-4), where ws = None and noCache = noCache]
      value_of_received(2)[OF assms(1) ok r xs(2-4)]
    by (simp add: is_without_def foldl_map)
qed

lemma delivery_order_irrelevant_witness:
  "fst (plist_value log_from_str log_apply map_cget map_cset None None False
      (fold add_patches [[sample_patch 2 [1]], [sample_patch 1 [], sample_patch 2 [1]]] (new_plist []))) =
    Inr (foldl log_apply (log_from_str '''') (map p_patch (sort_key p_time (remdups [sample_patch 2 [1], sample_patch 1 [], sample_patch 2 [1]]))))"
proof -
  let ?batches = "[[sample_patch 2 [1]], [sample_patch 1 [], sample_patch 2 [1]]]"
  have e: "\<forall>t. fst (map_cget [] t) = None" by (simp add: map_cget_def)
  have plain: "\<forall>x \<in> set [sample_patch 2 [1], sample_patch 1 [], sample_patch 2 [1]]. plain 1 x"
    using sample_timely[of 1 "[]"] sample_timely[of 2 "[1]"] by (simp add: plain_def sample_patch_def)
  have inj: "inj_on p_time (set [sample_patch 2 [1], sample_patch 1 [], sample_patch 2 [1]])"
    by (rule inj_onI) (auto simp: sample_patch_def)
  have closed: "\<forall>x \<in> set [sample_patch 2 [1], sample_patch 1 [], sample_patch 2 [1]]. set (parents_of x) \<subseteq>
      p_time ` set [sample_patch 2 [1], sample_patch 1 [], sample_patch 2 [1]]"
    by (simp add: sample_patch_def parents_of_def)
  have "[sample_patch 2 [1], sample_patch 1 [], sample_patch 2 [1]] = concat ?batches" by simp
  from delivery_order_irrelevant[OF map_lru_laws e refl this plain inj closed] show ?thesis by blast
qed

section \<open>The live patches\<close>

text \<open>C25: Whatever is added, in whatever order and with repetitions (patches with earlier parents and
  snapshots of any patch): \<open>versions\<close> is the sorted list of the live times, cached or not, and
  every live patch is a snapshot or has all its parents live.\<close>

theorem versions_sorted_and_closed:
  assumes "\<forall>ps \<in> set batches. \<forall>x \<in> set ps. p_is_snapshot x \<or> timely n x"
    and "s = fold add_patches batches (new_plist c)"
  shows "fst (versions s) = sorted_list_of_set {t. hasVersion s t} \<and>
    (\<forall>t p q. obj_get (live s) t = Some p \<and> \<not> p_is_snapshot p \<and> q \<in> set (parents_of p) \<longrightarrow> hasVersion s q)"
proof -
  have ok: "plist_ok n s" unfolding assms(2) by (rule fold_add_patches_ok[OF plist_ok_new assms(1)])
  have dom: "dom (obj_get (live s)) = {t. hasVersion s t}" by (auto simp: hasVersion_def)
  have "map (\<lambda>t. p_time (the (obj_get (live s) t))) (patches s) = patches s"
  proof (intro map_idI)
    fix t assume "t \<in> set (patches s)"
    then have "t \<in> dom (obj_get (live s))" using ok by (simp add: plist_ok_def finite_dom_map_of)
    then show "p_time (the (obj_get (live s) t)) = t"
      using plist_ok_parts[OF ok] unfolding timely_table_def by fastforce
  qed
  then have "fst (versions s) = patches s" using ok by (auto simp: versions_def plist_ok_def Let_def split: option.split)
  moreover have "hasVersion s q" if "obj_get (live s) t = Some p" "\<not> p_is_snapshot p" "q \<in> set (parents_of p)" for t p q
  proof -
    have "q \<in> edges (live s) `` dom (obj_get (live s))" using that by (auto simp: edges_def)
    then show ?thesis using plist_ok_parts[OF ok] dom unfolding live_closed_def by blast
  qed
  ultimately show ?thesis using ok dom by (auto simp: plist_ok_def)
qed

lemma versions_sorted_and_closed_witness:
  "fst (versions (fold add_patches [[sample_patch 2 [1]], [sample_snapshot 1 ''x'', sample_patch 1 []]] (new_plist ()))) =
    sorted_list_of_set {t. hasVersion (fold add_patches [[sample_patch 2 [1]], [sample_snapshot 1 ''x'', sample_patch 1 []]]
      (new_plist ())) t}"
proof -
  have "\<forall>ps \<in> set [[sample_patch 2 [1]], [sample_snapshot 1 ''x'', sample_patch 1 []]].
      \<forall>x \<in> set ps. p_is_snapshot x \<or> timely 1 x"
    using sample_timely[of 1 "[]"] sample_timely[of 2 "[1]"] by (simp add: sample_snapshot_def)
  from versions_sorted_and_closed[OF this refl, of "()"] show ?thesis by blast
qed

section \<open>Logical times\<close>

lemma maxTime_add_one: "maxTime (add_one s x) = max (maxTime s) (p_time x)"
  by (simp add: add_one_def add_snapshot_def stage_patch_def Let_def split: option.split)

lemma maxTime_add_loop: "maxTime (add_loop s) = maxTime s"
proof (induction s rule: add_loop.induct)
  case (1 s)
  show ?case
    by (subst add_loop.simps) (use 1 in \<open>auto split: prod.split\<close>)
qed

lemma maxTime_add_patches: "maxTime (add_patches ps s) = fold max (map p_time ps) (maxTime s)"
proof -
  have "maxTime (foldl add_one s ps) = fold max (map p_time ps) (maxTime s)"
    by (induction ps arbitrary: s) (simp_all add: maxTime_add_one max.commute)
  then show ?thesis by (simp add: add_patches_def maxTime_add_loop)
qed

lemma fold_max_eq: "fold max ts (m :: nat) = Max (insert m (set ts))"
proof (induction ts arbitrary: m)
  case (Cons t ts)
  have "Max (insert m (insert t (set ts))) = Max (insert (max t m) (set ts))"
    by (cases "ts = []") (simp_all add: max.assoc max.commute max.left_commute)
  then show ?case using Cons by simp
qed simp

lemma maxTime_batches:
  "maxTime (fold add_patches batches (new_plist c)) = Max (insert 0 (p_time ` set (concat batches)))"
proof -
  have "maxTime (fold add_patches batches s) = fold max (map p_time (concat batches)) (maxTime s)" for s :: "('a, 'b) plist"
    by (induction batches arbitrary: s) (simp_all add: maxTime_add_patches)
  then show ?thesis by (simp add: fold_max_eq new_plist_def)
qed

text \<open>C32: Whatever messages were added to a list, in whatever order, \<open>next_available_time\<close> is later than the times of all
  of them (also of snapshots and of patches that are not yet live), not before the time asked for, less
  than \<open>1001 + m + 2n\<close> after the latest of these, and congruent to the user \<open>m\<close> modulo the number \<open>n\<close> of users;
  \<open>r\<close> is the random delay of at most a second.\<close>

theorem next_available_time_fresh:
  fixes batches :: "'p patch list list" and c :: 'c
  assumes "0 \<le> m" "0 < n" "0 \<le> r" "r \<le> 1000"
  defines "s \<equiv> fold add_patches batches (new_plist c)"
  shows "(\<forall>x \<in> set (concat batches). int (p_time x) < next_available_time r s t m n) \<and> t \<le> next_available_time r s t m n \<and>
    next_available_time r s t m n mod n = m mod n \<and>
    next_available_time r s t m n < max t (int (Max (insert 0 (p_time ` set (concat batches))))) + 1001 + m + 2 * n"
proof -
  have max: "maxTime s = Max (insert 0 (p_time ` set (concat batches)))" unfolding s_def by (rule maxTime_batches)
  have "int (p_time x) \<le> int (maxTime s)" if "x \<in> set (concat batches)" for x
    unfolding max using that by (intro of_nat_mono Max_ge) auto
  moreover note next_time_bounds[OF assms(1-4), of s t]
  ultimately show ?thesis unfolding max by (meson le_less_trans)
qed

lemma next_available_time_fresh_witness:
  "5 < next_available_time 7 (fold add_patches [[sample_patch 5 [9]], [sample_patch 2 []]] (new_plist ())) 1 1 3 \<and>
   next_available_time 7 (fold add_patches [[sample_patch 5 [9]], [sample_patch 2 []]] (new_plist ())) 1 1 3 mod 3 = 1"
  using next_available_time_fresh[of 1 3 7 "[[sample_patch 5 [9]], [sample_patch 2 []]]" "()" 1] by (simp add: sample_patch_def)

section \<open>Collisions\<close>

lemma fold_add_patches_grows:
  assumes "plist_ok n s" "\<forall>ps \<in> set batches. \<forall>x \<in> set ps. \<not> p_is_snapshot x \<and> timely n x"
  shows "obj_get (live s) \<subseteq>\<^sub>m obj_get (live (fold add_patches batches s))"
  using assms
proof (induction batches arbitrary: s)
  case (Cons ps batches)
  have "calm s ps" "\<forall>x \<in> set ps. p_is_snapshot x \<or> timely n x" using Cons.prems(2) by (auto simp: calm_def)
  from add_patches_calm[OF Cons.prems(1) this(2,1)] have "obj_get (live s) \<subseteq>\<^sub>m obj_get (live (add_patches ps s))"
    by (simp add: grows_def)
  also have "\<dots> \<subseteq>\<^sub>m obj_get (live (fold add_patches batches (add_patches ps s)))"
    by (rule Cons.IH) (use Cons.prems add_patches_ok[of n s ps] in auto)
  finally show ?case by simp
qed simp

text \<open>C36: Two patches with the same time are never reconciled: when one client has taken up \<open>x\<close> for a time and
  another \<open>y\<close>, then whatever patches are delivered to them from then on, in whatever batches and with repetitions, also
  each other's, the first has \<open>x\<close> at that time and the second \<open>y\<close>. (Two clients of one
  account draw times from the same class, so this can happen to them.) The messages are no snapshots and have times of the same number of digits and
  earlier parents.\<close>

theorem same_time_never_reconciled:
  assumes "\<forall>ps \<in> set (before1 @ before2). \<forall>z \<in> set ps. p_is_snapshot z \<or> timely n z"
    and "s1 = fold add_patches before1 (new_plist c1)" "s2 = fold add_patches before2 (new_plist c2)"
    and "patch_at s1 t = Some x" "patch_at s2 t = Some y"
    and "\<forall>ps \<in> set (later1 @ later2). \<forall>z \<in> set ps. \<not> p_is_snapshot z \<and> timely n z"
  shows "patch_at (fold add_patches later1 s1) t = Some x \<and> patch_at (fold add_patches later2 s2) t = Some y"
proof -
  have ok: "plist_ok n s1" "plist_ok n s2"
    unfolding assms(2,3) by (intro fold_add_patches_ok plist_ok_new; use assms(1) in auto)+
  have "obj_get (live s1) \<subseteq>\<^sub>m obj_get (live (fold add_patches later1 s1))"
    "obj_get (live s2) \<subseteq>\<^sub>m obj_get (live (fold add_patches later2 s2))"
    by (rule fold_add_patches_grows[OF ok(1)] fold_add_patches_grows[OF ok(2)]; use assms(6) in auto)+
  then show ?thesis using assms(4,5) unfolding patch_at_def map_le_def by (metis domI)
qed

lemma same_time_never_reconciled_witness:
  "patch_at (fold add_patches [[sample_patch 1 []], [(sample_patch 2 [1])\<lparr>p_patch := Some 7\<rparr>]] two_patches) 2 = Some (sample_patch 2 [1]) \<and>
   patch_at (fold add_patches [[sample_patch 1 []], [sample_patch 2 [1]]]
     (fold add_patches [[sample_patch 1 []], [(sample_patch 2 [1])\<lparr>p_patch := Some 7\<rparr>]] (new_plist ()))) 2 =
     Some ((sample_patch 2 [1])\<lparr>p_patch := Some 7\<rparr>)"
proof -
  let ?y = "(sample_patch 2 [1])\<lparr>p_patch := Some 7\<rparr>"
  have t: "timely 1 (sample_patch 1 [])" "timely 1 (sample_patch 2 [1])"
    using sample_timely[of 1 "[]"] sample_timely[of 2 "[1]"] by simp_all
  then have ty: "timely 1 ?y" by (simp add: timely_def parents_of_def)
  have s1: "two_patches = fold add_patches [[sample_patch 1 [], sample_patch 2 [1]]] (new_plist [])" by (simp add: two_patches_def)
  have x: "patch_at two_patches 2 = Some (sample_patch 2 [1])" by (simp add: patch_at_def two_patches_live)
  have y: "patch_at (fold add_patches [[sample_patch 1 []], [?y]] (new_plist ())) 2 = Some ?y"
    by (simp add: patch_at_def eval_add, simp add: add_loop.simps eval_add)
  show ?thesis
    by (rule same_time_never_reconciled[OF _ s1 refl x y, where n = 1]) (use t ty in \<open>auto simp: sample_patch_def\<close>)
qed

section \<open>What goes wrong\<close>

definition diamond :: "(nat, (nat, 'd \<times> nat) obj) plist" where
  "diamond = add_patches [sample_patch 1 [], sample_patch 2 [1], sample_patch 3 [2], sample_patch 4 [2],
     sample_patch 5 [3, 4]] (new_plist [])"

lemma diamond_live:
  "live diamond = [(5, sample_patch 5 [3, 4]), (4, sample_patch 4 [2]), (2, sample_patch 2 [1]), (1, sample_patch 1 []),
     (3, sample_patch 3 [2])]" "staging diamond = []" "cache diamond = []" "heldSnapshots diamond = []"
  by (simp_all add: diamond_def eval_add, simp_all add: add_loop.simps eval_add)

definition stale :: "(string \<Rightarrow> 'd) \<Rightarrow> ('d \<Rightarrow> nat option \<Rightarrow> 'd) \<Rightarrow> string \<Rightarrow> (nat, (nat, 'd \<times> nat) obj) plist" where
  "stale fs ap str = add_patches [sample_snapshot 2 str] (snd (plist_value fs ap map_cget map_cset (Some 4) None False diamond))"

text \<open>The cache is not cleared when a snapshot arrives for a live patch. A cached value then stands for
  more patches than its successor counts: here the value at time 5 is computed from the cached
  value at time 4 and patch 3 is left out of it, whereas without the cache it is applied.\<close>

theorem snapshot_makes_cache_stale:
  "fst (plist_value fs ap map_cget map_cset (Some 5) None False (stale fs ap str)) =
     Inr (ap (ap (ap (ap (fs '''') (Some 1)) (Some 2)) (Some 4)) (Some 5)) \<and>
   fst (plist_value fs ap map_cget map_cset (Some 5) None True (stale fs ap str)) =
     Inr (ap (ap (ap (fs str) (Some 3)) (Some 4)) (Some 5))"
proof -
  have L: "live (stale fs ap str) =
      [(5, sample_patch 5 [3, 4]), (4, sample_patch 4 [2]), (2, with_snapshot (sample_snapshot 2 str) (sample_patch 2 [1])),
       (1, sample_patch 1 []), (3, sample_patch 3 [2])]"
    by (simp add: stale_def eval_value diamond_live eval_add, simp add: add_loop.simps diamond_live eval_value eval_add)
  have c: "cache (stale fs ap str) = [(4, ap (ap (ap (fs '''') (Some 1)) (Some 2)) (Some 4), 3)]"
    by (simp add: stale_def eval_value diamond_live eval_add, simp add: add_loop.simps diamond_live eval_value eval_add)
  show ?thesis by (simp add: eval_value L c, simp_all add: eval_value eval_add)
qed

text \<open>Only the heads of the staging area are tried, so a complete history is held back as long as
  every head on top of it misses a parent; the same patches in two batches are accepted.\<close>

theorem complete_patches_held_back:
  "fst (versions (add_patches [sample_patch 1 [], sample_patch 2 [1], sample_patch 4 [2, 3]] (new_plist ()))) = [] \<and>
   fst (versions (add_patches [sample_patch 4 [2, 3]] (add_patches [sample_patch 1 [], sample_patch 2 [1]] (new_plist ())))) = [1, 2]"
proof
  show "fst (versions (add_patches [sample_patch 1 [], sample_patch 2 [1], sample_patch 4 [2, 3]] (new_plist ()))) = []"
    by (simp add: eval_add versions_def, simp add: add_loop.simps eval_add)
  show "fst (versions (add_patches [sample_patch 4 [2, 3]] (add_patches [sample_patch 1 [], sample_patch 2 [1]] (new_plist ())))) = [1, 2]"
    by (simp add: eval_add versions_def, simp add: add_loop.simps eval_add)
qed

definition nine_ten :: "(nat, (nat, 'd \<times> nat) obj) plist" where
  "nine_ten = add_patches [sample_patch 9 [], sample_patch 10 [9]] (new_plist [])"

lemma nine_ten_live: "live nine_ten = [(10, sample_patch 10 [9]), (9, sample_patch 9 [])]" "cache nine_ten = []"
  by (simp_all add: nine_ten_def eval_add, simp_all add: add_loop.simps eval_add)

text \<open>The times to apply are sorted as strings: the patch of time 10 is applied before the patch of
  time 9 that it was made on.\<close>

theorem value_applies_child_first:
  "fst (plist_value fs ap map_cget map_cset (Some 10) None False nine_ten) =
    Inr (ap (ap (fs '''') (Some 10)) (Some 9))"
  by (simp add: eval_value nine_ten_live, simp add: eval_value eval_add)

definition two_cuts :: "(nat, unit) plist" where
  "two_cuts = add_patches [sample_patch 1 [], sample_patch 2 [1], sample_patch 3 [1], sample_patch 4 [2, 3],
     sample_patch 5 [4], sample_patch 6 [5]] (new_plist ())"

text \<open>A time for a snapshot should be one where every later patch has all its parents at that time or
  later. The test counts the different parents that are missing, so time 2 is chosen here although
  patch 3 is on top of patch 1.\<close>

theorem snapshot_time_cuts_history:
  "fst (time_of_unmade_periodic_snapshot 1 100 two_cuts) = Some 2 \<and> parents_of (the (patch_at two_cuts 3)) = [1]"
proof -
  have L: "live two_cuts = [(6, sample_patch 6 [5]), (5, sample_patch 5 [4]), (4, sample_patch 4 [2, 3]), (3, sample_patch 3 [1]),
      (1, sample_patch 1 []), (2, sample_patch 2 [1])] \<and> patches two_cuts = [1, 2, 3, 4, 5, 6] \<and> neverSnapshotTimes two_cuts = []"
    by (simp add: two_cuts_def eval_add, simp add: add_loop.simps eval_add)
  have ps: "export_patches two_cuts = [sample_patch 1 [], sample_patch 2 [1], sample_patch 3 [1], sample_patch 4 [2, 3],
      sample_patch 5 [4], sample_patch 6 [5]]"
    by (simp add: L export_patches_def)
  have ten: "i + minAge < length ts \<Longrightarrow> length (getMissingNodes graph) = 1 \<Longrightarrow>
      try_snapshot 10 ts minAge graph never i = (Some (ts ! i), never)" for ts minAge graph never i
    using try_snapshot.simps(2)[of 9 ts minAge graph never i] by simp
  have "canidateSnapshotIndex 1 100 two_cuts = Some 1"
    by (simp add: canidateSnapshotIndex_def ps candidate_loop.simps isSnapshot_def parents_of_def sample_patch_def)
  moreover have "fst (nextValidSnapshotTime 1 1 two_cuts) = Some 2"
    unfolding nextValidSnapshotTime_def ps
    by (simp add: L ten skip_never.simps getMissingNodes_def js_values_def js_keys_def parents_of_def sample_patch_def)
  ultimately show ?thesis by (simp add: L patch_at_def time_of_unmade_periodic_snapshot_def parents_of_def sample_patch_def)
qed

end
