(* ===== verification/Dkv.thy ===== *)
theory Dkv
  imports CoreStream
begin

text \<open>
  The eventually consistent key:value store, the class \<open>DKV\<close> of
  \<^verbatim>\<open>packages/conat/sync/dkv.ts\<close>, on top of a CoreStream: local values that are not yet saved,
  the resolution of conflicts with remote values, and the attempts to save. An attempt is a
  sequence of phases, one for each \<open>await\<close>; the events of the stream and the calls of the user
  come in between. Values have decidable equality (\<open>isEqual\<close>); \<open>null\<close> is one of them. The result
  of the merge function given by the user is a parameter. \<open>undefined\<close> is \<open>None\<close>. The writing
  operations are those of an open store; on a closed one they throw.
\<close>

section \<open>State\<close>

datatype 't slot = Tombstone | Value 't

datatype 't merge_result = Merge_throws | Merge_undefined | Merge_tombstone | Merge_value 't

text \<open>The merge function takes the key, the local and the remote value and the previous one.\<close>

type_synonym 't merge_function = "string \<Rightarrow> 't \<Rightarrow> 't option \<Rightarrow> 't option \<Rightarrow> 't merge_result"

datatype 't dkv_event =
    Ev_stable
  | Ev_change string "'t slot option" "'t option"
  | Ev_reject string "'t slot option"
  | Ev_closed

datatype dkv_error = Closed

record ('h, 't) dkv =
  stream :: "('h, 't) cstream option"
  merge_fn :: "'t merge_function option"
  locals :: "(string, 't slot) obj"
  set_options :: "(string, 'h option) obj"
  saved :: "(string, 't slot) obj"
  remote :: "(string, 't) obj"
  changed :: "string list"
  noAutosave :: bool
  invalidSeq :: "nat list"
  save_calls :: nat
  events :: "'t dkv_event list"

definition new_dkv :: "'t merge_function option \<Rightarrow> bool \<Rightarrow> ('h, 't) dkv" where
  "new_dkv f na = \<lparr>stream = Some new_cstream, merge_fn = f, locals = [], set_options = [], saved = [], remote = [],
     changed = [], noAutosave = na, invalidSeq = [], save_calls = 0, events = []\<rparr>"

definition dkv_isClosed :: "('h, 't) dkv \<Rightarrow> bool" where
  "dkv_isClosed d \<longleftrightarrow> stream d = None"

definition dkv_emit :: "'t dkv_event \<Rightarrow> ('h, 't) dkv \<Rightarrow> ('h, 't) dkv" where
  "dkv_emit e d = d\<lparr>events := events d @ [e]\<rparr>"

text \<open>\<open>close\<close> also deletes the local state; later calls that use it throw.\<close>

definition dkv_close :: "('h, 't) dkv \<Rightarrow> ('h, 't) dkv" where
  "dkv_close d =
     (if dkv_isClosed d then d
      else (dkv_emit Ev_closed (d\<lparr>stream := None\<rparr>))\<lparr>locals := [], set_options := [], changed := [], merge_fn := None\<rparr>)"

definition isStable :: "('h, 't) dkv \<Rightarrow> bool" where
  "isStable d \<longleftrightarrow> locals d = []"

definition discardLocalState :: "string \<Rightarrow> ('h, 't) dkv \<Rightarrow> ('h, 't) dkv" where
  "discardLocalState k d =
     (let d' = d\<lparr>locals := obj_del k (locals d), set_options := obj_del k (set_options d), saved := obj_del k (saved d)\<rparr> in
      if isStable d' then dkv_emit Ev_stable d' else d')"

section \<open>Writing\<close>

text \<open>A call of \<open>save\<close>, which runs on its own: the attempts are below.\<close>

definition autosave :: "('h, 't) dkv \<Rightarrow> ('h, 't) dkv" where
  "autosave d = (if noAutosave d then d else d\<lparr>save_calls := save_calls d + 1\<rparr>)"

definition note_changed :: "string \<Rightarrow> ('h, 't) dkv \<Rightarrow> ('h, 't) dkv" where
  "note_changed k d = d\<lparr>changed := List.insert k (changed d)\<rparr>"

definition delete_local :: "string \<Rightarrow> ('h, 't) dkv \<Rightarrow> ('h, 't) dkv" where
  "delete_local k d = note_changed k (d\<lparr>locals := obj_set k Tombstone (locals d)\<rparr>)"

definition dkv_delete :: "string \<Rightarrow> ('h, 't) dkv \<Rightarrow> ('h, 't) dkv" where
  "dkv_delete k d = autosave (delete_local k d)"

definition dkv_clear :: "('h, 't) dkv \<Rightarrow> dkv_error + ('h, 't) dkv" where
  "dkv_clear d =
     (case stream d of
        None \<Rightarrow> Inl Closed
      | Some st \<Rightarrow>
          (let d1 = fold delete_local (keys (getAllKv st)) d in
           Inr (autosave (fold delete_local (keys (locals d1)) d1))))"

definition toValue :: "'t option \<Rightarrow> 't slot" where
  "toValue v = (case v of None \<Rightarrow> Tombstone | Some x \<Rightarrow> Value x)"

definition dkv_set :: "string \<Rightarrow> 't option \<Rightarrow> 'h option option \<Rightarrow> ('h, 't) dkv \<Rightarrow> ('h, 't) dkv" where
  "dkv_set k v opts d =
     (let d1 = d\<lparr>locals := obj_set k (toValue v) (locals d)\<rparr>;
          d2 = (case opts of None \<Rightarrow> d1 | Some h \<Rightarrow> d1\<lparr>set_options := obj_set k h (set_options d1)\<rparr>) in
      autosave (note_changed k d2))"

definition dkv_setMany :: "(string, 't option) obj \<Rightarrow> ('h, 't) dkv \<Rightarrow> ('h, 't) dkv" where
  "dkv_setMany obj d =
     autosave (fold (\<lambda>(k, v) d. note_changed k (d\<lparr>locals := obj_set k (toValue v) (locals d)\<rparr>)) obj d)"

section \<open>Remote changes\<close>

text \<open>The key, the message and the previous value of a change event of the stream.\<close>

fun event_parts :: "('h, 't) change_event \<Rightarrow> string option \<times> 't option \<times> 't option" where
  "event_parts (Change_set m r k prev i) = (k, Some m, prev)"
| "event_parts (Change_delete q k prev) = (map_option decimal k, None, prev)"

text \<open>\<open>this.merge?.(...) ?? local\<close>, where an exception gives \<open>local\<close> too.\<close>

definition merge_value :: "'t \<Rightarrow> 't merge_function option \<Rightarrow> string \<Rightarrow> 't \<Rightarrow> 't option \<Rightarrow> 't option \<Rightarrow> 't slot" where
  "merge_value null f k l rem prev =
     (case f of
        None \<Rightarrow> Value l
      | Some g \<Rightarrow>
          (case g k l rem prev of
             Merge_throws \<Rightarrow> Value l
           | Merge_undefined \<Rightarrow> Value l
           | Merge_tombstone \<Rightarrow> Tombstone
           | Merge_value v \<Rightarrow> if v = null then Value l else Value v))"

definition is_remote :: "'t slot \<Rightarrow> 't option \<Rightarrow> bool" where
  "is_remote v rem \<longleftrightarrow> (case v of Tombstone \<Rightarrow> False | Value x \<Rightarrow> rem = Some x)"

definition resolve_conflict :: "'t \<Rightarrow> string \<Rightarrow> 't \<Rightarrow> 't option \<Rightarrow> 't option \<Rightarrow> ('h, 't) dkv \<Rightarrow> 't slot \<times> ('h, 't) dkv" where
  "resolve_conflict null k l rem prev d =
     (let v = merge_value null (merge_fn d) k l rem prev in
      (v, if is_remote v rem then discardLocalState k d
          else (case v of Tombstone \<Rightarrow> dkv_delete k d | Value x \<Rightarrow> dkv_set k (Some x) None d)))"

definition handleRemoteChange :: "'t \<Rightarrow> ('h, 't) change_event \<Rightarrow> ('h, 't) dkv \<Rightarrow> ('h, 't) dkv" where
  "handleRemoteChange null e d =
     (case event_parts e of
        (None, _, _) \<Rightarrow> d
      | (Some k, rem, prev) \<Rightarrow>
          (let prevResolved = (if prev = None \<or> prev = Some null then obj_get (remote d) k else prev);
               (value, d1) =
                 (case obj_get (locals d) k of
                    Some (Value l) \<Rightarrow>
                      if rem = Some l then (map_option Value rem, discardLocalState k d)
                      else map_prod Some id (resolve_conflict null k l rem prevResolved d)
                  | _ \<Rightarrow> (map_option Value rem, d));
               d2 = d1\<lparr>remote := (case rem of None \<Rightarrow> obj_del k (remote d1) | Some x \<Rightarrow> obj_set k x (remote d1))\<rparr> in
           dkv_emit (Ev_change k value prevResolved) d2))"

section \<open>Reading\<close>

definition dkv_get :: "string \<Rightarrow> ('h, 't) dkv \<Rightarrow> dkv_error + 't option" where
  "dkv_get k d =
     (case stream d of
        None \<Rightarrow> Inl Closed
      | Some st \<Rightarrow>
          Inr (case obj_get (locals d) k of
                 Some Tombstone \<Rightarrow> None
               | Some (Value v) \<Rightarrow> Some v
               | None \<Rightarrow> getKv k st))"

definition dkv_getAll :: "('h, 't) dkv \<Rightarrow> dkv_error + (string, 't) obj" where
  "dkv_getAll d =
     (case stream d of
        None \<Rightarrow> Inl Closed
      | Some st \<Rightarrow>
          (let x = merge_obj (map (\<lambda>(k, v). (k, Value v)) (getAllKv st)) (locals d);
               y = foldl (\<lambda>x (k, v). if v = Tombstone then obj_del k x else x) x (locals d) in
           Inr (concat (map (\<lambda>(k, v). case v of Tombstone \<Rightarrow> [] | Value u \<Rightarrow> [(k, u)]) y))))"

definition dkv_length :: "('h, 't) dkv \<Rightarrow> dkv_error + nat" where
  "dkv_length d = map_sum id length (dkv_getAll d)"

definition dkv_keys :: "('h, 't) dkv \<Rightarrow> string list" where
  "dkv_keys d =
     (case stream d of
        None \<Rightarrow> []
      | Some st \<Rightarrow> (let ks = keysKv st in ks @ filter (\<lambda>k. k \<notin> set ks) (keys (locals d))))"

definition dkv_has :: "string \<Rightarrow> ('h, 't) dkv \<Rightarrow> dkv_error + bool" where
  "dkv_has k d =
     (case stream d of
        None \<Rightarrow> Inl Closed
      | Some st \<Rightarrow>
          Inr (case obj_get (locals d) k of
                 Some Tombstone \<Rightarrow> False
               | Some (Value v) \<Rightarrow> True
               | None \<Rightarrow> hasKv k st))"

definition dkv_time :: "string \<Rightarrow> ('h, 't) dkv \<Rightarrow> dkv_error + rat option" where
  "dkv_time k d = (case stream d of None \<Rightarrow> Inl Closed | Some st \<Rightarrow> Inr (timeKv k st))"

definition dkv_seq :: "string \<Rightarrow> ('h, 't) dkv \<Rightarrow> dkv_error + nat option" where
  "dkv_seq k d = (case stream d of None \<Rightarrow> Inl Closed | Some st \<Rightarrow> Inr (seqKv k st))"

definition dkv_headers :: "string \<Rightarrow> ('h, 't) dkv \<Rightarrow> 'h option" where
  "dkv_headers k d =
     (case obj_get (set_options d) k of
        Some h \<Rightarrow> h
      | None \<Rightarrow> Option.bind (stream d) (headersKv k))"

definition unsavedChanges :: "('h, 't) dkv \<Rightarrow> string list" where
  "unsavedChanges d = filter (\<lambda>k. obj_get (locals d) k \<noteq> obj_get (saved d) k) (keys (locals d))"

definition hasUnsavedChanges :: "('h, 't) dkv \<Rightarrow> bool" where
  "hasUnsavedChanges d \<longleftrightarrow> stream d \<noteq> None \<and> unsavedChanges d \<noteq> []"

text \<open>When the loop of \<open>save\<close> ends after an attempt.\<close>

definition save_finished :: "('h, 't) dkv \<Rightarrow> bool" where
  "save_finished d \<longleftrightarrow> noAutosave d \<or> stream d = None \<or> \<not> hasUnsavedChanges d"

section \<open>Saving\<close>

text \<open>What the requests need: the format of messages and the tombstone header.\<close>

record ('h, 't) wire =
  w_codec :: "'h codec"
  w_decode :: "nat \<Rightarrow> bytes \<Rightarrow> 't option"
  w_encode :: "'t \<Rightarrow> nat \<times> bytes"
  w_null :: 't
  w_is_tombstone :: "'h \<Rightarrow> bool"
  w_tombstone :: 'h
  w_thresh :: nat

text \<open>An element of \<open>x\<close>.\<close>

record ('h, 't) save_item =
  i_key :: string
  i_mesg :: 't
  i_headers :: "'h option"
  i_previousSeq :: "nat option"

datatype save_code = Code_reject | Code_wrong_last_sequence | Code_timeout | Code_other

datatype ('h, 't) save_phase =
    Idle
  | Deleting string "'h set_args option" "string list" "(string, 't slot) obj"
  | Deleted string "string list" "(string, 't slot) obj"
  | Setting "('h, 't) save_item list" "save_code option list"

definition tombstones :: "(string, 't slot) obj \<Rightarrow> string list" where
  "tombstones obj = keys (filter (\<lambda>(_, v). v = Tombstone) obj)"

definition set_item :: "('h, 't) dkv \<Rightarrow> string \<Rightarrow> 't \<Rightarrow> ('h, 't) save_item option" where
  "set_item d k v =
     (let previousSeq = (if merge_fn d = None then None else Option.bind (stream d) (seqKv k)) in
      if (case previousSeq of None \<Rightarrow> False | Some q \<Rightarrow> q \<noteq> 0 \<and> q \<in> set (invalidSeq d)) then None
      else Some \<lparr>i_key = k, i_mesg = v, i_headers = Option.bind (obj_get (set_options d) k) id,
                 i_previousSeq = previousSeq\<rparr>)"

definition set_items :: "(string, 't slot) obj \<Rightarrow> ('h, 't) dkv \<Rightarrow> ('h, 't) save_item list" where
  "set_items obj d = List.map_filter (\<lambda>(k, s). case s of Tombstone \<Rightarrow> None | Value v \<Rightarrow> set_item d k v) obj"

definition item_request :: "('h, 't) wire \<Rightarrow> ('h, 't) save_item \<Rightarrow> 'h set_args" where
  "item_request w it = set_request (w_encode w) (i_mesg it)
     \<lparr>o_headers = i_headers it, o_msgID = None, o_key = Some (i_key it), o_previousSeq = i_previousSeq it, o_ttl = None\<rparr>"

definition delete_key_request :: "('h, 't) wire \<Rightarrow> string \<Rightarrow> ('h, 't) dkv \<Rightarrow> 'h set_args option" where
  "delete_key_request w k d =
     Option.bind (stream d) (deleteKv (w_encode w) (w_null w) (w_tombstone w) k None None)"

text \<open>Up to the next \<open>await\<close>: the next key to delete, or the sets.\<close>

definition next_phase :: "('h, 't) wire \<Rightarrow> string list \<Rightarrow> (string, 't slot) obj \<Rightarrow> ('h, 't) dkv \<Rightarrow> ('h, 't) save_phase" where
  "next_phase w ks obj d =
     (case ks of
        [] \<Rightarrow> Setting (set_items obj d) []
      | k # ks' \<Rightarrow> Deleting k (delete_key_request w k d) ks' obj)"

definition save_start :: "('h, 't) wire \<Rightarrow> ('h, 't) dkv \<Rightarrow> ('h, 't) save_phase \<times> ('h, 't) dkv" where
  "save_start w d =
     (if stream d = None then (Idle, d)
      else (let d' = d\<lparr>changed := []\<rparr> in (next_phase w (tombstones (locals d')) (locals d') d', d')))"

definition delete_done :: "('h, 't) wire \<Rightarrow> string \<Rightarrow> string list \<Rightarrow> (string, 't slot) obj \<Rightarrow> ('h, 't) dkv \<Rightarrow>
    ('h, 't) save_phase \<times> ('h, 't) dkv" where
  "delete_done w k ks obj d =
     (if stream d = None then (Idle, d)
      else (let d' = (if k \<in> set (changed d) then d else discardLocalState k d) in (next_phase w ks obj d', d')))"

text \<open>
  The loop over the results; \<open>True\<close> when there were errors, so that the attempt throws. The
  sequence number that is marked as invalid is read from \<open>x[i]\<close> after \<open>i++\<close>.
\<close>

fun results_loop :: "('h, 't) save_item list \<Rightarrow> nat \<Rightarrow> save_code option list \<Rightarrow> bool \<Rightarrow> ('h, 't) dkv \<Rightarrow>
    bool \<times> ('h, 't) dkv" where
  "results_loop x i [] failed d = (failed, d)"
| "results_loop x i (r # rs) failed d =
     (if stream d = None then (False, d)
      else (case r of
        None \<Rightarrow> results_loop x (i + 1) rs failed d
      | Some code \<Rightarrow>
          (let k = i_key (x ! i);
               d1 = (if code = Code_reject
                     then dkv_emit (Ev_reject k (obj_get (locals d) k)) (discardLocalState k d) else d) in
           if code = Code_wrong_last_sequence then
             (False,
              (if i + 1 < length x
               then (case i_previousSeq (x ! (i + 1)) of
                       Some q \<Rightarrow> if q \<noteq> 0 then d1\<lparr>invalidSeq := List.insert q (invalidSeq d1)\<rparr> else d1
                     | None \<Rightarrow> d1)
               else d1))
           else if code = Code_timeout then (False, d1)
           else results_loop x (i + 1) rs True d1)))"

definition save_results :: "('h, 't) save_item list \<Rightarrow> save_code option list \<Rightarrow> ('h, 't) dkv \<Rightarrow> bool \<times> ('h, 't) dkv" where
  "save_results x rs d = results_loop x 0 rs False d"

section \<open>The server side of \<open>setMany\<close>\<close>

definition error_code :: "storage_error \<Rightarrow> save_code" where
  "error_code e =
     (case e of
        WrongLastSequence \<Rightarrow> Code_wrong_last_sequence
      | TypeErr \<Rightarrow> Code_other
      | UnknownCompression \<Rightarrow> Code_other
      | _ \<Rightarrow> Code_reject)"

fun server_setMany :: "'h codec \<Rightarrow> (rat \<times> 'h set_args) list \<Rightarrow> 'h storage \<Rightarrow> save_code option list \<times> 'h storage" where
  "server_setMany c [] s = ([], s)"
| "server_setMany c ((now, a) # ops) s =
     (let (r, s1) = storage_set c now a s;
          (rs, s2) = server_setMany c ops s1 in
      ((case r of Inl e \<Rightarrow> Some (error_code e) | Inr _ \<Rightarrow> None) # rs, s2))"

section \<open>A store as a state machine\<close>

record ('h, 't) node =
  n_dkv :: "('h, 't) dkv"
  n_read :: nat
  n_phase :: "('h, 't) save_phase"

datatype ('h, 't) node_op =
    Set_key string "'t option" "'h option option"
  | Set_many "(string, 't option) obj"
  | Delete_key string
  | Clear
  | Receive "'h change"
  | Start_save
  | Deletion_sent
  | Deletion_done
  | Batch_done "save_code option list"
  | Results_done
  | Attempt_fails

definition receive :: "('h, 't) wire \<Rightarrow> 'h change \<Rightarrow> ('h, 't) dkv \<Rightarrow> stream_error option \<times> ('h, 't) dkv" where
  "receive w e d =
     (case stream d of
        None \<Rightarrow> (None, d)
      | Some st \<Rightarrow>
          (let (err, st') = processPersistentMessage (w_thresh w) (w_decode w) (w_is_tombstone w) False False e st in
           (err, fold (handleRemoteChange (w_null w)) (drop (length (changes st)) (changes st')) (d\<lparr>stream := Some st'\<rparr>))))"

fun node_exec :: "('h, 't) wire \<Rightarrow> ('h, 't) node_op \<Rightarrow> ('h, 't) node \<Rightarrow> ('h, 't) node" where
  "node_exec w (Set_key k v opts) n = n\<lparr>n_dkv := dkv_set k v opts (n_dkv n)\<rparr>"
| "node_exec w (Set_many obj) n = n\<lparr>n_dkv := dkv_setMany obj (n_dkv n)\<rparr>"
| "node_exec w (Delete_key k) n = n\<lparr>n_dkv := dkv_delete k (n_dkv n)\<rparr>"
| "node_exec w Clear n = (case dkv_clear (n_dkv n) of Inl _ \<Rightarrow> n | Inr d \<Rightarrow> n\<lparr>n_dkv := d\<rparr>)"
| "node_exec w (Receive e) n = n\<lparr>n_dkv := snd (receive w e (n_dkv n)), n_read := n_read n + 1\<rparr>"
| "node_exec w Start_save n =
     (if n_phase n = Idle then (let (p, d) = save_start w (n_dkv n) in n\<lparr>n_dkv := d, n_phase := p\<rparr>) else n)"
| "node_exec w Deletion_sent n =
     (case n_phase n of Deleting k _ ks obj \<Rightarrow> n\<lparr>n_phase := Deleted k ks obj\<rparr> | _ \<Rightarrow> n)"
| "node_exec w (Batch_done rs) n =
     (case n_phase n of Setting x rs0 \<Rightarrow> n\<lparr>n_phase := Setting x (rs0 @ rs)\<rparr> | _ \<Rightarrow> n)"
| "node_exec w Deletion_done n =
     (case n_phase n of
        Deleted k ks obj \<Rightarrow> (let (p, d) = delete_done w k ks obj (n_dkv n) in n\<lparr>n_dkv := d, n_phase := p\<rparr>)
      | _ \<Rightarrow> n)"
| "node_exec w Results_done n =
     (case n_phase n of
        Setting x rs \<Rightarrow>
          if length rs = length x then n\<lparr>n_dkv := snd (save_results x rs (n_dkv n)), n_phase := Idle\<rparr> else n
      | _ \<Rightarrow> n)"
| "node_exec w Attempt_fails n = n\<lparr>n_phase := Idle\<rparr>"

end
