(* ===== verification/DkvClient.thy ===== *)
theory DkvClient
  imports Dkv
begin

text \<open>
  The properties of one key:value store (Dkv): its reads agree, a local value is kept until it is
  saved, and what goes wrong.
\<close>

section \<open>Reads\<close>

text \<open>The invariant that the tables are objects: one entry per key.\<close>

definition objects_ok :: "('h, 't) dkv \<Rightarrow> bool" where
  "objects_ok d \<longleftrightarrow> distinct (keys (locals d)) \<and> (\<forall>st. stream d = Some st \<longrightarrow> distinct (keys (kv st)))"

definition visible :: "(string, 't slot) obj \<Rightarrow> ('h, 't) cstream \<Rightarrow> string \<Rightarrow> 't option" where
  "visible L st k = (case obj_get L k of Some Tombstone \<Rightarrow> None | Some (Value v) \<Rightarrow> Some v | None \<Rightarrow> getKv k st)"

lemma obj_get_getAllKv:
  fixes st :: "('h, 't) cstream"
  shows "obj_get (getAllKv st) k = getKv k st"
proof -
  have "obj_get (map (\<lambda>(k, (m, _)). (k, m)) xs) k = map_option fst (obj_get xs k)"
    for xs :: "(string, 't \<times> 'h raw_msg) obj" by (induction xs) auto
  then show ?thesis by (simp add: getAllKv_def getKv_def)
qed

lemma obj_get_values:
  "distinct (keys y) \<Longrightarrow> obj_get (concat (map (\<lambda>(k, v). case v of Tombstone \<Rightarrow> [] | Value u \<Rightarrow> [(k, u)]) y)) k =
     (case obj_get y k of Some (Value u) \<Rightarrow> Some u | _ \<Rightarrow> None)"
proof (induction y)
  case (Cons kv y)
  obtain k' v where kv: "kv = (k', v)" by (cases kv)
  show ?case
  proof (cases "k' = k")
    case True
    then have "obj_get y k = None" using Cons.prems kv by (simp add: map_of_eq_None_iff)
    then show ?thesis using Cons kv True by (cases v) auto
  qed (use Cons kv in \<open>auto split: slot.split\<close>)
qed simp

lemma distinct_values:
  "distinct (keys y) \<Longrightarrow> distinct (keys (concat (map (\<lambda>(k, v). case v of Tombstone \<Rightarrow> [] | Value u \<Rightarrow> [(k, u)]) y)))"
proof (induction y)
  case (Cons kv y)
  obtain k v where kv: "kv = (k, v)" by (cases kv)
  have "k \<notin> set (keys (concat (map (\<lambda>(k, v). case v of Tombstone \<Rightarrow> [] | Value u \<Rightarrow> [(k, u)]) y)))"
    using Cons.prems kv by (force split: slot.splits)
  then show ?case using Cons kv by (cases v) simp_all
qed simp

lemma get_drop_tombstones:
  "obj_get (foldl (\<lambda>x (k, v). if v = Tombstone then obj_del k x else x) x L) k =
     (if (k, Tombstone) \<in> set L then None else obj_get x k)"
proof (induction L arbitrary: x)
  case (Cons kv L)
  then show ?case by (cases kv) (auto simp: delete_conv' simp del: not_None_eq)
qed simp

lemma distinct_drop_tombstones:
  "distinct (keys x) \<Longrightarrow> distinct (keys (foldl (\<lambda>x (k, v). if v = Tombstone then obj_del k x else x) x L))"
  by (induction L arbitrary: x) (auto simp: distinct_delete)

lemma distinct_merge: "distinct (keys a) \<Longrightarrow> distinct (keys (merge_obj a b))"
proof -
  assume "distinct (keys a)"
  then have "distinct (keys (foldl (\<lambda>g (k, v). obj_set k v g) a b))"
    by (induction b arbitrary: a) (auto simp: distinct_update)
  then show ?thesis by (simp add: merge_obj_def)
qed

lemma getAll_visible:
  assumes "objects_ok d" "stream d = Some st"
  shows "\<exists>xs. dkv_getAll d = Inr xs \<and> distinct (keys xs) \<and> (\<forall>k. obj_get xs k = visible (locals d) st k)"
proof -
  let ?x = "merge_obj (map (\<lambda>(k, v). (k, Value v)) (getAllKv st)) (locals d)"
  let ?y = "foldl (\<lambda>x (k, v). if v = Tombstone then obj_del k x else x) ?x (locals d)"
  let ?xs = "concat (map (\<lambda>(k, v). case v of Tombstone \<Rightarrow> [] | Value u \<Rightarrow> [(k, u)]) ?y)"
  have L: "distinct (keys (locals d))" and K: "distinct (keys (kv st))" using assms by (simp_all add: objects_ok_def)
  have ks: "keys (map (\<lambda>(k, v). (k, Value v)) (getAllKv st)) = keys (kv st)"
    by (simp add: getAllKv_def split_def comp_def)
  have y: "distinct (keys ?y)"
    by (intro distinct_drop_tombstones distinct_merge) (unfold ks, rule K)
  have "obj_get ?x k = (case obj_get (locals d) k of Some v \<Rightarrow> Some v | None \<Rightarrow> map_option Value (getKv k st))" for k
    by (simp add: get_merge[OF L] map_add_def map_of_map obj_get_getAllKv split: option.split)
  then have "obj_get ?y k = (if obj_get (locals d) k = Some Tombstone then None
      else case obj_get (locals d) k of Some v \<Rightarrow> Some v | None \<Rightarrow> map_option Value (getKv k st))" for k
    unfolding get_drop_tombstones obj_get_mem[OF L] by simp
  then have "obj_get ?xs k = visible (locals d) st k" for k
    unfolding obj_get_values[OF y] visible_def
    by (cases "obj_get (locals d) k"; cases "getKv k st"; cases "the (obj_get (locals d) k)") simp_all
  moreover have "distinct (keys ?xs)"
    by (rule distinct_values[OF y])
  ultimately show ?thesis using assms(2) by (auto simp: dkv_getAll_def Let_def)
qed

text \<open>\<open>get\<close>, \<open>has\<close>, \<open>getAll\<close> and \<open>length\<close> of an open store give one picture: a key has the local value if
  there is one, no value if it is deleted locally, and otherwise the value of the stream.\<close>

theorem reads_agree:
  assumes "objects_ok d" "stream d = Some st"
  shows "\<exists>xs. dkv_getAll d = Inr xs \<and> distinct (keys xs) \<and> dkv_length d = Inr (length xs) \<and>
    dkv_get k d = Inr (obj_get xs k) \<and> dkv_has k d = Inr (obj_get xs k \<noteq> None) \<and>
    obj_get xs k = (case obj_get (locals d) k of Some Tombstone \<Rightarrow> None | Some (Value v) \<Rightarrow> Some v | None \<Rightarrow> getKv k st)"
proof -
  obtain xs where xs: "dkv_getAll d = Inr xs" "distinct (keys xs)" "\<forall>k. obj_get xs k = visible (locals d) st k"
    using getAll_visible[OF assms] by blast
  have "hasKv k st = (getKv k st \<noteq> None)" by (simp add: hasKv_def getKv_def)
  then have "dkv_has k d = Inr (obj_get xs k \<noteq> None)" "dkv_get k d = Inr (obj_get xs k)"
    using assms(2) xs(3) by (simp_all add: dkv_has_def dkv_get_def visible_def split: option.split slot.split)
  then show ?thesis using xs by (auto simp: dkv_length_def visible_def)
qed

section \<open>What the operations change\<close>

lemma discard_fields [simp]:
  "locals (discardLocalState k d) = obj_del k (locals d)" "stream (discardLocalState k d) = stream d"
  "changed (discardLocalState k d) = changed d" "merge_fn (discardLocalState k d) = merge_fn d"
  "invalidSeq (discardLocalState k d) = invalidSeq d" "remote (discardLocalState k d) = remote d"
  "saved (discardLocalState k d) = obj_del k (saved d)"
  by (simp_all add: discardLocalState_def Let_def dkv_emit_def)

lemma set_fields [simp]:
  "locals (dkv_set k v opts d) = obj_set k (toValue v) (locals d)" "stream (dkv_set k v opts d) = stream d"
  "changed (dkv_set k v opts d) = List.insert k (changed d)" "merge_fn (dkv_set k v opts d) = merge_fn d"
  "invalidSeq (dkv_set k v opts d) = invalidSeq d" "saved (dkv_set k v opts d) = saved d"
  by (simp_all add: dkv_set_def Let_def autosave_def note_changed_def split: option.split)

lemma delete_fields [simp]:
  "locals (dkv_delete k d) = obj_set k Tombstone (locals d)" "stream (dkv_delete k d) = stream d"
  "changed (dkv_delete k d) = List.insert k (changed d)" "merge_fn (dkv_delete k d) = merge_fn d"
  "invalidSeq (dkv_delete k d) = invalidSeq d" "saved (dkv_delete k d) = saved d"
  by (simp_all add: dkv_delete_def delete_local_def autosave_def note_changed_def)

lemma emit_fields [simp]:
  "locals (dkv_emit e d) = locals d" "stream (dkv_emit e d) = stream d" "changed (dkv_emit e d) = changed d"
  "merge_fn (dkv_emit e d) = merge_fn d" "invalidSeq (dkv_emit e d) = invalidSeq d" "saved (dkv_emit e d) = saved d"
  by (simp_all add: dkv_emit_def)

lemma setMany_fields:
  "stream (dkv_setMany obj d) = stream d" "merge_fn (dkv_setMany obj d) = merge_fn d"
  "saved (dkv_setMany obj d) = saved d" "set (changed (dkv_setMany obj d)) = set (changed d) \<union> set (keys obj)"
  "k \<notin> set (keys obj) \<Longrightarrow> obj_get (locals (dkv_setMany obj d)) k = obj_get (locals d) k"
  "distinct (keys (locals d)) \<Longrightarrow> distinct (keys (locals (dkv_setMany obj d)))"
proof -
  let ?f = "\<lambda>(k, v) d. note_changed k (d\<lparr>locals := obj_set k (toValue v) (locals d)\<rparr>)"
  have "stream (fold ?f obj d) = stream d \<and> merge_fn (fold ?f obj d) = merge_fn d \<and> saved (fold ?f obj d) = saved d \<and>
      set (changed (fold ?f obj d)) = set (changed d) \<union> set (keys obj) \<and>
      (k \<notin> set (keys obj) \<longrightarrow> obj_get (locals (fold ?f obj d)) k = obj_get (locals d) k) \<and>
      (distinct (keys (locals d)) \<longrightarrow> distinct (keys (locals (fold ?f obj d))))"
    by (induction obj arbitrary: d) (auto simp: note_changed_def update_conv' distinct_update)
  then show "stream (dkv_setMany obj d) = stream d" "merge_fn (dkv_setMany obj d) = merge_fn d"
    "saved (dkv_setMany obj d) = saved d" "set (changed (dkv_setMany obj d)) = set (changed d) \<union> set (keys obj)"
    "k \<notin> set (keys obj) \<Longrightarrow> obj_get (locals (dkv_setMany obj d)) k = obj_get (locals d) k"
    "distinct (keys (locals d)) \<Longrightarrow> distinct (keys (locals (dkv_setMany obj d)))"
    by (simp_all add: dkv_setMany_def autosave_def)
qed

text \<open>What a remote change does to the local value of a key.\<close>

definition local_after :: "'t \<Rightarrow> 't merge_function option \<Rightarrow> string \<Rightarrow> 't option \<Rightarrow> 't option \<Rightarrow> 't slot option \<Rightarrow> 't slot option" where
  "local_after null f k rem prev x =
     (case x of
        Some (Value l) \<Rightarrow>
          if rem = Some l then None
          else if is_remote (merge_value null f k l rem prev) rem then None else Some (merge_value null f k l rem prev)
      | _ \<Rightarrow> x)"

lemma handle_other_key: "fst (event_parts e) \<noteq> Some k \<Longrightarrow> obj_get (locals (handleRemoteChange null e d)) k = obj_get (locals d) k"
  by (auto simp: handleRemoteChange_def resolve_conflict_def Let_def delete_conv' update_conv'
      split: prod.splits option.splits slot.splits if_splits)

lemma handle_key:
  assumes "event_parts e = (Some k, rem, prev)"
  shows "\<exists>p. obj_get (locals (handleRemoteChange null e d)) k = local_after null (merge_fn d) k rem p (obj_get (locals d) k)"
  unfolding local_after_def handleRemoteChange_def assms
  by (rule exI[of _ "if prev = None \<or> prev = Some null then obj_get (remote d) k else prev"])
    (auto simp: resolve_conflict_def Let_def delete_conv' update_conv' toValue_def split: option.split slot.split)

lemma handle_fields:
  "stream (handleRemoteChange null e d) = stream d" "merge_fn (handleRemoteChange null e d) = merge_fn d"
  "set (changed d) \<subseteq> set (changed (handleRemoteChange null e d))"
  "saved d = [] \<Longrightarrow> saved (handleRemoteChange null e d) = []"
  "distinct (keys (locals d)) \<Longrightarrow> distinct (keys (locals (handleRemoteChange null e d)))"
  by (auto simp: handleRemoteChange_def resolve_conflict_def Let_def distinct_update distinct_delete
      split: prod.splits option.splits slot.splits if_splits)

section \<open>Receiving the change events of the server\<close>

lemma changes_parts [simp]:
  "changes (note_seq nsc q st) = changes st" "changes (insert_raw r mesg st) = changes st"
  "changes (processPersistentDelete qs True st) = changes st" "changes (snd (set_kv th tb k r mesg st)) = changes st"
  "is_closed (note_seq nsc q st) = is_closed st" "is_closed (insert_raw r mesg st) = is_closed st"
  "is_closed (processPersistentDelete qs ne st) = is_closed st" "is_closed (snd (set_kv th tb k r mesg st)) = is_closed st"
  by (simp_all add: note_seq_def note_missing_def insert_raw_def processPersistentDelete_def set_kv_def gcKv_def Let_def
      split: prod.split option.split)

lemma finish_set_changes:
  assumes "finish_set th tb m mesg r i False st = (err, st')" "\<not> is_closed st"
  shows "is_closed st' = is_closed st \<and>
    (if err = None then \<exists>prev. changes st' = changes st @ [Change_set mesg r (m_key m) prev i] else changes st' = changes st)"
proof -
  define old where "old = Option.bind (m_key m) (obj_get (kv st))"
  obtain ok s4 where s4: "(case m_key m of None \<Rightarrow> (True, st)
      | Some k \<Rightarrow> set_kv th (case m_headers m of None \<Rightarrow> False | Some h \<Rightarrow> tb h) k r mesg st) = (ok, s4)" by fastforce
  have 4: "changes s4 = changes st" "is_closed s4 = is_closed st"
    using s4 changes_parts(4,8)[of th _ _ r mesg st] by (cases "m_key m"; metis option.case prod.inject snd_conv)+
  show ?thesis
    using assms 4 unfolding finish_set_def old_def[symmetric] s4
    by (auto simp: Let_def emitChange_def split: if_splits option.splits)
qed

definition echoes :: "('h, 't) wire \<Rightarrow> 'h change \<Rightarrow> ('h, 't) change_event \<Rightarrow> bool" where
  "echoes w e ce \<longleftrightarrow>
     (case e of
        SetOperation m i \<Rightarrow> \<exists>mesg r prev. ce = Change_set mesg r (m_key m) prev i \<and> seq r = m_seq m \<and>
          w_decode w (m_encoding m) (m_raw m) = Some mesg
      | DeleteOperation qs \<Rightarrow> \<exists>q kn p. ce = Change_delete q kn p \<and> q \<in> set qs)"

lemma process_changes:
  assumes "processPersistentMessage th (w_decode w) tb False nsc e st = (err, st')"
  shows "is_closed st' = is_closed st \<and> (\<exists>es. changes st' = changes st @ es \<and> (\<forall>ce \<in> set es. echoes w e ce) \<and>
    (\<forall>m i. e = SetOperation m i \<longrightarrow> length es \<le> 1 \<and> (err = None \<and> \<not> is_closed st \<longrightarrow> es \<noteq> [])))"
proof (cases e)
  case (SetOperation m i)
  show ?thesis
  proof (cases "is_closed st \<or> w_decode w (m_encoding m) (m_raw m) = None")
    case True
    then show ?thesis using assms SetOperation
      by (cases "is_closed st"; cases "w_decode w (m_encoding m) (m_raw m)") (auto simp: processPersistentSet_def Let_def)
  next
    case False
    then obtain mesg where d: "w_decode w (m_encoding m) (m_raw m) = Some mesg" by auto
    define s2 where "s2 = note_seq nsc (m_seq m) st"
    have "finish_set th tb m mesg (the_raw (next_oid s2) m) i False
        (insert_raw (the_raw (next_oid s2) m) mesg (s2\<lparr>next_oid := next_oid s2 + 1\<rparr>)) = (err, st')"
      using assms SetOperation False d by (simp add: processPersistentSet_def Let_def s2_def)
    from finish_set_changes[OF this] False d SetOperation show ?thesis
      by (cases err) (auto simp: s2_def echoes_def the_raw_def)
  qed
next
  case (DeleteOperation qs)
  then have "st' = processPersistentDelete qs False st" using assms by simp
  then show ?thesis using DeleteOperation
    by (auto simp: processPersistentDelete_def Let_def delete_events_def echoes_def)
qed

lemma receive_cases:
  assumes "receive w e d = (err, d')" "stream d = Some st"
  obtains st' ces where "processPersistentMessage (w_thresh w) (w_decode w) (w_is_tombstone w) False False e st = (err, st')"
    "d' = fold (handleRemoteChange (w_null w)) ces (d\<lparr>stream := Some st'\<rparr>)" "\<forall>ce \<in> set ces. echoes w e ce"
    "\<forall>m i. e = SetOperation m i \<longrightarrow> length ces \<le> 1 \<and> (err = None \<and> \<not> is_closed st \<longrightarrow> ces \<noteq> [])"
    "is_closed st' = is_closed st"
proof -
  obtain st' where p: "processPersistentMessage (w_thresh w) (w_decode w) (w_is_tombstone w) False False e st = (err, st')"
    using assms by (auto simp: receive_def split: prod.splits)
  from process_changes[OF p] obtain es where es: "changes st' = changes st @ es" "\<forall>ce \<in> set es. echoes w e ce"
      "\<forall>m i. e = SetOperation m i \<longrightarrow> length es \<le> 1 \<and> (err = None \<and> \<not> is_closed st \<longrightarrow> es \<noteq> [])" "is_closed st' = is_closed st"
    by blast
  have "d' = fold (handleRemoteChange (w_null w)) es (d\<lparr>stream := Some st'\<rparr>)"
    using assms p es(1) by (simp add: receive_def)
  then show thesis using that p es by blast
qed

lemma fold_handle_fields:
  "stream (fold (handleRemoteChange null) es d) = stream d" "merge_fn (fold (handleRemoteChange null) es d) = merge_fn d"
  "set (changed d) \<subseteq> set (changed (fold (handleRemoteChange null) es d))"
  "saved d = [] \<Longrightarrow> saved (fold (handleRemoteChange null) es d) = []"
  "distinct (keys (locals d)) \<Longrightarrow> distinct (keys (locals (fold (handleRemoteChange null) es d)))"
proof -
  have "stream (fold (handleRemoteChange null) es d) = stream d \<and> merge_fn (fold (handleRemoteChange null) es d) = merge_fn d \<and>
      set (changed d) \<subseteq> set (changed (fold (handleRemoteChange null) es d)) \<and>
      (saved d = [] \<longrightarrow> saved (fold (handleRemoteChange null) es d) = []) \<and>
      (distinct (keys (locals d)) \<longrightarrow> distinct (keys (locals (fold (handleRemoteChange null) es d))))"
  proof (induction es arbitrary: d)
    case (Cons e es)
    then show ?case using handle_fields[where null = null and e = e and d = d] Cons[of "handleRemoteChange null e d"] by auto
  qed simp
  then show "stream (fold (handleRemoteChange null) es d) = stream d" "merge_fn (fold (handleRemoteChange null) es d) = merge_fn d"
    "set (changed d) \<subseteq> set (changed (fold (handleRemoteChange null) es d))"
    "saved d = [] \<Longrightarrow> saved (fold (handleRemoteChange null) es d) = []"
    "distinct (keys (locals d)) \<Longrightarrow> distinct (keys (locals (fold (handleRemoteChange null) es d)))" by blast+
qed

text \<open>A message that confirms a value: it has the key and decodes to the value.\<close>

fun carries :: "('h, 't) wire \<Rightarrow> string \<Rightarrow> 't \<Rightarrow> 'h change \<Rightarrow> bool" where
  "carries w k v (SetOperation m i) \<longleftrightarrow> m_key m = Some k \<and> w_decode w (m_encoding m) (m_raw m) = Some v"
| "carries w k v (DeleteOperation qs) \<longleftrightarrow> False"

lemma receive_fields:
  assumes "receive w e d = (err, d')"
  shows "stream d \<noteq> None \<Longrightarrow> stream d' \<noteq> None" "merge_fn d' = merge_fn d" "set (changed d) \<subseteq> set (changed d')"
    "saved d = [] \<Longrightarrow> saved d' = []" "distinct (keys (locals d)) \<Longrightarrow> distinct (keys (locals d'))"
proof -
  consider "stream d = None" "d' = d" | st where "stream d = Some st"
    using assms by (cases "stream d") (auto simp: receive_def)
  then have "(stream d \<noteq> None \<longrightarrow> stream d' \<noteq> None) \<and> merge_fn d' = merge_fn d \<and> set (changed d) \<subseteq> set (changed d') \<and>
    (saved d = [] \<longrightarrow> saved d' = []) \<and> (distinct (keys (locals d)) \<longrightarrow> distinct (keys (locals d')))"
  proof cases
    case (2 st)
    from receive_cases[OF assms this] obtain st' ces where
      d': "d' = fold (handleRemoteChange (w_null w)) ces (d\<lparr>stream := Some st'\<rparr>)" by metis
    show ?thesis unfolding d'
      using fold_handle_fields[where null = "w_null w" and es = ces and d = "d\<lparr>stream := Some st'\<rparr>"] by simp
  qed simp
  then show "stream d \<noteq> None \<Longrightarrow> stream d' \<noteq> None" "merge_fn d' = merge_fn d" "set (changed d) \<subseteq> set (changed d')"
    "saved d = [] \<Longrightarrow> saved d' = []" "distinct (keys (locals d)) \<Longrightarrow> distinct (keys (locals d'))" by blast+
qed

lemma handle_no_value:
  assumes "obj_get (locals d) k = None \<or> obj_get (locals d) k = Some Tombstone"
  shows "obj_get (locals (handleRemoteChange null e d)) k = obj_get (locals d) k"
proof (cases "fst (event_parts e) = Some k")
  case True
  then obtain rem prev where "event_parts e = (Some k, rem, prev)" by (metis prod.collapse)
  from handle_key[OF this, of null d] assms show ?thesis by (auto simp: local_after_def)
qed (rule handle_other_key)

lemma fold_no_value:
  assumes "obj_get (locals d) k = None \<or> obj_get (locals d) k = Some Tombstone"
  shows "obj_get (locals (fold (handleRemoteChange null) es d)) k = obj_get (locals d) k"
  using assms by (induction es arbitrary: d) (simp_all add: handle_no_value)

lemma receive_no_value:
  assumes "receive w e d = (err, d')" "obj_get (locals d) k = None \<or> obj_get (locals d) k = Some Tombstone"
  shows "obj_get (locals d') k = obj_get (locals d) k"
proof (cases "stream d")
  case None
  then show ?thesis using assms by (simp add: receive_def)
next
  case (Some st)
  from receive_cases[OF assms(1) Some] obtain st' ces where
    "d' = fold (handleRemoteChange (w_null w)) ces (d\<lparr>stream := Some st'\<rparr>)" by metis
  then show ?thesis using fold_no_value[of "d\<lparr>stream := Some st'\<rparr>" k "w_null w" ces] assms(2) by simp
qed

lemma handle_keeps:
  assumes "merge_fn d = None" "obj_get (locals d) k = Some (Value v)" "echoes w e ce" "\<not> carries w k v e"
  shows "obj_get (locals (handleRemoteChange null ce d)) k = Some (Value v)"
proof (cases "fst (event_parts ce) = Some k")
  case True
  then obtain rem prev where p: "event_parts ce = (Some k, rem, prev)" by (metis prod.collapse)
  have "rem \<noteq> Some v" using assms(3,4) p by (cases e) (auto simp: echoes_def)
  with handle_key[OF p, of null d] assms(1,2) show ?thesis
    by (auto simp: local_after_def merge_value_def is_remote_def)
qed (use assms(2) handle_other_key in metis)

lemma receive_keeps:
  assumes "receive w e d = (err, d')" "merge_fn d = None" "obj_get (locals d) k = Some (Value v)" "\<not> carries w k v e"
  shows "obj_get (locals d') k = Some (Value v)"
proof (cases "stream d")
  case None
  then show ?thesis using assms by (simp add: receive_def)
next
  case (Some st)
  have "merge_fn x = None \<Longrightarrow> obj_get (locals x) k = Some (Value v) \<Longrightarrow> \<forall>ce \<in> set es. echoes w e ce \<Longrightarrow>
      obj_get (locals (fold (handleRemoteChange null) es x)) k = Some (Value v)" for null es x
  proof (induction es arbitrary: x)
    case (Cons ce es)
    then show ?case using handle_keeps[of x k v w e ce null] assms(4) handle_fields(2)[where null = null and e = ce and d = x]
      by simp
  qed simp
  moreover from receive_cases[OF assms(1) Some] obtain st' ces where
    "d' = fold (handleRemoteChange (w_null w)) ces (d\<lparr>stream := Some st'\<rparr>)" "\<forall>ce \<in> set ces. echoes w e ce" by metis
  ultimately show ?thesis using assms(2,3) by simp
qed

lemma receive_confirms:
  assumes "receive w e d = (None, d')" "stream d = Some st" "\<not> is_closed st" "obj_get (locals d) k = Some (Value v)" "carries w k v e"
  shows "obj_get (locals d') k = None"
proof -
  obtain m i where e: "e = SetOperation m i" and m: "m_key m = Some k" "w_decode w (m_encoding m) (m_raw m) = Some v"
    using assms(5) by (cases e) auto
  from receive_cases[OF assms(1,2)] obtain st' ces where
    d': "d' = fold (handleRemoteChange (w_null w)) ces (d\<lparr>stream := Some st'\<rparr>)" and ces: "\<forall>ce \<in> set ces. echoes w e ce"
    and len: "length ces \<le> 1 \<and> ces \<noteq> []" using e assms(3) by metis
  then obtain ce where ce: "ces = [ce]" by (cases ces) auto
  obtain prev where "event_parts ce = (Some k, Some v, prev)" using ces ce e m by (auto simp: echoes_def)
  from handle_key[OF this, of "w_null w" "d\<lparr>stream := Some st'\<rparr>"] assms(4) show ?thesis
    by (auto simp: d' ce local_after_def)
qed

section \<open>A local value is kept\<close>

definition run_ops :: "('h, 't) wire \<Rightarrow> ('h, 't) node_op list \<Rightarrow> ('h, 't) node \<Rightarrow> ('h, 't) node" where
  "run_ops w ops n = foldl (\<lambda>n op. node_exec w op n) n ops"

text \<open>
  The operations that do not concern the value \<open>v\<close> of the key \<open>k\<close>: the user does not write the key,
  no message confirms the value, and the server does not reject the key.
\<close>

fun spares :: "('h, 't) wire \<Rightarrow> string \<Rightarrow> 't \<Rightarrow> ('h, 't) node_op \<Rightarrow> ('h, 't) node \<Rightarrow> bool" where
  "spares w k v (Set_key k' _ _) n \<longleftrightarrow> k' \<noteq> k"
| "spares w k v (Set_many obj) n \<longleftrightarrow> k \<notin> set (keys obj)"
| "spares w k v (Delete_key k') n \<longleftrightarrow> k' \<noteq> k"
| "spares w k v Clear n \<longleftrightarrow> False"
| "spares w k v (Receive e) n \<longleftrightarrow> \<not> carries w k v e"
| "spares w k v Results_done n \<longleftrightarrow>
     (case n_phase n of Setting x rs \<Rightarrow> list_all (\<lambda>(it, r). r = Some Code_reject \<longrightarrow> i_key it \<noteq> k) (zip x rs) | _ \<Rightarrow> True)"
| "spares w k v _ n \<longleftrightarrow> True"

fun spares_all :: "('h, 't) wire \<Rightarrow> string \<Rightarrow> 't \<Rightarrow> ('h, 't) node_op list \<Rightarrow> ('h, 't) node \<Rightarrow> bool" where
  "spares_all w k v [] n \<longleftrightarrow> True"
| "spares_all w k v (op # ops) n \<longleftrightarrow> spares w k v op n \<and> spares_all w k v ops (node_exec w op n)"

text \<open>The keys that an attempt is about to delete.\<close>

fun deleting :: "('h, 't) save_phase \<Rightarrow> string set" where
  "deleting (Deleting k req ks obj) = insert k (set ks)"
| "deleting (Deleted k ks obj) = insert k (set ks)"
| "deleting _ = {}"

definition keeps_local :: "string \<Rightarrow> 't \<Rightarrow> ('h, 't) node \<Rightarrow> bool" where
  "keeps_local k v n \<longleftrightarrow>
     (let d = n_dkv n in stream d \<noteq> None \<and> merge_fn d = None \<and> saved d = [] \<and> distinct (keys (locals d)) \<and>
        obj_get (locals d) k = Some (Value v) \<and> (k \<in> deleting (n_phase n) \<longrightarrow> k \<in> set (changed d)))"

lemma deleting_next_phase [simp]: "deleting (next_phase w ks obj d) = set ks"
  by (cases ks) (simp_all add: next_phase_def)

lemma tombstones_iff: "distinct (keys obj) \<Longrightarrow> k \<in> set (tombstones obj) \<longleftrightarrow> obj_get obj k = Some Tombstone"
  by (force simp: tombstones_def)

definition same_but_local :: "string \<Rightarrow> ('h, 't) dkv \<Rightarrow> ('h, 't) dkv \<Rightarrow> bool" where
  "same_but_local k d d' \<longleftrightarrow> stream d' = stream d \<and> merge_fn d' = merge_fn d \<and> changed d' = changed d \<and>
     obj_get (locals d') k = obj_get (locals d) k \<and> (saved d = [] \<longrightarrow> saved d' = []) \<and>
     (distinct (keys (locals d)) \<longrightarrow> distinct (keys (locals d')))"

lemma same_but_local_discard: "k' \<noteq> k \<Longrightarrow> same_but_local k d (discardLocalState k' d)"
  by (simp add: same_but_local_def delete_conv' distinct_delete)

lemma same_but_local_trans: "same_but_local k d d1 \<Longrightarrow> same_but_local k d1 d2 \<Longrightarrow> same_but_local k d d2"
  by (auto simp: same_but_local_def)

lemma results_loop_same:
  assumes "\<forall>j < length rs. rs ! j = Some Code_reject \<longrightarrow> i_key (x ! (i + j)) \<noteq> k"
  shows "same_but_local k d (snd (results_loop x i rs failed d))"
  using assms
proof (induction rs arbitrary: i failed d)
  case (Cons r rs)
  have tl: "\<forall>j < length rs. rs ! j = Some Code_reject \<longrightarrow> i_key (x ! (i + 1 + j)) \<noteq> k"
  proof (intro allI impI)
    fix j assume "j < length rs" "rs ! j = Some Code_reject"
    then show "i_key (x ! (i + 1 + j)) \<noteq> k" using Cons.prems by (auto dest!: spec[of _ "Suc j"])
  qed
  show ?case
  proof (cases r)
    case (Some code)
    define d1 where "d1 = (if code = Code_reject
        then dkv_emit (Ev_reject (i_key (x ! i)) (obj_get (locals d) (i_key (x ! i)))) (discardLocalState (i_key (x ! i)) d) else d)"
    have "same_but_local k d d1"
    proof (cases "code = Code_reject")
      case True
      then have "i_key (x ! i) \<noteq> k" using Cons.prems Some by auto
      from same_but_local_discard[OF this, of d] True show ?thesis by (simp add: d1_def same_but_local_def)
    qed (simp add: d1_def same_but_local_def)
    moreover have "same_but_local k d1 (d1\<lparr>invalidSeq := q\<rparr>)" "same_but_local k d (d\<lparr>invalidSeq := q\<rparr>)" for q
      by (simp_all add: same_but_local_def)
    moreover have "same_but_local k d d" by (simp add: same_but_local_def)
    ultimately show ?thesis
      using Cons.IH[OF tl, where failed = True and d = d1] same_but_local_trans[of k d d1]
      unfolding Some by (auto simp: Let_def d1_def[symmetric] split: option.split)
  qed (use Cons.IH[OF tl] in \<open>simp add: same_but_local_def\<close>)
qed (simp add: same_but_local_def)

lemma keeps_local_step:
  assumes "keeps_local k v n" "spares w k v op n"
  shows "keeps_local k v (node_exec w op n)"
proof -
  let ?d = "n_dkv n"
  have d: "stream ?d \<noteq> None" "merge_fn ?d = None" "saved ?d = []" "distinct (keys (locals ?d))"
    "obj_get (locals ?d) k = Some (Value v)" "k \<in> deleting (n_phase n) \<Longrightarrow> k \<in> set (changed ?d)"
    using assms(1) by (simp_all add: keeps_local_def Let_def)
  show ?thesis
  proof (cases op)
    case (Receive e)
    obtain err d' where r: "receive w e ?d = (err, d')" by fastforce
    from receive_fields[OF r] receive_keeps[OF r d(2,5)] d assms(2) Receive r show ?thesis
      by (auto simp: keeps_local_def)
  next
    case Start_save
    have "k \<notin> set (tombstones (locals ?d))" using d(4,5) by (simp add: tombstones_iff)
    then show ?thesis using d Start_save by (auto simp: keeps_local_def save_start_def Let_def)
  next
    case Deletion_done
    show ?thesis
    proof (cases "\<exists>k' ks obj. n_phase n = Deleted k' ks obj")
      case True
      then obtain k' ks obj where p: "n_phase n = Deleted k' ks obj" by blast
      then have "k' \<notin> set (changed ?d) \<Longrightarrow> k' \<noteq> k" using d(6) by auto
      then show ?thesis using d p Deletion_done
        by (auto simp: keeps_local_def delete_done_def Let_def delete_conv' distinct_delete simp del: map_of_eq_Some_iff)
    qed (use Deletion_done assms(1) in \<open>auto split: save_phase.split\<close>)
  next
    case Results_done
    show ?thesis
    proof (cases "\<exists>x rs. n_phase n = Setting x rs \<and> length rs = length x")
      case True
      then obtain x rs where p: "n_phase n = Setting x rs" "length rs = length x" by blast
      have "\<forall>j < length rs. rs ! j = Some Code_reject \<longrightarrow> i_key (x ! (0 + j)) \<noteq> k"
        using assms(2) p Results_done by (auto simp: list_all_length)
      from results_loop_same[OF this, where d = ?d and failed = False] d p Results_done show ?thesis
        by (auto simp: keeps_local_def save_results_def same_but_local_def)
    qed (use Results_done assms(1) in \<open>auto split: save_phase.split\<close>)
  next
    case (Set_many obj)
    then show ?thesis using d assms(2) by (auto simp: keeps_local_def setMany_fields)
  qed (use d assms in \<open>auto simp: keeps_local_def update_conv' distinct_update split: save_phase.split\<close>)
qed

lemma run_ops_simps [simp]: "run_ops w [] n = n" "run_ops w (op # ops) n = run_ops w ops (node_exec w op n)"
  by (simp_all add: run_ops_def)

lemma keeps_local_run: "keeps_local k v n \<Longrightarrow> spares_all w k v ops n \<Longrightarrow> keeps_local k v (run_ops w ops n)"
  by (induction ops arbitrary: n) (simp_all add: keeps_local_step)


definition dkv_wire :: "(nat, nat) wire" where
  "dkv_wire = \<lparr>w_codec = plain_codec, w_decode = (\<lambda>e b. Some (length b)), w_encode = (\<lambda>v. (0, replicate v 0)), w_null = 0,
     w_is_tombstone = (\<lambda>h. h = 0), w_tombstone = 0, w_thresh = KEY_GC_THRESH\<rparr>"

definition new_node :: "nat merge_function option \<Rightarrow> (nat, nat) node" where
  "new_node f = \<lparr>n_dkv = new_dkv f False, n_read = 0, n_phase = Idle\<rparr>"

definition dkv_message :: "nat \<Rightarrow> string \<Rightarrow> nat \<Rightarrow> nat change" where
  "dkv_message q k v = SetOperation \<lparr>m_seq = q, m_time = 0, m_key = Some k, m_encoding = 0, m_raw = replicate v 0, m_headers = None\<rparr> None"


section \<open>Messages that confirm the local values\<close>

text \<open>Receiving a list of changes, all of which are processed without an exception.\<close>

fun receive_all :: "('h, 't) wire \<Rightarrow> 'h change list \<Rightarrow> ('h, 't) dkv \<Rightarrow> ('h, 't) dkv option" where
  "receive_all w [] d = Some d"
| "receive_all w (e # es) d = (case receive w e d of (None, d') \<Rightarrow> receive_all w es d' | (Some _, _) \<Rightarrow> None)"

definition open_stream :: "('h, 't) dkv \<Rightarrow> bool" where
  "open_stream d \<longleftrightarrow> (\<exists>st. stream d = Some st \<and> \<not> is_closed st)"

lemma receive_open: "receive w e d = (err, d') \<Longrightarrow> open_stream d \<Longrightarrow> open_stream d'"
proof -
  assume r: "receive w e d = (err, d')" and o: "open_stream d"
  then obtain st where st: "stream d = Some st" "\<not> is_closed st" by (auto simp: open_stream_def)
  from receive_cases[OF r st(1)] obtain st' ces where "d' = fold (handleRemoteChange (w_null w)) ces (d\<lparr>stream := Some st'\<rparr>)"
      "is_closed st' = is_closed st" by metis
  then show "open_stream d'" using st fold_handle_fields(1)[where null = "w_null w" and es = ces and d = "d\<lparr>stream := Some st'\<rparr>"]
    by (simp add: open_stream_def)
qed

lemma receive_all_no_value:
  "receive_all w es d = Some d' \<Longrightarrow> obj_get (locals d) k = None \<Longrightarrow> obj_get (locals d') k = None"
proof (induction es arbitrary: d)
  case (Cons e es)
  then obtain d1 where r: "receive w e d = (None, d1)" "receive_all w es d1 = Some d'" by (auto split: prod.splits option.splits)
  then show ?case using Cons receive_no_value[OF r(1), of k] by (simp del: map_of_eq_None_iff)
qed simp

lemma receive_all_confirms:
  assumes "receive_all w es d = Some d'" "open_stream d" "merge_fn d = None" "obj_get (locals d) k = Some (Value v)"
    and "\<exists>e \<in> set es. carries w k v e"
  shows "obj_get (locals d') k = None"
  using assms
proof (induction es arbitrary: d)
  case (Cons e es)
  then obtain d1 where r: "receive w e d = (None, d1)" "receive_all w es d1 = Some d'" by (auto split: prod.splits option.splits)
  obtain st where st: "stream d = Some st" "\<not> is_closed st" using Cons.prems(2) by (auto simp: open_stream_def)
  show ?case
  proof (cases "carries w k v e")
    case True
    from receive_all_no_value[OF r(2) receive_confirms[OF r(1) st Cons.prems(4) True]] show ?thesis .
  next
    case False
    with Cons.IH[OF r(2)] receive_open[OF r(1)] receive_fields(2)[OF r(1)] receive_keeps[OF r(1) Cons.prems(3,4) False]
      Cons.prems show ?thesis by simp
  qed
qed simp

text \<open>The messages that the server sends back settle a store: when every local value is confirmed by some
  message, in whatever order and whatever other changes come in between, the store is stable.\<close>

lemma echoes_settle:
  assumes "open_stream d" "merge_fn d = None" "receive_all w es d = Some d'"
    and "\<forall>k s. obj_get (locals d) k = Some s \<longrightarrow> (\<exists>v. s = Value v \<and> (\<exists>e \<in> set es. carries w k v e))"
  shows "isStable d'"
proof -
  have "obj_get (locals d') k = None" for k
  proof (cases "obj_get (locals d) k")
    case (Some s)
    with assms(4) obtain v where "s = Value v" "\<exists>e \<in> set es. carries w k v e" by blast
    with receive_all_confirms[OF assms(3,1,2)] Some show ?thesis by blast
  qed (rule receive_all_no_value[OF assms(3)])
  then have "obj_get (locals d') = Map.empty" by blast
  then show ?thesis by (simp only: map_of_eq_empty_iff isStable_def)
qed

definition two_keys :: "(nat, nat) dkv" where
  "two_keys = dkv_set ''b'' (Some 2) None (dkv_set ''a'' (Some 1) None (new_dkv None False))"

lemma two_keys_locals: "locals two_keys = [(''a'', Value 1), (''b'', Value 2)]" "merge_fn two_keys = None" "open_stream two_keys"
  by (simp_all add: two_keys_def new_dkv_def new_cstream_def open_stream_def toValue_def)

lemma reads_agree_witness:
  "\<exists>xs. dkv_getAll (dkv_delete ''a'' two_keys) = Inr xs \<and> obj_get xs ''a'' = None \<and> dkv_has ''a'' (dkv_delete ''a'' two_keys) = Inr False"
proof -
  have "objects_ok (dkv_delete ''a'' two_keys)" "stream (dkv_delete ''a'' two_keys) = Some new_cstream"
    by (simp_all add: objects_ok_def two_keys_def new_dkv_def new_cstream_def toValue_def)
  from reads_agree[OF this, of "''a''"] show ?thesis by (auto simp: update_conv')
qed

lemma echoes_settle_witness:
  "\<exists>d'. receive_all dkv_wire [dkv_message 1 ''b'' 2, dkv_message 2 ''a'' 1] two_keys = Some d' \<and> isStable d'"
proof -
  have st: "stream two_keys = Some new_cstream" by (simp add: two_keys_def new_dkv_def)
  obtain d' where d': "receive_all dkv_wire [dkv_message 1 ''b'' 2, dkv_message 2 ''a'' 1] two_keys = Some d'"
    by (simp add: receive_def st fold_handle_fields dkv_message_def dkv_wire_def processPersistentSet_def new_cstream_def
      note_seq_def note_missing_def insert_raw_def finish_set_def set_kv_def the_raw_def emitChange_def Let_def KEY_GC_THRESH_def
      handle_fields)
  have "\<forall>k s. obj_get (locals two_keys) k = Some s \<longrightarrow>
      (\<exists>v. s = Value v \<and> (\<exists>e \<in> set [dkv_message 1 ''b'' 2, dkv_message 2 ''a'' 1]. carries dkv_wire k v e))"
    by (auto simp: two_keys_locals dkv_message_def dkv_wire_def split: if_splits)
  from echoes_settle[OF two_keys_locals(3,2) d' this] d' show ?thesis by blast
qed

section \<open>What goes wrong\<close>

text \<open>A key that is deleted is listed by \<open>keys\<close> until the deletion is saved, also a key that never existed,
  although \<open>has\<close> and \<open>get\<close> say that it is not there.\<close>

lemma keys_lists_deleted:
  assumes "stream d \<noteq> None"
  shows "k \<in> set (dkv_keys (dkv_delete k d)) \<and> dkv_has k (dkv_delete k d) = Inr False \<and> dkv_get k (dkv_delete k d) = Inr None"
proof -
  have "k \<in> set (keys (obj_set k Tombstone (locals d)))" by (simp add: obj_simps)
  then show ?thesis using assms by (auto simp: dkv_keys_def dkv_has_def dkv_get_def update_conv' Let_def)
qed

lemma keys_lists_deleted_witness: "''x'' \<in> set (dkv_keys (dkv_delete ''x'' two_keys))"
  using keys_lists_deleted[of two_keys "''x''"] by (simp add: two_keys_def new_dkv_def)

text \<open>A value that the user sets while an older value of the key is being saved is thrown away when the
  server rejects the older one, and the event says that the newer value was rejected.\<close>

theorem reject_discards_newer_value:
  assumes "stream (n_dkv n) = Some st" "n_phase n = Setting [it] [Some Code_reject]" "i_key it = k"
  shows "dkv_get k (n_dkv (run_ops w [Set_key k (Some v) None] n)) = Inr (Some v) \<and>
    dkv_get k (n_dkv (run_ops w [Set_key k (Some v) None, Results_done] n)) = Inr (getKv k st) \<and>
    last (events (n_dkv (run_ops w [Set_key k (Some v) None, Results_done] n))) = Ev_reject k (Some (Value v))"
proof -
  have l: "obj_get (locals (dkv_set k (Some v) None (n_dkv n))) k = Some (Value v)"
    by (simp add: update_conv' toValue_def)
  then show ?thesis
    using assms by (simp add: dkv_get_def save_results_def Let_def delete_conv' dkv_emit_def del: map_of_eq_Some_iff)
qed

lemma reject_discards_newer_value_witness:
  "dkv_get ''k'' (n_dkv (run_ops dkv_wire [Set_key ''k'' (Some 2) None, Results_done]
     (run_ops dkv_wire [Set_key ''k'' (Some 1) None, Start_save, Batch_done [Some Code_reject]] (new_node None)))) = Inr None"
proof -
  let ?n = "run_ops dkv_wire [Set_key ''k'' (Some 1) None, Start_save, Batch_done [Some Code_reject]] (new_node None)"
  have "stream (n_dkv ?n) = Some new_cstream"
    "n_phase ?n = Setting [\<lparr>i_key = ''k'', i_mesg = 1, i_headers = None, i_previousSeq = None\<rparr>] [Some Code_reject]"
    by (simp_all add: new_node_def new_dkv_def dkv_set_def save_start_def autosave_def
        note_changed_def toValue_def tombstones_def next_phase_def set_items_def set_item_def List.map_filter_simps Let_def)
  from reject_discards_newer_value[OF this, of "''k''" dkv_wire 2] show ?thesis by (simp add: getKv_def new_cstream_def)
qed

text \<open>A deletion is forgotten as soon as the server has answered. Until the change event arrives the old
  value is visible again.\<close>

theorem deleted_value_reappears:
  assumes "n_phase n = Idle" "locals (n_dkv n) = []" "stream (n_dkv n) = Some st" "getKv k st = Some u"
  shows "dkv_get k (n_dkv (run_ops w [Delete_key k, Start_save, Deletion_sent] n)) = Inr None \<and>
    dkv_get k (n_dkv (run_ops w [Delete_key k, Start_save, Deletion_sent, Deletion_done] n)) = Inr (Some u)"
  using assms by (simp add: dkv_get_def save_start_def tombstones_def next_phase_def delete_done_def Let_def)

definition one_key :: "(nat, nat) node" where
  "one_key = (new_node None)\<lparr>n_dkv := (new_dkv None False)\<lparr>stream := Some sample_stream\<rparr>\<rparr>"

lemma deleted_value_reappears_witness:
  "dkv_get ''k'' (n_dkv (run_ops dkv_wire [Delete_key ''k'', Start_save, Deletion_sent, Deletion_done] one_key)) = Inr (Some 2)"
  using deleted_value_reappears[of one_key sample_stream "''k''" 2 dkv_wire]
  by (simp add: one_key_def new_node_def new_dkv_def getKv_def sample_stream_def)

text \<open>The invalid sequence numbers only grow, and the merge function stays.\<close>

definition grows_invalid :: "('h, 't) dkv \<Rightarrow> ('h, 't) dkv \<Rightarrow> bool" where
  "grows_invalid d d' \<longleftrightarrow> set (invalidSeq d) \<subseteq> set (invalidSeq d') \<and> merge_fn d' = merge_fn d"

lemma grows_invalid_refl: "invalidSeq d' = invalidSeq d \<Longrightarrow> merge_fn d' = merge_fn d \<Longrightarrow> grows_invalid d d'"
  by (simp add: grows_invalid_def)

lemma grows_invalid_trans: "grows_invalid d d1 \<Longrightarrow> grows_invalid d1 d2 \<Longrightarrow> grows_invalid d d2"
  by (auto simp: grows_invalid_def)

lemma grows_invalid_fold: "(\<And>x d. grows_invalid d (f x d)) \<Longrightarrow> grows_invalid d (fold f xs d)"
proof (induction xs arbitrary: d)
  case (Cons x xs)
  then show ?case using grows_invalid_trans by (metis fold_simps(2))
qed (simp add: grows_invalid_def)

lemma grows_invalid_results: "grows_invalid d (snd (results_loop x i rs failed d))"
proof (induction rs arbitrary: i failed d)
  case (Cons r rs)
  show ?case
  proof (cases r)
    case (Some code)
    define d1 where "d1 = (if code = Code_reject
        then dkv_emit (Ev_reject (i_key (x ! i)) (obj_get (locals d) (i_key (x ! i)))) (discardLocalState (i_key (x ! i)) d) else d)"
    have d1: "grows_invalid d d1" by (simp add: d1_def grows_invalid_def)
    then have "grows_invalid d (d1\<lparr>invalidSeq := List.insert q (invalidSeq d1)\<rparr>)"
        "grows_invalid d (d\<lparr>invalidSeq := List.insert q (invalidSeq d)\<rparr>)" for q
      by (auto simp: grows_invalid_def)
    moreover have "grows_invalid d (snd (results_loop x (Suc i) rs True d1))"
      by (rule grows_invalid_trans[OF d1 Cons.IH])
    ultimately show ?thesis using d1 grows_invalid_refl[OF refl refl, of d]
      unfolding Some by (simp add: Let_def d1_def[symmetric] split: option.split)
  qed (simp add: Cons grows_invalid_refl)
qed (simp add: grows_invalid_def)

lemma clear_grows: "grows_invalid d (fold delete_local ks d)"
  by (intro grows_invalid_fold) (simp add: grows_invalid_def delete_local_def note_changed_def)

lemma setMany_grows: "grows_invalid d (dkv_setMany obj d)"
proof -
  have "grows_invalid d (fold (\<lambda>(k, v) d. note_changed k (d\<lparr>locals := obj_set k (toValue v) (locals d)\<rparr>)) obj d)"
    by (intro grows_invalid_fold) (simp add: grows_invalid_def note_changed_def split: prod.split)
  then show ?thesis by (simp add: dkv_setMany_def autosave_def grows_invalid_def)
qed

lemma receive_grows: "grows_invalid d (snd (receive w e d))"
proof (cases "stream d")
  case (Some st)
  obtain err d' where r: "receive w e d = (err, d')" by fastforce
  from receive_cases[OF r Some] obtain st' ces where
    "d' = fold (handleRemoteChange (w_null w)) ces (d\<lparr>stream := Some st'\<rparr>)" by metis
  moreover have "grows_invalid x (handleRemoteChange null ce x)" for null ce and x :: "('a, 'b) dkv"
    by (auto simp: grows_invalid_def handleRemoteChange_def resolve_conflict_def Let_def
      split: prod.splits option.splits slot.splits if_splits)
  ultimately have "grows_invalid (d\<lparr>stream := Some st'\<rparr>) d'" by (simp add: grows_invalid_fold)
  then show ?thesis by (simp add: r grows_invalid_def)
qed (simp add: receive_def grows_invalid_def)

lemma grows_invalid_step: "grows_invalid (n_dkv n) (n_dkv (node_exec w op n))"
proof (cases op)
  case Clear
  have "grows_invalid d (autosave (fold delete_local ks' (fold delete_local ks d)))" for ks ks' and d :: "('a, 'b) dkv"
    using clear_grows[of d ks] clear_grows[of "fold delete_local ks d" ks'] by (auto simp: autosave_def grows_invalid_def)
  then show ?thesis using Clear by (simp add: dkv_clear_def Let_def grows_invalid_refl split: option.split)
next
  case Results_done
  then show ?thesis by (simp add: save_results_def grows_invalid_refl grows_invalid_results split: save_phase.split)
next
  case (Receive e)
  then show ?thesis by (simp add: receive_grows)
next
  case (Set_many obj)
  then show ?thesis by (simp add: setMany_grows)
qed (auto simp: grows_invalid_def save_start_def delete_done_def Let_def split: save_phase.split)

lemma grows_invalid_run: "grows_invalid (n_dkv n) (n_dkv (run_ops w ops n))"
proof (induction ops arbitrary: n)
  case (Cons op ops)
  show ?case using grows_invalid_trans[OF grows_invalid_step Cons] by simp
qed (simp add: grows_invalid_def)

text \<open>C37: When the first value of an attempt to save a store with a merge function is refused because the remote value is newer, and the second value of the attempt replaces an earlier
  one, the sequence number that is marked as invalid is
  the one of that next key: whatever happens afterwards, as long as no newer message for that next
  key arrives, its value is left out of every attempt to save, although nothing is wrong with it, while the key that failed is not marked.\<close>

theorem wrong_key_is_starved:
  assumes "stream (n_dkv n) \<noteq> None" "merge_fn (n_dkv n) \<noteq> None"
    and "n_phase n = Setting (a # b # x) (Some Code_wrong_last_sequence # rs)" "length rs = length x + 1"
    and "i_previousSeq b = Some q" "q \<noteq> 0"
    and "dkv_seq (i_key b) (n_dkv (run_ops w (Results_done # ops) n)) = Inr (Some q)"
  shows "set_item (n_dkv (run_ops w (Results_done # ops) n)) (i_key b) v = None \<and>
    (i_previousSeq a = Some p \<and> p \<noteq> q \<and> p \<notin> set (invalidSeq (n_dkv n)) \<longrightarrow>
     p \<notin> set (invalidSeq (n_dkv (run_ops w [Results_done] n))))"
proof -
  have inv: "invalidSeq (n_dkv (node_exec w Results_done n)) = List.insert q (invalidSeq (n_dkv n))"
    using assms(1,3-6) by (auto simp: save_results_def Let_def)
  have "grows_invalid (n_dkv (node_exec w Results_done n)) (n_dkv (run_ops w (Results_done # ops) n))"
    using grows_invalid_run by simp
  then have q: "q \<in> set (invalidSeq (n_dkv (run_ops w (Results_done # ops) n)))"
    unfolding grows_invalid_def inv by auto
  have "merge_fn (n_dkv (run_ops w (Results_done # ops) n)) \<noteq> None"
    using grows_invalid_run[of n w "Results_done # ops"] assms(2) by (simp add: grows_invalid_def)
  moreover have "Option.bind (stream (n_dkv (run_ops w (Results_done # ops) n))) (seqKv (i_key b)) = Some q"
    using assms(7) by (simp add: dkv_seq_def split: option.splits)
  ultimately have "set_item (n_dkv (run_ops w (Results_done # ops) n)) (i_key b) v = None"
    unfolding set_item_def using q assms(6) by (auto simp del: run_ops_simps)
  then show ?thesis using inv by auto
qed

definition starving_node :: "(nat, nat) node" where
  "starving_node = one_key\<lparr>n_dkv := dkv_set ''k'' (Some 6) None ((n_dkv one_key)\<lparr>merge_fn := Some (\<lambda>k l rem prev. Merge_undefined)\<rparr>),
     n_phase := Setting [\<lparr>i_key = ''a'', i_mesg = 5, i_headers = None, i_previousSeq = Some 3\<rparr>,
       \<lparr>i_key = ''k'', i_mesg = 6, i_headers = None, i_previousSeq = Some 1\<rparr>] [Some Code_wrong_last_sequence, Some Code_other]\<rparr>"

lemma wrong_key_is_starved_witness:
  "set_item (n_dkv (run_ops dkv_wire [Results_done, Set_key ''k'' (Some 7) None] starving_node)) ''k'' 7 = None"
proof -
  let ?b = "\<lparr>i_key = ''k'', i_mesg = 6, i_headers = None, i_previousSeq = Some 1\<rparr> :: (nat, nat) save_item"
  have "stream (n_dkv starving_node) = Some sample_stream"
    by (simp add: starving_node_def one_key_def new_node_def)
  then have "stream (n_dkv starving_node) \<noteq> None" "merge_fn (n_dkv starving_node) \<noteq> None"
    "n_phase starving_node = Setting [\<lparr>i_key = ''a'', i_mesg = 5, i_headers = None, i_previousSeq = Some 3\<rparr>, ?b]
      [Some Code_wrong_last_sequence, Some Code_other]"
    "dkv_seq (i_key ?b) (n_dkv (run_ops dkv_wire (Results_done # [Set_key ''k'' (Some 7) None]) starving_node)) = Inr (Some 1)"
    by (simp_all add: starving_node_def save_results_def dkv_seq_def seqKv_def sample_stream_def the_raw_def published_def Let_def)
  from wrong_key_is_starved[OF this(1-3) _ _ _ this(4), of 7 3] show ?thesis by simp
qed

text \<open>A remote change of a key that is deleted locally is reported as the new value although \<open>get\<close> gives no
  value, the merge function is not asked, and the deletion stays to be saved.\<close>

lemma local_deletion_wins_unmerged:
  assumes "obj_get (locals d) k = Some Tombstone" "stream d \<noteq> None"
  shows "dkv_get k (handleRemoteChange null (Change_set mesg r (Some k) prev i) d) = Inr None \<and>
    last (events (handleRemoteChange null (Change_set mesg r (Some k) prev i) d)) =
      Ev_change k (Some (Value mesg)) (if prev = None \<or> prev = Some null then obj_get (remote d) k else prev) \<and>
    k \<in> set (tombstones (locals (handleRemoteChange null (Change_set mesg r (Some k) prev i) d)))"
proof -
  let ?d = "handleRemoteChange null (Change_set mesg r (Some k) prev i) d"
  have "locals ?d = locals d" "stream ?d = stream d" "last (events ?d) =
      Ev_change k (Some (Value mesg)) (if prev = None \<or> prev = Some null then obj_get (remote d) k else prev)"
    using assms(1) by (simp_all add: handleRemoteChange_def Let_def dkv_emit_def)
  moreover have "(k, Tombstone) \<in> set (locals d)" using assms(1) by (rule map_of_SomeD)
  then have "k \<in> set (tombstones (locals d))" by (force simp: tombstones_def)
  ultimately show ?thesis using assms by (auto simp: dkv_get_def)
qed

lemma local_deletion_wins_unmerged_witness:
  "dkv_get ''a'' (handleRemoteChange 0 (Change_set 7 (the_raw 0 (published sample_args 1 5000)) (Some ''a'') None None)
     (dkv_delete ''a'' two_keys)) = Inr None"
  using local_deletion_wins_unmerged[of "dkv_delete ''a'' two_keys" "''a''" 0 7] by (simp add: two_keys_def new_dkv_def toValue_def)

end
