(* ===== verification/StorageLog.thy ===== *)
theory StorageLog
  imports CoreStream
begin

text \<open>
  The log of the change events of a persistent stream (Storage), which its clients follow: it only
  grows, its sequence numbers increase, and the ids of messages that the server remembers are in it.
\<close>

section \<open>The log only grows\<close>

definition extends_log :: "'h storage \<Rightarrow> 'h storage \<Rightarrow> bool" where
  "extends_log s s' \<longleftrightarrow> (\<exists>es. emitted s' = emitted s @ es)"

lemma extends_refl [simp]: "emitted s' = emitted s \<Longrightarrow> extends_log s s'"
  by (simp add: extends_log_def)

lemma extends_trans: "extends_log s s1 \<Longrightarrow> extends_log s1 s2 \<Longrightarrow> extends_log s s2"
  by (auto simp: extends_log_def)

lemma extends_evict: "extends_log s (evict P s)"
  by (simp add: extends_log_def evict_def emitDelete_def emit_def sql_delete_def)

lemma extends_delete: "extends_log s (snd (storage_delete q qs l a s))"
  by (auto simp: extends_log_def storage_delete_def emit_def sql_delete_def rows_fold_delete
      split: option.splits nat.splits prod.splits)

lemma extends_limits:
  "extends_log s (snd (limit_msgs sz s))" "extends_log s (limit_age now s)"
  "extends_log s (snd (limit_bytes sz s))" "extends_log s (limit_ttl now s)"
  by (auto simp: limit_msgs_def limit_age_def limit_bytes_def limit_ttl_def Let_def extends_delete extends_evict
      split: discard_policy.splits option.splits)

lemma extends_enforceLimits: "extends_log s (snd (enforceLimits now sz s))"
proof (cases rule: enforceLimits_steps[of now sz s])
  case (msgs e s1)
  then show ?thesis using extends_limits(1)[of s sz] by simp
next
  case (bytes e s1 s2)
  have "extends_log s s1" using extends_limits(1)[of s sz] bytes by simp
  moreover have "extends_log (limit_age now s1) s2" using extends_limits(3)[of "limit_age now s1" sz] bytes by simp
  ultimately show ?thesis using bytes extends_limits(2)[of s1 now] extends_trans by (metis snd_conv)
next
  case (passed x s1 s2)
  have "extends_log s s1" using extends_limits(1)[of s sz] passed by simp
  moreover have "extends_log (limit_age now s1) s2" using extends_limits(3)[of "limit_age now s1" sz] passed by simp
  ultimately show ?thesis using passed extends_limits(2)[of s1 now] extends_limits(4)[of s2 now] extends_trans
    by (metis snd_conv)
qed simp

lemma extends_set: "extends_log s (snd (storage_set c now a s))"
proof (cases rule: storage_set_cases[of c now a s])
  case (limits e s1)
  then show ?thesis using extends_enforceLimits[of s now "args_size c a"] by simp
next
  case (stored raw' alg s1 s')
  have "extends_log s s1" using extends_enforceLimits[of s now "args_size c a"] stored by simp
  moreover have "extends_log s1 s'" using stored by (simp add: extends_log_def)
  ultimately show ?thesis using stored extends_trans by (metis snd_conv)
qed simp_all

lemma extends_exec: "extends_log s (exec_cmd c s x)"
proof (cases x)
  case (Cmd_config now g)
  let ?s = "s\<lparr>conf := full_config (ephemeral s) g (config_table s), config_table := changed_config g (config_table s)\<rparr>"
  show ?thesis using extends_enforceLimits[of ?s now 0] by (simp add: Cmd_config config_state extends_log_def)
qed (simp_all add: extends_set extends_delete expire_msgIDs_def)

section \<open>Sequence numbers\<close>

lemma fresh_prefix: "fresh_events q (es @ es') \<Longrightarrow> fresh_events q es"
  by (simp add: fresh_events_def sorted_wrt_append)

lemma seq_in_set_seqs: "SetOperation m i \<in> set es \<Longrightarrow> m_seq m \<in> set (set_seqs es)"
  by (induction es) (auto simp: set_seqs_def)

lemma fresh_same_seq:
  assumes "fresh_events q es" "SetOperation m i \<in> set es" "SetOperation m' i' \<in> set es" "m_seq m = m_seq m'"
  shows "m = m'"
  using assms
proof (induction es arbitrary: q)
  case (Cons e es)
  have f: "fresh_events p es" if "e = SetOperation x y" "p = m_seq x" for x y p
    using Cons.prems(1) that by (simp add: fresh_Cons)
  show ?case
  proof (cases e)
    case (SetOperation x y)
    have lt: "m_seq x < m_seq z" if "SetOperation z j \<in> set es" for z j
      using f[OF SetOperation refl] seq_in_set_seqs[OF that] by (auto simp: fresh_events_def)
    from Cons.prems(2-4) lt[of m i] lt[of m' i'] Cons.IH[OF f[OF SetOperation refl]] SetOperation show ?thesis by auto
  next
    case (DeleteOperation qs)
    then show ?thesis using Cons by (auto simp: fresh_Cons)
  qed
qed simp

section \<open>What is new in the log\<close>

lemma no_sets: "set_seqs es = [] \<Longrightarrow> SetOperation m i \<notin> set es"
  using seq_in_set_seqs by fastforce

lemma limits_log:
  assumes "enforceLimits now sz s = (r, s1)"
  obtains es where "emitted s1 = emitted s @ es" "\<And>m i. SetOperation m i \<notin> set es" "msgIDs s1 = msgIDs s" "autoincrement s1 = autoincrement s"
proof -
  obtain es where es: "emitted s1 = emitted s @ es" using extends_enforceLimits[of s now sz] assms by (auto simp: extends_log_def)
  have "set_seqs (emitted s1) = set_seqs (emitted s)" using set_seqs_enforceLimits[of now sz s] assms by simp
  then have "set_seqs es = []" using es by simp
  moreover have "same_settings s s1" using shrinks_enforceLimits[of s now sz] assms by (simp add: shrinks_def)
  ultimately show ?thesis using that[OF es] no_sets by (auto simp: same_settings_def)
qed

text \<open>The message ids that the server remembers are those of messages in the log.\<close>

definition ids_logged :: "'h storage \<Rightarrow> bool" where
  "ids_logged s \<longleftrightarrow> (\<forall>i q t. obj_get (msgIDs s) i = Some (q, t) \<longrightarrow>
     (\<exists>m. SetOperation m (Some i) \<in> set (emitted s) \<and> m_seq m = q))"

definition log_ok :: "'h storage \<Rightarrow> bool" where
  "log_ok s \<longleftrightarrow> fresh_events 0 (emitted s) \<and> (\<forall>q \<in> set (set_seqs (emitted s)). q \<le> autoincrement s) \<and> ids_logged s"

definition new_sets :: "'h set_args set \<Rightarrow> 'h storage \<Rightarrow> 'h storage \<Rightarrow> bool" where
  "new_sets A s s' \<longleftrightarrow> (\<exists>es. emitted s' = emitted s @ es \<and>
     (\<forall>m i. SetOperation m i \<in> set es \<longrightarrow> (\<exists>a \<in> A. i = a_msgID a \<and> m_encoding m = a_encoding a \<and> m_raw m = a_raw a)))"

lemma new_sets_refl [simp]: "emitted s' = emitted s \<Longrightarrow> new_sets A s s'"
  by (simp add: new_sets_def)

lemma new_sets_trans:
  assumes "new_sets A s s1" "new_sets B s1 s2" "A \<subseteq> C" "B \<subseteq> C"
  shows "new_sets C s s2"
proof -
  obtain es es' where "emitted s1 = emitted s @ es" "emitted s2 = emitted s1 @ es'"
      "\<And>m i. SetOperation m i \<in> set es \<Longrightarrow> \<exists>a \<in> A. i = a_msgID a \<and> m_encoding m = a_encoding a \<and> m_raw m = a_raw a"
      "\<And>m i. SetOperation m i \<in> set es' \<Longrightarrow> \<exists>a \<in> B. i = a_msgID a \<and> m_encoding m = a_encoding a \<and> m_raw m = a_raw a"
    using assms(1,2) by (auto simp: new_sets_def)
  then show ?thesis using assms(3,4) unfolding new_sets_def by (intro exI[of _ "es @ es'"]) fastforce
qed

lemma set_msgIDs:
  "storage_set c now a s = (Inl e, s') \<Longrightarrow> msgIDs s' = msgIDs s"
  "storage_set c now a s = (Inr (q, t), s') \<Longrightarrow> msgIDs s' = msgIDs s \<and> (\<forall>i. a_msgID a = Some i \<longrightarrow> obj_get (msgIDs s) i = Some (q, t)) \<or>
     msgIDs s' = (case a_msgID a of None \<Rightarrow> msgIDs s | Some i \<Rightarrow> obj_set i (q, t) (msgIDs s))"
proof -
  have l: "msgIDs s1 = msgIDs s" if "enforceLimits now sz s = (r, s1)" for sz r s1 using that by (rule limits_log)
  show "storage_set c now a s = (Inl e, s') \<Longrightarrow> msgIDs s' = msgIDs s"
    by (auto simp: storage_set_def Let_def insert_row_def sql_delete_def emit_def l split: option.splits sum.splits prod.splits)
  show "storage_set c now a s = (Inr (q, t), s') \<Longrightarrow> msgIDs s' = msgIDs s \<and> (\<forall>i. a_msgID a = Some i \<longrightarrow> obj_get (msgIDs s) i = Some (q, t)) \<or>
     msgIDs s' = (case a_msgID a of None \<Rightarrow> msgIDs s | Some i \<Rightarrow> obj_set i (q, t) (msgIDs s))"
    by (auto simp: storage_set_def Let_def insert_row_def sql_delete_def emit_def l split: option.splits sum.splits prod.splits)
qed

lemma set_logged:
  assumes "storage_set c now a s = (r, s')" "log_ok s"
  shows "log_ok s'" "new_sets {a} s s'"
    "r = Inr (q, t) \<Longrightarrow> a_msgID a = Some i \<Longrightarrow> \<exists>m. SetOperation m (Some i) \<in> set (emitted s') \<and> m_seq m = q"
proof -
  have fresh: "fresh_events 0 (emitted s') \<and> (\<forall>q \<in> set (set_seqs (emitted s')). q \<le> autoincrement s')"
    using fresh_exec[of 0 s c "Cmd_set now a"] assms by (simp add: log_ok_def)
  have ids: "\<And>i q t. obj_get (msgIDs s) i = Some (q, t) \<Longrightarrow> \<exists>m. SetOperation m (Some i) \<in> set (emitted s) \<and> m_seq m = q"
    using assms(2) by (auto simp: log_ok_def ids_logged_def)
  have main: "new_sets {a} s s' \<and> (\<forall>q t i. r = Inr (q, t) \<longrightarrow> a_msgID a = Some i \<longrightarrow>
      (\<exists>m. SetOperation m (Some i) \<in> set (emitted s') \<and> m_seq m = q))"
  proof (cases rule: storage_set_cases[of c now a s])
    case (cached x)
    then show ?thesis using assms(1) ids by auto
  next
    case (refused e)
    then show ?thesis using assms(1) by simp
  next
    case (limits e s1)
    obtain es where "emitted s1 = emitted s @ es" "\<And>m i. SetOperation m i \<notin> set es" by (rule limits_log[OF limits(2)]) blast
    then show ?thesis using assms(1) limits(1) by (auto simp: new_sets_def)
  next
    case (stored raw' alg s1 s2)
    obtain es where es: "emitted s1 = emitted s @ es" "\<And>m i. SetOperation m i \<notin> set es" by (rule limits_log[OF stored(2)]) blast
    have "r = Inr (Suc (autoincrement s1), now)" "s' = s2" using stored(3) assms(1) by simp_all
    then show ?thesis using es stored(7) unfolding new_sets_def by (auto simp: published_def)
  qed
  then show "new_sets {a} s s'" "r = Inr (q, t) \<Longrightarrow> a_msgID a = Some i \<Longrightarrow> \<exists>m. SetOperation m (Some i) \<in> set (emitted s') \<and> m_seq m = q"
    by blast+
  obtain es where es: "emitted s' = emitted s @ es" using main by (auto simp: new_sets_def)
  have "ids_logged s'" unfolding ids_logged_def
  proof (intro allI impI)
    fix i q t assume i: "obj_get (msgIDs s') i = Some (q, t)"
    show "\<exists>m. SetOperation m (Some i) \<in> set (emitted s') \<and> m_seq m = q"
    proof (cases "obj_get (msgIDs s) i = Some (q, t)")
      case True
      then show ?thesis using ids[OF True] es by auto
    next
      case False
      then have ne: "msgIDs s' \<noteq> msgIDs s" using i by auto
      then obtain x where r: "r = Inr x" using set_msgIDs(1)[of c now a s] assms(1) by (cases r) auto
      then show ?thesis using set_msgIDs(2)[of c now a s "fst x" "snd x" s'] assms(1) ne i main False
        by (auto simp: update_conv' split: option.splits if_splits)
    qed
  qed
  then show "log_ok s'" using fresh by (simp add: log_ok_def)
qed

lemma exec_logged:
  assumes "log_ok s"
  shows "log_ok (exec_cmd c s x)"
    "new_sets (case x of Cmd_set now a \<Rightarrow> {a} | _ \<Rightarrow> {}) s (exec_cmd c s x)"
proof -
  have fresh: "fresh_events 0 (emitted (exec_cmd c s x)) \<and> (\<forall>q \<in> set (set_seqs (emitted (exec_cmd c s x))). q \<le> autoincrement (exec_cmd c s x))"
    using fresh_exec[of 0 s c x] assms by (simp add: log_ok_def)
  have "(ids_logged s \<longrightarrow> ids_logged (exec_cmd c s x)) \<and> new_sets {} s (exec_cmd c s x)" if ids: "\<And>now a. x \<noteq> Cmd_set now a"
  proof -
    obtain es where es: "emitted (exec_cmd c s x) = emitted s @ es" using extends_exec[of s c x] by (auto simp: extends_log_def)
    have ids': "ids_logged s \<Longrightarrow> (\<And>i y. obj_get (msgIDs (exec_cmd c s x)) i = Some y \<Longrightarrow> obj_get (msgIDs s) i = Some y) \<Longrightarrow>
        ids_logged (exec_cmd c s x)" unfolding ids_logged_def es by fastforce
    have "set_seqs es = [] \<and> (\<forall>i y. obj_get (msgIDs (exec_cmd c s x)) i = Some y \<longrightarrow> obj_get (msgIDs s) i = Some y)"
    proof (cases x)
      case (Cmd_delete q qs l a)
      have "msgIDs (exec_cmd c s x) = msgIDs s" using shrinks_delete[of s q qs l a] by (simp add: Cmd_delete shrinks_def same_settings_def)
      moreover have "set_seqs (emitted (exec_cmd c s x)) = set_seqs (emitted s)" by (simp add: Cmd_delete)
      ultimately show ?thesis unfolding es by simp
    next
      case (Cmd_config now g)
      let ?s = "s\<lparr>conf := full_config (ephemeral s) g (config_table s), config_table := changed_config g (config_table s)\<rparr>"
      have "msgIDs (exec_cmd c s x) = msgIDs s"
        using shrinks_enforceLimits[of ?s now 0] by (simp add: Cmd_config config_state shrinks_def same_settings_def)
      moreover have "set_seqs (emitted (exec_cmd c s x)) = set_seqs (emitted s)" by (simp add: Cmd_config config_state)
      ultimately show ?thesis unfolding es by simp
    next
      case (Cmd_expire ids)
      then show ?thesis using es by (auto simp: expire_msgIDs_def obj_get_filter_keys split: if_splits)
    qed (use ids in simp)
    then show ?thesis using ids' no_sets es by (auto simp: new_sets_def)
  qed
  moreover have "ids_logged (exec_cmd c s x) \<and> new_sets {a} s (exec_cmd c s x)" if "x = Cmd_set now a" for now a
    using set_logged(1,2)[of c now a s "fst (storage_set c now a s)" "snd (storage_set c now a s)"] assms that by (simp add: log_ok_def)
  ultimately show "log_ok (exec_cmd c s x)" "new_sets (case x of Cmd_set now a \<Rightarrow> {a} | _ \<Rightarrow> {}) s (exec_cmd c s x)"
    using fresh assms by (cases x; auto simp: log_ok_def)+
qed

end
