(* ===== verification/DkvNet.thy ===== *)
theory DkvNet
  imports DkvClient StorageLog
begin

text \<open>
  Several key:value stores (Dkv) on one persistent stream: the composition of the server (Storage),
  the streams of the clients (CoreStream) and their stores. A client reads the log of change events of
  the server from its position \<open>n_read\<close> on; users, attempts to save, deliveries and the requests of
  other clients are interleaved in every order. All clients start with the empty stream, and an event whose
  processing throws is not received.
\<close>

section \<open>The network\<close>

record ('h, 't) net =
  srv :: "'h storage"
  nodes :: "('h, 't) node list"

definition PUBLISH_MANY_BATCH_SIZE :: nat where
  "PUBLISH_MANY_BATCH_SIZE = 500"

fun own_op :: "('h, 't) node_op \<Rightarrow> bool" where
  "own_op (Receive _) = False"
| "own_op Deletion_sent = False"
| "own_op (Batch_done _) = False"
| "own_op _ = True"

definition with_node :: "nat \<Rightarrow> ('h, 't) node \<Rightarrow> ('h, 't) net \<Rightarrow> ('h, 't) net" where
  "with_node i n s = s\<lparr>nodes := (nodes s)[i := n]\<rparr>"

definition next_requests :: "('h, 't) wire \<Rightarrow> ('h, 't) save_item list \<Rightarrow> nat \<Rightarrow> 'h set_args list" where
  "next_requests w x i = map (item_request w) (take PUBLISH_MANY_BATCH_SIZE (drop i x))"

inductive net_step :: "('h, 't) wire \<Rightarrow> ('h, 't) net \<Rightarrow> ('h, 't) net \<Rightarrow> bool" for w where
  net_own: "i < length (nodes s) \<Longrightarrow> own_op op \<Longrightarrow> net_step w s (with_node i (node_exec w op (nodes s ! i)) s)"
| net_receive: "i < length (nodes s) \<Longrightarrow> n = nodes s ! i \<Longrightarrow> n_read n < length (emitted (srv s)) \<Longrightarrow>
    e = emitted (srv s) ! n_read n \<Longrightarrow> fst (receive w e (n_dkv n)) = None \<Longrightarrow>
    net_step w s (with_node i (node_exec w (Receive e) n) s)"
| net_delete: "i < length (nodes s) \<Longrightarrow> n = nodes s ! i \<Longrightarrow> n_phase n = Deleting k (Some a) ks obj \<Longrightarrow>
    storage_set (w_codec w) now a (srv s) = (r, srv') \<Longrightarrow>
    net_step w s (with_node i (node_exec w (case r of Inl _ \<Rightarrow> Attempt_fails | Inr _ \<Rightarrow> Deletion_sent) n) (s\<lparr>srv := srv'\<rparr>))"
| net_no_delete: "i < length (nodes s) \<Longrightarrow> n = nodes s ! i \<Longrightarrow> n_phase n = Deleting k None ks obj \<Longrightarrow>
    net_step w s (with_node i (node_exec w Deletion_sent n) s)"
| net_set: "i < length (nodes s) \<Longrightarrow> n = nodes s ! i \<Longrightarrow> n_phase n = Setting x rs \<Longrightarrow>
    ops = zip nows (next_requests w x (length rs)) \<Longrightarrow> length nows = length (next_requests w x (length rs)) \<Longrightarrow>
    server_setMany (w_codec w) ops (srv s) = (res, srv') \<Longrightarrow>
    net_step w s (with_node i (node_exec w (Batch_done res) n) (s\<lparr>srv := srv'\<rparr>))"
| net_other: "net_step w s (s\<lparr>srv := exec_cmd (w_codec w) (srv s) x\<rparr>)"

inductive_cases net_stepE: "net_step w s s'"

definition net_start :: "('h, 't) net \<Rightarrow> bool" where
  "net_start s \<longleftrightarrow> rows (srv s) = [] \<and> emitted (srv s) = [] \<and>
     (\<forall>n \<in> set (nodes s). n_read n = 0 \<and> n_phase n = Idle \<and> stream (n_dkv n) = Some new_cstream)"

section \<open>The invariant of the server\<close>

definition srv_ok :: "('h, 't) wire \<Rightarrow> 'h storage \<Rightarrow> bool" where
  "srv_ok w s \<longleftrightarrow> storage_ok (w_codec w) [] s \<and> fresh_events 0 (emitted s) \<and>
     (\<forall>q \<in> set (set_seqs (emitted s)). q \<le> autoincrement s)"

lemma srv_ok_exec: "codec_ok (w_codec w) \<Longrightarrow> srv_ok w s \<Longrightarrow> srv_ok w (exec_cmd (w_codec w) s x)"
  using storage_ok_exec[of "w_codec w" "[]" s x] fresh_exec[of 0 s "w_codec w" x] by (simp add: srv_ok_def)

lemma srv_ok_set: "codec_ok (w_codec w) \<Longrightarrow> srv_ok w s \<Longrightarrow> srv_ok w (snd (storage_set (w_codec w) now a s))"
  using srv_ok_exec[of w s "Cmd_set now a"] by simp

lemma srv_ok_setMany:
  assumes "codec_ok (w_codec w)" "srv_ok w s" "server_setMany (w_codec w) ops s = (res, s')"
  shows "srv_ok w s' \<and> extends_log s s' \<and> length res = length ops"
  using assms(2,3)
proof (induction ops arbitrary: s res s')
  case (Cons op ops)
  obtain now a where op: "op = (now, a)" by (cases op)
  obtain r s1 where 1: "storage_set (w_codec w) now a s = (r, s1)" by fastforce
  obtain rs s2 where 2: "server_setMany (w_codec w) ops s1 = (rs, s2)" by fastforce
  have "srv_ok w s1" "extends_log s s1"
    using srv_ok_set[OF assms(1) Cons.prems(1), of now a] extends_set[of s "w_codec w" now a] 1 by simp_all
  with Cons.IH[OF this(1) 2] show ?case using Cons.prems(2) op 1 2 extends_trans by auto
qed simp

section \<open>Every client follows the log\<close>

definition node_tracks :: "('h, 't) wire \<Rightarrow> 'h change list \<Rightarrow> ('h, 't) node \<Rightarrow> bool" where
  "node_tracks w es n \<longleftrightarrow> n_read n \<le> length es \<and>
     (\<exists>st q. stream (n_dkv n) = Some st \<and>
        tracks (w_decode w) (w_is_tombstone w) q st (follow [] (take (n_read n) es)) \<and>
        (\<forall>es'. fresh_events 0 (take (n_read n) es @ es') \<longrightarrow> fresh_events q es'))"

definition net_ok :: "('h, 't) wire \<Rightarrow> ('h, 't) net \<Rightarrow> bool" where
  "net_ok w s \<longleftrightarrow> srv_ok w (srv s) \<and> (\<forall>n \<in> set (nodes s). node_tracks w (emitted (srv s)) n)"

lemma node_tracks_extends: "node_tracks w (emitted s) n \<Longrightarrow> extends_log s s' \<Longrightarrow> node_tracks w (emitted s') n"
  by (auto simp: node_tracks_def extends_log_def)

lemma node_tracks_same: "node_tracks w es n \<Longrightarrow> stream (n_dkv n') = stream (n_dkv n) \<Longrightarrow> n_read n' = n_read n \<Longrightarrow> node_tracks w es n'"
  by (simp add: node_tracks_def)

lemma stream_clear: "stream (fold delete_local ks d) = stream d"
  by (induction ks arbitrary: d) (simp_all add: delete_local_def note_changed_def)

lemma stream_results: "stream (snd (results_loop x i rs failed d)) = stream d"
proof (induction rs arbitrary: i failed d)
  case (Cons r rs)
  then show ?case by (cases r) (simp_all add: Let_def split: option.split)
qed simp

lemma node_exec_stream:
  assumes "\<forall>e. op \<noteq> Receive e"
  shows "stream (n_dkv (node_exec w op n)) = stream (n_dkv n)" "n_read (node_exec w op n) = n_read n"
proof -
  have "stream (n_dkv (node_exec w op n)) = stream (n_dkv n) \<and> n_read (node_exec w op n) = n_read n"
    using assms
    by (cases op) (auto simp: setMany_fields dkv_clear_def autosave_def stream_clear Let_def save_start_def delete_done_def
        save_results_def stream_results split: option.split save_phase.split)
  then show "stream (n_dkv (node_exec w op n)) = stream (n_dkv n)" "n_read (node_exec w op n) = n_read n" by blast+
qed

lemma tracks_open: "tracks decode tb q st ms \<Longrightarrow> \<not> is_closed st"
  by (simp add: tracks_def)

lemma receive_tracks:
  assumes t: "tracks (w_decode w) (w_is_tombstone w) q st ms" and st: "stream d = Some st"
    and r: "receive w e d = (None, d')" and f: "fresh_events q [e]"
  shows "\<exists>st' q'. stream d' = Some st' \<and> tracks (w_decode w) (w_is_tombstone w) q' st' (apply_change e ms) \<and>
    (\<forall>es'. fresh_events q (e # es') \<longrightarrow> fresh_events q' es')"
proof -
  from receive_cases[OF r st] obtain st' ces where
    p: "processPersistentMessage (w_thresh w) (w_decode w) (w_is_tombstone w) False False e st = (None, st')"
    and d': "d' = fold (handleRemoteChange (w_null w)) ces (d\<lparr>stream := Some st'\<rparr>)" by metis
  have "processPersistentMessages (w_thresh w) (w_decode w) (w_is_tombstone w) False False [e] st = ([], st')"
    by (simp add: p)
  from tracks_messages[OF t f this] have "\<exists>q'. tracks (w_decode w) (w_is_tombstone w) q' st' (apply_change e ms) \<and>
      (\<forall>es'. fresh_events q (e # es') \<longrightarrow> fresh_events q' es')" by (simp add: follow_def)
  then show ?thesis using d' fold_handle_fields(1)[where null = "w_null w" and es = ces and d = "d\<lparr>stream := Some st'\<rparr>"]
    by simp
qed

lemma node_receives:
  assumes n: "node_tracks w es n" and f: "fresh_events 0 es" and e: "n_read n < length es" "e = es ! n_read n"
    and r: "fst (receive w e (n_dkv n)) = None"
  shows "node_tracks w es (node_exec w (Receive e) n)"
proof -
  obtain st q where st: "stream (n_dkv n) = Some st"
    and t: "tracks (w_decode w) (w_is_tombstone w) q st (follow [] (take (n_read n) es))"
    and q: "\<forall>es'. fresh_events 0 (take (n_read n) es @ es') \<longrightarrow> fresh_events q es'"
    using n by (auto simp: node_tracks_def)
  have next_take: "take (Suc (n_read n)) es = take (n_read n) es @ [e]" using e by (simp add: take_Suc_conv_app_nth)
  then have "es = take (n_read n) es @ [e] @ drop (Suc (n_read n)) es" by (metis append.assoc append_take_drop_id)
  then have "fresh_events 0 (take (n_read n) es @ [e])" using f fresh_prefix by (metis append.assoc)
  then have "fresh_events q [e]" using q by blast
  obtain d' where d': "receive w e (n_dkv n) = (None, d')" using r by (metis prod.collapse)
  from receive_tracks[OF t st d' \<open>fresh_events q [e]\<close>] obtain st' q' where
    "stream d' = Some st'" "tracks (w_decode w) (w_is_tombstone w) q' st' (follow [] (take (Suc (n_read n)) es))"
    "\<forall>es'. fresh_events q (e # es') \<longrightarrow> fresh_events q' es'" unfolding next_take by auto
  moreover have "\<forall>es'. fresh_events 0 (take (Suc (n_read n)) es @ es') \<longrightarrow> fresh_events q (e # es')"
    unfolding next_take using q by simp
  ultimately show ?thesis using e(1) d' by (auto simp: node_tracks_def)
qed

lemma net_ok_with_node:
  assumes "srv_ok w srv'" "extends_log (srv s) srv'" "net_ok w s" "node_tracks w (emitted srv') n"
  shows "net_ok w (with_node i n (s\<lparr>srv := srv'\<rparr>))"
proof -
  have "m = n \<or> m \<in> set (nodes s)" if "m \<in> set ((nodes s)[i := n])" for m
    using that set_update_subset_insert by fastforce
  then show ?thesis using assms node_tracks_extends[OF _ assms(2)] by (auto simp: net_ok_def with_node_def)
qed

lemma net_ok_step:
  assumes c: "codec_ok (w_codec w)" and ok: "net_ok w s" and step: "net_step w s s'"
  shows "net_ok w s' \<and> extends_log (srv s) (srv s')"
proof -
  have so: "srv_ok w (srv s)" and nt: "n \<in> set (nodes s) \<Longrightarrow> node_tracks w (emitted (srv s)) n" for n
    using ok by (auto simp: net_ok_def)
  have same: "net_ok w (with_node i n (s\<lparr>srv := srv'\<rparr>)) \<and> extends_log (srv s) (srv (with_node i n (s\<lparr>srv := srv'\<rparr>)))"
    if "srv_ok w srv'" "extends_log (srv s) srv'" "node_tracks w (emitted srv') n" for srv' i n
    using net_ok_with_node[OF that(1,2) ok that(3)] that(2) by (simp add: with_node_def)
  have keep: "with_node i n s = with_node i n (s\<lparr>srv := srv s\<rparr>)" for i n by simp
  have exec: "node_tracks w es (node_exec w op n)" if "node_tracks w es n" "\<forall>e. op \<noteq> Receive e" for es op n
    using node_tracks_same[OF that(1)] node_exec_stream[OF that(2)] by blast
  from step show ?thesis
  proof cases
    case (net_own i op)
    have "\<forall>e. op \<noteq> Receive e" using net_own(3) by auto
    then have "node_tracks w (emitted (srv s)) (node_exec w op (nodes s ! i))" using exec nt net_own(2) by simp
    then show ?thesis unfolding net_own(1) keep by (intro same so) simp_all
  next
    case (net_receive i n e)
    have "node_tracks w (emitted (srv s)) (node_exec w (Receive e) n)"
      using node_receives[OF nt _ net_receive(4-6)] so net_receive(2,3) by (simp add: srv_ok_def)
    then show ?thesis unfolding net_receive(1) keep by (intro same so) simp_all
  next
    case (net_delete i n k a ks obj now r srv')
    have "srv_ok w srv'" "extends_log (srv s) srv'"
      using srv_ok_set[OF c so, of now a] extends_set[of "srv s" "w_codec w" now a] net_delete(5) by simp_all
    moreover have "node_tracks w (emitted srv') n"
      using node_tracks_extends[OF nt calculation(2)] net_delete(2,3) by simp
    then have "node_tracks w (emitted srv') (node_exec w (case r of Inl _ \<Rightarrow> Attempt_fails | Inr _ \<Rightarrow> Deletion_sent) n)"
      by (rule exec) (simp split: sum.split)
    ultimately show ?thesis unfolding net_delete(1) by (intro same)
  next
    case (net_no_delete i n k ks obj)
    have "node_tracks w (emitted (srv s)) (node_exec w Deletion_sent n)" using nt net_no_delete by (intro exec) simp_all
    then show ?thesis unfolding net_no_delete(1) keep by (intro same so) simp_all
  next
    case (net_set i n x rs ops nows res srv')
    have "srv_ok w srv'" "extends_log (srv s) srv'" using srv_ok_setMany[OF c so net_set(7)] by simp_all
    moreover have "node_tracks w (emitted srv') n"
      using node_tracks_extends[OF nt calculation(2)] net_set(2,3) by simp
    then have "node_tracks w (emitted srv') (node_exec w (Batch_done res) n)" by (rule exec) simp
    ultimately show ?thesis unfolding net_set(1) by (intro same)
  next
    case (net_other x)
    then show ?thesis
      using srv_ok_exec[OF c so, of x] extends_exec[of "srv s" "w_codec w" x] node_tracks_extends[OF nt extends_exec]
      by (auto simp: net_ok_def)
  qed
qed

lemma net_ok_steps:
  assumes "(net_step w)\<^sup>*\<^sup>* s s'" "codec_ok (w_codec w)" "net_ok w s"
  shows "net_ok w s' \<and> extends_log (srv s) (srv s')"
  using assms(1)
proof (induction rule: rtranclp_induct)
  case (step s' s'')
  then show ?case using net_ok_step[OF assms(2) _ step(2)] extends_trans by blast
qed (simp add: assms(3))

lemma net_start_ok: "net_start s \<Longrightarrow> net_ok w s"
  by (auto simp: net_start_def net_ok_def srv_ok_def storage_ok_def table_ok_def follow_def fresh_events_def storage_keys_def
      node_tracks_def intro!: exI[of _ new_cstream] exI[of _ 0] tracks_new)

section \<open>What the clients see\<close>

definition shown :: "('h, 't) wire \<Rightarrow> 'h storage \<Rightarrow> string \<Rightarrow> 't option" where
  "shown w s k = server_value (w_codec w) (w_decode w) (w_is_tombstone w) s k"

lemma caught_up_value:
  assumes "srv_ok w sv" "node_tracks w (emitted sv) n" "n_read n = length (emitted sv)" "stream (n_dkv n) = Some st"
  shows "getKv k st = shown w sv k"
proof -
  obtain q where "tracks (w_decode w) (w_is_tombstone w) q st (follow [] (emitted sv))"
    using assms(2,3,4) by (auto simp: node_tracks_def)
  moreover have "list_all2 (shows_row (w_codec w)) (rows sv) (follow [] (emitted sv))"
    using assms(1) by (simp add: srv_ok_def storage_ok_def)
  ultimately show ?thesis unfolding shown_def by (rule server_value_eq)
qed

text \<open>C3: Whatever users, attempts to save, deliveries and other clients do and in whatever order: a client
  that has received every change event shows, for each key, its own unsaved value if it has one and
  otherwise the value of the server. So two stable clients that are up to date agree. The clients start on an
  empty stream, and every event that they received was processed without an exception.\<close>

theorem settled_clients_agree:
  assumes "codec_ok (w_codec w)" "net_start s0" "(net_step w)\<^sup>*\<^sup>* s0 s"
    and "n \<in> set (nodes s)" "n_read n = length (emitted (srv s))"
    and "n' \<in> set (nodes s)" "n_read n' = length (emitted (srv s))" "isStable (n_dkv n')"
  shows "dkv_get k (n_dkv n) = Inr (case obj_get (locals (n_dkv n)) k of Some Tombstone \<Rightarrow> None | Some (Value v) \<Rightarrow> Some v
      | None \<Rightarrow> server_value (w_codec w) (w_decode w) (w_is_tombstone w) (srv s) k) \<and>
    dkv_get k (n_dkv n') = Inr (server_value (w_codec w) (w_decode w) (w_is_tombstone w) (srv s) k)"
proof -
  have ok: "srv_ok w (srv s)" "node_tracks w (emitted (srv s)) n" "node_tracks w (emitted (srv s)) n'"
    using net_ok_steps[OF assms(3,1) net_start_ok[OF assms(2)]] assms(4,6) by (auto simp: net_ok_def)
  obtain st st' where "stream (n_dkv n) = Some st" "stream (n_dkv n') = Some st'" using ok(2,3) by (auto simp: node_tracks_def)
  moreover from this caught_up_value[OF ok(1,2) assms(5)] caught_up_value[OF ok(1,3) assms(7)]
  have "getKv k st = server_value (w_codec w) (w_decode w) (w_is_tombstone w) (srv s) k"
    "getKv k st' = server_value (w_codec w) (w_decode w) (w_is_tombstone w) (srv s) k" by (simp_all add: shown_def)
  ultimately show ?thesis using assms(8) by (simp add: dkv_get_def isStable_def split: option.split)
qed

section \<open>Saving with a merge function is a compare and swap\<close>

lemma follow_in_events: "m \<in> set (follow ms es) \<Longrightarrow> m \<in> set ms \<or> (\<exists>i. SetOperation m i \<in> set es)"
proof (induction es arbitrary: ms)
  case (Cons e es)
  then have "m \<in> set (apply_change e ms) \<or> (\<exists>i. SetOperation m i \<in> set es)" by simp
  then show ?case by (cases e) auto
qed (simp add: follow_def)

lemma client_message:
  assumes "tracks decode tb q st ms" "seqKv k st = Some p"
  shows "\<exists>m v. m \<in> set ms \<and> m_seq m = p \<and> m_key m = Some k \<and> live tb m \<and> decode (m_encoding m) (m_raw m) = Some v \<and> getKv k st = Some v"
proof -
  obtain v r where r: "obj_get (kv st) k = Some (v, r)" "seq r = p" using assms(2) by (auto simp: seqKv_def)
  then have g: "getKv k st = Some v" by (simp add: getKv_def)
  then obtain m where m: "m \<in> set ms" "m_key m = Some k" "live tb m" "decode (m_encoding m) (m_raw m) = Some v"
    using tracks_getKv[OF assms(1)] by blast
  have t: "tracked decode tb q (pairs st) (obj_get (kv st)) ms" using assms(1) by (simp add: tracks_def)
  then obtain m' where "m' \<in> set ms" "m_seq m' = seq r" "m_key m' = Some k" using r(1) by (auto simp: tracked_def)
  then have "m' = m" using t m(1,2) by (simp add: tracked_def)
  with m g r(2) \<open>m_seq m' = seq r\<close> show ?thesis by blast
qed

lemma accepted_previous:
  assumes "fst (storage_set c now a s) = Inr r" "a_key a = Some k" "a_previousSeq a = Some p" "a_msgID a = None"
  shows "\<exists>row. find (\<lambda>r. r_key r = Some k) (rows s) = Some row \<and> r_seq row = p"
proof (rule ccontr)
  assume "\<not> ?thesis"
  then have "fst (storage_set c now a s) = Inl TypeErr \<or> fst (storage_set c now a s) = Inl WrongLastSequence"
    using assms(2-4) by (cases "find (\<lambda>r. r_key r = Some k) (rows s)") (auto simp: storage_set_def)
  with assms(1) show False by auto
qed

lemma server_shows:
  assumes "srv_ok w s" "find (\<lambda>r. r_key r = Some k) (rows s) = Some row"
  shows "\<exists>m i. SetOperation m i \<in> set (emitted s) \<and> m_seq m = r_seq row \<and> storage_get (w_codec w) None (Some k) s = Inr (Some m)"
proof -
  have row: "row \<in> set (rows s)" "r_key row = Some k" using assms(2) by (auto simp: find_Some_iff)
  have "list_all2 (shows_row (w_codec w)) (rows s) (follow [] (emitted s))" using assms(1) by (simp add: srv_ok_def storage_ok_def)
  from this row(1) obtain m where m: "m \<in> set (follow [] (emitted s))" "shows_row (w_codec w) row m" by (rule list_all2_memE)
  have "storage_get (w_codec w) None (Some k) s = Inr (Some m)"
    using assms(2) m(2) by (simp add: storage_get_def shows_row_def)
  moreover obtain i where "SetOperation m i \<in> set (emitted s)" using follow_in_events[OF m(1)] by auto
  ultimately show ?thesis using shows_row_keys[OF m(2)] by blast
qed


section \<open>A save without conflicts settles\<close>

lemma set_items_all:
  assumes "merge_fn d = None" "(k, Value v) \<in> set L"
  shows "\<exists>it \<in> set (set_items L d). i_key it = k \<and> i_mesg it = v"
proof -
  obtain it where "set_item d k v = Some it" "i_key it = k" "i_mesg it = v" using assms(1) by (simp add: set_item_def)
  then show ?thesis using assms(2) by (force simp: set_items_def List.map_filter_def)
qed

lemma stored_event:
  assumes "storage_set c now a s = (Inr r, s')" "a_msgID a = None"
  shows "\<exists>es m. emitted s' = emitted s @ es @ [SetOperation m None] \<and> m_key m = a_key a \<and> m_encoding m = a_encoding a \<and> m_raw m = a_raw a"
proof (cases rule: storage_set_cases[of c now a s])
  case (stored raw' alg s1 s'')
  have "extends_log s s1" using extends_enforceLimits[of s now "args_size c a"] stored by simp
  then obtain es where "emitted s1 = emitted s @ es" by (auto simp: extends_log_def)
  then show ?thesis using stored assms by (auto simp: published_def)
qed (use assms in auto)

lemma setMany_extends: "server_setMany c ops s = (res, s') \<Longrightarrow> extends_log s s'"
proof (induction ops arbitrary: s res)
  case (Cons op ops)
  obtain now a where op: "op = (now, a)" by (cases op)
  obtain r s1 where 1: "storage_set c now a s = (r, s1)" by fastforce
  obtain rs s2 where 2: "server_setMany c ops s1 = (rs, s2)" by fastforce
  have "extends_log s s1" using extends_set[of s c now a] 1 by simp
  moreover have "s2 = s'" using Cons.prems op 1 2 by simp
  ultimately show ?case using Cons.IH[OF 2[unfolded \<open>s2 = s'\<close>]] extends_trans by blast
qed simp

lemma setMany_events:
  assumes "server_setMany c ops s = (res, s')" "set res \<subseteq> {None}" "(now, a) \<in> set ops" "\<forall>(_, a) \<in> set ops. a_msgID a = None"
  shows "\<exists>m \<in> {m. SetOperation m None \<in> set (drop (length (emitted s)) (emitted s'))}.
    m_key m = a_key a \<and> m_encoding m = a_encoding a \<and> m_raw m = a_raw a"
  using assms
proof (induction ops arbitrary: s res)
  case (Cons op ops)
  obtain now' b where op: "op = (now', b)" by (cases op)
  obtain r s1 where 1: "storage_set c now' b s = (r, s1)" by fastforce
  obtain rs s2 where 2: "server_setMany c ops s1 = (rs, s2)" by fastforce
  have res: "rs = tl res" "s2 = s'" "r \<noteq> Inl e" for e using Cons.prems(1,2) op 1 2 by auto
  then obtain x where x: "r = Inr x" by (cases r) auto
  from stored_event[OF 1[unfolded x]] Cons.prems(4) op obtain es m where
    m: "emitted s1 = emitted s @ es @ [SetOperation m None]" "m_key m = a_key b" "m_encoding m = a_encoding b" "m_raw m = a_raw b"
    by auto
  have "extends_log s1 s'" using setMany_extends[OF 2] res(2) by simp
  then obtain es' where es': "emitted s' = emitted s1 @ es'" by (auto simp: extends_log_def)
  show ?case
  proof (cases "(now, a) = op")
    case True
    then have "SetOperation m None \<in> set (drop (length (emitted s)) (emitted s'))" by (simp add: es' m(1))
    then show ?thesis using m True op by blast
  next
    case False
    have "res = (case r of Inl e \<Rightarrow> Some (error_code e) | Inr _ \<Rightarrow> None) # rs" using Cons.prems(1) op 1 2 by simp
    then have "set rs \<subseteq> {None}" using Cons.prems(2) by simp
    moreover have "(now, a) \<in> set ops" "\<forall>(_, a) \<in> set ops. a_msgID a = None" using False Cons.prems(3,4) by auto
    ultimately obtain m' where
      "SetOperation m' None \<in> set (drop (length (emitted s1)) (emitted s'))" "m_key m' = a_key a \<and> m_encoding m' = a_encoding a \<and> m_raw m' = a_raw a"
      using Cons.IH[OF 2[unfolded res(2)]] by blast
    moreover have "set (drop (length (emitted s1)) (emitted s')) \<subseteq> set (drop (length (emitted s)) (emitted s'))"
      by (auto simp: es' m(1))
    ultimately show ?thesis by blast
  qed
qed simp

lemma receive_all_tracks:
  assumes "receive_all w es d = Some d'" "stream d = Some st" "fresh_events q es"
    and "tracks (w_decode w) (w_is_tombstone w) q st ms"
  shows "\<exists>st' q'. stream d' = Some st' \<and> tracks (w_decode w) (w_is_tombstone w) q' st' (follow ms es)"
  using assms
proof (induction es arbitrary: d st q ms)
  case (Cons e es)
  then obtain d1 where r: "receive w e d = (None, d1)" "receive_all w es d1 = Some d'" by (auto split: prod.splits option.splits)
  have "fresh_events q [e]" using fresh_prefix[of q "[e]" es] Cons.prems(3) by simp
  from receive_tracks[OF Cons.prems(4,2) r(1) this] obtain st1 q1 where
    "stream d1 = Some st1" "tracks (w_decode w) (w_is_tombstone w) q1 st1 (apply_change e ms)" "fresh_events q1 es"
    using Cons.prems(3) by blast
  from Cons.IH[OF r(2) this(1,3,2)] show ?case by simp
qed (auto simp: follow_def)

lemma results_all_saved: "set rs \<subseteq> {None} \<Longrightarrow> snd (results_loop x i rs failed d) = d"
  by (induction rs arbitrary: i) auto

text \<open>C21: When the server accepts all values of one attempt to save of a store without a merge function, the client becomes stable by receiving the
  changes up to then, with the value of the server for every key. Conditions: no deletion is waiting to be saved and no other attempt is
  under way; nothing comes between the start of the attempt, the server's answers and their processing, except that events may be
  received late; the events are processed without an exception, and decoding gives back what was encoded. The state before the attempt is any that
  the network reaches.\<close>

theorem save_settles:
  assumes "codec_ok (w_codec w)" "net_start s0" "(net_step w)\<^sup>*\<^sup>* s0 s" "n \<in> set (nodes s)"
    and "n_phase n = Idle" "merge_fn (n_dkv n) = None" "tombstones (locals (n_dkv n)) = []"
    and "\<And>v. w_decode w (fst (w_encode w v)) (snd (w_encode w v)) = Some v"
    and "n_phase (node_exec w Start_save n) = Setting x []" "length nows = length x"
    and "server_setMany (w_codec w) (zip nows (map (item_request w) x)) (srv s) = (res, sv)" "set res \<subseteq> {None}"
    and "receive_all w (drop (n_read n) (emitted sv)) (n_dkv (run_ops w [Start_save, Batch_done res, Results_done] n)) = Some d"
  shows "isStable d \<and> dkv_get k d = Inr (server_value (w_codec w) (w_decode w) (w_is_tombstone w) sv k)"
proof -
  have ok: "srv_ok w (srv s)" "node_tracks w (emitted (srv s)) n"
    using net_ok_steps[OF assms(3,1) net_start_ok[OF assms(2)]] assms(4) by (auto simp: net_ok_def)
  from srv_ok_setMany[OF assms(1) ok(1) assms(11)] have sv: "srv_ok w sv" "extends_log (srv s) sv" by blast+
  obtain st q where st: "stream (n_dkv n) = Some st" "n_read n \<le> length (emitted (srv s))"
    and t: "tracks (w_decode w) (w_is_tombstone w) q st (follow [] (take (n_read n) (emitted sv)))"
    and q: "\<forall>es'. fresh_events 0 (take (n_read n) (emitted sv) @ es') \<longrightarrow> fresh_events q es'"
    using node_tracks_extends[OF ok(2) sv(2)] ok(2) by (auto simp: node_tracks_def)
  let ?d = "(n_dkv n)\<lparr>changed := []\<rparr>"
  have x: "x = set_items (locals (n_dkv n)) ?d" using assms(5,7,9) st(1) by (simp add: save_start_def next_phase_def Let_def)
  have len: "length res = length x" using srv_ok_setMany[OF assms(1) ok(1) assms(11)] assms(10) by simp
  have d0: "n_dkv (run_ops w [Start_save, Batch_done res, Results_done] n) = ?d"
    using assms(5,7,12) st(1) len x
    by (simp add: save_start_def next_phase_def save_results_def results_all_saved Let_def)
  let ?es = "drop (n_read n) (emitted sv)"
  have "fresh_events q ?es" using q sv(1) by (simp add: srv_ok_def)
  from receive_all_tracks[OF assms(13)[unfolded d0] _ this t] st(1) obtain st' q' where
    st': "stream d = Some st'" "tracks (w_decode w) (w_is_tombstone w) q' st' (follow [] (emitted sv))"
    by (auto simp: follow_def simp flip: foldl_append)
  have "list_all2 (shows_row (w_codec w)) (rows sv) (follow [] (emitted sv))" using sv(1) by (simp add: srv_ok_def storage_ok_def)
  from server_value_eq[OF st'(2) this] have value_eq: "getKv k st' = server_value (w_codec w) (w_decode w) (w_is_tombstone w) sv k" .
  have "\<exists>e \<in> set ?es. carries w k v e" if kv: "obj_get (locals (n_dkv n)) k = Some (Value v)" for k v
  proof -
    from set_items_all[of ?d k v "locals (n_dkv n)"] kv assms(6) x obtain it where
      it: "it \<in> set x" "i_key it = k" "i_mesg it = v" by (auto dest: map_of_SomeD)
    then obtain j where "j < length x" "x ! j = it" by (auto simp: in_set_conv_nth)
    then have mem: "(nows ! j, item_request w it) \<in> set (zip nows (map (item_request w) x))"
      using assms(10) by (auto simp: in_set_zip intro!: exI[of _ j])
    have ids: "\<forall>(_, a) \<in> set (zip nows (map (item_request w) x)). a_msgID a = None"
      by (auto simp: item_request_def set_request_def dest!: set_zip_rightD)
    from setMany_events[OF assms(11,12) mem ids] obtain m where
      m: "SetOperation m None \<in> set (drop (length (emitted (srv s))) (emitted sv))" "m_key m = Some k"
        "m_encoding m = fst (w_encode w v)" "m_raw m = snd (w_encode w v)"
      using it by (auto simp: item_request_def set_request_def)
    have "set (drop (length (emitted (srv s))) (emitted sv)) \<subseteq> set ?es" using st(2) by (simp add: set_drop_subset_set_drop)
    then show ?thesis using m assms(8)[of v] by force
  qed
  moreover have "obj_get (locals (n_dkv n)) k \<noteq> Some Tombstone" for k
    using assms(7) by (force simp: tombstones_def filter_empty_conv dest: map_of_SomeD)
  ultimately have "\<exists>v. s = Value v \<and> (\<exists>e \<in> set ?es. carries w k v e)" if "obj_get (locals (n_dkv n)) k = Some s" for k s
    using that by (cases s) (simp_all del: map_of_eq_Some_iff)
  then have "\<forall>k s. obj_get (locals ?d) k = Some s \<longrightarrow> (\<exists>v. s = Value v \<and> (\<exists>e \<in> set ?es. carries w k v e))" by simp
  moreover have "open_stream ?d" using st(1) tracks_open[OF t] by (simp add: open_stream_def)
  ultimately have "isStable d" using echoes_settle[OF _ _ assms(13)[unfolded d0]] assms(6) by simp
  then show ?thesis using st'(1) value_eq by (simp add: dkv_get_def isStable_def)
qed

section \<open>A small network\<close>

definition sample_net :: "nat merge_function option \<Rightarrow> (nat, nat) net" where
  "sample_net f = \<lparr>srv = empty_storage, nodes = [new_node f, new_node f]\<rparr>"

definition merge_local :: "nat merge_function" where
  "merge_local k l rem prev = Merge_value l"

lemma sample_net_start: "net_start (sample_net f)"
  by (simp add: net_start_def sample_net_def empty_storage_def new_node_def new_dkv_def)

lemma wire_codec [simp]: "codec_ok (w_codec dkv_wire)"
  by (simp add: dkv_wire_def plain_codec_ok)

definition other_set :: "nat storage" where
  "other_set = exec_cmd plain_codec empty_storage (Cmd_set 5000 sample_args)"

lemma other_set_log: "emitted other_set = [SetOperation (published sample_args 1 5000) (Some ''m'')]"
  by (simp add: other_set_def storage_set_def sample_args_def empty_storage_def default_configuration_def Let_def
      compress_def enforceLimits_def check_rates_def limit_msgs_def limit_age_def limit_bytes_def limit_ttl_def
      insert_row_def sql_delete_def emit_def published_def)

definition received_node :: "nat merge_function option \<Rightarrow> (nat, nat) node" where
  "received_node f = node_exec dkv_wire (Receive (SetOperation (published sample_args 1 5000) (Some ''m''))) (new_node f)"

lemma received:
  "receive dkv_wire (SetOperation (published sample_args 1 5000) (Some ''m'')) (new_dkv f False) =
     (None, (new_dkv f False)\<lparr>stream := Some sample_stream, remote := [(''k'', 2)], events := [Ev_change ''k'' (Some (Value 2)) None]\<rparr>)"
  by (simp add: receive_def new_dkv_def dkv_wire_def processPersistentSet_def published_def sample_args_def new_cstream_def
      sample_stream_def note_seq_def note_missing_def insert_raw_def finish_set_def set_kv_def the_raw_def emitChange_def Let_def
      KEY_GC_THRESH_def handleRemoteChange_def dkv_emit_def)

lemma received_node_fields:
  "n_read (received_node f) = 1" "n_phase (received_node f) = Idle" "stream (n_dkv (received_node f)) = Some sample_stream"
  "locals (n_dkv (received_node f)) = []" "merge_fn (n_dkv (received_node f)) = f" "invalidSeq (n_dkv (received_node f)) = []"
  "set_options (n_dkv (received_node f)) = []"
  using received[of f] by (simp_all add: received_node_def new_node_def) (simp_all add: new_dkv_def)

definition received_net :: "nat merge_function option \<Rightarrow> (nat, nat) net" where
  "received_net f = \<lparr>srv = other_set, nodes = [received_node f, received_node f]\<rparr>"

lemma received_net_reached: "(net_step dkv_wire)\<^sup>*\<^sup>* (sample_net f) (received_net f)"
proof -
  let ?e = "SetOperation (published sample_args 1 5000) (Some ''m'')"
  let ?n = "new_node f"
  have "net_step dkv_wire (sample_net f) \<lparr>srv = other_set, nodes = [?n, ?n]\<rparr>"
    using net_other[of dkv_wire "sample_net f" "Cmd_set 5000 sample_args"] by (simp add: sample_net_def dkv_wire_def other_set_def)
  moreover have r: "fst (receive dkv_wire ?e (n_dkv ?n)) = None" "n_read ?n = 0" using received[of f] by (simp_all add: new_node_def)
  have "net_step dkv_wire \<lparr>srv = other_set, nodes = [?n, ?n]\<rparr> \<lparr>srv = other_set, nodes = [received_node f, ?n]\<rparr>"
    using net_receive[of 0 "\<lparr>srv = other_set, nodes = [?n, ?n]\<rparr>" ?n ?e dkv_wire] r
    by (simp add: other_set_log with_node_def received_node_def)
  moreover have "net_step dkv_wire \<lparr>srv = other_set, nodes = [received_node f, ?n]\<rparr> (received_net f)"
    using net_receive[of 1 "\<lparr>srv = other_set, nodes = [received_node f, ?n]\<rparr>" ?n ?e dkv_wire] r
    by (simp add: other_set_log with_node_def received_node_def received_net_def)
  ultimately show ?thesis by (meson converse_rtranclp_into_rtranclp rtranclp.rtrancl_refl)
qed

definition editing_node :: "nat merge_function option \<Rightarrow> (nat, nat) node" where
  "editing_node f = node_exec dkv_wire (Set_key ''k'' (Some 9) None) (received_node f)"

definition editing_net :: "nat merge_function option \<Rightarrow> (nat, nat) net" where
  "editing_net f = with_node 0 (editing_node f) (received_net f)"

lemma editing_net_reached: "(net_step dkv_wire)\<^sup>*\<^sup>* (sample_net f) (editing_net f)"
proof -
  have "net_step dkv_wire (received_net f) (editing_net f)"
    using net_own[of 0 "received_net f" "Set_key ''k'' (Some 9) None" dkv_wire]
    by (simp add: received_net_def editing_net_def editing_node_def)
  with received_net_reached[of f] show ?thesis by simp
qed

lemma editing_node_fields:
  "n_read (editing_node f) = 1" "n_phase (editing_node f) = Idle" "stream (n_dkv (editing_node f)) = Some sample_stream"
  "locals (n_dkv (editing_node f)) = [(''k'', Value 9)]" "merge_fn (n_dkv (editing_node f)) = f" "invalidSeq (n_dkv (editing_node f)) = []"
  "set_options (n_dkv (editing_node f)) = []"
  using received_node_fields[of f]
  by (simp_all add: editing_node_def toValue_def) (simp add: dkv_set_def autosave_def note_changed_def Let_def)

lemma editing_net_fields: "nodes (editing_net f) = [editing_node f, received_node f]" "srv (editing_net f) = other_set"
  by (simp_all add: editing_net_def received_net_def with_node_def)

lemma settled_clients_agree_witness:
  "dkv_get ''k'' (n_dkv (editing_node None)) = Inr (Some 9) \<and>
   dkv_get ''k'' (n_dkv (received_node None)) =
     Inr (server_value plain_codec (w_decode dkv_wire) (w_is_tombstone dkv_wire) other_set ''k'')"
  using settled_clients_agree[OF wire_codec sample_net_start editing_net_reached, of "editing_node None" None "received_node None" "''k''"]
  by (simp add: editing_net_fields editing_node_fields received_node_fields other_set_log isStable_def dkv_wire_def)

definition editing_item :: "(nat, nat) save_item" where
  "editing_item = \<lparr>i_key = ''k'', i_mesg = 9, i_headers = None, i_previousSeq = Some 1\<rparr>"


definition saved_item :: "(nat, nat) save_item" where
  "saved_item = \<lparr>i_key = ''k'', i_mesg = 9, i_headers = None, i_previousSeq = None\<rparr>"

definition saved_srv :: "nat storage" where
  "saved_srv = snd (server_setMany plain_codec [(6000, item_request dkv_wire saved_item)] other_set)"

definition saved_message :: "nat stored_message" where
  "saved_message = \<lparr>m_seq = 2, m_time = 6000, m_key = Some ''k'', m_encoding = 0, m_raw = replicate 9 0, m_headers = None\<rparr>"

lemma saved_srv_log:
  "server_setMany plain_codec [(6000, item_request dkv_wire saved_item)] other_set = ([None], saved_srv)"
  "drop 1 (emitted saved_srv) = [SetOperation saved_message None]"
proof -
  have "fst (server_setMany plain_codec [(6000, item_request dkv_wire saved_item)] other_set) = [None] \<and>
      drop 1 (emitted (snd (server_setMany plain_codec [(6000, item_request dkv_wire saved_item)] other_set))) =
        [SetOperation saved_message None]"
    by (simp add: other_set_def storage_set_def sample_args_def empty_storage_def default_configuration_def Let_def
      compress_def enforceLimits_def check_rates_def limit_msgs_def limit_age_def limit_bytes_def limit_ttl_def
      insert_row_def sql_delete_def emit_def item_request_def set_request_def saved_item_def dkv_wire_def saved_message_def)
  then show "server_setMany plain_codec [(6000, item_request dkv_wire saved_item)] other_set = ([None], saved_srv)"
    "drop 1 (emitted saved_srv) = [SetOperation saved_message None]"
    by (simp_all add: saved_srv_def prod_eq_iff)
qed

lemma saved_received: "stream d = Some sample_stream \<Longrightarrow> \<exists>d'. receive_all dkv_wire [SetOperation saved_message None] d = Some d'"
  by (simp add: receive_def dkv_wire_def processPersistentSet_def published_def sample_args_def sample_stream_def new_cstream_def
      saved_message_def note_seq_def note_missing_def insert_raw_def finish_set_def set_kv_def the_raw_def emitChange_def Let_def
      KEY_GC_THRESH_def)

lemma save_settles_witness:
  "\<exists>d. receive_all dkv_wire [SetOperation saved_message None]
      (n_dkv (run_ops dkv_wire [Start_save, Batch_done [None], Results_done] (editing_node None))) = Some d \<and> isStable d"
proof -
  let ?n = "editing_node None"
  have n: "?n \<in> set (nodes (editing_net None))" "n_phase ?n = Idle" "merge_fn (n_dkv ?n) = None" "tombstones (locals (n_dkv ?n)) = []"
    by (simp_all add: editing_net_fields editing_node_fields tombstones_def)
  have phase: "n_phase (node_exec dkv_wire Start_save ?n) = Setting [saved_item] []"
    by (simp add: editing_node_fields save_start_def tombstones_def next_phase_def set_items_def set_item_def
        List.map_filter_simps saved_item_def Let_def)
  have stored: "server_setMany (w_codec dkv_wire) (zip [6000] (map (item_request dkv_wire) [saved_item])) (srv (editing_net None)) =
      ([None], saved_srv)"
    using saved_srv_log(1) by (simp add: editing_net_fields dkv_wire_def)
  have "stream (n_dkv (run_ops dkv_wire [Start_save, Batch_done [None], Results_done] ?n)) = Some sample_stream"
    using node_exec_stream(1)[of _ dkv_wire] by (simp add: editing_node_fields del: node_exec.simps)
  from saved_received[OF this] obtain d where
    d: "receive_all dkv_wire [SetOperation saved_message None] (n_dkv (run_ops dkv_wire [Start_save, Batch_done [None], Results_done] ?n)) = Some d" ..
  then have "receive_all dkv_wire (drop (n_read ?n) (emitted saved_srv))
      (n_dkv (run_ops dkv_wire [Start_save, Batch_done [None], Results_done] ?n)) = Some d"
    by (simp only: editing_node_fields(1) saved_srv_log(2))
  from save_settles[OF wire_codec sample_net_start editing_net_reached n _ phase _ stored _ this]
  have "isStable d" by (simp add: dkv_wire_def)
  with d show ?thesis by blast
qed

end
