(* ===== verification/DStream.thy ===== *)
theory DStream
  imports StorageLog Dkv
begin

text \<open>
  The eventually consistent stream, the class \<open>DStream\<close> of \<^verbatim>\<open>packages/conat/sync/dstream.ts\<close>, on
  top of a CoreStream: messages that were published here and are not yet saved (\<open>ds_local\<close>, by their
  random ids), messages that the server has accepted but that have not yet arrived (\<open>ds_saved\<close>, by
  their sequence numbers), and the attempts to save. The wire format is the one of Dkv. The
  inventory, \<open>load\<close>, \<open>delete\<close> and \<open>config\<close>, which only call the stream, the event \<open>reset\<close>, which the
  stream never emits, and \<open>attemptToSaveParallel\<close>, which is never called, are left out.
\<close>

section \<open>State\<close>

datatype 't ds_event =
    Ds_change 't nat
  | Ds_stable
  | Ds_reject 't
  | Ds_closed

text \<open>The options of \<open>publish\<close>.\<close>

record 'h publish_opts =
  dp_headers :: "'h option"
  dp_ttl :: "int option"

record ('h, 't) dstream =
  ds_stream :: "('h, 't) cstream option"
  ds_local :: "(string, 't) obj"
  ds_options :: "(string, 'h publish_opts) obj"
  ds_saved :: "(nat, 't) obj"
  ds_noAutosave :: bool
  ds_saves :: nat
  ds_events :: "'t ds_event list"

definition new_dstream :: "bool \<Rightarrow> ('h, 't) dstream" where
  "new_dstream na = \<lparr>ds_stream = Some new_cstream, ds_local = [], ds_options = [], ds_saved = [], ds_noAutosave = na,
     ds_saves = 0, ds_events = []\<rparr>"

definition ds_emit :: "'t ds_event \<Rightarrow> ('h, 't) dstream \<Rightarrow> ('h, 't) dstream" where
  "ds_emit e d = d\<lparr>ds_events := ds_events d @ [e]\<rparr>"

definition ds_isClosed :: "('h, 't) dstream \<Rightarrow> bool" where
  "ds_isClosed d \<longleftrightarrow> ds_stream d = None"

definition ds_isStable :: "('h, 't) dstream \<Rightarrow> bool" where
  "ds_isStable d \<longleftrightarrow> ds_saved d = [] \<and> ds_local d = []"

definition ds_close :: "('h, 't) dstream \<Rightarrow> ('h, 't) dstream" where
  "ds_close d = (if ds_isClosed d then d else (ds_emit Ds_closed (d\<lparr>ds_stream := None\<rparr>))\<lparr>ds_local := []\<rparr>)"

section \<open>Changes of the stream\<close>

fun ds_handleChange :: "('h, 't) change_event \<Rightarrow> ('h, 't) dstream \<Rightarrow> ('h, 't) dstream" where
  "ds_handleChange (Change_set m r k prev i) d =
     (let d1 = d\<lparr>ds_saved := obj_del (seq r) (ds_saved d)\<rparr>;
          d2 = (case i of
             None \<Rightarrow> d1
           | Some i' \<Rightarrow> if i' = '''' then d1 else d1\<lparr>ds_local := obj_del i' (ds_local d1)\<rparr>);
          d3 = ds_emit (Ds_change m (seq r)) d2 in
      if ds_isStable d3 then ds_emit Ds_stable d3 else d3)"
| "ds_handleChange (Change_delete q k prev) d = d\<lparr>ds_saved := obj_del q (ds_saved d)\<rparr>"

section \<open>Reading\<close>

text \<open>A message of the stream is undefined after garbage collection. The index in \<open>saved\<close> is the one in the code.\<close>

definition ds_getAll :: "('h, 't) dstream \<Rightarrow> dkv_error + 't option list" where
  "ds_getAll d =
     (case ds_stream d of
        None \<Rightarrow> Inl Closed
      | Some st \<Rightarrow> Inr (messages st @ map Some (js_values (ds_saved d)) @ map (Some \<circ> snd) (ds_local d)))"

definition ds_get :: "nat \<Rightarrow> ('h, 't) dstream \<Rightarrow> dkv_error + 't option" where
  "ds_get n d =
     (case ds_stream d of
        None \<Rightarrow> Inl Closed
      | Some st \<Rightarrow>
          (let k = length (messages st); v = length (js_keys (ds_saved d)) in
           Inr (if n < k then messages st ! n
                else if n < v + k then obj_get (ds_saved d) (n - k)
                else if n - k - v < length (ds_local d) then Some (snd (ds_local d ! (n - k - v)))
                else None)))"

text \<open>On a closed stream these throw a type error.\<close>

definition ds_seq :: "nat \<Rightarrow> ('h, 't) dstream \<Rightarrow> nat option option" where
  "ds_seq n d = map_option (\<lambda>st.
       (let k = length (raw st); v = js_keys (ds_saved d) in
        if n < k then Some (seq (raw st ! n)) else if n < length v + k then Some (v ! (n - k)) else None)) (ds_stream d)"

definition ds_seqs :: "('h, 't) dstream \<Rightarrow> nat list option" where
  "ds_seqs d = map_option (\<lambda>st. map seq (raw st) @ js_keys (ds_saved d)) (ds_stream d)"

definition ds_length :: "('h, 't) dstream \<Rightarrow> nat option" where
  "ds_length d = map_option (\<lambda>st. length (messages st) + length (js_keys (ds_saved d)) + length (ds_local d)) (ds_stream d)"

definition ds_time :: "nat \<Rightarrow> ('h, 't) dstream \<Rightarrow> dkv_error + rat option" where
  "ds_time n d = (case ds_stream d of None \<Rightarrow> Inl Closed | Some st \<Rightarrow> Inr (message_time n st))"

definition ds_times :: "('h, 't) dstream \<Rightarrow> dkv_error + rat option list" where
  "ds_times d = (case ds_stream d of None \<Rightarrow> Inl Closed | Some st \<Rightarrow> Inr (message_times st))"

definition ds_headers :: "nat \<Rightarrow> ('h, 't) dstream \<Rightarrow> dkv_error + 'h option" where
  "ds_headers n d = (case ds_stream d of None \<Rightarrow> Inl Closed | Some st \<Rightarrow> Inr (message_headers n st))"

definition ds_hasUnsavedChanges :: "('h, 't) dstream \<Rightarrow> bool" where
  "ds_hasUnsavedChanges d \<longleftrightarrow> \<not> ds_isClosed d \<and> length (keys (ds_local d)) > 0"

definition ds_unsavedChanges :: "('h, 't) dstream \<Rightarrow> 't list" where
  "ds_unsavedChanges d = map snd (ds_local d)"

section \<open>Publishing\<close>

text \<open>\<open>mid\<close> is the random id.\<close>

definition ds_publish :: "string \<Rightarrow> 't \<Rightarrow> 'h publish_opts option \<Rightarrow> ('h, 't) dstream \<Rightarrow> ('h, 't) dstream" where
  "ds_publish mid mesg opts d =
     (let d1 = d\<lparr>ds_local := obj_set mid mesg (ds_local d)\<rparr>;
          d2 = (case opts of None \<Rightarrow> d1 | Some x \<Rightarrow> d1\<lparr>ds_options := obj_set mid x (ds_options d1)\<rparr>) in
      if ds_noAutosave d2 then d2 else d2\<lparr>ds_saves := ds_saves d2 + 1\<rparr>)"

fun ds_push :: "(string \<times> 't) list \<Rightarrow> ('h, 't) dstream \<Rightarrow> dkv_error + ('h, 't) dstream" where
  "ds_push args d = (if ds_isClosed d then Inl Closed else Inr (fold (\<lambda>(mid, mesg). ds_publish mid mesg None) args d))"

section \<open>Saving\<close>

definition ds_request :: "('h, 't) wire \<Rightarrow> ('h, 't) dstream \<Rightarrow> string \<Rightarrow> 't \<Rightarrow> 'h set_args" where
  "ds_request w d mid mesg = set_request (w_encode w) mesg
     \<lparr>o_headers = Option.bind (obj_get (ds_options d) mid) dp_headers, o_msgID = Some mid, o_key = None, o_previousSeq = None,
       o_ttl = Option.bind (obj_get (ds_options d) mid) dp_ttl\<rparr>"

text \<open>What an attempt to save sends: the ids with the messages, and the requests.\<close>

definition ds_save_start :: "('h, 't) wire \<Rightarrow> ('h, 't) dstream \<Rightarrow> dkv_error + (string \<times> 't) list \<times> 'h set_args list" where
  "ds_save_start w d =
     (if ds_isClosed d then Inl Closed else Inr (ds_local d, map (\<lambda>(mid, mesg). ds_request w d mid mesg) (ds_local d)))"

text \<open>\<open>(this.raw[this.raw.length - 1]?.seq ?? -1) < seq\<close>.\<close>

definition not_in_raw :: "nat \<Rightarrow> ('h, 't) dstream \<Rightarrow> bool" where
  "not_in_raw q d = (case ds_stream d of None \<Rightarrow> True | Some st \<Rightarrow> raw st = [] \<or> seq (last (raw st)) < q)"

definition ds_accepted :: "string \<Rightarrow> 't \<Rightarrow> nat \<Rightarrow> ('h, 't) dstream \<Rightarrow> ('h, 't) dstream" where
  "ds_accepted mid mesg q d =
     (let d1 = (if not_in_raw q d then d\<lparr>ds_saved := obj_set q mesg (ds_saved d)\<rparr> else d) in
      d1\<lparr>ds_local := obj_del mid (ds_local d1), ds_options := obj_del mid (ds_options d1)\<rparr>)"

definition ds_refused :: "string \<Rightarrow> 't \<Rightarrow> save_code \<Rightarrow> ('h, 't) dstream \<Rightarrow> ('h, 't) dstream" where
  "ds_refused mid mesg code d =
     (if code = Code_reject then ds_emit (Ds_reject mesg) (d\<lparr>ds_local := obj_del mid (ds_local d)\<rparr>) else d)"

text \<open>The loop over the responses; \<open>True\<close> when there were errors, so that the attempt throws.\<close>

fun ds_results :: "(string \<times> 't) list \<Rightarrow> (save_code + nat) list \<Rightarrow> bool \<Rightarrow> ('h, 't) dstream \<Rightarrow> bool \<times> ('h, 't) dstream" where
  "ds_results ((mid, mesg) # x) (Inl code # rs) failed d = ds_results x rs True (ds_refused mid mesg code d)"
| "ds_results ((mid, mesg) # x) (Inr q # rs) failed d = ds_results x rs failed (ds_accepted mid mesg q d)"
| "ds_results x rs failed d = (failed, d)"

definition ds_save_done :: "(string \<times> 't) list \<Rightarrow> (save_code + nat) list \<Rightarrow> ('h, 't) dstream \<Rightarrow> bool \<times> ('h, 't) dstream" where
  "ds_save_done x rs d = (if ds_isClosed d then (False, d) else ds_results x rs False d)"

text \<open>\<open>save\<close> stops when nothing is left.\<close>

definition ds_save_finished :: "('h, 't) dstream \<Rightarrow> bool" where
  "ds_save_finished d \<longleftrightarrow> ds_isClosed d \<or> \<not> ds_hasUnsavedChanges d"

text \<open>The server side, with the sequence numbers in the response.\<close>

fun server_publishMany :: "'h codec \<Rightarrow> (rat \<times> 'h set_args) list \<Rightarrow> 'h storage \<Rightarrow> (save_code + nat) list \<times> 'h storage" where
  "server_publishMany c [] s = ([], s)"
| "server_publishMany c ((now, a) # ops) s =
     (let (r, s1) = storage_set c now a s;
          (rs, s2) = server_publishMany c ops s1 in
      (map_sum error_code fst r # rs, s2))"

section \<open>Receiving\<close>

definition ds_receive :: "('h, 't) wire \<Rightarrow> 'h change \<Rightarrow> ('h, 't) dstream \<Rightarrow> stream_error option \<times> ('h, 't) dstream" where
  "ds_receive w e d =
     (case ds_stream d of
        None \<Rightarrow> (None, d)
      | Some st \<Rightarrow>
          (let (err, st') = processPersistentMessage (w_thresh w) (w_decode w) (w_is_tombstone w) False False e st in
           (err, fold ds_handleChange (drop (length (changes st)) (changes st')) (d\<lparr>ds_stream := Some st'\<rparr>))))"

section \<open>A stream as a state machine\<close>

datatype ('h, 't) ds_phase = Ds_idle | Ds_saving "(string \<times> 't) list" "'h set_args list" "(save_code + nat) list"

text \<open>
  \<open>dn_mine\<close> is no part of the program: the messages published here, without those that were reported as
  rejected.
\<close>

record ('h, 't) ds_node =
  dn_doc :: "('h, 't) dstream"
  dn_read :: nat
  dn_phase :: "('h, 't) ds_phase"
  dn_mine :: "(string, 't) obj"

definition rejected_ids :: "(string \<times> 't) list \<Rightarrow> (save_code + nat) list \<Rightarrow> string list" where
  "rejected_ids x rs = map (fst \<circ> fst) (filter (\<lambda>(_, r). r = Inl Code_reject) (zip x rs))"

datatype ('h, 't) ds_op =
    Ds_do_publish string 't "'h publish_opts option"
  | Ds_do_receive "'h change"
  | Ds_do_save
  | Ds_do_batch "(save_code + nat) list"
  | Ds_do_results
  | Ds_do_fail

fun ds_exec :: "('h, 't) wire \<Rightarrow> ('h, 't) ds_op \<Rightarrow> ('h, 't) ds_node \<Rightarrow> ('h, 't) ds_node" where
  "ds_exec w (Ds_do_publish mid mesg opts) n =
     n\<lparr>dn_doc := ds_publish mid mesg opts (dn_doc n), dn_mine := dn_mine n @ [(mid, mesg)]\<rparr>"
| "ds_exec w (Ds_do_receive e) n = n\<lparr>dn_doc := snd (ds_receive w e (dn_doc n)), dn_read := dn_read n + 1\<rparr>"
| "ds_exec w Ds_do_save n =
     (case (dn_phase n, ds_save_start w (dn_doc n)) of
        (Ds_idle, Inr (x, reqs)) \<Rightarrow> n\<lparr>dn_phase := Ds_saving x reqs []\<rparr>
      | _ \<Rightarrow> n)"
| "ds_exec w (Ds_do_batch rs) n =
     (case dn_phase n of Ds_saving x reqs rs0 \<Rightarrow> n\<lparr>dn_phase := Ds_saving x reqs (rs0 @ rs)\<rparr> | _ \<Rightarrow> n)"
| "ds_exec w Ds_do_results n =
     (case dn_phase n of
        Ds_saving x reqs rs \<Rightarrow>
          if length rs = length x
          then n\<lparr>dn_doc := snd (ds_save_done x rs (dn_doc n)), dn_phase := Ds_idle,
                 dn_mine := filter (\<lambda>(mid, _). mid \<notin> set (rejected_ids x rs)) (dn_mine n)\<rparr>
          else n
      | _ \<Rightarrow> n)"
| "ds_exec w Ds_do_fail n = n\<lparr>dn_phase := Ds_idle\<rparr>"

end
