(* ===== verification/DStreamNet.thy ===== *)
theory DStreamNet
  imports DStream "HOL-Library.Multiset"
begin

text \<open>
  Several eventually consistent streams (DStream) on one persistent stream. A client reads the log of
  the server from its position \<open>dn_read\<close> on. Publishing, attempts to save, lost responses, deliveries and
  the requests of other clients are interleaved in every order. All clients start with the empty stream, and an event whose
  processing throws is not received.
\<close>

section \<open>The network\<close>

record ('h, 't) ds_net =
  dsrv :: "'h storage"
  dnodes :: "('h, 't) ds_node list"
  dused :: "string list"

definition with_dnode :: "nat \<Rightarrow> ('h, 't) ds_node \<Rightarrow> ('h, 't) ds_net \<Rightarrow> ('h, 't) ds_net" where
  "with_dnode i n s = s\<lparr>dnodes := (dnodes s)[i := n]\<rparr>"

fun set_ids :: "'h change list \<Rightarrow> string list" where
  "set_ids [] = []"
| "set_ids (SetOperation m i # es) = (case i of None \<Rightarrow> set_ids es | Some j \<Rightarrow> j # set_ids es)"
| "set_ids (DeleteOperation qs # es) = set_ids es"

fun set_msgs :: "'h change list \<Rightarrow> 'h stored_message list" where
  "set_msgs [] = []"
| "set_msgs (SetOperation m i # es) = m # set_msgs es"
| "set_msgs (DeleteOperation qs # es) = set_msgs es"

text \<open>Ids are random: a new one was never used. Other clients of the server have their own ids.\<close>

inductive ds_step :: "('h, 't) wire \<Rightarrow> ('h, 't) ds_net \<Rightarrow> ('h, 't) ds_net \<Rightarrow> bool" for w where
  ds_step_publish: "i < length (dnodes s) \<Longrightarrow> mid \<noteq> '''' \<Longrightarrow> mid \<notin> set (set_ids (emitted (dsrv s))) \<Longrightarrow> mid \<notin> set (dused s) \<Longrightarrow>
    ds_step w s (with_dnode i (ds_exec w (Ds_do_publish mid mesg opts) (dnodes s ! i)) (s\<lparr>dused := mid # dused s\<rparr>))"
| ds_step_receive: "i < length (dnodes s) \<Longrightarrow> n = dnodes s ! i \<Longrightarrow> dn_read n < length (emitted (dsrv s)) \<Longrightarrow>
    e = emitted (dsrv s) ! dn_read n \<Longrightarrow> fst (ds_receive w e (dn_doc n)) = None \<Longrightarrow>
    ds_step w s (with_dnode i (ds_exec w (Ds_do_receive e) n) s)"
| ds_step_own: "i < length (dnodes s) \<Longrightarrow> op = Ds_do_save \<or> op = Ds_do_results \<or> op = Ds_do_fail \<Longrightarrow>
    ds_step w s (with_dnode i (ds_exec w op (dnodes s ! i)) s)"
| ds_step_batch: "i < length (dnodes s) \<Longrightarrow> n = dnodes s ! i \<Longrightarrow> dn_phase n = Ds_saving x reqs rs \<Longrightarrow>
    batch = take 500 (drop (length rs) reqs) \<Longrightarrow> length nows = length batch \<Longrightarrow>
    server_publishMany (w_codec w) (zip nows batch) (dsrv s) = (res, srv') \<Longrightarrow> op = Ds_do_batch res \<or> op = Ds_do_fail \<Longrightarrow>
    ds_step w s (with_dnode i (ds_exec w op n) (s\<lparr>dsrv := srv'\<rparr>))"
| ds_step_other: "\<forall>now a i. x = Cmd_set now a \<longrightarrow> a_msgID a = Some i \<longrightarrow> i \<notin> set (dused s) \<Longrightarrow>
    ds_step w s (s\<lparr>dsrv := exec_cmd (w_codec w) (dsrv s) x\<rparr>)"

inductive_cases ds_stepE: "ds_step w s s'"

definition ds_start :: "('h, 't) ds_net \<Rightarrow> bool" where
  "ds_start s \<longleftrightarrow> emitted (dsrv s) = [] \<and> msgIDs (dsrv s) = [] \<and>
     (\<forall>n \<in> set (dnodes s). dn_read n = 0 \<and> dn_phase n = Ds_idle \<and> dn_mine n = [] \<and> (\<exists>na. dn_doc n = new_dstream na))"

text \<open>Up to now the stream was only appended to, and the server did not take a message twice.\<close>

fun appends :: "'h change \<Rightarrow> bool" where
  "appends (SetOperation m i) \<longleftrightarrow> m_key m = None"
| "appends (DeleteOperation qs) \<longleftrightarrow> False"

definition plain_log :: "'h change list \<Rightarrow> bool" where
  "plain_log es \<longleftrightarrow> list_all appends es \<and> distinct (set_ids es)"

section \<open>The log\<close>

lemma set_ids_append [simp]: "set_ids (es @ es') = set_ids es @ set_ids es'"
  by (induction es rule: set_ids.induct) (auto split: option.split)

lemma set_msgs_append [simp]: "set_msgs (es @ es') = set_msgs es @ set_msgs es'"
  by (induction es rule: set_msgs.induct) auto

lemma in_set_ids: "i \<in> set (set_ids es) \<longleftrightarrow> (\<exists>m. SetOperation m (Some i) \<in> set es)"
  by (induction es rule: set_ids.induct) (auto split: option.splits)

lemma set_seqs_msgs: "set_seqs es = map m_seq (set_msgs es)"
  by (induction es rule: set_msgs.induct) (auto simp: set_seqs_def)

lemma plain_append: "plain_log (es @ es') \<Longrightarrow> plain_log es"
  by (simp add: plain_log_def)

lemma same_event:
  assumes "fresh_events q es" "SetOperation m i \<in> set es" "SetOperation m' i' \<in> set es" "m_seq m = m_seq m'"
  shows "m' = m \<and> i' = i"
  using assms
proof (induction es arbitrary: q)
  case (Cons e es)
  show ?case
  proof (cases e)
    case (SetOperation x y)
    then have f: "fresh_events (m_seq x) es" using Cons.prems(1) by (simp add: fresh_Cons)
    have "m_seq x < m_seq z" if "SetOperation z j \<in> set es" for z j
      using f seq_in_set_seqs[OF that] by (auto simp: fresh_events_def)
    with Cons.prems(2-4) Cons.IH[OF f] SetOperation show ?thesis by fastforce
  next
    case (DeleteOperation qs)
    then show ?thesis using Cons by (auto simp: fresh_Cons)
  qed
qed simp

lemma same_id:
  assumes "distinct (set_ids es)" "SetOperation m (Some i) \<in> set es" "SetOperation m' (Some i) \<in> set es"
  shows "m' = m"
  using assms
proof (induction es)
  case (Cons e es)
  then show ?case by (cases e) (auto simp: in_set_ids split: option.splits)
qed simp

section \<open>The stream of a client\<close>

definition delivered :: "('h, 't) wire \<Rightarrow> 'h change list \<Rightarrow> ('h, 't) cstream \<Rightarrow> bool" where
  "delivered w es st \<longleftrightarrow> \<not> is_closed st \<and> map seq (raw st) = map m_seq (set_msgs es) \<and>
     messages st = map (\<lambda>m. w_decode w (m_encoding m) (m_raw m)) (set_msgs es)"

lemma last_seq_less:
  assumes "delivered w L st" "fresh_events 0 (L @ SetOperation m i # R)"
  shows "(if raw st = [] then 0 else seq (last (raw st))) < m_seq m"
proof -
  have s: "sorted_wrt (<) (0 # map seq (raw st) @ m_seq m # set_seqs R)"
    using assms by (simp add: fresh_events_def delivered_def set_seqs_msgs)
  show ?thesis
  proof (cases "raw st = []")
    case False
    then have "seq (last (raw st)) \<in> set (map seq (raw st))" by simp
    then show ?thesis using s False by (auto simp: sorted_wrt_append)
  qed (use s in simp)
qed

lemma receive_plain:
  assumes st: "ds_stream d = Some st" "delivered w L st" and f: "fresh_events 0 (L @ SetOperation m i # R)"
    and k: "m_key m = None" and r: "fst (ds_receive w (SetOperation m i) d) = None"
  obtains st' r mesg where "snd (ds_receive w (SetOperation m i) d) = ds_handleChange (Change_set mesg r None None i) (d\<lparr>ds_stream := Some st'\<rparr>)"
    "seq r = m_seq m" "delivered w (L @ [SetOperation m i]) st'" "w_decode w (m_encoding m) (m_raw m) = Some mesg"
proof -
  note lt = last_seq_less[OF st(2) f]
  let ?s2 = "note_seq False (m_seq m) st"
  have s2: "raw ?s2 = raw st" "messages ?s2 = messages st" "is_closed ?s2 = is_closed st" "changes ?s2 = changes st"
    by (simp_all add: note_seq_def note_missing_def Let_def)
  obtain mesg where d: "w_decode w (m_encoding m) (m_raw m) = Some mesg"
    using r st by (cases "w_decode w (m_encoding m) (m_raw m)")
      (auto simp: ds_receive_def processPersistentSet_def Let_def delivered_def split: prod.splits)
  let ?r = "the_raw (next_oid ?s2) m"
  have ins: "insert_raw r' mesg s' = s'\<lparr>messages := messages s' @ [Some mesg], raw := raw s' @ [r']\<rparr>"
    if "seq r' = m_seq m" "raw s' = raw st" for r' and s' :: "('a, 'b) cstream"
    unfolding insert_raw_def that by (rule if_P[OF lt])
  define st' where "st' = snd (processPersistentMessage (w_thresh w) (w_decode w) (w_is_tombstone w) False False (SetOperation m i) st)"
  have p: "processPersistentMessage (w_thresh w) (w_decode w) (w_is_tombstone w) False False (SetOperation m i) st = (None, st') \<and>
      raw st' = raw st @ [?r] \<and> messages st' = messages st @ [Some mesg] \<and> is_closed st' = is_closed st \<and>
      changes st' = changes st @ [Change_set mesg ?r None None i]"
    using st d k lt s2 unfolding st'_def
    by (simp add: processPersistentSet_def Let_def finish_set_def ins the_raw_def delivered_def emitChange_def)
  have a: "snd (ds_receive w (SetOperation m i) d) = ds_handleChange (Change_set mesg ?r None None i) (d\<lparr>ds_stream := Some st'\<rparr>)"
    using p st(1) by (simp add: ds_receive_def Let_def)
  have b: "delivered w (L @ [SetOperation m i]) st'" using p st(2) d by (simp add: delivered_def the_raw_def)
  show ?thesis by (rule that[OF a _ b d]) (simp add: the_raw_def)
qed

lemma ds_handle_fields [simp]:
  "ds_stream (ds_handleChange e d) = ds_stream d"
  "ds_saved (ds_handleChange (Change_set v r k p i) d) = obj_del (seq r) (ds_saved d)"
  "ds_local (ds_handleChange (Change_set v r k p i) d) =
     (case i of None \<Rightarrow> ds_local d | Some j \<Rightarrow> if j = '''' then ds_local d else obj_del j (ds_local d))"
  by (cases e; auto simp: Let_def ds_emit_def split: option.split)
    (simp_all add: Let_def ds_emit_def split: option.split)

declare ds_handleChange.simps [simp del]

section \<open>Where the messages of a client are\<close>

text \<open>
  The log is what the client has received, \<open>L\<close>, and the rest, \<open>R\<close>. Each message that was published here is in
  exactly one of \<open>L\<close>, \<open>ds_local\<close> and \<open>ds_saved\<close>.
\<close>

definition where_ok :: "string set \<Rightarrow> 'h change list \<Rightarrow> (string \<rightharpoonup> 't) \<Rightarrow> (string \<rightharpoonup> 't) \<Rightarrow> (nat \<rightharpoonup> 't) \<Rightarrow> bool" where
  "where_ok I R M A S \<longleftrightarrow> M '''' = None \<and>
     (\<forall>i v. A i = Some v \<longrightarrow> M i = Some v \<and> i \<notin> I) \<and>
     (\<forall>q v. S q = Some v \<longrightarrow> (\<exists>m i. SetOperation m (Some i) \<in> set R \<and> m_seq m = q \<and> M i = Some v \<and> A i = None)) \<and>
     (\<forall>i v. M i = Some v \<longrightarrow> i \<in> I \<or> A i = Some v \<or> (\<exists>m. SetOperation m (Some i) \<in> set R \<and> S (m_seq m) = Some v))"

lemma where_more: "where_ok I R M A S \<Longrightarrow> set R \<subseteq> set R' \<Longrightarrow> where_ok I R' M A S"
  unfolding where_ok_def by (meson subsetD)

lemma where_publish:
  assumes "where_ok I R M A S" "M i = None" "i \<notin> I" "i \<noteq> ''''"
  shows "where_ok I R (M(i \<mapsto> v)) (A(i \<mapsto> v)) S"
proof -
  have "A i = None" using assms(1,2) unfolding where_ok_def by (metis not_None_eq)
  then show ?thesis using assms unfolding where_ok_def by (auto; metis option.distinct(1))
qed

lemma where_receive:
  assumes "where_ok I (SetOperation m i # R) M A S" "\<And>m' j. SetOperation m' j \<in> set R \<Longrightarrow> m_seq m' \<noteq> m_seq m"
  shows "where_ok (I \<union> set_option i) R M (\<lambda>j. if i = Some j then None else A j) (S(m_seq m := None))"
  unfolding where_ok_def
proof (intro conjI allI impI)
  show "M '''' = None" using assms(1) by (simp add: where_ok_def)
  show "M j = Some v" "j \<notin> I \<union> set_option i" if "(if i = Some j then None else A j) = Some v" for j v
    using that assms(1) by (auto simp: where_ok_def split: if_splits)
  show "\<exists>m' j. SetOperation m' (Some j) \<in> set R \<and> m_seq m' = q \<and> M j = Some v \<and> (if i = Some j then None else A j) = None"
    if q: "(S(m_seq m := None)) q = Some v" for q v
  proof -
    have "S q = Some v" "q \<noteq> m_seq m" using q by (auto split: if_splits)
    then obtain m' j where "SetOperation m' (Some j) \<in> set (SetOperation m i # R)" "m_seq m' = q" "M j = Some v" "A j = None"
      using assms(1) unfolding where_ok_def by blast
    then show ?thesis using \<open>q \<noteq> m_seq m\<close> by auto
  qed
  show "j \<in> I \<union> set_option i \<or> (if i = Some j then None else A j) = Some v \<or>
      (\<exists>m'. SetOperation m' (Some j) \<in> set R \<and> (S(m_seq m := None)) (m_seq m') = Some v)" if j: "M j = Some v" for j v
  proof -
    have "j \<in> I \<or> A j = Some v \<or> (\<exists>m'. SetOperation m' (Some j) \<in> set (SetOperation m i # R) \<and> S (m_seq m') = Some v)"
      using j assms(1) by (simp add: where_ok_def)
    then show ?thesis using assms(2) by (cases "i = Some j") auto
  qed
qed

text \<open>The response to an accepted message that has not yet arrived, and the one to a rejected message.\<close>

lemma where_accept:
  assumes "where_ok I R M A S" "SetOperation m (Some i) \<in> set R" "A i = Some v"
    and "\<And>m' j. SetOperation m' (Some j) \<in> set R \<Longrightarrow> m_seq m' = m_seq m \<Longrightarrow> j = i"
  shows "where_ok I R M (A(i := None)) (S(m_seq m \<mapsto> v))"
  unfolding where_ok_def
proof (intro conjI allI impI)
  show "M '''' = None" using assms(1) by (simp add: where_ok_def)
  show "M j = Some x" "j \<notin> I" if "(A(i := None)) j = Some x" for j x
    using that assms(1) by (auto simp: where_ok_def split: if_splits)
  show "\<exists>m' j. SetOperation m' (Some j) \<in> set R \<and> m_seq m' = q \<and> M j = Some x \<and> (A(i := None)) j = None"
    if q: "(S(m_seq m \<mapsto> v)) q = Some x" for q x
  proof (cases "q = m_seq m")
    case True
    then have "x = v" "M i = Some v" using q assms(1,3) by (auto simp: where_ok_def)
    then show ?thesis using True assms(2) by auto
  next
    case False
    then obtain m' j where "SetOperation m' (Some j) \<in> set R" "m_seq m' = q" "M j = Some x" "A j = None"
      using q assms(1) unfolding where_ok_def by (metis fun_upd_apply)
    then show ?thesis by (intro exI[of _ m'] exI[of _ j]) simp
  qed
  show "j \<in> I \<or> (A(i := None)) j = Some x \<or> (\<exists>m'. SetOperation m' (Some j) \<in> set R \<and> (S(m_seq m \<mapsto> v)) (m_seq m') = Some x)"
    if j: "M j = Some x" for j x
  proof (cases "j = i")
    case True
    then have "x = v" using j assms(1,3) by (auto simp: where_ok_def)
    then show ?thesis using True assms(2) by auto
  next
    case False
    then have "j \<in> I \<or> A j = Some x \<or> (\<exists>m'. SetOperation m' (Some j) \<in> set R \<and> S (m_seq m') = Some x)"
      using j assms(1) by (simp add: where_ok_def)
    then show ?thesis using False assms(4) by auto
  qed
qed

lemma where_reject:
  assumes "where_ok I R M A S" "\<And>q v m. S q = Some v \<Longrightarrow> SetOperation m (Some i) \<in> set R \<Longrightarrow> m_seq m \<noteq> q"
  shows "where_ok I R (M(i := None)) (A(i := None)) S"
  unfolding where_ok_def
proof (intro conjI allI impI)
  show "(M(i := None)) '''' = None" using assms(1) by (simp add: where_ok_def)
  show "(M(i := None)) j = Some x" "j \<notin> I" if "(A(i := None)) j = Some x" for j x
    using that assms(1) by (auto simp: where_ok_def split: if_splits)
  show "\<exists>m' j. SetOperation m' (Some j) \<in> set R \<and> m_seq m' = q \<and> (M(i := None)) j = Some x \<and> (A(i := None)) j = None"
    if q: "S q = Some x" for q x
  proof -
    obtain m' j where j: "SetOperation m' (Some j) \<in> set R" "m_seq m' = q" "M j = Some x" "A j = None"
      using q assms(1) unfolding where_ok_def by blast
    then have "j \<noteq> i" using assms(2)[OF q] by auto
    then show ?thesis using j by auto
  qed
  show "j \<in> I \<or> (A(i := None)) j = Some x \<or> (\<exists>m'. SetOperation m' (Some j) \<in> set R \<and> S (m_seq m') = Some x)"
    if j: "(M(i := None)) j = Some x" for j x
    using j assms(1) by (simp add: where_ok_def split: if_splits)
qed

definition placed :: "'h change list \<Rightarrow> 'h change list \<Rightarrow> (string, 't) obj \<Rightarrow> ('h, 't) dstream \<Rightarrow> bool" where
  "placed L R mine d \<longleftrightarrow> distinct (keys (ds_local d)) \<and> distinct (keys (ds_saved d)) \<and> distinct (keys mine) \<and>
     where_ok (set (set_ids L)) R (obj_get mine) (obj_get (ds_local d)) (obj_get (ds_saved d))"

lemma publish_fields [simp]:
  "ds_local (ds_publish i v o' d) = obj_set i v (ds_local d)" "ds_saved (ds_publish i v o' d) = ds_saved d"
  "ds_stream (ds_publish i v o' d) = ds_stream d"
  by (simp_all add: ds_publish_def Let_def split: option.split)

lemma placed_publish:
  assumes "placed L R mine d" "i \<notin> set (keys mine)" "i \<notin> set (set_ids L)" "i \<noteq> ''''"
  shows "placed L R (mine @ [(i, v)]) (ds_publish i v o' d)"
proof -
  have new: "obj_get mine i = None" using assms(2) by (simp add: map_of_eq_None_iff)
  then have "obj_get (mine @ [(i, v)]) = (obj_get mine)(i \<mapsto> v)" by (auto simp: fun_eq_iff map_add_def split: option.split)
  moreover have "distinct (keys (mine @ [(i, v)]))" using assms(1,2) by (simp add: placed_def)
  moreover have W: "where_ok (set (set_ids L)) R (obj_get mine) (obj_get (ds_local d)) (obj_get (ds_saved d))"
    using assms(1) by (simp add: placed_def)
  note where_publish[where v = v, OF W new assms(3,4)]
  ultimately show ?thesis using assms(1) unfolding placed_def publish_fields update_conv' by (simp add: distinct_update)
qed

lemma placed_receive:
  assumes p: "placed L (SetOperation m i # R) mine d" and f: "fresh_events 0 (L @ SetOperation m i # R)" and r: "seq r = m_seq m"
  shows "placed (L @ [SetOperation m i]) R mine (ds_handleChange (Change_set v r k pr i) d)"
proof -
  let ?W = "where_ok (set (set_ids L))" and ?d = "ds_handleChange (Change_set v r k pr i) d"
  have other: "m_seq m' \<noteq> m_seq m" if "SetOperation m' j \<in> set R" for m' j
  proof -
    have "m_seq m < m_seq m'" using f seq_in_set_seqs[OF that] by (auto simp: fresh_events_def sorted_wrt_append)
    then show ?thesis by simp
  qed
  have W: "?W (SetOperation m i # R) (obj_get mine) (obj_get (ds_local d)) (obj_get (ds_saved d))" using p by (simp add: placed_def)
  then have "obj_get (ds_local d) '''' = None" unfolding where_ok_def by (metis not_None_eq)
  then have loc: "obj_get (ds_local ?d) = (\<lambda>j. if i = Some j then None else obj_get (ds_local d) j)"
    by (cases "i = Some ''''") (auto simp: fun_eq_iff delete_conv' split: option.split)
  have sav: "obj_get (ds_saved ?d) = (obj_get (ds_saved d))(m_seq m := None)" by (simp add: r delete_conv')
  have ids: "set (set_ids (L @ [SetOperation m i])) = set (set_ids L) \<union> set_option i" by (cases i) auto
  have "distinct (keys (ds_local ?d))" "distinct (keys (ds_saved ?d))" "distinct (keys mine)"
    using p by (auto simp: placed_def distinct_delete split: option.split)
  moreover have "where_ok (set (set_ids L) \<union> set_option i) R (obj_get mine) (\<lambda>j. if i = Some j then None else obj_get (ds_local d) j)
      ((obj_get (ds_saved d))(m_seq m := None))" by (rule where_receive[OF W other])
  ultimately show ?thesis unfolding placed_def loc sav ids by blast
qed

section \<open>The responses\<close>

lemma not_in_raw_iff:
  assumes "ds_stream d = Some st" "delivered w L st" "fresh_events 0 (L @ R)"
  shows "SetOperation m i \<in> set R \<Longrightarrow> not_in_raw (m_seq m) d" "SetOperation m i \<in> set L \<Longrightarrow> \<not> not_in_raw (m_seq m) d"
proof -
  have s: "sorted_wrt (<) (map seq (raw st) @ set_seqs R)" and raw: "map seq (raw st) = set_seqs L"
    using assms by (simp_all add: fresh_events_def delivered_def set_seqs_msgs)
  show "not_in_raw (m_seq m) d" if "SetOperation m i \<in> set R"
  proof (cases "raw st = []")
    case False
    then have "last (raw st) \<in> set (raw st)" by simp
    then show ?thesis using s seq_in_set_seqs[OF that] assms(1) unfolding sorted_wrt_append not_in_raw_def by simp
  qed (use assms(1) in \<open>simp add: not_in_raw_def\<close>)
  show "\<not> not_in_raw (m_seq m) d" if "SetOperation m i \<in> set L"
  proof -
    have "m_seq m \<in> seq ` set (raw st)" using seq_in_set_seqs[OF that] raw by (metis list.set_map)
    then obtain r where r: "r \<in> set (raw st)" "seq r = m_seq m" by auto
    then have ne: "raw st \<noteq> []" by auto
    then have split: "raw st = butlast (raw st) @ [last (raw st)]" by simp
    have "sorted_wrt (<) (map seq (butlast (raw st) @ [last (raw st)]))" using s split by (simp add: sorted_wrt_append)
    moreover have "r \<in> set (butlast (raw st)) \<or> r = last (raw st)" using r(1) split by (metis Un_iff empty_iff list.set(1) set_ConsD set_append)
    ultimately have "m_seq m \<le> seq (last (raw st))" using r(2) by (auto simp: sorted_wrt_append)
    then show ?thesis using assms(1) ne by (simp add: not_in_raw_def)
  qed
qed

text \<open>An attempt is under way for the messages \<open>x\<close>; a response names a message in the log.\<close>

definition pending :: "'h change list \<Rightarrow> (string, 't) obj \<Rightarrow> ('h, 't) dstream \<Rightarrow> (string \<times> 't) list \<Rightarrow> bool" where
  "pending L mine d x \<longleftrightarrow> distinct (map fst x) \<and>
     (\<forall>i v. (i, v) \<in> set x \<longrightarrow> obj_get mine i = Some v \<and> (i \<in> set (set_ids L) \<or> obj_get (ds_local d) i = Some v))"

definition in_log :: "'h change list \<Rightarrow> string \<times> 't \<Rightarrow> save_code + nat \<Rightarrow> bool" where
  "in_log es x r \<longleftrightarrow> (\<forall>q. r = Inr q \<longrightarrow> (\<exists>m. SetOperation m (Some (fst x)) \<in> set es \<and> m_seq m = q))"

lemma accepted_placed:
  assumes f: "fresh_events 0 (L @ R)" "distinct (set_ids (L @ R))" and st: "ds_stream d = Some st" "delivered w L st"
    and p: "placed L R mine d" and x: "pending L mine d ((i, v) # x)" and q: "in_log (L @ R) (i, v) (Inr q)"
  shows "placed L R mine (ds_accepted i v q d)" "pending L mine (ds_accepted i v q d) x"
proof -
  obtain m where m: "SetOperation m (Some i) \<in> set (L @ R)" "m_seq m = q" using q by (auto simp: in_log_def)
  have W: "where_ok (set (set_ids L)) R (obj_get mine) (obj_get (ds_local d)) (obj_get (ds_saved d))" using p by (simp add: placed_def)
  have disj: "i \<in> set (set_ids L) \<Longrightarrow> SetOperation m' (Some i) \<notin> set R" for m'
    using f(2) in_set_ids[of i R] by auto
  show "pending L mine (ds_accepted i v q d) x"
    using x by (auto simp: pending_def ds_accepted_def Let_def delete_conv') (metis fst_conv image_eqI)+
  show "placed L R mine (ds_accepted i v q d)"
  proof (cases "SetOperation m (Some i) \<in> set R")
    case True
    have loc: "obj_get (ds_local d) i = Some v" using x disj True by (auto simp: pending_def)
    have "j = i" if "SetOperation m' (Some j) \<in> set R" "m_seq m' = m_seq m" for m' j
      using same_event[OF f(1), of m' "Some j" m "Some i"] that True by auto
    note A = where_accept[OF W True loc this]
    have "ds_accepted i v q d = d\<lparr>ds_saved := obj_set q v (ds_saved d), ds_local := obj_del i (ds_local d), ds_options := obj_del i (ds_options d)\<rparr>"
      using not_in_raw_iff(1)[OF st f(1) True] m(2) by (simp add: ds_accepted_def Let_def)
    then show ?thesis using p A m(2) by (simp add: placed_def distinct_delete distinct_update delete_conv' update_conv')
  next
    case False
    then have L: "SetOperation m (Some i) \<in> set L" using m(1) by simp
    then have i: "i \<in> set (set_ids L)" by (auto simp: in_set_ids)
    have "obj_get (ds_local d) i = None" using W i unfolding where_ok_def by (metis not_None_eq)
    then have del: "(obj_get (ds_local d))(i := None) = obj_get (ds_local d)" by (simp add: fun_upd_idem)
    have "ds_accepted i v q d = d\<lparr>ds_local := obj_del i (ds_local d), ds_options := obj_del i (ds_options d)\<rparr>"
      using not_in_raw_iff(2)[OF st f(1) L] m(2) by (simp add: ds_accepted_def Let_def)
    then show ?thesis using p by (simp add: placed_def distinct_delete delete_conv' del)
  qed
qed

lemma refused_placed:
  fixes c :: save_code
  assumes f: "fresh_events 0 (L @ R)" "distinct (set_ids (L @ R))" and p: "placed L R mine d" and x: "pending L mine d ((i, v) # x)"
  defines "mine' \<equiv> (if c = Code_reject then filter (\<lambda>(j, _). j \<noteq> i) mine else mine)"
  shows "placed L R mine' (ds_refused i v c d)" "pending L mine' (ds_refused i v c d) x"
proof -
  have W: "where_ok (set (set_ids L)) R (obj_get mine) (obj_get (ds_local d)) (obj_get (ds_saved d))" using p by (simp add: placed_def)
  have get: "obj_get (filter (\<lambda>(j, _). j \<noteq> i) mine) = (obj_get mine)(i := None)" by (auto simp: fun_eq_iff obj_get_filter_keys)
  have ne: "\<forall>(j, u) \<in> set x. j \<noteq> i" using x by (auto simp: pending_def image_iff)
  show "pending L mine' (ds_refused i v c d) x"
    using x ne by (simp add: pending_def ds_refused_def ds_emit_def delete_conv' mine'_def get) blast
  have "m_seq m \<noteq> q" if s: "obj_get (ds_saved d) q = Some u" and m: "SetOperation m (Some i) \<in> set R" for q u m
  proof
    assume eq: "m_seq m = q"
    have "i \<notin> set (set_ids L)" using f(2) m in_set_ids[of i R] by auto
    then have loc: "obj_get (ds_local d) i = Some v" using x by (simp add: pending_def)
    obtain m' j where j: "SetOperation m' (Some j) \<in> set R" "m_seq m' = q" "obj_get (ds_local d) j = None"
      using W s unfolding where_ok_def by blast
    then have "j = i" using same_event[OF f(1), of m' "Some j" m "Some i"] m eq by auto
    then show False using loc j(3) by simp
  qed
  note R = where_reject[OF W this]
  show "placed L R mine' (ds_refused i v c d)"
  proof (cases "c = Code_reject")
    case True
    then show ?thesis using p R
      by (simp add: placed_def ds_refused_def ds_emit_def mine'_def get delete_conv' distinct_delete distinct_map_filter)
  qed (use p in \<open>simp add: ds_refused_def mine'_def\<close>)
qed

lemma results_stream [simp]: "ds_stream (snd (ds_results x rs failed d)) = ds_stream d"
  by (induction x rs failed d rule: ds_results.induct) (simp_all add: ds_accepted_def ds_refused_def ds_emit_def Let_def)

lemma results_placed:
  assumes f: "fresh_events 0 (L @ R)" "distinct (set_ids (L @ R))" and st: "delivered w L st"
    and "ds_stream d = Some st" "placed L R mine d" "pending L mine d x" "list_all2 (in_log (L @ R)) x rs"
  shows "placed L R (filter (\<lambda>(i, _). i \<notin> set (rejected_ids x rs)) mine) (snd (ds_results x rs failed d))"
  using assms(7,4-6)
proof (induction x rs arbitrary: d mine failed rule: list_all2_induct)
  case Nil
  then show ?case by (simp add: rejected_ids_def)
next
  case (Cons iv x r rs)
  obtain i v where iv: "iv = (i, v)" by (cases iv)
  have split: "filter (\<lambda>(j, _). j \<notin> set (rejected_ids (iv # x) (r # rs))) mine =
      filter (\<lambda>(j, _). j \<notin> set (rejected_ids x rs)) (if r = Inl Code_reject then filter (\<lambda>(j, _). j \<noteq> i) mine else mine)"
    by (auto simp: rejected_ids_def iv intro!: filter_cong)
  show ?case
  proof (cases r)
    case (Inl c)
    note p = refused_placed[OF f Cons.prems(2) Cons.prems(3)[unfolded iv], of c]
    have "ds_stream (ds_refused i v c d) = Some st" using Cons.prems(1) by (simp add: ds_refused_def ds_emit_def)
    from Cons.IH[OF this p] show ?thesis unfolding split using Inl iv by simp
  next
    case (Inr q)
    note p = accepted_placed[OF f Cons.prems(1) st Cons.prems(2) Cons.prems(3)[unfolded iv] Cons.hyps(1)[unfolded iv Inr]]
    have "ds_stream (ds_accepted i v q d) = Some st" using Cons.prems(1) by (simp add: ds_accepted_def Let_def)
    from Cons.IH[OF this p] show ?thesis unfolding split using Inr iv by simp
  qed
qed

section \<open>What the client shows\<close>

lemma placed_shown:
  assumes p: "placed L R mine d" and f: "fresh_events 0 (L @ R)" "distinct (set_ids (L @ R))"
  shows "mset (js_values (ds_saved d) @ map snd (ds_local d)) = mset (map snd (filter (\<lambda>(i, _). i \<notin> set (set_ids L)) mine))"
proof -
  have W: "where_ok (set (set_ids L)) R (obj_get mine) (obj_get (ds_local d)) (obj_get (ds_saved d))" using p by (simp add: placed_def)
  have dist: "distinct (keys (ds_local d))" "distinct (keys (ds_saved d))" "distinct (keys mine)" using p by (simp_all add: placed_def)
  define g where "g q = (SOME i. \<exists>m. SetOperation m (Some i) \<in> set R \<and> m_seq m = q \<and> obj_get mine i = obj_get (ds_saved d) q \<and>
    obj_get (ds_local d) i = None)" for q
  have g: "\<exists>m. SetOperation m (Some (g q)) \<in> set R \<and> m_seq m = q \<and> obj_get mine (g q) = obj_get (ds_saved d) q \<and>
      obj_get (ds_local d) (g q) = None" if q: "q \<in> dom (obj_get (ds_saved d))" for q
  proof -
    have "\<exists>i m. SetOperation m (Some i) \<in> set R \<and> m_seq m = q \<and> obj_get mine i = obj_get (ds_saved d) q \<and> obj_get (ds_local d) i = None"
      using q W unfolding where_ok_def by (metis domD)
    from someI_ex[OF this] show ?thesis unfolding g_def .
  qed
  let ?ks = "js_keys (ds_saved d)"
  let ?A = "map (\<lambda>q. (g q, the (obj_get (ds_saved d) q))) ?ks @ ds_local d"
  let ?B = "filter (\<lambda>(i, _). i \<notin> set (set_ids L)) mine"
  have inj: "inj_on g (dom (obj_get (ds_saved d)))"
  proof (rule inj_onI)
    fix q q' assume q: "q \<in> dom (obj_get (ds_saved d))" "q' \<in> dom (obj_get (ds_saved d))" "g q = g q'"
    obtain m m' where "SetOperation m (Some (g q)) \<in> set R" "m_seq m = q" "SetOperation m' (Some (g q')) \<in> set R" "m_seq m' = q'"
      using g[OF q(1)] g[OF q(2)] by blast
    then show "q = q'" using same_id[of R m "g q" m'] f(2) q(3) by auto
  qed
  have keysA: "map fst ?A = map g ?ks @ keys (ds_local d)" by (simp add: comp_def)
  have "distinct (map g ?ks)" using inj distinct_js_keys[OF dist(2)] by (simp add: distinct_map set_js_keys)
  moreover have "g q \<notin> set (keys (ds_local d))" if "q \<in> set ?ks" for q
    using g[of q] that by (auto simp: set_js_keys map_of_eq_None_iff)
  ultimately have dA: "distinct (map fst ?A)" unfolding keysA using dist(1) by auto
  have setA: "(i, v) \<in> set ?A \<longleftrightarrow> (\<exists>q. i = g q \<and> obj_get (ds_saved d) q = Some v) \<or> obj_get (ds_local d) i = Some v" for i v
    using dist(1) by (auto simp: set_js_keys image_iff)
  have setB: "(i, v) \<in> set ?B \<longleftrightarrow> obj_get mine i = Some v \<and> i \<notin> set (set_ids L)" for i v
    using dist(3) by auto
  have same: "(i, v) \<in> set ?A \<longleftrightarrow> (i, v) \<in> set ?B" for i v
  proof
    assume "(i, v) \<in> set ?A"
    then consider q where "i = g q" "obj_get (ds_saved d) q = Some v" | "obj_get (ds_local d) i = Some v" using setA by blast
    then show "(i, v) \<in> set ?B"
    proof cases
      case 1
      then obtain m where "SetOperation m (Some i) \<in> set R" "obj_get mine i = Some v" using g[of q] by auto
      then show ?thesis using f(2) in_set_ids[of i R] unfolding setB by auto
    next
      case 2
      then show ?thesis using W unfolding setB where_ok_def by blast
    qed
  next
    assume B: "(i, v) \<in> set ?B"
    then have "obj_get (ds_local d) i = Some v \<or> (\<exists>m. SetOperation m (Some i) \<in> set R \<and> obj_get (ds_saved d) (m_seq m) = Some v)"
      using W unfolding setB where_ok_def by blast
    then show "(i, v) \<in> set ?A"
    proof
      assume "\<exists>m. SetOperation m (Some i) \<in> set R \<and> obj_get (ds_saved d) (m_seq m) = Some v"
      then obtain m where m: "SetOperation m (Some i) \<in> set R" "obj_get (ds_saved d) (m_seq m) = Some v" by blast
      then obtain m' where m': "SetOperation m' (Some (g (m_seq m))) \<in> set R" "m_seq m' = m_seq m" using g[of "m_seq m"] by blast
      have "SetOperation m (Some i) \<in> set (L @ R)" "SetOperation m' (Some (g (m_seq m))) \<in> set (L @ R)" using m(1) m'(1) by simp_all
      from same_event[OF f(1) this m'(2)[symmetric]] have "g (m_seq m) = i" by simp
      then show ?thesis using m(2) unfolding setA by blast
    qed (use setA in blast)
  qed
  then have "set ?A = set ?B" by auto
  moreover have "distinct ?A" using dA unfolding distinct_map by blast
  moreover have "distinct ?B" using dist(3) by (simp add: distinct_map)
  ultimately have "mset ?A = mset ?B" by (simp only: set_eq_iff_mset_eq_distinct)
  then have m: "mset (map snd ?A) = mset (map snd ?B)" unfolding mset_map by (rule arg_cong)
  have "map snd ?A = js_values (ds_saved d) @ map snd (ds_local d)" by (simp add: js_values_def comp_def)
  then show ?thesis using m by argo
qed

section \<open>The invariant\<close>

definition asks :: "('h, 't) wire \<Rightarrow> string \<times> 't \<Rightarrow> 'h set_args \<Rightarrow> bool" where
  "asks w x a \<longleftrightarrow> a_msgID a = Some (fst x) \<and> a_encoding a = fst (w_encode w (snd x)) \<and> a_raw a = snd (w_encode w (snd x))"

definition phase_ok :: "('h, 't) wire \<Rightarrow> 'h change list \<Rightarrow> 'h change list \<Rightarrow> ('h, 't) ds_node \<Rightarrow> bool" where
  "phase_ok w L es n \<longleftrightarrow>
     (case dn_phase n of
        Ds_idle \<Rightarrow> True
      | Ds_saving x reqs rs \<Rightarrow> pending L (dn_mine n) (dn_doc n) x \<and> list_all2 (asks w) x reqs \<and> length rs \<le> length x \<and>
          list_all2 (in_log es) (take (length rs) x) rs)"

text \<open>What the log has under an id of this client is the message that was published here.\<close>

definition carried :: "('h, 't) wire \<Rightarrow> 'h change list \<Rightarrow> (string, 't) obj \<Rightarrow> bool" where
  "carried w es mine \<longleftrightarrow> (\<forall>i v m. obj_get mine i = Some v \<longrightarrow> SetOperation m (Some i) \<in> set es \<longrightarrow>
     w_decode w (m_encoding m) (m_raw m) = Some v)"

definition dnode_ok :: "('h, 't) wire \<Rightarrow> 'h change list \<Rightarrow> ('h, 't) ds_node \<Rightarrow> bool" where
  "dnode_ok w es n \<longleftrightarrow> (\<exists>L R st. es = L @ R \<and> length L = dn_read n \<and> ds_stream (dn_doc n) = Some st \<and> delivered w L st \<and>
     placed L R (dn_mine n) (dn_doc n) \<and> phase_ok w L es n \<and> carried w es (dn_mine n))"

definition dnet_ok :: "('h, 't) wire \<Rightarrow> ('h, 't) ds_net \<Rightarrow> bool" where
  "dnet_ok w s \<longleftrightarrow> log_ok (dsrv s) \<and>
     (\<forall>k < length (dnodes s). dnode_ok w (emitted (dsrv s)) (dnodes s ! k) \<and> set (keys (dn_mine (dnodes s ! k))) \<subseteq> set (dused s) \<and>
        (\<forall>j < length (dnodes s). j \<noteq> k \<longrightarrow> set (keys (dn_mine (dnodes s ! k))) \<inter> set (keys (dn_mine (dnodes s ! j))) = {}))"

text \<open>One node changes, and the log may grow by messages whose ids are those of this node, or none that is in use.\<close>

lemma placed_more: "placed L R mine d \<Longrightarrow> placed L (R @ F) mine d"
  using where_more[where R = R and R' = "R @ F"] by (auto simp: placed_def)

lemma in_log_more: "in_log es x r \<Longrightarrow> in_log (es @ F) x r"
  by (auto simp: in_log_def)

lemma dnode_more:
  assumes "dnode_ok w es n" "carried w (es @ F) (dn_mine n)"
  shows "dnode_ok w (es @ F) n"
proof -
  obtain L R st where n: "es = L @ R" "length L = dn_read n" "ds_stream (dn_doc n) = Some st" "delivered w L st"
      "placed L R (dn_mine n) (dn_doc n)" "phase_ok w L es n"
    using assms(1) unfolding dnode_ok_def by blast
  have "phase_ok w L (es @ F) n"
    using n(6) by (auto simp: phase_ok_def elim: list_all2_mono intro: in_log_more split: ds_phase.splits)
  then show ?thesis unfolding dnode_ok_def using n(1-5) placed_more[OF n(5), of F] assms(2)
    by (intro exI[of _ L] exI[of _ "R @ F"] exI[of _ st]) simp
qed

lemma carried_other:
  assumes "carried w es mine" "\<And>m i. SetOperation m (Some i) \<in> set F \<Longrightarrow> i \<notin> set (keys mine)"
  shows "carried w (es @ F) mine"
  using assms unfolding carried_def by (fastforce dest: map_of_SomeD simp: rev_image_eqI)

lemma dnode_carried: "dnode_ok w es n \<Longrightarrow> carried w es (dn_mine n)"
  by (auto simp: dnode_ok_def)

lemma dnet_with:
  assumes ok: "dnet_ok w s" and k: "k < length (dnodes s)" and srv: "log_ok srv'" "emitted srv' = emitted (dsrv s) @ F"
    and n: "dnode_ok w (emitted srv') n" "set (keys (dn_mine n)) \<subseteq> set (keys (dn_mine (dnodes s ! k))) \<union> U"
    and U: "U \<inter> set (dused s) = {}" "set used' = U \<union> set (dused s)"
    and F: "\<And>m i. SetOperation m (Some i) \<in> set F \<Longrightarrow> i \<in> set (keys (dn_mine (dnodes s ! k)))"
  shows "dnet_ok w (with_dnode k n (s\<lparr>dsrv := srv', dused := used'\<rparr>))"
proof -
  let ?N = "(dnodes s)[k := n]"
  have old: "dnode_ok w (emitted (dsrv s)) (dnodes s ! j)" "set (keys (dn_mine (dnodes s ! j))) \<subseteq> set (dused s)"
      "\<And>i. i < length (dnodes s) \<Longrightarrow> i \<noteq> j \<Longrightarrow> set (keys (dn_mine (dnodes s ! j))) \<inter> set (keys (dn_mine (dnodes s ! i))) = {}"
    if "j < length (dnodes s)" for j
    using ok that unfolding dnet_ok_def by blast+
  have "dnode_ok w (emitted srv') (?N ! j) \<and> set (keys (dn_mine (?N ! j))) \<subseteq> set used' \<and>
      (\<forall>i < length (dnodes s). i \<noteq> j \<longrightarrow> set (keys (dn_mine (?N ! j))) \<inter> set (keys (dn_mine (?N ! i))) = {})"
    if j: "j < length (dnodes s)" for j
  proof (cases "j = k")
    case True
    have "set (keys (dn_mine n)) \<inter> set (keys (dn_mine (dnodes s ! i))) = {}" if "i < length (dnodes s)" "i \<noteq> k" for i
      using old(2,3)[OF k] old(2)[OF that(1)] n(2) U(1) that by blast
    moreover have "set (keys (dn_mine n)) \<subseteq> set used'" using n(2) old(2)[OF k] U(2) by blast
    ultimately show ?thesis using n(1) k True by simp
  next
    case False
    have "dnode_ok w (emitted srv') (dnodes s ! j)" unfolding srv(2)
    proof (rule dnode_more[OF old(1)[OF j] carried_other[OF dnode_carried[OF old(1)[OF j]]]])
      show "i \<notin> set (keys (dn_mine (dnodes s ! j)))" if "SetOperation m (Some i) \<in> set F" for m i
        using F[OF that] old(3)[OF j k] False by blast
    qed
    moreover have "set (keys (dn_mine (dnodes s ! j))) \<inter> set (keys (dn_mine n)) = {}"
      using old(2,3)[OF j] k n(2) U(1) False by blast
    ultimately show ?thesis using old[OF j] U(2) False k by (auto simp: nth_list_update)
  qed
  then show ?thesis using srv(1) by (simp add: dnet_ok_def with_dnode_def)
qed

section \<open>Steps of a client\<close>

lemma get_append: "i \<notin> set (keys mine) \<Longrightarrow> obj_get (mine @ [(i, v)]) = (obj_get mine)(i \<mapsto> v)"
  by (auto simp: fun_eq_iff map_add_def map_of_eq_None_iff[symmetric] split: option.split)

lemma publish_ok:
  assumes ok: "dnode_ok w es n" and i: "i \<notin> set (keys (dn_mine n))" "i \<notin> set (set_ids es)" "i \<noteq> ''''"
  shows "dnode_ok w es (ds_exec w (Ds_do_publish i v o') n)"
proof -
  obtain L R st where n: "es = L @ R" "length L = dn_read n" "ds_stream (dn_doc n) = Some st" "delivered w L st"
      "placed L R (dn_mine n) (dn_doc n)" "phase_ok w L es n" "carried w es (dn_mine n)"
    using ok unfolding dnode_ok_def by blast
  have "pending L (dn_mine n @ [(i, v)]) (ds_publish i v o' (dn_doc n)) x" if p: "pending L (dn_mine n) (dn_doc n) x" for x
  proof -
    have "j \<noteq> i" if "obj_get (dn_mine n) j = Some u" for j u using i(1) that map_of_SomeD[OF that] by (force simp: image_iff)
    then show ?thesis using p unfolding pending_def get_append[OF i(1)] publish_fields update_conv' by auto
  qed
  then have "phase_ok w L es (ds_exec w (Ds_do_publish i v o') n)" using n(6) by (auto simp: phase_ok_def split: ds_phase.splits)
  moreover have "carried w es (dn_mine n @ [(i, v)])"
    using n(7) i(2) unfolding carried_def get_append[OF i(1)] in_set_ids by (auto split: if_splits)
  moreover have "i \<notin> set (set_ids L)" using i(2) n(1) by simp
  ultimately show ?thesis unfolding dnode_ok_def using n(1-4) placed_publish[OF n(5) i(1) _ i(3)]
    by (intro exI[of _ L] exI[of _ R] exI[of _ st]) simp
qed

lemma receive_ok:
  assumes ok: "dnode_ok w es n" and f: "fresh_events 0 es" "plain_log es" and e: "dn_read n < length es"
    and r: "fst (ds_receive w (es ! dn_read n) (dn_doc n)) = None"
  shows "dnode_ok w es (ds_exec w (Ds_do_receive (es ! dn_read n)) n)"
proof -
  obtain L R st where n: "es = L @ R" "length L = dn_read n" "ds_stream (dn_doc n) = Some st" "delivered w L st"
      "placed L R (dn_mine n) (dn_doc n)" "phase_ok w L es n" "carried w es (dn_mine n)"
    using ok unfolding dnode_ok_def by blast
  obtain e R' where R: "R = e # R'" "es ! dn_read n = e" using n(1,2) e by (cases R) (auto simp: nth_append)
  obtain m i where e: "e = SetOperation m i" "m_key m = None" using f(2) n(1) R(1) by (cases e) (auto simp: plain_log_def)
  have f': "fresh_events 0 (L @ SetOperation m i # R')" using f(1) n(1) R(1) e(1) by simp
  obtain st' ra v where d: "snd (ds_receive w e (dn_doc n)) = ds_handleChange (Change_set v ra None None i) ((dn_doc n)\<lparr>ds_stream := Some st'\<rparr>)"
      "seq ra = m_seq m" "delivered w (L @ [e]) st'"
    using receive_plain[OF n(3,4) f' e(2)] r R(2) e(1) by metis
  let ?d = "ds_handleChange (Change_set v ra None None i) ((dn_doc n)\<lparr>ds_stream := Some st'\<rparr>)"
  have "placed L (SetOperation m i # R') (dn_mine n) ((dn_doc n)\<lparr>ds_stream := Some st'\<rparr>)" using n(5) R(1) e(1) by (simp add: placed_def)
  note p = placed_receive[OF this f' d(2), of v None None]
  have "pending (L @ [e]) (dn_mine n) ?d x" if "pending L (dn_mine n) (dn_doc n) x" for x
    using that e(1) by (auto simp: pending_def delete_conv' split: option.split)
  then have "phase_ok w (L @ [e]) es (n\<lparr>dn_doc := ?d, dn_read := dn_read n + 1\<rparr>)"
    using n(6) by (auto simp: phase_ok_def split: ds_phase.splits)
  then show ?thesis unfolding dnode_ok_def using n(1,2,7) R d p e(1)
    by (intro exI[of _ "L @ [e]"] exI[of _ R'] exI[of _ st']) simp
qed

lemma save_ok:
  assumes "dnode_ok w es n"
  shows "dnode_ok w es (ds_exec w Ds_do_save n)"
proof -
  obtain L R st where n: "es = L @ R" "length L = dn_read n" "ds_stream (dn_doc n) = Some st" "delivered w L st"
      "placed L R (dn_mine n) (dn_doc n)" "phase_ok w L es n" "carried w es (dn_mine n)"
    using assms unfolding dnode_ok_def by blast
  let ?d = "dn_doc n"
  have "pending L (dn_mine n) ?d (ds_local ?d)"
    using n(5) unfolding pending_def placed_def where_ok_def by (metis map_of_is_SomeI)
  moreover have "list_all2 (asks w) (ds_local ?d) (map (\<lambda>(i, v). ds_request w ?d i v) (ds_local ?d))"
    by (auto simp: list_all2_conv_all_nth asks_def ds_request_def set_request_def split: prod.split)
  ultimately have "phase_ok w L es (ds_exec w Ds_do_save n)"
    using n(3,6) by (auto simp: phase_ok_def ds_save_start_def ds_isClosed_def split: ds_phase.splits)
  moreover have "dn_doc (ds_exec w Ds_do_save n) = ?d" "dn_mine (ds_exec w Ds_do_save n) = dn_mine n" "dn_read (ds_exec w Ds_do_save n) = dn_read n"
    by (auto split: ds_phase.split sum.split)
  ultimately show ?thesis unfolding dnode_ok_def using n(1-5,7) by (intro exI[of _ L] exI[of _ R] exI[of _ st]) simp
qed

lemma fail_ok: "dnode_ok w es n \<Longrightarrow> dnode_ok w es (ds_exec w Ds_do_fail n)"
  by (auto simp: dnode_ok_def phase_ok_def)

lemma results_ok:
  assumes ok: "dnode_ok w es n" and f: "fresh_events 0 es" "distinct (set_ids es)"
  shows "dnode_ok w es (ds_exec w Ds_do_results n)"
proof (cases "\<exists>x reqs rs. dn_phase n = Ds_saving x reqs rs \<and> length rs = length x")
  case True
  then obtain x reqs rs where ph: "dn_phase n = Ds_saving x reqs rs" "length rs = length x" by blast
  obtain L R st where n: "es = L @ R" "length L = dn_read n" "ds_stream (dn_doc n) = Some st" "delivered w L st"
      "placed L R (dn_mine n) (dn_doc n)" "phase_ok w L es n" "carried w es (dn_mine n)"
    using ok unfolding dnode_ok_def by blast
  let ?mine = "filter (\<lambda>(i, _). i \<notin> set (rejected_ids x rs)) (dn_mine n)"
  have x: "pending L (dn_mine n) (dn_doc n) x" "list_all2 (in_log es) x rs" using n(6) ph by (simp_all add: phase_ok_def)
  have p: "placed L R ?mine (snd (ds_results x rs False (dn_doc n)))"
    by (rule results_placed[OF _ _ n(4,3,5) x(1)]) (use f n(1) x(2) in simp_all)
  have "obj_get ?mine i = Some v \<Longrightarrow> obj_get (dn_mine n) i = Some v" for i v by (simp add: obj_get_filter_keys split: if_splits)
  then have "carried w es ?mine" using n(7) unfolding carried_def by blast
  then show ?thesis unfolding dnode_ok_def using n(1-4) p ph
    by (intro exI[of _ L] exI[of _ R] exI[of _ st]) (simp add: ds_save_done_def ds_isClosed_def phase_ok_def)
next
  case False
  then have "ds_exec w Ds_do_results n = n" by (auto split: ds_phase.split)
  then show ?thesis using ok by simp
qed

section \<open>Steps of the network\<close>

lemma publishMany_logged:
  assumes "server_publishMany c ops s = (res, s')" "log_ok s"
  shows "log_ok s' \<and> new_sets (set (map snd ops)) s s' \<and>
    list_all2 (\<lambda>a r. \<forall>q i. r = Inr q \<longrightarrow> a_msgID a = Some i \<longrightarrow> (\<exists>m. SetOperation m (Some i) \<in> set (emitted s') \<and> m_seq m = q)) (map snd ops) res"
  using assms
proof (induction ops arbitrary: s res)
  case (Cons op ops)
  obtain now a where op: "op = (now, a)" by (cases op)
  obtain r s1 where 1: "storage_set c now a s = (r, s1)" by fastforce
  obtain rs s2 where 2: "server_publishMany c ops s1 = (rs, s2)" by fastforce
  have eq: "res = map_sum error_code fst r # rs" "s' = s2" using Cons.prems(1) op 1 2 by simp_all
  note A = set_logged[OF 1 Cons.prems(2)]
  note B = Cons.IH[OF 2[folded eq(2)] A(1)]
  obtain es where es: "emitted s' = emitted s1 @ es" using B by (auto simp: new_sets_def)
  have "\<exists>m. SetOperation m (Some i) \<in> set (emitted s') \<and> m_seq m = q" if q: "map_sum error_code fst r = Inr q" "a_msgID a = Some i" for q i
  proof -
    obtain t where "r = Inr (q, t)" using q(1) by (cases r) auto
    from A(3)[OF this q(2)] show ?thesis using es by auto
  qed
  moreover have "new_sets (set (map snd (op # ops))) s s'"
    by (rule new_sets_trans[OF A(2) conjunct1[OF conjunct2[OF B]]]) (auto simp: op)
  ultimately show ?case using B eq(1) op by auto
qed simp

lemma batch_ok:
  assumes ok: "dnode_ok w es n" and ph: "dn_phase n = Ds_saving x reqs rs" and batch: "batch = take 500 (drop (length rs) reqs)"
    and new: "\<And>m i. SetOperation m i \<in> set F \<Longrightarrow> \<exists>a \<in> set batch. i = a_msgID a \<and> m_encoding m = a_encoding a \<and> m_raw m = a_raw a"
    and code: "\<And>v. w_decode w (fst (w_encode w v)) (snd (w_encode w v)) = Some v"
    and res: "list_all2 (\<lambda>a r. \<forall>q i. r = Inr q \<longrightarrow> a_msgID a = Some i \<longrightarrow>
        (\<exists>m. SetOperation m (Some i) \<in> set (es @ F) \<and> m_seq m = q)) batch res"
  shows "dnode_ok w (es @ F) n" "dnode_ok w (es @ F) (ds_exec w (Ds_do_batch res) n)"
    "SetOperation m (Some i) \<in> set F \<Longrightarrow> i \<in> set (keys (dn_mine n))"
proof -
  obtain L R st where n: "es = L @ R" "length L = dn_read n" "ds_stream (dn_doc n) = Some st" "delivered w L st"
      "placed L R (dn_mine n) (dn_doc n)" "phase_ok w L es n" "carried w es (dn_mine n)"
    using ok unfolding dnode_ok_def by blast
  have x: "pending L (dn_mine n) (dn_doc n) x" "list_all2 (asks w) x reqs" "length rs \<le> length x" "list_all2 (in_log es) (take (length rs) x) rs"
    using n(6) ph by (simp_all add: phase_ok_def)
  have sent: "\<exists>v. obj_get (dn_mine n) i = Some v \<and> w_decode w (m_encoding m) (m_raw m) = Some v" if m: "SetOperation m (Some i) \<in> set F" for m i
  proof -
    obtain a where a: "a \<in> set batch" "Some i = a_msgID a" "m_encoding m = a_encoding a" "m_raw m = a_raw a" using new[OF m] by blast
    then have "a \<in> set reqs" using batch by (meson in_set_takeD in_set_dropD)
    then obtain y where "y \<in> set x" "asks w y a" using x(2) by (metis list_all2_conv_all_nth in_set_conv_nth)
    then show ?thesis using a x(1) code by (cases y) (auto simp: asks_def pending_def)
  qed
  then show "SetOperation m (Some i) \<in> set F \<Longrightarrow> i \<in> set (keys (dn_mine n))" for m i by (metis map_of_eq_None_iff not_None_eq list.set_map)
  have "carried w (es @ F) (dn_mine n)" using n(7) sent unfolding carried_def by fastforce
  from dnode_more[OF ok this] show more: "dnode_ok w (es @ F) n" .
  have "list_all2 (in_log (es @ F)) (take (length (rs @ res)) x) (rs @ res) \<and> length (rs @ res) \<le> length x"
  proof -
    have len: "length res = length batch" "length batch = min 500 (length x - length rs)"
      using res x(2) batch by (auto dest: list_all2_lengthD)
    have "list_all2 (in_log (es @ F)) (take (length res) (drop (length rs) x)) res"
    proof (rule list_all2_all_nthI)
      show "length (take (length res) (drop (length rs) x)) = length res" using len by simp
      fix k assume "k < length (take (length res) (drop (length rs) x))"
      then have k: "k < length res" "length rs + k < length x" by auto
      have b: "batch ! k = reqs ! (length rs + k)" using k len x(2) batch by (auto dest: list_all2_lengthD)
      have "asks w (x ! (length rs + k)) (batch ! k)" unfolding b using x(2) k(2) by (rule list_all2_nthD)
      moreover have "res ! k = Inr q \<Longrightarrow> a_msgID (batch ! k) = Some i \<Longrightarrow> \<exists>m. SetOperation m (Some i) \<in> set (es @ F) \<and> m_seq m = q" for q i
        using list_all2_nthD2[OF res k(1)] by blast
      ultimately show "in_log (es @ F) (take (length res) (drop (length rs) x) ! k) (res ! k)"
        using k by (simp add: in_log_def asks_def)
    qed
    moreover have "list_all2 (in_log (es @ F)) (take (length rs) x) rs" using x(4) by (rule list_all2_mono) (rule in_log_more)
    ultimately have "list_all2 (in_log (es @ F)) (take (length rs) x @ take (length res) (drop (length rs) x)) (rs @ res)"
      by (intro list_all2_appendI)
    then show ?thesis using len x(3) by (simp add: take_add)
  qed
  moreover obtain L' R' st' where "es @ F = L' @ R'" "length L' = dn_read n" "ds_stream (dn_doc n) = Some st'" "delivered w L' st'"
      "placed L' R' (dn_mine n) (dn_doc n)" "phase_ok w L' (es @ F) n" "carried w (es @ F) (dn_mine n)"
    using more unfolding dnode_ok_def by blast
  ultimately show "dnode_ok w (es @ F) (ds_exec w (Ds_do_batch res) n)"
    unfolding dnode_ok_def using ph by (intro exI[of _ L'] exI[of _ R'] exI[of _ st']) (simp add: phase_ok_def)
qed

lemma dnet_start: "ds_start s \<Longrightarrow> dnet_ok w s"
  by (auto simp: ds_start_def dnet_ok_def log_ok_def ids_logged_def fresh_events_def dnode_ok_def phase_ok_def carried_def placed_def
      where_ok_def delivered_def new_dstream_def new_cstream_def dest!: nth_mem)

lemma own_mine:
  "op = Ds_do_save \<or> op = Ds_do_results \<or> op = Ds_do_fail \<Longrightarrow> set (keys (dn_mine (ds_exec w op n))) \<subseteq> set (keys (dn_mine n))"
  by (elim disjE; cases "dn_phase n"; cases "ds_save_start w (dn_doc n)") (auto simp: image_iff)

lemma dnet_step:
  assumes step: "ds_step w s s'" and ok: "dnet_ok w s" and plain: "plain_log (emitted (dsrv s))"
    and code: "\<And>v. w_decode w (fst (w_encode w v)) (snd (w_encode w v)) = Some v"
  shows "dnet_ok w s'"
proof -
  let ?E = "emitted (dsrv s)"
  have log: "log_ok (dsrv s)" "fresh_events 0 ?E" "distinct (set_ids ?E)"
    using ok plain by (simp_all add: dnet_ok_def log_ok_def plain_log_def)
  have nodes: "dnode_ok w ?E (dnodes s ! i)" "set (keys (dn_mine (dnodes s ! i))) \<subseteq> set (dused s)" if "i < length (dnodes s)" for i
    using ok that by (simp_all add: dnet_ok_def)
  have own: "dnet_ok w (with_dnode i n s)"
    if "i < length (dnodes s)" "dnode_ok w ?E n" "set (keys (dn_mine n)) \<subseteq> set (keys (dn_mine (dnodes s ! i)))" for i n
    using dnet_with[OF ok that(1) log(1), of "[]" n "{}" "dused s"] that(2,3) by (simp add: with_dnode_def)
  from step show ?thesis
  proof cases
    case (ds_step_publish i mid mesg opts)
    have "mid \<notin> set (keys (dn_mine (dnodes s ! i)))" using nodes(2)[OF ds_step_publish(2)] ds_step_publish(5) by blast
    from publish_ok[OF nodes(1)[OF ds_step_publish(2)] this ds_step_publish(4,3)] show ?thesis
      using dnet_with[OF ok ds_step_publish(2) log(1), of "[]" "ds_exec w (Ds_do_publish mid mesg opts) (dnodes s ! i)" "{mid}" "mid # dused s"]
        ds_step_publish(1,5) by (simp add: with_dnode_def)
  next
    case (ds_step_receive i n e)
    have "dnode_ok w ?E (ds_exec w (Ds_do_receive e) n)"
      using receive_ok[OF nodes(1)[OF ds_step_receive(2)] log(2) plain] ds_step_receive(3-6) by simp
    then show ?thesis using own[OF ds_step_receive(2)] ds_step_receive(1,3) by simp
  next
    case (ds_step_own i op)
    have "dnode_ok w ?E (ds_exec w op (dnodes s ! i))"
      using ds_step_own(3) save_ok fail_ok results_ok[OF _ log(2,3)] nodes(1)[OF ds_step_own(2)] by blast
    moreover have "set (keys (dn_mine (ds_exec w op (dnodes s ! i)))) \<subseteq> set (keys (dn_mine (dnodes s ! i)))"
      using ds_step_own(3) own_mine by blast
    ultimately show ?thesis using own[OF ds_step_own(2)] ds_step_own(1) by simp
  next
    case (ds_step_batch i n x reqs rs batch nows res srv' op)
    have ops: "map snd (zip nows batch) = batch" using ds_step_batch(6) by simp
    note P = publishMany_logged[OF ds_step_batch(7) log(1), unfolded ops]
    obtain F where F: "emitted srv' = ?E @ F"
        "\<And>m i. SetOperation m i \<in> set F \<Longrightarrow> \<exists>a \<in> set batch. i = a_msgID a \<and> m_encoding m = a_encoding a \<and> m_raw m = a_raw a"
      using P by (auto simp: new_sets_def)
    have n: "dnode_ok w ?E n" using nodes(1)[OF ds_step_batch(2)] ds_step_batch(3) by simp
    note B = batch_ok[OF n ds_step_batch(4,5) F(2) code conjunct2[OF conjunct2[OF P], unfolded F(1)]]
    have "dnode_ok w (emitted srv') (ds_exec w op n)" using ds_step_batch(8) B(2) fail_ok[OF B(1)] F(1) by auto
    moreover have "dn_mine (ds_exec w op n) = dn_mine n" using ds_step_batch(8) by (auto split: ds_phase.split)
    ultimately show ?thesis
      using dnet_with[OF ok ds_step_batch(2) _ F(1), of "ds_exec w op n" "{}" "dused s"] P B(3) ds_step_batch(1,3)
      by (simp add: with_dnode_def)
  next
    case (ds_step_other x)
    let ?s = "exec_cmd (w_codec w) (dsrv s) x"
    obtain F where F: "emitted ?s = ?E @ F"
        "\<And>m i. SetOperation m i \<in> set F \<Longrightarrow> \<exists>now a. x = Cmd_set now a \<and> i = a_msgID a"
      using exec_logged(2)[OF log(1), where c = "w_codec w" and x = x] by (cases x) (auto simp: new_sets_def)
    have "i \<notin> set (dused s)" if "SetOperation m (Some i) \<in> set F" for m i using F(2)[OF that] ds_step_other(2) by auto
    then have "dnode_ok w (emitted ?s) (dnodes s ! k)" if "k < length (dnodes s)" for k
      unfolding F(1) using nodes[OF that] by (intro dnode_more carried_other dnode_carried) blast+
    then show ?thesis using ok exec_logged(1)[OF log(1), where c = "w_codec w" and x = x] ds_step_other(1) by (simp add: dnet_ok_def)
  qed
qed

lemma publishMany_extends: "extends_log s (snd (server_publishMany c ops s))"
proof (induction ops arbitrary: s)
  case (Cons op ops)
  obtain now a where op: "op = (now, a)" by (cases op)
  show ?case unfolding op using extends_trans[OF extends_set Cons.IH] by (simp add: split_beta)
qed simp

lemma log_grows: "ds_step w s s' \<Longrightarrow> \<exists>F. emitted (dsrv s') = emitted (dsrv s) @ F"
proof (induction rule: ds_step.induct)
  case (ds_step_batch i s n x reqs rs batch nows res srv' op)
  have "extends_log (dsrv s) srv'" using publishMany_extends[of "dsrv s" "w_codec w" "zip nows batch"] ds_step_batch(6) by simp
  then show ?case by (simp add: with_dnode_def extends_log_def)
qed (use extends_exec in \<open>auto simp: with_dnode_def extends_log_def\<close>)

lemma dnet_invariant:
  assumes "(ds_step w)\<^sup>*\<^sup>* s0 s" "ds_start s0" "plain_log (emitted (dsrv s))"
    and "\<And>v. w_decode w (fst (w_encode w v)) (snd (w_encode w v)) = Some v"
  shows "dnet_ok w s"
  using assms(1,3)
proof (induction rule: rtranclp_induct)
  case base
  show ?case by (rule dnet_start[OF assms(2)])
next
  case (step s s')
  have "plain_log (emitted (dsrv s))" using log_grows[OF step(2)] step(4) plain_append by metis
  then show ?case using dnet_step[OF step(2) step(3) _ assms(4)] by blast
qed

end
