(* ===== verification/DStreamProps.thy ===== *)
theory DStreamProps
  imports DStreamNet DkvClient "HOL-Library.Code_Target_Nat"
begin

text \<open>
  The properties of eventually consistent streams (DStreamNet), and a small network on which they are evaluated.
\<close>

section \<open>Message ids that the server remembers\<close>

text \<open>The server remembers the ids of all messages in its log, and so takes no message twice.\<close>

definition remembered :: "'h storage \<Rightarrow> bool" where
  "remembered s \<longleftrightarrow> distinct (set_ids (emitted s)) \<and> set (set_ids (emitted s)) \<subseteq> set (keys (msgIDs s))"

text \<open>Steps in which the server forgets no id. (It remembers an id for two minutes.)\<close>

definition remembering :: "('h, 't) wire \<Rightarrow> ('h, 't) ds_net \<Rightarrow> ('h, 't) ds_net \<Rightarrow> bool" where
  "remembering w s s' \<longleftrightarrow> ds_step w s s' \<and> set (keys (msgIDs (dsrv s))) \<subseteq> set (keys (msgIDs (dsrv s')))"

lemma no_set_ids: "(\<And>m i. SetOperation m i \<notin> set es) \<Longrightarrow> set_ids es = []"
proof (induction es)
  case (Cons e es)
  from Cons.prems have "set_ids es = []" by (intro Cons.IH) fastforce
  moreover obtain qs where "e = DeleteOperation qs" using Cons.prems by (cases e) auto
  ultimately show ?case by simp
qed simp

lemma remembered_set:
  assumes "remembered s"
  shows "remembered (snd (storage_set c now a s))"
proof (cases "Option.bind (a_msgID a) (obj_get (msgIDs s))")
  case (Some r)
  then have "storage_set c now a s = (Inr r, s)" by (simp add: storage_set_def)
  then show ?thesis using assms by simp
next
  case None
  show ?thesis
  proof (cases rule: storage_set_cases[of c now a s])
    case (limits e s1)
    obtain es where "emitted s1 = emitted s @ es" "\<And>m i. SetOperation m i \<notin> set es" "msgIDs s1 = msgIDs s"
      by (rule limits_log[OF limits(2)]) blast
    then show ?thesis using assms limits(1) no_set_ids[of es] by (simp add: remembered_def)
  next
    case (stored raw' alg s1 s2)
    obtain es where es: "emitted s1 = emitted s @ es" "\<And>m i. SetOperation m i \<notin> set es" by (rule limits_log[OF stored(2)]) blast
    have ids: "set_ids (emitted s2) = set_ids (emitted s) @ (case a_msgID a of None \<Rightarrow> [] | Some i \<Rightarrow> [i])"
      using es(1) stored(7) no_set_ids[OF es(2)] by (simp split: option.split)
    show ?thesis
    proof (cases "a_msgID a")
      case none: None
      then show ?thesis using assms ids set_msgIDs(2)[OF stored(3)] stored(3) by (auto simp: remembered_def)
    next
      case (Some i)
      then have i: "i \<notin> set (keys (msgIDs s))" using None by (simp add: map_of_eq_None_iff)
      then have "msgIDs s2 = obj_set i (Suc (autoincrement s1), now) (msgIDs s)"
        using set_msgIDs(2)[OF stored(3)] Some None by auto
      then show ?thesis using assms ids i stored(3) Some by (auto simp: remembered_def set_keys_update)
    qed
  qed (use assms in simp_all)
qed

lemma remembered_publish: "remembered s \<Longrightarrow> remembered (snd (server_publishMany c ops s))"
proof (induction ops arbitrary: s)
  case (Cons op ops)
  obtain now a where op: "op = (now, a)" by (cases op)
  show ?case unfolding op using Cons.IH[OF remembered_set[OF Cons.prems]] by (simp add: split_beta)
qed simp

lemma remembered_exec:
  assumes "remembered s" "log_ok s" "set (keys (msgIDs s)) \<subseteq> set (keys (msgIDs (exec_cmd c s x)))"
  shows "remembered (exec_cmd c s x)"
proof (cases x)
  case (Cmd_set now a)
  then show ?thesis using remembered_set[OF assms(1)] by simp
next
  case (Cmd_delete q qs l a)
  obtain es where "emitted (exec_cmd c s x) = emitted s @ es" "\<forall>m i. SetOperation m i \<in> set es \<longrightarrow> False"
    using exec_logged(2)[OF assms(2), where c = c and x = x] Cmd_delete by (auto simp: new_sets_def)
  then show ?thesis using assms(1,3) no_set_ids[of es] by (auto simp: remembered_def)
next
  case (Cmd_config now g)
  obtain es where "emitted (exec_cmd c s x) = emitted s @ es" "\<forall>m i. SetOperation m i \<in> set es \<longrightarrow> False"
    using exec_logged(2)[OF assms(2), where c = c and x = x] Cmd_config by (auto simp: new_sets_def)
  then show ?thesis using assms(1,3) no_set_ids[of es] by (auto simp: remembered_def)
next
  case (Cmd_expire ids)
  then show ?thesis using assms(1,3) by (auto simp: remembered_def expire_msgIDs_def)
qed

lemma remembering_runs:
  assumes "(remembering w)\<^sup>*\<^sup>* s0 s" "ds_start s0"
  shows "(ds_step w)\<^sup>*\<^sup>* s0 s \<and> remembered (dsrv s) \<and> log_ok (dsrv s)"
  using assms(1)
proof (induction rule: rtranclp_induct)
  case base
  then show ?case using assms(2) by (auto simp: ds_start_def remembered_def log_ok_def ids_logged_def fresh_events_def)
next
  case (step s s')
  then have r: "(ds_step w)\<^sup>*\<^sup>* s0 s" "remembered (dsrv s)" "log_ok (dsrv s)" "ds_step w s s'"
    "set (keys (msgIDs (dsrv s))) \<subseteq> set (keys (msgIDs (dsrv s')))" by (simp_all add: remembering_def)
  from r(4) have "remembered (dsrv s') \<and> log_ok (dsrv s')"
  proof cases
    case (ds_step_batch i n x reqs rs batch nows res srv' op)
    then show ?thesis using remembered_publish[OF r(2), of "w_codec w" "zip nows batch"] publishMany_logged[OF ds_step_batch(7) r(3)]
      by (simp add: with_dnode_def)
  next
    case (ds_step_other x)
    then show ?thesis using remembered_exec[OF r(2,3), of "w_codec w" x] r(5) exec_logged(1)[OF r(3), where c = "w_codec w" and x = x] by simp
  qed (use r in \<open>simp_all add: with_dnode_def\<close>)
  then show ?case using r by (meson rtranclp.rtrancl_into_rtrancl)
qed

section \<open>A small network\<close>

datatype ds_label =
    Do_publish nat string nat
  | Do_receive nat
  | Do_own nat "(nat, nat) ds_op"
  | Do_batch nat rat
  | Do_lose nat rat
  | Do_other "nat cmd"

definition ds_wire :: "(nat, nat) wire" where
  "ds_wire = \<lparr>w_codec = plain_codec, w_decode = (\<lambda>e b. Some (length b)), w_encode = (\<lambda>v. (0, replicate v 0)), w_null = 0,
     w_is_tombstone = (\<lambda>h. h = 0), w_tombstone = 0, w_thresh = 1000\<rparr>"

definition ds_send :: "nat \<Rightarrow> rat \<Rightarrow> bool \<Rightarrow> (nat, nat) ds_net \<Rightarrow> (nat, nat) ds_net option" where
  "ds_send i t answered s =
     (case dn_phase (dnodes s ! i) of
        Ds_idle \<Rightarrow> None
      | Ds_saving x reqs rs \<Rightarrow>
          (let batch = take 500 (drop (length rs) reqs);
               (res, srv') = server_publishMany (w_codec ds_wire) (zip (replicate (length batch) t) batch) (dsrv s) in
           Some (with_dnode i (ds_exec ds_wire (if answered then Ds_do_batch res else Ds_do_fail) (dnodes s ! i)) (s\<lparr>dsrv := srv'\<rparr>))))"

fun ds_do :: "ds_label \<Rightarrow> (nat, nat) ds_net \<Rightarrow> (nat, nat) ds_net option" where
  "ds_do (Do_publish i mid v) s =
     (if i < length (dnodes s) \<and> mid \<noteq> '''' \<and> mid \<notin> set (set_ids (emitted (dsrv s))) \<and> mid \<notin> set (dused s)
      then Some (with_dnode i (ds_exec ds_wire (Ds_do_publish mid v None) (dnodes s ! i)) (s\<lparr>dused := mid # dused s\<rparr>)) else None)"
| "ds_do (Do_receive i) s =
     (let n = dnodes s ! i; e = emitted (dsrv s) ! dn_read n in
      if i < length (dnodes s) \<and> dn_read n < length (emitted (dsrv s)) \<and> fst (ds_receive ds_wire e (dn_doc n)) = None
      then Some (with_dnode i (ds_exec ds_wire (Ds_do_receive e) n) s) else None)"
| "ds_do (Do_own i op) s =
     (if i < length (dnodes s) \<and> (case op of Ds_do_save \<Rightarrow> True | Ds_do_results \<Rightarrow> True | _ \<Rightarrow> False)
      then Some (with_dnode i (ds_exec ds_wire op (dnodes s ! i)) s) else None)"
| "ds_do (Do_batch i t) s = (if i < length (dnodes s) then ds_send i t True s else None)"
| "ds_do (Do_lose i t) s = (if i < length (dnodes s) then ds_send i t False s else None)"
| "ds_do (Do_other x) s =
     (if (case x of Cmd_set now a \<Rightarrow> False | _ \<Rightarrow> True) then Some (s\<lparr>dsrv := exec_cmd (w_codec ds_wire) (dsrv s) x\<rparr>) else None)"

fun ds_run :: "ds_label list \<Rightarrow> (nat, nat) ds_net \<Rightarrow> (nat, nat) ds_net option" where
  "ds_run [] s = Some s"
| "ds_run (l # ls) s = (case ds_do l s of None \<Rightarrow> None | Some s' \<Rightarrow> ds_run ls s')"

lemma ds_send_step:
  assumes "i < length (dnodes s)" "ds_send i t b s = Some s'"
  shows "ds_step ds_wire s s'"
proof -
  obtain x reqs rs where ph: "dn_phase (dnodes s ! i) = Ds_saving x reqs rs" using assms(2) by (auto simp: ds_send_def split: ds_phase.splits)
  let ?batch = "take 500 (drop (length rs) reqs)"
  obtain res srv' where r: "server_publishMany (w_codec ds_wire) (zip (replicate (length ?batch) t) ?batch) (dsrv s) = (res, srv')" by fastforce
  have "s' = with_dnode i (ds_exec ds_wire (if b then Ds_do_batch res else Ds_do_fail) (dnodes s ! i)) (s\<lparr>dsrv := srv'\<rparr>)"
    using assms(2) ph r by (simp add: ds_send_def Let_def del: ds_exec.simps)
  then show ?thesis using ds_step_batch[OF assms(1) refl ph refl _ r] by simp
qed

lemma ds_do_step: "ds_do l s = Some s' \<Longrightarrow> ds_step ds_wire s s'"
proof (cases l)
  case (Do_publish i mid v)
  then show "ds_do l s = Some s' \<Longrightarrow> ds_step ds_wire s s'"
    using ds_step_publish[of i s mid ds_wire v None] by (auto simp del: ds_exec.simps split: if_splits)
next
  case (Do_receive i)
  then show "ds_do l s = Some s' \<Longrightarrow> ds_step ds_wire s s'"
    using ds_step_receive[of i s "dnodes s ! i" _ ds_wire] by (auto simp: Let_def simp del: ds_exec.simps split: if_splits)
next
  case (Do_own i op)
  then show "ds_do l s = Some s' \<Longrightarrow> ds_step ds_wire s s'"
    using ds_step_own[of i s op ds_wire] by (cases op) (auto simp del: ds_exec.simps split: if_splits)
next
  case (Do_other x)
  then show "ds_do l s = Some s' \<Longrightarrow> ds_step ds_wire s s'"
    using ds_step_other[of x s ds_wire] by (cases x) (auto simp del: exec_cmd.simps split: if_splits)
qed (use ds_send_step in \<open>auto split: if_splits\<close>)

text \<open>A run in which no id is forgotten.\<close>

fun ds_remembers :: "ds_label list \<Rightarrow> (nat, nat) ds_net \<Rightarrow> bool" where
  "ds_remembers [] s \<longleftrightarrow> True"
| "ds_remembers (l # ls) s \<longleftrightarrow> (case ds_do l s of
     None \<Rightarrow> True
   | Some s' \<Rightarrow> (\<forall>i \<in> set (keys (msgIDs (dsrv s))). i \<in> set (keys (msgIDs (dsrv s')))) \<and> ds_remembers ls s')"

lemma ds_run_remembering: "ds_run ls s = Some s' \<Longrightarrow> ds_remembers ls s \<Longrightarrow> (remembering ds_wire)\<^sup>*\<^sup>* s s'"
proof (induction ls arbitrary: s)
  case (Cons l ls)
  then obtain s1 where s1: "ds_do l s = Some s1" "ds_run ls s1 = Some s'" by (auto split: option.splits)
  then have "remembering ds_wire s s1" "ds_remembers ls s1"
    using Cons.prems(2) ds_do_step[OF s1(1)] by (auto simp: remembering_def)
  then show ?case using Cons.IH[OF s1(2)] by (meson converse_rtranclp_into_rtranclp)
qed simp

definition ds_two :: "(nat, nat) ds_net" where
  "ds_two = \<lparr>dsrv = empty_storage, dnodes = replicate 2 \<lparr>dn_doc = new_dstream True, dn_read = 0, dn_phase = Ds_idle, dn_mine = []\<rparr>,
     dused = []\<rparr>"

lemma ds_two_start: "ds_start ds_two"
  by (auto simp: ds_start_def ds_two_def empty_storage_def)

text \<open>The first response is lost; the message of the second client arrives in between.\<close>

definition ds_lost_run :: "ds_label list" where
  "ds_lost_run = [Do_publish 0 ''a'' 5, Do_own 0 Ds_do_save, Do_lose 0 1000, Do_publish 1 ''b'' 6, Do_own 1 Ds_do_save,
     Do_batch 1 2000, Do_own 1 Ds_do_results, Do_publish 0 ''c'' 7, Do_own 0 Ds_do_save, Do_batch 0 3000, Do_receive 0,
     Do_own 0 Ds_do_results]"

definition ds_lost :: "(nat, nat) ds_net option" where
  "ds_lost = ds_run ds_lost_run ds_two"

lemma ds_lost_remembers: "ds_remembers ds_lost_run ds_two"
  by code_simp

lemma ds_lost_facts:
  "case ds_lost of None \<Rightarrow> False | Some s \<Rightarrow> list_all appends (emitted (dsrv s)) \<and> length (dnodes s) = 2 \<and> dn_read (dnodes s ! 0) = 1 \<and>
     dn_mine (dnodes s ! 0) = [(''a'', 5), (''c'', 7)] \<and> ds_getAll (dn_doc (dnodes s ! 0)) = Inr [Some 5, Some 7]"
  by code_simp

section \<open>Properties\<close>

text \<open>C12: Published messages are shown exactly once: a client shows the messages it has received, in the
  order of the server, then those of its own that it has not received, saved or not; and what it
  receives under the id of one of them is that message. So nothing that was published and not
  rejected is missing or doubled at any time, whatever is lost, delayed and repeated; a stable client shows what it has received.
  Conditions: the clients start with an empty stream, the stream is only
  appended to up to now (no keys, nothing deleted or evicted), the server forgets no message id (it keeps one for two minutes,
  after which a repeated attempt would be stored again), ids are not used twice, and decoding gives back what was encoded.\<close>

theorem published_shown_once:
  assumes "(remembering w)\<^sup>*\<^sup>* s0 s" "ds_start s0" "list_all appends (emitted (dsrv s))"
    and "\<And>v. w_decode w (fst (w_encode w v)) (snd (w_encode w v)) = Some v" and "k < length (dnodes s)"
  defines "n \<equiv> dnodes s ! k"
  defines "received \<equiv> take (dn_read n) (emitted (dsrv s))"
  shows "\<exists>rest. ds_getAll (dn_doc n) = Inr (map (\<lambda>m. w_decode w (m_encoding m) (m_raw m)) (set_msgs received) @ map Some rest) \<and>
    mset rest = mset (map snd (filter (\<lambda>(i, _). i \<notin> set (set_ids received)) (dn_mine n))) \<and>
    distinct (set_ids (emitted (dsrv s))) \<and>
    (\<forall>(i, v) \<in> set (dn_mine n). \<forall>m. SetOperation m (Some i) \<in> set (emitted (dsrv s)) \<longrightarrow> w_decode w (m_encoding m) (m_raw m) = Some v) \<and>
    (ds_isStable (dn_doc n) \<longrightarrow> rest = [])"
proof -
  note run = remembering_runs[OF assms(1,2)]
  then have plain: "plain_log (emitted (dsrv s))" using assms(3) by (simp add: plain_log_def remembered_def)
  then have ok: "dnet_ok w s" using dnet_invariant[OF _ assms(2) _ assms(4)] run by blast
  then have f: "fresh_events 0 (emitted (dsrv s))" "distinct (set_ids (emitted (dsrv s)))"
    using plain by (simp_all add: dnet_ok_def log_ok_def plain_log_def)
  have "dnode_ok w (emitted (dsrv s)) n" using ok assms(5) by (simp add: dnet_ok_def n_def)
  then obtain L R st where n: "emitted (dsrv s) = L @ R" "length L = dn_read n" "ds_stream (dn_doc n) = Some st" "delivered w L st"
      "placed L R (dn_mine n) (dn_doc n)" "carried w (emitted (dsrv s)) (dn_mine n)"
    unfolding dnode_ok_def by blast
  have L: "received = L" using n(1,2) by (simp add: received_def)
  have d: "distinct (keys (dn_mine n))" using n(5) by (simp add: placed_def)
  let ?rest = "js_values (ds_saved (dn_doc n)) @ map snd (ds_local (dn_doc n))"
  have "mset ?rest = mset (map snd (filter (\<lambda>(i, _). i \<notin> set (set_ids received)) (dn_mine n)))"
    unfolding L by (rule placed_shown[OF n(5)]) (use f n(1) in simp_all)
  moreover have "ds_getAll (dn_doc n) = Inr (map (\<lambda>m. w_decode w (m_encoding m) (m_raw m)) (set_msgs received) @ map Some ?rest)"
    using n(3,4) by (simp add: ds_getAll_def delivered_def L comp_def)
  moreover have "\<forall>(i, v) \<in> set (dn_mine n). \<forall>m. SetOperation m (Some i) \<in> set (emitted (dsrv s)) \<longrightarrow>
      w_decode w (m_encoding m) (m_raw m) = Some v"
  proof (clarify)
    fix i v m assume "(i, v) \<in> set (dn_mine n)" and m: "SetOperation m (Some i) \<in> set (emitted (dsrv s))"
    then have "obj_get (dn_mine n) i = Some v" using d by simp
    then show "w_decode w (m_encoding m) (m_raw m) = Some v" using n(6) m unfolding carried_def by blast
  qed
  moreover have "ds_isStable (dn_doc n) \<longrightarrow> ?rest = []" by (simp add: ds_isStable_def js_values_def js_keys_def)
  ultimately show ?thesis using f(2) by blast
qed

lemma published_shown_once_witness:
  "case ds_lost of None \<Rightarrow> False | Some s \<Rightarrow> (let n = dnodes s ! 0; received = take 1 (emitted (dsrv s)) in
     ds_getAll (dn_doc n) = Inr [Some 5, Some 7] \<and>
     (\<exists>rest. map (\<lambda>m. w_decode ds_wire (m_encoding m) (m_raw m)) (set_msgs received) @ map Some rest = [Some 5, Some 7] \<and>
       mset rest = mset (map snd (filter (\<lambda>(i, _). i \<notin> set (set_ids received)) [(''a'', 5), (''c'', 7)]))))"
proof (cases ds_lost)
  case None
  then show ?thesis using ds_lost_facts by simp
next
  case (Some s)
  note f = ds_lost_facts[unfolded Some option.case]
  have run: "(remembering ds_wire)\<^sup>*\<^sup>* ds_two s" by (rule ds_run_remembering[OF Some[unfolded ds_lost_def] ds_lost_remembers])
  have code: "w_decode ds_wire (fst (w_encode ds_wire v)) (snd (w_encode ds_wire v)) = Some v" for v by (simp add: ds_wire_def)
  let ?n = "dnodes s ! 0" and ?L = "take 1 (emitted (dsrv s))"
  have n: "list_all appends (emitted (dsrv s))" "0 < length (dnodes s)" "dn_read ?n = 1" "dn_mine ?n = [(''a'', 5), (''c'', 7)]"
    "ds_getAll (dn_doc ?n) = Inr [Some 5, Some 7]" using f by simp_all
  obtain rest where "Inr [Some 5, Some 7] = (Inr (map (\<lambda>m. w_decode ds_wire (m_encoding m) (m_raw m)) (set_msgs ?L) @ map Some rest) :: dkv_error + _)"
      "mset rest = mset (map snd (filter (\<lambda>(i, _). i \<notin> set (set_ids ?L)) [(''a'', 5), (''c'', 7)]))"
    using published_shown_once[OF run ds_two_start n(1) code n(2)] unfolding n(3,4,5) by blast
  then show ?thesis unfolding Some Let_def option.case using n(5) by (intro conjI exI[of _ rest]) simp_all
qed

lemma in_js_values: "obj_get m q = Some v \<Longrightarrow> v \<in> set (js_values m)"
  by (auto simp: set_js_values intro: ranI)

definition stuck :: "nat \<Rightarrow> 't \<Rightarrow> ('h, 't) ds_node \<Rightarrow> bool" where
  "stuck q v n \<longleftrightarrow> obj_get (ds_saved (dn_doc n)) q = Some v \<and> ds_stream (dn_doc n) \<noteq> None \<and>
     (case dn_phase n of Ds_idle \<Rightarrow> True | Ds_saving x reqs rs \<Rightarrow> Inr q \<notin> set rs)"

text \<open>The sequence number comes to the client again: in an event or in a response.\<close>

fun brings :: "nat \<Rightarrow> ('h, 't) ds_op \<Rightarrow> bool" where
  "brings q (Ds_do_receive (SetOperation m i)) \<longleftrightarrow> m_seq m = q"
| "brings q (Ds_do_receive (DeleteOperation qs)) \<longleftrightarrow> q \<in> set qs"
| "brings q (Ds_do_batch rs) \<longleftrightarrow> Inr q \<in> set rs"
| "brings q _ \<longleftrightarrow> False"

lemma handleChange_stuck:
  assumes "echoes w e ce" "\<not> brings q (Ds_do_receive e)" "obj_get (ds_saved d) q = Some v"
  shows "obj_get (ds_saved (ds_handleChange ce d)) q = Some v"
proof (cases e)
  case (DeleteOperation qs)
  then obtain p kn u where "ce = Change_delete p kn u" "p \<noteq> q" using assms(1,2) by (auto simp: echoes_def)
  then show ?thesis using assms(3) by (simp add: ds_handleChange.simps delete_conv')
qed (use assms in \<open>auto simp: ds_handleChange.simps echoes_def ds_emit_def Let_def delete_conv' split: option.split\<close>)

lemma receive_stuck:
  assumes "\<not> brings q (Ds_do_receive e)" "obj_get (ds_saved d) q = Some v" "ds_stream d \<noteq> None"
  shows "obj_get (ds_saved (snd (ds_receive w e d))) q = Some v \<and> ds_stream (snd (ds_receive w e d)) \<noteq> None"
proof -
  obtain st where st: "ds_stream d = Some st" using assms(3) by auto
  obtain err st' where p: "processPersistentMessage (w_thresh w) (w_decode w) (w_is_tombstone w) False False e st = (err, st')" by fastforce
  obtain es where es: "changes st' = changes st @ es" "\<forall>ce \<in> set es. echoes w e ce" using process_changes[OF p] by blast
  have "obj_get (ds_saved (fold ds_handleChange es d)) q = Some v \<and> ds_stream (fold ds_handleChange es d) = ds_stream d"
    if "obj_get (ds_saved d) q = Some v" for d
    using es(2) that
  proof (induction es arbitrary: d)
    case (Cons ce es)
    then show ?case using handleChange_stuck[OF _ assms(1), of w ce] by simp
  qed simp
  then show ?thesis using st p es(1) assms(2) by (simp add: ds_receive_def)
qed

lemma results_stuck:
  "obj_get (ds_saved d) q = Some v \<Longrightarrow> Inr q \<notin> set rs \<Longrightarrow>
     obj_get (ds_saved (snd (ds_results x rs b d))) q = Some v \<and> ds_stream (snd (ds_results x rs b d)) = ds_stream d"
  by (induction x rs b d rule: ds_results.induct)
    (auto simp: ds_refused_def ds_accepted_def ds_emit_def Let_def update_conv')

lemma exec_stuck:
  assumes "stuck q v n" "\<not> brings q op"
  shows "stuck q v (ds_exec w op n)"
proof (cases op)
  case (Ds_do_receive e)
  then show ?thesis using assms receive_stuck[of q e "dn_doc n" v w] by (simp add: stuck_def)
next
  case Ds_do_results
  then show ?thesis using assms results_stuck[of "dn_doc n" q v]
    by (auto simp: stuck_def ds_save_done_def ds_isClosed_def split: ds_phase.splits)
qed (use assms in \<open>auto simp: stuck_def ds_publish_def ds_save_start_def Let_def
  split: ds_phase.splits option.splits sum.splits\<close>)

lemma stuck_fold: "stuck q v n \<Longrightarrow> \<forall>op \<in> set ops. \<not> brings q op \<Longrightarrow> stuck q v (fold (ds_exec w) ops n)"
  by (induction ops arbitrary: n) (simp_all add: exec_stuck)

lemma results_middle:
  assumes "length rs1 = length x1"
  shows "ds_results (x1 @ x2) (rs1 @ rs2) b d = (case ds_results x1 rs1 b d of (b', d') \<Rightarrow> ds_results x2 rs2 b' d')"
  using assms
proof (induction rs1 x1 arbitrary: b d rule: list_induct2)
  case (Cons r rs y x)
  then show ?case by (cases r; cases y) simp_all
qed simp

text \<open>C39: A message that is deleted from the stream before the response to its publisher is
  processed stays in the list of saved messages: the response looks for its sequence number in what is left of the stream
  and, when that is empty or older, takes the message for one that has yet to arrive. Whatever the
  client does and receives from then on, it shows the message and does not become stable, unless an
  event or a response brings that sequence number again, which the server gives only once.\<close>

theorem deleted_message_stays:
  fixes w :: "('h, 't) wire" and n :: "('h, 't) ds_node"
  assumes "dn_phase n = Ds_saving (x1 @ (mid, v) # x2) reqs (rs1 @ Inr q # rs2)" "length rs1 = length x1" "length rs2 = length x2"
    and "Inr q \<notin> set rs1 \<union> set rs2" "ds_stream (dn_doc n) = Some st" "raw st = [] \<or> seq (last (raw st)) < q"
    and "\<forall>op \<in> set ops. \<not> brings q op"
  defines "d \<equiv> dn_doc (fold (ds_exec w) ops (ds_exec w Ds_do_results n))"
  shows "(\<exists>msgs. ds_getAll d = Inr msgs \<and> Some v \<in> set msgs) \<and> \<not> ds_isStable d"
proof -
  let ?rs = "rs1 @ Inr q # rs2"
  have str: "ds_stream (snd (ds_results x rs b d)) = ds_stream d" for x :: "(string \<times> 'b) list" and rs b d
    by (induction x rs b d rule: ds_results.induct) (auto simp: ds_refused_def ds_accepted_def ds_emit_def Let_def)
  obtain b1 d1 where d1: "ds_results x1 rs1 False (dn_doc n) = (b1, d1)" by fastforce
  then have "ds_stream d1 = Some st" using str[of x1 rs1 False "dn_doc n"] assms(5) by simp
  then have "obj_get (ds_saved (ds_accepted mid v q d1)) q = Some v"
    using assms(6) by (simp add: ds_accepted_def not_in_raw_def Let_def update_conv')
  from results_stuck[OF this, of rs2 x2 b1] have "obj_get (ds_saved (snd (ds_results (x1 @ (mid, v) # x2) ?rs False (dn_doc n)))) q = Some v"
    using assms(4) d1 by (simp add: results_middle[OF assms(2)])
  then have "stuck q v (ds_exec w Ds_do_results n)"
    using assms(1-3,5) str[of "x1 @ (mid, v) # x2" ?rs False "dn_doc n"] by (simp add: stuck_def ds_save_done_def ds_isClosed_def)
  then have s: "stuck q v (fold (ds_exec w) ops (ds_exec w Ds_do_results n))" by (rule stuck_fold) (rule assms(7))
  then obtain st' where "ds_stream d = Some st'" "obj_get (ds_saved d) q = Some v" by (auto simp: stuck_def d_def)
  then show ?thesis using in_js_values[of "ds_saved d" q v] by (auto simp: ds_getAll_def ds_isStable_def)
qed

text \<open>The message \<open>5\<close> is published, saved, received and deleted; then the response is processed.\<close>

definition deleted_early :: "(nat, nat) ds_node option" where
  "deleted_early = map_option (\<lambda>s. dnodes s ! 0) (ds_run [Do_publish 0 ''a'' 5, Do_own 0 Ds_do_save, Do_batch 0 1000, Do_receive 0,
     Do_other (Cmd_delete (Some 1) None None False), Do_receive 0] ds_two)"

lemma deleted_message_stays_witness:
  "case deleted_early of None \<Rightarrow> False | Some n \<Rightarrow>
     (let d = dn_doc (fold (ds_exec ds_wire) [Ds_do_publish ''b'' 6 None, Ds_do_save] (ds_exec ds_wire Ds_do_results n)) in
      (\<exists>msgs. ds_getAll d = Inr msgs \<and> Some 5 \<in> set msgs) \<and> \<not> ds_isStable d)"
proof (cases deleted_early)
  case None
  moreover have "deleted_early \<noteq> None" by code_simp
  ultimately show ?thesis by simp
next
  case (Some n)
  have "case deleted_early of None \<Rightarrow> False | Some n \<Rightarrow>
      (case dn_phase n of Ds_saving x reqs rs \<Rightarrow> x = [(''a'', 5)] \<and> rs = [Inr 1] | _ \<Rightarrow> False) \<and>
      (case ds_stream (dn_doc n) of None \<Rightarrow> False | Some st \<Rightarrow> raw st = [])"
    by code_simp
  then obtain reqs st where n: "dn_phase n = Ds_saving ([] @ (''a'', 5) # []) reqs ([] @ Inr 1 # [])" "ds_stream (dn_doc n) = Some st"
      "raw st = []"
    unfolding Some by (auto split: ds_phase.splits option.splits)
  have "\<forall>op \<in> set [Ds_do_publish ''b'' 6 None, Ds_do_save]. \<not> brings 1 op" by simp
  from deleted_message_stays[OF n(1) _ _ _ n(2) _ this, of ds_wire] n(3) show ?thesis
    unfolding Some Let_def option.case by simp
qed

text \<open>An accepted message that has not yet arrived is shown by \<open>getAll\<close>, but \<open>get\<close> looks for it at its index
  instead of its sequence number and does not find it.\<close>

lemma get_misses_saved:
  assumes st: "ds_stream d = Some st" and k: "k < length (js_keys (ds_saved d))" "k \<notin> set (keys (ds_saved d))"
  shows "ds_get (length (messages st) + k) d = Inr None \<and>
    (\<exists>xs v. ds_getAll d = Inr xs \<and> xs ! (length (messages st) + k) = Some v)"
proof -
  have "obj_get (ds_saved d) k = None" using k(2) by (simp add: map_of_eq_None_iff)
  moreover have "(messages st @ map Some (js_values (ds_saved d)) @ map (Some \<circ> snd) (ds_local d)) ! (length (messages st) + k) =
      Some (js_values (ds_saved d) ! k)"
    unfolding nth_append_length_plus using k(1) by (simp add: nth_append js_values_def)
  ultimately show ?thesis using st k(1) by (simp add: ds_get_def ds_getAll_def)
qed

end
