(* ===== verification/Json.thy ===== *)
theory Json
  imports Prelude JsSort "HOL-Library.Finite_Map"
begin

text \<open>
  JSON values, the comparisons the code makes on them, and the patches of strings of
  \<^verbatim>\<open>packages/util/dmp.ts\<close>. A value of immutable.js and the plain JavaScript value it converts
  to (\<open>toJS\<close>, \<open>fromJS\<close>) are the same value here: an \<open>immutable.Map\<close> is a finite map, compared by
  its contents. The package diff-match-patch is a parameter. \<open>undefined\<close> inside a value and dates
  are left out, as the code says that they cannot be stored.
\<close>

datatype json =
    JNull
  | JBool bool
  | JNum rat
  | JStr string
  | JArr "json list"
  | JObj "(string, json) fmap"

type_synonym json_map = "(string, json) fmap"

text \<open>\<open>x == null\<close> for the result of a lookup.\<close>

definition is_nil :: "json option \<Rightarrow> bool" where
  "is_nil x \<longleftrightarrow> x = None \<or> x = Some JNull"

fun is_array :: "json \<Rightarrow> bool" where
  "is_array (JArr xs) = True"
| "is_array x = False"

fun is_object :: "json \<Rightarrow> bool" where
  "is_object (JObj m) = True"
| "is_object x = False"

lemma is_nil_simps [simp]: "is_nil None" "is_nil (Some JNull)"
  by (auto simp: is_nil_def)

lemma not_nil: "\<not> is_nil x \<longleftrightarrow> (\<exists>v. x = Some v \<and> v \<noteq> JNull)"
  by (cases x) (auto simp: is_nil_def)

text \<open>\<open>m.toJS()\<close> as a list of entries. The order in which immutable.js iterates is not specified;
  no result below depends on it.\<close>

definition toJS :: "json_map \<Rightarrow> (string, json) obj" where
  "toJS m = sorted_list_of_fmap m"

lemma map_of_toJS [simp]: "map_of (toJS m) = fmlookup m"
  by (simp add: toJS_def)

lemma distinct_sorted_fmap: "distinct (map fst (sorted_list_of_fmap m))"
  by (simp add: sorted_list_of_fmap_def comp_def sorted_list_of_fset.rep_eq)

lemma keys_toJS: "set (map fst (toJS m)) = fmdom' m" "distinct (map fst (toJS m))"
  by (simp_all add: toJS_def sorted_list_of_fmap_def comp_def fmdom'_alt_def sorted_list_of_fset.rep_eq)

lemma in_toJS: "(k, v) \<in> set (toJS m) \<longleftrightarrow> fmlookup m k = Some v"
  using obj_get_mem[OF keys_toJS(2)] by simp

lemma toJS_eq_Nil [simp]: "toJS m = [] \<longleftrightarrow> m = fmempty"
proof
  assume "toJS m = []"
  then have "map_of (toJS m) = map_of []" by simp
  then show "m = fmempty" by (intro fmap_ext) simp
qed (simp add: toJS_def sorted_list_of_fmap_def sorted_list_of_fset.rep_eq)

text \<open>The object with given entries.\<close>

lemma fmlookup_of_toJS [simp]: "fmap_of_list (toJS m) = m"
  by (rule fmap_ext) (simp add: fmlookup_of_list)

section \<open>Changes of maps\<close>

text \<open>\<^verbatim>\<open>packages/sync/editor/db/util.ts\<close>.\<close>

definition map_merge_patch :: "json_map \<Rightarrow> json_map \<Rightarrow> json_map" where
  "map_merge_patch obj1 obj2 =
     foldl (\<lambda>change (key, val2). if \<not> is_nil (fmlookup obj1 key) then change else fmupd key val2 change)
       (foldl (\<lambda>change (key, val1).
            (let val2 = fmlookup obj2 key in
             if Some val1 = val2 then change
             else if is_nil val2 then fmupd key JNull change
             else fmupd key (the val2) change)) fmempty (toJS obj1))
       (toJS obj2)"

definition merge_set :: "json_map \<Rightarrow> json_map \<Rightarrow> json_map" where
  "merge_set obj change =
     foldl (\<lambda>obj (k, v). if v = JNull then fmdrop k obj else fmupd k v obj) obj (toJS change)"

definition nonnull_cols :: "json_map \<Rightarrow> json_map" where
  "nonnull_cols f = fmfilter (\<lambda>k. fmlookup f k \<noteq> Some JNull) f"

lemma nonnull_cols_id: "(\<forall>k. fmlookup f k \<noteq> Some JNull) \<Longrightarrow> nonnull_cols f = f"
  unfolding nonnull_cols_def by (rule fmap_ext) simp

text \<open>A loop that touches each of its keys once is described by one lookup.\<close>

lemma foldl_lookup:
  fixes look :: "'acc \<Rightarrow> 'k \<Rightarrow> 'w option"
  assumes "distinct (map fst xs)"
    and upd: "\<And>acc k v. (k, v) \<in> set xs \<Longrightarrow>
      look (step acc (k, v)) = (\<lambda>j. if j = k then g k v (look acc k) else look acc j)"
  shows "look (foldl step acc xs) j =
    (case map_of xs j of None \<Rightarrow> look acc j | Some v \<Rightarrow> g j v (look acc j))"
  using assms
proof (induction xs arbitrary: acc)
  case (Cons x xs)
  obtain k v where x: "x = (k, v)" by (cases x)
  have k: "map_of xs k = None" using Cons.prems(1) x by (auto simp: map_of_eq_None_iff)
  have "look (foldl step (step acc x) xs) j =
      (case map_of xs j of None \<Rightarrow> look (step acc x) j | Some v \<Rightarrow> g j v (look (step acc x) j))"
    using Cons.prems by (intro Cons.IH) auto
  moreover have "look (step acc x) = (\<lambda>j. if j = k then g k v (look acc k) else look acc j)"
    using Cons.prems(2)[of k v acc] x by simp
  ultimately show ?case using x k by (cases "j = k") (simp_all split: option.split)
qed simp

lemma merge_set_lookup:
  "fmlookup (merge_set obj change) j =
     (case fmlookup change j of None \<Rightarrow> fmlookup obj j | Some v \<Rightarrow> if v = JNull then None else Some v)"
  unfolding merge_set_def
  by (subst foldl_lookup[where look = fmlookup and g = "\<lambda>k v old. if v = JNull then None else Some v"])
     (auto simp: keys_toJS fun_eq_iff split: option.splits)

lemma map_merge_patch_lookup:
  "fmlookup (map_merge_patch obj1 obj2) j =
     (case fmlookup obj1 j of
        None \<Rightarrow> fmlookup obj2 j
      | Some val1 \<Rightarrow>
          (if val1 = JNull \<and> fmlookup obj2 j \<noteq> None then fmlookup obj2 j
           else if fmlookup obj2 j = Some val1 then None
           else if is_nil (fmlookup obj2 j) then Some JNull
           else fmlookup obj2 j))"
proof -
  let ?one = "foldl (\<lambda>change (key, val1).
            (let val2 = fmlookup obj2 key in
             if Some val1 = val2 then change
             else if is_nil val2 then fmupd key JNull change
             else fmupd key (the val2) change)) fmempty (toJS obj1)"
  have one: "fmlookup ?one j = (case fmlookup obj1 j of None \<Rightarrow> None | Some val1 \<Rightarrow>
      (if fmlookup obj2 j = Some val1 then None else if is_nil (fmlookup obj2 j) then Some JNull else fmlookup obj2 j))" for j
    by (subst foldl_lookup[where look = fmlookup and g = "\<lambda>k val1 old. if fmlookup obj2 k = Some val1 then old
        else if is_nil (fmlookup obj2 k) then Some JNull else fmlookup obj2 k"])
       (auto simp: keys_toJS fun_eq_iff Let_def is_nil_def split: option.splits)
  show ?thesis
    unfolding map_merge_patch_def
    by (subst foldl_lookup[where look = fmlookup and g = "\<lambda>k val2 old. if \<not> is_nil (fmlookup obj1 k) then old else Some val2"])
       (auto simp: keys_toJS fun_eq_iff one is_nil_def split: option.splits)
qed

text \<open>The comment at \<open>map_merge_patch\<close>: the merge of the change gives the second object. It holds
  when no value of the second object is null.\<close>

lemma merge_set_map_merge_patch:
  assumes "\<And>k. fmlookup obj2 k \<noteq> Some JNull"
  shows "merge_set obj1 (map_merge_patch obj1 obj2) = obj2"
  by (rule fmap_ext)
     (use assms in \<open>auto simp: merge_set_lookup map_merge_patch_lookup is_nil_def split: option.splits\<close>)

section \<open>Patches of strings\<close>

text \<open>\<^verbatim>\<open>packages/util/dmp.ts\<close>. A patch object of diff-match-patch; a field that is missing is \<open>undefined\<close>.\<close>

record patch_object =
  po_diffs :: "json option"
  po_start1 :: "json option"
  po_start2 :: "json option"
  po_length1 :: "json option"
  po_length2 :: "json option"

definition compress_patch :: "patch_object list \<Rightarrow> json list" where
  "compress_patch = map (\<lambda>p. JArr (map (\<lambda>x. case x of None \<Rightarrow> JNull | Some j \<Rightarrow> j)
     [po_diffs p, po_start1 p, po_start2 p, po_length1 p, po_length2 p]))"

text \<open>\<open>p[i]\<close>; reading a property of null throws an error.\<close>

fun at_index :: "json \<Rightarrow> nat \<Rightarrow> json option" where
  "at_index (JArr xs) i = (if i < length xs then Some (xs ! i) else None)"
| "at_index (JStr s) i = (if i < length s then Some (JStr [s ! i]) else None)"
| "at_index (JObj m) i = fmlookup m (decimal i)"
| "at_index x i = None"

definition decompress_patch :: "json list \<Rightarrow> patch_object list option" where
  "decompress_patch patch =
     (if JNull \<in> set patch then None
      else Some (map (\<lambda>p. \<lparr>po_diffs = at_index p 0, po_start1 = at_index p 1, po_start2 = at_index p 2,
        po_length1 = at_index p 3, po_length2 = at_index p 4\<rparr>) patch))"

definition make_patch :: "(string \<Rightarrow> string \<Rightarrow> patch_object list) \<Rightarrow> string \<Rightarrow> string \<Rightarrow> json list" where
  "make_patch patch_make s0 s1 = compress_patch (patch_make s0 s1)"

text \<open>\<open>patch_apply\<close> of the package gives \<open>None\<close> when it throws an error.\<close>

definition apply_patch ::
    "(patch_object list \<Rightarrow> 'a \<Rightarrow> ('a \<times> bool list) option) \<Rightarrow> json list \<Rightarrow> 'a \<Rightarrow> 'a \<times> bool" where
  "apply_patch patch_apply patch s =
     (case Option.bind (decompress_patch patch) (\<lambda>ps. patch_apply ps s) of
        None \<Rightarrow> (s, False)
      | Some (x0, x1) \<Rightarrow> (x0, False \<notin> set x1))"

definition full_object :: "patch_object \<Rightarrow> bool" where
  "full_object p \<longleftrightarrow> po_diffs p \<noteq> None \<and> po_start1 p \<noteq> None \<and> po_start2 p \<noteq> None \<and>
     po_length1 p \<noteq> None \<and> po_length2 p \<noteq> None"

lemma decompress_compress: "(\<forall>p \<in> set ps. full_object p) \<Longrightarrow> decompress_patch (compress_patch ps) = Some ps"
proof -
  assume full: "\<forall>p \<in> set ps. full_object p"
  have "JNull \<notin> set (compress_patch ps)" by (auto simp: compress_patch_def)
  moreover have "map (\<lambda>p. \<lparr>po_diffs = at_index p 0, po_start1 = at_index p 1, po_start2 = at_index p 2,
        po_length1 = at_index p 3, po_length2 = at_index p 4\<rparr>) (compress_patch ps) = ps"
    unfolding compress_patch_def map_map by (rule map_idI) (use full in \<open>auto simp: full_object_def\<close>)
  ultimately show ?thesis by (simp add: decompress_patch_def)
qed

text \<open>What the code relies on: the patch from one string to another, applied to the first, gives the second.\<close>

definition dmp_laws ::
    "(string \<Rightarrow> string \<Rightarrow> patch_object list) \<Rightarrow> (patch_object list \<Rightarrow> 'a \<Rightarrow> ('a \<times> bool list) option) \<Rightarrow> (string \<Rightarrow> 'a) \<Rightarrow> bool" where
  "dmp_laws patch_make patch_apply text \<longleftrightarrow>
     (\<forall>s0 s1. (\<forall>p \<in> set (patch_make s0 s1). full_object p) \<and>
       (\<exists>oks. patch_apply (patch_make s0 s1) (text s0) = Some (text s1, oks)))"

lemma apply_make_patch:
  assumes "dmp_laws patch_make patch_apply text"
  shows "fst (apply_patch patch_apply (make_patch patch_make s0 s1) (text s0)) = text s1"
proof -
  have "\<exists>oks. patch_apply (patch_make s0 s1) (text s0) = Some (text s1, oks)"
    and full: "\<forall>p \<in> set (patch_make s0 s1). full_object p" using assms unfolding dmp_laws_def by blast+
  then obtain oks where "patch_apply (patch_make s0 s1) (text s0) = Some (text s1, oks)" by blast
  with full  show ?thesis by (simp add: make_patch_def apply_patch_def decompress_compress)
qed

section \<open>A stringification\<close>

text \<open>
  Some injective function from JSON values to strings, with which the theorems that rely on the
  package json-stable-stringify are evaluated: every value is a tag followed by its parts, with
  lengths in front, so that no encoding is a prefix of another.
\<close>

definition unary :: "nat \<Rightarrow> string" where
  "unary n = replicate n (CHR ''1'') @ ''.''"

definition enc_str :: "string \<Rightarrow> string" where
  "enc_str s = unary (length s) @ s"

definition enc_int :: "int \<Rightarrow> string" where
  "enc_int i = (if i < 0 then ''-'' else ''+'') @ unary (nat \<bar>i\<bar>)"

primrec enc :: "json \<Rightarrow> string" where
  "enc JNull = ''n''"
| "enc (JBool b) = (if b then ''t'' else ''f'')"
| "enc (JNum q) = CHR ''#'' # enc_int (fst (quotient_of q)) @ enc_int (snd (quotient_of q))"
| "enc (JStr s) = CHR 0x22 # enc_str s"
| "enc (JArr xs) = CHR ''['' # unary (length xs) @ concat (map enc xs)"
| "enc (JObj m) = (let kvs = sorted_list_of_fmap (fmmap enc m) in
     CHR ''{'' # unary (length kvs) @ concat (map (\<lambda>(k, s). enc_str k @ s) kvs))"

lemma unary_prefix: "unary n @ r = unary m @ r' \<Longrightarrow> n = m \<and> r = r'"
  by (induction n arbitrary: m) (case_tac m; auto simp: unary_def)+

lemma enc_str_prefix: "enc_str s @ r = enc_str t @ r' \<Longrightarrow> s = t \<and> r = r'"
  using unary_prefix[of "length s" "s @ r" "length t" "t @ r'"] by (auto simp: enc_str_def)

lemma enc_int_prefix: "enc_int i @ r = enc_int j @ r' \<Longrightarrow> i = j \<and> r = r'"
  using unary_prefix[of "nat \<bar>i\<bar>" r "nat \<bar>j\<bar>" r'] by (auto simp: enc_int_def split: if_splits)

lemma concat_prefix:
  assumes "\<And>x y r r'. x \<in> set xs \<Longrightarrow> f x @ r = f y @ r' \<Longrightarrow> x = y \<and> r = r'"
    and "length xs = length ys" "concat (map f xs) @ r = concat (map f ys) @ r'"
  shows "xs = ys \<and> r = r'"
  using assms(2,1,3)
proof (induction xs ys rule: list_induct2)
  case (Cons x xs y ys)
  have "f x @ (concat (map f xs) @ r) = f y @ (concat (map f ys) @ r')" using Cons.prems(2) by simp
  then have "x = y \<and> concat (map f xs) @ r = concat (map f ys) @ r'"
    by (rule Cons.prems(1)[rotated]) simp
  then show ?case using Cons.IH Cons.prems(1) by (metis list.set_intros(2))
qed simp

lemma sorted_list_fmmap: "sorted_list_of_fmap (fmmap f m) = map (\<lambda>(k, v). (k, f v)) (toJS m)"
proof -
  have "fmlookup m k \<noteq> None" if "k \<in> set (sorted_list_of_fset (fmdom m))" for k
    using that by (auto simp: sorted_list_of_fset.rep_eq fmlookup_dom_iff)
  then show ?thesis by (auto simp: toJS_def sorted_list_of_fmap_def)
qed

lemma enc_prefix: "enc x @ r = enc y @ r' \<Longrightarrow> x = y \<and> r = r'"
proof (induction x arbitrary: y r r')
  case JNull then show ?case by (cases y) (auto simp: Let_def split: if_splits)
next
  case (JBool b) then show ?case by (cases y) (auto simp: Let_def split: if_splits)
next
  case (JNum q)
  then obtain p where y: "y = JNum p" by (cases y) (auto simp: Let_def split: if_splits)
  have "fst (quotient_of q) = fst (quotient_of p) \<and>
      enc_int (snd (quotient_of q)) @ r = enc_int (snd (quotient_of p)) @ r'"
    using JNum y by (intro enc_int_prefix) simp
  then have "quotient_of q = quotient_of p \<and> r = r'" using enc_int_prefix by (metis prod.expand)
  then show ?case using y by (metis quotient_of_inject)
next
  case (JStr s)
  then obtain t where y: "y = JStr t" by (cases y) (auto simp: Let_def split: if_splits)
  have "s = t \<and> r = r'" using JStr y by (intro enc_str_prefix) simp
  then show ?case using y by simp
next
  case (JArr xs)
  then obtain ys where y: "y = JArr ys" by (cases y) (auto simp: Let_def split: if_splits)
  have l: "length xs = length ys \<and> concat (map enc xs) @ r = concat (map enc ys) @ r'"
    using JArr.prems y by (intro unary_prefix) simp
  have "xs = ys \<and> r = r'" using JArr.IH l by (intro concat_prefix[where f = enc]) auto
  then show ?case using y by simp
next
  case (JObj m)
  then obtain m' where y: "y = JObj m'" by (cases y) (auto simp: Let_def split: if_splits)
  let ?f = "\<lambda>(k, v). enc_str k @ enc v"
  have enc: "enc (JObj m) = CHR ''{'' # unary (length (toJS m)) @ concat (map ?f (toJS m))" for m
    by (simp add: Let_def sorted_list_fmmap case_prod_beta' comp_def)
  have l: "length (toJS m) = length (toJS m') \<and> concat (map ?f (toJS m)) @ r = concat (map ?f (toJS m')) @ r'"
    using JObj.prems y unfolding y enc by (intro unary_prefix) simp
  have "toJS m = toJS m' \<and> r = r'"
  proof (rule concat_prefix[where f = ?f])
    fix x z s s'
    assume x: "x \<in> set (toJS m)" and eq: "?f x @ s = ?f z @ s'"
    obtain k v k' v' where kv: "x = (k, v)" "z = (k', v')" by fastforce
    have v: "v \<in> fmran' m" using x kv by (auto simp: in_toJS fmran'I)
    have "k = k' \<and> enc v @ s = enc v' @ s'" using eq kv by (intro enc_str_prefix) simp
    then show "x = z \<and> s = s'" using JObj.IH[OF v] kv by blast
  qed (use l in auto)
  then show ?case using y by (metis fmlookup_of_toJS)
qed

lemma inj_enc: "inj enc"
  using enc_prefix[where r = "[]" and r' = "[]"] by (auto simp: inj_def)

end
