(* ===== verification/Dko.thy ===== *)
theory Dko
  imports DkvClient Json
begin

text \<open>
  The eventually consistent key:object store, the class \<open>DKO\<close> of \<^verbatim>\<open>packages/conat/sync/dko.ts\<close>, on top
  of a key:value store (Dkv): under the key of an object is the list of its fields, under a path, made of
  the key and a field, the value of the field. \<open>JSON.stringify\<close>, \<open>JSON.parse\<close> and \<open>String\<close> are
  parameters. The stored list of fields is read as the code does: an array, the characters of a string, and an exception
  for other values. The Proxy, through which \<open>t.key\<close> is \<open>t.get(key)\<close>, is left out.
\<close>

section \<open>State\<close>

record dko_env =
  js_stringify :: "json \<Rightarrow> string"
  js_parse :: "string \<Rightarrow> json option"
  js_string :: "json \<Rightarrow> string"

datatype dko_event =
    Dko_change string "json option" "json slot option"
  | Dko_reject string "json option" "json slot option"

datatype dko_error = Dko_closed | Dko_not_object | Dko_not_iterable

record 'h dko =
  inner :: "('h, json) dkv option"
  dko_events :: "dko_event list"

text \<open>What is set: \<open>undefined\<close> or \<open>null\<close>, an object, in which a value can be undefined, or something else.\<close>

datatype dko_value = Dko_nil | Dko_object "(string, json option) obj" | Dko_other

definition new_dko :: "('h, json) dkv \<Rightarrow> 'h dko" where
  "new_dko d = \<lparr>inner = Some d, dko_events = []\<rparr>"

section \<open>Paths\<close>

definition toPath :: "dko_env \<Rightarrow> string \<Rightarrow> json \<Rightarrow> string" where
  "toPath env k f = js_stringify env (JArr [JStr k, f])"

definition starts_ends :: "char \<Rightarrow> char \<Rightarrow> string \<Rightarrow> bool" where
  "starts_ends a b s \<longleftrightarrow> s \<noteq> [] \<and> hd s = a \<and> last s = b"

definition fromPath :: "dko_env \<Rightarrow> string \<Rightarrow> string \<times> json option" where
  "fromPath env path =
     (if starts_ends (CHR ''['') (CHR '']'') path
      then (case js_parse env path of
              Some (JArr [k, f]) \<Rightarrow> (js_string env k, Some f)
            | _ \<Rightarrow> (path, None))
      else (path, None))"

text \<open>\<open>!field\<close>.\<close>

fun falsy :: "json option \<Rightarrow> bool" where
  "falsy None = True"
| "falsy (Some JNull) = True"
| "falsy (Some (JBool b)) = (\<not> b)"
| "falsy (Some (JNum q)) = (q = 0)"
| "falsy (Some (JStr s)) = (s = [])"
| "falsy (Some v) = False"

text \<open>\<open>for (const field of fields)\<close>.\<close>

fun iterate :: "json \<Rightarrow> json list option" where
  "iterate (JArr xs) = Some xs"
| "iterate (JStr s) = Some (map (\<lambda>c. JStr [c]) s)"
| "iterate v = None"

section \<open>Events\<close>

fun dko_on :: "dko_env \<Rightarrow> json dkv_event \<Rightarrow> 'h dko \<Rightarrow> 'h dko" where
  "dko_on env (Ev_change path value prev) s =
     (let (k, f) = fromPath env path in
      if falsy f then s\<lparr>dko_events := dko_events s @ [Dko_change k None None]\<rparr>
      else if value = None \<and> (case inner s of None \<Rightarrow> True | Some d \<Rightarrow>
          (case dkv_get k d of Inl _ \<Rightarrow> True | Inr v \<Rightarrow> is_nil v)) then s
      else s\<lparr>dko_events := dko_events s @ [Dko_change k f value]\<rparr>)"
| "dko_on env (Ev_reject path value) s =
     (let (k, f) = fromPath env path in
      s\<lparr>dko_events := dko_events s @ [if falsy f then Dko_reject k None None else Dko_reject k f value]\<rparr>)"
| "dko_on env e s = s"

section \<open>Reading\<close>

definition dkv_value :: "string \<Rightarrow> ('h, json) dkv \<Rightarrow> json option" where
  "dkv_value k d = (case dkv_get k d of Inl _ \<Rightarrow> None | Inr v \<Rightarrow> v)"

definition dko_get :: "dko_env \<Rightarrow> string \<Rightarrow> 'h dko \<Rightarrow> dko_error + (string, json option) obj option" where
  "dko_get env k s =
     (case inner s of
        None \<Rightarrow> Inl Dko_closed
      | Some d \<Rightarrow>
          (case dkv_get k d of
             Inl _ \<Rightarrow> Inl Dko_closed
           | Inr fs \<Rightarrow>
               if is_nil fs then Inr None
               else Inr (map_option (foldl (\<lambda>x f. obj_set (js_string env f) (dkv_value (toPath env k f) d) x) []) (iterate (the fs)))))"

definition dko_has :: "string \<Rightarrow> 'h dko \<Rightarrow> dko_error + bool" where
  "dko_has k s =
     (case inner s of
        None \<Rightarrow> Inl Dko_closed
      | Some d \<Rightarrow> (case dkv_has k d of Inl _ \<Rightarrow> Inl Dko_closed | Inr b \<Rightarrow> Inr b))"

definition add_field :: "dko_env \<Rightarrow> (string, (string, json) obj) obj \<Rightarrow> string \<times> json \<Rightarrow> (string, (string, json) obj) obj" where
  "add_field env result x =
     (let (k, f) = fromPath env (fst x) in
      case f of
        None \<Rightarrow> result
      | Some g \<Rightarrow>
          if falsy f then result
          else (case obj_get result k of
                  None \<Rightarrow> obj_set k [(js_string env g, snd x)] result
                | Some m \<Rightarrow> obj_set k (obj_set (js_string env g) (snd x) m) result))"

definition dko_getAll :: "dko_env \<Rightarrow> 'h dko \<Rightarrow> dko_error + (string, (string, json) obj) obj" where
  "dko_getAll env s =
     (case inner s of
        None \<Rightarrow> Inl Dko_closed
      | Some d \<Rightarrow> (case dkv_getAll d of Inl _ \<Rightarrow> Inl Dko_closed | Inr xs \<Rightarrow> Inr (foldl (add_field env) [] xs)))"

definition dko_hasUnsavedChanges :: "'h dko \<Rightarrow> bool" where
  "dko_hasUnsavedChanges s = (case inner s of None \<Rightarrow> False | Some d \<Rightarrow> hasUnsavedChanges d)"

definition dko_unsavedChanges :: "dko_env \<Rightarrow> 'h dko \<Rightarrow> (string \<times> json) list" where
  "dko_unsavedChanges env s =
     (case inner s of
        None \<Rightarrow> []
      | Some d \<Rightarrow> List.map_filter (\<lambda>path. let (k, f) = fromPath env path in
            if falsy f then None else map_option (\<lambda>g. (k, g)) f) (unsavedChanges d))"

section \<open>Writing\<close>

definition dko_delete :: "dko_env \<Rightarrow> string \<Rightarrow> 'h dko \<Rightarrow> dko_error option \<times> 'h dko" where
  "dko_delete env k s =
     (case inner s of
        None \<Rightarrow> (Some Dko_closed, s)
      | Some d \<Rightarrow>
          (case dkv_get k d of
             Inl _ \<Rightarrow> (Some Dko_closed, s)
           | Inr fs \<Rightarrow>
               if is_nil fs then (None, s)
               else (let d1 = dkv_delete k d in
                     case iterate (the fs) of
                       None \<Rightarrow> (Some Dko_not_iterable, s\<lparr>inner := Some d1\<rparr>)
                     | Some gs \<Rightarrow> (None, s\<lparr>inner := Some (fold (\<lambda>f. dkv_delete (toPath env k f)) gs d1)\<rparr>))))"

definition dko_clear :: "'h dko \<Rightarrow> 'h dko" where
  "dko_clear s =
     (case inner s of
        None \<Rightarrow> s
      | Some d \<Rightarrow> (case dkv_clear d of Inl _ \<Rightarrow> s | Inr d' \<Rightarrow> s\<lparr>inner := Some d'\<rparr>))"

text \<open>Only what differs is set.\<close>

definition set_if_new :: "string \<Rightarrow> json option \<Rightarrow> ('h, json) dkv \<Rightarrow> ('h, json) dkv" where
  "set_if_new k v d = (if dkv_value k d = v then d else dkv_set k v None d)"

definition set_fields_of :: "dko_env \<Rightarrow> string \<Rightarrow> (string, json option) obj \<Rightarrow> ('h, json) dkv \<Rightarrow> ('h, json) dkv" where
  "set_fields_of env k ob d = fold (\<lambda>(f, v). set_if_new (toPath env k (JStr f)) v) ob d"

fun dko_set :: "dko_env \<Rightarrow> string \<Rightarrow> dko_value \<Rightarrow> 'h dko \<Rightarrow> dko_error option \<times> 'h dko" where
  "dko_set env k Dko_nil s = (case inner s of None \<Rightarrow> (Some Dko_closed, s) | Some d \<Rightarrow> dko_delete env k s)"
| "dko_set env k Dko_other s = (case inner s of None \<Rightarrow> (Some Dko_closed, s) | Some d \<Rightarrow> (Some Dko_not_object, s))"
| "dko_set env k (Dko_object ob) s =
     (case inner s of
        None \<Rightarrow> (Some Dko_closed, s)
      | Some d \<Rightarrow>
          if dkv_isClosed d then (Some Dko_closed, s)
          else (None, s\<lparr>inner := Some (set_fields_of env k ob (set_if_new k (Some (JArr (map JStr (keys ob)))) d))\<rparr>))"

definition dko_close :: "'h dko \<Rightarrow> 'h dko" where
  "dko_close s = s\<lparr>inner := None\<rparr>"

section \<open>Laws\<close>

text \<open>JSON reads back what it wrote, an array is written in brackets, and a string is its own string.\<close>

definition dko_laws :: "dko_env \<Rightarrow> bool" where
  "dko_laws env \<longleftrightarrow> (\<forall>x. js_parse env (js_stringify env x) = Some x) \<and>
     (\<forall>xs. starts_ends (CHR ''['') (CHR '']'') (js_stringify env (JArr xs))) \<and> (\<forall>s. js_string env (JStr s) = s)"

text \<open>A key that does not look like a path.\<close>

definition plain_key :: "dko_env \<Rightarrow> string \<Rightarrow> bool" where
  "plain_key env k \<longleftrightarrow> fromPath env k = (k, None)"

lemma from_to: "dko_laws env \<Longrightarrow> fromPath env (toPath env k f) = (k, Some f)"
  by (simp add: dko_laws_def fromPath_def toPath_def)

lemma path_eq: "dko_laws env \<Longrightarrow> toPath env k f = toPath env k' f' \<longleftrightarrow> k = k' \<and> f = f'"
  by (metis from_to option.inject prod.inject)

lemma path_key: "dko_laws env \<Longrightarrow> plain_key env k \<Longrightarrow> toPath env k' f \<noteq> k"
  by (metis from_to option.distinct(1) plain_key_def prod.inject)

section \<open>The store underneath\<close>

lemma value_set: "stream d \<noteq> None \<Longrightarrow> dkv_value k' (dkv_set k v opts d) = (if k' = k then v else dkv_value k' d)"
  by (auto simp: dkv_value_def dkv_get_def update_conv' toValue_def split: option.splits)

lemma value_if_new: "stream d \<noteq> None \<Longrightarrow> dkv_value k' (set_if_new k v d) = (if k' = k then v else dkv_value k' d)"
  by (simp add: set_if_new_def value_set)

lemma stream_if_new [simp]: "stream (set_if_new k v d) = stream d"
  by (simp add: set_if_new_def)

lemma value_delete: "stream d \<noteq> None \<Longrightarrow> dkv_value k' (dkv_delete k d) = (if k' = k then None else dkv_value k' d)"
  by (auto simp: dkv_value_def dkv_get_def dkv_delete_def delete_local_def autosave_def note_changed_def update_conv' split: option.splits)

lemma stream_delete [simp]: "stream (dkv_delete k d) = stream d"
  by (simp add: dkv_delete_def delete_local_def autosave_def note_changed_def)

lemma get_is_value: "stream d \<noteq> None \<Longrightarrow> dkv_get k d = Inr (dkv_value k d)"
  by (auto simp: dkv_value_def dkv_get_def split: option.split)

lemma stream_fields [simp]: "stream (set_fields_of env k ob d) = stream d"
  by (induction ob arbitrary: d) (auto simp: set_fields_of_def)

lemma value_fields:
  assumes "dko_laws env" "stream d \<noteq> None" "distinct (keys ob)"
  shows "dkv_value p (set_fields_of env k ob d) =
    (if \<exists>f \<in> set (keys ob). p = toPath env k (JStr f) then the (obj_get ob (THE f. p = toPath env k (JStr f))) else dkv_value p d)"
  using assms(2,3)
proof (induction ob arbitrary: d)
  case (Cons fv ob)
  obtain f v where fv: "fv = (f, v)" by (cases fv)
  have step: "set_fields_of env k (fv # ob) d = set_fields_of env k ob (set_if_new (toPath env k (JStr f)) v d)"
    by (simp add: set_fields_of_def fv)
  have the: "(THE g. toPath env k (JStr h) = toPath env k (JStr g)) = h" for h by (rule the_equality) (auto simp: path_eq[OF assms(1)])
  have "dkv_value p (set_fields_of env k ob (set_if_new (toPath env k (JStr f)) v d)) =
      (if \<exists>f \<in> set (keys ob). p = toPath env k (JStr f) then the (obj_get ob (THE f. p = toPath env k (JStr f)))
       else dkv_value p (set_if_new (toPath env k (JStr f)) v d))"
    by (rule Cons.IH) (use Cons.prems fv in simp_all)
  moreover have "f \<notin> set (keys ob)" using Cons.prems(2) fv by simp
  ultimately show ?case unfolding step using Cons.prems(1) fv by (auto simp: value_if_new the path_eq[OF assms(1)] image_iff)
qed (simp add: set_fields_of_def)

lemma value_fields_at:
  assumes "dko_laws env" "stream d \<noteq> None" "distinct (keys ob)"
  shows "obj_get ob f = Some v \<Longrightarrow> dkv_value (toPath env k (JStr f)) (set_fields_of env k ob d) = v"
    "(\<forall>f. p \<noteq> toPath env k (JStr f)) \<Longrightarrow> dkv_value p (set_fields_of env k ob d) = dkv_value p d"
proof -
  have the: "(THE g. toPath env k (JStr f) = toPath env k (JStr g)) = f" by (rule the_equality) (auto simp: path_eq[OF assms(1)])
  show "obj_get ob f = Some v \<Longrightarrow> dkv_value (toPath env k (JStr f)) (set_fields_of env k ob d) = v"
    unfolding value_fields[OF assms] the by (auto dest: map_of_SomeD simp: path_eq[OF assms(1)] rev_image_eqI)
  show "(\<forall>f. p \<noteq> toPath env k (JStr f)) \<Longrightarrow> dkv_value p (set_fields_of env k ob d) = dkv_value p d"
    unfolding value_fields[OF assms] by auto
qed

section \<open>Properties\<close>

lemma obj_set_new: "k \<notin> set (keys xs) \<Longrightarrow> obj_set k v xs = xs @ [(k, v)]"
  by (induction xs) auto

lemma collect_fields:
  assumes "dko_laws env"
  shows "distinct (keys acc @ keys ob) \<Longrightarrow> (\<And>f v. (f, v) \<in> set ob \<Longrightarrow> g (JStr f) = v) \<Longrightarrow>
    foldl (\<lambda>x f. obj_set (js_string env f) (g f) x) acc (map JStr (keys ob)) = acc @ ob"
proof (induction ob arbitrary: acc)
  case (Cons fv ob)
  obtain f v where fv: "fv = (f, v)" by (cases fv)
  have "obj_set (js_string env (JStr f)) (g (JStr f)) acc = acc @ [(f, v)]"
    using assms Cons.prems fv by (simp add: dko_laws_def obj_set_new)
  then show ?case using Cons.IH[of "acc @ [(f, v)]"] Cons.prems fv by simp
qed simp

lemma get_same:
  assumes "inner s = Some d" "inner s' = Some d'" "stream d \<noteq> None" "stream d' \<noteq> None"
    and "dkv_value k d' = dkv_value k d" "\<And>f. dkv_value (toPath env k f) d' = dkv_value (toPath env k f) d"
  shows "dko_get env k s' = dko_get env k s"
  using assms by (simp add: dko_get_def get_is_value)

lemma value_deletes:
  "stream d \<noteq> None \<Longrightarrow> dkv_value p (fold (\<lambda>f. dkv_delete (g f)) fs d) = (if p \<in> g ` set fs then None else dkv_value p d)"
  by (induction fs arbitrary: d) (auto simp: value_delete)

lemma stream_deletes [simp]: "stream (fold (\<lambda>f. dkv_delete (g f)) fs d) = stream d"
  by (induction fs arbitrary: d) auto

text \<open>C22: An object that is set in an open store is read back, with its fields in order, and setting it changes no
  other object; after \<open>delete\<close> it is gone, and no other object has changed. This holds for keys that do not
  look like a path, and objects that name no field twice; JSON reads back what it wrote.\<close>

theorem object_is_read_back:
  assumes laws: "dko_laws env" and k: "plain_key env k" and s: "inner s = Some d" "stream d \<noteq> None" and ob: "distinct (keys ob)"
  shows "\<exists>s1 s2. dko_set env k (Dko_object ob) s = (None, s1) \<and> dko_get env k s1 = Inr (Some ob) \<and>
    dko_delete env k s1 = (None, s2) \<and> dko_get env k s2 = Inr None \<and>
    (\<forall>k'. k' \<noteq> k \<longrightarrow> plain_key env k' \<longrightarrow> dko_get env k' s1 = dko_get env k' s \<and> dko_get env k' s2 = dko_get env k' s)"
proof -
  let ?fs = "JArr (map JStr (keys ob))"
  define d0 where "d0 = set_if_new k (Some ?fs) d"
  define d1 where "d1 = set_fields_of env k ob d0"
  define d2 where "d2 = fold (\<lambda>f. dkv_delete (toPath env k f)) (map JStr (keys ob)) (dkv_delete k d1)"
  let ?s1 = "s\<lparr>inner := Some d1\<rparr>" and ?s2 = "s\<lparr>inner := Some d2\<rparr>"
  have st: "stream d0 \<noteq> None" "stream d1 \<noteq> None" "stream d2 \<noteq> None" "stream (dkv_delete k d1) \<noteq> None"
    using s(2) by (simp_all add: d0_def d1_def d2_def)
  note fields = value_fields_at[OF laws st(1) ob, where k = k, folded d1_def]
  have key: "dkv_value k d1 = Some ?fs" using fields(2)[of k] path_key[OF laws k, symmetric] s(2) by (auto simp: d0_def value_if_new)
  have val: "dkv_value (toPath env k (JStr f)) d1 = v" if "(f, v) \<in> set ob" for f v using fields(1) that ob by simp
  have set1: "dko_set env k (Dko_object ob) s = (None, ?s1)" using s by (simp add: dkv_isClosed_def d1_def d0_def)
  have get1: "dko_get env k ?s1 = Inr (Some ob)"
    using collect_fields[OF laws, of "[]" ob "\<lambda>f. dkv_value (toPath env k f) d1"] val ob key st(2)
    by (simp add: dko_get_def get_is_value is_nil_def)
  have del: "dko_delete env k ?s1 = (None, ?s2)" using key st(2) by (simp add: dko_delete_def get_is_value is_nil_def Let_def d2_def)
  have "dkv_value k d2 = None" unfolding d2_def value_deletes[OF st(4)] by (simp add: value_delete[OF st(2)])
  then have get2: "dko_get env k ?s2 = Inr None" using st(3) by (simp add: dko_get_def get_is_value is_nil_def)
  have "dko_get env k' ?s1 = dko_get env k' s \<and> dko_get env k' ?s2 = dko_get env k' s" if k': "k' \<noteq> k" "plain_key env k'" for k'
  proof -
    have ne: "toPath env k f \<noteq> k'" "toPath env k' f \<noteq> k" "toPath env k' f \<noteq> toPath env k g" for f g
      using path_key[OF laws k'(2)] path_key[OF laws k] path_eq[OF laws] k'(1) by auto
    have v1: "dkv_value p d1 = dkv_value p d" if "p = k' \<or> (\<exists>f. p = toPath env k' f)" for p
    proof -
      have "\<forall>f. p \<noteq> toPath env k (JStr f)" "p \<noteq> k" using that ne k'(1) by metis+
      then show ?thesis using fields(2) s(2) by (simp add: d0_def value_if_new)
    qed
    have v2: "dkv_value p d2 = dkv_value p d1" if "p = k' \<or> (\<exists>f. p = toPath env k' f)" for p
    proof -
      have "p \<notin> toPath env k ` set (map JStr (keys ob))" "p \<noteq> k" using that ne k'(1) by (metis imageE)+
      then show ?thesis unfolding d2_def value_deletes[OF st(4)] by (simp add: value_delete[OF st(2)])
    qed
    have "dko_get env k' ?s1 = dko_get env k' s" by (rule get_same[of s d _ d1]) (use s st v1 in auto)
    moreover have "dko_get env k' ?s2 = dko_get env k' s" by (rule get_same[of s d _ d2]) (use s st v1 v2 in auto)
    ultimately show ?thesis ..
  qed
  then show ?thesis using set1 get1 del get2 by blast
qed

text \<open>JSON with the injective encoding \<^const>\<open>enc\<close>.\<close>

definition dko_json :: dko_env where
  "dko_json = \<lparr>js_stringify = (\<lambda>x. CHR ''['' # enc x @ '']''), js_parse = (\<lambda>s. Some (inv enc (butlast (tl s)))),
     js_string = (\<lambda>x. case x of JStr s \<Rightarrow> s | _ \<Rightarrow> '''')\<rparr>"

lemma dko_json_laws: "dko_laws dko_json" "plain_key dko_json ''k''"
  by (simp_all add: dko_laws_def dko_json_def inj_enc starts_ends_def plain_key_def fromPath_def)

lemma object_is_read_back_witness:
  "\<exists>s1 s2. dko_set dko_json ''k'' (Dko_object [(''x'', Some (JNum 1)), (''y'', None)]) (new_dko (new_dkv None True) :: nat dko) = (None, s1) \<and>
    dko_get dko_json ''k'' s1 = Inr (Some [(''x'', Some (JNum 1)), (''y'', None)]) \<and>
    dko_delete dko_json ''k'' s1 = (None, s2) \<and> dko_get dko_json ''k'' s2 = Inr None"
proof -
  let ?ob = "[(''x'', Some (JNum 1)), (''y'', None)]"
  have s: "inner (new_dko (new_dkv None True) :: nat dko) = Some (new_dkv None True)" "stream (new_dkv None True :: (nat, json) dkv) \<noteq> None"
    "distinct (keys ?ob)" by (simp_all add: new_dko_def new_dkv_def)
  obtain s1 s2 where "dko_set dko_json ''k'' (Dko_object ?ob) (new_dko (new_dkv None True) :: nat dko) = (None, s1)"
      "dko_get dko_json ''k'' s1 = Inr (Some ?ob)" "dko_delete dko_json ''k'' s1 = (None, s2)" "dko_get dko_json ''k'' s2 = Inr None"
    using object_is_read_back[OF dko_json_laws s] by (elim exE conjE)
  then show ?thesis by (intro exI conjI)
qed

section \<open>What getAll shows\<close>

lemma objects_ok_delete: "objects_ok d \<Longrightarrow> objects_ok (dkv_delete k d)"
  by (simp add: objects_ok_def dkv_delete_def delete_local_def autosave_def note_changed_def distinct_update)

lemma objects_ok_if_new: "objects_ok d \<Longrightarrow> objects_ok (set_if_new k v d)"
  by (auto simp: set_if_new_def objects_ok_def distinct_update split: option.split)

lemma objects_ok_fields: "objects_ok d \<Longrightarrow> objects_ok (set_fields_of env k ob d)"
  by (induction ob arbitrary: d) (auto simp: set_fields_of_def objects_ok_if_new)

lemma objects_ok_deletes: "objects_ok d \<Longrightarrow> objects_ok (fold (\<lambda>f. dkv_delete (g f)) fs d)"
  by (induction fs arbitrary: d) (simp_all add: objects_ok_delete)

lemma getAll_values:
  assumes "objects_ok d" "stream d \<noteq> None"
  obtains xs where "dkv_getAll d = Inr xs" "\<And>p. obj_get xs p = dkv_value p d"
proof -
  obtain st where st: "stream d = Some st" using assms(2) by auto
  then obtain xs where xs: "dkv_getAll d = Inr xs" "\<And>p. obj_get xs p = visible (locals d) st p"
    using getAll_visible[OF assms(1)] by blast
  have "visible (locals d) st p = dkv_value p d" for p
    using st by (auto simp: visible_def dkv_value_def dkv_get_def split: option.split slot.split)
  then show thesis using that xs by metis
qed

definition shows_field :: "(string, (string, json) obj) obj \<Rightarrow> string \<Rightarrow> string \<Rightarrow> bool" where
  "shows_field r k f \<longleftrightarrow> (\<exists>m. obj_get r k = Some m \<and> f \<in> set (keys m))"

lemma add_field_shows: "shows_field r k f \<Longrightarrow> shows_field (add_field env r x) k f"
  by (auto simp: shows_field_def add_field_def update_conv' set_keys_update split: prod.split option.split)

lemma add_path_shows:
  assumes "dko_laws env" "f \<noteq> ''''"
  shows "shows_field (add_field env r (toPath env k (JStr f), v)) k f"
  using assms(2) assms(1)[unfolded dko_laws_def]
  by (auto simp: shows_field_def add_field_def from_to[OF assms(1)] update_conv' set_keys_update split: option.split)

lemma getAll_shows:
  assumes "dko_laws env" "f \<noteq> ''''" "(toPath env k (JStr f), v) \<in> set xs"
  shows "shows_field (foldl (add_field env) r xs) k f"
proof -
  have keep: "shows_field r k f \<Longrightarrow> shows_field (foldl (add_field env) r xs) k f" for r xs
    by (induction xs arbitrary: r) (simp_all add: add_field_shows)
  show ?thesis using assms(3)
  proof (induction xs arbitrary: r)
    case (Cons x xs)
    then show ?case using keep add_path_shows[OF assms(1,2)] by (cases "x = (toPath env k (JStr f), v)") auto
  qed simp
qed

lemma stored_field_shown:
  assumes "dko_laws env" "f \<noteq> ''''" "inner s = Some d" "objects_ok d" "stream d \<noteq> None"
    and "dkv_value (toPath env k (JStr f)) d \<noteq> None"
  shows "\<exists>r. dko_getAll env s = Inr r \<and> shows_field r k f"
proof -
  obtain xs where xs: "dkv_getAll d = Inr xs" "\<And>p. obj_get xs p = dkv_value p d" by (rule getAll_values[OF assms(4,5)]) blast
  then obtain v where "(toPath env k (JStr f), v) \<in> set xs" using assms(6) by (metis map_of_SomeD not_None_eq)
  from getAll_shows[OF assms(1,2) this] show ?thesis using xs(1) assms(3) by (simp add: dko_getAll_def)
qed

text \<open>What \<open>set\<close> and \<open>delete\<close> leave of an object.\<close>

lemma object_set:
  assumes laws: "dko_laws env" and k: "plain_key env k" and s: "inner s = Some d" "stream d \<noteq> None" "objects_ok d"
    and ob: "distinct (keys ob)"
  obtains d' where "dko_set env k (Dko_object ob) s = (None, s\<lparr>inner := Some d'\<rparr>)" "stream d' \<noteq> None" "objects_ok d'"
    "dkv_value k d' = Some (JArr (map JStr (keys ob)))" "\<And>f v. obj_get ob f = Some v \<Longrightarrow> dkv_value (toPath env k (JStr f)) d' = v"
    "\<And>f. f \<notin> set (keys ob) \<Longrightarrow> dkv_value (toPath env k (JStr f)) d' = dkv_value (toPath env k (JStr f)) d"
proof -
  let ?fs = "JArr (map JStr (keys ob))"
  define d0 where "d0 = set_if_new k (Some ?fs) d"
  have d0: "stream d0 \<noteq> None" "objects_ok d0" using s by (simp_all add: d0_def objects_ok_if_new)
  note fields = value_fields_at[OF laws d0(1) ob, where k = k]
  have "dkv_value k (set_fields_of env k ob d0) = Some ?fs"
    using fields(2)[of k] path_key[OF laws k, symmetric] s(2) by (auto simp: d0_def value_if_new)
  moreover have "dkv_value (toPath env k (JStr f)) (set_fields_of env k ob d0) = dkv_value (toPath env k (JStr f)) d"
    if "f \<notin> set (keys ob)" for f
    using that path_key[OF laws k] s(2) unfolding value_fields[OF laws d0(1) ob]
    by (auto simp: path_eq[OF laws] d0_def value_if_new)
  ultimately show ?thesis
    by (intro that[of "set_fields_of env k ob d0"])
      (use s d0 fields(1) in \<open>simp_all add: dkv_isClosed_def d0_def objects_ok_fields\<close>)
qed

lemma object_delete:
  assumes laws: "dko_laws env" and k: "plain_key env k" and s: "inner s = Some d" "stream d \<noteq> None" "objects_ok d"
    and fs: "dkv_value k d = Some (JArr (map JStr fs))"
  obtains d' where "dko_delete env k s = (None, s\<lparr>inner := Some d'\<rparr>)" "stream d' \<noteq> None" "objects_ok d'" "dkv_value k d' = None"
    "\<And>f. f \<notin> set fs \<Longrightarrow> dkv_value (toPath env k (JStr f)) d' = dkv_value (toPath env k (JStr f)) d"
proof -
  let ?d = "fold (\<lambda>f. dkv_delete (toPath env k f)) (map JStr fs) (dkv_delete k d)"
  have st: "stream (dkv_delete k d) \<noteq> None" using s(2) by simp
  have "dkv_value k ?d = None" unfolding value_deletes[OF st] by (simp add: value_delete[OF s(2)])
  moreover have "dkv_value (toPath env k (JStr f)) ?d = dkv_value (toPath env k (JStr f)) d" if "f \<notin> set fs" for f
    using that path_key[OF laws k] unfolding value_deletes[OF st] by (auto simp: value_delete[OF s(2)] path_eq[OF laws])
  ultimately show ?thesis
    by (intro that[of ?d]) (use s fs in \<open>simp_all add: dko_delete_def get_is_value is_nil_def Let_def objects_ok_delete objects_ok_deletes\<close>)
qed

lemma object_get:
  assumes "dko_laws env" "inner s = Some d" "stream d \<noteq> None" "dkv_value k d = Some (JArr (map JStr (keys ob)))"
    and "distinct (keys ob)" "\<And>f v. obj_get ob f = Some v \<Longrightarrow> dkv_value (toPath env k (JStr f)) d = v"
  shows "dko_get env k s = Inr (Some ob)"
proof -
  have "dkv_value (toPath env k (JStr f)) d = v" if "(f, v) \<in> set ob" for f v using assms(5,6) that by simp
  then show ?thesis using collect_fields[OF assms(1), of "[]" ob "\<lambda>f. dkv_value (toPath env k f) d"] assms(2-5)
    by (simp add: dko_get_def get_is_value is_nil_def)
qed

text \<open>C40: \<open>set\<close> does not remove the values of fields that the object no longer has, and \<open>getAll\<close> reads all values:
  a field that an object was set with and a later \<open>set\<close> leaves out is still shown by \<open>getAll\<close>, which \<open>get\<close> does not, and after
  \<open>delete\<close> it is shown still, although the object is gone. This holds of every open store, key and objects; the key
  does not look like a path, the field is not empty and had a value.\<close>

theorem removed_field_stays:
  assumes laws: "dko_laws env" and k: "plain_key env k" and s: "inner s = Some d" "stream d \<noteq> None" "objects_ok d"
    and ob: "distinct (keys ob)" "obj_get ob f = Some (Some v)" "f \<noteq> ''''"
    and ob': "distinct (keys ob')" "f \<notin> set (keys ob')"
  shows "\<exists>s1 s2 s3 all2 all3. dko_set env k (Dko_object ob) s = (None, s1) \<and> dko_set env k (Dko_object ob') s1 = (None, s2) \<and>
    dko_get env k s2 = Inr (Some ob') \<and> dko_getAll env s2 = Inr all2 \<and> shows_field all2 k f \<and>
    dko_delete env k s2 = (None, s3) \<and> dko_get env k s3 = Inr None \<and> dko_getAll env s3 = Inr all3 \<and> shows_field all3 k f"
proof -
  obtain d1 where d1: "dko_set env k (Dko_object ob) s = (None, s\<lparr>inner := Some d1\<rparr>)" "stream d1 \<noteq> None" "objects_ok d1"
      "\<And>f v. obj_get ob f = Some v \<Longrightarrow> dkv_value (toPath env k (JStr f)) d1 = v"
    by (rule object_set[OF laws k s ob(1)]) blast
  let ?s1 = "s\<lparr>inner := Some d1\<rparr>"
  have s1: "inner ?s1 = Some d1" by simp
  obtain d2 where d2: "dko_set env k (Dko_object ob') ?s1 = (None, ?s1\<lparr>inner := Some d2\<rparr>)" "stream d2 \<noteq> None" "objects_ok d2"
      "dkv_value k d2 = Some (JArr (map JStr (keys ob')))" "\<And>f v. obj_get ob' f = Some v \<Longrightarrow> dkv_value (toPath env k (JStr f)) d2 = v"
      "\<And>f. f \<notin> set (keys ob') \<Longrightarrow> dkv_value (toPath env k (JStr f)) d2 = dkv_value (toPath env k (JStr f)) d1"
    by (rule object_set[OF laws k s1 d1(2,3) ob'(1)]) blast
  let ?s2 = "?s1\<lparr>inner := Some d2\<rparr>"
  have s2: "inner ?s2 = Some d2" by simp
  obtain d3 where d3: "dko_delete env k ?s2 = (None, ?s2\<lparr>inner := Some d3\<rparr>)" "stream d3 \<noteq> None" "objects_ok d3" "dkv_value k d3 = None"
      "\<And>f. f \<notin> set (keys ob') \<Longrightarrow> dkv_value (toPath env k (JStr f)) d3 = dkv_value (toPath env k (JStr f)) d2"
    by (rule object_delete[OF laws k s2 d2(2,3,4)]) blast
  let ?s3 = "?s2\<lparr>inner := Some d3\<rparr>"
  have val: "dkv_value (toPath env k (JStr f)) d2 \<noteq> None" "dkv_value (toPath env k (JStr f)) d3 \<noteq> None"
    using d1(4)[OF ob(2)] d2(6)[OF ob'(2)] d3(5)[OF ob'(2)] by simp_all
  have "dko_get env k ?s2 = Inr (Some ob')" by (rule object_get[OF laws s2 d2(2,4) ob'(1)]) (rule d2(5))
  moreover have "dko_get env k ?s3 = Inr None" using d3(2,4) by (simp add: dko_get_def get_is_value is_nil_def)
  moreover have "inner ?s3 = Some d3" by simp
  ultimately show ?thesis
    using stored_field_shown[OF laws ob(3) s2 d2(3,2) val(1)] stored_field_shown[OF laws ob(3) _ d3(3,2) val(2), of ?s3] d1(1) d2(1) d3(1) by blast
qed

lemma removed_field_stays_witness:
  "\<exists>s1 s2 s3 all2 all3. dko_set dko_json ''k'' (Dko_object [(''x'', Some (JNum 1)), (''y'', Some (JNum 2))])
      (new_dko (new_dkv None True) :: nat dko) = (None, s1) \<and>
    dko_set dko_json ''k'' (Dko_object [(''x'', Some (JNum 1))]) s1 = (None, s2) \<and>
    dko_get dko_json ''k'' s2 = Inr (Some [(''x'', Some (JNum 1))]) \<and> dko_getAll dko_json s2 = Inr all2 \<and> shows_field all2 ''k'' ''y'' \<and>
    dko_delete dko_json ''k'' s2 = (None, s3) \<and> dko_get dko_json ''k'' s3 = Inr None \<and> dko_getAll dko_json s3 = Inr all3 \<and>
    shows_field all3 ''k'' ''y''"
proof -
  let ?d = "new_dkv None True :: (nat, json) dkv"
  have d: "inner (new_dko ?d) = Some ?d" "stream ?d \<noteq> None" "objects_ok ?d"
    by (simp_all add: new_dko_def new_dkv_def objects_ok_def new_cstream_def)
  show ?thesis
    by (rule removed_field_stays[OF dko_json_laws d, where v = "JNum 2"]) simp_all
qed

end
