(* ===== verification/DbDoc.thy ===== *)
theory DbDoc
  imports Json
begin

text \<open>
  The document that is a table of records, \<^verbatim>\<open>packages/sync/editor/db/doc.ts\<close>: notebooks, task lists
  and courses. Records are found by their primary keys through indexes; a deleted record leaves
  \<open>undefined\<close> behind, so that the positions in the indexes stay valid. A \<open>Set\<close> of JavaScript is
  the list of its elements in order of insertion; an \<open>immutable.Set\<close> that is never iterated is a set;
  one that is iterated is the list of its elements, and the parameter \<open>iter\<close> gives the order
  in which immutable.js visits them. \<open>from_db\<close> of the change tracker is never read, and the cache of
  \<open>to_str\<close> belongs to an object that never changes: both are left out.
\<close>

section \<open>State\<close>

record db_env =
  json_stable :: "json \<Rightarrow> string"
  json_parse :: "string \<Rightarrow> json option"
  dmp_make :: "string \<Rightarrow> string \<Rightarrow> patch_object list"
  dmp_apply :: "patch_object list \<Rightarrow> json \<Rightarrow> (json \<times> bool list) option"
  iter :: "json_map list \<Rightarrow> json_map list"

type_synonym js_obj = "(string, json) obj"
type_synonym index = "(string, nat set) fmap"

record dbdoc =
  primary_keys :: "string list"
  string_cols :: "string list"
  records :: "json_map option list"
  everything :: "nat set"
  indexes :: "(string, index) fmap"
  changes :: "json_map set"

datatype db_error = MustBePrimaryKey string | MustBeString string json | RecordNull | NoPrimaryKey

definition to_key :: "db_env \<Rightarrow> json \<Rightarrow> string" where
  "to_key env s = json_stable env s"

text \<open>\<open>this.records.get(n)\<close>.\<close>

definition rec_at :: "json_map option list \<Rightarrow> nat \<Rightarrow> json_map option" where
  "rec_at rs n = (if n < length rs then rs ! n else None)"

definition init_everything :: "json_map option list \<Rightarrow> nat set" where
  "init_everything rs = set (filter (\<lambda>n. rec_at rs n \<noteq> None) [0..<length rs])"

definition index_add :: "string \<Rightarrow> nat \<Rightarrow> index \<Rightarrow> index" where
  "index_add k n index = fmupd k (case fmlookup index k of Some m \<Rightarrow> insert n m | None \<Rightarrow> {n}) index"

definition index_record :: "db_env \<Rightarrow> (string, index) fmap \<Rightarrow> nat \<times> json_map option \<Rightarrow> (string, index) fmap" where
  "index_record env idx = (\<lambda>(n, r). case r of
       None \<Rightarrow> idx
     | Some record \<Rightarrow>
         foldl (\<lambda>idx' (field, index).
             if is_nil (fmlookup record field) then idx'
             else fmupd field (index_add (to_key env (the (fmlookup record field))) n index) idx')
           idx (sorted_list_of_fmap idx))"

definition init_indexes :: "db_env \<Rightarrow> string list \<Rightarrow> json_map option list \<Rightarrow> (string, index) fmap" where
  "init_indexes env pks rs =
     foldl (index_record env) (foldl (\<lambda>idx field. fmupd field fmempty idx) fmempty pks) (enumerate 0 rs)"

definition new_doc :: "db_env \<Rightarrow> string list \<Rightarrow> string list \<Rightarrow> json_map option list \<Rightarrow> db_error + dbdoc" where
  "new_doc env pks cols rs =
     (if pks = [] then Inl NoPrimaryKey
      else Inr \<lparr>primary_keys = pks, string_cols = cols, records = rs, everything = init_everything rs,
        indexes = init_indexes env pks rs, changes = {}\<rparr>)"

definition doc_size :: "dbdoc \<Rightarrow> nat" where
  "doc_size d = card (everything d)"

section \<open>Queries\<close>

definition primary_key_cols :: "dbdoc \<Rightarrow> json_map \<Rightarrow> json_map" where
  "primary_key_cols d f = fmfilter (\<lambda>k. k \<in> set (primary_keys d)) f"

definition primary_key_part :: "dbdoc \<Rightarrow> js_obj \<Rightarrow> js_obj" where
  "primary_key_part d x = filter (\<lambda>(k, _). k \<in> set (primary_keys d)) x"

fun select_loop :: "db_env \<Rightarrow> dbdoc \<Rightarrow> nat \<Rightarrow> js_obj \<Rightarrow> nat set option \<Rightarrow> db_error + nat set" where
  "select_loop env d n [] result = Inr (case result of None \<Rightarrow> everything d | Some s \<Rightarrow> s)"
| "select_loop env d n ((field, value) # rest) result =
     (case fmlookup (indexes d) field of
        None \<Rightarrow> Inl (MustBePrimaryKey field)
      | Some index \<Rightarrow>
          (case fmlookup index (to_key env value) of
             None \<Rightarrow> Inr {}
           | Some v \<Rightarrow>
               if n = 1 then Inr v
               else select_loop env d n rest (Some (case result of None \<Rightarrow> v | Some s \<Rightarrow> s \<inter> v))))"

definition db_select :: "db_env \<Rightarrow> dbdoc \<Rightarrow> js_obj \<Rightarrow> db_error + nat set" where
  "db_select env d wh = select_loop env d (length wh) wh None"

definition db_get :: "db_env \<Rightarrow> dbdoc \<Rightarrow> js_obj \<Rightarrow> db_error + json_map option list" where
  "db_get env d wh = map_sum id (\<lambda>matches.
     map (\<lambda>n. rec_at (records d) n) (filter (\<lambda>n. n \<in> matches) [0..<length (records d)])) (db_select env d wh)"

definition get_one :: "db_env \<Rightarrow> dbdoc \<Rightarrow> js_obj \<Rightarrow> db_error + json_map option" where
  "get_one env d wh = map_sum id (\<lambda>matches.
     if matches = {} then None else rec_at (records d) (Min matches)) (db_select env d wh)"

definition db_parse :: "dbdoc \<Rightarrow> js_obj \<Rightarrow> js_obj \<times> js_obj" where
  "db_parse d obj =
     (filter (\<lambda>(f, v). f \<in> set (primary_keys d) \<and> v \<noteq> JNull) obj,
      filter (\<lambda>(f, v). f \<notin> set (primary_keys d)) obj)"

section \<open>Writes\<close>

definition new_value :: "json option \<Rightarrow> json \<Rightarrow> json" where
  "new_value cur change =
     (case (cur, change) of
        (Some (JObj c), JObj ch) \<Rightarrow> JObj (merge_set c ch)
      | _ \<Rightarrow> change)"

definition patched :: "db_env \<Rightarrow> json list \<Rightarrow> json option \<Rightarrow> json" where
  "patched env patch prev =
     fst (apply_patch (dmp_apply env) patch (case prev of None \<Rightarrow> JStr [] | Some b \<Rightarrow> b))"

fun edit_fields :: "db_env \<Rightarrow> string list \<Rightarrow> json_map \<Rightarrow> js_obj \<Rightarrow> json_map \<Rightarrow> db_error + json_map" where
  "edit_fields env cols prev [] record = Inr record"
| "edit_fields env cols prev ((field, value) # rest) record =
     (if value = JNull then edit_fields env cols prev rest (fmdrop field record)
      else if field \<in> set cols then
        (case value of
           JArr patch \<Rightarrow>
             edit_fields env cols prev rest (fmupd field (patched env patch (fmlookup prev field)) record)
         | JStr _ \<Rightarrow>
             edit_fields env cols prev rest (fmupd field (new_value (fmlookup record field) value) record)
         | _ \<Rightarrow> Inl (MustBeString field value))
      else edit_fields env cols prev rest (fmupd field (new_value (fmlookup record field) value) record))"

definition drop_patches :: "string list \<Rightarrow> js_obj \<Rightarrow> js_obj" where
  "drop_patches cols obj =
     foldl (\<lambda>obj field. case obj_get obj field of Some (JArr _) \<Rightarrow> obj_del field obj | _ \<Rightarrow> obj) obj cols"

definition index_obj :: "db_env \<Rightarrow> string list \<Rightarrow> js_obj \<Rightarrow> nat \<Rightarrow> (string, index) fmap \<Rightarrow> (string, index) fmap" where
  "index_obj env pks obj n idx =
     foldl (\<lambda>idx field.
         if is_nil (obj_get obj field) then idx
         else fmupd field (index_add (to_key env (the (obj_get obj field))) n
                (case fmlookup idx field of None \<Rightarrow> fmempty | Some index \<Rightarrow> index)) idx)
       idx pks"

definition append_record :: "db_env \<Rightarrow> dbdoc \<Rightarrow> js_obj \<Rightarrow> dbdoc" where
  "append_record env d obj0 =
     (let obj = drop_patches (string_cols d) obj0;
          record = nonnull_cols (fmap_of_list obj);
          n = length (records d)
      in d\<lparr>records := records d @ [Some record], everything := insert n (everything d),
           indexes := index_obj env (primary_keys d) obj n (indexes d),
           changes := insert (primary_key_cols d record) (changes d)\<rparr>)"

definition edit_record :: "db_env \<Rightarrow> dbdoc \<Rightarrow> nat \<Rightarrow> js_obj \<Rightarrow> db_error + dbdoc" where
  "edit_record env d first_match st =
     (case rec_at (records d) first_match of
        None \<Rightarrow> Inl RecordNull
      | Some prev \<Rightarrow>
          map_sum id (\<lambda>record.
            if prev = record then d
            else d\<lparr>records := (records d)[first_match := Some record],
                   changes := insert (primary_key_cols d record) (changes d)\<rparr>)
          (edit_fields env (string_cols d) prev st prev))"

definition db_set :: "db_env \<Rightarrow> dbdoc \<Rightarrow> js_obj \<Rightarrow> db_error + dbdoc" where
  "db_set env d obj =
     (case db_parse d obj of (wh, st) \<Rightarrow>
        (case db_select env d wh of
           Inl e \<Rightarrow> Inl e
         | Inr matches \<Rightarrow>
             if matches \<noteq> {} then edit_record env d (Min matches) st
             else Inr (append_record env d obj)))"

fun set_array :: "db_env \<Rightarrow> dbdoc \<Rightarrow> js_obj list \<Rightarrow> db_error + dbdoc" where
  "set_array env z [] = Inr z"
| "set_array env z (x # xs) = (case db_set env z x of Inl e \<Rightarrow> Inl e | Inr z' \<Rightarrow> set_array env z' xs)"

section \<open>Deletions\<close>

text \<open>The loop over the positions to remove, for one index.\<close>

definition unindex_one :: "db_env \<Rightarrow> dbdoc \<Rightarrow> string \<Rightarrow> index \<times> (string, index) fmap \<Rightarrow> nat \<Rightarrow> index \<times> (string, index) fmap" where
  "unindex_one env d field = (\<lambda>(index, idx) n.
     case Option.bind (rec_at (records d) n) (\<lambda>record. fmlookup record field) of
       None \<Rightarrow> (index, idx)
     | Some val \<Rightarrow>
         if val = JNull then (index, idx)
         else
           (case fmlookup index (to_key env val) of
              None \<Rightarrow> (index, idx)
            | Some m \<Rightarrow>
                (let index' = (if m - {n} = {} then fmdrop (to_key env val) index
                               else fmupd (to_key env val) (m - {n}) index)
                 in (index', fmupd field index' idx))))"

definition unindex_field :: "db_env \<Rightarrow> dbdoc \<Rightarrow> nat set \<Rightarrow> (string, index) fmap \<Rightarrow> string \<Rightarrow> (string, index) fmap" where
  "unindex_field env d remove idx field =
     (case fmlookup idx field of
        None \<Rightarrow> idx
      | Some index \<Rightarrow> snd (foldl (unindex_one env d field) (index, idx) (sorted_list_of_set remove)))"

definition remove_record :: "dbdoc \<Rightarrow> json_map option list \<times> json_map set \<Rightarrow> nat \<Rightarrow> json_map option list \<times> json_map set" where
  "remove_record d = (\<lambda>(rs, chg) n.
     case rec_at rs n of
       None \<Rightarrow> (rs, chg)
     | Some record \<Rightarrow> (rs[n := None], insert (primary_key_cols d record) chg))"

definition clear_doc :: "db_env \<Rightarrow> dbdoc \<Rightarrow> dbdoc" where
  "clear_doc env d = d\<lparr>records := [], everything := init_everything [],
     indexes := init_indexes env (primary_keys d) [],
     changes := changes d \<union> primary_key_cols d ` set (map the (filter (\<lambda>r. r \<noteq> None) (records d)))\<rparr>"

definition db_delete :: "db_env \<Rightarrow> dbdoc \<Rightarrow> js_obj \<Rightarrow> db_error + dbdoc" where
  "db_delete env d wh =
     (if card (everything d) = 0 then Inr d
      else map_sum id (\<lambda>remove.
        if card remove = card (everything d) then clear_doc env d
        else (case foldl (remove_record d) (records d, changes d) (sorted_list_of_set remove) of (rs, chg) \<Rightarrow>
          d\<lparr>records := rs, everything := everything d - remove,
            indexes := foldl (unindex_field env d remove) (indexes d) (primary_keys d), changes := chg\<rparr>))
        (db_select env d wh))"

fun delete_array :: "db_env \<Rightarrow> dbdoc \<Rightarrow> js_obj list \<Rightarrow> db_error + dbdoc" where
  "delete_array env z [] = Inr z"
| "delete_array env z (x # xs) = (case db_delete env z x of Inl e \<Rightarrow> Inl e | Inr z' \<Rightarrow> delete_array env z' xs)"

section \<open>Patches\<close>

text \<open>A patch \<open>[-1, [...], 1, [...]]\<close> as the list of its pairs; the objects in it are JSON.\<close>

type_synonym db_patch = "(int \<times> js_obj list) list"

fun db_apply_patch :: "db_env \<Rightarrow> dbdoc \<Rightarrow> db_patch \<Rightarrow> db_error + dbdoc" where
  "db_apply_patch env db [] = Inr db"
| "db_apply_patch env db ((op, arg) # rest) =
     (case (if op = - 1 then delete_array env db arg
            else if op = 1 then set_array env db arg
            else Inr db) of
        Inl e \<Rightarrow> Inl e
      | Inr db' \<Rightarrow> db_apply_patch env db' rest)"

definition rec_list :: "dbdoc \<Rightarrow> json_map list" where
  "rec_list d = remdups (map the (filter (\<lambda>r. r \<noteq> None) (records d)))"

definition diff_deleted :: "json_map \<Rightarrow> json_map \<Rightarrow> js_obj \<Rightarrow> js_obj" where
  "diff_deleted from0 to0 obj =
     foldl (\<lambda>obj (key, _). if is_nil (fmlookup to0 key) then obj_set key JNull obj else obj) obj (toJS from0)"

definition diff_field :: "db_env \<Rightarrow> dbdoc \<Rightarrow> json_map \<Rightarrow> js_obj \<Rightarrow> string \<times> json \<Rightarrow> js_obj" where
  "diff_field env d from0 obj = (\<lambda>(key, v).
     if fmlookup from0 key = Some v then obj
     else if key \<in> set (string_cols d) \<and> \<not> is_nil (fmlookup from0 key) \<and> v \<noteq> JNull then
       (case (fmlookup from0 key, v) of
          (Some (JStr a), JStr b) \<Rightarrow> obj_set key (JArr (make_patch (dmp_make env) a b)) obj
        | _ \<Rightarrow> obj)
     else
       (case (fmlookup from0 key, v) of
          (Some (JObj a), JObj b) \<Rightarrow> obj_set key (JObj (map_merge_patch a b)) obj
        | _ \<Rightarrow> obj_set key v obj))"

definition diff_record :: "db_env \<Rightarrow> dbdoc \<Rightarrow> js_obj \<Rightarrow> json_map \<Rightarrow> json_map \<Rightarrow> js_obj" where
  "diff_record env d obj from0 to0 = foldl (diff_field env d from0) (diff_deleted from0 to0 obj) (toJS to0)"

fun collect_inserts :: "db_env \<Rightarrow> dbdoc \<Rightarrow> json_map list \<Rightarrow> db_error + js_obj list" where
  "collect_inserts env other [] = Inr []"
| "collect_inserts env other (k # ks) =
     (case get_one env other (toJS k) of
        Inl e \<Rightarrow> Inl e
      | Inr x \<Rightarrow> map_sum id (\<lambda>add. (case x of None \<Rightarrow> [] | Some r \<Rightarrow> [toJS r]) @ add) (collect_inserts env other ks))"

fun collect_changed :: "db_env \<Rightarrow> dbdoc \<Rightarrow> dbdoc \<Rightarrow> json_map list \<Rightarrow> db_error + js_obj list" where
  "collect_changed env d other [] = Inr []"
| "collect_changed env d other (k # ks) =
     (let obj = toJS k; obj0 = primary_key_part d obj in
      case get_one env d obj0 of
        Inl e \<Rightarrow> Inl e
      | Inr from0 \<Rightarrow>
          (case get_one env other obj0 of
             Inl e \<Rightarrow> Inl e
           | Inr to0 \<Rightarrow>
               map_sum id (\<lambda>add.
                 (case (from0, to0) of
                    (Some f, Some t) \<Rightarrow> [diff_record env d obj f t]
                  | _ \<Rightarrow> []) @ add)
               (collect_changed env d other ks)))"

definition db_make_patch :: "db_env \<Rightarrow> dbdoc \<Rightarrow> dbdoc \<Rightarrow> db_error + db_patch" where
  "db_make_patch env d other =
     (if doc_size other = 0 then Inr [(- 1, [[]])]
      else
        (let t0 = filter (\<lambda>r. r \<notin> set (rec_list other)) (rec_list d);
             t1 = filter (\<lambda>r. r \<notin> set (rec_list d)) (rec_list other)
         in
          if t0 = [] then Inr [(1, map toJS (iter env t1))]
          else if t1 = [] then Inr [(- 1, map (\<lambda>x. primary_key_part d (toJS x)) (iter env t0))]
          else
            (let k0 = remdups (map (primary_key_cols d) (iter env t0));
                 k1 = remdups (map (primary_key_cols d) (iter env t1));
                 deletes = filter (\<lambda>k. k \<notin> set k1) k0;
                 inserts = filter (\<lambda>k. k \<notin> set k0) k1;
                 changed = filter (\<lambda>k. k \<in> set k0) k1;
                 remove = (if deletes = [] then [] else [(- 1, map toJS (iter env deletes))])
             in
              case collect_inserts env other (iter env inserts) of
                Inl e \<Rightarrow> Inl e
              | Inr add1 \<Rightarrow>
                  map_sum id (\<lambda>add2. remove @ (if add1 @ add2 = [] then [] else [(1, add1 @ add2)]))
                    (collect_changed env d other (iter env changed)))))"

section \<open>Comparison and strings\<close>

definition db_is_equal :: "dbdoc \<Rightarrow> dbdoc option \<Rightarrow> bool" where
  "db_is_equal d other =
     (case other of
        None \<Rightarrow> False
      | Some e \<Rightarrow> doc_size d = doc_size e \<and> insert None (set (records d)) = insert None (set (records e)))"

definition changed_keys :: "dbdoc \<Rightarrow> dbdoc \<Rightarrow> json_map set" where
  "changed_keys d other =
     (let t0 = set (rec_list d); t1 = set (rec_list other); common = t0 \<inter> t1 in
      primary_key_cols d ` (t0 - common) \<union> primary_key_cols d ` (t1 - common))"

definition db_changes :: "dbdoc \<Rightarrow> dbdoc option \<Rightarrow> json_map set" where
  "db_changes d prev =
     (case prev of
        None \<Rightarrow> primary_key_cols d ` set (rec_list d)
      | Some p \<Rightarrow> changed_keys d p)"

definition recs_to_str :: "db_env \<Rightarrow> json_map option list \<Rightarrow> string" where
  "recs_to_str env rs =
     join_with (CHR 0x0A) (sort (map (\<lambda>r. json_stable env (case r of None \<Rightarrow> JNull | Some m \<Rightarrow> JObj m)) rs))"

definition db_to_str :: "db_env \<Rightarrow> dbdoc \<Rightarrow> db_error + string" where
  "db_to_str env d = map_sum id (recs_to_str env) (db_get env d [])"

text \<open>
  A line that is not JSON, or not an object, is skipped; but \<open>typeof\<close> is also \<open>"object"\<close> for null,
  which becomes a record that is not there, and for an array. The code would then hold an
  \<open>immutable.List\<close> as a record, which the model does not have: the result is None.
\<close>

fun parse_lines :: "db_env \<Rightarrow> string list \<Rightarrow> json_map option list option" where
  "parse_lines env [] = Some []"
| "parse_lines env (line # ls) =
     (if line = [] then parse_lines env ls
      else
        (case json_parse env line of
           Some (JObj m) \<Rightarrow> map_option (\<lambda>rs. Some m # rs) (parse_lines env ls)
         | Some JNull \<Rightarrow> map_option (\<lambda>rs. None # rs) (parse_lines env ls)
         | Some (JArr _) \<Rightarrow> None
         | _ \<Rightarrow> parse_lines env ls))"

definition db_from_str :: "db_env \<Rightarrow> string \<Rightarrow> string list \<Rightarrow> string list \<Rightarrow> (db_error + dbdoc) option" where
  "db_from_str env s pks cols = map_option (new_doc env (remdups pks) cols) (parse_lines env (split_on (CHR 0x0A) s))"

end
