(* ===== verification/DbDocIndex.thy ===== *)
theory DbDocIndex
  imports DbDoc
begin

text \<open>
  The indexes of a document: what they hold, that every operation keeps them, and that a query
  through them gives the records a search of the whole table would find.
\<close>

section \<open>What the indexes hold\<close>

definition key_at :: "db_env \<Rightarrow> json_map option list \<Rightarrow> string \<Rightarrow> nat \<Rightarrow> string option" where
  "key_at env rs f n =
     (case rec_at rs n of
        None \<Rightarrow> None
      | Some r \<Rightarrow> if is_nil (fmlookup r f) then None else Some (to_key env (the (fmlookup r f))))"

definition positions :: "db_env \<Rightarrow> json_map option list \<Rightarrow> string \<Rightarrow> string \<Rightarrow> nat set" where
  "positions env rs f k = {n. key_at env rs f n = Some k}"

definition index_entry :: "nat set \<Rightarrow> nat set option" where
  "index_entry S = (if S = {} then None else Some S)"

definition index_ok :: "db_env \<Rightarrow> string list \<Rightarrow> json_map option list \<Rightarrow> (string, index) fmap \<Rightarrow> bool" where
  "index_ok env pks rs idx \<longleftrightarrow> fmdom' idx = set pks \<and>
     (\<forall>f index. fmlookup idx f = Some index \<longrightarrow> fmlookup index = (\<lambda>k. index_entry (positions env rs f k)))"

definition db_inv :: "db_env \<Rightarrow> dbdoc \<Rightarrow> bool" where
  "db_inv env d \<longleftrightarrow> primary_keys d \<noteq> [] \<and> distinct (primary_keys d) \<and>
     everything d = init_everything (records d) \<and> index_ok env (primary_keys d) (records d) (indexes d)"

lemma index_ok_unique: "index_ok env pks rs idx \<Longrightarrow> index_ok env pks rs idx' \<Longrightarrow> idx = idx'"
proof (rule fmap_ext)
  fix f
  assume ok: "index_ok env pks rs idx" "index_ok env pks rs idx'"
  show "fmlookup idx f = fmlookup idx' f"
  proof (cases "f \<in> set pks")
    case True
    then have "f \<in> fmdom' idx" "f \<in> fmdom' idx'" using ok by (auto simp: index_ok_def)
    then obtain a b where ab: "fmlookup idx f = Some a" "fmlookup idx' f = Some b"
      by (auto simp: fmlookup_dom'_iff)
    then have "fmlookup a = fmlookup b" using ok by (auto simp: index_ok_def)
    then have "a = b" by (intro fmap_ext) simp
    then show ?thesis using ab by simp
  next
    case False
    then have "f \<notin> fmdom' idx" "f \<notin> fmdom' idx'" using ok by (auto simp: index_ok_def)
    then show ?thesis by (simp add: fmdom'_notD)
  qed
qed

lemma rec_at_append: "rec_at (rs @ [r]) n = (if n = length rs then r else rec_at rs n)"
  by (auto simp: rec_at_def nth_append)

lemma rec_at_update: "rec_at (rs[i := r]) n = (if n = i \<and> i < length rs then r else rec_at rs n)"
  by (auto simp: rec_at_def)

lemma rec_at_lt: "rec_at rs n = Some r \<Longrightarrow> n < length rs"
  by (auto simp: rec_at_def split: if_splits)

lemma in_everything: "n \<in> init_everything rs \<longleftrightarrow> rec_at rs n \<noteq> None"
  by (auto simp: init_everything_def rec_at_def)

lemma finite_everything [simp]: "finite (init_everything rs)"
  by (simp add: init_everything_def)

lemma key_at_append: "key_at env (rs @ [r]) f n =
    (if n = length rs then key_at env [r] f 0 else key_at env rs f n)"
  by (auto simp: key_at_def rec_at_append) (simp_all add: rec_at_def)

lemma key_at_end [simp]: "key_at env rs f (length rs) = None"
  by (simp add: key_at_def rec_at_def)

lemma index_add_lookup: "fmlookup (index_add k n index) = (fmlookup index)(k \<mapsto> insert n (case fmlookup index k of None \<Rightarrow> {} | Some m \<Rightarrow> m))"
  by (auto simp: index_add_def fun_eq_iff split: option.splits)

lemma index_entry_add:
  assumes "fmlookup index = (\<lambda>k. index_entry (positions env rs f k))" "key_at env [r] f 0 = Some k"
  shows "fmlookup (index_add k (length rs) index) = (\<lambda>k. index_entry (positions env (rs @ [r]) f k))"
proof -
  have "positions env (rs @ [r]) f j = (if j = k then insert (length rs) (positions env rs f j) else positions env rs f j)" for j
    using assms(2) by (auto simp: positions_def key_at_append)
  then show ?thesis using assms(1) by (auto simp: index_add_lookup fun_eq_iff index_entry_def)
qed

lemma index_entry_skip: "key_at env [r] f 0 = None \<Longrightarrow> positions env (rs @ [r]) f k = positions env rs f k"
  by (auto simp: positions_def key_at_append)

section \<open>Building the indexes\<close>

lemma index_record_lookup:
  "fmlookup (index_record env idx (n, Some r)) f =
     map_option (\<lambda>index. if is_nil (fmlookup r f) then index else index_add (to_key env (the (fmlookup r f))) n index)
       (fmlookup idx f)"
  unfolding index_record_def prod.case option.case
  by (subst foldl_lookup[where look = fmlookup and g = "\<lambda>f index old. if is_nil (fmlookup r f) then old
        else Some (index_add (to_key env (the (fmlookup r f))) n index)"])
     (auto simp: distinct_sorted_fmap fun_eq_iff split: option.splits)

lemma key_at_single: "key_at env [Some r] f 0 = (if is_nil (fmlookup r f) then None else Some (to_key env (the (fmlookup r f))))"
  "key_at env [None] f 0 = None"
  by (simp_all add: key_at_def rec_at_def)

lemma index_record_ok:
  assumes "index_ok env pks rs idx"
  shows "index_ok env pks (rs @ [r]) (index_record env idx (length rs, r))"
proof (cases r)
  case None
  then show ?thesis using assms
    by (simp add: index_record_def index_ok_def index_entry_skip key_at_single)
next
  case (Some m)
  have dom: "fmdom' (index_record env idx (length rs, r)) = set pks"
    using assms unfolding Some by (auto simp: index_ok_def fmlookup_dom'_iff index_record_lookup)
  show ?thesis unfolding index_ok_def
  proof (intro conjI dom allI impI)
    fix f index
    assume "fmlookup (index_record env idx (length rs, r)) f = Some index"
    then obtain old where old: "fmlookup idx f = Some old"
      "index = (if is_nil (fmlookup m f) then old else index_add (to_key env (the (fmlookup m f))) (length rs) old)"
      unfolding Some index_record_lookup by auto
    have ok: "fmlookup old = (\<lambda>k. index_entry (positions env rs f k))" using assms old(1) by (simp add: index_ok_def)
    show "fmlookup index = (\<lambda>k. index_entry (positions env (rs @ [r]) f k))"
      using index_entry_add[OF ok, of r] old(2) ok index_entry_skip[of env r f rs] unfolding Some key_at_single by auto
  qed
qed

lemma empty_indexes: "index_ok env pks [] (foldl (\<lambda>idx field. fmupd field fmempty idx) fmempty pks)"
proof -
  have look: "fmlookup (foldl (\<lambda>idx field. fmupd field fmempty idx) idx pks) f =
      (if f \<in> set pks then Some fmempty else fmlookup idx f)" for f and idx :: "(string, index) fmap"
    by (induction pks arbitrary: idx) auto
  show ?thesis by (auto simp: index_ok_def fmlookup_dom'_iff look index_entry_def positions_def key_at_def rec_at_def
        split: if_splits)
qed

lemma init_indexes_ok: "index_ok env pks rs (init_indexes env pks rs)"
proof (induction rs rule: rev_induct)
  case (snoc r rs)
  have "init_indexes env pks (rs @ [r]) = index_record env (init_indexes env pks rs) (length rs, r)"
    by (simp add: init_indexes_def enumerate_append_eq)
  then show ?case using index_record_ok[OF snoc] by simp
qed (simp add: init_indexes_def empty_indexes)

lemma new_doc_inv: "new_doc env pks cols rs = Inr d \<Longrightarrow> distinct pks \<Longrightarrow> db_inv env d"
  by (auto simp: new_doc_def db_inv_def init_indexes_ok split: if_splits)

lemma inv_everything: "db_inv env d \<Longrightarrow> n \<in> everything d \<longleftrightarrow> rec_at (records d) n \<noteq> None"
  by (simp add: db_inv_def in_everything)

lemma inv_index:
  assumes "db_inv env d"
  shows "f \<in> set (primary_keys d) \<Longrightarrow> \<exists>index. fmlookup (indexes d) f = Some index"
    and "f \<notin> set (primary_keys d) \<Longrightarrow> fmlookup (indexes d) f = None"
    and "fmlookup (indexes d) f = Some index \<Longrightarrow> fmlookup index k = index_entry (positions env (records d) f k)"
  using assms by (simp_all add: db_inv_def index_ok_def set_eq_iff fmlookup_dom'_iff del: not_None_eq) (metis option.exhaust)+

lemma inv_indexes: "db_inv env d \<Longrightarrow> indexes d = init_indexes env (primary_keys d) (records d)"
  unfolding db_inv_def by (metis index_ok_unique init_indexes_ok)

section \<open>Queries\<close>

text \<open>The records that satisfy a condition, found by looking at all of them.\<close>

definition matches :: "js_obj \<Rightarrow> json_map \<Rightarrow> bool" where
  "matches wh r \<longleftrightarrow> (\<forall>(f, v) \<in> set wh. fmlookup r f = Some v \<and> v \<noteq> JNull)"

definition scan :: "dbdoc \<Rightarrow> js_obj \<Rightarrow> nat set" where
  "scan d wh = {n. \<exists>r. rec_at (records d) n = Some r \<and> matches wh r}"

lemma select_loop_scan:
  assumes inv: "db_inv env d"
  shows "fst ` set wh \<subseteq> set (primary_keys d) \<Longrightarrow> n = 1 \<longrightarrow> wh = [] \<or> (result = None \<and> length wh = 1) \<Longrightarrow>
    (\<forall>S. result = Some S \<longrightarrow> S \<subseteq> everything d) \<Longrightarrow>
    select_loop env d n wh result =
      Inr {m \<in> (case result of None \<Rightarrow> everything d | Some S \<Rightarrow> S).
           \<forall>(f, v) \<in> set wh. key_at env (records d) f m = Some (to_key env v)}"
proof (induction wh arbitrary: result)
  case Nil
  then show ?case by (auto split: option.split)
next
  case (Cons x wh)
  obtain f v where x: "x = (f, v)" by (cases x)
  let ?P = "positions env (records d) f (to_key env v)"
  let ?S = "case result of None \<Rightarrow> everything d | Some S \<Rightarrow> S"
  have "f \<in> set (primary_keys d)" using Cons.prems(1) x by simp
  then obtain index where index: "fmlookup (indexes d) f = Some index" using inv_index(1)[OF inv] by blast
  have look: "fmlookup index (to_key env v) = index_entry ?P" using inv_index(3)[OF inv index] .
  have sub: "?P \<subseteq> everything d"
    unfolding positions_def by (auto simp: key_at_def inv_everything[OF inv] split: option.splits)
  show ?case
  proof (cases "?P = {}")
    case True
    then have "\<not> key_at env (records d) f m = Some (to_key env v)" for m by (auto simp: positions_def)
    then show ?thesis using True by (auto simp: x index look index_entry_def)
  next
    case False
    show ?thesis
    proof (cases "n = 1")
      case True
      then have "result = None" "wh = []" using Cons.prems(2) by auto
      then show ?thesis using False True sub
        by (auto simp: x index look index_entry_def positions_def)
    next
      case n: False
      let ?r = "Some (case result of None \<Rightarrow> ?P | Some s \<Rightarrow> s \<inter> ?P)"
      have "select_loop env d n wh ?r = Inr {m \<in> (case result of None \<Rightarrow> ?P | Some s \<Rightarrow> s \<inter> ?P).
          \<forall>(f, v) \<in> set wh. key_at env (records d) f m = Some (to_key env v)}"
        by (subst Cons.IH) (use Cons.prems n sub in \<open>auto split: option.splits\<close>)
      moreover have "(case result of None \<Rightarrow> ?P | Some s \<Rightarrow> s \<inter> ?P) = ?S \<inter> ?P"
        using sub by (auto split: option.splits)
      moreover have "{m \<in> ?S \<inter> ?P. \<forall>(f, v) \<in> set wh. key_at env (records d) f m = Some (to_key env v)} =
          {m \<in> ?S. \<forall>(f, v) \<in> set (x # wh). key_at env (records d) f m = Some (to_key env v)}"
        unfolding x positions_def by auto
      moreover have "select_loop env d n (x # wh) result = select_loop env d n wh ?r"
        using False n by (simp add: x index look index_entry_def)
      ultimately show ?thesis by simp
    qed
  qed
qed

lemma key_at_matches:
  assumes "inj (json_stable env)"
  shows "(\<forall>(f, v) \<in> set wh. key_at env rs f m = Some (to_key env v)) \<longleftrightarrow>
    wh = [] \<or> (\<exists>r. rec_at rs m = Some r \<and> matches wh r)"
proof -
  have "key_at env rs f m = Some (to_key env v) \<longleftrightarrow>
      (\<exists>r. rec_at rs m = Some r \<and> fmlookup r f = Some v \<and> v \<noteq> JNull)" for f v
    using inj_eq[OF assms] by (auto simp: key_at_def to_key_def is_nil_def split: option.splits)
  note one = this
  show ?thesis
  proof (cases wh)
    case (Cons x xs)
    obtain f v where x: "x = (f, v)" by (cases x)
    show ?thesis
    proof
      assume all: "\<forall>(f, v) \<in> set wh. key_at env rs f m = Some (to_key env v)"
      then have "key_at env rs f m = Some (to_key env v)" using Cons x by auto
      then obtain r where r: "rec_at rs m = Some r" using one by blast
      have "matches wh r" using all r unfolding matches_def one by fastforce
      then show "wh = [] \<or> (\<exists>r. rec_at rs m = Some r \<and> matches wh r)" using r by blast
    next
      assume "wh = [] \<or> (\<exists>r. rec_at rs m = Some r \<and> matches wh r)"
      then show "\<forall>(f, v) \<in> set wh. key_at env rs f m = Some (to_key env v)"
        unfolding one matches_def by fastforce
    qed
  qed simp
qed

lemma select_scan:
  assumes "db_inv env d" "inj (json_stable env)" "fst ` set wh \<subseteq> set (primary_keys d)"
  shows "db_select env d wh = Inr (scan d wh)"
proof -
  have "db_select env d wh = Inr {m \<in> everything d. \<forall>(f, v) \<in> set wh. key_at env (records d) f m = Some (to_key env v)}"
    unfolding db_select_def by (subst select_loop_scan) (use assms in \<open>auto simp: length_Suc_conv\<close>)
  also have "{m \<in> everything d. \<forall>(f, v) \<in> set wh. key_at env (records d) f m = Some (to_key env v)} = scan d wh"
    unfolding key_at_matches[OF assms(2)] scan_def using assms(1)
    by (auto simp: db_inv_def in_everything matches_def)
  finally show ?thesis .
qed

lemma finite_scan [simp]: "finite (scan d wh)"
proof (rule finite_subset)
  show "scan d wh \<subseteq> {..<length (records d)}" by (auto simp: scan_def dest: rec_at_lt)
qed simp

lemma scan_everything: "db_inv env d \<Longrightarrow> scan d wh \<subseteq> everything d"
  unfolding scan_def by (auto simp: inv_everything)

section \<open>Every operation keeps the indexes\<close>

lemma db_invI:
  assumes "primary_keys d \<noteq> []" "distinct (primary_keys d)" "everything d = init_everything (records d)"
    "index_ok env (primary_keys d) (records d) (indexes d)"
  shows "db_inv env d"
  using assms by (simp add: db_inv_def)

lemma inv_pks: "db_inv env d \<Longrightarrow> primary_keys d \<noteq> [] \<and> distinct (primary_keys d)"
  by (simp add: db_inv_def)

lemma index_obj_lookup:
  assumes "distinct pks"
  shows "fmlookup (index_obj env pks obj n idx) f =
    (if f \<in> set pks \<and> \<not> is_nil (obj_get obj f)
     then Some (index_add (to_key env (the (obj_get obj f))) n (case fmlookup idx f of None \<Rightarrow> fmempty | Some i \<Rightarrow> i))
     else fmlookup idx f)"
  using assms unfolding index_obj_def
proof (induction pks arbitrary: idx)
  case (Cons p pks)
  show ?case unfolding foldl_Cons using Cons.prems
    by (subst Cons.IH) auto
qed simp

text \<open>The record that \<open>set\<close> appends.\<close>

definition new_record :: "dbdoc \<Rightarrow> js_obj \<Rightarrow> json_map" where
  "new_record d obj = nonnull_cols (fmap_of_list (drop_patches (string_cols d) obj))"

lemma append_record_simps:
  "primary_keys (append_record env d obj) = primary_keys d"
  "string_cols (append_record env d obj) = string_cols d"
  "records (append_record env d obj) = records d @ [Some (new_record d obj)]"
  by (simp_all add: append_record_def Let_def new_record_def)

lemma new_record_nil: "fmlookup (new_record d obj) f =
    (let v = obj_get (drop_patches (string_cols d) obj) f in if v = Some JNull then None else v)"
  by (simp add: new_record_def nonnull_cols_def fmlookup_of_list Let_def)

lemma append_record_inv: "db_inv env d \<Longrightarrow> db_inv env (append_record env d obj)"
proof (rule db_invI)
  assume inv: "db_inv env d"
  let ?o = "drop_patches (string_cols d) obj" and ?rs = "records d" and ?r = "Some (new_record d obj)"
  have idx: "indexes (append_record env d obj) = index_obj env (primary_keys d) ?o (length ?rs) (indexes d)"
    by (simp add: append_record_def Let_def)
  note look = index_obj_lookup[OF conjunct2[OF inv_pks[OF inv]], of env ?o "length ?rs" "indexes d"]
  show "index_ok env (primary_keys (append_record env d obj)) (records (append_record env d obj)) (indexes (append_record env d obj))"
    unfolding index_ok_def append_record_simps idx
  proof (intro conjI allI impI)
    show "fmdom' (index_obj env (primary_keys d) ?o (length ?rs) (indexes d)) = set (primary_keys d)"
    proof (intro set_eqI)
      fix f
      show "f \<in> fmdom' (index_obj env (primary_keys d) ?o (length ?rs) (indexes d)) \<longleftrightarrow> f \<in> set (primary_keys d)"
        using inv_index(1,2)[OF inv, of f] by (cases "f \<in> set (primary_keys d)") (auto simp: fmlookup_dom'_iff look)
    qed
  next
    fix f index
    assume a: "fmlookup (index_obj env (primary_keys d) ?o (length ?rs) (indexes d)) f = Some index"
    then have "f \<in> set (primary_keys d)" using look[of f] inv_index(2)[OF inv, of f] by (auto split: if_splits)
    then obtain old where old: "fmlookup (indexes d) f = Some old" using inv_index(1)[OF inv] by blast
    have ok: "fmlookup old = (\<lambda>k. index_entry (positions env ?rs f k))" using inv_index(3)[OF inv old] by auto
    have key: "key_at env [?r] f 0 = (if is_nil (obj_get ?o f) then None else Some (to_key env (the (obj_get ?o f))))"
      by (auto simp: key_at_single new_record_nil Let_def is_nil_def)
    show "fmlookup index = (\<lambda>k. index_entry (positions env (?rs @ [?r]) f k))"
    proof (cases "is_nil (obj_get ?o f)")
      case True
      then show ?thesis using a look[of f] old ok index_entry_skip[of env ?r f ?rs] key by auto
    next
      case False
      then have "index = index_add (to_key env (the (obj_get ?o f))) (length ?rs) old"
        using a look[of f] old \<open>f \<in> set (primary_keys d)\<close> by simp
      then show ?thesis using index_entry_add[OF ok] key False by simp
    qed
  qed
  have "everything d = init_everything ?rs" using inv by (simp add: db_inv_def)
  moreover have "init_everything (?rs @ [?r]) = insert (length ?rs) (init_everything ?rs)"
    by (auto simp: in_everything rec_at_append split: if_splits)
  moreover have "everything (append_record env d obj) = insert (length ?rs) (everything d)"
    by (simp add: append_record_def Let_def)
  ultimately show "everything (append_record env d obj) = init_everything (records (append_record env d obj))"
    by (simp add: append_record_simps)
qed (use inv_pks in \<open>auto simp: append_record_simps\<close>)

text \<open>Editing changes the fields of the object only.\<close>

lemma edit_fields_other:
  "edit_fields env cols prev st r = Inr r' \<Longrightarrow> f \<notin> fst ` set st \<Longrightarrow> fmlookup r' f = fmlookup r f"
  by (induction env cols prev st r rule: edit_fields.induct) (auto split: if_splits json.splits)

lemma positions_update:
  assumes "rec_at rs i = Some r" "fmlookup r' f = fmlookup r f"
  shows "positions env (rs[i := Some r']) f k = positions env rs f k"
proof -
  have "key_at env (rs[i := Some r']) f n = key_at env rs f n" for n
    using assms rec_at_lt[OF assms(1)] by (auto simp: key_at_def rec_at_update)
  then show ?thesis by (simp add: positions_def)
qed

lemma replace_record_inv:
  assumes inv: "db_inv env d" and r: "rec_at (records d) i = Some r"
    and same: "\<And>f. f \<in> set (primary_keys d) \<Longrightarrow> fmlookup r' f = fmlookup r f"
    and d': "primary_keys d' = primary_keys d" "records d' = (records d)[i := Some r']"
      "everything d' = everything d" "indexes d' = indexes d"
  shows "db_inv env d'"
proof (rule db_invI)
  show "primary_keys d' \<noteq> []" "distinct (primary_keys d')" using inv_pks[OF inv] d' by auto
  have "init_everything (records d') = init_everything (records d)"
    using r by (auto simp: in_everything d' rec_at_update split: if_splits)
  then show "everything d' = init_everything (records d')" using inv by (simp add: d' db_inv_def)
  have "positions env (records d') f k = positions env (records d) f k" if "f \<in> set (primary_keys d)" for f k
    unfolding d' by (rule positions_update[OF r same[OF that]])
  moreover have "f \<in> set (primary_keys d)" if "fmlookup (indexes d) f = Some index" for f index
    using inv_index(2)[OF inv, of f] that by (cases "f \<in> set (primary_keys d)") auto
  moreover have "fmdom' (indexes d) = set (primary_keys d)" using inv by (simp add: db_inv_def index_ok_def)
  ultimately show "index_ok env (primary_keys d') (records d') (indexes d')"
    using inv_index(3)[OF inv] by (auto simp: index_ok_def d' fun_eq_iff)
qed

lemma edit_record_cases:
  assumes "rec_at (records d) i = Some r"
  shows "edit_record env d i st = map_sum id (\<lambda>r'. if r = r' then d
      else d\<lparr>records := (records d)[i := Some r'], changes := insert (primary_key_cols d r') (changes d)\<rparr>)
    (edit_fields env (string_cols d) r st r)"
  by (simp add: edit_record_def assms)

lemma edit_record_inv:
  assumes inv: "db_inv env d" and st: "fst ` set st \<inter> set (primary_keys d) = {}"
    and res: "edit_record env d i st = Inr d'"
  shows "db_inv env d' \<and> primary_keys d' = primary_keys d \<and> string_cols d' = string_cols d"
proof -
  obtain r where r: "rec_at (records d) i = Some r" using res by (auto simp: edit_record_def split: option.splits)
  obtain r' where r': "edit_fields env (string_cols d) r st r = Inr r'"
      and d': "d' = (if r = r' then d else d\<lparr>records := (records d)[i := Some r'], changes := insert (primary_key_cols d r') (changes d)\<rparr>)"
    using res unfolding edit_record_cases[OF r] by (cases "edit_fields env (string_cols d) r st r") auto
  have "fmlookup r' f = fmlookup r f" if "f \<in> set (primary_keys d)" for f
    using edit_fields_other[OF r'] st that by blast
  then show ?thesis using inv replace_record_inv[OF inv r, of r' d'] d' by auto
qed

lemma db_parse_keys:
  "db_parse d obj = (wh, st) \<Longrightarrow> fst ` set wh \<subseteq> set (primary_keys d) \<and> fst ` set st \<inter> set (primary_keys d) = {}"
  by (auto simp: db_parse_def)

lemma db_set_inv:
  assumes "db_inv env d" "db_set env d obj = Inr d'"
  shows "db_inv env d' \<and> primary_keys d' = primary_keys d \<and> string_cols d' = string_cols d"
proof -
  obtain wh st where p: "db_parse d obj = (wh, st)" by fastforce
  show ?thesis
    using assms edit_record_inv[OF assms(1), of st] append_record_inv[OF assms(1)] db_parse_keys[OF p]
    by (auto simp: db_set_def p append_record_simps split: sum.splits if_splits)
qed

lemma set_array_inv:
  "db_inv env d \<Longrightarrow> set_array env d objs = Inr d' \<Longrightarrow>
     db_inv env d' \<and> primary_keys d' = primary_keys d \<and> string_cols d' = string_cols d"
proof (induction objs arbitrary: d)
  case (Cons x objs)
  then show ?case using db_set_inv by (fastforce split: sum.splits)
qed simp

text \<open>Deleting: the records at the removed positions become \<open>undefined\<close>.\<close>

lemma rec_ext: "length rs = length rs' \<Longrightarrow> (\<And>n. rec_at rs n = rec_at rs' n) \<Longrightarrow> rs = rs'"
  by (rule nth_equalityI) (auto simp: rec_at_def, metis)

lemma remove_records:
  "length (fst (foldl (remove_record d) (rs, chg) ns)) = length rs \<and>
   rec_at (fst (foldl (remove_record d) (rs, chg) ns)) n = (if n \<in> set ns then None else rec_at rs n)"
proof (induction ns arbitrary: rs chg)
  case (Cons m ns)
  show ?case
  proof (cases "rec_at rs m")
    case None
    then show ?thesis using Cons.IH[of rs chg] by (auto simp: remove_record_def)
  next
    case (Some r)
    then show ?thesis using Cons.IH[of "rs[m := None]" "insert (primary_key_cols d r) chg"] rec_at_lt[OF Some]
      by (auto simp: remove_record_def rec_at_update)
  qed
qed simp

lemma removed_key: "key_at env rs' f n = (if n \<in> S then None else key_at env rs f n)"
  if "\<And>n. rec_at rs' n = (if n \<in> S then None else rec_at rs n)"
  using that by (simp add: key_at_def)

lemma unindex_one_eq:
  "unindex_one env d field (index, idx) n =
     (case key_at env (records d) field n of
        None \<Rightarrow> (index, idx)
      | Some k \<Rightarrow>
          (case fmlookup index k of
             None \<Rightarrow> (index, idx)
           | Some m \<Rightarrow>
               (let index' = (if m - {n} = {} then fmdrop k index else fmupd k (m - {n}) index)
                in (index', fmupd field index' idx))))"
  unfolding unindex_one_def prod.case key_at_def is_nil_def
  by (cases "rec_at (records d) n") (auto simp: bind_eq_None_conv split: option.splits)

lemma unindex_loop:
  assumes "fmlookup index = (\<lambda>k. index_entry (positions env (records d) field k - R))"
    and "fmlookup idx field = Some index"
    and "foldl (unindex_one env d field) (index, idx) ns = (index', idx')"
  shows "fmlookup index' = (\<lambda>k. index_entry (positions env (records d) field k - (R \<union> set ns))) \<and>
    idx' = fmupd field index' idx"
  using assms
proof (induction ns arbitrary: index idx R)
  case Nil
  then show ?case by (auto intro!: fmap_ext)
next
  case (Cons n ns)
  let ?P = "\<lambda>k. positions env (records d) field k"
  obtain index1 idx1 where one: "unindex_one env d field (index, idx) n = (index1, idx1)" by fastforce
  have "fmlookup index1 = (\<lambda>k. index_entry (?P k - insert n R)) \<and> idx1 = fmupd field index1 idx"
  proof (cases "key_at env (records d) field n")
    case None
    then have "?P k - insert n R = ?P k - R" for k by (auto simp: positions_def)
    then show ?thesis using None one Cons.prems(1,2) by (auto simp: unindex_one_eq intro!: fmap_ext)
  next
    case (Some k)
    have other: "?P j - insert n R = ?P j - R" if "j \<noteq> k" for j using that Some by (auto simp: positions_def)
    show ?thesis
    proof (cases "?P k - R = {}")
      case True
      then have "?P k - insert n R = {}" by auto
      then have "index_entry (?P j - insert n R) = index_entry (?P j - R)" for j
        using other[of j] True by (cases "j = k") (simp_all add: index_entry_def)
      moreover have "fmlookup index k = None" using Cons.prems(1) True by (simp add: index_entry_def)
      ultimately show ?thesis using one Some Cons.prems(1,2) by (auto simp: unindex_one_eq intro!: fmap_ext)
    next
      case False
      then have k: "fmlookup index k = Some (?P k - R)" using Cons.prems(1) by (simp add: index_entry_def)
      have diff: "?P k - R - {n} = ?P k - insert n R" by auto
      have "index1 = (if ?P k - insert n R = {} then fmdrop k index else fmupd k (?P k - insert n R) index)"
        "idx1 = fmupd field index1 idx"
        using one unfolding unindex_one_eq Some option.case k diff Let_def by auto
      note one' = this
      have "fmlookup (if ?P k - insert n R = {} then fmdrop k index else fmupd k (?P k - insert n R) index) j =
          index_entry (?P j - insert n R)" for j
        using Cons.prems(1) other[of j] by (cases "j = k") (simp_all add: index_entry_def)
      then have "fmlookup index1 j = index_entry (?P j - insert n R)" for j unfolding one'(1) .
      then show ?thesis using one'(2) by (intro conjI ext)
    qed
  qed
  moreover have "fmlookup index' = (\<lambda>k. index_entry (?P k - (insert n R \<union> set ns))) \<and> idx' = fmupd field index' idx1"
    by (rule Cons.IH[of index1 "insert n R" idx1]) (use calculation Cons.prems(3) one in auto)
  ultimately show ?case by auto
qed

lemma unindex_field_lookup:
  assumes "fmlookup idx f = Some index" "fmlookup index = (\<lambda>k. index_entry (positions env (records d) f k))" "finite S"
  shows "\<exists>index'. fmlookup (unindex_field env d S idx f) = (fmlookup idx)(f \<mapsto> index') \<and>
    fmlookup index' = (\<lambda>k. index_entry (positions env (records d) f k - S))"
proof -
  obtain index' idx' where res: "foldl (unindex_one env d f) (index, idx) (sorted_list_of_set S) = (index', idx')" by fastforce
  have "fmlookup index' = (\<lambda>k. index_entry (positions env (records d) f k - ({} \<union> set (sorted_list_of_set S)))) \<and>
      idx' = fmupd f index' idx"
    by (rule unindex_loop[OF _ assms(1) res]) (simp add: assms(2))
  then have "fmlookup (fmupd f index' idx) = (fmlookup idx)(f \<mapsto> index')" "unindex_field env d S idx f = fmupd f index' idx"
      "fmlookup index' = (\<lambda>k. index_entry (positions env (records d) f k - S))"
    using assms(1,3) res by (auto simp: unindex_field_def fun_eq_iff)
  then show ?thesis by metis
qed

lemma unindex_lookup:
  assumes "finite S" "distinct fs"
    and "\<And>f. f \<in> set fs \<Longrightarrow> \<exists>index. fmlookup idx f = Some index \<and>
      fmlookup index = (\<lambda>k. index_entry (positions env (records d) f k))"
  shows "(f \<in> set fs \<longrightarrow> (\<exists>index. fmlookup (foldl (unindex_field env d S) idx fs) f = Some index \<and>
        fmlookup index = (\<lambda>k. index_entry (positions env (records d) f k - S)))) \<and>
    (f \<notin> set fs \<longrightarrow> fmlookup (foldl (unindex_field env d S) idx fs) f = fmlookup idx f)"
  using assms(2,3)
proof (induction fs arbitrary: idx)
  case (Cons g fs)
  let ?idx = "unindex_field env d S idx g"
  obtain index where "fmlookup idx g = Some index" "fmlookup index = (\<lambda>k. index_entry (positions env (records d) g k))"
    using Cons.prems(2)[of g] by auto
  then obtain index' where i: "fmlookup ?idx = (fmlookup idx)(g \<mapsto> index')"
      "fmlookup index' = (\<lambda>k. index_entry (positions env (records d) g k - S))"
    using unindex_field_lookup[of idx g index env d S] assms(1) by blast
  have "\<exists>index. fmlookup ?idx h = Some index \<and> fmlookup index = (\<lambda>k. index_entry (positions env (records d) h k))"
    if "h \<in> set fs" for h
    using Cons.prems(1) Cons.prems(2)[of h] that i(1) by auto
  then have IH: "(f \<in> set fs \<longrightarrow> (\<exists>index. fmlookup (foldl (unindex_field env d S) ?idx fs) f = Some index \<and>
        fmlookup index = (\<lambda>k. index_entry (positions env (records d) f k - S)))) \<and>
    (f \<notin> set fs \<longrightarrow> fmlookup (foldl (unindex_field env d S) ?idx fs) f = fmlookup ?idx f)"
    using Cons.IH[of ?idx] Cons.prems(1) by simp
  show ?case
  proof (cases "f = g")
    case True
    then have "f \<notin> set fs" using Cons.prems(1) by auto
    then have "fmlookup (foldl (unindex_field env d S) ?idx fs) f = Some index'" using IH i(1) True by simp
    then show ?thesis using i(2) True by simp
  next
    case False
    then show ?thesis using IH i(1) by simp
  qed
qed simp

text \<open>The document without the records at some positions.\<close>

lemma remove_inv:
  assumes inv: "db_inv env d" and S: "finite S"
    and d': "primary_keys d' = primary_keys d" "everything d' = everything d - S"
      "indexes d' = foldl (unindex_field env d S) (indexes d) (primary_keys d)"
      "\<And>n. rec_at (records d') n = (if n \<in> S then None else rec_at (records d) n)"
  shows "db_inv env d'"
proof (rule db_invI)
  show "primary_keys d' \<noteq> []" "distinct (primary_keys d')" using inv_pks[OF inv] d' by auto
  show "everything d' = init_everything (records d')"
    using inv_everything[OF inv] by (auto simp: d' in_everything split: if_splits)
  have pos: "positions env (records d') f k = positions env (records d) f k - S" for f k
    unfolding positions_def removed_key[OF d'(4)] by auto
  have each: "\<exists>index. fmlookup (indexes d) f = Some index \<and> fmlookup index = (\<lambda>k. index_entry (positions env (records d) f k))"
    if f: "f \<in> set (primary_keys d)" for f
  proof -
    obtain index where i: "fmlookup (indexes d) f = Some index" using inv_index(1)[OF inv f] by blast
    then show ?thesis using inv_index(3)[OF inv i] by auto
  qed
  note look = unindex_lookup[OF S conjunct2[OF inv_pks[OF inv]] each]
  have in_pks: "(\<exists>index. fmlookup (indexes d') f = Some index \<and> fmlookup index = (\<lambda>k. index_entry (positions env (records d') f k)))"
    if "f \<in> set (primary_keys d)" for f
    using look[of f] that unfolding d'(3) pos by simp
  have not_pks: "fmlookup (indexes d') f = None" if "f \<notin> set (primary_keys d)" for f
    using look[of f] that inv_index(2)[OF inv that] unfolding d'(3) by simp
  show "index_ok env (primary_keys d') (records d') (indexes d')"
    unfolding index_ok_def d'(1)
  proof (intro conjI allI impI set_eqI)
    fix f show "f \<in> fmdom' (indexes d') \<longleftrightarrow> f \<in> set (primary_keys d)"
      using in_pks[of f] not_pks[of f] by (cases "f \<in> set (primary_keys d)") (auto simp: fmlookup_dom'_iff)
  next
    fix f index assume a: "fmlookup (indexes d') f = Some index"
    then have "f \<in> set (primary_keys d)" using not_pks[of f] by auto
    then show "fmlookup index = (\<lambda>k. index_entry (positions env (records d') f k))" using in_pks[of f] a by simp
  qed
qed

lemma remove_changes:
  "snd (foldl (remove_record d) (rs, chg) ns) = chg \<union> primary_key_cols d ` {r. \<exists>n \<in> set ns. rec_at rs n = Some r}"
proof (induction ns arbitrary: rs chg)
  case (Cons m ns)
  show ?case
  proof (cases "rec_at rs m")
    case None
    then show ?thesis using Cons.IH[of rs chg] by (auto simp: remove_record_def)
  next
    case (Some r)
    have "{q. \<exists>n \<in> set (m # ns). rec_at rs n = Some q} = insert r {q. \<exists>n \<in> set ns. rec_at (rs[m := None]) n = Some q}"
    proof -
      have "n \<noteq> m" if "rec_at rs n = Some q" "q \<noteq> r" for n q using that Some by auto
      then show ?thesis using Some rec_at_lt[OF Some] by (fastforce simp: rec_at_update split: if_splits)
    qed
    then show ?thesis using Cons.IH[of "rs[m := None]" "insert (primary_key_cols d r) chg"] Some
      by (simp add: remove_record_def)
  qed
qed simp

definition rset :: "dbdoc \<Rightarrow> json_map set" where
  "rset d = {r. \<exists>n. rec_at (records d) n = Some r}"

lemma in_rset: "r \<in> rset d \<longleftrightarrow> Some r \<in> set (records d)"
  by (auto simp: rset_def rec_at_def in_set_conv_nth split: if_splits)

lemma rset_rec_list: "set (rec_list d) = rset d"
  by (force simp: rec_list_def in_rset)

lemma positions_finite: "finite (positions env rs f k)"
  by (rule finite_subset[of _ "{..<length rs}"])
     (auto simp: positions_def key_at_def dest: rec_at_lt split: option.splits)

lemma select_loop_finite:
  assumes inv: "db_inv env d"
  shows "select_loop env d n wh result = Inr S \<Longrightarrow> (\<forall>R. result = Some R \<longrightarrow> finite R \<and> R \<subseteq> everything d) \<Longrightarrow>
    finite S \<and> S \<subseteq> everything d"
proof (induction wh arbitrary: result)
  case Nil
  then show ?case using inv by (auto simp: db_inv_def split: option.splits)
next
  case (Cons x wh)
  obtain f v where x: "x = (f, v)" by (cases x)
  obtain index where index: "fmlookup (indexes d) f = Some index" using Cons.prems(1) x by (auto split: option.splits)
  let ?P = "positions env (records d) f (to_key env v)"
  have P: "finite ?P \<and> ?P \<subseteq> everything d" using positions_finite
    by (auto simp: positions_def key_at_def inv_everything[OF inv] split: option.splits)
  have look: "fmlookup index (to_key env v) = index_entry ?P" using inv_index(3)[OF inv index] .
  show ?case
  proof (cases "?P = {} \<or> n = 1")
    case True
    then have "S = {} \<or> S = ?P"
      using Cons.prems(1) by (auto simp: x index look index_entry_def split: if_splits)
    then show ?thesis using P by auto
  next
    case False
    have "select_loop env d n wh (Some (case result of None \<Rightarrow> ?P | Some s \<Rightarrow> s \<inter> ?P)) = Inr S"
      using Cons.prems(1) False by (simp add: x index look index_entry_def)
    then show ?thesis by (rule Cons.IH) (use P Cons.prems(2) in \<open>auto split: option.splits\<close>)
  qed
qed

lemma select_finite: "db_inv env d \<Longrightarrow> db_select env d wh = Inr S \<Longrightarrow> finite S \<and> S \<subseteq> everything d"
  unfolding db_select_def by (rule select_loop_finite) auto

lemma clear_inv: "db_inv env d \<Longrightarrow> db_inv env (clear_doc env d)"
  by (rule db_invI) (auto simp: clear_doc_def init_indexes_ok dest: inv_pks)

text \<open>What is deleted, given the positions that were selected.\<close>

lemma delete_selected:
  assumes inv: "db_inv env d" and S: "db_select env d wh = Inr S"
  shows "\<exists>d'. db_delete env d wh = Inr d' \<and> db_inv env d' \<and>
    primary_keys d' = primary_keys d \<and> string_cols d' = string_cols d \<and>
    (\<forall>n. rec_at (records d') n = (if n \<in> S then None else rec_at (records d) n)) \<and>
    changes d' = changes d \<union> primary_key_cols d ` {r. \<exists>n \<in> S. rec_at (records d) n = Some r}"
proof -
  have fin: "finite S" "S \<subseteq> everything d" "finite (everything d)"
    using select_finite[OF inv S] inv by (auto simp: db_inv_def)
  consider (none) "card (everything d) = 0" | (all) "card (everything d) \<noteq> 0" "card S = card (everything d)"
    | (some) "card (everything d) \<noteq> 0" "card S \<noteq> card (everything d)" by blast
  then show ?thesis
  proof cases
    case none
    then have "S = {}" using fin by auto
    then show ?thesis using none inv by (simp add: db_delete_def)
  next
    case all
    then have eq: "S = everything d" using fin by (simp add: card_subset_eq)
    have "{r. \<exists>n \<in> S. rec_at (records d) n = Some r} = rset d"
      unfolding eq rset_def by (auto simp: inv_everything[OF inv])
    moreover have "set (map the (filter (\<lambda>r. r \<noteq> None) (records d))) = rset d"
      by (force simp: in_rset)
    moreover have "rec_at [] n = None" for n by (simp add: rec_at_def)
    ultimately show ?thesis using all S clear_inv[OF inv]
      by (auto simp: db_delete_def clear_doc_def eq inv_everything[OF inv])
  next
    case some
    let ?L = "sorted_list_of_set S"
    obtain rs chg where rc: "foldl (remove_record d) (records d, changes d) ?L = (rs, chg)" by fastforce
    let ?d = "d\<lparr>records := rs, everything := everything d - S,
            indexes := foldl (unindex_field env d S) (indexes d) (primary_keys d), changes := chg\<rparr>"
    have at: "rec_at rs n = (if n \<in> S then None else rec_at (records d) n)" for n
      using remove_records[of d "records d" "changes d" ?L n] rc fin(1) by simp
    have chg: "chg = changes d \<union> primary_key_cols d ` {r. \<exists>n \<in> S. rec_at (records d) n = Some r}"
      using remove_changes[of d "records d" "changes d" ?L] rc fin(1) by simp
    have "db_inv env ?d" by (rule remove_inv[OF inv fin(1)]) (simp_all add: at)
    moreover have "db_delete env d wh = Inr ?d" using some S rc by (simp add: db_delete_def)
    ultimately show ?thesis using at chg by simp
  qed
qed

lemma db_delete_inv:
  assumes "db_inv env d" "db_delete env d wh = Inr d'"
  shows "db_inv env d' \<and> primary_keys d' = primary_keys d \<and> string_cols d' = string_cols d"
proof (cases "db_select env d wh")
  case (Inl e)
  then show ?thesis using assms by (auto simp: db_delete_def split: if_splits)
next
  case (Inr S)
  then show ?thesis using delete_selected[OF assms(1) Inr] assms(2) by auto
qed

lemma delete_array_inv:
  "db_inv env d \<Longrightarrow> delete_array env d objs = Inr d' \<Longrightarrow>
     db_inv env d' \<and> primary_keys d' = primary_keys d \<and> string_cols d' = string_cols d"
proof (induction objs arbitrary: d)
  case (Cons x objs)
  then show ?case using db_delete_inv by (fastforce split: sum.splits)
qed simp

lemma apply_patch_inv:
  "db_inv env d \<Longrightarrow> db_apply_patch env d p = Inr d' \<Longrightarrow>
     db_inv env d' \<and> primary_keys d' = primary_keys d \<and> string_cols d' = string_cols d"
proof (induction p arbitrary: d)
  case (Cons x p)
  obtain op arg where x: "x = (op, arg)" by (cases x)
  let ?one = "if op = - 1 then delete_array env d arg else if op = 1 then set_array env d arg else Inr d"
  obtain d1 where d1: "?one = Inr d1" using Cons.prems(2) x by (cases ?one) auto
  then have one: "db_inv env d1 \<and> primary_keys d1 = primary_keys d \<and> string_cols d1 = string_cols d"
  proof -
    consider "delete_array env d arg = Inr d1" | "set_array env d arg = Inr d1" | "d1 = d"
      using d1 by (cases "op = - 1"; cases "op = 1") simp_all
    then show ?thesis
      by cases (use delete_array_inv[OF Cons.prems(1)] set_array_inv[OF Cons.prems(1)] Cons.prems(1) in blast)+
  qed
  have "db_apply_patch env d1 p = Inr d'"
    using Cons.prems(2) unfolding x by (simp only: db_apply_patch.simps d1 sum.case)
  then show ?case using Cons.IH[of d1] one by simp
qed simp

lemma inv_size: "db_inv env d \<Longrightarrow> doc_size d = card {n. rec_at (records d) n \<noteq> None}"
proof -
  assume inv: "db_inv env d"
  have "everything d = {n. rec_at (records d) n \<noteq> None}" using inv_everything[OF inv] by auto
  then show ?thesis by (simp add: doc_size_def)
qed

end
