(* ===== verification/DbDocPatch.thy ===== *)
theory DbDocPatch
  imports DbDocIndex
begin

text \<open>
  Patches between documents: the patch that \<open>make_patch\<close> computes from one document to another,
  applied to the first, gives the second. It holds for documents whose primary keys tell their
  records apart and that hold no null, and the examples show what happens otherwise.
\<close>

section \<open>Documents for which patches are right\<close>

text \<open>No record has the primary keys of another, or more of them.\<close>

definition keyed :: "dbdoc \<Rightarrow> bool" where
  "keyed d \<longleftrightarrow> (\<forall>n m r s. rec_at (records d) n = Some r \<and> rec_at (records d) m = Some s \<and>
     fmsubset (primary_key_cols d r) (primary_key_cols d s) \<longrightarrow> n = m)"

text \<open>Nothing is null, not even inside a value that is a map, and string columns hold strings.\<close>

definition clean_value :: "json \<Rightarrow> bool" where
  "clean_value v \<longleftrightarrow> v \<noteq> JNull \<and> (\<forall>m. v = JObj m \<longrightarrow> (\<forall>j. fmlookup m j \<noteq> Some JNull))"

definition clean_record :: "string list \<Rightarrow> json_map \<Rightarrow> bool" where
  "clean_record cols r \<longleftrightarrow> (\<forall>k v. fmlookup r k = Some v \<longrightarrow>
     clean_value v \<and> (k \<in> set cols \<longrightarrow> (\<exists>s. v = JStr s)))"

definition proper :: "dbdoc \<Rightarrow> bool" where
  "proper d \<longleftrightarrow> keyed d \<and> (\<forall>r \<in> rset d. clean_record (string_cols d) r)"

definition env_laws :: "db_env \<Rightarrow> bool" where
  "env_laws env \<longleftrightarrow> inj (json_stable env) \<and> dmp_laws (dmp_make env) (dmp_apply env) JStr \<and>
     (\<forall>xs. set (iter env xs) = set xs \<and> (distinct xs \<longrightarrow> distinct (iter env xs)))"

definition uniq :: "dbdoc \<Rightarrow> bool" where
  "uniq d \<longleftrightarrow> (\<forall>n m r s. rec_at (records d) n = Some r \<and> rec_at (records d) m = Some s \<and>
     primary_key_cols d r = primary_key_cols d s \<longrightarrow> n = m)"

definition incomparable :: "json_map set \<Rightarrow> bool" where
  "incomparable A \<longleftrightarrow> (\<forall>a \<in> A. \<forall>b \<in> A. fmsubset a b \<longrightarrow> a = b)"

lemma fmsubset_iff: "fmsubset a b \<longleftrightarrow> (\<forall>k v. fmlookup a k = Some v \<longrightarrow> fmlookup b k = Some v)"
  by (simp add: fmsubset_alt_def fmpred_iff)

lemma fmsubset_refl: "fmsubset a a"
  by (simp add: fmsubset_iff)

lemma uniqD: "uniq d \<Longrightarrow> rec_at (records d) n = Some r \<Longrightarrow> rec_at (records d) m = Some s \<Longrightarrow>
    primary_key_cols d r = primary_key_cols d s \<Longrightarrow> n = m"
  unfolding uniq_def by blast

lemma uniq_rset: "uniq d \<Longrightarrow> r \<in> rset d \<Longrightarrow> s \<in> rset d \<Longrightarrow> primary_key_cols d r = primary_key_cols d s \<Longrightarrow> r = s"
proof -
  assume a: "uniq d" "r \<in> rset d" "s \<in> rset d" "primary_key_cols d r = primary_key_cols d s"
  then obtain n m where "rec_at (records d) n = Some r" "rec_at (records d) m = Some s" by (auto simp: rset_def)
  then show "r = s" using uniqD[OF a(1) _ _ a(4)] by fastforce
qed

lemma keyed_uniq: "keyed d \<Longrightarrow> uniq d"
  unfolding keyed_def uniq_def using fmsubset_refl by metis

lemma keyed_incomparable: "keyed d \<Longrightarrow> incomparable (primary_key_cols d ` rset d)"
proof -
  assume keyed: "keyed d"
  have "primary_key_cols d r = primary_key_cols d s"
    if a: "r \<in> rset d" "s \<in> rset d" "fmsubset (primary_key_cols d r) (primary_key_cols d s)" for r s
  proof -
    obtain n m where nm: "rec_at (records d) n = Some r" "rec_at (records d) m = Some s" using a(1,2) by (auto simp: rset_def)
    then have "n = m" using keyed a(3) unfolding keyed_def by blast
    then show ?thesis using nm by simp
  qed
  then show ?thesis unfolding incomparable_def by blast
qed

lemma keyed_iff: "keyed d \<longleftrightarrow> uniq d \<and> incomparable (primary_key_cols d ` rset d)"
proof
  assume u: "uniq d \<and> incomparable (primary_key_cols d ` rset d)"
  show "keyed d" unfolding keyed_def
  proof (intro allI impI)
    fix n m r s
    assume a: "rec_at (records d) n = Some r \<and> rec_at (records d) m = Some s \<and>
      fmsubset (primary_key_cols d r) (primary_key_cols d s)"
    then have "r \<in> rset d" "s \<in> rset d" unfolding rset_def by blast+
    then have "primary_key_cols d r = primary_key_cols d s" using u a unfolding incomparable_def by blast
    then show "n = m" using u a uniqD by blast
  qed
qed (simp add: keyed_uniq keyed_incomparable)

lemma incomparable_mono: "incomparable B \<Longrightarrow> A \<subseteq> B \<Longrightarrow> incomparable A"
  unfolding incomparable_def by blast

lemma key_lookup: "fmlookup (primary_key_cols d r) f = (if f \<in> set (primary_keys d) then fmlookup r f else None)"
  by (simp add: primary_key_cols_def)

lemma key_cong: "primary_keys d = primary_keys e \<Longrightarrow> primary_key_cols d = primary_key_cols e"
  by (simp add: primary_key_cols_def fun_eq_iff)

section \<open>Conditions that are the key of a record\<close>

text \<open>A condition with the entries of a key.\<close>

definition is_key :: "dbdoc \<Rightarrow> json_map \<Rightarrow> bool" where
  "is_key d k \<longleftrightarrow> fmdom' k \<subseteq> set (primary_keys d) \<and> (\<forall>f. fmlookup k f \<noteq> Some JNull)"

lemma key_is_key: "clean_record cols r \<Longrightarrow> is_key d (primary_key_cols d r)"
  by (auto simp: is_key_def clean_record_def clean_value_def fmlookup_dom'_iff key_lookup split: if_splits)

lemma matches_key:
  assumes "is_key d k" "set wh = set (toJS k)"
  shows "matches wh r \<longleftrightarrow> fmsubset k (primary_key_cols d r)"
proof -
  have entries: "(f, v) \<in> set wh \<longleftrightarrow> fmlookup k f = Some v" for f v using assms(2) by (simp add: in_toJS)
  have pk: "fmlookup k f = Some v \<Longrightarrow> f \<in> set (primary_keys d) \<and> v \<noteq> JNull" for f v
    using assms(1) by (auto simp: is_key_def fmlookup_dom'_iff)
  show ?thesis unfolding matches_def fmsubset_iff key_lookup using entries pk by fastforce
qed

lemma scan_key:
  assumes "is_key d k" "set wh = set (toJS k)" "incomparable (insert k (primary_key_cols d ` rset d))"
  shows "scan d wh = {n. \<exists>r. rec_at (records d) n = Some r \<and> primary_key_cols d r = k}"
proof -
  have "matches wh r \<longleftrightarrow> primary_key_cols d r = k" if "r \<in> rset d" for r
    unfolding matches_key[OF assms(1,2)] using assms(3) that fmsubset_refl unfolding incomparable_def by blast
  then show ?thesis unfolding scan_def rset_def by blast
qed

lemma key_fields: "is_key d k \<Longrightarrow> set wh = set (toJS k) \<Longrightarrow> fst ` set wh \<subseteq> set (primary_keys d)"
  using keys_toJS(1)[of k] by (auto simp: is_key_def)

lemma get_one_key:
  assumes inv: "db_inv env d" "inj (json_stable env)" and r: "r \<in> rset d" "uniq d"
    and k: "is_key d (primary_key_cols d r)" "set wh = set (toJS (primary_key_cols d r))"
    and inc: "incomparable (primary_key_cols d ` rset d)"
  shows "get_one env d wh = Inr (Some r)"
proof -
  obtain n where n: "rec_at (records d) n = Some r" using r(1) unfolding rset_def by blast
  have "insert (primary_key_cols d r) (primary_key_cols d ` rset d) = primary_key_cols d ` rset d" using r(1) by blast
  then have "scan d wh = {m. \<exists>s. rec_at (records d) m = Some s \<and> primary_key_cols d s = primary_key_cols d r}"
    using scan_key[OF k] inc by simp
  also have "\<dots> = {n}" using n r(2) unfolding uniq_def by blast
  finally have "scan d wh = {n}" .
  then show ?thesis using select_scan[OF inv key_fields[OF k]] n by (simp add: get_one_def)
qed

section \<open>Deleting keys\<close>

lemma delete_key:
  assumes inv: "db_inv env d" "inj (json_stable env)"
    and k: "is_key d k" "set wh = set (toJS k)" "incomparable (insert k (primary_key_cols d ` rset d))"
  shows "\<exists>d'. db_delete env d wh = Inr d' \<and> db_inv env d' \<and>
    primary_keys d' = primary_keys d \<and> string_cols d' = string_cols d \<and>
    rset d' = {r \<in> rset d. primary_key_cols d r \<noteq> k} \<and> (uniq d \<longrightarrow> uniq d')"
proof -
  have S: "db_select env d wh = Inr (scan d wh)" by (rule select_scan[OF inv key_fields[OF k(1,2)]])
  obtain d' where d': "db_delete env d wh = Inr d'" "db_inv env d'"
      "primary_keys d' = primary_keys d" "string_cols d' = string_cols d"
      "\<And>n. rec_at (records d') n = (if n \<in> scan d wh then None else rec_at (records d) n)"
    using delete_selected[OF inv(1) S] by blast
  have at: "rec_at (records d') n = Some r \<longleftrightarrow> rec_at (records d) n = Some r \<and> primary_key_cols d r \<noteq> k" for n r
    unfolding d'(5) scan_key[OF k] by auto
  have "rset d' = {r \<in> rset d. primary_key_cols d r \<noteq> k}" unfolding rset_def at by blast
  moreover have "uniq d \<longrightarrow> uniq d'" unfolding uniq_def at key_cong[OF d'(3)] by blast
  ultimately show ?thesis using d' by blast
qed

lemma delete_keys:
  assumes "db_inv env d" "inj (json_stable env)" "uniq d"
    and "\<And>x. x \<in> set xs \<Longrightarrow> is_key d (key x) \<and> set (wh x) = set (toJS (key x))"
    and "incomparable (key ` set xs \<union> primary_key_cols d ` rset d)"
  shows "\<exists>d'. delete_array env d (map wh xs) = Inr d' \<and> db_inv env d' \<and>
    primary_keys d' = primary_keys d \<and> string_cols d' = string_cols d \<and>
    rset d' = {r \<in> rset d. primary_key_cols d r \<notin> key ` set xs} \<and> uniq d'"
  using assms(1,3-)
proof (induction xs arbitrary: d)
  case (Cons x xs)
  have "incomparable (insert (key x) (primary_key_cols d ` rset d))"
    using Cons.prems(4) by (rule incomparable_mono) auto
  then obtain d1 where d1: "db_delete env d (wh x) = Inr d1" "db_inv env d1" "primary_keys d1 = primary_keys d"
      "string_cols d1 = string_cols d" "rset d1 = {r \<in> rset d. primary_key_cols d r \<noteq> key x}" "uniq d1"
    using delete_key[OF Cons.prems(1) assms(2), of "key x" "wh x"] Cons.prems(2,3) by auto
  note key = key_cong[OF d1(3)]
  have "incomparable (key ` set xs \<union> primary_key_cols d1 ` rset d1)"
    using Cons.prems(4) by (rule incomparable_mono) (auto simp: key d1(5))
  moreover have "\<And>x. x \<in> set xs \<Longrightarrow> is_key d1 (key x) \<and> set (wh x) = set (toJS (key x))"
    using Cons.prems(3) unfolding is_key_def d1(3) by auto
  ultimately obtain d' where d': "delete_array env d1 (map wh xs) = Inr d'" "db_inv env d'" "primary_keys d' = primary_keys d1"
      "string_cols d' = string_cols d1" "rset d' = {r \<in> rset d1. primary_key_cols d1 r \<notin> key ` set xs}" "uniq d'"
    using Cons.IH[OF d1(2,6)] by blast
  have "rset d' = {r \<in> rset d. primary_key_cols d r \<notin> key ` set (x # xs)}" unfolding d'(5) d1(5) key by auto
  then show ?case using d1 d' by simp
qed simp

section \<open>Setting records\<close>

lemma replace_at:
  assumes u: "uniq d" and pk: "primary_keys d' = primary_keys d"
    and at: "\<And>m. rec_at (records d') m = (if m = n then Some t else rec_at (records d) m)"
    and k: "primary_key_cols d t = k"
    and others: "\<And>m r. rec_at (records d) m = Some r \<Longrightarrow> primary_key_cols d r = k \<longleftrightarrow> m = n"
  shows "rset d' = insert t {r \<in> rset d. primary_key_cols d r \<noteq> k} \<and> uniq d'"
proof
  have iff: "rec_at (records d') m = Some r \<longleftrightarrow>
      (m = n \<and> r = t) \<or> (m \<noteq> n \<and> rec_at (records d) m = Some r \<and> primary_key_cols d r \<noteq> k)" for m r
    using at[of m] others[of m r] by auto
  show "rset d' = insert t {r \<in> rset d. primary_key_cols d r \<noteq> k}"
    unfolding rset_def iff using others by auto
  have "m = p" if "rec_at (records d') m = Some r" "rec_at (records d') p = Some s"
      "primary_key_cols d r = primary_key_cols d s" for m p r s
    using that k u unfolding iff by (auto dest: uniqD)
  then show "uniq d'" unfolding uniq_def key_cong[OF pk] by blast
qed

lemma set_to:
  assumes inv: "db_inv env d" "inj (json_stable env)" and p: "db_parse d obj = (wh, st)"
    and k: "is_key d k" "set wh = set (toJS k)" "incomparable (insert k (primary_key_cols d ` rset d))"
    and u: "uniq d" and t: "primary_key_cols d t = k"
    and edit: "\<And>r. r \<in> rset d \<Longrightarrow> primary_key_cols d r = k \<Longrightarrow> edit_fields env (string_cols d) r st r = Inr t"
    and new: "k \<notin> primary_key_cols d ` rset d \<Longrightarrow> new_record d obj = t"
  shows "\<exists>d'. db_set env d obj = Inr d' \<and> db_inv env d' \<and>
    primary_keys d' = primary_keys d \<and> string_cols d' = string_cols d \<and>
    rset d' = insert t {r \<in> rset d. primary_key_cols d r \<noteq> k} \<and> uniq d'"
proof -
  have S: "db_select env d wh = Inr (scan d wh)" by (rule select_scan[OF inv key_fields[OF k(1,2)]])
  note scan = scan_key[OF k]
  have "\<exists>d'. db_set env d obj = Inr d' \<and> (\<exists>n. primary_keys d' = primary_keys d \<and>
      (\<forall>m. rec_at (records d') m = (if m = n then Some t else rec_at (records d) m)) \<and>
      (\<forall>m r. rec_at (records d) m = Some r \<longrightarrow> (primary_key_cols d r = k \<longleftrightarrow> m = n)))"
  proof (cases "k \<in> primary_key_cols d ` rset d")
    case True
    then obtain n r where n: "rec_at (records d) n = Some r" "primary_key_cols d r = k" unfolding rset_def by auto
    have only: "rec_at (records d) m = Some s \<Longrightarrow> primary_key_cols d s = k \<longleftrightarrow> m = n" for m s
      using u n unfolding uniq_def by auto
    have "scan d wh = {n}" unfolding scan using n only by auto
    moreover have "edit_fields env (string_cols d) r st r = Inr t" using edit n unfolding rset_def by blast
    moreover define d1 where "d1 = (if r = t then d else
        d\<lparr>records := (records d)[n := Some t], changes := insert (primary_key_cols d t) (changes d)\<rparr>)"
    ultimately have "db_set env d obj = Inr d1"
      by (simp add: db_set_def p S edit_record_cases[OF n(1)])
    moreover have "rec_at (records d1) m = (if m = n then Some t else rec_at (records d) m)" for m
      using n(1) rec_at_lt[OF n(1)] by (auto simp: d1_def rec_at_update)
    moreover have "primary_keys d1 = primary_keys d" by (simp add: d1_def)
    ultimately show ?thesis using only by blast
  next
    case False
    then have "scan d wh = {}" unfolding scan rset_def by auto
    then have "db_set env d obj = Inr (append_record env d obj)" by (simp add: db_set_def p S)
    moreover have "rec_at (records d) m = Some r \<longrightarrow> (primary_key_cols d r = k \<longleftrightarrow> m = length (records d))" for m r
      using False rec_at_lt[of "records d" m r] unfolding rset_def by auto
    moreover have "rec_at (records d @ [Some t]) m = (if m = length (records d) then Some t else rec_at (records d) m)" for m
      by (simp add: rec_at_append)
    ultimately show ?thesis using new[OF False] by (metis append_record_simps(1,3))
  qed
  then obtain d' n where d': "db_set env d obj = Inr d'" "primary_keys d' = primary_keys d"
      "\<And>m. rec_at (records d') m = (if m = n then Some t else rec_at (records d) m)"
      "\<And>m r. rec_at (records d) m = Some r \<Longrightarrow> (primary_key_cols d r = k \<longleftrightarrow> m = n)"
    by blast
  then show ?thesis using db_set_inv[OF inv(1) d'(1)] replace_at[OF u d'(2,3) t d'(4)] by blast
qed

text \<open>Objects with different keys; \<open>goal x\<close> is the record that \<open>item x\<close> must lead to.\<close>

lemma set_all:
  assumes "inj (json_stable env)"
    and "db_inv env d" "uniq d" "distinct (map (primary_key_cols d \<circ> goal) xs)"
    and "incomparable (primary_key_cols d ` (goal ` set xs \<union> rset d))"
    and "\<And>x. x \<in> set xs \<Longrightarrow> is_key d (primary_key_cols d (goal x)) \<and>
      set (fst (db_parse d (item x))) = set (toJS (primary_key_cols d (goal x)))"
    and "\<And>x r. x \<in> set xs \<Longrightarrow> r \<in> rset d \<Longrightarrow> primary_key_cols d r = primary_key_cols d (goal x) \<Longrightarrow>
      edit_fields env (string_cols d) r (snd (db_parse d (item x))) r = Inr (goal x)"
    and "\<And>x. x \<in> set xs \<Longrightarrow> primary_key_cols d (goal x) \<notin> primary_key_cols d ` rset d \<Longrightarrow> new_record d (item x) = goal x"
  shows "\<exists>d'. set_array env d (map item xs) = Inr d' \<and> db_inv env d' \<and>
    primary_keys d' = primary_keys d \<and> string_cols d' = string_cols d \<and>
    rset d' = goal ` set xs \<union> {r \<in> rset d. primary_key_cols d r \<notin> primary_key_cols d ` goal ` set xs} \<and> uniq d'"
  using assms(2-)
proof (induction xs arbitrary: d)
  case (Cons x xs)
  let ?k = "primary_key_cols d (goal x)"
  have "incomparable (insert ?k (primary_key_cols d ` rset d))"
    using Cons.prems(4) by (rule incomparable_mono) auto
  then obtain d1 where d1: "db_set env d (item x) = Inr d1" "db_inv env d1" "primary_keys d1 = primary_keys d"
      "string_cols d1 = string_cols d" "rset d1 = insert (goal x) {r \<in> rset d. primary_key_cols d r \<noteq> ?k}" "uniq d1"
    using set_to[OF Cons.prems(1) assms(1), of "item x" "fst (db_parse d (item x))" "snd (db_parse d (item x))" ?k "goal x"]
      Cons.prems(2,5,6,7) by auto
  note key = key_cong[OF d1(3)]
  have parse: "db_parse d1 = db_parse d" by (simp add: db_parse_def d1(3) fun_eq_iff)
  have rec: "new_record d1 = new_record d" by (simp add: new_record_def d1(4) fun_eq_iff)
  have other: "primary_key_cols d (goal y) \<noteq> ?k" if "y \<in> set xs" for y
    using Cons.prems(3) that by (auto simp: image_iff)
  have "\<exists>d'. set_array env d1 (map item xs) = Inr d' \<and> db_inv env d' \<and>
    primary_keys d' = primary_keys d1 \<and> string_cols d' = string_cols d1 \<and>
    rset d' = goal ` set xs \<union> {r \<in> rset d1. primary_key_cols d1 r \<notin> primary_key_cols d1 ` goal ` set xs} \<and> uniq d'"
  proof (rule Cons.IH[OF d1(2,6)])
    show "distinct (map (primary_key_cols d1 \<circ> goal) xs)" using Cons.prems(3) by (simp add: key comp_def)
    show "incomparable (primary_key_cols d1 ` (goal ` set xs \<union> rset d1))"
      using Cons.prems(4) unfolding key d1(5) by (rule incomparable_mono) auto
    fix y assume y: "y \<in> set xs"
    show "is_key d1 (primary_key_cols d1 (goal y)) \<and>
        set (fst (db_parse d1 (item y))) = set (toJS (primary_key_cols d1 (goal y)))"
      using Cons.prems(5)[of y] y by (simp add: key parse is_key_def d1(3))
    show "edit_fields env (string_cols d1) r (snd (db_parse d1 (item y))) r = Inr (goal y)"
      if "r \<in> rset d1" "primary_key_cols d1 r = primary_key_cols d1 (goal y)" for r
      using Cons.prems(6)[of y r] y that other[OF y] by (auto simp: key parse d1(4,5))
    show "new_record d1 (item y) = goal y" if "primary_key_cols d1 (goal y) \<notin> primary_key_cols d1 ` rset d1"
    proof -
      have "primary_key_cols d (goal y) \<notin> primary_key_cols d ` rset d"
      proof
        assume "primary_key_cols d (goal y) \<in> primary_key_cols d ` rset d"
        then obtain r where "r \<in> rset d" "primary_key_cols d r = primary_key_cols d (goal y)" by (metis imageE)
        then have "primary_key_cols d (goal y) \<in> primary_key_cols d ` rset d1"
          unfolding d1(5) using other[OF y] by (metis (mono_tags, lifting) image_eqI insertCI mem_Collect_eq)
        then show False using that unfolding key by blast
      qed
      then show ?thesis using Cons.prems(7)[of y] y rec by simp
    qed
  qed
  then obtain d' where d': "set_array env d1 (map item xs) = Inr d'" "db_inv env d'" "primary_keys d' = primary_keys d1"
      "string_cols d' = string_cols d1"
      "rset d' = goal ` set xs \<union> {r \<in> rset d1. primary_key_cols d1 r \<notin> primary_key_cols d1 ` goal ` set xs}" "uniq d'"
    by blast
  have "?k \<notin> primary_key_cols d ` goal ` set xs" using other by force
  then have "rset d' = goal ` set (x # xs) \<union>
      {r \<in> rset d. primary_key_cols d r \<notin> primary_key_cols d ` goal ` set (x # xs)}"
    unfolding d'(5) d1(5) key by auto
  then show ?case using d1 d' by simp
qed simp

section \<open>The change of one record\<close>

definition edited :: "db_env \<Rightarrow> string list \<Rightarrow> string \<Rightarrow> json \<Rightarrow> json option \<Rightarrow> json option" where
  "edited env cols f v old =
     (if v = JNull then None
      else if f \<in> set cols then (case v of JArr p \<Rightarrow> Some (patched env p old) | _ \<Rightarrow> Some (new_value old v))
      else Some (new_value old v))"

lemma edit_fields_lookup:
  assumes "distinct (map fst st)" "\<And>f v. (f, v) \<in> set st \<Longrightarrow> f \<in> set cols \<Longrightarrow> v = JNull \<or> is_array v \<or> (\<exists>s. v = JStr s)"
    and "\<And>f. f \<in> fst ` set st \<Longrightarrow> fmlookup prev f = fmlookup r f"
  shows "\<exists>r'. edit_fields env cols prev st r = Inr r' \<and>
    (\<forall>j. fmlookup r' j = (case map_of st j of None \<Rightarrow> fmlookup r j | Some v \<Rightarrow> edited env cols j v (fmlookup r j)))"
  using assms
proof (induction st arbitrary: r)
  case (Cons x st)
  obtain f v where x: "x = (f, v)" by (cases x)
  let ?r = "(case edited env cols f v (fmlookup r f) of None \<Rightarrow> fmdrop f r | Some w \<Rightarrow> fmupd f w r)"
  have prev: "fmlookup prev f = fmlookup r f" using Cons.prems(3)[of f] x by simp
  have step: "edit_fields env cols prev ((f, v) # st) r = edit_fields env cols prev st ?r"
    using Cons.prems(2)[of f v] x prev by (cases v) (auto simp: edited_def)
  have out: "f \<notin> fst ` set st" using Cons.prems(1) x by auto
  have "\<exists>r'. edit_fields env cols prev st ?r = Inr r' \<and>
      (\<forall>j. fmlookup r' j = (case map_of st j of None \<Rightarrow> fmlookup ?r j | Some v \<Rightarrow> edited env cols j v (fmlookup ?r j)))"
  proof (rule Cons.IH)
    show "distinct (map fst st)" using Cons.prems(1) x by simp
    show "\<And>f v. (f, v) \<in> set st \<Longrightarrow> f \<in> set cols \<Longrightarrow> v = JNull \<or> is_array v \<or> (\<exists>s. v = JStr s)"
      using Cons.prems(2) x by (meson list.set_intros(2))
    show "fmlookup prev g = fmlookup ?r g" if "g \<in> fst ` set st" for g
      using Cons.prems(3)[of g] that out x by (auto split: option.split)
  qed
  then obtain r' where r': "edit_fields env cols prev st ?r = Inr r'"
      "\<And>j. fmlookup r' j = (case map_of st j of None \<Rightarrow> fmlookup ?r j | Some v \<Rightarrow> edited env cols j v (fmlookup ?r j))"
    by blast
  have look: "fmlookup ?r j = (if j = f then edited env cols f v (fmlookup r f) else fmlookup r j)" for j
    by (auto split: option.split)
  have "map_of st f = None" using out by (simp add: map_of_eq_None_iff)
  then have "fmlookup r' j = (case map_of (x # st) j of None \<Rightarrow> fmlookup r j | Some v \<Rightarrow> edited env cols j v (fmlookup r j))" for j
    unfolding r'(2) look x by (cases "j = f") (auto split: option.split)
  then show ?case using r'(1) step x by auto
qed simp

text \<open>What \<open>make_patch\<close> writes for a field of the new record, if anything.\<close>

definition diff_value :: "db_env \<Rightarrow> dbdoc \<Rightarrow> json option \<Rightarrow> string \<Rightarrow> json \<Rightarrow> json option" where
  "diff_value env d old key v =
     (if old = Some v then None
      else if key \<in> set (string_cols d) \<and> \<not> is_nil old \<and> v \<noteq> JNull then
        (case (old, v) of (Some (JStr a), JStr b) \<Rightarrow> Some (JArr (make_patch (dmp_make env) a b)) | _ \<Rightarrow> None)
      else (case (old, v) of (Some (JObj a), JObj b) \<Rightarrow> Some (JObj (map_merge_patch a b)) | _ \<Rightarrow> Some v))"

lemma diff_field_eq:
  "diff_field env d from0 obj (key, v) =
     (case diff_value env d (fmlookup from0 key) key v of None \<Rightarrow> obj | Some w \<Rightarrow> obj_set key w obj)"
  by (auto simp: diff_field_def diff_value_def split: option.split json.split)

lemma diff_record_lookup:
  "map_of (diff_record env d obj from0 to0) j =
     (case fmlookup to0 j of
        None \<Rightarrow> (if fmlookup from0 j = None then map_of obj j else Some JNull)
      | Some v \<Rightarrow>
          (case diff_value env d (fmlookup from0 j) j v of
             None \<Rightarrow> (if fmlookup from0 j \<noteq> None \<and> v = JNull then Some JNull else map_of obj j)
           | Some w \<Rightarrow> Some w))"
proof -
  have del: "map_of (diff_deleted from0 to0 obj) j =
      (if fmlookup from0 j \<noteq> None \<and> is_nil (fmlookup to0 j) then Some JNull else map_of obj j)" for j
    unfolding diff_deleted_def
    by (subst foldl_lookup[where look = map_of and g = "\<lambda>k v old. if is_nil (fmlookup to0 k) then Some JNull else old"])
       (auto simp: keys_toJS fun_eq_iff update_conv' split: option.split)
  show ?thesis
    unfolding diff_record_def
    by (subst foldl_lookup[where look = map_of and
          g = "\<lambda>k v old. case diff_value env d (fmlookup from0 k) k v of None \<Rightarrow> old | Some w \<Rightarrow> Some w"])
       (auto simp: keys_toJS fun_eq_iff diff_field_eq update_conv' del is_nil_def split: option.split)
qed

lemma diff_record_distinct: "distinct (map fst obj) \<Longrightarrow> distinct (map fst (diff_record env d obj from0 to0))"
proof -
  have "distinct (map fst obj) \<Longrightarrow>
      distinct (map fst (foldl (\<lambda>obj (key, _). if is_nil (fmlookup to0 key) then obj_set key JNull obj else obj) obj xs))" for obj and xs :: "(string \<times> json) list"
    by (induction xs arbitrary: obj) (auto simp: distinct_update)
  then have "distinct (map fst obj) \<Longrightarrow> distinct (map fst (diff_deleted from0 to0 obj))" by (simp add: diff_deleted_def)
  moreover have "distinct (map fst acc) \<Longrightarrow> distinct (map fst (foldl (diff_field env d from0) acc xs))" for acc xs
    by (induction xs arbitrary: acc) (auto simp: diff_field_eq distinct_update split: option.split)
  ultimately show "distinct (map fst obj) \<Longrightarrow> distinct (map fst (diff_record env d obj from0 to0))"
    by (simp add: diff_record_def)
qed

lemma map_of_filter_key: "map_of (filter (\<lambda>(k, v). P k) xs) j = (if P j then map_of xs j else None)"
  by (induction xs) auto

lemma clean_lookup:
  assumes "clean_record cols r" "fmlookup r k = Some v"
  shows "v \<noteq> JNull" "v = JObj m \<Longrightarrow> fmlookup m j \<noteq> Some JNull" "k \<in> set cols \<Longrightarrow> \<exists>s. v = JStr s"
  using assms unfolding clean_record_def clean_value_def by blast+

lemma edited_diff:
  assumes laws: "dmp_laws (dmp_make env) (dmp_apply env) JStr"
    and clean: "\<And>v. old = Some v \<Longrightarrow> clean_value v \<and> (f \<in> set (string_cols d) \<longrightarrow> (\<exists>s. v = JStr s))"
      "clean_value v" "f \<in> set (string_cols d) \<Longrightarrow> \<exists>s. v = JStr s"
    and w: "diff_value env d old f v = Some w"
  shows "edited env (string_cols d) f w old = Some v"
proof (cases "f \<in> set (string_cols d)")
  case True
  then obtain s where s: "v = JStr s" using clean(3) by blast
  show ?thesis
  proof (cases old)
    case None
    then show ?thesis using w s True by (auto simp: diff_value_def edited_def new_value_def)
  next
    case (Some b)
    then obtain a where a: "b = JStr a" using clean(1) True by blast
    then have "w = JArr (make_patch (dmp_make env) a s)"
      using w s True Some by (auto simp: diff_value_def is_nil_def split: if_splits)
    then show ?thesis using True Some a s apply_make_patch[OF laws, of a s] by (simp add: edited_def patched_def)
  qed
next
  case False
  consider (maps) a b where "old = Some (JObj a)" "v = JObj b" | (other) "\<not> (\<exists>a b. old = Some (JObj a) \<and> v = JObj b)" by blast
  then show ?thesis
  proof cases
    case maps
    then have w': "w = JObj (map_merge_patch a b)" using w False by (auto simp: diff_value_def split: if_splits)
    have "fmlookup b k \<noteq> Some JNull" for k using clean(2) maps(2) by (simp add: clean_value_def)
    then have "merge_set a (map_merge_patch a b) = b" by (rule merge_set_map_merge_patch)
    then show ?thesis using False maps w' by (simp add: edited_def new_value_def)
  next
    case other
    then have "w = v" using w False by (auto simp: diff_value_def split: if_splits option.splits json.splits)
    moreover have "new_value old v = v" using other by (auto simp: new_value_def split: option.splits json.splits)
    moreover have "v \<noteq> JNull" using clean(2) by (simp add: clean_value_def)
    ultimately show ?thesis using False by (simp add: edited_def)
  qed
qed

lemma diff_value_kind:
  assumes "diff_value env d old f v = Some w" "f \<in> set (string_cols d)" "\<exists>s. v = JStr s"
  shows "is_array w \<or> (\<exists>s. w = JStr s)"
  using assms by (auto simp: diff_value_def split: if_splits option.splits json.splits)

text \<open>The object for a changed record finds the record by its key and turns it into the new one.\<close>

lemma diff_record_parse:
  assumes "clean_record cols t" "primary_key_cols d from0 = primary_key_cols d t"
    and obj: "obj = diff_record env d (toJS (primary_key_cols d t)) from0 t"
  shows "set (fst (db_parse d obj)) = set (toJS (primary_key_cols d t))"
    and "distinct (map fst obj)"
    and "map_of (snd (db_parse d obj)) j = (if j \<in> set (primary_keys d) then None else map_of obj j)"
proof -
  show dist: "distinct (map fst obj)" unfolding obj by (rule diff_record_distinct[OF keys_toJS(2)])
  show "map_of (snd (db_parse d obj)) j = (if j \<in> set (primary_keys d) then None else map_of obj j)"
    using map_of_filter_key[of "\<lambda>f. f \<notin> set (primary_keys d)" obj j] by (simp add: db_parse_def)
  have key: "map_of obj f = fmlookup t f" if f: "f \<in> set (primary_keys d)" for f
  proof -
    have "fmlookup from0 f = fmlookup t f" using assms(2) f key_lookup by metis
    then show ?thesis unfolding obj diff_record_lookup using f clean_lookup(1)[OF assms(1), of f]
      by (auto simp: key_lookup diff_value_def split: option.split)
  qed
  have "(f, v) \<in> set (fst (db_parse d obj)) \<longleftrightarrow> (f, v) \<in> set (toJS (primary_key_cols d t))" for f v
    using key[of f] clean_lookup(1)[OF assms(1), of f v] dist
    by (auto simp: db_parse_def in_toJS key_lookup)
  then show "set (fst (db_parse d obj)) = set (toJS (primary_key_cols d t))" by auto
qed

lemma edit_diff:
  assumes laws: "dmp_laws (dmp_make env) (dmp_apply env) JStr"
    and clean: "clean_record (string_cols d) from0" "clean_record (string_cols d) t"
    and key: "primary_key_cols d from0 = primary_key_cols d t"
    and obj: "obj = diff_record env d (toJS (primary_key_cols d t)) from0 t"
  shows "edit_fields env (string_cols d) from0 (snd (db_parse d obj)) from0 = Inr t"
proof -
  let ?st = "snd (db_parse d obj)"
  note parse = diff_record_parse[OF clean(2) key obj]
  have look: "map_of ?st j = (if j \<in> set (primary_keys d) then None
      else case fmlookup t j of
        None \<Rightarrow> (if fmlookup from0 j = None then None else Some JNull)
      | Some v \<Rightarrow> diff_value env d (fmlookup from0 j) j v)" for j
    unfolding parse(3) unfolding obj diff_record_lookup using clean_lookup(1)[OF clean(2), of j]
    by (auto simp: key_lookup split: option.split)
  have dist: "distinct (map fst ?st)"
    using parse(2) by (simp add: db_parse_def distinct_map_filter)
  have kind: "v = JNull \<or> is_array v \<or> (\<exists>s. v = JStr s)" if v: "(f, v) \<in> set ?st" "f \<in> set (string_cols d)" for f v
  proof -
    have some: "map_of ?st f = Some v" using v(1) dist by simp
    show ?thesis
    proof (cases "fmlookup t f")
      case None
      then show ?thesis using some look[of f] by (auto split: if_splits)
    next
      case (Some u)
      then have "diff_value env d (fmlookup from0 f) f u = Some v" using some look[of f] by (auto split: if_splits)
      then show ?thesis using diff_value_kind v(2) clean_lookup(3)[OF clean(2) Some v(2)] by blast
    qed
  qed
  obtain r' where r': "edit_fields env (string_cols d) from0 ?st from0 = Inr r'"
      "\<And>j. fmlookup r' j = (case map_of ?st j of None \<Rightarrow> fmlookup from0 j
        | Some v \<Rightarrow> edited env (string_cols d) j v (fmlookup from0 j))"
    using edit_fields_lookup[OF dist, of "string_cols d" from0 from0 env] kind by blast
  have "fmlookup r' j = fmlookup t j" for j
  proof (cases "j \<in> set (primary_keys d)")
    case True
    then show ?thesis using key key_lookup[of d from0 j] key_lookup[of d t j] by (simp add: r'(2) look)
  next
    case False
    show ?thesis
    proof (cases "fmlookup t j")
      case None
      then show ?thesis using False by (auto simp: r'(2) look edited_def split: option.split)
    next
      case (Some v)
      show ?thesis
      proof (cases "diff_value env d (fmlookup from0 j) j v")
        case None
        have "fmlookup from0 j = Some v"
          using None clean_lookup[OF clean(2) Some] clean_lookup(3)[OF clean(1)]
          by (fastforce simp: diff_value_def not_nil split: if_splits option.splits json.splits)
        then show ?thesis using False Some None by (simp add: r'(2) look)
      next
        case w: (Some w)
        have "edited env (string_cols d) j w (fmlookup from0 j) = Some v"
        proof (rule edited_diff[OF laws _ _ _ w])
          show "clean_value u \<and> (j \<in> set (string_cols d) \<longrightarrow> (\<exists>s. u = JStr s))" if "fmlookup from0 j = Some u" for u
            using clean(1) that unfolding clean_record_def by blast
          show "clean_value v" using clean(2) Some unfolding clean_record_def by blast
          show "j \<in> set (string_cols d) \<Longrightarrow> \<exists>s. v = JStr s" using clean_lookup(3)[OF clean(2) Some] .
        qed
        then show ?thesis using False Some w by (simp add: r'(2) look)
      qed
    qed
  qed
  then have "r' = t" by (rule fmap_ext)
  then show ?thesis using r'(1) by simp
qed

text \<open>A clean record that is not there yet is appended as it is.\<close>

lemma drop_patches_id: "(\<And>f p. f \<in> set cols \<Longrightarrow> map_of obj f \<noteq> Some (JArr p)) \<Longrightarrow> drop_patches cols obj = obj"
proof -
  assume none: "\<And>f p. f \<in> set cols \<Longrightarrow> map_of obj f \<noteq> Some (JArr p)"
  have "(case map_of obj f of Some (JArr p) \<Rightarrow> obj_del f obj | _ \<Rightarrow> obj) = obj" if "f \<in> set cols" for f
    using none[OF that] by (auto split: option.split json.split)
  then show ?thesis using none unfolding drop_patches_def by (induction cols) auto
qed

lemma new_record_clean:
  assumes "clean_record (string_cols d) r"
  shows "new_record d (toJS r) = r"
proof -
  have "drop_patches (string_cols d) (toJS r) = toJS r"
    by (rule drop_patches_id) (use clean_lookup(3)[OF assms] in fastforce)
  then show ?thesis unfolding new_record_def
    by (simp add: nonnull_cols_id clean_lookup(1)[OF assms]) (metis clean_lookup(1)[OF assms] nonnull_cols_id)
qed

lemma parse_toJS:
  "set (fst (db_parse d (toJS r))) = set (toJS (primary_key_cols d r))" if "clean_record cols r"
proof -
  have "(f, v) \<in> set (fst (db_parse d (toJS r))) \<longleftrightarrow> (f, v) \<in> set (toJS (primary_key_cols d r))" for f v
    using clean_lookup(1)[OF that, of f v] by (auto simp: db_parse_def in_toJS key_lookup)
  then show ?thesis by auto
qed

lemma parse_part: "set (primary_key_part d (toJS x)) = set (toJS (primary_key_cols d x))"
  by (auto simp: primary_key_part_def in_toJS key_lookup split: if_splits)

section \<open>The patch from one document to another\<close>

lemma rset_Some: "insert None (set (records d)) = insert None (Some ` rset d)"
proof -
  have "x \<in> insert None (set (records d)) \<longleftrightarrow> x \<in> insert None (Some ` rset d)" for x
    by (cases x) (auto simp: in_rset)
  then show ?thesis by blast
qed

lemma size_rset: "db_inv env d \<Longrightarrow> uniq d \<Longrightarrow> doc_size d = card (rset d)"
proof -
  assume inv: "db_inv env d" and u: "uniq d"
  let ?N = "{n. rec_at (records d) n \<noteq> None}"
  have "inj_on (\<lambda>n. the (rec_at (records d) n)) ?N"
    using uniqD[OF u] by (auto simp: inj_on_def)
  moreover have "(\<lambda>n. the (rec_at (records d) n)) ` ?N = rset d" by (force simp: rset_def)
  ultimately show ?thesis unfolding inv_size[OF inv] by (metis card_image)
qed

lemma is_equal_rset:
  assumes "db_inv env c" "uniq c" "db_inv env d" "uniq d" "rset c = rset d"
  shows "db_is_equal c (Some d)"
  using assms size_rset[of env c] size_rset[of env d] by (simp add: db_is_equal_def rset_Some)

lemma proper_props: "proper d \<Longrightarrow> uniq d \<and> incomparable (primary_key_cols d ` rset d)"
  by (simp add: proper_def keyed_iff)

lemma proper_clean: "proper d \<Longrightarrow> r \<in> rset d \<Longrightarrow> clean_record (string_cols d) r"
  by (simp add: proper_def)

lemma apply_delete: "db_apply_patch env d ((- 1, ws) # p) =
    (case delete_array env d ws of Inl e \<Rightarrow> Inl e | Inr d' \<Rightarrow> db_apply_patch env d' p)"
  by simp

lemma apply_set: "db_apply_patch env d [(1, ws)] = set_array env d ws"
  by (simp split: sum.split)

text \<open>Both documents of the patch.\<close>

definition patchable :: "db_env \<Rightarrow> dbdoc \<Rightarrow> dbdoc \<Rightarrow> bool" where
  "patchable env a b \<longleftrightarrow> env_laws env \<and> db_inv env a \<and> proper a \<and> db_inv env b \<and> proper b \<and>
     primary_keys b = primary_keys a \<and> string_cols b = string_cols a"

definition reaches :: "db_env \<Rightarrow> dbdoc \<Rightarrow> dbdoc \<Rightarrow> dbdoc \<Rightarrow> bool" where
  "reaches env a b c \<longleftrightarrow> db_inv env c \<and> primary_keys c = primary_keys a \<and> string_cols c = string_cols a \<and>
     rset c = rset b \<and> uniq c"

lemma patch_to_empty:
  assumes "patchable env a b" "rset b = {}"
  shows "\<exists>c. db_apply_patch env a [(- 1, [[]])] = Inr c \<and> reaches env a b c"
proof -
  have a: "db_inv env a" "inj (json_stable env)" using assms(1) by (auto simp: patchable_def env_laws_def)
  have S: "db_select env a [] = Inr (scan a [])" by (rule select_scan[OF a]) simp
  obtain c where c: "db_delete env a [] = Inr c" "db_inv env c" "primary_keys c = primary_keys a"
      "string_cols c = string_cols a" "\<And>n. rec_at (records c) n = (if n \<in> scan a [] then None else rec_at (records a) n)"
    using delete_selected[OF a(1) S] by blast
  have "rec_at (records c) n = None" for n
    unfolding c(5) by (cases "rec_at (records a) n") (auto simp: scan_def matches_def)
  then have "rset c = {} \<and> uniq c" by (simp add: rset_def uniq_def)
  then show ?thesis using c(1-4) assms(2) by (simp add: reaches_def)
qed

lemma patch_only_inserts:
  assumes p: "patchable env a b" and t1: "set objs = rset b - rset a" "rset a \<subseteq> rset b" "distinct objs"
  shows "\<exists>c. db_apply_patch env a [(1, map toJS objs)] = Inr c \<and> reaches env a b c"
proof -
  have a: "db_inv env a" "inj (json_stable env)" "proper a" "proper b"
    and pk: "primary_keys b = primary_keys a" "string_cols b = string_cols a"
    using p by (auto simp: patchable_def env_laws_def)
  note key = key_cong[OF pk(1)]
  have objs: "r \<in> rset b \<and> r \<notin> rset a" if "r \<in> set objs" for r using that t1(1) by auto
  have clean: "clean_record (string_cols a) r" if "r \<in> set objs" for r
    using proper_clean[OF a(4)] objs[OF that] pk(2) by simp
  have new: "primary_key_cols a r \<notin> primary_key_cols a ` rset a" if r: "r \<in> set objs" for r
  proof
    assume "primary_key_cols a r \<in> primary_key_cols a ` rset a"
    then obtain s where s: "s \<in> rset a" "primary_key_cols a r = primary_key_cols a s" by blast
    then have "r = s" using uniq_rset[of b r s] proper_props[OF a(4)] objs[OF r] t1(2) unfolding key by blast
    then show False using s(1) objs[OF r] by blast
  qed
  have inj: "inj_on (primary_key_cols a) (set objs)"
    using uniq_rset[of b] proper_props[OF a(4)] objs unfolding key inj_on_def by blast
  have "\<exists>c. set_array env a (map toJS objs) = Inr c \<and> db_inv env c \<and>
    primary_keys c = primary_keys a \<and> string_cols c = string_cols a \<and>
    rset c = (\<lambda>r. r) ` set objs \<union> {r \<in> rset a. primary_key_cols a r \<notin> primary_key_cols a ` (\<lambda>r. r) ` set objs} \<and> uniq c"
  proof (rule set_all[OF a(2,1)])
    show "uniq a" using proper_props[OF a(3)] by blast
    show "distinct (map (primary_key_cols a \<circ> (\<lambda>r. r)) objs)"
      using inj t1(3) by (simp add: comp_def distinct_map)
    show "incomparable (primary_key_cols a ` ((\<lambda>r. r) ` set objs \<union> rset a))"
      by (rule incomparable_mono[OF conjunct2[OF proper_props[OF a(4)]]])
        (use objs t1(2) in \<open>auto simp: key\<close>)
    fix x assume x: "x \<in> set objs"
    show "is_key a (primary_key_cols a x) \<and> set (fst (db_parse a (toJS x))) = set (toJS (primary_key_cols a x))"
      using key_is_key[OF clean[OF x]] parse_toJS[OF clean[OF x]] by blast
    show "new_record a (toJS x) = x" by (rule new_record_clean[OF clean[OF x]])
    show "edit_fields env (string_cols a) r (snd (db_parse a (toJS x))) r = Inr x"
      if "r \<in> rset a" "primary_key_cols a r = primary_key_cols a x" for r
    proof -
      have "primary_key_cols a x \<in> primary_key_cols a ` rset a" using that by (metis imageI)
      then show ?thesis using new[OF x] by contradiction
    qed
  qed
  then obtain c where c: "set_array env a (map toJS objs) = Inr c" "db_inv env c" "primary_keys c = primary_keys a"
      "string_cols c = string_cols a" "uniq c"
      "rset c = set objs \<union> {r \<in> rset a. primary_key_cols a r \<notin> primary_key_cols a ` set objs}"
    by auto
  have "primary_key_cols a r \<notin> primary_key_cols a ` set objs" if r: "r \<in> rset a" for r
  proof
    assume "primary_key_cols a r \<in> primary_key_cols a ` set objs"
    then obtain x where x: "x \<in> set objs" "primary_key_cols a r = primary_key_cols a x" by blast
    then have "primary_key_cols a x \<in> primary_key_cols a ` rset a" using r by (metis imageI)
    then show False using new[OF x(1)] by contradiction
  qed
  then have "rset c = rset b" unfolding c(6) using t1(1,2) by blast
  then show ?thesis using c by (auto simp: reaches_def apply_set)
qed

lemma patch_only_deletes:
  assumes p: "patchable env a b" and t0: "set objs = rset a - rset b" "rset b \<subseteq> rset a"
  shows "\<exists>c. db_apply_patch env a [(- 1, map (\<lambda>x. primary_key_part a (toJS x)) objs)] = Inr c \<and> reaches env a b c"
proof -
  have a: "db_inv env a" "inj (json_stable env)" "proper a"
    using p by (auto simp: patchable_def env_laws_def)
  let ?wh = "\<lambda>x. primary_key_part a (toJS x)"
  have objs: "r \<in> rset a \<and> r \<notin> rset b" if "r \<in> set objs" for r using that t0(1) by auto
  have "\<exists>c. delete_array env a (map ?wh objs) = Inr c \<and> db_inv env c \<and>
    primary_keys c = primary_keys a \<and> string_cols c = string_cols a \<and>
    rset c = {r \<in> rset a. primary_key_cols a r \<notin> primary_key_cols a ` set objs} \<and> uniq c"
  proof (rule delete_keys[OF a(1,2)])
    show "uniq a" using proper_props[OF a(3)] by blast
    show "incomparable (primary_key_cols a ` set objs \<union> primary_key_cols a ` rset a)"
      by (rule incomparable_mono[OF conjunct2[OF proper_props[OF a(3)]]]) (use objs in auto)
    fix x assume "x \<in> set objs"
    then have "clean_record (string_cols a) x" using objs proper_clean[OF a(3)] by blast
    then show "is_key a (primary_key_cols a x) \<and> set (?wh x) = set (toJS (primary_key_cols a x))"
      unfolding parse_part using key_is_key by blast
  qed
  then obtain c where c: "delete_array env a (map ?wh objs) = Inr c" "db_inv env c" "primary_keys c = primary_keys a"
      "string_cols c = string_cols a" "uniq c" "rset c = {r \<in> rset a. primary_key_cols a r \<notin> primary_key_cols a ` set objs}"
    by blast
  have "r \<in> rset b" if "r \<in> rset a" "primary_key_cols a r \<notin> primary_key_cols a ` set objs" for r
    using that t0 by blast
  moreover have "primary_key_cols a r \<notin> primary_key_cols a ` set objs" if "r \<in> rset b" for r
    using that t0(2) objs uniq_rset[of a r] proper_props[OF a(3)] by blast
  ultimately have "rset c = rset b" unfolding c(6) using t0(2) by blast
  then show ?thesis using c by (auto simp: reaches_def)
qed

lemma collect_inserts_eq:
  assumes "\<And>k. k \<in> set ks \<Longrightarrow> get_one env b (toJS k) = Inr (Some (f k))"
  shows "collect_inserts env b ks = Inr (map (\<lambda>k. toJS (f k)) ks)"
  using assms by (induction ks) auto

lemma collect_changed_eq:
  assumes "\<And>k. k \<in> set ks \<Longrightarrow> get_one env a (primary_key_part a (toJS k)) = Inr (Some (f k)) \<and>
    get_one env b (primary_key_part a (toJS k)) = Inr (Some (g k))"
  shows "collect_changed env a b ks = Inr (map (\<lambda>k. diff_record env a (toJS k) (f k) (g k)) ks)"
  using assms by (induction ks) (auto simp: Let_def)

lemma diff_record_cong: "string_cols d = string_cols e \<Longrightarrow> diff_record env d = diff_record env e"
proof -
  assume "string_cols d = string_cols e"
  then have "diff_field env d = diff_field env e" by (simp add: diff_field_def fun_eq_iff)
  then show ?thesis unfolding diff_record_def[abs_def] by simp
qed

text \<open>The record with a given key.\<close>

definition by_key :: "dbdoc \<Rightarrow> json_map \<Rightarrow> json_map" where
  "by_key d k = (THE r. r \<in> rset d \<and> primary_key_cols d r = k)"

lemma by_key: "uniq d \<Longrightarrow> r \<in> rset d \<Longrightarrow> by_key d (primary_key_cols d r) = r"
  unfolding by_key_def by (rule the_equality) (auto dest: uniq_rset)

text \<open>The records that are added or changed, once the keys that are gone have been deleted.\<close>

lemma patch_sets:
  assumes p: "patchable env a b"
    and c: "db_inv env c" "uniq c" "primary_keys c = primary_keys a" "string_cols c = string_cols a"
      "rset c = {r \<in> rset a. r \<in> rset b \<or> primary_key_cols a r \<in> primary_key_cols a ` (rset b - rset a)}"
    and ks: "distinct (ins @ chg)" "set (ins @ chg) = primary_key_cols a ` (rset b - rset a)"
      "set chg \<subseteq> primary_key_cols a ` rset a" "set ins \<inter> primary_key_cols a ` rset a = {}"
  shows "\<exists>d. set_array env c (map (\<lambda>k. toJS (by_key b k)) ins @
      map (\<lambda>k. diff_record env a (toJS k) (by_key a k) (by_key b k)) chg) = Inr d \<and> reaches env a b d"
proof -
  have a: "inj (json_stable env)" "dmp_laws (dmp_make env) (dmp_apply env) JStr" "proper a" "proper b"
    and pk: "primary_keys b = primary_keys a" "string_cols b = string_cols a"
    using p by (auto simp: patchable_def env_laws_def)
  note key = key_cong[OF c(3)] and keyb = key_cong[OF pk(1)]
  have ua: "uniq a" "uniq b" using proper_props a(3,4) by blast+
  let ?K = "primary_key_cols a" and ?B = "by_key b" and ?A = "by_key a"
  have B: "?B k \<in> rset b \<and> ?B k \<notin> rset a \<and> ?K (?B k) = k" if k: "k \<in> set (ins @ chg)" for k
  proof -
    obtain r where r: "r \<in> rset b" "r \<notin> rset a" "k = ?K r" using k ks(2) by auto
    then have "?B k = r" using by_key[OF ua(2) r(1)] by (simp add: keyb)
    then show ?thesis using r by simp
  qed
  have A: "?A k \<in> rset a \<and> ?K (?A k) = k" if k: "k \<in> set chg" for k
  proof -
    have "k \<in> ?K ` rset a" using k ks(3) by blast
    then obtain r where r: "r \<in> rset a" "k = ?K r" by blast
    then show ?thesis using by_key[OF ua(1) r(1)] by simp
  qed
  have clean: "clean_record (string_cols c) (?B k)" if "k \<in> set (ins @ chg)" for k
    using proper_clean[OF a(4)] B[OF that] pk(2) c(4) by simp
  have cleanA: "clean_record (string_cols c) (?A k)" if "k \<in> set chg" for k
    using proper_clean[OF a(3)] A[OF that] c(4) by simp
  define item where "item k = (if k \<in> set ins then toJS (?B k) else diff_record env a (toJS k) (?A k) (?B k))" for k
  have items: "map (\<lambda>k. toJS (?B k)) ins @ map (\<lambda>k. diff_record env a (toJS k) (?A k) (?B k)) chg = map item (ins @ chg)"
    using ks(1) by (auto simp: item_def)
  have diff: "diff_record env a = diff_record env c" using diff_record_cong[OF c(4)] by simp
  have item_chg: "item k = diff_record env c (toJS (primary_key_cols c (?B k))) (?A k) (?B k)" if "k \<in> set chg" "k \<notin> set ins" for k
    using B[of k] that by (simp add: item_def diff key)
  have parse: "set (fst (db_parse c (item k))) = set (toJS k)" if k: "k \<in> set (ins @ chg)" for k
  proof (cases "k \<in> set ins")
    case True
    then show ?thesis using parse_toJS[OF clean[OF k], of c] B[OF k] by (simp add: item_def key)
  next
    case False
    then have chg: "k \<in> set chg" using k by simp
    show ?thesis using diff_record_parse(1)[OF clean[OF k] _ item_chg[OF chg False]] A[OF chg] B[OF k] by (simp add: key)
  qed
  have "\<exists>d. set_array env c (map item (ins @ chg)) = Inr d \<and> db_inv env d \<and>
    primary_keys d = primary_keys c \<and> string_cols d = string_cols c \<and>
    rset d = ?B ` set (ins @ chg) \<union> {r \<in> rset c. primary_key_cols c r \<notin> primary_key_cols c ` ?B ` set (ins @ chg)} \<and> uniq d"
  proof (rule set_all[OF a(1) c(1,2)])
    have "map (primary_key_cols c \<circ> ?B) (ins @ chg) = map (\<lambda>k. k) (ins @ chg)"
      using B unfolding comp_def key by (intro map_cong) auto
    then show "distinct (map (primary_key_cols c \<circ> ?B) (ins @ chg))" using ks(1) by simp
    have sub: "primary_key_cols c ` (?B ` set (ins @ chg) \<union> rset c) \<subseteq> ?K ` rset b"
    proof -
      have "?K (?B k) \<in> ?K ` rset b" if "k \<in> set (ins @ chg)" for k using B[OF that] by blast
      moreover have "?K r \<in> ?K ` rset b" if "r \<in> rset c" for r using that unfolding c(5) by blast
      ultimately show ?thesis unfolding key by blast
    qed
    show "incomparable (primary_key_cols c ` (?B ` set (ins @ chg) \<union> rset c))"
      by (rule incomparable_mono[OF _ sub]) (use proper_props[OF a(4)] in \<open>simp add: keyb\<close>)
    fix k assume k: "k \<in> set (ins @ chg)"
    have k': "?K (?B k) = k" using B[OF k] by simp
    show "is_key c (primary_key_cols c (?B k)) \<and> set (fst (db_parse c (item k))) = set (toJS (primary_key_cols c (?B k)))"
      using key_is_key[OF clean[OF k], of c] parse[OF k] by (simp add: key k')
    show "edit_fields env (string_cols c) r (snd (db_parse c (item k))) r = Inr (?B k)"
      if r: "r \<in> rset c" "primary_key_cols c r = primary_key_cols c (?B k)" for r
    proof -
      have rk: "?K r = k" "r \<in> rset a" using r k' unfolding key c(5) by auto
      then have not_ins: "k \<notin> set ins" using ks(4) by blast
      then have chg: "k \<in> set chg" using k by simp
      have "r = ?A k" using by_key[OF ua(1) rk(2)] rk(1) by simp
      then show ?thesis
        using edit_diff[OF a(2) cleanA[OF chg] clean[OF k] _ item_chg[OF chg not_ins]] r(2) by simp
    qed
    show "new_record c (item k) = ?B k" if none: "primary_key_cols c (?B k) \<notin> primary_key_cols c ` rset c"
    proof (cases "k \<in> set ins")
      case True
      then show ?thesis using new_record_clean[OF clean[OF k]] by (simp add: item_def)
    next
      case False
      then have chg: "k \<in> set chg" using k by simp
      have "?A k \<in> rset c" unfolding c(5) using A[OF chg] ks(2) chg by auto
      then have "k \<in> ?K ` rset c" using A[OF chg] by (metis imageI)
      then show ?thesis using none unfolding key k' by contradiction
    qed
  qed
  then obtain d where d: "set_array env c (map item (ins @ chg)) = Inr d" "db_inv env d" "primary_keys d = primary_keys c"
      "string_cols d = string_cols c" "uniq d"
      "rset d = ?B ` set (ins @ chg) \<union> {r \<in> rset c. ?K r \<notin> ?K ` ?B ` set (ins @ chg)}"
    unfolding key by blast
  have KB: "?K ` ?B ` set (ins @ chg) = ?K ` (rset b - rset a)"
    unfolding ks(2)[symmetric] using B by (force simp: image_iff)
  have BB: "?B ` set (ins @ chg) = rset b - rset a"
    unfolding ks(2) using by_key[OF ua(2)] by (force simp: keyb image_iff)
  have "r \<in> rset b - rset a \<or> (r \<in> rset c \<and> ?K r \<notin> ?K ` (rset b - rset a)) \<longleftrightarrow> r \<in> rset b" for r
  proof -
    have "?K r \<notin> ?K ` (rset b - rset a)" if "r \<in> rset a" "r \<in> rset b"
      using uniq_rset[OF ua(2) that(2)] that(1) unfolding keyb by blast
    then show ?thesis unfolding c(5) by blast
  qed
  then have "rset d = rset b" unfolding d(6) KB BB by blast
  then show ?thesis using d(1-5) c(3,4) unfolding items reaches_def by auto
qed

text \<open>The patch may also be applied to a document that holds the same records in another order.\<close>

definition same_doc :: "db_env \<Rightarrow> dbdoc \<Rightarrow> dbdoc \<Rightarrow> bool" where
  "same_doc env a a' \<longleftrightarrow> db_inv env a' \<and> uniq a' \<and> rset a' = rset a \<and> primary_keys a' = primary_keys a \<and> string_cols a' = string_cols a"

lemma same_patchable: "patchable env a b \<Longrightarrow> same_doc env a a' \<Longrightarrow> patchable env a' b"
proof -
  assume p: "patchable env a b" and s: "same_doc env a a'"
  have "keyed a'" using p s key_cong[of a' a] by (auto simp: keyed_iff patchable_def proper_def same_doc_def)
  then show ?thesis using p s by (auto simp: patchable_def proper_def same_doc_def)
qed

lemma patch_general:
  assumes p: "patchable env a b" and s: "same_doc env a a'" and res: "doc_size b \<noteq> 0"
    and t0: "\<not> rset a \<subseteq> rset b" and t1: "\<not> rset b \<subseteq> rset a"
  shows "\<exists>p c. db_make_patch env a b = Inr p \<and> db_apply_patch env a' p = Inr c \<and> reaches env a' b c"
proof -
  have a: "db_inv env a" "db_inv env b" "inj (json_stable env)" "proper a" "proper b"
    and iter: "\<And>xs. set (iter env xs) = set xs" "\<And>xs. distinct xs \<Longrightarrow> distinct (iter env xs)"
    and pk: "primary_keys b = primary_keys a" "string_cols b = string_cols a"
    using p by (auto simp: patchable_def env_laws_def)
  note keyb = key_cong[OF pk(1)]
  have ua: "uniq a" "uniq b" and inc: "incomparable (primary_key_cols a ` rset a)" "incomparable (primary_key_cols b ` rset b)"
    using proper_props a(4,5) by blast+
  let ?K = "primary_key_cols a" and ?A = "by_key a" and ?B = "by_key b"
  define T0 where "T0 = filter (\<lambda>r. r \<notin> set (rec_list b)) (rec_list a)"
  define T1 where "T1 = filter (\<lambda>r. r \<notin> set (rec_list a)) (rec_list b)"
  have T: "set T0 = rset a - rset b" "set T1 = rset b - rset a" by (auto simp: T0_def T1_def rset_rec_list)
  have T_ne: "T0 \<noteq> []" "T1 \<noteq> []" using T t0 t1 by (metis Diff_eq_empty_iff set_empty)+
  define k0 where "k0 = remdups (map ?K (iter env T0))"
  define k1 where "k1 = remdups (map ?K (iter env T1))"
  have K: "set k0 = ?K ` (rset a - rset b)" "set k1 = ?K ` (rset b - rset a)" "distinct k0" "distinct k1"
    by (simp_all add: k0_def k1_def iter T)
  define del where "del = filter (\<lambda>k. k \<notin> set k1) k0"
  define ins where "ins = iter env (filter (\<lambda>k. k \<notin> set k0) k1)"
  define chg where "chg = iter env (filter (\<lambda>k. k \<in> set k0) k1)"
  have sets: "set ins = set k1 - set k0" "set chg = set k1 \<inter> set k0" "distinct ins" "distinct chg"
    using iter K by (auto simp: ins_def chg_def)
  have cleanB: "clean_record (string_cols b) r" if "r \<in> rset b" for r using proper_clean[OF a(5) that] .
  have cleanA: "clean_record (string_cols a) r" if "r \<in> rset a" for r using proper_clean[OF a(4) that] .
  have one_b: "get_one env b wh = Inr (Some (?B k))" if "k \<in> ?K ` rset b" "set wh = set (toJS k)" for k wh
  proof -
    obtain r where r: "r \<in> rset b" "k = primary_key_cols b r" using \<open>k \<in> ?K ` rset b\<close> keyb by auto
    show ?thesis using get_one_key[OF a(2,3) r(1) ua(2) key_is_key[OF cleanB[OF r(1)]] _ inc(2)] that(2) by_key[OF ua(2) r(1)] r(2) by simp
  qed
  have one_a: "get_one env a wh = Inr (Some (?A k))" if "k \<in> ?K ` rset a" "set wh = set (toJS k)" for k wh
  proof -
    obtain r where r: "r \<in> rset a" "k = ?K r" using \<open>k \<in> ?K ` rset a\<close> by auto
    show ?thesis using get_one_key[OF a(1,3) r(1) ua(1) key_is_key[OF cleanA[OF r(1)]] _ inc(1)] that(2) by_key[OF ua(1) r(1)] r(2) by simp
  qed
  have add1: "collect_inserts env b ins = Inr (map (\<lambda>k. toJS (?B k)) ins)"
    by (rule collect_inserts_eq) (use one_b sets(1) K(2) in auto)
  have part: "set (primary_key_part a (toJS k)) = set (toJS k)" if "k \<in> ?K ` rset a" for k
  proof -
    have "?K k = k" using that by (auto simp: primary_key_cols_def)
    then show ?thesis using parse_part[of a k] by simp
  qed
  have add2: "collect_changed env a b chg = Inr (map (\<lambda>k. diff_record env a (toJS k) (?A k) (?B k)) chg)"
  proof (rule collect_changed_eq)
    fix k assume "k \<in> set chg"
    then have "k \<in> ?K ` rset a" "k \<in> ?K ` rset b" using sets(2) K(1,2) by blast+
    then show "get_one env a (primary_key_part a (toJS k)) = Inr (Some (?A k)) \<and>
        get_one env b (primary_key_part a (toJS k)) = Inr (Some (?B k))"
      using one_a one_b part by blast
  qed
  let ?rm = "if del = [] then [] else [(- 1, map toJS (iter env del))]"
  let ?sets = "map (\<lambda>k. toJS (?B k)) ins @ map (\<lambda>k. diff_record env a (toJS k) (?A k) (?B k)) chg"
  have ne: "?sets \<noteq> []"
  proof -
    obtain r where "r \<in> rset b - rset a" using t1 by blast
    then have "?K r \<in> set k1" unfolding K(2) by (rule imageI)
    then have "?K r \<in> set ins \<or> ?K r \<in> set chg" using sets(1,2) by simp
    then show ?thesis by auto
  qed
  have patch: "db_make_patch env a b = Inr (?rm @ [(1, ?sets)])"
    using res T_ne add1 add2 ne
    unfolding db_make_patch_def T0_def[symmetric] T1_def[symmetric] Let_def k0_def[symmetric] k1_def[symmetric]
      del_def[symmetric] ins_def[symmetric] chg_def[symmetric]
    by simp
  have mem: "?K r \<in> ?K ` (rset a - rset b) \<longleftrightarrow> r \<in> rset a - rset b" if "r \<in> rset a" for r
    using uniq_rset[OF ua(1) that] by blast
  have a': "db_inv env a'" "uniq a'" "rset a' = rset a" "primary_keys a' = primary_keys a" "string_cols a' = string_cols a"
    using s by (auto simp: same_doc_def)
  note key' = key_cong[OF a'(4)]
  have "\<exists>c. db_inv env c \<and> uniq c \<and> primary_keys c = primary_keys a' \<and> string_cols c = string_cols a' \<and>
      rset c = {r \<in> rset a'. r \<in> rset b \<or> ?K r \<in> set k1} \<and>
      db_apply_patch env a' (?rm @ [(1, ?sets)]) = set_array env c ?sets"
  proof (cases "del = []")
    case True
    then have "set k0 \<subseteq> set k1" by (auto simp: del_def filter_empty_conv)
    then have "rset a' = {r \<in> rset a'. r \<in> rset b \<or> ?K r \<in> set k1}" using K(1) a'(3) by auto
    then show ?thesis using True a'(1,2) apply_set by auto
  next
    case False
    have "\<exists>c. delete_array env a' (map toJS (iter env del)) = Inr c \<and> db_inv env c \<and>
      primary_keys c = primary_keys a' \<and> string_cols c = string_cols a' \<and>
      rset c = {r \<in> rset a'. primary_key_cols a' r \<notin> (\<lambda>k. k) ` set (iter env del)} \<and> uniq c"
    proof (rule delete_keys[OF a'(1) a(3) a'(2)])
      show "is_key a' k \<and> set (toJS k) = set (toJS k)" if "k \<in> set (iter env del)" for k
        using that K(1) key_is_key[OF cleanA, of _ a'] by (auto simp: iter del_def key')
      show "incomparable ((\<lambda>k. k) ` set (iter env del) \<union> primary_key_cols a' ` rset a')"
        by (rule incomparable_mono[OF inc(1)]) (use K(1) in \<open>auto simp: iter del_def key' a'(3)\<close>)
    qed
    then obtain c where c: "delete_array env a' (map toJS (iter env del)) = Inr c" "db_inv env c"
      "primary_keys c = primary_keys a'" "string_cols c = string_cols a'" "uniq c"
      "rset c = {r \<in> rset a'. ?K r \<notin> set del}" by (auto simp: iter key')
    have "?K r \<notin> set del \<longleftrightarrow> r \<in> rset b \<or> ?K r \<in> set k1" if "r \<in> rset a" for r
      using mem[OF that] that K(1) by (auto simp: del_def)
    then have "rset c = {r \<in> rset a'. r \<in> rset b \<or> ?K r \<in> set k1}" unfolding c(6) a'(3) by blast
    then show ?thesis using c False apply_set[of env c ?sets] by auto
  qed
  then obtain c where c: "db_inv env c" "uniq c" "primary_keys c = primary_keys a'" "string_cols c = string_cols a'"
      "rset c = {r \<in> rset a'. r \<in> rset b \<or> ?K r \<in> set k1}"
      "db_apply_patch env a' (?rm @ [(1, ?sets)]) = set_array env c ?sets" by blast
  have "set ins \<inter> ?K ` rset a = {}"
  proof -
    have "?K r \<notin> set ins" if r: "r \<in> rset a" for r
    proof
      assume ins: "?K r \<in> set ins"
      then obtain s where s: "s \<in> rset b" "s \<notin> rset a" "?K r = ?K s" using sets(1) K(2) by auto
      have "r \<in> rset b" using ins sets(1) K(1) mem[OF r] r by blast
      then have "r = s" using uniq_rset[OF ua(2)] s(1,3) by (simp add: keyb)
      then show False using r s(2) by blast
    qed
    then show ?thesis by blast
  qed
  then have "\<exists>d. set_array env c (map (\<lambda>k. toJS (?B k)) ins @
      map (\<lambda>k. diff_record env a' (toJS k) (by_key a' k) (?B k)) chg) = Inr d \<and> reaches env a' b d"
    by (intro patch_sets[OF same_patchable[OF p s] c(1-4)]) (use c(5) sets K in \<open>auto simp: key' a'(3)\<close>)
  moreover have "by_key a' = ?A" by (simp add: by_key_def[abs_def] key' a'(3))
  ultimately have "\<exists>d. set_array env c ?sets = Inr d \<and> reaches env a' b d"
    using diff_record_cong[OF a'(5)] by simp
  then show ?thesis using patch c(6) by auto
qed

lemma patch_reaches:
  assumes p: "patchable env a b" and s: "same_doc env a a'"
  shows "\<exists>p c. db_make_patch env a b = Inr p \<and> db_apply_patch env a' p = Inr c \<and> reaches env a' b c"
proof -
  note p' = same_patchable[OF p s]
  have a': "rset a' = rset a" "primary_keys a' = primary_keys a" using s by (auto simp: same_doc_def)
  have iter: "\<And>xs. set (iter env xs) = set xs" "\<And>xs. distinct xs \<Longrightarrow> distinct (iter env xs)"
    and inv: "db_inv env b" and u: "uniq b"
    using p proper_props by (auto simp: patchable_def env_laws_def)
  define T0 where "T0 = filter (\<lambda>r. r \<notin> set (rec_list b)) (rec_list a)"
  define T1 where "T1 = filter (\<lambda>r. r \<notin> set (rec_list a)) (rec_list b)"
  have T: "set T0 = rset a - rset b" "set T1 = rset b - rset a" "distinct T1"
    by (auto simp: T0_def T1_def rset_rec_list) (simp add: rec_list_def)
  consider "doc_size b = 0" | "doc_size b \<noteq> 0" "rset a \<subseteq> rset b" | "doc_size b \<noteq> 0" "\<not> rset a \<subseteq> rset b" "rset b \<subseteq> rset a"
    | "doc_size b \<noteq> 0" "\<not> rset a \<subseteq> rset b" "\<not> rset b \<subseteq> rset a" by blast
  then show ?thesis
  proof cases
    case 1
    have "finite (rset b)" by (metis List.finite_set rset_rec_list)
    then have "rset b = {}" using 1 size_rset[OF inv u] by simp
    then show ?thesis using patch_to_empty[OF p'] 1 by (auto simp: db_make_patch_def)
  next
    case 2
    then have "T0 = []" using T(1) by (metis Diff_eq_empty_iff set_empty)
    then have "db_make_patch env a b = Inr [(1, map toJS (iter env T1))]"
      using 2(1) unfolding db_make_patch_def T0_def[symmetric] T1_def[symmetric] Let_def by simp
    then show ?thesis using patch_only_inserts[OF p', of "iter env T1"] 2(2) iter T a'(1) by auto
  next
    case 3
    then have "T0 \<noteq> []" "T1 = []" using T by (metis Diff_eq_empty_iff set_empty)+
    then have "db_make_patch env a b = Inr [(- 1, map (\<lambda>x. primary_key_part a (toJS x)) (iter env T0))]"
      using 3(1) unfolding db_make_patch_def T0_def[symmetric] T1_def[symmetric] Let_def by simp
    then show ?thesis using patch_only_deletes[OF p', of "iter env T0"] 3(3) iter T a' by (auto simp: primary_key_part_def)
  next
    case 4
    then show ?thesis by (rule patch_general[OF p s])
  qed
qed

text \<open>The result is again a document for which patches are right.\<close>

lemma reaches_proper:
  assumes "patchable env a b" "reaches env a b c"
  shows "db_is_equal c (Some b) \<and> proper c \<and> db_inv env c"
proof -
  have b: "db_inv env b" "uniq b" "proper b" "primary_keys b = primary_keys a" "string_cols b = string_cols a"
    using assms(1) proper_props by (auto simp: patchable_def)
  have c: "db_inv env c" "uniq c" "rset c = rset b" "primary_keys c = primary_keys b" "string_cols c = string_cols b"
    using assms(2) b by (auto simp: reaches_def)
  have "proper c" using b(3) c(2,3) key_cong[OF c(4)] c(5) unfolding proper_def keyed_iff by metis
  then show ?thesis using is_equal_rset[OF c(1,2) b(1,2) c(3)] c(1) by blast
qed

end
