(* ===== verification/DbDocProps.thy ===== *)
theory DbDocProps
  imports DbDocPatch "HOL-Library.Multiset"
begin

text \<open>
  The properties of the document that is a table: queries, writes, patches and its text.
\<close>

section \<open>An instance\<close>

text \<open>
  A concrete environment for the witnesses: the injective encoding of \<^const>\<open>enc\<close>, patches of strings
  that carry the new string, and sets that are iterated in the order of insertion.
\<close>

definition witness_env :: db_env where
  "witness_env = \<lparr>json_stable = enc,
     json_parse = (\<lambda>s. if s = enc (JObj (fmap_of_list [(''key'', JStr ''a'')])) then Some (JObj (fmap_of_list [(''key'', JStr ''a'')])) else None),
     dmp_make = (\<lambda>s0 s1. [\<lparr>po_diffs = Some (JStr s1), po_start1 = Some JNull, po_start2 = Some JNull,
       po_length1 = Some JNull, po_length2 = Some JNull\<rparr>]),
     dmp_apply = (\<lambda>ps t. case ps of [p] \<Rightarrow> map_option (\<lambda>s. (s, [True])) (po_diffs p) | _ \<Rightarrow> None),
     iter = (\<lambda>xs. xs)\<rparr>"

lemma witness_env_laws: "env_laws witness_env"
  by (simp add: env_laws_def witness_env_def inj_enc dmp_laws_def full_object_def)

definition witness_doc :: "js_obj list \<Rightarrow> dbdoc" where
  "witness_doc objs = projr (new_doc witness_env [''key'', ''pos''] [''text''] (map (\<lambda>x. Some (fmap_of_list x)) objs))"

lemma witness_doc_inv: "db_inv witness_env (witness_doc objs)"
  by (rule new_doc_inv[of _ "[''key'', ''pos'']"]) (simp_all add: witness_doc_def new_doc_def)

section \<open>Queries\<close>

lemma filter_nth: "map (\<lambda>n. rec_at rs n) (filter (\<lambda>n. P (rec_at rs n)) [0..<length rs]) = filter P rs"
proof (induction rs rule: rev_induct)
  case (snoc r rs)
  have eq: "rec_at (rs @ [r]) n = rec_at rs n" if "n < length rs" for n using that by (simp add: rec_at_append)
  have "filter (\<lambda>n. P (rec_at (rs @ [r]) n)) [0..<length rs] = filter (\<lambda>n. P (rec_at rs n)) [0..<length rs]"
    by (rule filter_cong) (simp_all add: eq)
  moreover have "map (\<lambda>n. rec_at (rs @ [r]) n) (filter (\<lambda>n. P (rec_at rs n)) [0..<length rs]) =
      map (\<lambda>n. rec_at rs n) (filter (\<lambda>n. P (rec_at rs n)) [0..<length rs])"
    by (rule map_cong) (auto simp: eq)
  ultimately show ?case using snoc by (simp add: rec_at_append)
qed simp

definition match_rec :: "js_obj \<Rightarrow> json_map option \<Rightarrow> bool" where
  "match_rec wh r = (case r of None \<Rightarrow> False | Some m \<Rightarrow> matches wh m)"

lemma in_scan: "n \<in> scan d wh \<longleftrightarrow> match_rec wh (rec_at (records d) n)"
  by (auto simp: scan_def match_rec_def split: option.splits)

lemma find_first:
  "(if {n. P (rec_at rs n)} = {} then None else rec_at rs (Min {n. P (rec_at rs n)})) =
     (case find P rs of None \<Rightarrow> None | Some r \<Rightarrow> r)" if "\<not> P None"
proof (cases "find P rs")
  case None
  then have "P (rec_at rs n) \<Longrightarrow> False" for n using that
    by (auto simp: find_None_iff rec_at_def split: if_splits)
  then show ?thesis using None by auto
next
  case (Some r)
  then obtain i where i: "i < length rs" "P (rs ! i)" "r = rs ! i" "\<forall>j<i. \<not> P (rs ! j)"
    by (auto simp: find_Some_iff)
  have "P (rec_at rs n) \<Longrightarrow> i \<le> n" for n using i(1,4) by (force simp: rec_at_def split: if_splits intro: leI)
  moreover have "P (rec_at rs i)" using i by (simp add: rec_at_def)
  moreover have "finite {n. P (rec_at rs n)}"
    by (rule finite_subset[of _ "{..<length rs}"]) (use that in \<open>auto simp: rec_at_def split: if_splits\<close>)
  ultimately have first: "Min {n. P (rec_at rs n)} = i" "{n. P (rec_at rs n)} \<noteq> {}" by (auto intro: Min_eqI)
  show ?thesis by (subst if_not_P[OF first(2)]) (use Some i first(1) in \<open>simp add: rec_at_def\<close>)
qed

lemma get_scan:
  assumes "db_inv env d" "inj (json_stable env)" "fst ` set wh \<subseteq> set (primary_keys d)"
  shows "db_get env d wh = Inr (filter (match_rec wh) (records d))"
    and "get_one env d wh = Inr (case find (match_rec wh) (records d) of None \<Rightarrow> None | Some r \<Rightarrow> r)"
proof -
  have scan: "scan d wh = {n. match_rec wh (rec_at (records d) n)}" using in_scan by auto
  show "db_get env d wh = Inr (filter (match_rec wh) (records d))"
    unfolding db_get_def select_scan[OF assms] by (simp add: in_scan filter_nth)
  show "get_one env d wh = Inr (case find (match_rec wh) (records d) of None \<Rightarrow> None | Some r \<Rightarrow> r)"
    unfolding get_one_def select_scan[OF assms] scan map_sum.simps
    by (subst find_first) (simp_all add: match_rec_def)
qed

text \<open>C7: A query through the indexes gives what a search of the whole table gives: \<open>get\<close> all
  records, in order, that have the values of the condition, and \<open>get_one\<close> the first of them. It holds
  for a document after any sequence of writes that do not throw, for conditions on primary keys (on other fields the code throws), if the primary keys are
  distinct and \<open>JSON.stringify\<close> tells values apart.\<close>

theorem query_is_search:
  assumes "inj (json_stable env)" "distinct pks" "new_doc env pks cols rs = Inr d0"
    and "db_apply_patch env d0 p = Inr d" "fst ` set wh \<subseteq> set pks"
  shows "db_get env d wh = Inr (filter (match_rec wh) (records d)) \<and>
    get_one env d wh = Inr (case find (match_rec wh) (records d) of None \<Rightarrow> None | Some r \<Rightarrow> r)"
proof -
  have "primary_keys d0 = pks" using assms(3) by (auto simp: new_doc_def split: if_splits)
  then have "db_inv env d \<and> primary_keys d = pks"
    using apply_patch_inv[OF new_doc_inv[OF assms(3,2)] assms(4)] by simp
  then show ?thesis using get_scan[of env d wh] assms(1,5) by simp
qed

lemma query_is_search_witness:
  "\<exists>d. db_apply_patch witness_env (witness_doc [[(''key'', JStr ''a''), (''pos'', JNum 1)]])
      [(1, [[(''key'', JStr ''a''), (''pos'', JNum 2)]]), (- 1, [[(''pos'', JNum 1)]])] = Inr d \<and>
    db_get witness_env d [(''key'', JStr ''a'')] = Inr (filter (match_rec [(''key'', JStr ''a'')]) (records d))"
proof -
  let ?p = "[(1, [[(''key'', JStr ''a''), (''pos'', JNum 2)]]), (- 1, [[(''pos'', JNum 1)]])]"
  let ?d0 = "witness_doc [[(''key'', JStr ''a''), (''pos'', JNum 1)]]"
  have "isl (db_apply_patch witness_env ?d0 ?p) = False" by code_simp
  then obtain d where d: "db_apply_patch witness_env ?d0 ?p = Inr d" by (cases "db_apply_patch witness_env ?d0 ?p") auto
  have "new_doc witness_env [''key'', ''pos''] [''text''] [Some (fmap_of_list [(''key'', JStr ''a''), (''pos'', JNum 1)])] = Inr ?d0"
    by (simp add: witness_doc_def new_doc_def)
  then show ?thesis
    using query_is_search[OF _ _ _ d, of "[''key'', ''pos'']" "[''text'']" _ "[(''key'', JStr ''a'')]"] witness_env_laws d
    by (simp add: env_laws_def)
qed

section \<open>Writes\<close>

lemma size_filter: "db_inv env d \<Longrightarrow> doc_size d = length (filter (\<lambda>r. r \<noteq> None) (records d))"
proof -
  assume inv: "db_inv env d"
  have "{n. rec_at (records d) n \<noteq> None} = {i. i < length (records d) \<and> records d ! i \<noteq> None}"
    by (auto simp: rec_at_def)
  then show ?thesis using inv_size[OF inv] by (simp add: length_filter_conv_card)
qed

text \<open>C6: The indexes are updated in place by every write and never rebuilt; after any sequence of
  writes that do not throw they are the indexes that would be built from the records, the set of positions is that of
  the records that are there, and the size is their number. The primary keys are distinct.\<close>

theorem indexes_are_those_rebuilt:
  assumes "distinct pks" "new_doc env pks cols rs = Inr d0" "db_apply_patch env d0 p = Inr d"
  shows "indexes d = init_indexes env pks (records d) \<and> everything d = init_everything (records d) \<and>
    doc_size d = length (filter (\<lambda>r. r \<noteq> None) (records d))"
proof -
  have "primary_keys d0 = pks" using assms(2) by (auto simp: new_doc_def split: if_splits)
  then have inv: "db_inv env d" "primary_keys d = pks"
    using apply_patch_inv[OF new_doc_inv[OF assms(2,1)] assms(3)] by simp_all
  then show ?thesis using inv_indexes[OF inv(1)] size_filter[OF inv(1)] by (simp add: db_inv_def)
qed

definition witness_patch :: db_patch where
  "witness_patch = [(1, [[(''key'', JStr ''a''), (''pos'', JNum 2)], [(''pos'', JNum 1), (''text'', JStr ''x'')]]),
     (- 1, [[(''pos'', JNum 2)]])]"

lemma indexes_are_those_rebuilt_witness:
  "\<exists>d. db_apply_patch witness_env (witness_doc [[(''key'', JStr ''a''), (''pos'', JNum 1)]]) witness_patch = Inr d \<and>
    indexes d = init_indexes witness_env [''key'', ''pos''] (records d)"
proof -
  let ?d0 = "witness_doc [[(''key'', JStr ''a''), (''pos'', JNum 1)]]"
  have "isl (db_apply_patch witness_env ?d0 witness_patch) = False" by code_simp
  then obtain d where d: "db_apply_patch witness_env ?d0 witness_patch = Inr d"
    by (cases "db_apply_patch witness_env ?d0 witness_patch") auto
  have "new_doc witness_env [''key'', ''pos''] [''text''] [Some (fmap_of_list [(''key'', JStr ''a''), (''pos'', JNum 1)])] = Inr ?d0"
    by (simp add: witness_doc_def new_doc_def)
  then show ?thesis using indexes_are_those_rebuilt[OF _ _ d, of "[''key'', ''pos'']" "[''text'']"] d by auto
qed

lemma filter_upto:
  assumes "\<not> P None" "length rs \<le> N"
  shows "filter P rs = map (rec_at rs) (filter (\<lambda>n. P (rec_at rs n)) [0..<N])"
proof -
  obtain m where m: "N = length rs + m" using assms(2) le_Suc_ex by blast
  have "filter (\<lambda>n. P (rec_at rs n)) [length rs..<length rs + m] = []"
    using assms(1) by (auto simp: filter_empty_conv rec_at_def)
  moreover have "[0..<N] = [0..<length rs] @ [length rs..<length rs + m]"
    unfolding m by (rule upt_add_eq_append) simp
  ultimately show ?thesis using filter_nth[of rs P] by simp
qed

lemma filter_removed:
  assumes "\<And>n. rec_at rs' n = (if match_rec wh (rec_at rs n) then None else rec_at rs n)"
  shows "filter (\<lambda>r. r \<noteq> None) rs' = filter (\<lambda>r. r \<noteq> None \<and> \<not> match_rec wh r) rs"
proof -
  define N where "N = max (length rs) (length rs')"
  have "filter (\<lambda>r. r \<noteq> None) rs' = map (rec_at rs') (filter (\<lambda>n. rec_at rs' n \<noteq> None) [0..<N])"
    by (rule filter_upto) (simp_all add: N_def)
  also have "\<dots> = map (rec_at rs) (filter (\<lambda>n. rec_at rs n \<noteq> None \<and> \<not> match_rec wh (rec_at rs n)) [0..<N])"
  proof (rule map_cong)
    show "filter (\<lambda>n. rec_at rs' n \<noteq> None) [0..<N] =
        filter (\<lambda>n. rec_at rs n \<noteq> None \<and> \<not> match_rec wh (rec_at rs n)) [0..<N]"
      by (rule filter_cong) (auto simp: assms)
  qed (simp add: assms)
  also have "\<dots> = filter (\<lambda>r. r \<noteq> None \<and> \<not> match_rec wh r) rs"
    by (rule filter_upto[symmetric]) (simp_all add: N_def)
  finally show ?thesis .
qed

text \<open>C33: In a document with correct indexes, \<open>delete\<close> with a condition on primary keys removes exactly the records that satisfy it, also in
  its shortcuts for an empty document and for deleting everything; the others keep their order, the
  keys of the removed records are added to the tracked changes, and the indexes are correct again. \<open>JSON.stringify\<close> tells values apart.\<close>

theorem delete_removes_the_matches:
  assumes "db_inv env d" "inj (json_stable env)" "fst ` set wh \<subseteq> set (primary_keys d)"
  shows "\<exists>d'. db_delete env d wh = Inr d' \<and> db_inv env d' \<and>
    db_get env d' [] = Inr (filter (\<lambda>r. r \<noteq> None \<and> \<not> match_rec wh r) (records d)) \<and>
    changes d' = changes d \<union> primary_key_cols d ` {r \<in> rset d. matches wh r}"
proof -
  obtain d' where d': "db_delete env d wh = Inr d'" "db_inv env d'" "primary_keys d' = primary_keys d"
      "\<And>n. rec_at (records d') n = (if n \<in> scan d wh then None else rec_at (records d) n)"
      "changes d' = changes d \<union> primary_key_cols d ` {r. \<exists>n \<in> scan d wh. rec_at (records d) n = Some r}"
    using delete_selected[OF assms(1) select_scan[OF assms]] by blast
  have "match_rec [] = (\<lambda>r. r \<noteq> None)" by (auto simp: match_rec_def matches_def fun_eq_iff split: option.splits)
  then have "db_get env d' [] = Inr (filter (\<lambda>r. r \<noteq> None) (records d'))"
    using get_scan(1)[OF d'(2) assms(2), of "[]"] by simp
  moreover have "filter (\<lambda>r. r \<noteq> None) (records d') = filter (\<lambda>r. r \<noteq> None \<and> \<not> match_rec wh r) (records d)"
    by (rule filter_removed) (simp add: d'(4) in_scan)
  moreover have "{r. \<exists>n \<in> scan d wh. rec_at (records d) n = Some r} = {r \<in> rset d. matches wh r}"
    by (auto simp: scan_def rset_def)
  ultimately show ?thesis using d' by auto
qed

lemma delete_removes_the_matches_witness:
  "\<exists>d'. db_delete witness_env (witness_doc [[(''key'', JStr ''a''), (''pos'', JNum 1)], [(''key'', JStr ''b''), (''pos'', JNum 1)]])
      [(''pos'', JNum 1)] = Inr d' \<and> db_inv witness_env d'"
proof -
  let ?d = "witness_doc [[(''key'', JStr ''a''), (''pos'', JNum 1)], [(''key'', JStr ''b''), (''pos'', JNum 1)]]"
  have "fst ` set [(''pos'', JNum 1)] \<subseteq> set (primary_keys ?d)" by (simp add: witness_doc_def new_doc_def)
  then show ?thesis
    using delete_removes_the_matches[of witness_env ?d "[(''pos'', JNum 1)]"] witness_doc_inv witness_env_laws
    unfolding env_laws_def by blast
qed

lemma drop_patches_lookup:
  "map_of (drop_patches cols obj) f =
     (if f \<in> set cols \<and> (\<exists>p. map_of obj f = Some (JArr p)) then None else map_of obj f)"
proof (induction cols arbitrary: obj)
  case (Cons c cols)
  let ?o = "case map_of obj c of Some (JArr p) \<Rightarrow> obj_del c obj | _ \<Rightarrow> obj"
  have "drop_patches (c # cols) obj = drop_patches cols ?o" by (simp add: drop_patches_def)
  moreover have "map_of ?o f = (if f = c \<and> (\<exists>p. map_of obj f = Some (JArr p)) then None else map_of obj f)"
    by (auto simp: delete_conv' split: option.split json.split)
  ultimately show ?case using Cons.IH[of ?o] by auto
qed (simp add: drop_patches_def)

lemma edit_fields_kind:
  "edit_fields env cols prev st r = Inr r' \<Longrightarrow> (f, v) \<in> set st \<Longrightarrow> f \<in> set cols \<Longrightarrow>
     v = JNull \<or> is_array v \<or> (\<exists>s. v = JStr s)"
  by (induction env cols prev st r rule: edit_fields.induct) (auto split: if_splits json.splits)

text \<open>What a field that is written holds afterwards: nothing for null; the union of the old and the new map, without the
  keys that the new one has as null, when both are maps; the patched text for a patch of a string column
  (which a new record leaves out); and otherwise the value.\<close>

definition field_written :: "db_env \<Rightarrow> bool \<Rightarrow> bool \<Rightarrow> json \<Rightarrow> json option \<Rightarrow> json option \<Rightarrow> bool" where
  "field_written env fresh col v old new \<longleftrightarrow>
     (case v of
        JNull \<Rightarrow> new = None
      | JObj ch \<Rightarrow>
          (case old of
             Some (JObj c) \<Rightarrow> \<exists>m. new = Some (JObj m) \<and> (\<forall>k. fmlookup m k =
               (case fmlookup ch k of None \<Rightarrow> fmlookup c k | Some x \<Rightarrow> if x = JNull then None else Some x))
           | _ \<Rightarrow> new = Some v)
      | JArr p \<Rightarrow>
          if \<not> col then new = Some v
          else if fresh then new = None
          else new = Some (fst (apply_patch (dmp_apply env) p (case old of None \<Rightarrow> JStr [] | Some b \<Rightarrow> b)))
      | _ \<Rightarrow> new = Some v)"

text \<open>What a write does to the record it is about: the fields of the object, and no others.\<close>

definition written :: "db_env \<Rightarrow> string list \<Rightarrow> js_obj \<Rightarrow> js_obj \<Rightarrow> json_map option \<Rightarrow> json_map \<Rightarrow> bool" where
  "written env cols obj st old r \<longleftrightarrow>
     (\<forall>(f, v) \<in> set st. field_written env (old = None) (f \<in> set cols) v (Option.bind old (\<lambda>r0. fmlookup r0 f)) (fmlookup r f)) \<and>
     (\<forall>f. f \<notin> fst ` set obj \<longrightarrow> fmlookup r f = Option.bind old (\<lambda>r0. fmlookup r0 f))"

lemma edited_written:
  assumes "f \<in> set cols \<Longrightarrow> v = JNull \<or> is_array v \<or> (\<exists>s. v = JStr s)"
  shows "field_written env False (f \<in> set cols) v old (edited env cols f v old)"
  using assms
  by (cases v) (auto simp: field_written_def edited_def new_value_def patched_def merge_set_lookup is_nil_def
    split: option.split json.split)

lemma edit_written:
  assumes "distinct (map fst obj)" "db_parse d obj = (wh, st)" "edit_fields env cols r st r = Inr r'"
  shows "written env cols obj st (Some r) r'"
proof -
  have sub: "set st \<subseteq> set obj" and dist: "distinct (map fst st)"
    using assms(1,2) by (auto simp: db_parse_def distinct_map_filter)
  have look: "fmlookup r' j = (case map_of st j of None \<Rightarrow> fmlookup r j | Some v \<Rightarrow> edited env cols j v (fmlookup r j))" for j
    using edit_fields_lookup[OF dist, of cols r r env] edit_fields_kind[OF assms(3)] assms(3) by auto
  have "field_written env False (f \<in> set cols) v (fmlookup r f) (fmlookup r' f)" if f: "(f, v) \<in> set st" for f v
  proof -
    have "map_of st f = Some v" using dist f by simp
    then have "fmlookup r' f = edited env cols f v (fmlookup r f)" using look[of f] by simp
    then show ?thesis using edited_written[OF edit_fields_kind[OF assms(3) f]] by simp
  qed
  moreover have "fmlookup r' f = fmlookup r f" if "f \<notin> fst ` set obj" for f
    using edit_fields_other[OF assms(3), of f] that sub by blast
  ultimately show ?thesis by (auto simp: written_def)
qed

lemma new_written:
  assumes "distinct (map fst obj)" "db_parse d obj = (wh, st)"
  shows "written env (string_cols d) obj st None (new_record d obj)"
proof -
  have "field_written env True (f \<in> set (string_cols d)) v None (fmlookup (new_record d obj) f)" if "(f, v) \<in> set st" for f v
  proof -
    have "map_of obj f = Some v" using assms that by (auto simp: db_parse_def)
    then show ?thesis by (cases v) (auto simp: field_written_def new_record_nil drop_patches_lookup Let_def)
  qed
  moreover have "map_of obj f = None" if "f \<notin> fst ` set obj" for f using that by (simp add: map_of_eq_None_iff)
  ultimately show ?thesis by (auto simp: written_def new_record_nil drop_patches_lookup Let_def)
qed

lemma set_read_back:
  assumes inv: "db_inv env d" "inj (json_stable env)" and cols: "set (string_cols d) \<inter> set (primary_keys d) = {}"
    and obj: "distinct (map fst obj)" "db_parse d obj = (wh, st)" and res: "db_set env d obj = Inr d'"
  shows "\<exists>n r. n = (if scan d wh = {} then length (records d) else Min (scan d wh)) \<and>
    get_one env d' wh = Inr (Some r) \<and> rec_at (records d') n = Some r \<and>
    written env (string_cols d) obj st (rec_at (records d) n) r \<and>
    (\<forall>m. m \<noteq> n \<longrightarrow> rec_at (records d') m = rec_at (records d) m)"
proof -
  have keys: "fst ` set wh \<subseteq> set (primary_keys d)" "fst ` set st \<inter> set (primary_keys d) = {}"
    using db_parse_keys[OF obj(2)] by auto
  have inv': "db_inv env d'" "primary_keys d' = primary_keys d" using db_set_inv[OF inv(1) res] by auto
  have S': "db_select env d' wh = Inr (scan d' wh)" by (rule select_scan[OF inv'(1) inv(2)]) (use keys inv'(2) in simp)
  note S = select_scan[OF inv keys(1)]
  show ?thesis
  proof (cases "scan d wh = {}")
    case True
    let ?n = "length (records d)" and ?r = "new_record d obj"
    have d': "d' = append_record env d obj" using res by (simp add: db_set_def obj(2) S True)
    have "matches wh ?r"
    proof -
      have "fmlookup ?r f = Some v \<and> v \<noteq> JNull" if "(f, v) \<in> set wh" for f v
      proof -
        have v: "(f, v) \<in> set obj" "f \<in> set (primary_keys d)" "v \<noteq> JNull" using that obj(2) by (auto simp: db_parse_def)
        then have "map_of obj f = Some v" "f \<notin> set (string_cols d)" using obj(1) cols by auto
        then show ?thesis using v(3) by (simp add: new_record_nil drop_patches_lookup)
      qed
      then show ?thesis unfolding matches_def by blast
    qed
    then have "n \<in> scan d' wh \<longleftrightarrow> n = ?n" for n
      using True by (auto simp: scan_def d' append_record_simps rec_at_append split: if_splits)
    then have "scan d' wh = {?n}" by blast
    then have "get_one env d' wh = Inr (Some ?r)" using S' by (simp add: get_one_def d' append_record_simps rec_at_append)
    moreover have "rec_at (records d) ?n = None" by (simp add: rec_at_def)
    ultimately show ?thesis using new_written[OF obj]
      by (intro exI[of _ ?n] exI[of _ ?r]) (simp add: d' append_record_simps rec_at_append True)
  next
    case False
    let ?n = "Min (scan d wh)"
    have "?n \<in> scan d wh" using Min_in[OF finite_scan False] .
    then obtain r where r: "rec_at (records d) ?n = Some r" by (auto simp: scan_def)
    have "edit_record env d ?n st = Inr d'" using res False by (simp add: db_set_def obj(2) S)
    then obtain r' where r': "edit_fields env (string_cols d) r st r = Inr r'"
        and d': "d' = (if r = r' then d else d\<lparr>records := (records d)[?n := Some r'], changes := insert (primary_key_cols d r') (changes d)\<rparr>)"
      unfolding edit_record_cases[OF r] by (cases "edit_fields env (string_cols d) r st r") auto
    have at: "rec_at (records d') m = (if m = ?n then Some r' else rec_at (records d) m)" for m
      using r rec_at_lt[OF r] by (auto simp: d' rec_at_update)
    have "fmlookup r' f = fmlookup r f" if "(f, v) \<in> set wh" for f v
    proof -
      have "f \<in> set (primary_keys d)" using keys(1) that by force
      then show ?thesis using edit_fields_other[OF r', of f] keys(2) by blast
    qed
    then have same: "matches wh r' \<longleftrightarrow> matches wh r" unfolding matches_def by fastforce
    have "m \<in> scan d' wh \<longleftrightarrow> m \<in> scan d wh" for m using r same by (simp add: scan_def at)
    then have "scan d' wh = scan d wh" by blast
    then have "get_one env d' wh = Inr (Some r')" using S' False at[of ?n] by (simp add: get_one_def)
    then show ?thesis using edit_written[OF obj r'] r at False by (intro exI[of _ ?n] exI[of _ r']) simp
  qed
qed

text \<open>C34: A value that was set is read back: after a \<open>set\<close> that does not throw, \<open>get_one\<close> with the primary keys of the object gives
  a record in which every field that the object sets has what it should: nothing if it was set to null, for a map the old
  map with the new entries (a null entry removes the key), for a patch of a string column the patched text
  (a record that is new does not get the field), and otherwise the value; the fields that the object does not name are as they
  were, and no other record changes. The record is the first that
  has the primary keys of the object, or a new one. Conditions: the indexes of the document are correct, keys of records are told
  apart by \<open>JSON.stringify\<close>, no primary key is a string column, and the object names no field twice.\<close>

theorem set_is_read_back:
  assumes inv: "db_inv env d" "inj (json_stable env)" and cols: "set (string_cols d) \<inter> set (primary_keys d) = {}"
    and obj: "distinct (map fst obj)" "db_parse d obj = (wh, st)" and res: "db_set env d obj = Inr d'"
  shows "\<exists>n r. n = (if scan d wh = {} then length (records d) else Min (scan d wh)) \<and>
    get_one env d' wh = Inr (Some r) \<and> rec_at (records d') n = Some r \<and>
    written env (string_cols d) obj st (rec_at (records d) n) r \<and>
    (\<forall>m. m \<noteq> n \<longrightarrow> rec_at (records d') m = rec_at (records d) m)"
  by (rule set_read_back[OF assms])

lemma set_is_read_back_witness:
  "\<exists>d'. db_set witness_env (witness_doc [[(''key'', JStr ''a''), (''pos'', JNum 1)]])
      [(''key'', JStr ''a''), (''text'', JStr ''x'')] = Inr d' \<and>
    (\<exists>r. get_one witness_env d' [(''key'', JStr ''a'')] = Inr (Some r) \<and> fmlookup r ''text'' = Some (JStr ''x''))"
proof -
  let ?d = "witness_doc [[(''key'', JStr ''a''), (''pos'', JNum 1)]]"
  let ?obj = "[(''key'', JStr ''a''), (''text'', JStr ''x'')]"
  have "isl (db_set witness_env ?d ?obj) = False" by code_simp
  then obtain d' where d': "db_set witness_env ?d ?obj = Inr d'" by (cases "db_set witness_env ?d ?obj") auto
  have p: "db_parse ?d ?obj = ([(''key'', JStr ''a'')], [(''text'', JStr ''x'')])"
    by (simp add: db_parse_def witness_doc_def new_doc_def)
  have c: "set (string_cols ?d) \<inter> set (primary_keys ?d) = {}" by (simp add: witness_doc_def new_doc_def)
  show ?thesis
    using set_is_read_back[OF witness_doc_inv _ c _ p d'] witness_env_laws d' by (auto simp: env_laws_def written_def field_written_def)
qed

section \<open>Patches\<close>

text \<open>C4: The patch computed from one document to another, applied to the first, gives the second, whichever
  of the shortcuts of \<open>make_patch\<close> is taken and in whatever order sets are iterated. Conditions: the documents
  have the same columns and correct indexes, and are \<^const>\<open>proper\<close>: no record has the primary keys of another record or more of them, nothing
  is null, also not inside maps, and string columns hold strings. The result is such a document again, with correct
  indexes. (Without these conditions it does not hold: \<open>shorter_key_edits_longer\<close>, \<open>string_column_not_checked\<close>,
  \<open>null_in_map_not_sent\<close>.)\<close>

theorem patch_gives_other_document:
  assumes "env_laws env" "db_inv env a" "proper a" "db_inv env b" "proper b"
    and "primary_keys b = primary_keys a" "string_cols b = string_cols a"
  shows "\<exists>p c. db_make_patch env a b = Inr p \<and> db_apply_patch env a p = Inr c \<and>
    db_is_equal c (Some b) \<and> proper c \<and> db_inv env c"
proof -
  have p: "patchable env a b" using assms by (simp add: patchable_def)
  have "same_doc env a a" using assms proper_props by (simp add: same_doc_def)
  then show ?thesis using patch_reaches[OF p] reaches_proper[OF p] by blast
qed

definition rec_ok :: "json_map option \<Rightarrow> bool" where
  "rec_ok r = (case r of None \<Rightarrow> True | Some m \<Rightarrow> list_all (\<lambda>(k, v). (case v of JStr s \<Rightarrow> True | JNum q \<Rightarrow> k \<noteq> ''text'' | _ \<Rightarrow> False)) (toJS m))"

lemma rec_ok_clean:
  assumes "rec_ok (Some m)"
  shows "clean_record [''text''] m"
proof -
  have "clean_value v \<and> (k \<in> set [''text''] \<longrightarrow> (\<exists>s. v = JStr s))" if "fmlookup m k = Some v" for k v
  proof -
    have "(k, v) \<in> set (toJS m)" using that by (simp add: in_toJS)
    then have "case v of JStr s \<Rightarrow> True | JNum q \<Rightarrow> k \<noteq> ''text'' | _ \<Rightarrow> False" using assms by (auto simp: rec_ok_def list_all_iff)
    then show ?thesis by (cases v) (auto simp: clean_value_def)
  qed
  then show ?thesis by (simp add: clean_record_def)
qed

lemma witness_doc_proper:
  assumes "list_all (\<lambda>x. rec_ok (Some (fmap_of_list x))) objs"
    and "list_all (\<lambda>i. list_all (\<lambda>j. i = j \<or>
      \<not> list_all (\<lambda>(k, v). k \<in> set [''key'', ''pos''] \<longrightarrow> fmlookup (fmap_of_list (objs ! j)) k = Some v) (toJS (fmap_of_list (objs ! i))))
      [0..<length objs]) [0..<length objs]"
  shows "proper (witness_doc objs)"
proof -
  have recs: "records (witness_doc objs) = map (\<lambda>x. Some (fmap_of_list x)) objs" "primary_keys (witness_doc objs) = [''key'', ''pos'']"
      "string_cols (witness_doc objs) = [''text'']"
    by (simp_all add: witness_doc_def new_doc_def)
  have "keyed (witness_doc objs)" unfolding keyed_def
  proof (intro allI impI)
    fix n m r s
    assume a: "rec_at (records (witness_doc objs)) n = Some r \<and> rec_at (records (witness_doc objs)) m = Some s \<and>
      fmsubset (primary_key_cols (witness_doc objs) r) (primary_key_cols (witness_doc objs) s)"
    then have n: "n < length objs" "m < length objs" "r = fmap_of_list (objs ! n)" "s = fmap_of_list (objs ! m)"
      by (auto simp: recs rec_at_def split: if_splits)
    have "n = m \<or> \<not> list_all (\<lambda>(k, v). k \<in> set [''key'', ''pos''] \<longrightarrow> fmlookup s k = Some v) (toJS r)"
      using assms(2) n unfolding list_all_iff by simp
    moreover have "fmlookup s k = Some v" if "(k, v) \<in> set (toJS r)" "k \<in> set [''key'', ''pos'']" for k v
    proof -
      have "fmlookup (primary_key_cols (witness_doc objs) r) k = Some v"
        using that by (simp only: key_lookup recs if_True in_toJS)
      then have "fmlookup (primary_key_cols (witness_doc objs) s) k = Some v" using a unfolding fmsubset_iff by blast
      then show ?thesis using that(2) by (simp only: key_lookup recs if_True)
    qed
    ultimately show "n = m" unfolding list_all_iff by blast
  qed
  moreover have "clean_record (string_cols (witness_doc objs)) r" if "r \<in> rset (witness_doc objs)" for r
    using that assms(1) rec_ok_clean by (auto simp: rset_def recs rec_at_def list_all_iff split: if_splits)
  ultimately show ?thesis by (simp add: proper_def)
qed

lemma patch_gives_other_document_witness:
  "\<exists>p c. db_make_patch witness_env (witness_doc [[(''key'', JStr ''a''), (''text'', JStr ''x'')], [(''key'', JStr ''b'')]])
      (witness_doc [[(''key'', JStr ''a''), (''text'', JStr ''y'')], [(''key'', JStr ''c'')]]) = Inr p \<and>
    db_apply_patch witness_env (witness_doc [[(''key'', JStr ''a''), (''text'', JStr ''x'')], [(''key'', JStr ''b'')]]) p = Inr c \<and>
    db_is_equal c (Some (witness_doc [[(''key'', JStr ''a''), (''text'', JStr ''y'')], [(''key'', JStr ''c'')]]))"
proof -
  let ?a = "witness_doc [[(''key'', JStr ''a''), (''text'', JStr ''x'')], [(''key'', JStr ''b'')]]"
  let ?b = "witness_doc [[(''key'', JStr ''a''), (''text'', JStr ''y'')], [(''key'', JStr ''c'')]]"
  have "proper ?a" by (rule witness_doc_proper) code_simp+
  moreover have "proper ?b" by (rule witness_doc_proper) code_simp+
  moreover have "primary_keys ?b = primary_keys ?a" "string_cols ?b = string_cols ?a" by (simp_all add: witness_doc_def new_doc_def)
  ultimately show ?thesis
    using patch_gives_other_document[OF witness_env_laws witness_doc_inv _ witness_doc_inv] by blast
qed

text \<open>An object whose primary keys are a part of those of a record that is there, is not added but
  edits that record. So the patch that adds such a record, which \<open>set\<close> itself can make when it adds the
  shorter key first, is not applied as it was meant.\<close>

theorem shorter_key_edits_longer:
  "db_make_patch witness_env (witness_doc [[(''key'', JStr ''a''), (''pos'', JNum 1)]])
      (witness_doc [[(''key'', JStr ''a''), (''text'', JStr ''x'')], [(''key'', JStr ''a''), (''pos'', JNum 1)]]) =
     Inr [(1, [[(''key'', JStr ''a''), (''text'', JStr ''x'')]])] \<and>
   map_sum id records (db_apply_patch witness_env (witness_doc [[(''key'', JStr ''a''), (''pos'', JNum 1)]])
      [(1, [[(''key'', JStr ''a''), (''text'', JStr ''x'')]])]) =
     Inr [Some (fmap_of_list [(''key'', JStr ''a''), (''pos'', JNum 1), (''text'', JStr ''x'')])] \<and>
   map_sum id records (set_array witness_env (witness_doc [])
      [[(''key'', JStr ''a''), (''text'', JStr ''x'')], [(''key'', JStr ''a''), (''pos'', JNum 1)]]) =
     Inr [Some (fmap_of_list [(''key'', JStr ''a''), (''text'', JStr ''x'')]),
       Some (fmap_of_list [(''key'', JStr ''a''), (''pos'', JNum 1)])]"
  by code_simp

text \<open>The type check of string columns is made only when a record is edited: a new record keeps a number in
  one, and then no patch ever changes it, since \<open>make_patch\<close> leaves the field out.\<close>

theorem string_column_not_checked:
  "map_sum id records (db_set witness_env (witness_doc []) [(''key'', JStr ''a''), (''text'', JNum 5)]) =
     Inr [Some (fmap_of_list [(''key'', JStr ''a''), (''text'', JNum 5)])] \<and>
   db_set witness_env (witness_doc [[(''key'', JStr ''a''), (''text'', JStr ''x'')]]) [(''key'', JStr ''a''), (''text'', JNum 5)] =
     Inl (MustBeString ''text'' (JNum 5)) \<and>
   db_make_patch witness_env (witness_doc [[(''key'', JStr ''a''), (''text'', JNum 5)]])
      (witness_doc [[(''key'', JStr ''a''), (''text'', JStr ''x'')]]) = Inr [(1, [[(''key'', JStr ''a'')]])] \<and>
   map_sum id records (db_apply_patch witness_env (witness_doc [[(''key'', JStr ''a''), (''text'', JNum 5)]])
      [(1, [[(''key'', JStr ''a'')]])]) = Inr [Some (fmap_of_list [(''key'', JStr ''a''), (''text'', JNum 5)])]"
  by code_simp

text \<open>A null inside a map is stored by \<open>set\<close> but not sent: the patch from a map without the field to one
  where it is null removes nothing and adds nothing, and the documents stay different.\<close>

theorem null_in_map_not_sent:
  "map_sum id records (db_set witness_env (witness_doc []) [(''key'', JStr ''a''), (''m'', JObj (fmap_of_list [(''x'', JNull)]))]) =
     Inr [Some (fmap_of_list [(''key'', JStr ''a''), (''m'', JObj (fmap_of_list [(''x'', JNull)]))])] \<and>
   db_make_patch witness_env (witness_doc [[(''key'', JStr ''a''), (''m'', JObj (fmap_of_list []))]])
      (witness_doc [[(''key'', JStr ''a''), (''m'', JObj (fmap_of_list [(''x'', JNull)]))]]) =
     Inr [(1, [[(''key'', JStr ''a''), (''m'', JObj (fmap_of_list [(''x'', JNull)]))]])] \<and>
   map_sum id records (db_apply_patch witness_env (witness_doc [[(''key'', JStr ''a''), (''m'', JObj (fmap_of_list []))]])
      [(1, [[(''key'', JStr ''a''), (''m'', JObj (fmap_of_list [(''x'', JNull)]))]])]) =
     Inr [Some (fmap_of_list [(''key'', JStr ''a''), (''m'', JObj (fmap_of_list []))])]"
  by code_simp

section \<open>Keys that are complete\<close>

definition full_key :: "string list \<Rightarrow> json_map \<Rightarrow> bool" where
  "full_key pks r \<longleftrightarrow> (\<forall>f \<in> set pks. \<not> is_nil (fmlookup r f))"

definition full_obj :: "string list \<Rightarrow> js_obj \<Rightarrow> bool" where
  "full_obj pks obj \<longleftrightarrow> distinct (map fst obj) \<and> (\<forall>f \<in> set pks. \<not> is_nil (map_of obj f))"

definition full_doc :: "dbdoc \<Rightarrow> bool" where
  "full_doc d \<longleftrightarrow> uniq d \<and> (\<forall>r \<in> rset d. full_key (primary_keys d) r)"

lemma full_keyed: "full_doc d \<Longrightarrow> keyed d"
  unfolding keyed_iff
proof
  assume full: "full_doc d"
  then show "uniq d" by (simp add: full_doc_def)
  have "primary_key_cols d r = primary_key_cols d s"
    if rs: "r \<in> rset d" "s \<in> rset d" "fmsubset (primary_key_cols d r) (primary_key_cols d s)" for r s
  proof (rule fmap_ext)
    fix f
    show "fmlookup (primary_key_cols d r) f = fmlookup (primary_key_cols d s) f"
    proof (cases "f \<in> set (primary_keys d)")
      case True
      then have "\<not> is_nil (fmlookup r f)" using full rs(1) by (simp add: full_doc_def full_key_def)
      then obtain v where v: "fmlookup (primary_key_cols d r) f = Some v" using True by (auto simp: key_lookup not_nil)
      then show ?thesis using rs(3) by (simp add: fmsubset_iff)
    qed (simp add: key_lookup)
  qed
  then show "incomparable (primary_key_cols d ` rset d)" unfolding incomparable_def by blast
qed

lemma full_matches:
  assumes "full_obj (primary_keys d) obj" "db_parse d obj = (wh, st)" "matches wh r" "matches wh s"
  shows "primary_key_cols d r = primary_key_cols d s"
proof (rule fmap_ext)
  fix f
  show "fmlookup (primary_key_cols d r) f = fmlookup (primary_key_cols d s) f"
  proof (cases "f \<in> set (primary_keys d)")
    case True
    then obtain v where v: "map_of obj f = Some v" "v \<noteq> JNull" using assms(1) by (auto simp: full_obj_def not_nil)
    then have "(f, v) \<in> set wh" using assms(2) True map_of_SomeD[OF v(1)] by (auto simp: db_parse_def)
    then have "fmlookup r f = Some v" "fmlookup s f = Some v" using assms(3,4) unfolding matches_def by blast+
    then show ?thesis by (simp add: key_lookup)
  qed (simp add: key_lookup)
qed

lemma full_set:
  assumes "db_inv env d" "inj (json_stable env)" "set (string_cols d) \<inter> set (primary_keys d) = {}"
    and "full_doc d" "full_obj (primary_keys d) obj" "db_set env d obj = Inr d'"
  shows "full_doc d'"
proof -
  obtain wh st where p: "db_parse d obj = (wh, st)" by fastforce
  have keys: "fst ` set wh \<subseteq> set (primary_keys d)" using db_parse_keys[OF p] by blast
  have pk: "primary_keys d' = primary_keys d" and inv': "db_inv env d'" using db_set_inv[OF assms(1,6)] by auto
  have dist: "distinct (map fst obj)" using assms(5) by (simp add: full_obj_def)
  obtain n r where n: "n = (if scan d wh = {} then length (records d) else Min (scan d wh))"
      and nr: "get_one env d' wh = Inr (Some r)" "rec_at (records d') n = Some r"
      "\<forall>m. m \<noteq> n \<longrightarrow> rec_at (records d') m = rec_at (records d) m"
    using set_read_back[OF assms(1-3) dist p assms(6)] by blast
  have r: "matches wh r" using nr(1) get_scan(2)[OF inv' assms(2), of wh] keys pk
    by (auto simp: find_Some_iff match_rec_def split: option.splits)
  have full_r: "full_key (primary_keys d) r"
    unfolding full_key_def
  proof
    fix f assume f: "f \<in> set (primary_keys d)"
    then obtain v where v: "map_of obj f = Some v" "v \<noteq> JNull" using assms(5) by (auto simp: full_obj_def not_nil)
    then have "(f, v) \<in> set wh" using p f map_of_SomeD[OF v(1)] by (auto simp: db_parse_def)
    then show "\<not> is_nil (fmlookup r f)" using r v(2) unfolding matches_def is_nil_def by auto
  qed
  note key = key_cong[OF pk]
  have same: "matches wh s" if "primary_key_cols d s = primary_key_cols d r" for s
  proof -
    have "fmlookup s f = Some v \<and> v \<noteq> JNull" if fv: "(f, v) \<in> set wh" for f v
    proof -
      have "f \<in> set (primary_keys d)" using keys fv by force
      moreover have "fmlookup r f = Some v \<and> v \<noteq> JNull" using r fv unfolding matches_def by blast
      ultimately show ?thesis using \<open>primary_key_cols d s = primary_key_cols d r\<close> key_lookup[of d s f] key_lookup[of d r f] by simp
    qed
    then show ?thesis unfolding matches_def by blast
  qed
  have other: "m = n" if at: "rec_at (records d') m = Some s" and ks: "primary_key_cols d s = primary_key_cols d r" for m s
  proof (rule ccontr)
    assume "m \<noteq> n"
    then have m: "rec_at (records d) m = Some s" using at nr(3) by simp
    then have "m \<in> scan d wh" using same[OF ks] by (simp add: scan_def)
    then have ne: "scan d wh \<noteq> {}" by blast
    then have "n \<in> scan d wh" using Min_in[OF finite_scan ne] n by simp
    then obtain q where q: "rec_at (records d) n = Some q" "matches wh q" by (auto simp: scan_def)
    have "primary_key_cols d q = primary_key_cols d s" by (rule full_matches[OF assms(5) p q(2) same[OF ks]])
    then show False using assms(4) m q(1) \<open>m \<noteq> n\<close> uniqD unfolding full_doc_def by metis
  qed
  have "uniq d'" unfolding uniq_def key
  proof (intro allI impI, elim conjE)
    fix i j s t
    assume a: "rec_at (records d') i = Some s" "rec_at (records d') j = Some t" "primary_key_cols d s = primary_key_cols d t"
    consider "i = n" | "j = n" | "i \<noteq> n" "j \<noteq> n" by blast
    then show "i = j"
    proof cases
      case 1
      then show ?thesis using other[OF a(2)] a(1,3) nr(2) by simp
    next
      case 2
      then show ?thesis using other[OF a(1)] a(2,3) nr(2) by simp
    next
      case 3
      then show ?thesis using a nr(3) assms(4) uniqD unfolding full_doc_def by metis
    qed
  qed
  moreover have "full_key (primary_keys d') s" if s: "s \<in> rset d'" for s
  proof -
    obtain m where m: "rec_at (records d') m = Some s" using s by (auto simp: rset_def)
    show ?thesis
    proof (cases "m = n")
      case True
      then show ?thesis using m nr(2) full_r pk by simp
    next
      case False
      then have "s \<in> rset d" using m nr(3) by (auto simp: rset_def)
      then show ?thesis using assms(4) pk by (simp add: full_doc_def)
    qed
  qed
  ultimately show ?thesis by (simp add: full_doc_def)
qed

lemma full_delete:
  assumes "db_inv env d" "full_doc d" "db_delete env d wh = Inr d'"
  shows "full_doc d'"
proof -
  obtain S where S: "db_select env d wh = Inr S \<or> d' = d"
    using assms(3) by (cases "db_select env d wh") (auto simp: db_delete_def split: if_splits)
  show ?thesis
  proof (cases "d' = d")
    case False
    then have sel: "db_select env d wh = Inr S" using S by blast
    have d': "primary_keys d' = primary_keys d"
        "\<And>n. rec_at (records d') n = (if n \<in> S then None else rec_at (records d) n)"
      using delete_selected[OF assms(1) sel] assms(3) by auto
    have at: "rec_at (records d') n = Some r \<Longrightarrow> rec_at (records d) n = Some r" for n r
      by (simp add: d'(2) split: if_splits)
    have "uniq d'" using assms(2) at uniqD unfolding full_doc_def uniq_def key_cong[OF d'(1)] by metis
    moreover have "rset d' \<subseteq> rset d" using at by (auto simp: rset_def)
    ultimately show ?thesis using assms(2) by (auto simp: full_doc_def d'(1))
  qed (use assms in simp)
qed

lemma full_sets:
  assumes "inj (json_stable env)"
  shows "db_inv env d \<Longrightarrow> set (string_cols d) \<inter> set (primary_keys d) = {} \<Longrightarrow> full_doc d \<Longrightarrow>
    (\<And>x. x \<in> set objs \<Longrightarrow> full_obj (primary_keys d) x) \<Longrightarrow> set_array env d objs = Inr d' \<Longrightarrow> full_doc d'"
proof (induction objs arbitrary: d)
  case (Cons x objs)
  obtain d1 where d1: "db_set env d x = Inr d1" "set_array env d1 objs = Inr d'"
    using Cons.prems(5) by (auto split: sum.splits)
  have inv: "db_inv env d1" "primary_keys d1 = primary_keys d" "string_cols d1 = string_cols d"
    using db_set_inv[OF Cons.prems(1) d1(1)] by auto
  have "full_doc d1" by (rule full_set[OF Cons.prems(1) assms Cons.prems(2,3) _ d1(1)]) (use Cons.prems(4) in simp)
  then show ?case using Cons.IH[OF inv(1)] Cons.prems(2,4) inv(2,3) d1(2) by simp
qed simp

lemma full_deletes:
  "db_inv env d \<Longrightarrow> full_doc d \<Longrightarrow> delete_array env d objs = Inr d' \<Longrightarrow> full_doc d'"
proof (induction objs arbitrary: d)
  case (Cons x objs)
  obtain d1 where d1: "db_delete env d x = Inr d1" "delete_array env d1 objs = Inr d'"
    using Cons.prems(3) by (auto split: sum.splits)
  then show ?case using Cons.IH[OF _ _ d1(2)] db_delete_inv[OF Cons.prems(1) d1(1)] full_delete[OF Cons.prems(1,2) d1(1)] by blast
qed simp

lemma full_patch:
  assumes "inj (json_stable env)"
  shows "db_inv env d \<Longrightarrow> set (string_cols d) \<inter> set (primary_keys d) = {} \<Longrightarrow> full_doc d \<Longrightarrow>
    (\<And>objs x. (1, objs) \<in> set p \<Longrightarrow> x \<in> set objs \<Longrightarrow> full_obj (primary_keys d) x) \<Longrightarrow>
    db_apply_patch env d p = Inr d' \<Longrightarrow> full_doc d'"
proof (induction p arbitrary: d)
  case (Cons x p)
  obtain op arg where x: "x = (op, arg)" by (cases x)
  let ?one = "if op = - 1 then delete_array env d arg else if op = 1 then set_array env d arg else Inr d"
  obtain d1 where d1: "?one = Inr d1" using Cons.prems(5) x by (cases ?one) auto
  have rest: "db_apply_patch env d1 p = Inr d'"
    using Cons.prems(5) unfolding x by (simp only: db_apply_patch.simps d1 sum.case)
  have "db_apply_patch env d [x] = Inr d1" unfolding x by (simp only: db_apply_patch.simps d1 sum.case)
  then have inv: "db_inv env d1" "primary_keys d1 = primary_keys d" "string_cols d1 = string_cols d"
    using apply_patch_inv[OF Cons.prems(1)] by blast+
  have "full_doc d1"
  proof -
    consider "delete_array env d arg = Inr d1" | "op = 1" "set_array env d arg = Inr d1" | "d1 = d"
      using d1 by (cases "op = - 1"; cases "op = 1") simp_all
    then show ?thesis
    proof cases
      case 1
      then show ?thesis by (rule full_deletes[OF Cons.prems(1,3)])
    next
      case 2
      then show ?thesis using full_sets[OF assms Cons.prems(1-3) _ 2(2)] Cons.prems(4)[of arg] x by simp
    qed (use Cons.prems(3) in simp)
  qed
  note full1 = this
  show ?case
  proof (rule Cons.IH[OF inv(1) _ full1 _ rest])
    show "set (string_cols d1) \<inter> set (primary_keys d1) = {}" using Cons.prems(2) inv(2,3) by simp
    fix objs y assume "(1, objs) \<in> set p" "y \<in> set objs"
    then show "full_obj (primary_keys d1) y" using Cons.prems(4)[of objs y] inv(2) by simp
  qed
qed simp

text \<open>Keys that name every primary key keep the records apart: a document that starts empty and is written
  only with objects that have all primary keys never holds two records of which one has the keys of
  the other, which is what the patches need.\<close>

theorem complete_keys_stay_apart:
  assumes "inj (json_stable env)" "distinct pks" "set cols \<inter> set pks = {}"
    and "new_doc env pks cols [] = Inr d0"
    and "\<And>objs x. (1, objs) \<in> set p \<Longrightarrow> x \<in> set objs \<Longrightarrow> full_obj pks x"
    and "db_apply_patch env d0 p = Inr d"
  shows "keyed d"
proof -
  have d0: "primary_keys d0 = pks" "string_cols d0 = cols" "records d0 = []"
    using assms(4) by (auto simp: new_doc_def split: if_splits)
  have "full_doc d0" by (simp add: full_doc_def uniq_def rset_def rec_at_def d0)
  then have "full_doc d"
    using full_patch[OF assms(1) new_doc_inv[OF assms(4,2)] _ _ _ assms(6)] assms(3,5) d0 by blast
  then show ?thesis by (rule full_keyed)
qed

lemma complete_keys_stay_apart_witness:
  "\<exists>d. db_apply_patch witness_env (witness_doc []) [(1, [[(''key'', JStr ''a''), (''pos'', JNum 1)], [(''key'', JStr ''a''), (''pos'', JNum 2)]])] = Inr d \<and> keyed d"
proof -
  let ?p = "[(1, [[(''key'', JStr ''a''), (''pos'', JNum 1)], [(''key'', JStr ''a''), (''pos'', JNum 2)]])] :: db_patch"
  have "isl (db_apply_patch witness_env (witness_doc []) ?p) = False" by code_simp
  then obtain d where d: "db_apply_patch witness_env (witness_doc []) ?p = Inr d"
    by (cases "db_apply_patch witness_env (witness_doc []) ?p") auto
  have new: "new_doc witness_env [''key'', ''pos''] [''text''] [] = Inr (witness_doc [])"
    by (simp add: witness_doc_def new_doc_def)
  have full: "full_obj [''key'', ''pos''] x" if "(1, objs) \<in> set ?p" "x \<in> set objs" for objs x
    using that by (auto simp: full_obj_def is_nil_def)
  have "keyed d"
    by (rule complete_keys_stay_apart[OF _ _ _ new full d]) (use witness_env_laws in \<open>auto simp: env_laws_def\<close>)
  then show ?thesis using d by blast
qed

section \<open>Text\<close>

lemma sort_map: "sort (map f xs) = map f (sort_key f xs)"
  by (rule properties_for_sort) simp_all

text \<open>What a line must satisfy: \<open>JSON.parse\<close> reads back what was written, on one line.\<close>

definition line_ok :: "db_env \<Rightarrow> json_map \<Rightarrow> bool" where
  "line_ok env m \<longleftrightarrow> json_parse env (json_stable env (JObj m)) = Some (JObj m) \<and>
     json_stable env (JObj m) \<noteq> [] \<and> CHR 0x0A \<notin> set (json_stable env (JObj m))"

lemma parse_lines_ok:
  "\<forall>m \<in> set ms. line_ok env m \<Longrightarrow> parse_lines env (map (\<lambda>m. json_stable env (JObj m)) ms) = Some (map Some ms)"
  by (induction ms) (auto simp: line_ok_def)

lemma match_all: "match_rec [] = (\<lambda>r. r \<noteq> None)"
  by (auto simp: match_rec_def matches_def fun_eq_iff split: option.splits)

text \<open>C35: The text of a document with correct indexes, one line for each record in sorted order, is read back as an equal document,
  with correct indexes, also when the primary keys (at least one) or string columns given are others. \<open>JSON.parse\<close> reads back
  each line that \<open>JSON.stringify\<close> wrote for a record, on one line, and different values are written differently.\<close>

theorem text_gives_document:
  assumes inv: "db_inv env d" "inj (json_stable env)" and lines: "\<And>r. r \<in> rset d \<Longrightarrow> line_ok env r"
    and pks: "pks \<noteq> []"
  shows "\<exists>s e. db_to_str env d = Inr s \<and> db_from_str env s pks cols = Some (Inr e) \<and>
    db_is_equal e (Some d) \<and> db_inv env e"
proof -
  define ms where "ms = map the (filter (\<lambda>r. r \<noteq> None) (records d))"
  let ?f = "\<lambda>m. json_stable env (JObj m)"
  define ss where "ss = sort_key ?f ms"
  have recs: "filter (\<lambda>r. r \<noteq> None) (records d) = map Some ms" by (simp add: ms_def comp_def) (rule map_idI[symmetric], auto)
  have set_ms: "set ms = rset d" using arg_cong[OF recs, of set] by (auto simp: in_rset image_iff)
  have get: "db_get env d [] = Inr (map Some ms)" using get_scan(1)[OF inv, of "[]"] unfolding match_all recs by simp
  have str: "db_to_str env d = Inr (join_with (CHR 0x0A) (map ?f ss))"
    by (simp add: db_to_str_def get recs_to_str_def comp_def sort_map ss_def)
  have ok: "\<forall>m \<in> set ss. line_ok env m" using lines by (simp add: ss_def set_ms)
  have parse: "parse_lines env (split_on (CHR 0x0A) (join_with (CHR 0x0A) (map ?f ss))) = Some (map Some ss)"
  proof (cases "ss = []")
    case False
    have "split_on (CHR 0x0A) (join_with (CHR 0x0A) (map ?f ss)) = map ?f ss"
      by (rule split_join) (use False ok in \<open>auto simp: line_ok_def\<close>)
    then show ?thesis using parse_lines_ok[OF ok] by simp
  qed simp
  have "new_doc env (remdups pks) cols (map Some ss) \<noteq> Inl NoPrimaryKey" using pks by (simp add: new_doc_def)
  then obtain e where e: "new_doc env (remdups pks) cols (map Some ss) = Inr e" by (auto simp: new_doc_def split: if_splits)
  have inv_e: "db_inv env e" by (rule new_doc_inv[OF e]) simp
  have recs_e: "records e = map Some ss" using e by (auto simp: new_doc_def split: if_splits)
  have "doc_size e = length ss" using size_filter[OF inv_e] by (simp add: recs_e comp_def)
  moreover have "doc_size d = length ms" using size_filter[OF inv(1)] unfolding recs by simp
  moreover have "length ss = length ms" by (simp add: ss_def)
  moreover have "insert None (set (records d)) = insert None (Some ` set ms)" by (simp add: rset_Some set_ms)
  ultimately have "db_is_equal e (Some d)" by (simp add: db_is_equal_def recs_e ss_def)
  then show ?thesis using str parse e inv_e by (auto simp: db_from_str_def)
qed

lemma text_gives_document_witness:
  "\<exists>s e. db_to_str witness_env (witness_doc [[(''key'', JStr ''a'')]]) = Inr s \<and>
    db_from_str witness_env s [''key'', ''pos''] [''text''] = Some (Inr e) \<and>
    db_is_equal e (Some (witness_doc [[(''key'', JStr ''a'')]]))"
proof -
  have "line_ok witness_env r" if "r \<in> rset (witness_doc [[(''key'', JStr ''a'')]])" for r
  proof -
    have "r = fmap_of_list [(''key'', JStr ''a'')]" using that
      by (auto simp: in_rset witness_doc_def new_doc_def)
    moreover have "line_ok witness_env (fmap_of_list [(''key'', JStr ''a'')])" by code_simp
    ultimately show ?thesis by simp
  qed
  note lines = this
  have inj: "inj (json_stable witness_env)" using witness_env_laws by (simp add: env_laws_def)
  have "[''key'', ''pos''] \<noteq> []" by simp
  from text_gives_document[OF witness_doc_inv inj lines this, where cols = "[''text'']"] show ?thesis by blast
qed

text \<open>The keys that are reported as changed from one document to another are exactly those for which the two
  documents hold different records.\<close>

theorem changed_keys_exact:
  "k \<in> db_changes a (Some b) \<longleftrightarrow>
     {r \<in> rset a. primary_key_cols a r = k} \<noteq> {r \<in> rset b. primary_key_cols a r = k}"
proof -
  have "db_changes a (Some b) = primary_key_cols a ` (rset a - rset b) \<union> primary_key_cols a ` (rset b - rset a)"
    by (auto simp: db_changes_def changed_keys_def rset_rec_list Let_def)
  then have "k \<in> db_changes a (Some b) \<longleftrightarrow> (\<exists>r. k = primary_key_cols a r \<and> (r \<in> rset a \<longleftrightarrow> r \<notin> rset b))"
    by auto
  also have "\<dots> \<longleftrightarrow> {r \<in> rset a. primary_key_cols a r = k} \<noteq> {r \<in> rset b. primary_key_cols a r = k}"
    unfolding set_eq_iff by auto
  finally show ?thesis .
qed

end
