(* ===== verification/SyncDoc.thy ===== *)
theory SyncDoc
  imports PatchConverge
begin

text \<open>
  A document that is edited together with others, the core of the class SyncDoc of
  \<^verbatim>\<open>packages/sync/editor/generic/sync-doc.ts\<close>: the live document of this client, the document at its
  last commit, the list of the patches it knows, committing, merging the patches of others, undo
  and redo. The document (class Document), JSON and the cache are parameters. A commit reads the
  clock and a random number; they are in the record \<open>clock\<close>. The rows that this client has written to
  the patches table, which sends them to the others, are in \<open>sent\<close>. The document is ready, so the patches
  of others are announced by \<open>before-change\<close>. What \<open>commit\<close> starts but does not wait for, saving and the
  rounds of the queue of updates, are operations of their own. Snapshots, which a throttled task in the
  background makes, files, cursors and the life cycle of the object are left out.
\<close>

section \<open>State\<close>

record ('d, 'p, 'c) sync_env =
  se_from_str :: "string \<Rightarrow> 'd"
  se_equal :: "'d \<Rightarrow> 'd \<Rightarrow> bool"
  se_apply :: "'d \<Rightarrow> 'p option \<Rightarrow> 'd"
  se_make :: "'d \<Rightarrow> 'd \<Rightarrow> 'p"
  se_stringify :: "'p \<Rightarrow> string"
  se_parse :: "string \<Rightarrow> 'p"
  se_nil :: 'p
  se_cget :: "'c \<Rightarrow> nat \<Rightarrow> ('d \<times> nat) option \<times> 'c"
  se_cset :: "'c \<Rightarrow> nat \<Rightarrow> 'd \<times> nat \<Rightarrow> 'c"

record clock =
  now :: nat
  rnd :: int
  walltime :: int

text \<open>A row of the patches table.\<close>

record row =
  x_time :: nat
  x_wall :: "int option"
  x_patch :: "string option"
  x_user_id :: int
  x_is_snapshot :: bool
  x_snapshot :: "string option"
  x_seq_info :: "(nat \<times> nat option) option"
  x_parents :: "nat list option"
  x_version :: "int option"

record 'p undo_state =
  my_times :: "nat list"
  pointer :: int
  without :: "nat list"
  final :: "'p option"

record ('d, 'p, 'c) sync_doc =
  patch_list :: "('p, 'c) plist"
  live_doc :: 'd
  last_doc :: 'd
  my_patches :: "(nat, row) obj"
  undo_mode :: "'p undo_state option"
  timeOfLastCommit :: "nat option"
  my_user_id :: nat
  num_users :: nat
  sync_is_disabled :: bool
  sent :: "row list"

datatype sync_error = ValueError patch_error | BadSnapshot nat

type_synonym ('d, 'p, 'c) sync_result = "sync_error + ('d, 'p, 'c) sync_doc"

section \<open>The live document\<close>

definition set_doc :: "('d, 'p, 'c) sync_env \<Rightarrow> 'd \<Rightarrow> bool \<Rightarrow> ('d, 'p, 'c) sync_doc \<Rightarrow> ('d, 'p, 'c) sync_doc" where
  "set_doc env d exit_undo_mode s =
     (if se_equal env d (live_doc s) then s
      else (if exit_undo_mode then s\<lparr>undo_mode := None\<rparr> else s)\<lparr>live_doc := d\<rparr>)"

text \<open>\<open>this.patch_list.value({time, without_times})\<close>, which may change the cache.\<close>

definition value_at :: "('d, 'p, 'c) sync_env \<Rightarrow> nat option \<Rightarrow> nat list option \<Rightarrow> ('d, 'p, 'c) sync_doc \<Rightarrow>
    sync_error + 'd \<times> ('d, 'p, 'c) sync_doc" where
  "value_at env time ws s =
     (case plist_value (se_from_str env) (se_apply env) (se_cget env) (se_cset env) time ws False (patch_list s) of
        (Inl e, _) \<Rightarrow> Inl (ValueError e)
      | (Inr d, pl) \<Rightarrow> Inr (d, s\<lparr>patch_list := pl\<rparr>))"

abbreviation version :: "('d, 'p, 'c) sync_env \<Rightarrow> ('d, 'p, 'c) sync_doc \<Rightarrow> sync_error + 'd \<times> ('d, 'p, 'c) sync_doc" where
  "version env \<equiv> value_at env None None"

abbreviation version_without :: "('d, 'p, 'c) sync_env \<Rightarrow> nat list \<Rightarrow> ('d, 'p, 'c) sync_doc \<Rightarrow>
    sync_error + 'd \<times> ('d, 'p, 'c) sync_doc" where
  "version_without env ws \<equiv> value_at env None (Some ws)"

definition revert :: "('d, 'p, 'c) sync_env \<Rightarrow> nat \<Rightarrow> ('d, 'p, 'c) sync_doc \<Rightarrow> ('d, 'p, 'c) sync_result" where
  "revert env time s = map_sum id (\<lambda>(d, s). set_doc env d True s) (value_at env (Some time) None s)"

section \<open>Rows and patches\<close>

text \<open>Without a snapshot and its position, a row that claims to be a snapshot throws an error.\<close>

definition processPatch :: "('d, 'p, 'c) sync_env \<Rightarrow> row \<Rightarrow> 'p option \<Rightarrow> sync_error + 'p patch" where
  "processPatch env x patch =
     (let (p, size) =
        (if x_is_snapshot x then (patch, case x_snapshot x of None \<Rightarrow> 0 | Some str \<Rightarrow> int (length str))
         else (case patch of
             None \<Rightarrow> (case x_patch x of None \<Rightarrow> (Some (se_nil env), 2)
                      | Some str \<Rightarrow> (Some (se_parse env str), int (length str)))
           | Some q \<Rightarrow> (Some q, case x_patch x of None \<Rightarrow> int (length (se_stringify env q)) | Some str \<Rightarrow> int (length str))))
      in
       if x_is_snapshot x \<and> (x_snapshot x = None \<or> x_seq_info x = None) then Inl (BadSnapshot (x_time x))
       else Inr \<lparr>p_time = x_time x, p_wall = Some (case x_wall x of None \<Rightarrow> int (x_time x) | Some w \<Rightarrow> w), p_patch = p,
         p_user = x_user_id x, p_size = size, p_is_snapshot = x_is_snapshot x,
         p_snapshot = (if x_is_snapshot x then x_snapshot x else None),
         p_seq_info = (if x_is_snapshot x then x_seq_info x else None),
         p_parents = Some (case x_parents x of None \<Rightarrow> [] | Some ps \<Rightarrow> ps), p_version = x_version x\<rparr>)"

fun process_all :: "('d, 'p, 'c) sync_env \<Rightarrow> row list \<Rightarrow> sync_error + 'p patch list" where
  "process_all env [] = Inr []"
| "process_all env (x # xs) =
     (case processPatch env x None of
        Inl e \<Rightarrow> Inl e
      | Inr p \<Rightarrow> map_sum id (\<lambda>ps. p # ps) (process_all env xs))"

text \<open>\<open>v.sort(patch_cmp)\<close>.\<close>

definition get_patches :: "('d, 'p, 'c) sync_env \<Rightarrow> row list \<Rightarrow> sync_error + 'p patch list" where
  "get_patches env m = map_sum id (sort_by patch_cmp) (process_all env m)"

section \<open>Commits\<close>

definition next_patch_time :: "clock \<Rightarrow> ('d, 'p, 'c) sync_doc \<Rightarrow> nat" where
  "next_patch_time c s =
     (let t = (if timeOfLastCommit s = Some (now c) then now c + 1 else now c) in
      nat (next_available_time (rnd c) (patch_list s) (int t) (int (my_user_id s)) (int (num_users s))))"

definition commit_row :: "('d, 'p, 'c) sync_env \<Rightarrow> clock \<Rightarrow> nat \<Rightarrow> 'p \<Rightarrow> ('d, 'p, 'c) sync_doc \<Rightarrow> row" where
  "commit_row env c time patch s =
     \<lparr>x_time = time, x_wall = Some (walltime c), x_patch = Some (se_stringify env patch), x_user_id = int (my_user_id s),
      x_is_snapshot = False, x_snapshot = None, x_seq_info = None, x_parents = Some (getHeads (live (patch_list s))),
      x_version = Some (lastVersion (patch_list s) + 1)\<rparr>"

definition commit_patch :: "('d, 'p, 'c) sync_env \<Rightarrow> clock \<Rightarrow> nat \<Rightarrow> 'p \<Rightarrow> ('d, 'p, 'c) sync_doc \<Rightarrow> ('d, 'p, 'c) sync_result" where
  "commit_patch env c time patch s =
     (let x = commit_row env c time patch s;
          s1 = s\<lparr>timeOfLastCommit := Some time, my_patches := obj_set time x (my_patches s),
            undo_mode := map_option (\<lambda>u. u\<lparr>without := time # without u\<rparr>) (undo_mode s),
            sent := sent s @ [x]\<rparr>
      in map_sum id (\<lambda>y. s1\<lparr>patch_list := add_patches [y] (patch_list s1)\<rparr>) (processPatch env x (Some patch)))"

definition commit :: "('d, 'p, 'c) sync_env \<Rightarrow> clock \<Rightarrow> ('d, 'p, 'c) sync_doc \<Rightarrow> ('d, 'p, 'c) sync_result" where
  "commit env c s =
     (if se_equal env (last_doc s) (live_doc s) then Inr s
      else
        (let patch = se_make env (last_doc s) (live_doc s);
             s1 = s\<lparr>last_doc := live_doc s\<rparr>
         in commit_patch env c (next_patch_time c s1) patch s1))"

section \<open>Merging\<close>

text \<open>
  The listeners of the event \<open>before-change\<close> may set the document: \<open>edit\<close>. Then \<open>commit\<close> is called again.
\<close>

definition sync_remote_and_doc :: "('d, 'p, 'c) sync_env \<Rightarrow> clock \<Rightarrow> clock \<Rightarrow> bool \<Rightarrow> 'd option \<Rightarrow> ('d, 'p, 'c) sync_doc \<Rightarrow>
    ('d, 'p, 'c) sync_result" where
  "sync_remote_and_doc env c1 c2 upstreamPatches edit s =
     (if sync_is_disabled s then Inr s
      else
        (case commit env c1 s of
           Inl e \<Rightarrow> Inl e
         | Inr s1 \<Rightarrow>
             (case (if upstreamPatches
                    then commit env c2 (case edit of None \<Rightarrow> s1 | Some d \<Rightarrow> set_doc env d True s1)
                    else Inr s1) of
                Inl e \<Rightarrow> Inl e
              | Inr s2 \<Rightarrow>
                  map_sum id (\<lambda>(new_remote, s3).
                      if se_equal env (live_doc s3) new_remote then s3
                      else s3\<lparr>last_doc := new_remote, live_doc := new_remote\<rparr>)
                    (version env s2))))"

text \<open>
  One round of the loop of \<open>handle_patch_update_queue\<close>; \<open>xs\<close> are the rows of the table for the
  keys in the queue.
\<close>

definition handle_patch_update_queue :: "('d, 'p, 'c) sync_env \<Rightarrow> clock \<Rightarrow> clock \<Rightarrow> row list \<Rightarrow> 'd option \<Rightarrow>
    ('d, 'p, 'c) sync_doc \<Rightarrow> ('d, 'p, 'c) sync_result" where
  "handle_patch_update_queue env c1 c2 xs edit s =
     (case process_all env (filter (\<lambda>x. x_time x \<noteq> 0 \<and> obj_get (my_patches s) (x_time x) = None) xs) of
        Inl e \<Rightarrow> Inl e
      | Inr v \<Rightarrow>
          sync_remote_and_doc env c1 c2 (v \<noteq> []) edit (s\<lparr>patch_list := add_patches v (patch_list s)\<rparr>))"

definition disable_sync :: "('d, 'p, 'c) sync_doc \<Rightarrow> ('d, 'p, 'c) sync_doc" where
  "disable_sync s = s\<lparr>sync_is_disabled := True\<rparr>"

definition enable_sync :: "('d, 'p, 'c) sync_env \<Rightarrow> clock \<Rightarrow> clock \<Rightarrow> 'd option \<Rightarrow> ('d, 'p, 'c) sync_doc \<Rightarrow> ('d, 'p, 'c) sync_result" where
  "enable_sync env c1 c2 edit s = sync_remote_and_doc env c1 c2 True edit (s\<lparr>sync_is_disabled := False\<rparr>)"

text \<open>A round of the loop of \<open>save\<close>. Afterwards the document is the one of the last commit.\<close>

definition save_round :: "('d, 'p, 'c) sync_env \<Rightarrow> clock \<Rightarrow> ('d, 'p, 'c) sync_doc \<Rightarrow> ('d, 'p, 'c) sync_result" where
  "save_round env c s =
     (if se_equal env (live_doc s) (last_doc s) then Inr s else sync_remote_and_doc env c c False None s)"

text \<open>The end of \<open>init_patch_list\<close>: if there is no value, the document is empty.\<close>

definition init_patch_list :: "('d, 'p, 'c) sync_env \<Rightarrow> row list \<Rightarrow> 'c \<Rightarrow> nat \<Rightarrow> nat \<Rightarrow> ('d, 'p, 'c) sync_result" where
  "init_patch_list env m c uid n =
     map_sum id (\<lambda>ps.
         case plist_value (se_from_str env) (se_apply env) (se_cget env) (se_cset env) None None False
                (add_patches ps (new_plist c)) of
           (r, pl) \<Rightarrow>
             (let d = (case r of Inl _ \<Rightarrow> se_from_str env '''' | Inr d \<Rightarrow> d) in
              \<lparr>patch_list = pl, live_doc = d, last_doc = d, my_patches = [], undo_mode = None, timeOfLastCommit = None,
                my_user_id = uid, num_users = n, sync_is_disabled = False, sent = []\<rparr>))
       (get_patches env m)"

section \<open>Undo and redo\<close>

definition initUndoState :: "('d, 'p, 'c) sync_doc \<Rightarrow> 'p undo_state" where
  "initUndoState s =
     (case undo_mode s of
        Some u \<Rightarrow> u
      | None \<Rightarrow>
          (let ts = js_sort (js_keys (my_patches s)) in
           \<lparr>my_times = ts, pointer = int (length ts), without = [], final = None\<rparr>))"

text \<open>\<open>xs[i]\<close>.\<close>

definition js_nth :: "'a list \<Rightarrow> int \<Rightarrow> 'a option" where
  "js_nth xs i = (if 0 \<le> i \<and> nat i < length xs then Some (xs ! nat i) else None)"

definition undo_step :: "('d, 'p, 'c) sync_env \<Rightarrow> ('d, 'p, 'c) sync_doc \<Rightarrow> sync_error + 'd \<times> ('d, 'p, 'c) sync_doc" where
  "undo_step env s =
     (let u = initUndoState s in
      if pointer u = int (length (my_times u)) then
        (case version env s of
           Inl e \<Rightarrow> Inl e
         | Inr (val, s1) \<Rightarrow>
             if \<not> se_equal env (live_doc s1) val then
               Inr (val, s1\<lparr>undo_mode := Some (u\<lparr>final := Some (se_make env val (live_doc s1)), pointer := pointer u - 1\<rparr>)\<rparr>)
             else
               (case js_nth (my_times u) (pointer u - 1) of
                  Some tm \<Rightarrow>
                    (let ws = without u @ [tm] in
                     version_without env ws (s1\<lparr>undo_mode := Some (u\<lparr>pointer := pointer u - 2, without := ws\<rparr>)\<rparr>))
                | None \<Rightarrow> Inr (val, s1\<lparr>undo_mode := Some (u\<lparr>pointer := pointer u - 2\<rparr>)\<rparr>)))
      else
        (let u' = (if pointer u \<ge> 0
                   then u\<lparr>without := without u @ [my_times u ! nat (pointer u)], pointer := pointer u - 1\<rparr> else u) in
         version_without env (without u') (s\<lparr>undo_mode := Some u'\<rparr>)))"

definition redo_step :: "('d, 'p, 'c) sync_env \<Rightarrow> ('d, 'p, 'c) sync_doc \<Rightarrow> sync_error + 'd \<times> ('d, 'p, 'c) sync_doc" where
  "redo_step env s =
     (case undo_mode s of
        None \<Rightarrow> Inr (live_doc s, s)
      | Some u \<Rightarrow>
          (let len = int (length (my_times u)) in
           if pointer u = len then Inr (live_doc s, s)
           else if pointer u = len - 1 then
             map_sum id (\<lambda>(val, s1). (se_apply env val (final u), s1\<lparr>undo_mode := Some (u\<lparr>pointer := pointer u + 1\<rparr>)\<rparr>))
               (version env s)
           else
             (let u1 = u\<lparr>without := butlast (without u), pointer := pointer u + 1\<rparr>;
                  u2 = (if final u1 = None \<and> pointer u1 = len - 1 then u1\<lparr>pointer := pointer u1 + 1\<rparr> else u1)
              in version_without env (without u2) (s\<lparr>undo_mode := Some u2\<rparr>))))"

definition undo :: "('d, 'p, 'c) sync_env \<Rightarrow> clock \<Rightarrow> ('d, 'p, 'c) sync_doc \<Rightarrow> ('d, 'p, 'c) sync_result" where
  "undo env c s =
     (case undo_step env s of
        Inl e \<Rightarrow> Inl e
      | Inr (prev, s1) \<Rightarrow> commit env c (set_doc env prev False s1))"

definition redo :: "('d, 'p, 'c) sync_env \<Rightarrow> clock \<Rightarrow> ('d, 'p, 'c) sync_doc \<Rightarrow> ('d, 'p, 'c) sync_result" where
  "redo env c s =
     (case redo_step env s of
        Inl e \<Rightarrow> Inl e
      | Inr (next_doc, s1) \<Rightarrow> commit env c (set_doc env next_doc False s1))"

definition exit_undo_mode :: "('d, 'p, 'c) sync_doc \<Rightarrow> ('d, 'p, 'c) sync_doc" where
  "exit_undo_mode s = s\<lparr>undo_mode := None\<rparr>"

end
