(* ===== verification/SyncSession.thy ===== *)
theory SyncSession
  imports SyncDoc
begin

text \<open>
  One client of a synchronized document: what its list of patches has to do with the rows of the
  patches table (\<open>client_ok\<close>), kept by commits, by values, and by rows that arrive.
\<close>

section \<open>Rows and clocks\<close>

definition env_ok :: "('d, 'p, 'c) sync_env \<Rightarrow> bool" where
  "env_ok env \<longleftrightarrow> lru_laws (se_cget env) (se_cset env) \<and> 
     (\<forall>a b. se_parse env (se_stringify env (se_make env a b)) = se_make env a b)"

text \<open>A patch that survives its way as JSON.\<close>

definition sendable :: "('d, 'p, 'c) sync_env \<Rightarrow> 'p \<Rightarrow> bool" where
  "sendable env p \<longleftrightarrow> se_parse env (se_stringify env p) = p"

lemma made_sendable: "env_ok env \<Longrightarrow> sendable env (se_make env a b)"
  by (simp add: env_ok_def sendable_def)

definition patch_of :: "('d, 'p, 'c) sync_env \<Rightarrow> row \<Rightarrow> 'p patch" where
  "patch_of env x = projr (processPatch env x None)"

definition row_parents :: "row \<Rightarrow> nat list" where
  "row_parents x = (case x_parents x of None \<Rightarrow> [] | Some ps \<Rightarrow> ps)"

definition plain_row :: "nat \<Rightarrow> row \<Rightarrow> bool" where
  "plain_row D x \<longleftrightarrow> \<not> x_is_snapshot x \<and> x_time x \<noteq> 0 \<and> length (decimal (x_time x)) = D \<and>
     (\<forall>q \<in> set (row_parents x). q < x_time x)"

lemma process_row:
  assumes "plain_row D x"
  shows "processPatch env x None = Inr (patch_of env x)" "plain D (patch_of env x)"
    "p_time (patch_of env x) = x_time x" "parents_of (patch_of env x) = row_parents x"
proof -
  have x: "\<not> x_is_snapshot x" using assms by (simp add: plain_row_def)
  show "processPatch env x None = Inr (patch_of env x)" using x
    by (auto simp: patch_of_def processPatch_def Let_def split: prod.splits option.splits)
  show "p_time (patch_of env x) = x_time x" "parents_of (patch_of env x) = row_parents x" using x
    by (simp_all add: patch_of_def processPatch_def row_parents_def parents_of_def split: prod.splits)
  then show "plain D (patch_of env x)" using assms x
    by (simp add: plain_def timely_def plain_row_def) (simp add: patch_of_def processPatch_def split: prod.splits)
qed

lemma process_rows:
  "\<forall>x \<in> set xs. plain_row D x \<Longrightarrow> process_all env xs = Inr (map (patch_of env) xs)"
  by (induction xs) (auto simp: process_row(1)[of D])

text \<open>A commit is at most so much later than the clock and what the client knows.\<close>

definition slack :: "nat \<Rightarrow> nat" where
  "slack n = 1002 + 3 * n"

definition room :: "nat \<Rightarrow> nat \<Rightarrow> nat \<Rightarrow> nat \<Rightarrow> bool" where
  "room D n k t \<longleftrightarrow> t + k * slack n < 10 ^ D"

definition clock_ok :: "nat \<Rightarrow> nat \<Rightarrow> nat \<Rightarrow> clock \<Rightarrow> bool" where
  "clock_ok D n k c \<longleftrightarrow> 0 < D \<and> 10 ^ (D - 1) \<le> now c \<and> room D n k (now c) \<and> 0 \<le> rnd c \<and> rnd c \<le> 1000"

lemma room_less: "room D n (Suc k) t \<Longrightarrow> room D n k t"
  by (simp add: room_def)

lemma digits: "0 < D \<Longrightarrow> 10 ^ (D - 1) \<le> t \<Longrightarrow> t < 10 ^ D \<Longrightarrow> length (decimal t) = D"
proof (induction D arbitrary: t)
  case (Suc D)
  show ?case
  proof (cases "D = 0")
    case True
    then show ?thesis using Suc.prems by (simp add: decimal.simps)
  next
    case False
    then obtain E where D: "D = Suc E" by (cases D) auto
    have lo: "10 * 10 ^ E \<le> t" and hi: "t < 10 * 10 ^ D" using Suc.prems D by simp_all
    have "10 \<le> t" using lo by (rule order_trans[rotated]) simp
    moreover have "10 ^ E \<le> t div 10" "t div 10 < 10 ^ D" using lo hi by (simp_all add: div_le_mono less_mult_imp_div_less mult.commute)
    ultimately show ?thesis using Suc.IH[of "t div 10"] D by (subst decimal.simps) simp
  qed
qed simp

lemma next_time:
  assumes "clock_ok D n (Suc k) c" "room D n (Suc k) (maxTime (patch_list s))" "my_user_id s < n" "num_users s = n"
  shows "maxTime (patch_list s) < next_patch_time c s" "next_patch_time c s mod n = my_user_id s"
    "room D n k (next_patch_time c s)" "length (decimal (next_patch_time c s)) = D"
proof -
  let ?t = "if timeOfLastCommit s = Some (now c) then now c + 1 else now c"
  let ?v = "next_available_time (rnd c) (patch_list s) (int ?t) (int (my_user_id s)) (int (num_users s))"
  have c: "0 \<le> rnd c" "rnd c \<le> 1000" "0 < D" "10 ^ (D - 1) \<le> now c" "now c + Suc k * slack n < 10 ^ D"
    and m: "maxTime (patch_list s) + Suc k * slack n < 10 ^ D"
    using assms(1,2) by (auto simp: clock_ok_def room_def)
  have v: "int (maxTime (patch_list s)) < ?v" "int ?t \<le> ?v" "?v mod int n = int (my_user_id s) mod int n"
      "?v < max (int ?t) (int (maxTime (patch_list s))) + 1001 + int (my_user_id s) + 2 * int n"
    using next_time_bounds[of "int (my_user_id s)" "int (num_users s)" "rnd c" "patch_list s" "int ?t"] assms(3,4) c(1,2)
    by auto
  have next_eq: "next_patch_time c s = nat ?v" by (simp add: next_patch_time_def Let_def)
  have nonneg: "0 \<le> ?v" using v(1) by linarith
  show "maxTime (patch_list s) < next_patch_time c s" unfolding next_eq using v(1) by linarith
  have "int (nat ?v mod n) = ?v mod int n" using nonneg by (simp add: zmod_int)
  then show "next_patch_time c s mod n = my_user_id s" unfolding next_eq using v(3) assms(3) by (simp flip: zmod_int)
  have "nat ?v < max ?t (maxTime (patch_list s)) + 1001 + my_user_id s + 2 * n" using v(4) nonneg by linarith
  then have "nat ?v + 1 < max (now c) (maxTime (patch_list s)) + slack n + 1"
    using assms(3) by (auto simp: slack_def split: if_splits)
  then have up: "nat ?v + k * slack n < 10 ^ D" using c(5) m by (simp add: max_def split: if_splits)
  then show "room D n k (next_patch_time c s)" by (simp add: next_eq room_def)
  have "now c \<le> nat ?v" using v(2) by (auto split: if_splits)
  then show "length (decimal (next_patch_time c s)) = D"
    unfolding next_eq using c(3,4) up by (intro digits) linarith+
qed

section \<open>What a client knows\<close>

definition table_ok :: "nat \<Rightarrow> nat \<Rightarrow> row list \<Rightarrow> bool" where
  "table_ok D n R \<longleftrightarrow> distinct (map x_time R) \<and>
     (\<forall>x \<in> set R. plain_row D x \<and> int (x_time x mod n) = x_user_id x \<and> set (row_parents x) \<subseteq> x_time ` set R)"

abbreviation rows_of :: "row list \<Rightarrow> ('d, 'p, 'c) sync_doc \<Rightarrow> row list" where
  "rows_of T s \<equiv> T @ sent s"

definition known_rows :: "row list \<Rightarrow> ('d, 'p, 'c) sync_doc \<Rightarrow> row set" where
  "known_rows T s = {x \<in> set (rows_of T s). x_time x \<in> dom (total (patch_list s))}"

definition list_ok :: "('d, 'p, 'c) sync_env \<Rightarrow> nat \<Rightarrow> row list \<Rightarrow> ('p, 'c) plist \<Rightarrow> row set \<Rightarrow> bool" where
  "list_ok env D R pl K \<longleftrightarrow> K \<subseteq> set R \<and> session_ok (se_from_str env) (se_apply env) (se_cget env) D pl \<and>
     received D pl (patch_of env ` K)"

definition client_ok :: "('d, 'p, 'c) sync_env \<Rightarrow> nat \<Rightarrow> nat \<Rightarrow> nat \<Rightarrow> row list \<Rightarrow> ('d, 'p, 'c) sync_doc \<Rightarrow> bool" where
  "client_ok env D n k T s \<longleftrightarrow>
     table_ok D n (rows_of T s) \<and> (\<forall>x \<in> set (rows_of T s). room D n k (x_time x)) \<and>
     maxTime (patch_list s) \<in> insert 0 (dom (total (patch_list s))) \<and> my_user_id s < n \<and> num_users s = n \<and>
     list_ok env D (rows_of T s) (patch_list s) (known_rows T s) \<and>
     (\<forall>x \<in> set (rows_of T s). x_user_id x = int (my_user_id s) \<longrightarrow> x \<in> known_rows T s) \<and>
     (\<forall>t. obj_get (my_patches s) t \<noteq> None \<longrightarrow> t \<in> dom (total (patch_list s)))"

lemma table_inj: "table_ok D n R \<Longrightarrow> inj_on x_time (set R)"
  by (simp add: table_ok_def distinct_map)

lemma table_plain: "table_ok D n R \<Longrightarrow> x \<in> set R \<Longrightarrow> plain_row D x"
  by (simp add: table_ok_def)

lemma patch_times:
  assumes "table_ok D n R" "A \<subseteq> set R"
  shows "p_time ` patch_of env ` A = x_time ` A" "inj_on p_time (patch_of env ` A)" "\<forall>p \<in> patch_of env ` A. plain D p"
    "inj_on (patch_of env) A"
proof -
  have A: "p_time (patch_of env x) = x_time x" "plain D (patch_of env x)" if "x \<in> A" for x
    using process_row[OF table_plain[OF assms(1)]] assms(2) that by blast+
  have inj: "inj_on x_time A" by (rule inj_on_subset[OF table_inj[OF assms(1)] assms(2)])
  show "p_time ` patch_of env ` A = x_time ` A" using A(1) by (simp add: image_image)
  show "inj_on p_time (patch_of env ` A)" using A(1) inj by (fastforce simp: inj_on_def)
  show "inj_on (patch_of env) A" using A(1) inj by (metis inj_on_def)
  show "\<forall>p \<in> patch_of env ` A. plain D p" using A(2) by blast
qed

lemma received_dom: "received D pl M \<Longrightarrow> dom (total pl) = p_time ` M"
  by (auto simp: received_def dom_def)

lemma known_rows_eq:
  assumes "table_ok D n R" "K \<subseteq> set R" "received D pl (patch_of env ` K)"
  shows "{x \<in> set R. x_time x \<in> dom (total pl)} = K"
proof -
  have "dom (total pl) = x_time ` K" using received_dom[OF assms(3)] patch_times(1)[OF assms(1,2)] by simp
  then show ?thesis using table_inj[OF assms(1)] assms(2) by (auto simp: inj_on_def)
qed

lemma maxTime_add:
  assumes "plist_ok D pl" "\<forall>p \<in> set ps. plain D p"
  shows "maxTime (add_patches ps pl) = fold max (map p_time ps) (maxTime pl)"
proof (cases "ps = []")
  case False
  have "maxTime (foldl add_one pl ps) = fold max (map p_time ps) (maxTime pl)" for pl :: "('a, 'b) plist" and ps
  proof (induction ps arbitrary: pl)
    case (Cons p ps)
    have "maxTime (add_one pl p) = max (maxTime pl) (p_time p)"
      by (simp add: add_one_def add_snapshot_def stage_patch_def Let_def split: option.split)
    then show ?case using Cons by (simp add: max.commute)
  qed simp
  moreover have "plist_ok D (foldl add_one pl ps)" using assms
    by (induction ps arbitrary: pl) (simp_all add: add_one_ok plain_def)
  ultimately show ?thesis using add_loop_total[of D "foldl add_one pl ps"] False by (simp add: add_patches_def)
qed (simp add: add_patches_def)

lemma fold_max_in: "fold max ts (m :: nat) \<in> insert m (set ts)"
  by (induction ts arbitrary: m) (auto simp: max_def)

text \<open>Rows are added.\<close>

lemma list_ok_add:
  assumes T: "table_ok D n R" and env: "env_ok env" and ok: "list_ok env D R pl K" and xs: "set xs \<subseteq> set R"
  shows "list_ok env D R (add_patches (map (patch_of env) xs) pl) (K \<union> set xs)"
proof -
  let ?pl = "add_patches (map (patch_of env) xs) pl"
  have K: "K \<union> set xs \<subseteq> set R" using ok xs by (simp add: list_ok_def)
  note times = patch_times[OF T K, of env]
  have r: "received D pl (patch_of env ` K)" and s: "session_ok (se_from_str env) (se_apply env) (se_cget env) D pl"
    using ok by (simp_all add: list_ok_def)
  have "received D ?pl (patch_of env ` K \<union> set (map (patch_of env) xs))"
    by (rule add_patches_received[OF r]) (use times in \<open>simp_all add: image_Un\<close>)
  moreover have "session (se_from_str env) (se_apply env) (se_cget env) (se_cset env) D pl ?pl"
    by (rule session_add) (use times(3) in \<open>auto simp: plain_def calm_def\<close>)
  then have "session_ok (se_from_str env) (se_apply env) (se_cget env) D ?pl"
    using session_keeps[OF _ _ s] env by (simp add: env_ok_def)
  ultimately show ?thesis using K by (simp add: list_ok_def image_Un)
qed

lemma total_add_rows:
  assumes "table_ok D n R" "env_ok env" "list_ok env D R pl K" "set xs \<subseteq> set R"
  shows "dom (total (add_patches (map (patch_of env) xs) pl)) = dom (total pl) \<union> x_time ` set xs"
proof -
  note ok = list_ok_add[OF assms]
  have sub: "K \<subseteq> set R" "K \<union> set xs \<subseteq> set R" using assms(3,4) by (simp_all add: list_ok_def)
  have "received D pl (patch_of env ` K)" using assms(3) by (simp add: list_ok_def)
  then have "dom (total pl) = x_time ` K" using received_dom patch_times(1)[OF assms(1) sub(1)] by metis
  moreover have "received D (add_patches (map (patch_of env) xs) pl) (patch_of env ` (K \<union> set xs))"
    using ok by (simp add: list_ok_def)
  then have "dom (total (add_patches (map (patch_of env) xs) pl)) = x_time ` (K \<union> set xs)"
    using received_dom patch_times(1)[OF assms(1) sub(2)] by metis
  ultimately show ?thesis by (simp add: image_Un)
qed

lemma client_receive:
  assumes env: "env_ok env" and ok: "client_ok env D n k T s" and xs: "set xs \<subseteq> set (rows_of T s)"
  defines "s' \<equiv> s\<lparr>patch_list := add_patches (map (patch_of env) xs) (patch_list s)\<rparr>"
  shows "client_ok env D n k T s'" "known_rows T s' = known_rows T s \<union> set xs"
proof -
  let ?R = "rows_of T s" and ?pl = "add_patches (map (patch_of env) xs) (patch_list s)"
  have T: "table_ok D n ?R" and l: "list_ok env D ?R (patch_list s) (known_rows T s)" using ok by (simp_all add: client_ok_def)
  note l' = list_ok_add[OF T env l xs] and dom = total_add_rows[OF T env l xs]
  have pl: "received D ?pl (patch_of env ` (known_rows T s \<union> set xs))" "known_rows T s \<union> set xs \<subseteq> set ?R"
    using l' by (simp_all add: list_ok_def)
  show K: "known_rows T s' = known_rows T s \<union> set xs"
    using known_rows_eq[OF T pl(2,1)] by (simp add: known_rows_def s'_def)
  have "maxTime ?pl = fold max (map p_time (map (patch_of env) xs)) (maxTime (patch_list s))"
    by (rule maxTime_add) (use l patch_times(3)[OF T xs, of env] in \<open>auto simp: list_ok_def session_ok_def\<close>)
  moreover have "set (map p_time (map (patch_of env) xs)) = x_time ` set xs"
    using patch_times(1)[OF T xs, of env] by (simp add: image_image)
  ultimately have "maxTime ?pl \<in> insert 0 (dom (total ?pl))"
    using ok dom fold_max_in[of "map p_time (map (patch_of env) xs)" "maxTime (patch_list s)"] by (auto simp: client_ok_def)
  then show "client_ok env D n k T s'" using ok l' dom unfolding client_ok_def K by (simp add: s'_def)
qed

section \<open>Values\<close>

lemma cache_received: "plist_ok D (pl\<lparr>cache := c\<rparr>) = plist_ok D pl" "total (pl\<lparr>cache := c\<rparr>) = total pl"
    "received D (pl\<lparr>cache := c\<rparr>) M = received D pl M"
  by (simp_all add: received_def plist_ok_def total_def)

lemma left_out_none: "left_out None ws = ws"
  by (cases ws) (simp_all add: left_out_def)

definition with_cache :: "'c \<Rightarrow> ('d, 'p, 'c) sync_doc \<Rightarrow> ('d, 'p, 'c) sync_doc" where
  "with_cache c s = s\<lparr>patch_list := (patch_list s)\<lparr>cache := c\<rparr>\<rparr>"

text \<open>The value of the document at the patches that the client has complete, leaving out \<open>ws\<close>.\<close>

definition doc_value :: "('d, 'p, 'c) sync_env \<Rightarrow> nat list option \<Rightarrow> ('d, 'p, 'c) sync_doc \<Rightarrow> 'd" where
  "doc_value env ws s =
     spec_value (se_from_str env) (se_apply env) (live (patch_list s)) ws (set (getHeads (live (patch_list s))))"

lemma client_value:
  assumes env: "env_ok env" and ok: "client_ok env D n k T s"
  obtains c where "value_at env None ws s = Inr (doc_value env ws s, with_cache c s)" "client_ok env D n k T (with_cache c s)"
proof -
  have s: "session_ok (se_from_str env) (se_apply env) (se_cget env) D (patch_list s)"
    using ok by (simp add: client_ok_def list_ok_def)
  have lru: "lru_laws (se_cget env) (se_cset env)" using env by (simp add: env_ok_def)
  obtain c where c: "plist_value (se_from_str env) (se_apply env) (se_cget env) (se_cset env) None ws False (patch_list s) =
      (Inr (doc_value env ws s), (patch_list s)\<lparr>cache := c\<rparr>)"
      "cache_ok (se_from_str env) (se_apply env) (se_cget env) (live (patch_list s)) c"
    using plist_value_ok[OF lru s, of None ws False] by (auto simp: asked_def left_out_none doc_value_def)
  have "client_ok env D n k T (with_cache c s)"
    using ok c(2) by (simp add: client_ok_def list_ok_def known_rows_def cache_received session_ok_def with_cache_def)
  then show ?thesis using that c(1) by (simp add: value_at_def with_cache_def)
qed

section \<open>Commits\<close>

lemma live_total: "plist_ok D pl \<Longrightarrow> t \<in> dom (obj_get (live pl)) \<Longrightarrow> t \<in> dom (total pl)"
  by (auto simp: total_def)

lemma total_max: "plist_ok D pl \<Longrightarrow> t \<in> dom (total pl) \<Longrightarrow> t \<le> maxTime pl"
  unfolding plist_ok_def total_def by (auto simp: dom_def)

lemma client_list:
  assumes "client_ok env D n k T s"
  shows "plist_ok D (patch_list s)" "dom (total (patch_list s)) = x_time ` known_rows T s"
    "received D (patch_list s) (patch_of env ` known_rows T s)" "known_rows T s \<subseteq> set (rows_of T s)"
    "session_ok (se_from_str env) (se_apply env) (se_cget env) D (patch_list s)" "table_ok D n (rows_of T s)"
proof -
  show l: "received D (patch_list s) (patch_of env ` known_rows T s)" "known_rows T s \<subseteq> set (rows_of T s)"
    "session_ok (se_from_str env) (se_apply env) (se_cget env) D (patch_list s)" "table_ok D n (rows_of T s)"
    using assms by (simp_all add: client_ok_def list_ok_def)
  show "plist_ok D (patch_list s)" using l(1) by (simp add: received_def)
  show "dom (total (patch_list s)) = x_time ` known_rows T s"
    using received_dom[OF l(1)] patch_times(1)[OF l(4,2)] by metis
qed

lemma new_row:
  fixes patch
  assumes ok: "client_ok env D n (Suc k) T s" and c: "clock_ok D n (Suc k) c"
  defines "x \<equiv> commit_row env c (next_patch_time c s) patch s"
  shows "table_ok D n (rows_of T s @ [x])" "x_time x \<notin> x_time ` set (rows_of T s)" "room D n k (x_time x)"
    "maxTime (patch_list s) < x_time x" "x_user_id x = int (my_user_id s)"
proof -
  note l = client_list[OF ok]
  have u: "my_user_id s < n" "num_users s = n"
    and own: "\<forall>y \<in> set (rows_of T s). x_user_id y = int (my_user_id s) \<longrightarrow> y \<in> known_rows T s"
    and max: "maxTime (patch_list s) \<in> insert 0 (x_time ` known_rows T s)" "\<forall>x \<in> set (rows_of T s). room D n (Suc k) (x_time x)"
    using ok l(2) by (simp_all add: client_ok_def)
  have "room D n (Suc k) 0" using c by (simp add: clock_ok_def room_def)
  then have "room D n (Suc k) (maxTime (patch_list s))" using max l(4) by auto
  note t = next_time[OF c this u]
  have x: "x_time x = next_patch_time c s" "row_parents x = getHeads (live (patch_list s))" "\<not> x_is_snapshot x"
      "x_user_id x = int (my_user_id s)"
    by (simp_all add: x_def commit_row_def row_parents_def)
  show "room D n k (x_time x)" "maxTime (patch_list s) < x_time x" "x_user_id x = int (my_user_id s)"
    using t x by simp_all
  show fresh: "x_time x \<notin> x_time ` set (rows_of T s)"
  proof
    assume "x_time x \<in> x_time ` set (rows_of T s)"
    then obtain y where y: "y \<in> set (rows_of T s)" "x_time y = x_time x" by (metis imageE)
    then have "x_user_id y = int (my_user_id s)" using l(6) t(2) x(1) unfolding table_ok_def by metis
    then have "x_time y \<in> dom (total (patch_list s))" using own y(1) l(2) by blast
    then show False using total_max[OF l(1)] t(1) y(2) x(1) by fastforce
  qed
  have heads: "q \<in> x_time ` set (rows_of T s)" "q < x_time x" if "q \<in> set (row_parents x)" for q
  proof -
    have q: "q \<in> dom (total (patch_list s))"
      by (rule live_total[OF l(1)]) (use that heads_in_table x(2) in force)
    then show "q \<in> x_time ` set (rows_of T s)" using l(2,4) by auto
    show "q < x_time x" using total_max[OF l(1) q] t(1) x(1) by simp
  qed
  have "plain_row D x" using t x heads(2) by (auto simp: plain_row_def)
  moreover have "int (x_time x mod n) = x_user_id x" using t(2) x by simp
  moreover have "set (row_parents x) \<subseteq> x_time ` set (rows_of T s @ [x])" using heads(1) by auto
  ultimately show "table_ok D n (rows_of T s @ [x])" using l(6) fresh unfolding table_ok_def by auto
qed

text \<open>The state after a commit.\<close>

definition committed :: "('d, 'p, 'c) sync_env \<Rightarrow> clock \<Rightarrow> 'p \<Rightarrow> ('d, 'p, 'c) sync_doc \<Rightarrow> ('d, 'p, 'c) sync_doc" where
  "committed env c patch s =
     (let t = next_patch_time c s; x = commit_row env c t patch s in
      s\<lparr>timeOfLastCommit := Some t, my_patches := obj_set t x (my_patches s),
        undo_mode := map_option (\<lambda>u. u\<lparr>without := t # without u\<rparr>) (undo_mode s), sent := sent s @ [x],
        patch_list := add_patches [patch_of env x] (patch_list s)\<rparr>)"

lemma client_commit:
  fixes patch
  assumes env: "env_ok env" and ok: "client_ok env D n (Suc k) T s" and c: "clock_ok D n (Suc k) c" and p: "sendable env patch"
  defines "t \<equiv> next_patch_time c s"
  defines "x \<equiv> commit_row env c t patch s"
  defines "s' \<equiv> committed env c patch s"
  shows "commit_patch env c t patch s = Inr s'" "client_ok env D n k T s'"
    "known_rows T s' = insert x (known_rows T s)"
proof -
  note s'_def = s'_def[unfolded committed_def Let_def, folded t_def, folded x_def]
  note l = client_list[OF ok] and x = new_row[OF ok c, of patch, folded t_def, folded x_def]
  let ?R = "rows_of T s @ [x]"
  have tx: "x_time x = t" by (simp add: x_def commit_row_def)
  have "processPatch env x (Some patch) = Inr (patch_of env x)"
    using p by (simp add: x_def commit_row_def patch_of_def processPatch_def sendable_def)
  then show "commit_patch env c t patch s = Inr s'"
    by (simp add: commit_patch_def x_def[symmetric] s'_def Let_def)
  have l0: "list_ok env D ?R (patch_list s) (known_rows T s)" using l by (auto simp: list_ok_def)
  have sub: "set [x] \<subseteq> set ?R" by simp
  have l1: "list_ok env D ?R (patch_list s') (insert x (known_rows T s))"
    using list_ok_add[OF x(1) env l0 sub] by (simp add: s'_def)
  have dom: "dom (total (patch_list s')) = insert t (dom (total (patch_list s)))"
    using total_add_rows[OF x(1) env l0 sub] tx by (simp add: s'_def)
  have rows: "rows_of T s' = ?R" by (simp add: s'_def)
  have "insert x (known_rows T s) \<subseteq> set ?R" "received D (patch_list s') (patch_of env ` insert x (known_rows T s))"
    using l1 unfolding list_ok_def by blast+
  from known_rows_eq[OF x(1) this] show K: "known_rows T s' = insert x (known_rows T s)"
    by (simp only: known_rows_def[of T s'] rows)
  have "maxTime (patch_list s') = fold max (map p_time [patch_of env x]) (maxTime (patch_list s))"
    unfolding s'_def using maxTime_add[OF l(1), of "[patch_of env x]"] process_row(2)[OF table_plain[OF x(1)], of x env] by simp
  then have max: "maxTime (patch_list s') = t"
    using process_row(3)[OF table_plain[OF x(1)], of x env] x(4) tx by simp
  show "client_ok env D n k T s'"
    unfolding client_ok_def rows K max
  proof (intro conjI)
    show "table_ok D n ?R" by (rule x(1))
    show "\<forall>y \<in> set ?R. room D n k (x_time y)"
      using ok x(3) by (auto simp: client_ok_def intro: room_less)
    show "t \<in> insert 0 (dom (total (patch_list s')))" by (simp add: dom)
    show "list_ok env D ?R (patch_list s') (insert x (known_rows T s))" by (rule l1)
    show "\<forall>y \<in> set ?R. x_user_id y = int (my_user_id s') \<longrightarrow> y \<in> insert x (known_rows T s)"
      using ok by (auto simp: client_ok_def s'_def)
    show "\<forall>u. obj_get (my_patches s') u \<noteq> None \<longrightarrow> u \<in> dom (total (patch_list s'))"
      using ok unfolding dom by (simp add: client_ok_def s'_def update_conv')
  qed (use ok in \<open>simp_all add: client_ok_def s'_def\<close>)
qed

section \<open>The operations\<close>

definition ext :: "row list \<Rightarrow> ('d, 'p, 'c) sync_doc \<Rightarrow> ('d, 'p, 'c) sync_doc \<Rightarrow> bool" where
  "ext T s s' \<longleftrightarrow> known_rows T s \<subseteq> known_rows T s' \<and> (\<exists>zs. sent s' = sent s @ zs \<and> (\<forall>z \<in> set zs. x_user_id z = int (my_user_id s))) \<and> my_user_id s' = my_user_id s \<and>
     sync_is_disabled s' = sync_is_disabled s"

lemma ext_refl [simp]: "ext T s s"
  by (simp add: ext_def)

lemma ext_trans: "ext T s s' \<Longrightarrow> ext T s' s'' \<Longrightarrow> ext T s s''"
proof -
  assume a: "ext T s s'" and b: "ext T s' s''"
  obtain zs where zs: "sent s' = sent s @ zs" "\<forall>z \<in> set zs. x_user_id z = int (my_user_id s)" using a by (auto simp: ext_def)
  obtain ws where ws: "sent s'' = sent s' @ ws" "\<forall>z \<in> set ws. x_user_id z = int (my_user_id s')" using b by (auto simp: ext_def)
  have id: "my_user_id s' = my_user_id s" using a by (simp add: ext_def)
  have "sent s'' = sent s @ (zs @ ws) \<and> (\<forall>z \<in> set (zs @ ws). x_user_id z = int (my_user_id s))" using zs ws id by auto
  then have "\<exists>vs. sent s'' = sent s @ vs \<and> (\<forall>z \<in> set vs. x_user_id z = int (my_user_id s))" by blast
  moreover have "known_rows T s \<subseteq> known_rows T s''" using a b unfolding ext_def by blast
  ultimately show ?thesis using a b unfolding ext_def by simp
qed

lemma client_less: "client_ok env D n (Suc k) T s \<Longrightarrow> client_ok env D n k T s"
  by (auto simp: client_ok_def intro: room_less)

lemma frame [simp]:
  "client_ok env D n k T (s\<lparr>live_doc := d\<rparr>) = client_ok env D n k T s"
  "client_ok env D n k T (s\<lparr>last_doc := d\<rparr>) = client_ok env D n k T s"
  "client_ok env D n k T (s\<lparr>undo_mode := u\<rparr>) = client_ok env D n k T s"
  "client_ok env D n k T (s\<lparr>sync_is_disabled := b\<rparr>) = client_ok env D n k T s"
  "known_rows T (s\<lparr>live_doc := d\<rparr>) = known_rows T s" "known_rows T (s\<lparr>last_doc := d\<rparr>) = known_rows T s"
  "known_rows T (s\<lparr>undo_mode := u\<rparr>) = known_rows T s"
  "ext T (s\<lparr>live_doc := d\<rparr>) s' = ext T s s'" "ext T (s\<lparr>last_doc := d\<rparr>) s' = ext T s s'"
  "ext T (s\<lparr>undo_mode := u\<rparr>) s' = ext T s s'"
  "ext T s (s'\<lparr>live_doc := d\<rparr>) = ext T s s'" "ext T s (s'\<lparr>last_doc := d\<rparr>) = ext T s s'"
  "ext T s (s'\<lparr>undo_mode := u\<rparr>) = ext T s s'"
  "doc_value env ws (s\<lparr>live_doc := d\<rparr>) = doc_value env ws s" "doc_value env ws (s\<lparr>last_doc := d\<rparr>) = doc_value env ws s"
  "doc_value env ws (s\<lparr>undo_mode := u\<rparr>) = doc_value env ws s"
  by (simp_all add: client_ok_def known_rows_def ext_def doc_value_def)

lemma set_doc_frame [simp]:
  "client_ok env D n k T (set_doc env d b s) = client_ok env D n k T s"
  "patch_list (set_doc env d b s) = patch_list s" "last_doc (set_doc env d b s) = last_doc s"
  "ext T (set_doc env d b s) s' = ext T s s'" "ext T s' (set_doc env d b s) = ext T s' s"
  "sync_is_disabled (set_doc env d b s) = sync_is_disabled s" "sent (set_doc env d b s) = sent s"
  by (simp_all add: set_doc_def)

lemma with_cache_simps [simp]:
  "doc_value env ws (with_cache c s) = doc_value env ws s" "live_doc (with_cache c s) = live_doc s"
  "last_doc (with_cache c s) = last_doc s" "undo_mode (with_cache c s) = undo_mode s"
  "my_patches (with_cache c s) = my_patches s" "sync_is_disabled (with_cache c s) = sync_is_disabled s"
  "sent (with_cache c s) = sent s" "my_user_id (with_cache c s) = my_user_id s"
  "live (patch_list (with_cache c s)) = live (patch_list s)" "staging (patch_list (with_cache c s)) = staging (patch_list s)"
  "total (patch_list (with_cache c s)) = total (patch_list s)"
  "known_rows T (with_cache c s) = known_rows T s" "ext T s (with_cache c s')  = ext T s s'" "ext T (with_cache c s) s' = ext T s s'"
  by (simp_all add: with_cache_def doc_value_def known_rows_def cache_received ext_def)

text \<open>A commit never throws.\<close>

lemma commit_cases:
  assumes env: "env_ok env" and ok: "client_ok env D n (Suc k) T s" and c: "clock_ok D n (Suc k) c"
  defines "s1 \<equiv> committed env c (se_make env (last_doc s) (live_doc s)) (s\<lparr>last_doc := live_doc s\<rparr>)"
  shows "se_equal env (last_doc s) (live_doc s) \<Longrightarrow> commit env c s = Inr s"
    "\<not> se_equal env (last_doc s) (live_doc s) \<Longrightarrow> commit env c s = Inr s1" "client_ok env D n k T s1" "ext T s s1"
    "live_doc s1 = live_doc s" "last_doc s1 = live_doc s" "sync_is_disabled s1 = sync_is_disabled s"
proof -
  let ?s = "s\<lparr>last_doc := live_doc s\<rparr>" and ?p = "se_make env (last_doc s) (live_doc s)"
  have ok1: "client_ok env D n (Suc k) T ?s" using ok by simp
  note cc = client_commit[OF env ok1 c made_sendable[OF env], of "last_doc s" "live_doc s", folded s1_def]
  show "se_equal env (last_doc s) (live_doc s) \<Longrightarrow> commit env c s = Inr s" by (simp add: commit_def)
  show "\<not> se_equal env (last_doc s) (live_doc s) \<Longrightarrow> commit env c s = Inr s1" using cc(1) by (simp add: commit_def Let_def)
  show "client_ok env D n k T s1" by (rule cc(2))
  show "live_doc s1 = live_doc s" "last_doc s1 = live_doc s" "sync_is_disabled s1 = sync_is_disabled s"
    by (simp_all add: s1_def committed_def Let_def)
  show "ext T s s1" using cc(3) unfolding ext_def by (simp add: s1_def committed_def Let_def subset_insertI commit_row_def)
qed

lemma commit_result:
  assumes "env_ok env" "client_ok env D n (Suc k) T s" "clock_ok D n (Suc k) c"
  obtains s' where "commit env c s = Inr s'" "client_ok env D n k T s'" "ext T s s'"
proof (cases "se_equal env (last_doc s) (live_doc s)")
  case True
  then show ?thesis using that[of s] client_less[OF assms(2)] commit_cases(1)[OF assms] by simp
next
  case False
  then show ?thesis using that commit_cases(2-4)[OF assms] by blast
qed

definition agrees :: "('d, 'p, 'c) sync_env \<Rightarrow> 'd \<Rightarrow> 'd \<Rightarrow> bool" where
  "agrees env a b \<longleftrightarrow> a = b \<or> se_equal env a b"

text \<open>The live document and that of the last commit are the value of the patches.\<close>

definition merged :: "('d, 'p, 'c) sync_env \<Rightarrow> ('d, 'p, 'c) sync_doc \<Rightarrow> bool" where
  "merged env s \<longleftrightarrow> agrees env (live_doc s) (doc_value env None s) \<and> agrees env (last_doc s) (live_doc s)"

lemma commit_agrees:
  assumes "env_ok env" "client_ok env D n (Suc k) T s" "clock_ok D n (Suc k) c" "commit env c s = Inr s'"
  shows "agrees env (last_doc s') (live_doc s')" "live_doc s' = live_doc s"
proof -
  note cc = commit_cases[OF assms(1-3)]
  show "agrees env (last_doc s') (live_doc s')" "live_doc s' = live_doc s"
    using cc(1,2) cc(5,6) assms(4) by (cases "se_equal env (last_doc s) (live_doc s)"; simp add: agrees_def)+
qed

text \<open>Neither does merging, and it ends with the value of the patches as the document.\<close>

lemma sync_result:
  assumes env: "env_ok env" and ok: "client_ok env D n (Suc (Suc k)) T s"
    and c: "clock_ok D n (Suc (Suc k)) c1" "clock_ok D n (Suc k) c2"
  obtains s' where "sync_remote_and_doc env c1 c2 up edit s = Inr s'" "client_ok env D n k T s'" "ext T s s'"
    "if sync_is_disabled s then s' = s else merged env s'"
proof (cases "sync_is_disabled s")
  case True
  then show ?thesis using that[of s] client_less[OF client_less[OF ok]] by (simp add: sync_remote_and_doc_def)
next
  case False
  obtain s1 where s1: "commit env c1 s = Inr s1" "client_ok env D n (Suc k) T s1" "ext T s s1"
    by (rule commit_result[OF env ok c(1)])
  let ?t = "case edit of None \<Rightarrow> s1 | Some d \<Rightarrow> set_doc env d True s1"
  have t: "client_ok env D n (Suc k) T ?t" "ext T s ?t" using s1 by (simp_all split: option.split)
  obtain s2 where s2: "(if up then commit env c2 ?t else Inr s1) = Inr s2" "client_ok env D n k T s2" "ext T s s2"
      "agrees env (last_doc s2) (live_doc s2)"
  proof (cases up)
    case True
    obtain s2 where "commit env c2 ?t = Inr s2" "client_ok env D n k T s2" "ext T ?t s2"
      by (rule commit_result[OF env t(1) c(2)])
    then show ?thesis using that[of s2] True ext_trans[OF t(2)] commit_agrees(1)[OF env t(1) c(2)] by simp
  next
    case False
    then show ?thesis using that[of s1] client_less[OF s1(2)] s1(3) commit_agrees(1)[OF env ok c(1) s1(1)] by simp
  qed
  obtain m where s3: "value_at env None None s2 = Inr (doc_value env None s2, with_cache m s2)"
      "client_ok env D n k T (with_cache m s2)"
    by (rule client_value[OF env s2(2)])
  let ?v = "doc_value env None s2" and ?s3 = "with_cache m s2"
  let ?s' = "if se_equal env (live_doc s2) ?v then ?s3 else ?s3\<lparr>last_doc := ?v, live_doc := ?v\<rparr>"
  have res: "sync_remote_and_doc env c1 c2 up edit s = Inr ?s'"
    using False s1(1) s2(1) s3(1) by (simp add: sync_remote_and_doc_def)
  show ?thesis
  proof (rule that[OF res])
    show "client_ok env D n k T ?s'" using s3(2) by simp
    show "ext T s ?s'" using s2(3) by simp
    show "if sync_is_disabled s then ?s' = s else merged env ?s'" using s2(4) False by (simp add: merged_def agrees_def)
  qed
qed

lemma receive_result:
  assumes env: "env_ok env" and ok: "client_ok env D n (Suc (Suc k)) T s"
    and c: "clock_ok D n (Suc (Suc k)) c1" "clock_ok D n (Suc k) c2" and xs: "set xs \<subseteq> set (rows_of T s)"
  defines "v \<equiv> filter (\<lambda>x. x_time x \<noteq> 0 \<and> obj_get (my_patches s) (x_time x) = None) xs"
  defines "s1 \<equiv> s\<lparr>patch_list := add_patches (map (patch_of env) v) (patch_list s)\<rparr>"
  shows "handle_patch_update_queue env c1 c2 xs edit s = sync_remote_and_doc env c1 c2 (v \<noteq> []) edit s1"
    "client_ok env D n (Suc (Suc k)) T s1" "known_rows T s1 = known_rows T s \<union> set xs" "ext T s s1"
proof -
  note l = client_list[OF ok]
  have v: "set v \<subseteq> set (rows_of T s)" using xs by (auto simp: v_def)
  have "process_all env v = Inr (map (patch_of env) v)"
    by (rule process_rows[of _ D]) (use v table_plain[OF l(6)] in blast)
  then show "handle_patch_update_queue env c1 c2 xs edit s = sync_remote_and_doc env c1 c2 (v \<noteq> []) edit s1"
    by (simp add: handle_patch_update_queue_def v_def s1_def)
  note r = client_receive[OF env ok v, folded s1_def]
  show "client_ok env D n (Suc (Suc k)) T s1" by (rule r(1))
  have "x \<in> known_rows T s" if "x \<in> set xs" "x \<notin> set v" for x
  proof -
    have x: "x \<in> set (rows_of T s)" using xs that(1) by blast
    have "x_time x \<noteq> 0" using table_plain[OF l(6) x] by (simp add: plain_row_def)
    then have "x_time x \<in> dom (total (patch_list s))" using that ok by (auto simp: v_def client_ok_def)
    then show ?thesis using x by (simp add: known_rows_def)
  qed
  then show K: "known_rows T s1 = known_rows T s \<union> set xs" using r(2) by (auto simp: v_def)
  then show "ext T s s1" by (simp add: ext_def) (simp add: s1_def)
qed

text \<open>Undo and redo change the state only later, by setting the document and committing it.\<close>

definition quiet :: "('d, 'p, 'c) sync_env \<Rightarrow> ('d, 'p, 'c) sync_doc \<Rightarrow> ('d, 'p, 'c) sync_doc \<Rightarrow> bool" where
  "quiet env s s' \<longleftrightarrow> last_doc s' = last_doc s \<and> live_doc s' = live_doc s \<and> my_patches s' = my_patches s \<and>
     staging (patch_list s') = staging (patch_list s) \<and> (\<forall>w. doc_value env w s' = doc_value env w s) \<and>
     sync_is_disabled s' = sync_is_disabled s"

lemma undo_step_result:
  assumes env: "env_ok env" and ok: "client_ok env D n k T s"
  obtains d s' where "undo_step env s = Inr (d, s')" "client_ok env D n k T s'" "ext T s s'" "quiet env s s'"
proof -
  let ?u = "initUndoState s"
  obtain m where m: "value_at env None None s = Inr (doc_value env None s, with_cache m s)" "client_ok env D n k T (with_cache m s)"
    by (rule client_value[OF env ok])
  have no_throw: "\<exists>c. value_at env None ws (s'\<lparr>undo_mode := u\<rparr>) =
        Inr (doc_value env ws s', with_cache c (s'\<lparr>undo_mode := u\<rparr>)) \<and> client_ok env D n k T (with_cache c (s'\<lparr>undo_mode := u\<rparr>))"
    if "client_ok env D n k T s'" for ws s' u
    using client_value[OF env, of D n k T "s'\<lparr>undo_mode := u\<rparr>" ws] that by (metis frame(3,16))
  have e: "ext T s (with_cache m s)" by simp
  show ?thesis
  proof (cases "pointer ?u = int (length (my_times ?u))")
    case True
    show ?thesis
    proof (cases "se_equal env (live_doc s) (doc_value env None s) \<and> js_nth (my_times ?u) (pointer ?u - 1) \<noteq> None")
      case T: True
      then obtain tm where tm: "js_nth (my_times ?u) (pointer ?u - 1) = Some tm" by blast
      let ?u' = "Some (?u\<lparr>pointer := pointer ?u - 2, without := without ?u @ [tm]\<rparr>)"
      obtain c where c: "value_at env None (Some (without ?u @ [tm])) ((with_cache m s)\<lparr>undo_mode := ?u'\<rparr>) =
          Inr (doc_value env (Some (without ?u @ [tm])) (with_cache m s), with_cache c ((with_cache m s)\<lparr>undo_mode := ?u'\<rparr>))"
          "client_ok env D n k T (with_cache c ((with_cache m s)\<lparr>undo_mode := ?u'\<rparr>))"
        using no_throw[OF m(2)] by blast
      have "undo_step env s = Inr (doc_value env (Some (without ?u @ [tm])) (with_cache m s), with_cache c ((with_cache m s)\<lparr>undo_mode := ?u'\<rparr>))"
        using True T tm m(1) c(1) by (simp add: undo_step_def Let_def)
      then show ?thesis by (rule that) (use c(2) in \<open>simp_all add: quiet_def\<close>)
    next
      case F: False
      have "\<exists>u. undo_step env s = Inr (doc_value env None s, (with_cache m s)\<lparr>undo_mode := u\<rparr>)"
        using True F m(1) by (auto simp: undo_step_def Let_def split: option.split)
      then obtain u where "undo_step env s = Inr (doc_value env None s, (with_cache m s)\<lparr>undo_mode := u\<rparr>)" by blast
      then show ?thesis by (rule that) (use m(2) in \<open>simp_all add: quiet_def\<close>)
    qed
  next
    case False
    then have "\<exists>ws u. undo_step env s = value_at env None ws (s\<lparr>undo_mode := u\<rparr>)"
      by (auto simp: undo_step_def Let_def)
    then obtain ws u where u: "undo_step env s = value_at env None ws (s\<lparr>undo_mode := u\<rparr>)" by blast
    obtain c where c: "value_at env None ws (s\<lparr>undo_mode := u\<rparr>) = Inr (doc_value env ws s, with_cache c (s\<lparr>undo_mode := u\<rparr>))"
        "client_ok env D n k T (with_cache c (s\<lparr>undo_mode := u\<rparr>))"
      using no_throw[OF ok] by blast
    show ?thesis by (rule that[of "doc_value env ws s" "with_cache c (s\<lparr>undo_mode := u\<rparr>)"]) (use u c in \<open>simp_all add: quiet_def\<close>)
  qed
qed

lemma redo_step_result:
  assumes env: "env_ok env" and ok: "client_ok env D n k T s"
  obtains d s' where "redo_step env s = Inr (d, s')" "client_ok env D n k T s'" "ext T s s'" "quiet env s s'"
proof (cases "undo_mode s")
  case None
  then show ?thesis using that[of "live_doc s" s] ok by (simp add: redo_step_def quiet_def)
next
  case (Some u)
  have u_ok: "client_ok env D n k T (s\<lparr>undo_mode := w\<rparr>)" for w using ok by simp
  consider (now) "pointer u = int (length (my_times u))" | (final) "pointer u = int (length (my_times u)) - 1"
    | (past) "pointer u \<noteq> int (length (my_times u))" "pointer u \<noteq> int (length (my_times u)) - 1" by blast
  then show ?thesis
  proof cases
    case now
    then show ?thesis using that[of "live_doc s" s] ok Some by (simp add: redo_step_def Let_def quiet_def)
  next
    case final
    obtain m where m: "value_at env None None s = Inr (doc_value env None s, with_cache m s)" "client_ok env D n k T (with_cache m s)"
      by (rule client_value[OF env ok])
    let ?s = "(with_cache m s)\<lparr>undo_mode := Some (u\<lparr>pointer := pointer u + 1\<rparr>)\<rparr>"
    have "redo_step env s = Inr (se_apply env (doc_value env None s) (undo_state.final u), ?s)"
      using final Some m(1) by (simp add: redo_step_def Let_def)
    then show ?thesis by (rule that) (use m(2) in \<open>simp_all add: quiet_def\<close>)
  next
    case past
    then have "\<exists>ws w. redo_step env s = value_at env None ws (s\<lparr>undo_mode := w\<rparr>)"
      using Some by (auto simp: redo_step_def Let_def)
    then obtain ws w where w: "redo_step env s = value_at env None ws (s\<lparr>undo_mode := w\<rparr>)" by blast
    obtain c where c: "value_at env None ws (s\<lparr>undo_mode := w\<rparr>) =
        Inr (doc_value env ws (s\<lparr>undo_mode := w\<rparr>), with_cache c (s\<lparr>undo_mode := w\<rparr>))"
        "client_ok env D n k T (with_cache c (s\<lparr>undo_mode := w\<rparr>))"
      by (rule client_value[OF env u_ok])
    show ?thesis by (rule that[of "doc_value env ws s" "with_cache c (s\<lparr>undo_mode := w\<rparr>)"]) (use w c in \<open>simp_all add: quiet_def\<close>)
  qed
qed

section \<open>The value after a commit\<close>

lemma patch_of_commit:
  assumes "sendable env patch"
  shows "p_patch (patch_of env (commit_row env c t patch s)) = Some patch"
  using assms by (simp add: sendable_def patch_of_def processPatch_def commit_row_def)

lemma committed_value:
  fixes patch
  assumes env: "env_ok env" and ok: "client_ok env D n (Suc k) T s" and c: "clock_ok D n (Suc k) c"
    and st: "staging (patch_list s) = []" and pt: "sendable env patch"
  defines "s' \<equiv> committed env c patch s"
  shows "doc_value env ws s' =
      (if is_without ws (next_patch_time c s) then doc_value env ws s else se_apply env (doc_value env ws s) (Some patch))"
    "staging (patch_list s') = []"
proof -
  define x where "x = commit_row env c (next_patch_time c s) patch s"
  note l = client_list[OF ok] and x = new_row[OF ok c, of patch, folded x_def]
  have held: "heldSnapshots (patch_list s) = []" using l(3) by (simp add: received_def)
  note row = process_row[OF table_plain[OF x(1)], of x env]
  have tx: "x_time x = next_patch_time c s" "row_parents x = getHeads (live (patch_list s))"
    by (simp_all add: x_def commit_row_def row_parents_def)
  have pl: "patch_list s' = add_patches [patch_of env x] (patch_list s)" by (simp add: s'_def committed_def x_def Let_def)
  have snaps: "p_patch q \<noteq> None" if "obj_get (live (patch_list s)) u = Some q" "p_is_snapshot q" for u q
  proof -
    have "total (patch_list s) u = Some q" using that(1) st by (simp add: total_def)
    then have "q \<in> patch_of env ` known_rows T s" using l(3) by (simp add: received_def)
    then show ?thesis using patch_times(3)[OF l(6,4), of env] that(2) by (auto simp: plain_def)
  qed
  have p: "plain D (patch_of env x)" "p_time (patch_of env x) = x_time x" "parents_of (patch_of env x) = getHeads (live (patch_list s))"
    using row tx by simp_all
  have free: "obj_get (heldSnapshots (patch_list s)) (x_time x) = None" by (simp add: held)
  note cv = commit_value[OF l(1) st free _ p x(4)]
  show "staging (patch_list s') = []" unfolding pl by (rule cv(2)) (rule snaps)
  have heads: "set (getHeads (live (patch_list s'))) = {x_time x}" unfolding pl by (rule cv(6)) (rule snaps)
  have "spec_value (se_from_str env) (se_apply env) (live (patch_list s')) ws {x_time x} =
      (if is_without ws (x_time x) then doc_value env ws s else se_apply env (doc_value env ws s) (p_patch (patch_of env x)))"
    unfolding pl doc_value_def by (rule cv(7)) (rule snaps)
  then show "doc_value env ws s' =
      (if is_without ws (next_patch_time c s) then doc_value env ws s else se_apply env (doc_value env ws s) (Some patch))"
    using patch_of_commit[OF pt] by (simp add: doc_value_def[of env ws s'] heads tx(1)) (simp add: x_def)
qed

section \<open>A missing patch stays missing\<close>

lemma committed_complete:
  fixes patch
  assumes env: "env_ok env" and ok: "client_ok env D n (Suc k) T s" and c: "clock_ok D n (Suc k) c"
    and st: "staging (patch_list (committed env c patch s)) = []" and pt: "sendable env patch"
  shows "staging (patch_list s) = []"
proof -
  let ?s = "committed env c patch s" and ?x = "commit_row env c (next_patch_time c s) patch s"
  note l = client_list[OF ok] and new = new_row[OF ok c, of patch]
  note cc = client_commit[OF env ok c pt]
  note l' = client_list[OF cc(2)]
  have total: "total (patch_list ?s) = obj_get (live (patch_list ?s))" using st by (simp add: total_def)
  have dom: "dom (total (patch_list ?s)) = insert (x_time ?x) (dom (total (patch_list s)))"
    unfolding l(2) l'(2) cc(3) by simp
  have "set (parents_of p) \<subseteq> dom (total (patch_list s))" if p: "p \<in> patch_of env ` known_rows T s" for p
  proof -
    obtain y where y: "y \<in> known_rows T s" "p = patch_of env y" using p by blast
    have y': "y \<in> set (rows_of T s)" using y(1) l(4) by blast
    note row = process_row[OF table_plain[OF l(6) y'], of env]
    have "total (patch_list ?s) (p_time p) = Some p" using l'(3) cc(3) y by (simp add: received_def)
    then have live: "obj_get (live (patch_list ?s)) (p_time p) = Some p" unfolding total .
    have "set (parents_of p) \<subseteq> edges (live (patch_list ?s)) `` dom (obj_get (live (patch_list ?s)))"
      using live row(2) y(2) by (auto simp: edges_def plain_def)
    also have "\<dots> \<subseteq> dom (total (patch_list ?s))" using plist_ok_parts[OF l'(1)] unfolding total live_closed_def by blast
    finally have "set (parents_of p) \<subseteq> insert (x_time ?x) (dom (total (patch_list s)))" unfolding dom .
    moreover have "set (parents_of p) \<subseteq> x_time ` set (rows_of T s)"
      using l(6) y' unfolding y(2) row(4) table_ok_def by blast
    ultimately show ?thesis using new(2) by blast
  qed
  then have "closed_map (total (patch_list s))" using l(3) by (auto simp: closed_map_def received_def)
  then show ?thesis using l(3) by (simp add: received_def)
qed

lemma doc_value_cong:
  assumes ok: "client_ok env D n k T s" and w: "\<And>t. t \<in> x_time ` set (rows_of T s) \<Longrightarrow> is_without w t = is_without w' t"
  shows "doc_value env w s = doc_value env w' s"
proof -
  let ?L = "live (patch_list s)"
  note l = client_list[OF ok]
  have dom: "dom (obj_get ?L) \<subseteq> x_time ` set (rows_of T s)"
    using live_total[OF l(1)] l(2,4) by blast
  have L: "live_closed ?L" using plist_ok_parts[OF l(1)] by simp
  have "set (sorted_list_of_set (known ?L (set (getHeads ?L)))) \<subseteq> dom (obj_get ?L)"
    using known_in_closed[OF L heads_in_table] known_finite[OF L heads_in_table] by simp
  then have same: "is_without w t = is_without w' t" if "t \<in> set (sorted_list_of_set (known ?L (set (getHeads ?L))))" for t
    using w that dom by blast
  have "apply_times (se_apply env) ?L w d ts = apply_times (se_apply env) ?L w' d ts"
    if "set ts \<subseteq> set (sorted_list_of_set (known ?L (set (getHeads ?L))))" for d ts
    unfolding apply_times_def using that same by (intro foldl_cong) auto
  moreover have "set (tl ts) \<subseteq> A" if "set ts \<subseteq> A" for ts and A :: "nat set" using that by (cases ts) auto
  ultimately show ?thesis unfolding doc_value_def spec_value_def apply_from_def start_value_def
    by (simp split: option.split)
qed

end
