(* ===== verification/SyncNet.thy ===== *)
theory SyncNet
  imports SyncSession
begin

text \<open>
  Several clients of one document. They share the patches table, whose rows reach each of them in any
  order, any batches and with repetitions; a client that joins, or starts again, loads the table.
  Client \<open>i\<close> is of user \<open>i\<close>: every client is of another account. (Clients of one account share the
  number of the user, so that they may give two patches the same time.)
\<close>

section \<open>Steps\<close>

datatype 'd action =
    Edit 'd
  | Commit clock
  | Save clock
  | Receive clock clock "row list" "'d option"
  | Undo clock
  | Redo clock
  | ExitUndo
  | DisableSync
  | EnableSync clock clock "'d option"

fun perform :: "('d, 'p, 'c) sync_env \<Rightarrow> 'd action \<Rightarrow> ('d, 'p, 'c) sync_doc \<Rightarrow> ('d, 'p, 'c) sync_result" where
  "perform env (Edit d) s = Inr (set_doc env d True s)"
| "perform env (Commit c) s = commit env c s"
| "perform env (Save c) s = save_round env c s"
| "perform env (Receive c1 c2 xs edit) s = handle_patch_update_queue env c1 c2 xs edit s"
| "perform env (Undo c) s = undo env c s"
| "perform env (Redo c) s = redo env c s"
| "perform env ExitUndo s = Inr (exit_undo_mode s)"
| "perform env DisableSync s = Inr (disable_sync s)"
| "perform env (EnableSync c1 c2 edit) s = enable_sync env c1 c2 edit s"

fun clocks_of :: "'d action \<Rightarrow> clock set" where
  "clocks_of (Commit c) = {c}"
| "clocks_of (Save c) = {c}"
| "clocks_of (Receive c1 c2 xs edit) = {c1, c2}"
| "clocks_of (Undo c) = {c}"
| "clocks_of (Redo c) = {c}"
| "clocks_of (EnableSync c1 c2 edit) = {c1, c2}"
| "clocks_of _ = {}"

fun arriving :: "'d action \<Rightarrow> row set" where
  "arriving (Receive c1 c2 xs edit) = set xs"
| "arriving _ = {}"

text \<open>The clocks have \<open>D\<close> digits, and neither they nor the table are about to run out of them.\<close>

definition in_time :: "nat \<Rightarrow> nat \<Rightarrow> 'd action \<Rightarrow> row list \<Rightarrow> bool" where
  "in_time D n a T \<longleftrightarrow> (\<forall>c \<in> clocks_of a. clock_ok D n 2 c) \<and> (\<forall>x \<in> set T. room D n 2 (x_time x))"

type_synonym ('d, 'p, 'c) net_state = "row list \<times> (nat \<Rightarrow> ('d, 'p, 'c) sync_doc)"

inductive net :: "('d, 'p, 'c) sync_env \<Rightarrow> nat \<Rightarrow> nat \<Rightarrow> 'c \<Rightarrow> ('d, 'p, 'c) net_state \<Rightarrow> bool" for env D n c0 where
  net_start: "(\<And>i. i < n \<Longrightarrow> init_patch_list env [] c0 i n = Inr (cl i)) \<Longrightarrow> net env D n c0 ([], cl)"
| net_act: "net env D n c0 (T, cl) \<Longrightarrow> i < n \<Longrightarrow> in_time D n a T \<Longrightarrow> arriving a \<subseteq> set T \<Longrightarrow>
    perform env a (cl i) = Inr s \<Longrightarrow> net env D n c0 (T @ sent s, cl(i := s\<lparr>sent := []\<rparr>))"
| net_join: "net env D n c0 (T, cl) \<Longrightarrow> i < n \<Longrightarrow> set m = set T \<Longrightarrow> init_patch_list env m c0 i n = Inr s \<Longrightarrow>
    net env D n c0 (T, cl(i := s))"

definition net_ok :: "('d, 'p, 'c) sync_env \<Rightarrow> nat \<Rightarrow> nat \<Rightarrow> row list \<Rightarrow> (nat \<Rightarrow> ('d, 'p, 'c) sync_doc) \<Rightarrow> bool" where
  "net_ok env D n T cl \<longleftrightarrow> (\<forall>i < n. client_ok env D n 0 T (cl i) \<and> sent (cl i) = [] \<and> my_user_id (cl i) = i)"

section \<open>A step of one client\<close>

lemma client_room:
  assumes "client_ok env D n 0 T s" "\<forall>x \<in> set (rows_of T s). room D n k (x_time x)"
  shows "client_ok env D n k T s"
  using assms by (simp add: client_ok_def)

lemma clock_less: "clock_ok D n 2 c \<Longrightarrow> clock_ok D n (Suc 0) c" "clock_ok D n 2 c \<Longrightarrow> clock_ok D n (Suc (Suc 0)) c"
  by (auto simp: clock_ok_def room_def numeral_2_eq_2)

lemma commit_after:
  assumes "env_ok env" "client_ok env D n 2 T s'" "ext T s s'" "clock_ok D n 2 c"
  obtains s'' where "commit env c (set_doc env d b s') = Inr s''" "client_ok env D n 0 T s''" "ext T s s''"
proof -
  have "client_ok env D n (Suc 0) T (set_doc env d b s')" using client_less[of env D n 1] assms(2) by (simp add: numeral_2_eq_2)
  from commit_result[OF assms(1) this clock_less(1)[OF assms(4)]] show ?thesis
    using that ext_trans[OF assms(3)] by (metis set_doc_frame(4))
qed

lemma perform_ok:
  assumes env: "env_ok env" and ok: "client_ok env D n 2 T s" and c: "\<forall>c \<in> clocks_of a. clock_ok D n 2 c"
    and xs: "arriving a \<subseteq> set (rows_of T s)"
  obtains s' where "perform env a s = Inr s'" "client_ok env D n 0 T s'"
    "known_rows T s \<subseteq> known_rows T s'" "\<exists>zs. sent s' = sent s @ zs \<and> (\<forall>z \<in> set zs. x_user_id z = int (my_user_id s))"
    "my_user_id s' = my_user_id s"
proof -
  have ok0: "client_ok env D n 0 T s" using client_less[OF client_less[OF ok[unfolded numeral_2_eq_2]]] .
  have "\<exists>s' t. perform env a s = Inr s' \<and> client_ok env D n 0 T s' \<and> ext T (s\<lparr>sync_is_disabled := t\<rparr>) s'"
  proof (cases a)
    case (Edit d)
    then show ?thesis using ok0 by (intro exI[of _ "set_doc env d True s"] exI[of _ "sync_is_disabled s"]) simp
  next
    case (Commit c)
    then have "clock_ok D n (Suc 0) c" using assms(3) clock_less by simp
    from commit_result[OF env client_less[OF ok[unfolded numeral_2_eq_2]] this] obtain s' where
      "commit env c s = Inr s'" "client_ok env D n 0 T s'" "ext T s s'" by blast
    then show ?thesis using Commit by (intro exI[of _ s'] exI[of _ "sync_is_disabled s"]) simp
  next
    case (Save c)
    then have cc: "clock_ok D n (Suc (Suc 0)) c" "clock_ok D n (Suc 0) c" using assms(3) clock_less by simp_all
    obtain s' where s': "sync_remote_and_doc env c c False None s = Inr s'" "client_ok env D n 0 T s'" "ext T s s'"
      by (rule sync_result[OF env ok[unfolded numeral_2_eq_2] cc, of False None])
    then show ?thesis using Save ok0
      by (cases "se_equal env (live_doc s) (last_doc s)")
        (auto simp: save_round_def intro!: exI[of _ s] exI[of _ s'] exI[of _ "sync_is_disabled s"])
  next
    case (Receive c1 c2 xs edit)
    then have cc: "clock_ok D n (Suc (Suc 0)) c1" "clock_ok D n (Suc 0) c2" using assms(3) clock_less by simp_all
    have "set xs \<subseteq> set (rows_of T s)" using assms(4) Receive by simp
    note r = receive_result[OF env ok[unfolded numeral_2_eq_2] cc this]
    let ?v = "filter (\<lambda>x. x_time x \<noteq> 0 \<and> obj_get (my_patches s) (x_time x) = None) xs"
    let ?s1 = "s\<lparr>patch_list := add_patches (map (patch_of env) ?v) (patch_list s)\<rparr>"
    obtain s' where s': "sync_remote_and_doc env c1 c2 (?v \<noteq> []) edit ?s1 = Inr s'" "client_ok env D n 0 T s'" "ext T ?s1 s'"
      by (rule sync_result[OF env r(2) cc])
    then show ?thesis using Receive r(1) ext_trans[OF r(4) s'(3)] by (intro exI[of _ s'] exI[of _ "sync_is_disabled s"]) simp
  next
    case (Undo c)
    obtain d s1 where s1: "undo_step env s = Inr (d, s1)" "client_ok env D n 2 T s1" "ext T s s1"
      by (rule undo_step_result[OF env ok])
    obtain s' where "commit env c (set_doc env d False s1) = Inr s'" "client_ok env D n 0 T s'" "ext T s s'"
      by (rule commit_after[OF env s1(2,3)]) (use assms(3) Undo in simp_all)
    then show ?thesis using Undo s1 by (intro exI[of _ s'] exI[of _ "sync_is_disabled s"]) (simp add: undo_def)
  next
    case (Redo c)
    obtain d s1 where s1: "redo_step env s = Inr (d, s1)" "client_ok env D n 2 T s1" "ext T s s1"
      by (rule redo_step_result[OF env ok])
    obtain s' where "commit env c (set_doc env d False s1) = Inr s'" "client_ok env D n 0 T s'" "ext T s s'"
      by (rule commit_after[OF env s1(2,3)]) (use assms(3) Redo in simp_all)
    then show ?thesis using Redo s1 by (intro exI[of _ s'] exI[of _ "sync_is_disabled s"]) (simp add: redo_def)
  next
    case ExitUndo
    then show ?thesis using ok0 by (intro exI[of _ "exit_undo_mode s"] exI[of _ "sync_is_disabled s"]) (simp add: exit_undo_mode_def)
  next
    case DisableSync
    then show ?thesis using ok0 by (intro exI[of _ "disable_sync s"] exI[of _ True]) (simp add: disable_sync_def)
  next
    case (EnableSync c1 c2 edit)
    then have cc: "clock_ok D n (Suc (Suc 0)) c1" "clock_ok D n (Suc 0) c2" using assms(3) clock_less by simp_all
    let ?s = "s\<lparr>sync_is_disabled := False\<rparr>"
    have "client_ok env D n (Suc (Suc 0)) T ?s" using ok by (simp add: numeral_2_eq_2)
    from sync_result[OF env this cc, of True edit] obtain s' where
      "sync_remote_and_doc env c1 c2 True edit ?s = Inr s'" "client_ok env D n 0 T s'" "ext T ?s s'" by metis
    then show ?thesis using EnableSync by (intro exI[of _ s'] exI[of _ False]) (simp add: enable_sync_def)
  qed
  then show ?thesis using that by (auto simp: ext_def known_rows_def)
qed

section \<open>The invariant\<close>

lemma fresh_unknown:
  assumes "client_ok env D n k T t" "sent t = []" "table_ok D n (T @ zs)" "z \<in> set zs"
  shows "x_time z \<notin> dom (total (patch_list t))"
proof
  assume "x_time z \<in> dom (total (patch_list t))"
  then obtain y where "y \<in> set T" "x_time y = x_time z" using client_list(2,4)[OF assms(1)] assms(2) by (metis (no_types, lifting) append_Nil2 imageE subsetD)
  then show False using assms(3,4) unfolding table_ok_def by (metis (no_types, lifting) IntI distinct_append empty_iff image_eqI map_append set_map)
qed

text \<open>The others do not know the new rows yet.\<close>

lemma other_ok:
  assumes ok: "client_ok env D n 0 T t" "sent t = []" and T: "table_ok D n (T @ zs)" "\<forall>x \<in> set (T @ zs). room D n 0 (x_time x)"
    and zs: "\<forall>z \<in> set zs. x_user_id z \<noteq> int (my_user_id t)"
  shows "client_ok env D n 0 (T @ zs) t"
proof -
  have K: "known_rows (T @ zs) t = known_rows T t"
    using fresh_unknown[OF ok T(1)] ok(2) by (auto simp: known_rows_def)
  have "list_ok env D (T @ zs) (patch_list t) (known_rows T t)" using ok by (auto simp: client_ok_def list_ok_def)
  then show ?thesis using ok T zs unfolding client_ok_def K by auto
qed

lemma net_step_ok:
  assumes env: "env_ok env" and net: "net_ok env D n T cl" and i: "i < n" and a: "in_time D n a T" "arriving a \<subseteq> set T"
  obtains s where "perform env a (cl i) = Inr s" "net_ok env D n (T @ sent s) (cl(i := s\<lparr>sent := []\<rparr>))"
    "client_ok env D n 0 T s" "known_rows T (cl i) \<subseteq> known_rows T s"
proof -
  have ci: "client_ok env D n 0 T (cl i)" "sent (cl i) = []" "my_user_id (cl i) = i" using net i by (simp_all add: net_ok_def)
  have "client_ok env D n 2 T (cl i)" by (rule client_room[OF ci(1)]) (use a ci(2) in \<open>simp add: in_time_def\<close>)
  then obtain s where s: "perform env a (cl i) = Inr s" "client_ok env D n 0 T s" "known_rows T (cl i) \<subseteq> known_rows T s"
      "\<exists>zs. sent s = sent (cl i) @ zs \<and> (\<forall>z \<in> set zs. x_user_id z = int (my_user_id (cl i)))" "my_user_id s = my_user_id (cl i)"
    by (rule perform_ok[OF env, of D n T "cl i" a]) (use a ci(2) in \<open>simp_all add: in_time_def\<close>)
  have zs: "\<forall>z \<in> set (sent s). x_user_id z = int i" using s(4) ci by auto
  have T: "table_ok D n (T @ sent s)" "\<forall>x \<in> set (T @ sent s). room D n 0 (x_time x)" using s(2) by (simp_all add: client_ok_def)
  have "net_ok env D n (T @ sent s) (cl(i := s\<lparr>sent := []\<rparr>))"
    unfolding net_ok_def
  proof (intro allI impI)
    fix j assume j: "j < n"
    show "client_ok env D n 0 (T @ sent s) ((cl(i := s\<lparr>sent := []\<rparr>)) j) \<and> sent ((cl(i := s\<lparr>sent := []\<rparr>)) j) = [] \<and>
        my_user_id ((cl(i := s\<lparr>sent := []\<rparr>)) j) = j"
    proof (cases "j = i")
      case True
      have "known_rows (T @ sent s) (s\<lparr>sent := []\<rparr>) = known_rows T s" by (simp add: known_rows_def)
      then show ?thesis using True s(2,5) ci(3) by (simp add: client_ok_def)
    next
      case False
      have "client_ok env D n 0 T (cl j)" "sent (cl j) = []" "my_user_id (cl j) = j" using net j by (simp_all add: net_ok_def)
      then show ?thesis using other_ok[of env D n T "cl j" "sent s"] T zs False by auto
    qed
  qed
  then show ?thesis by (rule that[OF s(1) _ s(2,3)])
qed

section \<open>Loading the table\<close>

lemma set_sort_by [simp]: "set (sort_by c xs) = set xs"
proof -
  have "set (insert_by c x ys) = insert x (set ys)" for x and ys :: "'a list"
    by (induction ys) auto
  then have "set (foldr (insert_by c) xs []) = set xs" by (induction xs) simp_all
  then show ?thesis by (simp add: sort_by_def)
qed

lemma list_in_image: "set ps \<subseteq> f ` A \<Longrightarrow> \<exists>xs. ps = map f xs \<and> set xs \<subseteq> A"
proof (induction ps)
  case (Cons p ps)
  then obtain x xs where "p = f x" "x \<in> A" "ps = map f xs" "set xs \<subseteq> A" by auto
  then show ?case by (intro exI[of _ "x # xs"]) simp
qed simp

lemma load_ok:
  assumes env: "env_ok env" and T: "table_ok D n T" "\<forall>x \<in> set T. room D n 0 (x_time x)" and m: "set m = set T" and i: "i < n"
    and c0: "\<forall>t. fst (se_cget env c0 t) = None"
  obtains s where "init_patch_list env m c0 i n = Inr s" "client_ok env D n 0 T s" "sent s = []" "my_user_id s = i"
    "known_rows T s = set T" "live_doc s = doc_value env None s" "last_doc s = doc_value env None s" "sync_is_disabled s = False"
    "undo_mode s = None"
proof -
  have "process_all env m = Inr (map (patch_of env) m)"
    by (rule process_rows[of _ D]) (use m table_plain[OF T(1)] in blast)
  moreover obtain xs where xs: "sort_by patch_cmp (map (patch_of env) m) = map (patch_of env) xs" "set xs \<subseteq> set T"
    using list_in_image[of "sort_by patch_cmp (map (patch_of env) m)" "patch_of env" "set T"] m by auto
  ultimately have get: "get_patches env m = Inr (map (patch_of env) xs)" by (simp add: get_patches_def)
  have "patch_of env ` set xs = patch_of env ` set T" using arg_cong[OF xs(1), of set] m by simp
  moreover have "inj_on (patch_of env) (set T)" by (rule patch_times(4)[OF T(1)]) simp
  ultimately have set_xs: "set xs = set T" using xs(2) by (simp add: inj_on_image_eq_iff)
  let ?pl = "add_patches (map (patch_of env) xs) (new_plist c0)"
  have l0: "list_ok env D T (new_plist c0) {}"
    using session_start[of "se_cget env" c0] c0 by (simp add: list_ok_def received_new)
  have l: "list_ok env D T ?pl (set T)" using list_ok_add[OF T(1) env l0, of xs] set_xs by simp
  have dom: "dom (total ?pl) = x_time ` set T"
    using total_add_rows[OF T(1) env l0, of xs] set_xs by (simp add: total_def new_plist_def)
  have "maxTime ?pl = fold max (map p_time (map (patch_of env) xs)) 0"
    using maxTime_add[OF plist_ok_new[of D c0], of "map (patch_of env) xs"] patch_times(3)[OF T(1) xs(2), of env] by (simp add: new_plist_def)
  moreover have "set (map p_time (map (patch_of env) xs)) = x_time ` set T"
    using patch_times(1)[OF T(1) xs(2), of env] set_xs by (simp add: image_image)
  ultimately have max: "maxTime ?pl \<in> insert 0 (x_time ` set T)"
    using fold_max_in[of "map p_time (map (patch_of env) xs)" 0] by (auto simp: new_plist_def)
  define s where "s = \<lparr>patch_list = ?pl, live_doc = se_from_str env '''', last_doc = se_from_str env '''', my_patches = [],
      undo_mode = None :: 'b undo_state option, timeOfLastCommit = None, my_user_id = i, num_users = n, sync_is_disabled = False, sent = []\<rparr>"
  have K: "known_rows T s = set T" by (auto simp: known_rows_def s_def dom)
  have ok: "client_ok env D n 0 T s" using T i max l unfolding client_ok_def K by (simp add: s_def dom)
  obtain c where c: "value_at env None None s = Inr (doc_value env None s, with_cache c s)" "client_ok env D n 0 T (with_cache c s)"
    by (rule client_value[OF env ok])
  let ?v = "doc_value env None s"
  let ?s = "(with_cache c s)\<lparr>live_doc := ?v, last_doc := ?v\<rparr>"
  have "plist_value (se_from_str env) (se_apply env) (se_cget env) (se_cset env) None None False ?pl =
      (Inr ?v, ?pl\<lparr>cache := c\<rparr>)"
    using c(1) by (auto simp: value_at_def with_cache_def s_def split: prod.splits sum.splits)
  then have "init_patch_list env m c0 i n = Inr ?s" by (simp add: init_patch_list_def get with_cache_def s_def Let_def)
  then show ?thesis by (rule that) (use c(2) K in \<open>simp_all add: s_def\<close>)
qed

lemma net_invariant:
  assumes "env_ok env" "\<forall>t. fst (se_cget env c0 t) = None" "net env D n c0 st"
  shows "net_ok env D n (fst st) (snd st)"
  using assms(3)
proof induction
  case (net_start cl)
  show ?case unfolding net_ok_def
  proof (intro allI impI)
    fix i assume "i < n"
    have T: "table_ok D n []" by (simp add: table_ok_def)
    obtain s where "init_patch_list env [] c0 i n = Inr s" "client_ok env D n 0 [] s" "sent s = []" "my_user_id s = i"
      by (rule load_ok[OF assms(1) T _ _ \<open>i < n\<close> assms(2), of "[]"]) simp_all
    then show "client_ok env D n 0 (fst ([], cl)) (snd ([], cl) i) \<and> sent (snd ([], cl) i) = [] \<and> my_user_id (snd ([], cl) i) = i"
      using net_start[OF \<open>i < n\<close>] by simp
  qed
next
  case (net_act T cl i a s)
  then have "net_ok env D n T cl" by simp
  from net_step_ok[OF assms(1) this net_act.hyps(2-4)] obtain s' where s': "perform env a (cl i) = Inr s'" "net_ok env D n (T @ sent s') (cl(i := s'\<lparr>sent := []\<rparr>))" by metis
  have "s' = s" using s'(1) net_act.hyps(5) by simp
  then show ?case using s'(2) by (simp only: fst_conv snd_conv)
next
  case (net_join T cl i m s)
  then have net: "net_ok env D n T cl" by simp
  then have T: "table_ok D n T" "\<forall>x \<in> set T. room D n 0 (x_time x)"
    using net_join.hyps(2) by (fastforce simp: net_ok_def client_ok_def)+
  obtain s' where "init_patch_list env m c0 i n = Inr s'" "client_ok env D n 0 T s'" "sent s' = []" "my_user_id s' = i"
    by (rule load_ok[OF assms(1) T net_join.hyps(3,2) assms(2)])
  then show ?case using net net_join.hyps(4) by (auto simp: net_ok_def)
qed

section \<open>The value of the table\<close>

text \<open>All patches of the table in the order of their times, those of \<open>ws\<close> left out.\<close>

definition replay :: "('d, 'p, 'c) sync_env \<Rightarrow> nat list option \<Rightarrow> row list \<Rightarrow> 'd" where
  "replay env ws R = foldl (\<lambda>d x. if is_without ws (x_time x) then d else se_apply env d (p_patch (patch_of env x)))
     (se_from_str env '''') (sort_key x_time R)"

lemma replay_rows: "replay env None R = foldl (\<lambda>d x. se_apply env d (p_patch (patch_of env x))) (se_from_str env '''') (sort_key x_time R)"
  by (simp add: replay_def is_without_def)

lemma insort_key_agree: "\<forall>y \<in> set (x # xs). k y = h y \<Longrightarrow> insort_key k x xs = insort_key h x xs"
  by (induction xs) simp_all

lemma sort_key_agree: "\<forall>y \<in> set xs. k y = h y \<Longrightarrow> sort_key k xs = sort_key h xs"
  by (induction xs) (simp_all add: insort_key_agree)

lemma insort_key_map: "insort_key g (f x) (map f xs) = map f (insort_key (\<lambda>x. g (f x)) x xs)"
  by (induction xs) simp_all

lemma sort_key_map: "sort_key g (map f xs) = map f (sort_key (\<lambda>x. g (f x)) xs)"
  by (induction xs) (simp_all add: insort_key_map)

lemma all_known_value:
  assumes env: "env_ok env" and ok: "client_ok env D n k T s" and all: "known_rows T s = set (rows_of T s)"
  shows "doc_value env ws s = replay env ws (rows_of T s)"
    "fst (versions (patch_list s)) = map x_time (sort_key x_time (rows_of T s))" "staging (patch_list s) = []"
proof -
  let ?R = "rows_of T s" and ?xs = "map (patch_of env) (rows_of T s)"
  note l = client_list[OF ok]
  have lru: "lru_laws (se_cget env) (se_cset env)" using env by (simp add: env_ok_def)
  have row: "p_time (patch_of env x) = x_time x" "parents_of (patch_of env x) = row_parents x" "plain D (patch_of env x)"
    if "x \<in> set ?R" for x using process_row[OF table_plain[OF l(6) that], of env] by simp_all
  have times: "p_time ` set ?xs = x_time ` set ?R"
    unfolding set_map image_image by (rule image_cong[OF refl row(1)])
  have r: "received D (patch_list s) (set ?xs)" using l(3) unfolding all set_map .
  have inj: "inj_on p_time (set ?xs)" unfolding set_map by (rule patch_times(2)[OF l(6) order_refl])
  have "distinct ?R" using l(6) unfolding table_ok_def distinct_map by blast
  then have dist: "distinct ?xs" unfolding distinct_map using patch_times(4)[OF l(6) order_refl] by blast
  have "set (row_parents x) \<subseteq> x_time ` set ?R" if "x \<in> set ?R" for x using l(6) that unfolding table_ok_def by blast
  then have par: "\<forall>p \<in> set ?xs. set (parents_of p) \<subseteq> p_time ` set ?xs"
    unfolding times unfolding set_map using row(2) by simp
  have plain: "\<forall>p \<in> set ?xs. plain D p" using row(3) by auto
  note v = value_of_received[OF lru l(5) r plain inj par]
  have sorted: "sort_key p_time (remdups ?xs) = map (patch_of env) (sort_key x_time ?R)"
    unfolding distinct_remdups_id[OF dist] sort_key_map using sort_key_agree[of ?R "\<lambda>x. p_time (patch_of env x)" x_time] row(1) by simp
  obtain c where c: "value_at env None ws s = Inr (doc_value env ws s, with_cache c s)"
    by (rule client_value[OF env ok])
  have "fst (plist_value (se_from_str env) (se_apply env) (se_cget env) (se_cset env) None ws False (patch_list s)) =
      Inr (doc_value env ws s)"
    using c by (auto simp: value_at_def split: prod.splits sum.splits)
  moreover have "foldl (\<lambda>d p. if is_without ws (p_time p) then d else se_apply env d (p_patch p)) (se_from_str env '''')
      (map (patch_of env) (sort_key x_time ?R)) = replay env ws ?R"
    unfolding replay_def foldl_map by (rule foldl_cong) (auto simp: row(1))
  ultimately show "doc_value env ws s = replay env ws ?R" using v(1)[of ws False] sorted by simp
  show "fst (versions (patch_list s)) = map x_time (sort_key x_time ?R)"
    unfolding v(2) sorted by (auto simp: row(1))
  have "closed_map (total (patch_list s))"
    unfolding closed_map_def
  proof (intro allI impI disjI2)
    fix t p assume "total (patch_list s) t = Some p"
    then have "p \<in> set ?xs" using r by (simp add: received_def)
    then show "set (parents_of p) \<subseteq> dom (total (patch_list s))" using par received_dom[OF r] by simp
  qed
  then show "staging (patch_list s) = []" using r by (simp add: received_def)
qed

text \<open>A client has received a row: its patch is live or still waits for its parents.\<close>

definition has_row :: "('d, 'p, 'c) sync_doc \<Rightarrow> row \<Rightarrow> bool" where
  "has_row s x \<longleftrightarrow> hasVersion (patch_list s) (x_time x) \<or> obj_get (staging (patch_list s)) (x_time x) \<noteq> None"

end
