(* ===== verification/SyncText.thy ===== *)
theory SyncText
  imports SyncNet
begin

text \<open>
  What a synchronized document needs of the class Document (the locale \<open>document\<close>): a patch that was
  made from one document to another, applied to a document equal to the first, gives one equal to
  the second. Then a commit keeps the value of the patches equal to the document. When equal
  documents are the same value (\<open>text_document\<close>) this holds among several clients, and undo and redo
  are moves of a position in the list of the own patches.
\<close>

section \<open>Documents\<close>

locale document =
  fixes env :: "('d, 'p, 'c) sync_env" and good :: "'d \<Rightarrow> bool"
  assumes apply_make: "good a \<Longrightarrow> good b \<Longrightarrow> good a' \<Longrightarrow> se_equal env a' a \<Longrightarrow>
      good (se_apply env a' (Some (se_make env a b))) \<and> se_equal env (se_apply env a' (Some (se_make env a b))) b"
    and equal_refl: "good a \<Longrightarrow> se_equal env a a"
    and equal_sym: "se_equal env a b \<Longrightarrow> good a \<Longrightarrow> good b \<Longrightarrow> se_equal env b a"
    and equal_trans: "se_equal env a b \<Longrightarrow> se_equal env b e \<Longrightarrow> good a \<Longrightarrow> good b \<Longrightarrow> good e \<Longrightarrow> se_equal env a e"
begin

text \<open>The value of the patches is the document of the last commit.\<close>

definition in_step :: "('d, 'p, 'c) sync_doc \<Rightarrow> bool" where
  "in_step s \<longleftrightarrow> staging (patch_list s) = [] \<and> good (last_doc s) \<and> good (live_doc s) \<and> good (doc_value env None s) \<and>
     se_equal env (doc_value env None s) (last_doc s)"

lemma commit_in_step:
  assumes env: "env_ok env" and ok: "client_ok env D n (Suc k) T s" and c: "clock_ok D n (Suc k) c" and st: "in_step s"
  obtains s' where "commit env c s = Inr s'" "client_ok env D n k T s'" "ext T s s'" "in_step s'"
    "se_equal env (last_doc s') (live_doc s')" "live_doc s' = live_doc s"
proof (cases "se_equal env (last_doc s) (live_doc s)")
  case True
  then show ?thesis using that[of s] commit_cases(1)[OF env ok c] client_less[OF ok] st by simp
next
  case False
  let ?p = "se_make env (last_doc s) (live_doc s)" and ?s = "s\<lparr>last_doc := live_doc s\<rparr>"
  let ?s1 = "committed env c ?p ?s"
  note cc = commit_cases(2-)[OF env ok c]
  have "client_ok env D n (Suc k) T ?s" using ok by simp
  note cv = committed_value[OF env this c _ made_sendable[OF env, of "last_doc s" "live_doc s"]]
  have st': "staging (patch_list ?s) = []" using st by (simp add: in_step_def)
  have v: "doc_value env None ?s1 = se_apply env (doc_value env None s) (Some ?p)"
    using cv(1)[OF st', of None] by (simp add: is_without_def)
  have "good (doc_value env None ?s1) \<and> se_equal env (doc_value env None ?s1) (live_doc s)"
    unfolding v by (rule apply_make) (use st in \<open>simp_all add: in_step_def\<close>)
  then have "in_step ?s1" using cv(2)[OF st'] cc(4,5) st by (simp add: in_step_def)
  moreover have "se_equal env (last_doc ?s1) (live_doc ?s1)" using cc(4,5) st equal_refl by (simp add: in_step_def)
  ultimately show ?thesis using that[of ?s1] cc False by simp
qed

end

text \<open>The edits and commits of a client.\<close>

fun run :: "('d, 'p, 'c) sync_env \<Rightarrow> 'd action list \<Rightarrow> ('d, 'p, 'c) sync_doc \<Rightarrow> ('d, 'p, 'c) sync_result" where
  "run env [] s = Inr s"
| "run env (a # as) s = (case perform env a s of Inl e \<Rightarrow> Inl e | Inr s' \<Rightarrow> run env as s')"

fun writing :: "('d \<Rightarrow> bool) \<Rightarrow> nat \<Rightarrow> nat \<Rightarrow> nat \<Rightarrow> 'd action \<Rightarrow> bool" where
  "writing good D n k (Edit d) = good d"
| "writing good D n k (Commit c) = clock_ok D n k c"
| "writing good D n k a = False"

context document
begin

lemma run_in_step:
  assumes env: "env_ok env" and ok: "client_ok env D n (length as) T s" and st: "in_step s"
    and as: "\<forall>a \<in> set as. writing good D n (length as) a"
  shows "\<exists>s'. run env as s = Inr s' \<and> client_ok env D n 0 T s' \<and> in_step s' \<and> ext T s s'"
proof -
  have "\<exists>s'. run env bs s = Inr s' \<and> client_ok env D n 0 T s' \<and> in_step s' \<and> ext T s s'"
    if "client_ok env D n k T s" "in_step s" "length bs \<le> k" "\<forall>a \<in> set bs. writing good D n k a" for k bs s
    using that
  proof (induction bs arbitrary: k s)
    case Nil
    have "client_ok env D n 0 T s" using Nil(1) by (induction k) (auto dest: client_less)
    then show ?case using Nil by simp
  next
    case (Cons b bs)
    obtain k' where k: "k = Suc k'" using Cons.prems(3) by (cases k) auto
    have less: "writing good D n k' a" if "writing good D n k a" for a
      using that k by (cases a) (auto simp: clock_ok_def intro: room_less)
    obtain s' where s': "perform env b s = Inr s'" "client_ok env D n k' T s'" "in_step s'" "ext T s s'"
    proof (cases b)
      case (Edit d)
      have "in_step (set_doc env d True s)" using Cons.prems(2,4) Edit by (simp add: in_step_def set_doc_def)
      then show ?thesis using that[of "set_doc env d True s"] Edit Cons.prems(1) k client_less[of env D n k'] by simp
    next
      case (Commit c)
      have "clock_ok D n (Suc k') c" using Cons.prems(4) Commit k by simp
      then show ?thesis using commit_in_step[OF env _ _ Cons.prems(2)] Cons.prems(1) k Commit that by (metis perform.simps(2))
    qed (use Cons.prems(4) in simp_all)
    obtain s'' where "run env bs s' = Inr s''" "client_ok env D n 0 T s''" "in_step s''" "ext T s' s''"
      using Cons.IH[OF s'(2,3)] Cons.prems(3,4) k less by auto
    then show ?case using s'(1) ext_trans[OF s'(4)] by auto
  qed
  then show ?thesis using ok st as by blast
qed

text \<open>A client that loads the table sees the document of the last commit.\<close>

lemma load_in_step:
  assumes env: "env_ok env" and c0: "\<forall>t. fst (se_cget env c0 t) = None" and i: "i < n" "j < n"
    and empty: "good (se_from_str env '''')" and s0: "init_patch_list env [] c0 i n = Inr s0"
    and as: "\<forall>a \<in> set as. writing good D n (length as) a"
  shows "\<exists>s t. run env as s0 = Inr s \<and> init_patch_list env (sent s) c0 j n = Inr t \<and> se_equal env (live_doc t) (last_doc s)"
proof -
  have T: "table_ok D n []" by (simp add: table_ok_def)
  obtain s where s: "init_patch_list env [] c0 i n = Inr s" "client_ok env D n 0 [] s" "sent s = []"
      "known_rows [] s = set []" "live_doc s = doc_value env None s" "last_doc s = doc_value env None s"
    by (rule load_ok[OF env T _ _ i(1) c0, of "[]"]) simp_all
  note v = all_known_value[OF env s(2)]
  have start: "in_step s0"
  proof -
    have "known_rows [] s = set (rows_of [] s)" using s(3,4) by simp
    then have "doc_value env None s = se_from_str env ''''" "staging (patch_list s) = []"
      using v(1)[of None] v(3) s(3) by (simp_all add: replay_def)
    then show ?thesis using s empty s0 equal_refl by (simp add: in_step_def)
  qed
  have "client_ok env D n (length as) [] s0" using client_room[OF s(2)] s(1,3) s0 by simp
  from run_in_step[OF env this start as] obtain s' where s': "run env as s0 = Inr s'" "client_ok env D n 0 [] s'" "in_step s'" "ext [] s0 s'"
    by blast
  have R: "table_ok D n (sent s')" "\<forall>x \<in> set (sent s'). room D n 0 (x_time x)" using s'(2) by (simp_all add: client_ok_def)
  obtain t where t: "init_patch_list env (sent s') c0 j n = Inr t" "client_ok env D n 0 (sent s') t" "sent t = []"
      "known_rows (sent s') t = set (sent s')" "live_doc t = doc_value env None t"
    by (rule load_ok[OF env R refl i(2) c0])
  have own: "known_rows [] s' = set (rows_of [] s')"
  proof -
    have "x \<in> known_rows [] s'" if "x \<in> set (sent s')" for x
    proof -
      have "x_user_id x = int (my_user_id s')" using s'(4) s(3) s(1) s0 that by (auto simp: ext_def)
      then show ?thesis using s'(2) that by (simp add: client_ok_def)
    qed
    then show ?thesis using client_list(4)[OF s'(2)] by auto
  qed
  have "doc_value env None t = replay env None (sent s')"
    using all_known_value(1)[OF env t(2), of None] t(3,4) by simp
  also have "\<dots> = doc_value env None s'" using all_known_value(1)[OF env s'(2) own, of None] by simp
  finally have "se_equal env (live_doc t) (last_doc s')" using s'(3) t(5) by (simp add: in_step_def)
  then show ?thesis using s'(1) t(1) by blast
qed

end

section \<open>Documents that are equal only when they are the same\<close>

locale text_document = document +
  assumes equal_eq: "se_equal env a b \<longleftrightarrow> a = b"
    and good_any: "good a \<Longrightarrow> good b"

text \<open>A client that has everything and is not disabled has the value of its patches as its last document.\<close>

definition settled :: "('d, 'p, 'c) sync_env \<Rightarrow> ('d, 'p, 'c) sync_doc \<Rightarrow> bool" where
  "settled env s \<longleftrightarrow> (\<not> sync_is_disabled s \<and> staging (patch_list s) = [] \<longrightarrow> last_doc s = doc_value env None s)"

lemma settled_frame [simp]:
  "settled env (s\<lparr>live_doc := d\<rparr>) = settled env s" "settled env (s\<lparr>undo_mode := u\<rparr>) = settled env s"
  "settled env (s\<lparr>sent := zs\<rparr>) = settled env s" "settled env (set_doc env d b s) = settled env s"
  by (simp_all add: settled_def set_doc_def doc_value_def)

context text_document
begin

lemma apply_make_text: "good g \<Longrightarrow> se_apply env a (Some (se_make env a b)) = b"
  using apply_make[of a b a] good_any equal_eq by blast

lemma agrees_eq: "agrees env a b \<longleftrightarrow> a = b"
  by (simp add: agrees_def equal_eq)

lemma commit_settled:
  assumes env: "env_ok env" and ok: "client_ok env D n (Suc k) T s" and c: "clock_ok D n (Suc k) c" and st: "settled env s"
    and g: "good g" and res: "commit env c s = Inr s'"
  shows "settled env s'"
proof (cases "se_equal env (last_doc s) (live_doc s)")
  case True
  then show ?thesis using commit_cases(1)[OF env ok c] res st by simp
next
  case False
  let ?p = "se_make env (last_doc s) (live_doc s)" and ?s = "s\<lparr>last_doc := live_doc s\<rparr>"
  note cc = commit_cases(2-)[OF env ok c]
  have s': "s' = committed env c ?p ?s" using cc(1) False res by simp
  have ok1: "client_ok env D n (Suc k) T ?s" using ok by simp
  show ?thesis unfolding settled_def
  proof (intro impI, elim conjE)
    assume a: "\<not> sync_is_disabled s'" "staging (patch_list s') = []"
    have st': "staging (patch_list ?s) = []" by (rule committed_complete[OF env ok1 c _ made_sendable[OF env]]) (use a(2) s' in simp)
    have "doc_value env None s' = se_apply env (doc_value env None s) (Some ?p)"
      using committed_value(1)[OF env ok1 c st' made_sendable[OF env, of "last_doc s" "live_doc s"], where ws = None] s' by (simp add: is_without_def)
    moreover have "doc_value env None s = last_doc s" using st st' a(1) cc(6) s' by (simp add: settled_def)
    ultimately show "last_doc s' = doc_value env None s'" using apply_make_text[OF g] cc(5) s' by simp
  qed
qed

lemma merged_settled: "merged env s \<Longrightarrow> settled env s"
  by (simp add: merged_def agrees_eq settled_def)

lemma perform_settled:
  assumes env: "env_ok env" and ok: "client_ok env D n 2 T s" and c: "\<forall>c \<in> clocks_of a. clock_ok D n 2 c"
    and xs: "arriving a \<subseteq> set (rows_of T s)" and st: "settled env s" and g: "good g" and res: "perform env a s = Inr s'"
  shows "settled env s'"
proof (cases a)
  case (Edit d)
  then show ?thesis using res st by auto
next
  case (Commit c)
  then have "clock_ok D n (Suc 0) c" using assms(3) clock_less by simp
  from commit_settled[OF env client_less[OF ok[unfolded numeral_2_eq_2]] this st g] show ?thesis using Commit res by simp
next
  case (Save c)
  then have cc: "clock_ok D n (Suc (Suc 0)) c" "clock_ok D n (Suc 0) c" using assms(3) clock_less by simp_all
  obtain s1 where "sync_remote_and_doc env c c False None s = Inr s1" "if sync_is_disabled s then s1 = s else merged env s1"
    using sync_result[OF env ok[unfolded numeral_2_eq_2] cc, of False None] by metis
  then show ?thesis using Save res st merged_settled by (auto simp: save_round_def split: if_splits)
next
  case (Receive c1 c2 xs edit)
  then have cc: "clock_ok D n (Suc (Suc 0)) c1" "clock_ok D n (Suc 0) c2" using assms(3) clock_less by simp_all
  have "set xs \<subseteq> set (rows_of T s)" using assms(4) Receive by simp
  note r = receive_result[OF env ok[unfolded numeral_2_eq_2] cc this]
  let ?v = "filter (\<lambda>x. x_time x \<noteq> 0 \<and> obj_get (my_patches s) (x_time x) = None) xs"
  let ?s1 = "s\<lparr>patch_list := add_patches (map (patch_of env) ?v) (patch_list s)\<rparr>"
  obtain s2 where s2: "sync_remote_and_doc env c1 c2 (?v \<noteq> []) edit ?s1 = Inr s2" "client_ok env D n 0 T s2" "ext T ?s1 s2"
      "if sync_is_disabled ?s1 then s2 = ?s1 else merged env s2"
    by (rule sync_result[OF env r(2) cc, of "?v \<noteq> []" edit])
  have "s' = s2" using Receive r(1) s2(1) res by simp
  then show ?thesis using s2(4) merged_settled by (cases "sync_is_disabled ?s1") (auto simp: settled_def)
next
  case (Undo c)
  obtain d s1 where s1: "undo_step env s = Inr (d, s1)" "client_ok env D n 2 T s1" "quiet env s s1"
    using undo_step_result[OF env ok] by metis
  have st1: "settled env (set_doc env d False s1)" using st s1(3) by (simp add: settled_def quiet_def) (simp add: set_doc_def)
  have "client_ok env D n (Suc 0) T (set_doc env d False s1)" using client_less[OF s1(2)[unfolded numeral_2_eq_2]] by simp
  from commit_settled[OF env this clock_less(1) st1 g] show ?thesis using Undo res s1(1) c by (simp add: undo_def)
next
  case (Redo c)
  obtain d s1 where s1: "redo_step env s = Inr (d, s1)" "client_ok env D n 2 T s1" "quiet env s s1"
    using redo_step_result[OF env ok] by metis
  have st1: "settled env (set_doc env d False s1)" using st s1(3) by (simp add: settled_def quiet_def) (simp add: set_doc_def)
  have "client_ok env D n (Suc 0) T (set_doc env d False s1)" using client_less[OF s1(2)[unfolded numeral_2_eq_2]] by simp
  from commit_settled[OF env this clock_less(1) st1 g] show ?thesis using Redo res s1(1) c by (simp add: redo_def)
next
  case ExitUndo
  then show ?thesis using res st by (auto simp: exit_undo_mode_def)
next
  case DisableSync
  then show ?thesis using res by (auto simp: disable_sync_def settled_def)
next
  case (EnableSync c1 c2 edit)
  then have cc: "clock_ok D n (Suc (Suc 0)) c1" "clock_ok D n (Suc 0) c2" using assms(3) clock_less by simp_all
  let ?s = "s\<lparr>sync_is_disabled := False\<rparr>"
  have "client_ok env D n (Suc (Suc 0)) T ?s" using ok by (simp add: numeral_2_eq_2)
  then obtain s2 where "sync_remote_and_doc env c1 c2 True edit ?s = Inr s2" "if sync_is_disabled ?s then s2 = ?s else merged env s2"
    using sync_result[OF env _ cc, of T ?s True edit] by metis
  then show ?thesis using EnableSync res merged_settled by (auto simp: enable_sync_def)
qed

lemma net_settled:
  assumes env: "env_ok env" and c0: "\<forall>t. fst (se_cget env c0 t) = None" and g: "good g" and net: "net env D n c0 st" and i: "i < n"
  shows "settled env (snd st i)"
  using net i
proof (induction arbitrary: i)
  case (net_start cl)
  have T: "table_ok D n []" by (simp add: table_ok_def)
  obtain s where "init_patch_list env [] c0 i n = Inr s" "last_doc s = doc_value env None s"
    by (rule load_ok[OF env T _ _ \<open>i < n\<close> c0, of "[]"]) simp_all
  then show ?case using net_start.hyps[OF net_start.prems] by (simp add: settled_def)
next
  case (net_act T cl j a s)
  have ok: "net_ok env D n T cl" using net_invariant[OF env c0 net_act.hyps(1)] by simp
  show ?case
  proof (cases "i = j")
    case True
    have cj: "client_ok env D n 0 T (cl j)" "sent (cl j) = []" using ok net_act.hyps(2) by (simp_all add: net_ok_def)
    have "client_ok env D n 2 T (cl j)" by (rule client_room[OF cj(1)]) (use net_act.hyps(3) cj(2) in \<open>simp add: in_time_def\<close>)
    from perform_settled[OF env this _ _ _ g net_act.hyps(5)] show ?thesis
      using True net_act.hyps(2-4) net_act.IH[OF net_act.hyps(2)] cj(2) by (simp add: in_time_def)
  qed (use net_act.IH[OF net_act.prems] in simp)
next
  case (net_join T cl j m s)
  have ok: "net_ok env D n T cl" using net_invariant[OF env c0 net_join.hyps(1)] by simp
  then have T: "table_ok D n T" "\<forall>x \<in> set T. room D n 0 (x_time x)"
    using net_join.hyps(2) by (fastforce simp: net_ok_def client_ok_def)+
  obtain s' where "init_patch_list env m c0 j n = Inr s'" "last_doc s' = doc_value env None s'"
    using load_ok[OF env T net_join.hyps(3,2) c0] by metis
  then show ?case using net_join.hyps(4) net_join.IH[OF net_join.prems] by (simp add: settled_def)
qed

end

end
