(* ===== verification/SyncUndo.thy ===== *)
theory SyncUndo
  imports SyncText
begin

text \<open>
  Undo and redo as moves of a position: at position \<open>k\<close> the document is the value of all patches
  without the last \<open>k\<close> of this client's patches. Every undo and redo also commits a patch; these are
  left out of the value too, so that they do not count.
\<close>

section \<open>Positions\<close>

definition undo_at :: "nat list \<Rightarrow> nat \<Rightarrow> nat list \<Rightarrow> 'p undo_state \<Rightarrow> bool" where
  "undo_at mine k C u \<longleftrightarrow> my_times u = mine \<and> final u = None \<and>
     pointer u = (if k = 0 then int (length mine) else int (length mine) - 1 - int k) \<and> without u = C @ take k (rev mine)"

definition at_position :: "('d, 'p, 'c) sync_env \<Rightarrow> ('d, 'p, 'c) sync_doc \<Rightarrow> nat list \<Rightarrow> nat \<Rightarrow> nat list \<Rightarrow>
    ('d, 'p, 'c) sync_doc \<Rightarrow> bool" where
  "at_position env s0 mine k C s \<longleftrightarrow> staging (patch_list s) = [] \<and> last_doc s = live_doc s \<and>
     doc_value env None s = live_doc s \<and> undo_at mine k C (initUndoState s) \<and> (k > 0 \<longrightarrow> undo_mode s \<noteq> None) \<and> k \<le> length mine \<and>
     (\<forall>ws. doc_value env (Some (C @ ws)) s = doc_value env (Some ws) s0) \<and>
     live_doc s = doc_value env (Some (take k (rev mine))) s0"

lemma take_rev_Suc: "k < length mine \<Longrightarrow> take (Suc k) (rev mine) = take k (rev mine) @ [mine ! (length mine - 1 - k)]"
  by (simp add: take_Suc_conv_app_nth rev_nth)

lemma client_value_mode:
  assumes "env_ok env" "client_ok env D n k T s"
  obtains c where "value_at env None ws (s\<lparr>undo_mode := u\<rparr>) = Inr (doc_value env ws s, with_cache c (s\<lparr>undo_mode := u\<rparr>))"
    "client_ok env D n k T (with_cache c (s\<lparr>undo_mode := u\<rparr>))" "quiet env s (with_cache c (s\<lparr>undo_mode := u\<rparr>))"
proof -
  have "client_ok env D n k T (s\<lparr>undo_mode := u\<rparr>)" using assms(2) by simp
  then obtain c where "value_at env None ws (s\<lparr>undo_mode := u\<rparr>) =
      Inr (doc_value env ws (s\<lparr>undo_mode := u\<rparr>), with_cache c (s\<lparr>undo_mode := u\<rparr>))"
      "client_ok env D n k T (with_cache c (s\<lparr>undo_mode := u\<rparr>))"
    by (rule client_value[OF assms(1)])
  then show ?thesis by (intro that[of c]) (simp_all add: quiet_def)
qed

context text_document
begin

lemma undo_moves:
  assumes env: "env_ok env" and ok: "client_ok env D n m T s" and pos: "at_position env s0 mine k C s" and ne: "mine \<noteq> []"
  defines "k' \<equiv> min (Suc k) (length mine)"
  shows "\<exists>s1 u. undo_step env s = Inr (doc_value env (Some (take k' (rev mine))) s0, s1) \<and> client_ok env D n m T s1 \<and>
    quiet env s s1 \<and> undo_mode s1 = Some u \<and> undo_at mine k' C u"
proof -
  let ?u = "initUndoState s" and ?len = "int (length mine)"
  have u: "my_times ?u = mine" "final ?u = None" "pointer ?u = (if k = 0 then ?len else ?len - 1 - int k)"
      "without ?u = C @ take k (rev mine)" and k: "k \<le> length mine" and live: "doc_value env None s = live_doc s"
    and val: "\<And>ws. doc_value env (Some (C @ ws)) s = doc_value env (Some ws) s0"
    using pos by (auto simp: at_position_def undo_at_def)
  consider (start) "k = 0" | (mid) "0 < k" "k < length mine" | (stop) "0 < k" "k = length mine" using k by linarith
  then show ?thesis
  proof cases
    case start
    let ?w = "Some (?u\<lparr>pointer := ?len - 2, without := C @ take 1 (rev mine)\<rparr>)"
    obtain c where c: "value_at env None None s = Inr (doc_value env None s, with_cache c s)" "client_ok env D n m T (with_cache c s)"
      by (rule client_value[OF env ok])
    obtain c' where c': "value_at env None (Some (C @ take 1 (rev mine))) ((with_cache c s)\<lparr>undo_mode := ?w\<rparr>) =
          Inr (doc_value env (Some (C @ take 1 (rev mine))) (with_cache c s), with_cache c' ((with_cache c s)\<lparr>undo_mode := ?w\<rparr>))"
        "client_ok env D n m T (with_cache c' ((with_cache c s)\<lparr>undo_mode := ?w\<rparr>))"
        "quiet env (with_cache c s) (with_cache c' ((with_cache c s)\<lparr>undo_mode := ?w\<rparr>))"
      by (rule client_value_mode[OF env c(2)])
    have nth: "js_nth mine (?len - 1) = Some (mine ! (length mine - 1))" using ne by (cases mine) (simp_all add: js_nth_def nat_diff_distrib)
    have one: "C @ [mine ! (length mine - 1)] = C @ take 1 (rev mine)" using take_rev_Suc[of 0 mine] ne by simp
    have k1: "k' = 1" using start ne by (simp add: k'_def) (cases mine; simp)
    have "undo_step env s = Inr (doc_value env (Some (take k' (rev mine))) s0, with_cache c' ((with_cache c s)\<lparr>undo_mode := ?w\<rparr>))"
      using u(1,3,4) start c(1) c'(1) live nth one val[of "take 1 (rev mine)"] k1
      by (simp add: undo_step_def Let_def equal_eq)
    then show ?thesis using c'(2,3) u k1 by (intro exI conjI) (auto simp: quiet_def undo_at_def)
  next
    case mid
    let ?w = "?u\<lparr>without := C @ take (Suc k) (rev mine), pointer := ?len - 1 - int k - 1\<rparr>"
    have ptr: "0 \<le> ?len - 1 - int k" "nat (?len - 1 - int k) = length mine - 1 - k" using mid by linarith+
    obtain c where c: "value_at env None (Some (C @ take (Suc k) (rev mine))) (s\<lparr>undo_mode := Some ?w\<rparr>) =
          Inr (doc_value env (Some (C @ take (Suc k) (rev mine))) s, with_cache c (s\<lparr>undo_mode := Some ?w\<rparr>))"
        "client_ok env D n m T (with_cache c (s\<lparr>undo_mode := Some ?w\<rparr>))" "quiet env s (with_cache c (s\<lparr>undo_mode := Some ?w\<rparr>))"
      by (rule client_value_mode[OF env ok])
    have k1: "k' = Suc k" using mid by (simp add: k'_def)
    have "undo_step env s = Inr (doc_value env (Some (take k' (rev mine))) s0, with_cache c (s\<lparr>undo_mode := Some ?w\<rparr>))"
      using u(1,3,4) mid ptr c(1) val[of "take (Suc k) (rev mine)"] take_rev_Suc[OF mid(2)] k1
      by (simp add: undo_step_def Let_def)
    then show ?thesis using c(2,3) u k1 by (intro exI conjI) (auto simp: undo_at_def)
  next
    case stop
    obtain c where c: "value_at env None (Some (C @ take k (rev mine))) (s\<lparr>undo_mode := Some ?u\<rparr>) =
          Inr (doc_value env (Some (C @ take k (rev mine))) s, with_cache c (s\<lparr>undo_mode := Some ?u\<rparr>))"
        "client_ok env D n m T (with_cache c (s\<lparr>undo_mode := Some ?u\<rparr>))" "quiet env s (with_cache c (s\<lparr>undo_mode := Some ?u\<rparr>))"
      by (rule client_value_mode[OF env ok])
    have k1: "k' = k" using stop by (simp add: k'_def)
    have "undo_step env s = Inr (doc_value env (Some (take k' (rev mine))) s0, with_cache c (s\<lparr>undo_mode := Some ?u\<rparr>))"
      using u(1,3,4) stop c(1) val[of "take k (rev mine)"] k1 by (simp add: undo_step_def Let_def)
    then show ?thesis using c(2,3) u k1 by (intro exI conjI) (auto simp: undo_at_def)
  qed
qed

lemma redo_moves:
  assumes env: "env_ok env" and ok: "client_ok env D n m T s" and pos: "at_position env s0 mine k C s" and k: "0 < k"
  shows "\<exists>s1 u. redo_step env s = Inr (doc_value env (Some (take (k - 1) (rev mine))) s0, s1) \<and> client_ok env D n m T s1 \<and>
    quiet env s s1 \<and> undo_mode s1 = Some u \<and> undo_at mine (k - 1) C u"
proof -
  let ?len = "int (length mine)"
  obtain u where mode: "undo_mode s = Some u" using pos k by (auto simp: at_position_def)
  then have "initUndoState s = u" by (simp add: initUndoState_def)
  then have u: "my_times u = mine" "final u = None" "pointer u = ?len - 1 - int k" "without u = C @ take k (rev mine)"
    and le: "k \<le> length mine" and val: "\<And>ws. doc_value env (Some (C @ ws)) s = doc_value env (Some ws) s0"
    using pos k by (auto simp: at_position_def undo_at_def)
  let ?p = "if k = 1 then ?len else ?len - int k"
  let ?w = "u\<lparr>without := C @ take (k - 1) (rev mine), pointer := ?p\<rparr>"
  have last: "butlast (C @ take k (rev mine)) = C @ take (k - 1) (rev mine)"
    using k le by (cases "mine = []") (simp_all add: butlast_append butlast_take)
  obtain c where c: "value_at env None (Some (C @ take (k - 1) (rev mine))) (s\<lparr>undo_mode := Some ?w\<rparr>) =
        Inr (doc_value env (Some (C @ take (k - 1) (rev mine))) s, with_cache c (s\<lparr>undo_mode := Some ?w\<rparr>))"
      "client_ok env D n m T (with_cache c (s\<lparr>undo_mode := Some ?w\<rparr>))" "quiet env s (with_cache c (s\<lparr>undo_mode := Some ?w\<rparr>))"
    by (rule client_value_mode[OF env ok])
  have "redo_step env s = Inr (doc_value env (Some (take (k - 1) (rev mine))) s0, with_cache c (s\<lparr>undo_mode := Some ?w\<rparr>))"
    using mode u k c(1) last val[of "take (k - 1) (rev mine)"] by (auto simp: redo_step_def Let_def)
  then show ?thesis using c(2,3) u k by (intro exI conjI) (auto simp: undo_at_def)
qed

lemma commit_position:
  assumes env: "env_ok env" and ok: "client_ok env D n (Suc m) T s1" and c: "clock_ok D n (Suc m) c" and g: "good g"
    and pos: "at_position env s0 mine k C s" and q: "quiet env s s1" "undo_mode s1 = Some u" "undo_at mine k' C u" "k' \<le> length mine"
    and d: "d = doc_value env (Some (take k' (rev mine))) s0"
  shows "\<exists>s' C'. commit env c (set_doc env d False s1) = Inr s' \<and> client_ok env D n m T s' \<and> at_position env s0 mine k' C' s'"
proof (cases "d = live_doc s1")
  case True
  have "commit env c (set_doc env d False s1) = Inr s1"
    using True q(1) pos by (simp add: set_doc_def commit_def equal_eq quiet_def at_position_def)
  moreover have "at_position env s0 mine k' C s1"
    using True pos q d by (simp add: at_position_def quiet_def initUndoState_def)
  ultimately show ?thesis using client_less[OF ok] by blast
next
  case False
  let ?s2 = "s1\<lparr>live_doc := d\<rparr>" and ?t = "next_patch_time c s1"
  let ?p = "se_make env (last_doc s1) d" and ?s3 = "s1\<lparr>live_doc := d, last_doc := d\<rparr>"
  let ?s4 = "committed env c ?p ?s3"
  have last: "last_doc s1 = live_doc s1" "doc_value env None s1 = live_doc s1" "staging (patch_list s1) = []"
    and val: "\<And>ws. doc_value env (Some (C @ ws)) s1 = doc_value env (Some ws) s0"
    using pos q(1) by (simp_all add: at_position_def quiet_def)
  have ok2: "client_ok env D n (Suc m) T ?s2" "client_ok env D n (Suc m) T ?s3" using ok by simp_all
  note cc = commit_cases(2-6)[OF env ok2(1) c]
  have same: "next_patch_time c ?s3 = ?t" by (simp add: next_patch_time_def)
  have res: "commit env c (set_doc env d False s1) = Inr ?s4" "client_ok env D n m T ?s4" "live_doc ?s4 = d" "last_doc ?s4 = d"
    using cc False last(1) by (simp_all add: set_doc_def equal_eq)
  have st3: "staging (patch_list ?s3) = []" using last(3) by simp
  note cv = committed_value[OF env ok2(2) c st3 made_sendable[OF env, of "last_doc s1" d], unfolded same]
  have fresh: "?t \<notin> x_time ` set (rows_of T s1)"
    using new_row(2)[OF ok c, of undefined] by (simp add: commit_row_def)
  have vals: "doc_value env (Some ((?t # C) @ ws)) ?s4 = doc_value env (Some ws) s0" for ws
  proof -
    have "doc_value env (Some ((?t # C) @ ws)) ?s4 = doc_value env (Some ((?t # C) @ ws)) s1"
      using cv(1)[of "Some ((?t # C) @ ws)"] by (simp add: is_without_def)
    also have "\<dots> = doc_value env (Some (C @ ws)) s1"
    proof (rule doc_value_cong[OF ok])
      fix t assume "t \<in> x_time ` set (rows_of T s1)"
      then have "t \<noteq> ?t" using fresh by metis
      then show "is_without (Some ((?t # C) @ ws)) t = is_without (Some (C @ ws)) t" by (simp add: is_without_def)
    qed
    finally show ?thesis using val by simp
  qed
  have "doc_value env None ?s4 = se_apply env (doc_value env None s1) (Some ?p)"
    using cv(1)[of None] by (simp add: is_without_def)
  then have now: "doc_value env None ?s4 = d" using last apply_make_text[OF g] by simp
  have mode: "undo_mode ?s4 = Some (u\<lparr>without := ?t # without u\<rparr>)"
    using q(2) same by (simp add: committed_def Let_def)
  have "at_position env s0 mine k' (?t # C) ?s4"
    unfolding at_position_def using cv(2) res(3,4) now vals mode q(3,4) d
    by (simp add: initUndoState_def undo_at_def)
  then show ?thesis using res(1,2) by blast
qed

end

section \<open>Runs of undo and redo\<close>

text \<open>\<open>True\<close> is undo.\<close>

fun undo_redo :: "('d, 'p, 'c) sync_env \<Rightarrow> (bool \<times> clock) list \<Rightarrow> ('d, 'p, 'c) sync_doc \<Rightarrow> ('d, 'p, 'c) sync_result" where
  "undo_redo env [] s = Inr s"
| "undo_redo env ((b, c) # ms) s =
     (case (if b then undo env c s else redo env c s) of Inl e \<Rightarrow> Inl e | Inr s' \<Rightarrow> undo_redo env ms s')"

definition move :: "nat \<Rightarrow> bool \<Rightarrow> nat \<Rightarrow> nat" where
  "move len b k = (if b then min (Suc k) len else k - 1)"

context text_document
begin

lemma step_position:
  assumes env: "env_ok env" and ok: "client_ok env D n (Suc m) T s" and c: "clock_ok D n (Suc m) c" and g: "good g"
    and pos: "at_position env s0 mine k C s" and ne: "mine \<noteq> []"
  shows "\<exists>s' C'. (if b then undo env c s else redo env c s) = Inr s' \<and> client_ok env D n m T s' \<and>
    at_position env s0 mine (move (length mine) b k) C' s'"
proof -
  have k: "k \<le> length mine" using pos by (simp add: at_position_def)
  consider (undo) "b" | (redo) "\<not> b" "0 < k" | (none) "\<not> b" "k = 0" by blast
  then show ?thesis
  proof cases
    case undo
    let ?k = "min (Suc k) (length mine)"
    obtain s1 u where s1: "undo_step env s = Inr (doc_value env (Some (take ?k (rev mine))) s0, s1)" "client_ok env D n (Suc m) T s1"
        "quiet env s s1" "undo_mode s1 = Some u" "undo_at mine ?k C u"
      using undo_moves[OF env ok pos ne] by blast
    show ?thesis using commit_position[OF env s1(2) c g pos s1(3-5) _ refl] s1(1) undo by (simp add: undo_def move_def)
  next
    case redo
    obtain s1 u where s1: "redo_step env s = Inr (doc_value env (Some (take (k - 1) (rev mine))) s0, s1)" "client_ok env D n (Suc m) T s1"
        "quiet env s s1" "undo_mode s1 = Some u" "undo_at mine (k - 1) C u"
      using redo_moves[OF env ok pos redo(2)] by blast
    have "k - 1 \<le> length mine" using k by simp
    from commit_position[OF env s1(2) c g pos s1(3-5) this refl] show ?thesis using s1(1) redo by (simp add: redo_def move_def)
  next
    case none
    have "redo_step env s = Inr (live_doc s, s)"
      using pos none by (auto simp: redo_step_def at_position_def undo_at_def initUndoState_def Let_def split: option.splits)
    then have "redo env c s = Inr s" using pos by (simp add: redo_def set_doc_def commit_def equal_eq at_position_def)
    then show ?thesis using none pos client_less[OF ok] by (auto simp: move_def)
  qed
qed

lemma run_position:
  assumes env: "env_ok env" and g: "good g" and ne: "mine \<noteq> []"
    and "client_ok env D n (length ms) T s" "\<forall>x \<in> set ms. clock_ok D n (length ms) (snd x)" "at_position env s0 mine k C s"
  shows "\<exists>s' C'. undo_redo env ms s = Inr s' \<and> at_position env s0 mine (fold (move (length mine)) (map fst ms) k) C' s'"
  using assms(4-)
proof (induction ms arbitrary: s k C)
  case (Cons x ms)
  obtain b c where x: "x = (b, c)" by (cases x)
  have ok: "client_ok env D n (Suc (length ms)) T s" "clock_ok D n (Suc (length ms)) c" using Cons.prems x by simp_all
  have less: "\<forall>x \<in> set ms. clock_ok D n (length ms) (snd x)"
    using Cons.prems(2) by (auto simp: clock_ok_def intro: room_less)
  obtain s' C' where s': "(if b then undo env c s else redo env c s) = Inr s'" "client_ok env D n (length ms) T s'"
      "at_position env s0 mine (move (length mine) b k) C' s'"
    using step_position[OF env ok g Cons.prems(3) ne] by blast
  show ?case using Cons.IH[OF s'(2) less s'(3)] s'(1) x by simp
qed auto

lemma start_position:
  assumes "undo_mode s = None" "staging (patch_list s) = []" "last_doc s = live_doc s" "doc_value env None s = live_doc s"
    and ok: "client_ok env D n k T s"
  shows "at_position env s (js_sort (js_keys (my_patches s))) 0 [] s"
proof -
  have "doc_value env (Some []) s = doc_value env None s" by (rule doc_value_cong[OF ok]) (simp add: is_without_def)
  then show ?thesis using assms(1-4) by (simp add: at_position_def undo_at_def initUndoState_def Let_def)
qed

end

end
