(* ===== verification/StringDoc.thy ===== *)
theory StringDoc
  imports SyncUndo DbDocProps
begin

text \<open>
  The two kinds of documents as documents of SyncDoc: the class StringDocument of
  \<^verbatim>\<open>packages/sync/editor/string/doc.ts\<close> (with \<^verbatim>\<open>string/sync.ts\<close>) and the table DBDocument (with
  \<^verbatim>\<open>packages/sync/editor/db/sync.ts\<close>). Both satisfy what SyncDoc needs, the strings with
  equality. JSON and the least recently used cache are parameters, in the record \<open>libs\<close>.
\<close>

record ('d, 'p, 'c) libs =
  lib_stringify :: "'p \<Rightarrow> string"
  lib_parse :: "string \<Rightarrow> 'p"
  lib_cget :: "'c \<Rightarrow> nat \<Rightarrow> ('d \<times> nat) option \<times> 'c"
  lib_cset :: "'c \<Rightarrow> nat \<Rightarrow> 'd \<times> nat \<Rightarrow> 'c"

text \<open>JSON returns the patches that \<open>make_patch\<close> makes.\<close>

definition libs_ok :: "('d, 'p, 'c) libs \<Rightarrow> ('d \<Rightarrow> 'd \<Rightarrow> 'p) \<Rightarrow> bool" where
  "libs_ok l mk \<longleftrightarrow> lru_laws (lib_cget l) (lib_cset l) \<and>
     (\<forall>a b. lib_parse l (lib_stringify l (mk a b)) = mk a b)"

section \<open>Strings\<close>

record dmp =
  patch_make :: "string \<Rightarrow> string \<Rightarrow> patch_object list"
  patch_apply :: "patch_object list \<Rightarrow> string \<Rightarrow> (string \<times> bool list) option"

definition string_is_equal :: "string \<Rightarrow> string option \<Rightarrow> bool" where
  "string_is_equal val other \<longleftrightarrow> Some val = other"

text \<open>A patch that is undefined cannot be decompressed and is then ignored.\<close>

definition string_apply_patch :: "dmp \<Rightarrow> string \<Rightarrow> json list option \<Rightarrow> string" where
  "string_apply_patch l val patch = (case patch of None \<Rightarrow> val | Some p \<Rightarrow> fst (apply_patch (patch_apply l) p val))"

definition string_make_patch :: "dmp \<Rightarrow> string \<Rightarrow> string \<Rightarrow> json list" where
  "string_make_patch l val other = make_patch (patch_make l) val other"

fun string_set :: "json \<Rightarrow> string option" where
  "string_set (JStr x) = Some x"
| "string_set x = None"

definition string_count :: "string \<Rightarrow> nat" where
  "string_count val = length val"

definition string_sync :: "dmp \<Rightarrow> (string, json list, 'c) libs \<Rightarrow> (string, json list, 'c) sync_env" where
  "string_sync l b = \<lparr>se_from_str = (\<lambda>str. str), se_equal = (\<lambda>a b. string_is_equal a (Some b)),
     se_apply = string_apply_patch l, se_make = string_make_patch l, se_stringify = lib_stringify b, se_parse = lib_parse b,
     se_nil = [], se_cget = lib_cget b, se_cset = lib_cset b\<rparr>"

text \<open>What the code relies on from diff-match-patch: a patch leads from its first string to its second.\<close>

definition dmp_ok :: "dmp \<Rightarrow> string \<Rightarrow> bool" where
  "dmp_ok l s \<longleftrightarrow> dmp_laws (patch_make l) (patch_apply l) (\<lambda>s. s)"

interpretation strings: text_document "string_sync l b" "dmp_ok l" for l b
proof unfold_locales
  fix a b' a'
  assume a: "dmp_ok l a" "se_equal (string_sync l b) a' a"
  have "string_apply_patch l a (Some (string_make_patch l a b')) = b'"
    using apply_make_patch[of "patch_make l" "patch_apply l" "\<lambda>s. s" a b'] a(1)
    by (simp add: string_apply_patch_def string_make_patch_def dmp_ok_def)
  then show "dmp_ok l (se_apply (string_sync l b) a' (Some (se_make (string_sync l b) a b'))) \<and>
      se_equal (string_sync l b) (se_apply (string_sync l b) a' (Some (se_make (string_sync l b) a b'))) b'"
    using a by (simp add: string_sync_def string_is_equal_def dmp_ok_def)
qed (simp_all add: string_sync_def string_is_equal_def dmp_ok_def)

lemma string_sync_ok: "libs_ok b (string_make_patch l) \<Longrightarrow> env_ok (string_sync l b)"
  by (simp add: env_ok_def libs_ok_def string_sync_def)

section \<open>Tables\<close>

text \<open>\<open>None\<close> is the document after an exception.\<close>

definition db_make :: "db_env \<Rightarrow> dbdoc option \<Rightarrow> dbdoc option \<Rightarrow> db_patch option" where
  "db_make env a other =
     (case (a, other) of
        (Some d, Some e) \<Rightarrow> (case db_make_patch env d e of Inr p \<Rightarrow> Some p | Inl _ \<Rightarrow> None)
      | _ \<Rightarrow> None)"

definition db_sync :: "db_env \<Rightarrow> string list \<Rightarrow> string list \<Rightarrow> (dbdoc option, db_patch option, 'c) libs \<Rightarrow>
    (dbdoc option, db_patch option, 'c) sync_env" where
  "db_sync env pks cols b = \<lparr>se_from_str = (\<lambda>str. case db_from_str env str pks cols of Some (Inr d) \<Rightarrow> Some d | _ \<Rightarrow> None),
     se_equal = (\<lambda>a other. case a of None \<Rightarrow> False | Some d \<Rightarrow> db_is_equal d other),
     se_apply = (\<lambda>a patch. case (a, patch) of
         (Some d, Some (Some p)) \<Rightarrow> (case db_apply_patch env d p of Inr e \<Rightarrow> Some e | Inl _ \<Rightarrow> None)
       | _ \<Rightarrow> None),
     se_make = db_make env,
     se_stringify = lib_stringify b, se_parse = lib_parse b, se_nil = Some [], se_cget = lib_cget b, se_cset = lib_cset b\<rparr>"

definition db_good :: "db_env \<Rightarrow> string list \<Rightarrow> string list \<Rightarrow> dbdoc option \<Rightarrow> bool" where
  "db_good env pks cols a \<longleftrightarrow> env_laws env \<and>
     (\<exists>d. a = Some d \<and> db_inv env d \<and> proper d \<and> primary_keys d = pks \<and> string_cols d = cols)"

lemma equal_is_same_doc:
  assumes "db_inv env d" "db_is_equal d (Some e)" "proper d" "primary_keys d = primary_keys e" "string_cols d = string_cols e"
  shows "same_doc env e d"
proof -
  have "insert None (set (records d)) = insert None (set (records e))" using assms(2) by (simp add: db_is_equal_def)
  then have eq: "insert None (Some ` rset d) = insert None (Some ` rset e)" unfolding rset_Some .
  have some: "r \<in> A \<longleftrightarrow> Some r \<in> insert None (Some ` A)" for r :: json_map and A by auto
  have "rset d = rset e" unfolding set_eq_iff some eq by (intro allI refl)
  moreover have "uniq d" using assms(3) proper_props by blast
  ultimately show ?thesis using assms(1,4,5) unfolding same_doc_def by blast
qed

interpretation tables: document "db_sync env pks cols b" "db_good env pks cols" for env pks cols b
proof unfold_locales
  fix a b' a'
  assume g: "db_good env pks cols a" "db_good env pks cols b'" "db_good env pks cols a'" and eq: "se_equal (db_sync env pks cols b) a' a"
  then obtain d e d' where a: "a = Some d" "b' = Some e" "a' = Some d'" "env_laws env"
      "db_inv env d" "proper d" "primary_keys d = pks" "string_cols d = cols"
      "db_inv env e" "proper e" "primary_keys e = pks" "string_cols e = cols"
      "db_inv env d'" "proper d'" "primary_keys d' = pks" "string_cols d' = cols"
    using g unfolding db_good_def by blast
  have p: "patchable env d e" using a by (simp add: patchable_def)
  have s: "same_doc env d d'" by (rule equal_is_same_doc) (use a eq in \<open>simp_all add: db_sync_def\<close>)
  obtain q c where c: "db_make_patch env d e = Inr q" "db_apply_patch env d' q = Inr c" "reaches env d' e c"
    using patch_reaches[OF p s] by blast
  have c': "db_is_equal c (Some e)" "proper c" "db_inv env c"
    using reaches_proper[OF same_patchable[OF p s] c(3)] by simp_all
  have "primary_keys c = pks" "string_cols c = cols" using c(3) a by (simp_all add: reaches_def)
  then show "db_good env pks cols (se_apply (db_sync env pks cols b) a' (Some (se_make (db_sync env pks cols b) a b'))) \<and>
      se_equal (db_sync env pks cols b) (se_apply (db_sync env pks cols b) a' (Some (se_make (db_sync env pks cols b) a b'))) b'"
    using a c c' by (simp add: db_sync_def db_good_def db_make_def)
qed (auto simp: db_sync_def db_good_def db_is_equal_def)

lemma db_sync_ok: "libs_ok b (db_make env) \<Longrightarrow> env_ok (db_sync env pks cols b)"
  by (simp add: env_ok_def libs_ok_def db_sync_def)

lemma db_empty:
  assumes "env_laws env" "distinct pks" "pks \<noteq> []"
  shows "db_good env pks cols (se_from_str (db_sync env pks cols b) '''')"
proof -
  obtain d where d: "new_doc env pks cols [] = Inr d" using assms(3) by (simp add: new_doc_def)
  then have f: "primary_keys d = pks" "string_cols d = cols" "records d = []" using assms(3) by (auto simp: new_doc_def)
  have "db_from_str env '''' pks cols = Some (Inr d)" using d assms(2) by (simp add: db_from_str_def distinct_remdups_id)
  moreover have "rset d = {}" using f(3) by (simp add: rset_def rec_at_def)
  then have "proper d" by (simp add: proper_def keyed_iff uniq_def incomparable_def) (simp add: f(3) rec_at_def)
  ultimately show ?thesis using assms(1) new_doc_inv[OF d assms(2)] f by (simp add: db_good_def db_sync_def)
qed

end
