(* ===== verification/SyncWitness.thy ===== *)
theory SyncWitness
  imports StringDoc PatchProps "HOL-Library.Code_Target_Nat"
begin

text \<open>
  Concrete runs of synchronized strings, on which the properties are evaluated. The patches of the
  instance of diff-match-patch carry the new string; the cache never forgets.
\<close>

section \<open>The instance\<close>

definition w_dmp :: dmp where
  "w_dmp = \<lparr>patch_make = (\<lambda>s0 s1. [\<lparr>po_diffs = Some (JStr s1), po_start1 = Some JNull, po_start2 = Some JNull,
       po_length1 = Some JNull, po_length2 = Some JNull\<rparr>]),
     patch_apply = (\<lambda>ps t. case ps of [p] \<Rightarrow> (case po_diffs p of Some (JStr s) \<Rightarrow> Some (s, [True]) | _ \<Rightarrow> None) | _ \<Rightarrow> None)\<rparr>"

definition w_libs :: "(string, json list, (nat, string \<times> nat) obj) libs" where
  "w_libs = \<lparr>lib_stringify = (\<lambda>p. case p of [JArr (JStr s # _)] \<Rightarrow> s | _ \<Rightarrow> ''''),
     lib_parse = (\<lambda>s. string_make_patch w_dmp '''' s), lib_cget = map_cget, lib_cset = map_cset\<rparr>"

definition w_env :: "(string, json list, (nat, string \<times> nat) obj) sync_env" where
  "w_env = string_sync w_dmp w_libs"

lemma w_dmp_ok: "dmp_ok w_dmp s"
  by (simp add: dmp_ok_def dmp_laws_def w_dmp_def full_object_def)

lemma w_libs_ok: "libs_ok w_libs (string_make_patch w_dmp)" "\<forall>t. fst (lib_cget w_libs [] t) = None"
  by (simp_all add: libs_ok_def w_libs_def map_lru_laws string_make_patch_def make_patch_def w_dmp_def compress_patch_def map_cget_def)

lemma w_env_ok: "env_ok w_env" "\<forall>t. fst (se_cget w_env [] t) = None"
  unfolding w_env_def by (rule string_sync_ok[OF w_libs_ok(1)]) (use w_libs_ok(2) in \<open>simp add: string_sync_def\<close>)

lemma w_env_equal: "se_equal w_env a b \<longleftrightarrow> a = b"
  by (simp add: w_env_def string_sync_def string_is_equal_def)

definition at_time :: "nat \<Rightarrow> clock" where
  "at_time t = \<lparr>now = t, rnd = 0, walltime = int t\<rparr>"

section \<open>Runs\<close>

text \<open>The actions of several clients, one after the other; an action may refer to the rows of the table.\<close>

fun net_run :: "('d, 'p, 'c) sync_env \<Rightarrow> nat \<Rightarrow> nat \<Rightarrow> (nat \<times> (row list \<Rightarrow> 'd action)) list \<Rightarrow> ('d, 'p, 'c) net_state \<Rightarrow>
    ('d, 'p, 'c) net_state option" where
  "net_run env D n [] st = Some st"
| "net_run env D n ((i, f) # as) (T, cl) =
     (if i < n \<and> in_time D n (f T) T \<and> arriving (f T) \<subseteq> set T
      then (case perform env (f T) (cl i) of
          Inl e \<Rightarrow> None
        | Inr s \<Rightarrow> net_run env D n as (T @ sent s, cl(i := s\<lparr>sent := []\<rparr>)))
      else None)"

lemma net_run_net: "net env D n c0 st \<Longrightarrow> net_run env D n as st = Some st' \<Longrightarrow> net env D n c0 st'"
proof (induction env D n as st rule: net_run.induct)
  case (2 env D n i f as T cl)
  then obtain s where step: "i < n" "in_time D n (f T) T" "arriving (f T) \<subseteq> set T" "perform env (f T) (cl i) = Inr s"
      "net_run env D n as (T @ sent s, cl(i := s\<lparr>sent := []\<rparr>)) = Some st'"
    by (auto split: if_splits sum.splits)
  show ?case by (rule "2.IH"[OF _ step(4) net_act[OF 2(2) step(1-4)] step(5)]) (use step in blast)
qed simp

definition w_start :: "(string, json list, (nat, string \<times> nat) obj) net_state" where
  "w_start = ([], \<lambda>i. projr (init_patch_list w_env [] [] i 2))"

lemma w_start_net: "net w_env 5 2 [] w_start"
proof -
  have "init_patch_list w_env [] [] i 2 = Inr (projr (init_patch_list w_env [] [] i 2))" for i
    by (simp add: init_patch_list_def get_patches_def)
  then show ?thesis unfolding w_start_def by (intro net_start)
qed

text \<open>What the actions of one client show.\<close>

fun shown :: "('d, 'p, 'c) sync_env \<Rightarrow> 'd action list \<Rightarrow> ('d, 'p, 'c) sync_doc \<Rightarrow> 'd list" where
  "shown env [] s = []"
| "shown env (a # as) s = (case perform env a s of Inl e \<Rightarrow> [] | Inr s' \<Rightarrow> live_doc s' # shown env as s')"

text \<open>One client commits, the other has an edit.\<close>

definition w_before :: "(string, json list, (nat, string \<times> nat) obj) net_state option" where
  "w_before = net_run w_env 5 2 [(0, \<lambda>T. Edit ''a''), (0, \<lambda>T. Commit (at_time 10000)), (1, \<lambda>T. Edit ''b'')] w_start"

lemma w_before_facts:
  "case w_before of None \<Rightarrow> False | Some (T, cl) \<Rightarrow> length T = 1 \<and> \<not> sync_is_disabled (cl 1) \<and>
     in_time 5 2 (Receive (at_time 10000) (at_time 10010) T None) T \<and> live_doc (cl 1) = ''b'' \<and> last_doc (cl 1) = ''''"
  by code_simp

text \<open>Then they exchange their patches.\<close>

definition w_after :: "(string, json list, (nat, string \<times> nat) obj) net_state option" where
  "w_after = net_run w_env 5 2 [(0, \<lambda>T. Edit ''a''), (0, \<lambda>T. Commit (at_time 10000)), (1, \<lambda>T. Edit ''b''),
     (1, \<lambda>T. Receive (at_time 10000) (at_time 10010) T None), (0, \<lambda>T. Receive (at_time 10020) (at_time 10020) T None)] w_start"

lemma w_after_facts:
  "case w_after of None \<Rightarrow> False | Some (T, cl) \<Rightarrow> map x_time T = [10000, 10001] \<and> \<not> sync_is_disabled (cl 0) \<and>
     (\<forall>x \<in> set T. has_row (cl 0) x) \<and> live_doc (cl 0) = ''b'' \<and> last_doc (cl 0) = ''b''"
  by code_simp

text \<open>Two commits of one client, and then an edit.\<close>

definition w_two :: "(string, json list, (nat, string \<times> nat) obj) net_state option" where
  "w_two = net_run w_env 5 2 [(0, \<lambda>T. Edit ''a''), (0, \<lambda>T. Commit (at_time 10000)), (0, \<lambda>T. Edit ''ab''),
     (0, \<lambda>T. Commit (at_time 10010))] w_start"

lemma w_two_facts:
  "case w_two of None \<Rightarrow> False | Some (T, cl) \<Rightarrow> map x_time T = [10000, 10010] \<and> \<not> sync_is_disabled (cl 0) \<and>
     (\<forall>x \<in> set T. has_row (cl 0) x) \<and> live_doc (cl 0) = ''ab'' \<and> last_doc (cl 0) = ''ab'' \<and> undo_mode (cl 0) = None \<and>
     js_keys (my_patches (cl 0)) = [10000, 10010] \<and> (\<forall>x \<in> set T. room 5 2 3 (x_time x)) \<and>
     (\<forall>(_, c) \<in> set [(True, at_time 10020), (True, at_time 10030), (False, at_time 10040)]. clock_ok 5 2 3 c)"
  by code_simp

section \<open>A table\<close>

text \<open>The patches of a table as JSON.\<close>

definition pair_json :: "string \<times> json \<Rightarrow> json" where
  "pair_json x = JArr [JStr (fst x), snd x]"

definition part_json :: "int \<times> js_obj list \<Rightarrow> json" where
  "part_json x = JArr [JNum (of_int (fst x)), JArr (map (\<lambda>o'. JArr (map pair_json o')) (snd x))]"

definition patch_json :: "db_patch option \<Rightarrow> string" where
  "patch_json p = enc (case p of None \<Rightarrow> JNull | Some xs \<Rightarrow> JArr (map part_json xs))"

lemma inj_patch_json: "inj patch_json"
proof -
  have pair: "inj pair_json" by (auto simp: inj_def pair_json_def prod_eq_iff)
  then have "inj (\<lambda>o'. JArr (map pair_json o'))" by (auto simp: inj_def inj_map_eq_map[OF pair])
  then have "inj part_json" by (auto simp: inj_def part_json_def prod_eq_iff inj_map_eq_map)
  then have "inj (\<lambda>p. case p of None \<Rightarrow> JNull | Some xs \<Rightarrow> JArr (map part_json xs))"
    by (auto simp: inj_def inj_map_eq_map[OF \<open>inj part_json\<close>] split: option.splits)
  from inj_compose[OF inj_enc this] show ?thesis by (simp add: patch_json_def comp_def inj_def)
qed

definition t_libs :: "(dbdoc option, db_patch option, (nat, dbdoc option \<times> nat) obj) libs" where
  "t_libs = \<lparr>lib_stringify = patch_json, lib_parse = inv patch_json, lib_cget = map_cget, lib_cset = map_cset\<rparr>"

lemma t_libs_ok: "libs_ok t_libs mk" "\<forall>t. fst (lib_cget t_libs [] t) = None"
  by (simp_all add: libs_ok_def t_libs_def map_lru_laws inv_f_f[OF inj_patch_json] map_cget_def)

definition t_first :: dbdoc where
  "t_first = witness_doc [[(''key'', JStr ''a''), (''text'', JStr ''x'')], [(''key'', JStr ''b'')]]"

definition t_second :: dbdoc where
  "t_second = witness_doc [[(''key'', JStr ''a''), (''text'', JStr ''y'')], [(''key'', JStr ''c'')]]"

lemma t_good: "db_good witness_env [''key'', ''pos''] [''text''] (Some t_first)"
  "db_good witness_env [''key'', ''pos''] [''text''] (Some t_second)"
proof -
  have "proper t_first" unfolding t_first_def by (rule witness_doc_proper) code_simp+
  moreover have "proper t_second" unfolding t_second_def by (rule witness_doc_proper) code_simp+
  moreover have "primary_keys (witness_doc xs) = [''key'', ''pos'']" "string_cols (witness_doc xs) = [''text'']" for xs
    by (simp_all add: witness_doc_def new_doc_def)
  ultimately show "db_good witness_env [''key'', ''pos''] [''text''] (Some t_first)"
    "db_good witness_env [''key'', ''pos''] [''text''] (Some t_second)"
    using witness_env_laws witness_doc_inv by (simp_all add: db_good_def t_first_def t_second_def)
qed

end
