(* ===== verification/SyncProps.thy ===== *)
theory SyncProps
  imports SyncWitness
begin

text \<open>
  The properties of synchronized documents, for several clients with any documents, for strings, and
  for tables.
\<close>

section \<open>Several clients\<close>

lemma has_row_known: "has_row s x \<longleftrightarrow> x_time x \<in> dom (total (patch_list s))"
  by (auto simp: has_row_def hasVersion_def total_def)

lemma all_rows_known: "\<forall>x \<in> set (rows_of T s). has_row s x \<Longrightarrow> known_rows T s = set (rows_of T s)"
  by (auto simp: known_rows_def has_row_known)

lemma known_has_row: "x \<in> known_rows T s \<Longrightarrow> has_row s x"
  by (simp add: known_rows_def has_row_known)

lemma perform_in_net:
  assumes "env_ok env" "\<forall>t. fst (se_cget env c0 t) = None" "net env D n c0 (T, cl)" "i < n" "in_time D n a T" "arriving a \<subseteq> set T"
  shows "\<exists>s. perform env a (cl i) = Inr s \<and> (\<forall>x \<in> set T. has_row (cl i) x \<longrightarrow> has_row s x)"
proof -
  have net: "net_ok env D n T cl" using net_invariant[OF assms(1-3)] by simp
  obtain s where s: "perform env a (cl i) = Inr s" "known_rows T (cl i) \<subseteq> known_rows T s"
    using net_step_ok[OF assms(1) net assms(4-6)] by metis
  have "x \<in> known_rows T (cl i)" if "x \<in> set T" "has_row (cl i) x" for x
    using that by (simp add: known_rows_def has_row_known)
  then show ?thesis using s known_has_row by blast
qed

text \<open>C8: The patches that clients of any number of different users commit, in whatever order they receive each other's, form a
  table in which no two have the same time, the time tells who made it, and the parents of a
  patch are earlier patches of the table. No action of a client throws an error, and no client
  forgets a patch. Conditions: each client has a user of its own (two clients of one account share the number that
  keeps times apart, and \<open>PatchProps.same_time_never_reconciled\<close> says what a collision does), the clocks
  have the same number of digits and are not about to run out of them, and each client starts or joins with
  what is in the table.\<close>

theorem commits_form_history:
  assumes "env_ok env" "\<forall>t. fst (se_cget env c0 t) = None" "net env D n c0 (T, cl)" "0 < n"
  shows "distinct (map x_time T) \<and>
    (\<forall>x \<in> set T. int (x_time x mod n) = x_user_id x \<and>
       (\<forall>q \<in> set (row_parents x). q < x_time x \<and> (\<exists>y \<in> set T. x_time y = q))) \<and>
    (\<forall>i a. i < n \<longrightarrow> in_time D n a T \<longrightarrow> arriving a \<subseteq> set T \<longrightarrow>
       (\<exists>s. perform env a (cl i) = Inr s \<and> (\<forall>x \<in> set T. has_row (cl i) x \<longrightarrow> has_row s x)))"
proof (intro conjI)
  have "net_ok env D n T cl" using net_invariant[OF assms(1-3)] by simp
  then have "client_ok env D n 0 T (cl 0)" "sent (cl 0) = []" using assms(4) by (simp_all add: net_ok_def)
  then have T: "table_ok D n T" by (simp add: client_ok_def)
  then show "distinct (map x_time T)" by (simp add: table_ok_def)
  show "\<forall>x \<in> set T. int (x_time x mod n) = x_user_id x \<and>
       (\<forall>q \<in> set (row_parents x). q < x_time x \<and> (\<exists>y \<in> set T. x_time y = q))"
    using T unfolding table_ok_def plain_row_def by fastforce
  show "\<forall>i a. i < n \<longrightarrow> in_time D n a T \<longrightarrow> arriving a \<subseteq> set T \<longrightarrow>
       (\<exists>s. perform env a (cl i) = Inr s \<and> (\<forall>x \<in> set T. has_row (cl i) x \<longrightarrow> has_row s x))"
    using perform_in_net[OF assms(1-3)] by blast
qed

lemma commits_form_history_witness:
  "case w_after of None \<Rightarrow> False | Some (T, cl) \<Rightarrow> distinct (map x_time T) \<and> map x_time T = [10000, 10001]"
proof (cases w_after)
  case None
  then show ?thesis using w_after_facts by simp
next
  case st: (Some st)
  obtain T cl where p: "st = (T, cl)" by (cases st)
  note f = w_after_facts[unfolded st p option.case prod.case]
  have "net w_env 5 2 [] (T, cl)" by (rule net_run_net[OF w_start_net st[unfolded w_after_def p]])
  from commits_form_history[OF w_env_ok this] show ?thesis unfolding st p using f by simp
qed

text \<open>C18: When all patches arrive that a client misses, its document becomes the value of the whole table, and an edit
  that was not yet committed is merged: the patch from the document of the last commit to the live
  document is applied to that value. The client is one of any number of clients of different users, it may
  have any history, synchronization is not disabled, and the user does not edit while the patches are processed.\<close>

theorem receive_merges:
  assumes env: "env_ok env" and c0: "\<forall>t. fst (se_cget env c0 t) = None" and net: "net env D n c0 (T, cl)" and i: "i < n"
    and a: "in_time D n (Receive c1 c2 xs None) T" "set xs \<subseteq> set T" "\<forall>x \<in> set T. has_row (cl i) x \<or> x \<in> set xs"
    and s: "\<not> sync_is_disabled (cl i)" "se_equal env (live_doc (cl i)) (live_doc (cl i))"
  shows "\<exists>s. perform env (Receive c1 c2 xs None) (cl i) = Inr s \<and>
    agrees env (live_doc s)
      (if se_equal env (last_doc (cl i)) (live_doc (cl i)) then replay env None T
       else se_apply env (replay env None T) (Some (se_make env (last_doc (cl i)) (live_doc (cl i)))))"
proof -
  let ?s = "cl i"
  have "net_ok env D n T cl" using net_invariant[OF env c0 net] by simp
  then have ci: "client_ok env D n 0 T ?s" "sent ?s = []" using i by (simp_all add: net_ok_def)
  have ok: "client_ok env D n (Suc (Suc 0)) T ?s"
    using client_room[OF ci(1), of 2] a(1) ci(2) by (simp add: in_time_def numeral_2_eq_2)
  have cc: "clock_ok D n (Suc (Suc 0)) c1" "clock_ok D n (Suc 0) c2" using a(1) clock_less by (simp_all add: in_time_def)
  have xs: "set xs \<subseteq> set (rows_of T ?s)" using a(2) by auto
  note r = receive_result[OF env ok cc xs]
  define v where "v = filter (\<lambda>x. x_time x \<noteq> 0 \<and> obj_get (my_patches ?s) (x_time x) = None) xs"
  define s1 where "s1 = ?s\<lparr>patch_list := add_patches (map (patch_of env) v) (patch_list ?s)\<rparr>"
  note r = r[folded v_def, folded s1_def]
  have docs: "live_doc s1 = live_doc ?s" "last_doc s1 = last_doc ?s" "sync_is_disabled s1 = sync_is_disabled ?s" "sent s1 = []"
    using ci(2) by (simp_all add: s1_def)
  have K: "known_rows T s1 = set (rows_of T s1)"
    unfolding r(3) using a(2,3) docs(4) ci(2) by (auto simp: known_rows_def has_row_known)
  note all = all_known_value[OF env r(2) K]
  have val: "doc_value env None s1 = replay env None T" using all(1)[of None] docs(4) by simp
  note com = commit_cases[OF env r(2) cc(1)]
  let ?p = "se_make env (last_doc ?s) (live_doc ?s)"
  define s2 where "s2 = (if se_equal env (last_doc ?s) (live_doc ?s) then s1 else committed env c1 ?p (s1\<lparr>last_doc := live_doc s1\<rparr>))"
  have s2: "commit env c1 s1 = Inr s2" "client_ok env D n (Suc 0) T s2" "live_doc s2 = live_doc ?s"
      "se_equal env (last_doc s2) (live_doc s2)"
    using com docs s(2) client_less[OF r(2)] by (simp_all add: s2_def)
  have val2: "doc_value env None s2 = (if se_equal env (last_doc ?s) (live_doc ?s) then replay env None T
      else se_apply env (replay env None T) (Some ?p))"
  proof (cases "se_equal env (last_doc ?s) (live_doc ?s)")
    case False
    have "client_ok env D n (Suc (Suc 0)) T (s1\<lparr>last_doc := live_doc s1\<rparr>)" using r(2) by simp
    from committed_value(1)[OF env this cc(1) _ made_sendable[OF env], of None "last_doc ?s" "live_doc ?s"]
    show ?thesis using False all(3) val by (simp add: s2_def is_without_def)
  qed (simp add: s2_def val)
  have c2: "commit env c2 s2 = Inr s2" using s2(4) by (simp add: commit_def)
  obtain m where m: "value_at env None None s2 = Inr (doc_value env None s2, with_cache m s2)"
    by (rule client_value[OF env s2(2)])
  have "perform env (Receive c1 c2 xs None) ?s = sync_remote_and_doc env c1 c2 (v \<noteq> []) None s1" using r(1) by simp
  also have "\<dots> = Inr (if se_equal env (live_doc s2) (doc_value env None s2) then with_cache m s2
      else (with_cache m s2)\<lparr>last_doc := doc_value env None s2, live_doc := doc_value env None s2\<rparr>)"
    using s(1) docs(3) s2(1) c2 m by (simp add: sync_remote_and_doc_def)
  finally show ?thesis unfolding val2[symmetric] by (intro exI conjI) (auto simp: agrees_def)
qed

lemma receive_merges_witness:
  "case w_before of None \<Rightarrow> False
   | Some (T, cl) \<Rightarrow> (\<exists>s. perform w_env (Receive (at_time 10000) (at_time 10010) T None) (cl 1) = Inr s \<and>
       agrees w_env (live_doc s) (se_apply w_env (replay w_env None T) (Some (se_make w_env '''' ''b''))))"
proof (cases w_before)
  case None
  then show ?thesis using w_before_facts by simp
next
  case st: (Some st)
  obtain T cl where p: "st = (T, cl)" by (cases st)
  note f = w_before_facts[unfolded st p option.case prod.case]
  have "net w_env 5 2 [] (T, cl)" by (rule net_run_net[OF w_start_net st[unfolded w_before_def p]])
  from receive_merges[OF w_env_ok this, of 1 "at_time 10000" "at_time 10010" T] show ?thesis
    unfolding st p using f by (auto simp: w_env_equal simp del: One_nat_def)
qed

section \<open>Strings\<close>

text \<open>C1: Clients of a string agree: in every interleaving of edits, commits, undo, redo, deliveries and clients
  that join, a client that has all patches and no edit of its own that is not committed shows the
  replay of the patches in the order of their times. The clients are of different users (two clients
  of one account may draw the same time), synchronization is not disabled, and patches of strings lead from one string to the other
  exactly.\<close>

theorem string_clients_agree:
  assumes "dmp_ok l ''''" "libs_ok b (string_make_patch l)" "\<forall>t. fst (lib_cget b c0 t) = None"
    and "net (string_sync l b) D n c0 (T, cl)" "i < n"
    and "\<not> sync_is_disabled (cl i)" "\<forall>x \<in> set T. has_row (cl i) x" "live_doc (cl i) = last_doc (cl i)"
  shows "live_doc (cl i) = replay (string_sync l b) None T"
proof -
  let ?env = "string_sync l b"
  have env: "env_ok ?env" by (rule string_sync_ok[OF assms(2)])
  have c0: "\<forall>t. fst (se_cget ?env c0 t) = None" using assms(3) by (simp add: string_sync_def)
  have "net_ok ?env D n T cl" using net_invariant[OF env c0 assms(4)] by simp
  then have ci: "client_ok ?env D n 0 T (cl i)" "sent (cl i) = []" using assms(5) by (simp_all add: net_ok_def)
  note all = all_known_value[OF env ci(1) all_rows_known]
  have "settled ?env (cl i)" using strings.net_settled[OF env c0 assms(1,4,5)] by simp
  then show ?thesis using all(1)[of None] all(3) assms(6-8) ci(2) by (simp add: settled_def)
qed

lemma string_clients_agree_witness:
  "case w_after of None \<Rightarrow> False | Some (T, cl) \<Rightarrow> live_doc (cl 0) = replay w_env None T \<and> live_doc (cl 0) = ''b''"
proof (cases w_after)
  case None
  then show ?thesis using w_after_facts by simp
next
  case st: (Some st)
  obtain T cl where p: "st = (T, cl)" by (cases st)
  note f = w_after_facts[unfolded st p option.case prod.case]
  have "net w_env 5 2 [] (T, cl)" by (rule net_run_net[OF w_start_net st[unfolded w_after_def p]])
  from string_clients_agree[OF w_dmp_ok w_libs_ok this[unfolded w_env_def], of 0] show ?thesis
    unfolding st p using f by (simp add: w_env_def)
qed



section \<open>Tables\<close>

text \<open>C9: What is committed is what others load: after any edits and commits of a table by one client, another
  client that loads the patches shows a table equal to that of the last commit, although only the differences
  were sent. Conditions: nobody else writes; every document that is committed or edited is \<open>db_good\<close>: it has the
  same columns, no record has the primary keys of another or more of them, nothing is null, also not inside maps, and string columns
  hold strings (\<open>DbDocProps.shorter_key_edits_longer\<close> shows what happens to other tables).\<close>

theorem table_commits_are_loaded:
  fixes db pks cols b
  defines "env \<equiv> db_sync db pks cols b"
  assumes "env_laws db" "distinct pks" "pks \<noteq> []" "libs_ok b (db_make db)" "\<forall>t. fst (lib_cget b c0 t) = None"
    and "i < n" "j < n" "init_patch_list env [] c0 i n = Inr s0"
    and "\<forall>a \<in> set as. writing (db_good db pks cols) D n (length as) a"
  shows "\<exists>s t. run env as s0 = Inr s \<and> init_patch_list env (sent s) c0 j n = Inr t \<and>
    se_equal env (live_doc t) (last_doc s)"
  unfolding env_def
  by (rule tables.load_in_step[OF db_sync_ok[OF assms(5)] _ assms(7,8) db_empty[OF assms(2-4)] assms(9)[unfolded env_def] assms(10)])
    (use assms(6) in \<open>simp add: db_sync_def\<close>)

lemma table_commits_are_loaded_witness:
  "\<exists>s0 s t. init_patch_list (db_sync witness_env [''key'', ''pos''] [''text''] t_libs) [] [] 0 2 = Inr s0 \<and>
    run (db_sync witness_env [''key'', ''pos''] [''text''] t_libs)
      [Edit (Some t_first), Commit (at_time 10000), Edit (Some t_second), Commit (at_time 10010)] s0 = Inr s \<and>
    init_patch_list (db_sync witness_env [''key'', ''pos''] [''text''] t_libs) (sent s) [] 1 2 = Inr t \<and>
    se_equal (db_sync witness_env [''key'', ''pos''] [''text''] t_libs) (live_doc t) (last_doc s)"
proof -
  let ?env = "db_sync witness_env [''key'', ''pos''] [''text''] t_libs"
  obtain s0 where s0: "init_patch_list ?env [] [] 0 2 = Inr s0" by (simp add: init_patch_list_def get_patches_def)
  have c: "clock_ok 5 2 4 (at_time 10000)" "clock_ok 5 2 4 (at_time 10010)" by code_simp+
  let ?as = "[Edit (Some t_first), Commit (at_time 10000), Edit (Some t_second), Commit (at_time 10010)]"
  have as: "\<forall>a \<in> set ?as. writing (db_good witness_env [''key'', ''pos''] [''text'']) 5 2 (length ?as) a"
    using t_good c by (simp add: eval_nat_numeral)
  have "\<exists>s t. run ?env ?as s0 = Inr s \<and> init_patch_list ?env (sent s) [] 1 2 = Inr t \<and> se_equal ?env (live_doc t) (last_doc s)"
    by (rule table_commits_are_loaded[OF witness_env_laws _ _ t_libs_ok _ _ s0 as]) simp_all
  then show ?thesis using s0 by blast
qed

text \<open>A redo after an undo commits a patch that undo mode does not count: the patch of the edit that was not committed
  when undo began. The next undo therefore leaves out the last two edits at once, here
  \<open>abc\<close> becomes \<open>a\<close> although undo had shown \<open>ab\<close> between them.\<close>

theorem undo_skips_a_step:
  "case w_two of None \<Rightarrow> False
   | Some (T, cl) \<Rightarrow>
       shown w_env [Edit ''abc'', Undo (at_time 10020), Redo (at_time 10030), Undo (at_time 10040)] (cl 0) =
         [''abc'', ''ab'', ''abc'', ''a'']"
  by code_simp

end
