(* ===== verification/Spec2Isabelle.thy ===== *)
theory Spec2Isabelle
  imports Interest Storage Tcp CoreStream FrameNormal PatchProps DkvNet DStreamProps Dko DbDocProps SyncProps
begin

text \<open>
  A verification library for the core logic of CoCalc, a platform for collaborative computing
  (TypeScript, the packages under \<^verbatim>\<open>src/packages\<close>).

  \<^bold>\<open>The program.\<close> Browsers, projects and hubs talk through Conat, a publish/subscribe messaging
  system. A Conat server keeps the interest of its clients in subjects and routes each message to
  them. On top of it are sockets that deliver in order, and persistent streams: an SQLite table on a
  server with a feed of changes, a client object that follows it, and an eventually consistent
  key:value store on top of that. Documents that several users edit at once are sets of patches in
  such a stream; a client computes the value of a document from the patches it knows. The editors
  show documents in trees of frames.

  \<^bold>\<open>Theories\<close>, in the order of the layers. Each opens with what it models.

    \<^item> Prelude (JavaScript objects as association lists, splitting of strings), JsSort
      (\<open>Array.prototype.sort\<close>, which compares numbers as strings), Misc (the string hash).
    \<^item> Subjects, Patterns: \<^verbatim>\<open>conat/util.ts\<close>, \<^verbatim>\<open>conat/core/patterns.ts\<close>. The record \<open>patterns_obj\<close>
      is the class Patterns with its index, an object nested by the segments of the patterns.
      Lemmas: what an index stores and which patterns its matching finds.
    \<^item> Interest: \<^verbatim>\<open>conat/core/server.ts\<close>, the interest in subjects, subscribing, publishing. The subscribe
      handler is split where it waits; \<open>served\<close> is the relation of the states that interleaved handlers reach.
      Lemmas: the rooms of the interest are those of the subscriptions.
    \<^item> Tcp: \<^verbatim>\<open>conat/socket/tcp.ts\<close>, the receiver and the sender of a socket and the unreliable
      network between them as a step relation. Lemmas: the invariant of receiver, sender and what
      is under way.
    \<^item> Storage: \<^verbatim>\<open>conat/persist/storage.ts\<close>. The record \<open>storage\<close> is the class PersistentStream
      with the table of its database. Lemmas: every operation keeps the table ordered with one row
      for each key, and the emitted changes describe it.
    \<^item> CoreStream: \<^verbatim>\<open>conat/sync/core-stream.ts\<close>, the client of a stream. Lemmas: \<open>tracks\<close>, the
      relation of the client to the messages of the server, is kept by every change.
    \<^item> Dkv: \<^verbatim>\<open>conat/sync/dkv.ts\<close>, with \<open>setMany\<close> of \<^verbatim>\<open>conat/persist/server.ts\<close>. DkvClient: one
      store; DkvNet: the composition of a server, any number of streams and their stores, as a step
      relation in which users, attempts to save, deliveries and other clients interleave.
    \<^item> DStream: \<^verbatim>\<open>conat/sync/dstream.ts\<close>, the record \<open>dstream\<close> is the class DStream. DStreamNet: any number of
      them on a server, as a step relation; its invariant says where each published message is.
      DStreamProps: the properties. Dko: \<^verbatim>\<open>conat/sync/dko.ts\<close>, objects as fields in a Dkv.
    \<^item> StorageLog: the log of the changes of a stream, which Dkv and DStream clients follow.
    \<^item> PatchList: \<^verbatim>\<open>sync/editor/generic/sorted-patch-list.ts\<close>. PatchValue: the value of a document
      and the cache; PatchAdd: adding patches and sessions; PatchConverge: what does not depend on
      the order of delivery, and the effect of a commit; PatchProps: the properties.
    \<^item> Json: JSON values, merging of maps (\<^verbatim>\<open>sync/editor/db/util.ts\<close>) and patches of strings
      (\<^verbatim>\<open>util/dmp.ts\<close>). DbDoc: \<^verbatim>\<open>sync/editor/db/doc.ts\<close>, the record \<open>dbdoc\<close> is the class
      DBDocument. DbDocIndex: the invariant \<open>db_inv\<close> of the indexes is kept by every write, and a
      query is a search. DbDocPatch: a patch that was made reaches the other document; DbDocProps:
      the properties.
    \<^item> SyncDoc: \<^verbatim>\<open>sync/editor/generic/sync-doc.ts\<close>, the record \<open>sync_doc\<close> is the class SyncDoc: the
      live document, commits, merging, undo and redo on top of PatchList. SyncSession: the invariant
      \<open>client_ok\<close> of one client. SyncNet: any number of clients that share the table of patches, as a
      step relation. SyncText: clients show the value of what they know, for documents that satisfy the
      locale \<open>document\<close> and, with equality, \<open>text_document\<close>; SyncUndo: undo and redo are moves of a
      position. StringDoc: \<^verbatim>\<open>sync/editor/string/doc.ts\<close>, strings and tables (DbDoc) as such
      documents, which interprets the locales. SyncWitness: concrete runs; SyncProps: the properties.
    \<^item> FrameTree, FrameEdit: \<^verbatim>\<open>frontend/frame-editors/frame-tree/tree-ops.ts\<close>, reading and editing.
      FrameMove: what an edit does to the leaves and the ids (the locale \<open>tree_measure\<close>, interpreted
      for both); FrameLayout: the layout, an invariant of every sequence of edits; FrameNormal:
      normalization as a chain of passes (the locales \<open>leaf_pass\<close> and \<open>pass_chain\<close>).

  \<^bold>\<open>How the code is represented.\<close> A class is a record, its methods are functions on it in the
  order of the code. An exception is the left of a sum or the absence of a value. An asynchronous
  method is split at its \<open>await\<close>s; what runs in between is a step. Events that an object emits are a
  list in its record. Random numbers, the clock, codecs, diffs, SQLite's zstd and the least recently
  used cache are parameters; the laws assumed of them (\<open>codec_ok\<close>, \<open>lru_laws\<close>, \<open>env_laws\<close>, \<open>env_ok\<close>,
  \<open>libs_ok\<close>, \<open>dmp_ok\<close>, \<open>dko_laws\<close>: JSON reads back what it wrote, a cache returns what was put in or nothing, a
  patch of two strings leads from one to the other) are documented behaviour of those libraries and hold of the instances in the witnesses. An \<open>immutable.Map\<close> is a
  finite map; where the program iterates over an unordered set, the order is a parameter too.

  \<^bold>\<open>Bounds.\<close> All loops are total functions: structural recursions, or functions with a measure (the
  patches that are not yet visited, the size of the staging area). Two loops need not end and are
  partial functions or use the clock of their callers: the generation of a random id, which ends as
  soon as an unused id is drawn, and the resending of messages. The search for a snapshot time makes at
  most the ten attempts of the code. Numbers are unbounded integers (JavaScript's are exact up to
  2^53). Times of patches are compared as strings, so the clients of a document have clocks of the same
  number \<open>D\<close> of digits (13 until the year 2286), and \<open>room\<close> keeps the times of new patches below
  \<open>10 ^ D\<close>: a commit is at most \<open>slack n\<close> later than the clock and all known patches. Sizes of frames are rationals with NaN and infinities.

  \<^bold>\<open>Composition.\<close> \<open>CoreStream.client_kv_is_server_kv\<close> joins Storage and CoreStream,
  \<open>DkvNet.settled_clients_agree\<close> joins these with Dkv, for any number of clients, and
  \<open>DStreamProps.published_shown_once\<close> with DStream.
  \<open>SyncProps.table_commits_are_loaded\<close> joins SyncDoc, PatchList and DbDoc, and
  \<open>SyncProps.string_clients_agree\<close> SyncDoc, PatchList and strings, for any number of clients.

  \<^bold>\<open>Assumptions of the step relations.\<close> The clients of a document are of different users (two clients of one
  account share the number that keeps times apart). Stores and streams start with all their clients on an empty
  stream, and an event whose processing throws is not received. Sockets of a server do not disconnect, and
  unsubscribe from a subject only while no stored pattern extends it or is extended by it. What
  goes wrong otherwise is a lemma or a finding of the manifest.

  \<^bold>\<open>Not modelled.\<close> The transport (socket.io, reconnecting, timeouts), clusters of servers,
  authentication, the timers of the stores, of documents the snapshots that a throttled task makes,
  loading of older history, files, cursors and the life cycle, and users that are added to a document
  while others are working (the number of users is fixed), and the parts of the program that are user interface,
  input and output, or glue around databases and operating systems: the manifest lists them with
  the reasons.
\<close>

end
